(* ===== verification/Prelude.thy ===== *)
theory Prelude
  imports Main "HOL-Library.Word"
begin

text \<open>
  Shared vocabulary of the development.

  \<^item> \<open>err\<close> and \<open>res\<close>: how a kernel routine can end other than by returning. \<open>Panic\<close> is
    \<^verbatim>\<open>_panic\<close> (reached through \<^verbatim>\<open>PANIC()\<close> or a failed \<^verbatim>\<open>ASSERT\<close>), \<open>Fault\<close> is an access through a null
    or out-of-range pointer, which C leaves undefined, and \<open>Blocked\<close> is a routine that
    sleeps or spins on something its own thread of control cannot provide.
  \<^item> \<open>rbind\<close> sequences such routines.
  \<^item> \<open>slice\<close> and \<open>patch\<close> read and overwrite a range of a byte array (what
    \<^verbatim>\<open>memcpy\<close>/\<^verbatim>\<open>memmove\<close> do to a buffer).
  \<^item> \<open>le_enc\<close> and \<open>le_dec\<close> are the little-endian layout of unsigned integers.
\<close>

named_theorems rbind_simps \<open>evaluation of sequenced kernel routines\<close>
named_theorems layout_simps \<open>reading and overwriting ranges of byte arrays\<close>

section \<open>Results of kernel routines\<close>

datatype err = Panic | Fault | Blocked

type_synonym 'a res = "err + 'a"
type_synonym byte = "8 word"

definition rbind :: "'a res \<Rightarrow> ('a \<Rightarrow> 'b res) \<Rightarrow> 'b res" where
  "rbind m f = (case m of Inl e \<Rightarrow> Inl e | Inr x \<Rightarrow> f x)"

lemma rbind_Inl [simp, rbind_simps]: "rbind (Inl e) f = Inl e"
  by (simp add: rbind_def)

lemma rbind_Inr [simp, rbind_simps]: "rbind (Inr x) f = f x"
  by (simp add: rbind_def)

lemma rbind_eq_Inr_conv: "rbind m f = Inr y \<longleftrightarrow> (\<exists>x. m = Inr x \<and> f x = Inr y)"
  by (cases m) auto

lemma rbind_eq_Inl_conv:
  "rbind m f = Inl e \<longleftrightarrow> m = Inl e \<or> (\<exists>x. m = Inr x \<and> f x = Inl e)"
  by (cases m) auto

lemma rbind_InrE [elim]:
  assumes "rbind m f = Inr y"
  obtains x where "m = Inr x" and "f x = Inr y"
  using assms by (auto simp: rbind_eq_Inr_conv)

lemma rbind_assoc: "rbind (rbind m f) g = rbind m (\<lambda>x. rbind (f x) g)"
  by (cases m) auto

lemma rbind_cong [fundef_cong]:
  "m = m' \<Longrightarrow> (\<And>x. m' = Inr x \<Longrightarrow> f x = f' x) \<Longrightarrow> rbind m f = rbind m' f'"
  by (cases m') auto

text \<open>\<^verbatim>\<open>ASSERT(b); k\<close>: the continuation runs only when the condition holds.\<close>

definition rassert :: "bool \<Rightarrow> 'a res \<Rightarrow> 'a res" where
  "rassert b k = (if b then k else Inl Panic)"

lemma rassert_simps [simp, rbind_simps]: "rassert True k = k" "rassert False k = Inl Panic"
  by (simp_all add: rassert_def)

lemma rassert_eq_Inr_conv [simp]: "rassert b k = Inr x \<longleftrightarrow> b \<and> k = Inr x"
  by (simp add: rassert_def)

lemma rassert_cong [fundef_cong]: "b = b' \<Longrightarrow> (b' \<Longrightarrow> k = k') \<Longrightarrow> rassert b k = rassert b' k'"
  by (simp add: rassert_def)

section \<open>Ranges of byte arrays\<close>

definition slice :: "nat \<Rightarrow> nat \<Rightarrow> 'a list \<Rightarrow> 'a list" where
  "slice off n xs = take n (drop off xs)"

definition patch :: "nat \<Rightarrow> 'a list \<Rightarrow> 'a list \<Rightarrow> 'a list" where
  "patch off ys xs = take off xs @ ys @ drop (off + length ys) xs"

lemma length_slice [simp]: "length (slice off n xs) = min n (length xs - off)"
  by (simp add: slice_def)

lemma length_patch [simp]:
  "off + length ys \<le> length xs \<Longrightarrow> length (patch off ys xs) = length xs"
  by (simp add: patch_def)

lemma nth_slice: "i < n \<Longrightarrow> off + i < length xs \<Longrightarrow> slice off n xs ! i = xs ! (off + i)"
  by (simp add: slice_def)

lemma nth_patch:
  assumes "off + length ys \<le> length xs" and "i < length xs"
  shows "patch off ys xs ! i =
    (if off \<le> i \<and> i < off + length ys then ys ! (i - off) else xs ! i)"
  using assms by (auto simp: patch_def nth_append min_def)

lemma slice_patch_same [layout_simps]:
  assumes "off + length ys \<le> length xs"
  shows "slice off (length ys) (patch off ys xs) = ys"
  using assms by (simp add: slice_def patch_def)

lemma slice_patch_disjoint [layout_simps]:
  assumes "off + length ys \<le> length xs" and "off' + n \<le> off \<or> off + length ys \<le> off'"
    and "off' + n \<le> length xs"
  shows "slice off' n (patch off ys xs) = slice off' n xs"
  using assms by (intro nth_equalityI) (auto simp: nth_slice nth_patch)

lemma patch_slice_id [layout_simps]:
  "off + n \<le> length xs \<Longrightarrow> patch off (slice off n xs) xs = xs"
  by (intro nth_equalityI) (auto simp: nth_patch nth_slice)

lemma patch_patch_same [layout_simps]:
  assumes "length ys = length zs" and "off + length ys \<le> length xs"
  shows "patch off zs (patch off ys xs) = patch off zs xs"
  using assms by (intro nth_equalityI) (auto simp: nth_patch)

lemma patch_all: "length ys = length xs \<Longrightarrow> patch 0 ys xs = ys"
  by (simp add: patch_def)

lemma slice_all [simp]: "slice 0 (length xs) xs = xs"
  by (simp add: slice_def)

section \<open>Little-endian integers\<close>

fun le_enc :: "nat \<Rightarrow> nat \<Rightarrow> byte list" where
  "le_enc 0 n = []"
| "le_enc (Suc k) n = word_of_nat (n mod 256) # le_enc k (n div 256)"

fun le_dec :: "byte list \<Rightarrow> nat" where
  "le_dec [] = 0"
| "le_dec (b # bs) = unat b + 256 * le_dec bs"

lemma length_le_enc [simp]: "length (le_enc k n) = k"
  by (induction k arbitrary: n) auto

lemma unat_byte_of_nat: "n < 256 \<Longrightarrow> unat (word_of_nat n :: byte) = n"
  by (simp add: unat_of_nat take_bit_nat_eq_self)

lemma le_dec_enc: "n < 256 ^ k \<Longrightarrow> le_dec (le_enc k n) = n"
proof (induction k arbitrary: n)
  case 0
  then show ?case by simp
next
  case (Suc k)
  then have "n div 256 < 256 ^ k"
    by (simp add: less_mult_imp_div_less mult.commute)
  then show ?case
    by (simp add: Suc.IH unat_byte_of_nat)
qed

lemma le_dec_less: "le_dec bs < 256 ^ length bs"
proof (induction bs)
  case Nil
  then show ?case by simp
next
  case (Cons b bs)
  have "unat b < 256" using unsigned_less [of b] by simp
  with Cons show ?case by simp
qed

lemma le_enc_dec: "length bs = k \<Longrightarrow> le_enc k (le_dec bs) = bs"
proof (induction bs arbitrary: k)
  case Nil
  then show ?case by simp
next
  case (Cons b bs)
  have "unat b < 256" using unsigned_less [of b] by simp
  with Cons show ?case by auto
qed

lemma le_enc_zero: "le_enc k 0 = replicate k 0"
  by (induction k) auto

lemma le_dec_zeros [simp]: "le_dec (replicate k 0) = 0"
  by (induction k) auto

section \<open>Lists\<close>

lemma list_update_map_upd:
  "distinct xs \<Longrightarrow> i < length xs \<Longrightarrow>
    map (\<lambda>x. if x = xs ! i then v else f x) xs = (map f xs)[i := v]"
  by (intro nth_equalityI) (auto simp: nth_list_update nth_eq_iff_index_eq)

lemma find_SomeD: "find P xs = Some x \<Longrightarrow> x \<in> set xs \<and> P x"
  by (auto simp: find_Some_iff)

lemma find_None_set: "find P xs = None \<longleftrightarrow> (\<forall>x\<in>set xs. \<not> P x)"
  by (auto simp: find_None_iff)

section \<open>Positions in rings\<close>

lemma ring_pos_inj:
  fixes a i j m :: nat
  assumes "(a + i) mod m = (a + j) mod m" and "i \<le> j" and "j < i + m"
  shows "i = j"
proof -
  have "m dvd (a + j) - (a + i)" using assms(1,2) mod_eq_dvd_iff_nat [of "a + i" "a + j" m] by simp
  then have "m dvd j - i" by simp
  moreover have "j - i < m" using assms(2,3) by linarith
  ultimately show ?thesis using assms(2) by (auto dest: dvd_imp_le)
qed

lemma nth_list_update': "xs[i := x] ! j = (if j = i \<and> i < length xs then x else xs ! j)"
  by (cases "i < length xs") (auto simp: nth_list_update not_less list_update_beyond)

end
