(* ===== verification/Locks.thy ===== *)
theory Locks
  imports Prelude
begin

text \<open>
  Spin locks (\<^verbatim>\<open>common/spinlock.c\<close>) and reference counts (\<^verbatim>\<open>common/rc.c\<close>).

  The routines are written as sequences of accesses to the flag: a plain load, the atomic test-and-set, the atomic clear. Run by one CPU alone they are functions
  on the lock, and acquiring a held lock never returns, which the other components see as \<open>Blocked\<close>. Run by many CPUs, one access at a time in any order, they
  are a step relation; mutual exclusion is an invariant of it.
\<close>

section \<open>The accesses of the routines\<close>

record SpinLock =
  locked :: bool

definition init_spinlock :: "SpinLock \<Rightarrow> SpinLock" where
  "init_spinlock lock = lock\<lparr>locked := False\<rparr>"

text \<open>A routine that still has to make its next access, or has returned.\<close>

datatype 'a accesses = Return 'a | Load "bool \<Rightarrow> 'a accesses" | Test_and_set "bool \<Rightarrow> 'a accesses" | Clear "'a accesses"

text \<open>One access. \<^verbatim>\<open>__atomic_test_and_set\<close> yields the previous value and sets the flag.\<close>

fun access :: "'a accesses \<Rightarrow> SpinLock \<Rightarrow> 'a accesses \<times> SpinLock" where
  "access (Return x) lock = (Return x, lock)"
| "access (Load k) lock = (k (locked lock), lock)"
| "access (Test_and_set k) lock = (k (locked lock), lock\<lparr>locked := True\<rparr>)"
| "access (Clear c) lock = (c, lock\<lparr>locked := False\<rparr>)"

definition try_acquire_accesses :: "bool accesses" where
  "try_acquire_accesses =
     Load (\<lambda>locked. if \<not> locked then Test_and_set (\<lambda>old. if \<not> old then Return True else Return False) else Return False)"

definition release_accesses :: "unit accesses" where
  "release_accesses = Clear (Return ())"

section \<open>Spin locks, sequentially\<close>

primrec run_alone :: "'a accesses \<Rightarrow> SpinLock \<Rightarrow> 'a \<times> SpinLock" where
  "run_alone (Return x) lock = (x, lock)"
| "run_alone (Load k) lock = run_alone (k (locked lock)) lock"
| "run_alone (Test_and_set k) lock = run_alone (k (locked lock)) (lock\<lparr>locked := True\<rparr>)"
| "run_alone (Clear c) lock = run_alone c (lock\<lparr>locked := False\<rparr>)"

definition try_acquire_spinlock :: "SpinLock \<Rightarrow> bool \<times> SpinLock" where
  "try_acquire_spinlock lock = run_alone try_acquire_accesses lock"

text \<open>
  \<^verbatim>\<open>while (!try_acquire_spinlock(lock)) arch_yield();\<close> run by one CPU alone: the retry loop ends
  at its first iteration or never.
\<close>

definition acquire_spinlock :: "SpinLock \<Rightarrow> SpinLock res" where
  "acquire_spinlock lock =
     (case try_acquire_spinlock lock of (True, lock') \<Rightarrow> Inr lock' | (False, _) \<Rightarrow> Inl Blocked)"

definition release_spinlock :: "SpinLock \<Rightarrow> SpinLock" where
  "release_spinlock lock = snd (run_alone release_accesses lock)"

lemma release_spinlock_eq: "release_spinlock lock = lock\<lparr>locked := False\<rparr>"
  by (simp add: release_spinlock_def release_accesses_def)

lemma acquire_spinlock_free [simp]:
  "\<not> locked lock \<Longrightarrow> acquire_spinlock lock = Inr (lock\<lparr>locked := True\<rparr>)"
  by (simp add: acquire_spinlock_def try_acquire_spinlock_def try_acquire_accesses_def)

lemma acquire_spinlock_held [simp]: "locked lock \<Longrightarrow> acquire_spinlock lock = Inl Blocked"
  by (simp add: acquire_spinlock_def try_acquire_spinlock_def try_acquire_accesses_def)

lemma release_acquire_spinlock:
  "acquire_spinlock lock = Inr lock' \<Longrightarrow> release_spinlock lock' = lock"
  by (cases "locked lock") (auto simp: release_spinlock_eq)

section \<open>Spin locks, concurrently\<close>

text \<open>
  Where a CPU is with respect to one lock: elsewhere, inside a call of \<^verbatim>\<open>try_acquire_spinlock\<close> with the accesses it has still to make, in the critical section, or
  inside \<^verbatim>\<open>release_spinlock\<close>.
\<close>

datatype lock_pc = Outside | Acquiring "bool accesses" | Inside | Releasing "unit accesses"

record lock_sys =
  the_lock :: SpinLock
  pcs :: "nat \<Rightarrow> lock_pc"

definition init_lock_sys :: "SpinLock \<Rightarrow> lock_sys" where
  "init_lock_sys l = \<lparr>the_lock = init_spinlock l, pcs = (\<lambda>_. Outside)\<rparr>"

text \<open>
  A call that has returned true is in the critical section. One that has returned false starts over, which is the loop of \<^verbatim>\<open>acquire_spinlock\<close>, or leaves, as the callers
  of \<^verbatim>\<open>try_acquire_spinlock\<close> do.
\<close>

inductive lock_step :: "lock_sys \<Rightarrow> lock_sys \<Rightarrow> bool" where
  call: "pcs s c = Outside \<Longrightarrow> lock_step s (s\<lparr>pcs := (pcs s)(c := Acquiring try_acquire_accesses)\<rparr>)"
| acquire_access: "pcs s c = Acquiring a \<Longrightarrow> access a (the_lock s) = (a', l) \<Longrightarrow>
    lock_step s (s\<lparr>the_lock := l, pcs := (pcs s)(c := Acquiring a')\<rparr>)"
| enter: "pcs s c = Acquiring (Return True) \<Longrightarrow> lock_step s (s\<lparr>pcs := (pcs s)(c := Inside)\<rparr>)"
| retry: "pcs s c = Acquiring (Return False) \<Longrightarrow> lock_step s (s\<lparr>pcs := (pcs s)(c := Acquiring try_acquire_accesses)\<rparr>)"
| give_up: "pcs s c = Acquiring (Return False) \<Longrightarrow> lock_step s (s\<lparr>pcs := (pcs s)(c := Outside)\<rparr>)"
| leave: "pcs s c = Inside \<Longrightarrow> lock_step s (s\<lparr>pcs := (pcs s)(c := Releasing release_accesses)\<rparr>)"
| release_access: "pcs s c = Releasing a \<Longrightarrow> access a (the_lock s) = (a', l) \<Longrightarrow>
    lock_step s (s\<lparr>the_lock := l, pcs := (pcs s)(c := Releasing a')\<rparr>)"
| released: "pcs s c = Releasing (Return ()) \<Longrightarrow> lock_step s (s\<lparr>pcs := (pcs s)(c := Outside)\<rparr>)"

inductive lock_reachable :: "SpinLock \<Rightarrow> lock_sys \<Rightarrow> bool" for l where
  start: "lock_reachable l (init_lock_sys l)"
| step: "lock_reachable l s \<Longrightarrow> lock_step s t \<Longrightarrow> lock_reachable l t"

text \<open>The accesses that a call can still have to make, and the states in which a CPU holds the lock.\<close>

definition tas_accesses :: "bool accesses" where
  "tas_accesses = Test_and_set (\<lambda>old. if \<not> old then Return True else Return False)"

fun pc_ok :: "lock_pc \<Rightarrow> bool" where
  "pc_ok (Acquiring a) = (a = try_acquire_accesses \<or> a = tas_accesses \<or> a = Return True \<or> a = Return False)"
| "pc_ok (Releasing a) = (a = release_accesses \<or> a = Return ())"
| "pc_ok pc = True"

definition holds :: "lock_pc \<Rightarrow> bool" where
  "holds pc \<longleftrightarrow> pc = Inside \<or> pc = Acquiring (Return True) \<or> pc = Releasing release_accesses"

lemma holds_simps [simp]:
  "holds Inside" "\<not> holds Outside" "\<not> holds (Acquiring try_acquire_accesses)" "\<not> holds (Acquiring tas_accesses)" "holds (Acquiring (Return b)) = b"
  "holds (Releasing release_accesses)" "\<not> holds (Releasing (Return ()))"
  by (simp_all add: holds_def try_acquire_accesses_def tas_accesses_def release_accesses_def)

definition lock_inv :: "lock_sys \<Rightarrow> bool" where
  "lock_inv s \<longleftrightarrow> (\<forall>c. pc_ok (pcs s c)) \<and> (if locked (the_lock s) then \<exists>!c. holds (pcs s c) else \<forall>c. \<not> holds (pcs s c))"

lemma lock_inv_init: "lock_inv (init_lock_sys l)"
  by (simp add: lock_inv_def init_lock_sys_def init_spinlock_def)

text \<open>A step of one CPU that leaves the flag alone and neither takes nor gives up the lock.\<close>

lemma lock_inv_same:
  assumes "lock_inv s" and "pc_ok pc" and "holds pc = holds (pcs s c)"
  shows "lock_inv (s\<lparr>pcs := (pcs s)(c := pc)\<rparr>)"
proof -
  have "holds (((pcs s)(c := pc)) d) = holds (pcs s d)" for d using assms(3) by simp
  then show ?thesis using assms(1,2) by (simp add: lock_inv_def del: fun_upd_apply) (simp add: fun_upd_apply)
qed

lemma access_acquire:
  assumes "pc_ok (Acquiring a)" "access a lock = (a', l)"
  shows "pc_ok (Acquiring a')"
    "l = lock \<and> holds (Acquiring a') = holds (Acquiring a) \<or> l = lock\<lparr>locked := True\<rparr> \<and> \<not> holds (Acquiring a) \<and> holds (Acquiring a') = (\<not> locked lock)"
  using assms by (auto simp: try_acquire_accesses_def tas_accesses_def holds_def split: if_splits)

lemma lock_step_inv: "lock_step s t \<Longrightarrow> lock_inv s \<Longrightarrow> lock_inv t"
proof (induction rule: lock_step.induct)
  case (acquire_access s c a a' l)
  have ok: "pc_ok (Acquiring a)" using acquire_access by (metis lock_inv_def)
  note acc = access_acquire [OF ok acquire_access.hyps(2)]
  show ?case
  proof (cases "l = the_lock s \<and> holds (Acquiring a') = holds (Acquiring a)")
    case True
    then show ?thesis using lock_inv_same [of s "Acquiring a'" c] acquire_access acc(1) by simp
  next
    case False
    with acc(2) have l: "l = (the_lock s)\<lparr>locked := True\<rparr>" "\<not> holds (pcs s c)" "holds (Acquiring a') = (\<not> locked (the_lock s))"
      using acquire_access.hyps(1) by auto
    show ?thesis
    proof (cases "locked (the_lock s)")
      case True
      then have "l = the_lock s" using l(1) by (cases "the_lock s") simp
      moreover have "holds (Acquiring a') = holds (pcs s c)" using l True by simp
      ultimately show ?thesis using lock_inv_same [of s "Acquiring a'" c] acquire_access.prems acc(1) by simp
    next
      case False
      then have "\<forall>d. \<not> holds (pcs s d)" "\<forall>d. pc_ok (pcs s d)" using acquire_access.prems by (auto simp: lock_inv_def)
      moreover have "holds (Acquiring a')" using l(3) False by simp
      ultimately show ?thesis using l(1) acc(1) by (auto simp: lock_inv_def)
    qed
  qed
next
  case (release_access s c a a' l)
  have "pc_ok (Releasing a)" using release_access by (metis lock_inv_def)
  then consider "a = Return ()" "a' = a" "l = the_lock s" | "a = release_accesses" "a' = Return ()" "l = (the_lock s)\<lparr>locked := False\<rparr>"
    using release_access.hyps(2) by (auto simp: release_accesses_def)
  then show ?case
  proof cases
    case 1
    then show ?thesis using lock_inv_same [of s "Releasing a'" c] release_access by simp
  next
    case 2
    then have "holds (pcs s c)" using release_access.hyps(1) by simp
    then show ?thesis using release_access.prems 2 by (auto simp: lock_inv_def split: if_splits)
  qed
qed (auto intro!: lock_inv_same)

lemma lock_reachable_inv: "lock_reachable l s \<Longrightarrow> lock_inv s"
  by (induction rule: lock_reachable.induct) (auto intro: lock_inv_init lock_step_inv)

section \<open>Reference counts\<close>

text \<open>
  \<^verbatim>\<open>RefCount\<close> holds a 64-bit signed counter; the atomic add and subtract wrap around, so the counter
  is a \<^typ>\<open>64 word\<close> read through \<^const>\<open>sint\<close>.
\<close>

record RefCount =
  count :: "64 word"

definition init_rc :: "RefCount \<Rightarrow> RefCount" where
  "init_rc rc = rc\<lparr>count := 0\<rparr>"

definition increment_rc :: "RefCount \<Rightarrow> RefCount" where
  "increment_rc rc = rc\<lparr>count := count rc + 1\<rparr>"

definition decrement_rc :: "RefCount \<Rightarrow> bool \<times> RefCount" where
  "decrement_rc rc = (let r = count rc - 1 in (sint r \<le> 0, rc\<lparr>count := r\<rparr>))"

lemma decrement_increment_rc: "snd (decrement_rc (increment_rc rc)) = rc"
  by (simp add: increment_rc_def decrement_rc_def Let_def)

section \<open>Properties\<close>

text \<open>
  C18: however the accesses of any number of CPUs that call \<^verbatim>\<open>acquire_spinlock\<close>, \<^verbatim>\<open>try_acquire_spinlock\<close> and \<^verbatim>\<open>release_spinlock\<close> interleave, at most one
  CPU is inside the critical section of a spin lock, the flag is set while one is, and a call of \<^verbatim>\<open>try_acquire_spinlock\<close> that has returned true is the only
  one that may enter.
\<close>
theorem spinlock_mutual_exclusion:
  assumes "lock_reachable l s" and "pcs s a = Inside \<or> pcs s a = Acquiring (Return True)"
  shows "locked (the_lock s) \<and> (\<forall>b. b \<noteq> a \<longrightarrow> pcs s b \<noteq> Inside \<and> pcs s b \<noteq> Acquiring (Return True) \<and> pcs s b \<noteq> Releasing release_accesses)"
proof -
  have inv: "lock_inv s" using lock_reachable_inv [OF assms(1)] .
  have h: "holds (pcs s a)" using assms(2) by auto
  then have "locked (the_lock s)" using inv by (auto simp: lock_inv_def split: if_splits)
  moreover have "b = a" if "holds (pcs s b)" for b using inv h that calculation by (auto simp: lock_inv_def)
  ultimately show ?thesis by (metis holds_simps(1,5,6))
qed

text \<open>Two CPUs call; both see the lock free, and the second one finds it taken by the first.\<close>

theorem spinlock_mutual_exclusion_witness:
  "let s = \<lparr>the_lock = \<lparr>locked = True\<rparr>, pcs = (\<lambda>_. Outside)(0 := Inside, 1 := Acquiring (Return False))\<rparr> in
   lock_reachable \<lparr>locked = True\<rparr> s \<and> locked (the_lock s) \<and> pcs s 1 \<noteq> Inside"
proof -
  let ?l = "\<lparr>locked = False\<rparr>" and ?m = "\<lparr>locked = True\<rparr>"
  let ?f = "\<lambda>x y. (\<lambda>_. Outside)(0 := x, 1 := y) :: nat \<Rightarrow> lock_pc"
  let ?t = "Acquiring try_acquire_accesses" and ?u = "Acquiring tas_accesses"
  have acc: "access try_acquire_accesses ?l = (tas_accesses, ?l)" "access tas_accesses ?l = (Return True, ?m)" "access tas_accesses ?m = (Return False, ?m)"
    by (simp_all add: try_acquire_accesses_def tas_accesses_def)
  have "init_lock_sys ?m = \<lparr>the_lock = ?l, pcs = ?f Outside Outside\<rparr>" by (auto simp: init_lock_sys_def init_spinlock_def)
  then have "lock_reachable ?m \<lparr>the_lock = ?l, pcs = ?f Outside Outside\<rparr>" using lock_reachable.start [of ?m] by simp
  note r = this lock_reachable.step
  have 1: "lock_reachable ?m \<lparr>the_lock = ?l, pcs = ?f ?t Outside\<rparr>"
    by (rule r(2) [OF r(1)]) (use lock_step.call [of "\<lparr>the_lock = ?l, pcs = ?f Outside Outside\<rparr>" 0] in \<open>simp add: fun_upd_twist\<close>)
  have 2: "lock_reachable ?m \<lparr>the_lock = ?l, pcs = ?f ?t ?t\<rparr>"
    by (rule r(2) [OF 1]) (use lock_step.call [of "\<lparr>the_lock = ?l, pcs = ?f ?t Outside\<rparr>" 1] in simp)
  have 3: "lock_reachable ?m \<lparr>the_lock = ?l, pcs = ?f ?u ?t\<rparr>"
    by (rule r(2) [OF 2]) (use lock_step.acquire_access [of "\<lparr>the_lock = ?l, pcs = ?f ?t ?t\<rparr>" 0] acc in \<open>simp add: fun_upd_twist\<close>)
  have 4: "lock_reachable ?m \<lparr>the_lock = ?l, pcs = ?f ?u ?u\<rparr>"
    by (rule r(2) [OF 3]) (use lock_step.acquire_access [of "\<lparr>the_lock = ?l, pcs = ?f ?u ?t\<rparr>" 1] acc in simp)
  have 5: "lock_reachable ?m \<lparr>the_lock = ?m, pcs = ?f (Acquiring (Return True)) ?u\<rparr>"
    by (rule r(2) [OF 4]) (use lock_step.acquire_access [of "\<lparr>the_lock = ?l, pcs = ?f ?u ?u\<rparr>" 0] acc in \<open>simp add: fun_upd_twist\<close>)
  have 6: "lock_reachable ?m \<lparr>the_lock = ?m, pcs = ?f (Acquiring (Return True)) (Acquiring (Return False))\<rparr>"
    by (rule r(2) [OF 5]) (use lock_step.acquire_access [of "\<lparr>the_lock = ?m, pcs = ?f (Acquiring (Return True)) ?u\<rparr>" 1] acc in simp)
  have 7: "lock_reachable ?m \<lparr>the_lock = ?m, pcs = ?f Inside (Acquiring (Return False))\<rparr>"
    by (rule r(2) [OF 6]) (use lock_step.enter [of "\<lparr>the_lock = ?m, pcs = ?f (Acquiring (Return True)) (Acquiring (Return False))\<rparr>" 0] in \<open>simp add: fun_upd_twist\<close>)
  show ?thesis using 7 spinlock_mutual_exclusion [OF 7, of 0] by (simp add: Let_def)
qed

end
