(* ===== verification/Linked_List.thy ===== *)
theory Linked_List
  imports Locks
begin

text \<open>
  The intrusive lists of \<^verbatim>\<open>common/list.c\<close> and \<^verbatim>\<open>common/list.h\<close>, on an explicit store from
  addresses to nodes.

  \<open>clist h xs\<close> says that the nodes \<open>xs\<close>, in this order, form one circular doubly linked list;
  every list operation is characterised by its effect on such an \<open>xs\<close>, which is what lets the
  other components treat the lists they thread through their structures as HOL lists. The
  counted \<^verbatim>\<open>Queue\<close> refines a first-in first-out sequence, stated as the locale \<open>fifo\<close>.
\<close>

section \<open>Nodes and the store\<close>

type_synonym addr = nat

abbreviation (input) NULL :: addr where "NULL \<equiv> 0"

record ListNode =
  lprev :: addr
  lnext :: addr

type_synonym lheap = "addr \<Rightarrow> ListNode"

definition set_prev :: "addr \<Rightarrow> addr \<Rightarrow> lheap \<Rightarrow> lheap" where
  "set_prev n v h = h(n := (h n)\<lparr>lprev := v\<rparr>)"

definition set_next :: "addr \<Rightarrow> addr \<Rightarrow> lheap \<Rightarrow> lheap" where
  "set_next n v h = h(n := (h n)\<lparr>lnext := v\<rparr>)"

section \<open>List operations\<close>

definition init_list_node :: "addr \<Rightarrow> lheap \<Rightarrow> lheap" where
  "init_list_node node h = set_next node node (set_prev node node h)"

definition merge_list :: "addr \<Rightarrow> addr \<Rightarrow> lheap \<Rightarrow> addr \<times> lheap" where
  "merge_list node1 node2 h =
     (if node1 = NULL then (node2, h)
      else if node2 = NULL then (node1, h)
      else let node3 = lnext (h node1);
               node4 = lprev (h node2);
               h = set_next node1 node2 h;
               h = set_prev node2 node1 h;
               h = set_next node4 node3 h;
               h = set_prev node3 node4 h
           in (node1, h))"

definition insert_into_list :: "addr \<Rightarrow> addr \<Rightarrow> lheap \<Rightarrow> addr \<times> lheap" where
  "insert_into_list list node h = merge_list list node (init_list_node node h)"

definition detach_from_list :: "addr \<Rightarrow> lheap \<Rightarrow> addr \<times> lheap" where
  "detach_from_list node h =
     (let prev = lprev (h node);
          h = set_next (lprev (h node)) (lnext (h node)) h;
          h = set_prev (lnext (h node)) (lprev (h node)) h;
          h = init_list_node node h
      in (if prev = node then NULL else prev, h))"

definition empty_list :: "addr \<Rightarrow> lheap \<Rightarrow> bool" where
  "empty_list list h \<longleftrightarrow> lnext (h list) = list"

text \<open>
  \<^verbatim>\<open>_for_in_list(p, list)\<close>: the nodes \<open>p\<close> takes, in order. The walk starts at the successor of
  \<open>list\<close> and stops after it has come back to \<open>list\<close>, which is visited last; on a store where
  the walk never comes back it does not return.
\<close>

partial_function (option) walk_list :: "lheap \<Rightarrow> addr \<Rightarrow> addr \<Rightarrow> addr list option" where
  "walk_list h flag v =
     (if v = NULL then Some []
      else if v = flag then Some [v]
      else Option.bind (walk_list h flag (lnext (h v))) (\<lambda>vs. Some (v # vs)))"

definition for_in_list :: "lheap \<Rightarrow> addr \<Rightarrow> addr list option" where
  "for_in_list h list = walk_list h list (lnext (h list))"

section \<open>Circular lists\<close>

fun linked :: "lheap \<Rightarrow> addr list \<Rightarrow> bool" where
  "linked h (a # b # xs) \<longleftrightarrow> lnext (h a) = b \<and> lprev (h b) = a \<and> linked h (b # xs)"
| "linked h _ \<longleftrightarrow> True"

definition clist :: "lheap \<Rightarrow> addr list \<Rightarrow> bool" where
  "clist h xs \<longleftrightarrow> xs \<noteq> [] \<and> distinct xs \<and> NULL \<notin> set xs \<and> linked h (xs @ [hd xs])"

lemma lnext_set_prev [simp]: "lnext (set_prev n v h a) = lnext (h a)"
  by (simp add: set_prev_def)

lemma lprev_set_next [simp]: "lprev (set_next n v h a) = lprev (h a)"
  by (simp add: set_next_def)

lemma lprev_set_prev [simp]: "lprev (set_prev n v h a) = (if a = n then v else lprev (h a))"
  by (simp add: set_prev_def)

lemma lnext_set_next [simp]: "lnext (set_next n v h a) = (if a = n then v else lnext (h a))"
  by (simp add: set_next_def)

lemma linked_append:
  "linked h (xs @ y # ys) \<longleftrightarrow> linked h (xs @ [y]) \<and> linked h (y # ys)"
  by (induction h xs rule: linked.induct) auto

lemma linked_set_next:
  "n \<notin> set (butlast xs) \<Longrightarrow> linked (set_next n v h) xs = linked h xs"
  by (induction h xs rule: linked.induct) auto

lemma linked_set_prev:
  "n \<notin> set (tl xs) \<Longrightarrow> linked (set_prev n v h) xs = linked h xs"
  by (induction h xs rule: linked.induct) auto

lemma linked_Cons: "xs \<noteq> [] \<Longrightarrow>
  linked h (a # xs) \<longleftrightarrow> lnext (h a) = hd xs \<and> lprev (h (hd xs)) = a \<and> linked h xs"
  by (cases xs) auto

lemma linked_snoc: "xs \<noteq> [] \<Longrightarrow>
  linked h (xs @ [z]) \<longleftrightarrow> linked h xs \<and> lnext (h (last xs)) = z \<and> lprev (h z) = last xs"
  by (induction h xs rule: linked.induct) auto

lemmas linked_frame = linked_set_next linked_set_prev

text \<open>A circular list starting at \<open>x\<close> is a chain from \<open>x\<close> through \<open>xs\<close> back to \<open>x\<close>.\<close>

lemma clist_Cons:
  "clist h (x # xs) \<longleftrightarrow> x \<noteq> NULL \<and> x \<notin> set xs \<and> distinct xs \<and> NULL \<notin> set xs
     \<and> lnext (h x) = hd (xs @ [x]) \<and> lprev (h (hd (xs @ [x]))) = x \<and> linked h (xs @ [x])"
  by (auto simp: clist_def linked_Cons)

lemma linked_snoc2:
  "linked h (xs @ [y, z]) \<longleftrightarrow> linked h (xs @ [y]) \<and> lnext (h y) = z \<and> lprev (h z) = y"
  using linked_append [of h xs y "[z]"] by simp

lemma clist_rotate: "clist h (x # xs) \<Longrightarrow> clist h (xs @ [x])"
  using linked_snoc2 [of h xs x "hd xs"] by (cases xs) (auto simp: clist_def)

lemma clist_rotate_append: "clist h (xs @ ys) \<Longrightarrow> clist h (ys @ xs)"
proof (induction xs arbitrary: ys)
  case Nil
  then show ?case by simp
next
  case (Cons x xs)
  then have "clist h (xs @ ys @ [x])" using clist_rotate by fastforce
  from Cons.IH [of "ys @ [x]"] this show ?case by simp
qed

lemma clist_init: "node \<noteq> NULL \<Longrightarrow> clist (init_list_node node h) [node]"
  by (simp add: clist_def init_list_node_def)

lemma clist_frame_init:
  "clist h xs \<Longrightarrow> node \<notin> set xs \<Longrightarrow> clist (init_list_node node h) xs"
  by (cases xs) (auto simp: clist_def init_list_node_def linked_frame butlast_append)

section \<open>Correctness of the list operations\<close>

text \<open>The closed chain of a circular list, cut at its first node.\<close>

lemma clist_cut:
  assumes "clist h (x # xs)"
  shows "linked h (x # xs)" and "linked h (xs @ [x])"
    and "lnext (h x) = hd (xs @ [x])" and "lprev (h x) = last (x # xs)"
  using assms linked_snoc [of "x # xs" h x] by (auto simp: clist_def linked_Cons)

lemma linked_close: "linked h (x # ys) \<Longrightarrow> linked h zs \<Longrightarrow> zs \<noteq> [] \<Longrightarrow>
  lnext (h (last (x # ys))) = hd zs \<Longrightarrow> lprev (h (hd zs)) = last (x # ys) \<Longrightarrow>
  linked h ((x # ys) @ zs)"
  using linked_append [of h "x # ys" "hd zs" "tl zs"] linked_snoc [of "x # ys" h "hd zs"]
  by (cases zs) auto

lemma last_notin_butlast: "distinct xs \<Longrightarrow> xs \<noteq> [] \<Longrightarrow> last xs \<notin> set (butlast xs)"
  by (metis append_butlast_last_id distinct.simps(2) distinct1_rotate rotate1.simps(2)
      distinct_append not_distinct_conv_prefix)

lemma clist_merge:
  assumes "clist h (n1 # as)" and "clist h (n2 # bs)" and disj: "set (n1 # as) \<inter> set (n2 # bs) = {}"
  shows "clist (snd (merge_list n1 n2 h)) (n1 # n2 # bs @ as)"
proof -
  let ?n3 = "hd (as @ [n1])" and ?n4 = "last (n2 # bs)"
  let ?h = "set_prev ?n3 ?n4 (set_next ?n4 ?n3 (set_prev n2 n1 (set_next n1 n2 h)))"
  have d: "n1 \<noteq> NULL" "n2 \<noteq> NULL" "distinct (n2 # bs)" "distinct (as @ [n1])"
    using assms by (auto simp: clist_def)
  have h: "snd (merge_list n1 n2 h) = ?h"
    using d clist_cut [OF assms(1)] clist_cut [OF assms(2)] by (simp add: merge_list_def Let_def)
  have n4: "?n4 \<in> set (n2 # bs)" by (rule last_in_set) simp
  have n3: "?n3 \<in> set (n1 # as)" by (cases as) auto
  have d3: "?n3 \<notin> set (tl (as @ [n1]))" using d by (cases as) auto
  have d4: "?n4 \<notin> set (butlast (n2 # bs))" by (rule last_notin_butlast [OF d(3)]) simp
  have ne: "?n4 \<noteq> n1" "?n3 \<noteq> n2" "n1 \<noteq> n2" using n4 n3 disj by auto
  have "linked ?h (n2 # bs)"
  proof -
    have "n1 \<notin> set (butlast (n2 # bs))" using disj by (auto dest: in_set_butlastD)
    moreover have "n2 \<notin> set (tl (n2 # bs))" "?n3 \<notin> set (tl (n2 # bs))" using d n3 disj by auto
    ultimately show ?thesis using clist_cut(1) [OF assms(2)] d4 by (simp only: linked_frame not_False_eq_True)
  qed
  moreover have "linked ?h (as @ [n1])"
  proof -
    have "n1 \<notin> set (butlast (as @ [n1]))" "?n4 \<notin> set (butlast (as @ [n1]))" using d n4 disj by auto
    moreover have "n2 \<notin> set (tl (as @ [n1]))" using disj by (cases as) auto
    ultimately show ?thesis using clist_cut(2) [OF assms(1)] d3 by (simp only: linked_frame not_False_eq_True)
  qed
  ultimately have "linked ?h ((n2 # bs) @ (as @ [n1]))"
    using ne by (intro linked_close) auto
  then have "linked ?h (n1 # n2 # bs @ as @ [n1])" using ne by simp
  then show ?thesis using assms h by (auto simp: clist_def)
qed

text \<open>\<^verbatim>\<open>_insert_into_list\<close> puts the node right after the list head.\<close>

lemma clist_insert:
  assumes "clist h (l # xs)" and "node \<noteq> NULL" and "node \<notin> set (l # xs)"
  shows "clist (snd (insert_into_list l node h)) (l # node # xs)"
  using clist_merge [OF clist_frame_init [OF assms(1,3)] clist_init [OF assms(2)]] assms(3)
  by (simp add: insert_into_list_def)

lemma detach_clist:
  assumes "clist h (node # xs)" and "xs \<noteq> []"
  shows "clist (snd (detach_from_list node h)) xs"
    and "clist (snd (detach_from_list node h)) [node]"
    and "fst (detach_from_list node h) = last xs"
proof -
  let ?p = "last xs" and ?n = "hd xs"
  let ?h = "set_prev ?n ?p (set_next ?p ?n h)"
  have d: "node \<noteq> NULL" "node \<notin> set xs" "distinct xs" using assms by (auto simp: clist_def)
  have p: "lprev (h node) = ?p" "lnext (h node) = ?n" "?p \<noteq> node" "?n \<noteq> node"
    using clist_cut [OF assms(1)] assms(2) d by auto
  then have det: "detach_from_list node h = (?p, init_list_node node ?h)"
    by (auto simp: detach_from_list_def Let_def)
  show "fst (detach_from_list node h) = last xs" by (simp add: det)
  show "clist (snd (detach_from_list node h)) [node]" using d by (simp add: det clist_init)
  have "linked h xs" using clist_cut(1) [OF assms(1)] assms(2) by (simp add: linked_Cons)
  moreover have "?p \<notin> set (butlast xs)" using last_notin_butlast d assms(2) by blast
  moreover have "?n \<notin> set (tl xs)" using d assms(2) by (cases xs) auto
  ultimately have "linked ?h (xs @ [hd xs])"
    using assms(2) by (simp add: linked_snoc linked_frame)
  then have "clist ?h xs" using assms by (auto simp: clist_def)
  with d show "clist (snd (detach_from_list node h)) xs" by (simp add: det clist_frame_init)
qed

lemma detach_singleton:
  "clist h [node] \<Longrightarrow> fst (detach_from_list node h) = NULL"
  by (simp add: clist_def detach_from_list_def Let_def)

lemma empty_list_iff: "clist h (l # xs) \<Longrightarrow> empty_list l h \<longleftrightarrow> xs = []"
  by (cases xs) (auto simp: empty_list_def clist_def)

lemma walk_list_chain:
  "linked h (xs @ [flag]) \<Longrightarrow> flag \<notin> set xs \<Longrightarrow> NULL \<notin> set xs \<Longrightarrow> flag \<noteq> NULL \<Longrightarrow>
    walk_list h flag (hd (xs @ [flag])) = Some (xs @ [flag])"
proof (induction xs)
  case Nil
  then show ?case by (simp add: walk_list.simps)
next
  case (Cons x xs)
  then show ?case by (simp add: walk_list.simps [of h flag x] linked_Cons)
qed

lemma for_in_clist: "clist h (l # xs) \<Longrightarrow> for_in_list h l = Some (xs @ [l])"
  using walk_list_chain [of h xs l] by (simp add: for_in_list_def clist_Cons)

section \<open>The counted queue\<close>

record Queue =
  qbegin :: addr
  qend :: addr
  qsz :: int
  qlk :: SpinLock

type_synonym qstate = "lheap \<times> Queue"

definition queue_init :: "qstate \<Rightarrow> qstate" where
  "queue_init = (\<lambda>(h, x). (h, x\<lparr>qbegin := NULL, qend := NULL, qsz := 0, qlk := init_spinlock (qlk x)\<rparr>))"

definition queue_lock :: "qstate \<Rightarrow> qstate res" where
  "queue_lock = (\<lambda>(h, x). rbind (acquire_spinlock (qlk x)) (\<lambda>l. Inr (h, x\<lparr>qlk := l\<rparr>)))"

definition queue_unlock :: "qstate \<Rightarrow> qstate" where
  "queue_unlock = (\<lambda>(h, x). (h, x\<lparr>qlk := release_spinlock (qlk x)\<rparr>))"

definition queue_push :: "addr \<Rightarrow> qstate \<Rightarrow> qstate" where
  "queue_push item = (\<lambda>(h, x).
     let h = init_list_node item h;
         (h, x) = (if qsz x = 0 then (h, x\<lparr>qbegin := item, qend := item\<rparr>)
                   else (snd (merge_list (qend x) item h), x\<lparr>qend := item\<rparr>))
     in (h, x\<lparr>qsz := qsz x + 1\<rparr>))"

definition queue_pop :: "qstate \<Rightarrow> qstate res" where
  "queue_pop = (\<lambda>(h, x).
     if qsz x = 0 then Inl Panic
     else let (h, x) = (if qsz x = 1 then (h, x\<lparr>qbegin := NULL, qend := NULL\<rparr>)
                        else let t = qbegin x;
                                 x = x\<lparr>qbegin := lnext (h (qbegin x))\<rparr>
                             in (snd (detach_from_list t h), x))
          in Inr (h, x\<lparr>qsz := qsz x - 1\<rparr>))"

definition queue_front :: "qstate \<Rightarrow> addr res" where
  "queue_front = (\<lambda>(h, x). if qbegin x = NULL then Inl Panic else Inr (qbegin x))"

definition queue_empty :: "qstate \<Rightarrow> bool" where
  "queue_empty = (\<lambda>(h, x). qsz x = 0)"

text \<open>What a first-in first-out queue of distinct items promises its users.\<close>

locale fifo =
  fixes init :: "'s \<Rightarrow> 's"
    and push :: "'a \<Rightarrow> 's \<Rightarrow> 's"
    and pop :: "'s \<Rightarrow> 's res"
    and front :: "'s \<Rightarrow> 'a res"
    and is_empty :: "'s \<Rightarrow> bool"
    and item :: "'a \<Rightarrow> bool"
    and rep :: "'s \<Rightarrow> 'a list \<Rightarrow> bool"
  assumes rep_init: "rep (init s) []"
    and rep_push: "rep s xs \<Longrightarrow> item x \<Longrightarrow> x \<notin> set xs \<Longrightarrow> rep (push x s) (xs @ [x])"
    and rep_pop: "rep s (x # xs) \<Longrightarrow> \<exists>s'. pop s = Inr s' \<and> rep s' xs"
    and pop_empty: "rep s [] \<Longrightarrow> pop s = Inl Panic"
    and rep_front: "rep s (x # xs) \<Longrightarrow> front s = Inr x"
    and front_empty: "rep s [] \<Longrightarrow> front s = Inl Panic"
    and rep_is_empty: "rep s xs \<Longrightarrow> is_empty s \<longleftrightarrow> xs = []"

text \<open>Take \<open>n\<close> items off a queue, in the order they come out.\<close>

fun drain :: "('s \<Rightarrow> 'a res) \<Rightarrow> ('s \<Rightarrow> 's res) \<Rightarrow> nat \<Rightarrow> 's \<Rightarrow> ('a list \<times> 's) res" where
  "drain fr pp 0 s = Inr ([], s)"
| "drain fr pp (Suc n) s =
     rbind (fr s) (\<lambda>x. rbind (pp s) (\<lambda>s. rbind (drain fr pp n s) (\<lambda>(xs, s). Inr (x # xs, s))))"

context fifo
begin

lemma rep_push_all:
  "rep s xs \<Longrightarrow> distinct (xs @ ys) \<Longrightarrow> \<forall>y\<in>set ys. item y \<Longrightarrow> rep (fold push ys s) (xs @ ys)"
proof (induction ys arbitrary: s xs)
  case Nil
  then show ?case by simp
next
  case (Cons y ys)
  then have "rep (push y s) (xs @ [y])" by (intro rep_push) auto
  from Cons.IH [OF this] Cons.prems show ?case by simp
qed

lemma drain_rep:
  "rep s (xs @ ys) \<Longrightarrow> \<exists>s'. drain front pop (length xs) s = Inr (xs, s') \<and> rep s' ys"
proof (induction xs arbitrary: s)
  case Nil
  then show ?case by simp
next
  case (Cons x xs)
  from rep_pop [of s x "xs @ ys"] Cons.prems obtain s' where s': "pop s = Inr s'" "rep s' (xs @ ys)"
    by auto
  with Cons.IH [of s'] rep_front [of s x "xs @ ys"] Cons.prems show ?case by fastforce
qed

lemma drain_push_all:
  assumes "distinct xs" and "\<forall>x\<in>set xs. item x"
  shows "\<exists>s'. drain front pop (length xs) (fold push xs (init s)) = Inr (xs, s') \<and> is_empty s'"
proof -
  from assms have "rep (fold push xs (init s)) (xs @ [])"
    using rep_push_all [OF rep_init, of xs] by simp
  then obtain s' where "drain front pop (length xs) (fold push xs (init s)) = Inr (xs, s')" "rep s' []"
    using drain_rep by blast
  with rep_is_empty [of s' "[]"] show ?thesis by auto
qed

end

definition queue_rep :: "qstate \<Rightarrow> addr list \<Rightarrow> bool" where
  "queue_rep = (\<lambda>(h, x) xs. qsz x = int (length xs) \<and>
     (if xs = [] then qbegin x = NULL \<and> qend x = NULL
      else clist h xs \<and> qbegin x = hd xs \<and> qend x = last xs))"

lemma queue_rep_push:
  assumes "queue_rep (h, x) xs" and "item \<noteq> NULL" and "item \<notin> set xs"
  shows "queue_rep (queue_push item (h, x)) (xs @ [item])"
proof (cases "xs = []")
  case True
  with assms show ?thesis by (simp add: queue_rep_def queue_push_def clist_init)
next
  case False
  let ?h = "init_list_node item h" and ?as = "butlast xs" and ?e = "last xs"
  have xs: "xs = ?as @ [?e]" using False by simp
  have "clist h xs" using assms(1) False by (simp add: queue_rep_def)
  then have "clist ?h (?as @ [?e])" using clist_frame_init [OF _ assms(3)] xs by simp
  then have "clist ?h (?e # ?as)" using clist_rotate_append by fastforce
  moreover have "item \<noteq> ?e" "item \<notin> set ?as" using assms(3) False by (auto dest: in_set_butlastD)
  ultimately have "clist (snd (merge_list ?e item ?h)) (?e # item # ?as)"
    using clist_merge [OF _ clist_init [OF assms(2)], of h ?e ?as] by simp
  then have "clist (snd (merge_list ?e item ?h)) (xs @ [item])"
    using clist_rotate_append [of _ "[?e, item]" ?as] clist_rotate_append [of _ "[?e, item]" ?as] xs
    by (metis append.assoc append_Cons append_Nil)
  with assms False show ?thesis by (simp add: queue_rep_def queue_push_def)
qed

lemma queue_rep_pop:
  assumes "queue_rep (h, x) (y # ys)"
  shows "\<exists>s'. queue_pop (h, x) = Inr s' \<and> queue_rep s' ys"
proof (cases "ys = []")
  case True
  with assms show ?thesis by (simp add: queue_rep_def queue_pop_def)
next
  case False
  with assms detach_clist(1) [of h y ys] clist_cut(3) [of h y ys] show ?thesis
    by (auto simp: queue_rep_def queue_pop_def)
qed

interpretation kq: fifo queue_init queue_push queue_pop queue_front queue_empty
  "\<lambda>a. a \<noteq> NULL" queue_rep
proof (unfold_locales, goal_cases)
  case (1 s)
  then show ?case by (cases s) (simp add: queue_rep_def queue_init_def)
next
  case (2 s xs x)
  then show ?case by (cases s) (simp add: queue_rep_push)
next
  case (3 s x xs)
  then show ?case using queue_rep_pop by (cases s) blast
next
  case (4 s)
  then show ?case by (cases s) (simp add: queue_rep_def queue_pop_def)
next
  case (5 s x xs)
  then show ?case by (cases s) (auto simp: queue_rep_def queue_front_def clist_def)
next
  case (6 s)
  then show ?case by (cases s) (simp add: queue_rep_def queue_front_def)
next
  case (7 s xs)
  then show ?case by (cases s) (simp add: queue_rep_def queue_empty_def)
qed

section \<open>The lock-free queue\<close>

text \<open>
  \<^verbatim>\<open>QueueNode\<close>s are linked through one pointer, and the head is a separate word. A compare-and-swap that
  no other CPU disturbs succeeds, so one CPU alone pushes and pops at the head.
\<close>

record QueueHeap =
  qnext :: "addr \<Rightarrow> addr"

definition add_to_queue :: "addr \<Rightarrow> addr \<Rightarrow> QueueHeap \<Rightarrow> addr \<times> QueueHeap" where
  "add_to_queue head node h = (node, h\<lparr>qnext := (qnext h)(node := head)\<rparr>)"

definition fetch_from_queue :: "addr \<Rightarrow> QueueHeap \<Rightarrow> addr \<times> addr" where
  "fetch_from_queue head h = (if head = NULL then (NULL, NULL) else (head, qnext h head))"

definition fetch_all_from_queue :: "addr \<Rightarrow> addr \<times> addr" where
  "fetch_all_from_queue head = (head, NULL)"

text \<open>The nodes of the queue, from the head on.\<close>

fun qchain :: "QueueHeap \<Rightarrow> addr \<Rightarrow> addr list \<Rightarrow> bool" where
  "qchain h head [] \<longleftrightarrow> head = NULL"
| "qchain h head (x # xs) \<longleftrightarrow> head = x \<and> x \<noteq> NULL \<and> x \<notin> set xs \<and> qchain h (qnext h x) xs"

lemma qchain_frame: "node \<notin> set xs \<Longrightarrow>
  qchain (h\<lparr>qnext := (qnext h)(node := v)\<rparr>) head xs = qchain h head xs"
  by (induction xs arbitrary: head) auto

lemma qchain_add:
  assumes "qchain h head xs" and "node \<noteq> NULL" and "node \<notin> set xs"
  shows "qchain (snd (add_to_queue head node h)) (fst (add_to_queue head node h)) (node # xs)"
  using assms by (simp add: add_to_queue_def qchain_frame)

lemma qchain_fetch:
  assumes "qchain h head xs"
  shows "fetch_from_queue head h = (case xs of [] \<Rightarrow> (NULL, NULL) | x # _ \<Rightarrow> (x, qnext h x))"
    and "qchain h (snd (fetch_from_queue head h)) (tl xs)"
  using assms by (cases xs; simp add: fetch_from_queue_def)+

lemma qchain_distinct: "qchain h head xs \<Longrightarrow> distinct xs \<and> NULL \<notin> set xs"
  by (induction xs arbitrary: head) auto

subsection \<open>Several CPUs at once\<close>

text \<open>
  The loops split at every access to shared memory. \<open>lf_owned\<close> records which nodes a CPU has taken off the
  queue and not put back. \<^verbatim>\<open>__atomic_compare_exchange_n\<close> is called in its weak form, so it may fail
  although the expected value is there, and a failure stores the value found into the
  expected word, which for \<^verbatim>\<open>add_to_queue\<close> is the \<^verbatim>\<open>next\<close> field of the node.
\<close>

datatype lf_pc =
    LIdle
  | LAdd addr              \<comment> \<open>at the top of the loop of \<^verbatim>\<open>add_to_queue\<close>\<close>
  | LAddCas addr           \<comment> \<open>\<^verbatim>\<open>node->next\<close> stored, before the compare-and-swap\<close>
  | LFetchHead addr        \<comment> \<open>\<^verbatim>\<open>node = *head\<close> done\<close>
  | LFetchCas addr addr    \<comment> \<open>\<^verbatim>\<open>node->next\<close> read, before the compare-and-swap\<close>

record lf_sys =
  lf_head :: addr
  lf_heap :: QueueHeap
  lf_pcs :: "nat \<Rightarrow> lf_pc"
  lf_owned :: "nat \<Rightarrow> addr set"

definition set_qnext :: "addr \<Rightarrow> addr \<Rightarrow> QueueHeap \<Rightarrow> QueueHeap" where
  "set_qnext n v h = h\<lparr>qnext := (qnext h)(n := v)\<rparr>"

inductive lf_step :: "lf_sys \<Rightarrow> lf_sys \<Rightarrow> bool" where
  add_call: "lf_pcs s c = LIdle \<Longrightarrow> n \<in> lf_owned s c \<Longrightarrow>
    lf_step s (s\<lparr>lf_pcs := (lf_pcs s)(c := LAdd n)\<rparr>)"
| add_store: "lf_pcs s c = LAdd n \<Longrightarrow>
    lf_step s (s\<lparr>lf_heap := set_qnext n (lf_head s) (lf_heap s), lf_pcs := (lf_pcs s)(c := LAddCas n)\<rparr>)"
| add_cas: "lf_pcs s c = LAddCas n \<Longrightarrow> lf_head s = qnext (lf_heap s) n \<Longrightarrow>
    lf_step s (s\<lparr>lf_head := n, lf_pcs := (lf_pcs s)(c := LIdle),
                 lf_owned := (lf_owned s)(c := lf_owned s c - {n})\<rparr>)"
| add_cas_fail: "lf_pcs s c = LAddCas n \<Longrightarrow>
    lf_step s (s\<lparr>lf_heap := set_qnext n (lf_head s) (lf_heap s), lf_pcs := (lf_pcs s)(c := LAdd n)\<rparr>)"
| fetch_load: "lf_pcs s c = LIdle \<Longrightarrow> lf_head s \<noteq> NULL \<Longrightarrow>
    lf_step s (s\<lparr>lf_pcs := (lf_pcs s)(c := LFetchHead (lf_head s))\<rparr>)"
| fetch_next: "lf_pcs s c = LFetchHead n \<Longrightarrow>
    lf_step s (s\<lparr>lf_pcs := (lf_pcs s)(c := LFetchCas n (qnext (lf_heap s) n))\<rparr>)"
| fetch_cas: "lf_pcs s c = LFetchCas n m \<Longrightarrow> lf_head s = n \<Longrightarrow>
    lf_step s (s\<lparr>lf_head := m, lf_pcs := (lf_pcs s)(c := LIdle),
                 lf_owned := (lf_owned s)(c := insert n (lf_owned s c))\<rparr>)"
| fetch_cas_fail: "lf_pcs s c = LFetchCas n m \<Longrightarrow>
    lf_step s (s\<lparr>lf_pcs := (lf_pcs s)(c := LIdle)\<rparr>)"

text \<open>A queue of the nodes \<open>xs\<close> that no CPU works on.\<close>

definition lf_idle :: "lf_sys \<Rightarrow> addr list \<Rightarrow> bool" where
  "lf_idle s xs \<longleftrightarrow> qchain (lf_heap s) (lf_head s) xs \<and> (\<forall>c. lf_pcs s c = LIdle \<and> lf_owned s c = {})"

section \<open>Properties\<close>

definition fresh_heap :: lheap where
  "fresh_heap = (\<lambda>_. \<lparr>lprev = NULL, lnext = NULL\<rparr>)"

text \<open>
  Inserting a new node into a circular list puts it right after the list head, a walk over the list then
  visits the new node first, the old nodes in their order and the head last, and detaching the node
  returns its predecessor, gives back the list as it was and leaves the node a list of its own.
\<close>
theorem list_insert_walk_detach:
  assumes "clist h (l # xs)" and "node \<noteq> NULL" and "node \<notin> set (l # xs)"
  shows "let h' = snd (insert_into_list l node h); h'' = snd (detach_from_list node h')
    in for_in_list h' l = Some (node # xs @ [l])
     \<and> fst (detach_from_list node h') = l
     \<and> clist h'' (l # xs) \<and> clist h'' [node]"
proof -
  let ?h = "snd (insert_into_list l node h)"
  have ins: "clist ?h (l # node # xs)" using assms by (rule clist_insert)
  then have "clist ?h (node # xs @ [l])" using clist_rotate by fastforce
  note det = detach_clist [OF this]
  have "clist (snd (detach_from_list node ?h)) (l # xs)"
    using det(1) clist_rotate_append [of _ xs "[l]"] by simp
  with det for_in_clist [OF ins] show ?thesis by (simp add: Let_def)
qed

theorem list_insert_walk_detach_witness:
  "let h' = snd (insert_into_list 1 2 (init_list_node 1 fresh_heap)); h'' = snd (detach_from_list 2 h')
    in for_in_list h' 1 = Some [2, 1] \<and> fst (detach_from_list 2 h') = 1
     \<and> clist h'' [1] \<and> clist h'' [2]"
  using list_insert_walk_detach [of "init_list_node 1 fresh_heap" 1 "[]" 2] clist_init [of 1]
  by simp

text \<open>
  Merging two disjoint circular lists splices the second in whole right after the first node of the
  first, and both keep their internal order.
\<close>
theorem merge_list_splices:
  assumes "clist h (n1 # as)" and "clist h (n2 # bs)" and "set (n1 # as) \<inter> set (n2 # bs) = {}"
  shows "fst (merge_list n1 n2 h) = n1
    \<and> for_in_list (snd (merge_list n1 n2 h)) n1 = Some (n2 # bs @ as @ [n1])"
  using for_in_clist [OF clist_merge [OF assms]] assms by (auto simp: merge_list_def clist_def Let_def)

theorem merge_list_splices_witness:
  "for_in_list (snd (merge_list 1 2 (init_list_node 2 (init_list_node 1 fresh_heap)))) 1
     = Some [2, 1]"
proof -
  let ?h = "init_list_node 2 (init_list_node 1 fresh_heap)"
  have "clist ?h [1]" "clist ?h [2]"
    using clist_frame_init [OF clist_init [of 1], of 2] clist_init [of 2] by simp_all
  then show ?thesis using merge_list_splices [of ?h 1 "[]" 2 "[]"] by simp
qed

text \<open>
  C20: the counted queue is first-in first-out: distinct nodes pushed onto a fresh queue come out in the order
  they were pushed, without a panic, and leave the queue empty.
\<close>
theorem queue_fifo:
  assumes "distinct xs" and "NULL \<notin> set xs"
  shows "\<exists>s'. drain queue_front queue_pop (length xs) (fold queue_push xs (queue_init s)) = Inr (xs, s')
    \<and> queue_empty s' \<and> queue_pop s' = Inl Panic"
proof -
  have "\<forall>x\<in>set xs. x \<noteq> NULL" using assms(2) by metis
  with assms(1) obtain s' where s': "queue_empty s'"
      "drain queue_front queue_pop (length xs) (fold queue_push xs (queue_init s)) = Inr (xs, s')"
    using kq.drain_push_all by blast
  then have "queue_pop s' = Inl Panic" by (cases s') (simp add: queue_empty_def queue_pop_def)
  with s' show ?thesis by blast
qed

theorem queue_fifo_witness:
  "\<exists>s'. drain queue_front queue_pop 3
      (fold queue_push [3, 1, 2]
        (queue_init (fresh_heap, \<lparr>qbegin = 0, qend = 0, qsz = 0, qlk = \<lparr>locked = False\<rparr>\<rparr>)))
      = Inr ([3, 1, 2], s') \<and> queue_empty s' \<and> queue_pop s' = Inl Panic"
  using queue_fifo [of "[3, 1, 2]"
      "(fresh_heap, \<lparr>qbegin = 0, qend = 0, qsz = 0, qlk = \<lparr>locked = False\<rparr>\<rparr>)"]
  by (simp add: numeral_3_eq_3)

text \<open>The run behind the next property: CPU 0 stops between reading \<^verbatim>\<open>node->next\<close> and its compare-and-swap.\<close>

definition aba_start :: lf_sys where
  "aba_start = \<lparr>lf_head = 1, lf_heap = \<lparr>qnext = (\<lambda>n. if n = 1 then 2 else NULL)\<rparr>,
                lf_pcs = (\<lambda>_. LIdle), lf_owned = (\<lambda>_. {})\<rparr>"

lemma lf_fetch_run:
  assumes "lf_pcs s c = LIdle" and "lf_head s = n" and "n \<noteq> NULL"
  shows "lf_step\<^sup>*\<^sup>* s (s\<lparr>lf_head := qnext (lf_heap s) n,
                          lf_owned := (lf_owned s)(c := insert n (lf_owned s c))\<rparr>)"
proof -
  let ?s1 = "s\<lparr>lf_pcs := (lf_pcs s)(c := LFetchHead n)\<rparr>"
  let ?s2 = "s\<lparr>lf_pcs := (lf_pcs s)(c := LFetchCas n (qnext (lf_heap s) n))\<rparr>"
  have 1: "lf_step s ?s1" using lf_step.fetch_load [of s c] assms by simp
  have 2: "lf_step ?s1 ?s2" using lf_step.fetch_next [of ?s1 c n] by simp
  have 3: "lf_step ?s2 (s\<lparr>lf_head := qnext (lf_heap s) n,
             lf_owned := (lf_owned s)(c := insert n (lf_owned s c))\<rparr>)"
    using lf_step.fetch_cas [of ?s2 c n "qnext (lf_heap s) n"] assms
    by (simp add: fun_upd_idem)
  from 1 2 3 show ?thesis by (meson converse_rtranclp_into_rtranclp rtranclp.rtrancl_refl)
qed

lemma lf_add_run:
  assumes "lf_pcs s c = LIdle" and "n \<in> lf_owned s c"
  shows "lf_step\<^sup>*\<^sup>* s (s\<lparr>lf_heap := set_qnext n (lf_head s) (lf_heap s), lf_head := n,
                          lf_owned := (lf_owned s)(c := lf_owned s c - {n})\<rparr>)"
proof -
  let ?s1 = "s\<lparr>lf_pcs := (lf_pcs s)(c := LAdd n)\<rparr>"
  let ?s2 = "s\<lparr>lf_heap := set_qnext n (lf_head s) (lf_heap s), lf_pcs := (lf_pcs s)(c := LAddCas n)\<rparr>"
  have 1: "lf_step s ?s1" using lf_step.add_call [of s c n] assms by simp
  have 2: "lf_step ?s1 ?s2" using lf_step.add_store [of ?s1 c n] by simp
  have 3: "lf_step ?s2 (s\<lparr>lf_heap := set_qnext n (lf_head s) (lf_heap s), lf_head := n,
             lf_owned := (lf_owned s)(c := lf_owned s c - {n})\<rparr>)"
    using lf_step.add_cas [of ?s2 c n] assms
    by (simp add: fun_upd_idem set_qnext_def)
  from 1 2 3 show ?thesis by (meson converse_rtranclp_into_rtranclp rtranclp.rtrancl_refl)
qed

text \<open>
  With two CPUs the lock-free queue can hand out a node that is already taken. A fetch that reads the head
  and its successor, and is then overtaken by another CPU that takes both nodes and puts the first one back,
  still succeeds in its compare-and-swap and makes the node the other CPU owns the new head.
\<close>
theorem lockfree_fetch_aba:
  "\<exists>s s' n. lf_idle s [1, 2] \<and> lf_step\<^sup>*\<^sup>* s s'
    \<and> lf_head s' = n \<and> n \<noteq> NULL \<and> n \<in> lf_owned s' 1 \<and> lf_pcs s' 0 = LIdle"
proof -
  let ?s1 = "aba_start\<lparr>lf_pcs := (lf_pcs aba_start)(0 := LFetchHead 1)\<rparr>"
  let ?s2 = "aba_start\<lparr>lf_pcs := (lf_pcs aba_start)(0 := LFetchCas 1 2)\<rparr>"
  let ?s3 = "?s2\<lparr>lf_head := 2, lf_owned := (\<lambda>_. {})(1 := {1})\<rparr>"
  let ?s4 = "?s2\<lparr>lf_head := NULL, lf_owned := (\<lambda>_. {})(1 := {1, 2})\<rparr>"
  let ?s5 = "?s4\<lparr>lf_heap := set_qnext 1 NULL (lf_heap ?s4), lf_head := 1, lf_owned := (\<lambda>_. {})(1 := {2})\<rparr>"
  let ?s6 = "?s5\<lparr>lf_head := 2, lf_pcs := (lf_pcs ?s5)(0 := LIdle), lf_owned := (lf_owned ?s5)(0 := {1})\<rparr>"
  have "lf_step aba_start ?s1"
    using lf_step.fetch_load [of aba_start 0] by (simp add: aba_start_def)
  moreover have "lf_step ?s1 ?s2"
    using lf_step.fetch_next [of ?s1 0 1] by (simp add: aba_start_def)
  moreover have "lf_step\<^sup>*\<^sup>* ?s2 ?s3"
    using lf_fetch_run [of ?s2 1 1] by (simp add: aba_start_def)
  moreover have "lf_step\<^sup>*\<^sup>* ?s3 ?s4"
    using lf_fetch_run [of ?s3 1 2] by (simp add: aba_start_def insert_commute)
  moreover have "lf_step\<^sup>*\<^sup>* ?s4 ?s5"
    using lf_add_run [of ?s4 1 1] by (simp add: aba_start_def)
  moreover have "lf_step ?s5 ?s6"
    using lf_step.fetch_cas [of ?s5 0 1 2] by (simp add: aba_start_def)
  ultimately have "lf_step\<^sup>*\<^sup>* aba_start ?s6"
    by (meson converse_rtranclp_into_rtranclp rtranclp_trans rtranclp.rtrancl_into_rtrancl)
  moreover have "lf_idle aba_start [1, 2]" by (simp add: lf_idle_def aba_start_def)
  moreover have "lf_head ?s6 = 2" "2 \<in> lf_owned ?s6 1" "lf_pcs ?s6 0 = LIdle" by simp_all
  ultimately show ?thesis by (intro exI [of _ aba_start] exI [of _ ?s6] exI [of _ 2]) simp
qed

end
