(* ===== verification/Disk_Layout.thy ===== *)
theory Disk_Layout
  imports Prelude
begin

text \<open>
  The on-disk structures of \<^verbatim>\<open>fs/defines.h\<close> and their byte layout.

  The kernel reads a structure by casting a pointer into a block's bytes and writes it by assigning
  through the cast pointer, so every structure is modelled together with its little-endian encoding. The locale
  \<open>codec\<close> is the contract of such an encoding; what it gives is that an array of structures
  inside a block (inode entries, block addresses, directory entries) behaves like an array: a slot
  written is the slot read back, and the other slots do not move.
\<close>

section \<open>Constants\<close>

abbreviation (input) BLOCK_SIZE :: nat where "BLOCK_SIZE \<equiv> 512"
abbreviation (input) LOG_MAX_SIZE :: nat where "LOG_MAX_SIZE \<equiv> 63"
abbreviation (input) INODE_NUM_DIRECT :: nat where "INODE_NUM_DIRECT \<equiv> 12"
abbreviation (input) INODE_NUM_INDIRECT :: nat where "INODE_NUM_INDIRECT \<equiv> 128"
abbreviation (input) INODE_PER_BLOCK :: nat where "INODE_PER_BLOCK \<equiv> 8"
abbreviation (input) INODE_MAX_BLOCKS :: nat where "INODE_MAX_BLOCKS \<equiv> 140"
abbreviation (input) INODE_MAX_BYTES :: nat where "INODE_MAX_BYTES \<equiv> 71680"
abbreviation (input) FILE_NAME_MAX_LENGTH :: nat where "FILE_NAME_MAX_LENGTH \<equiv> 14"
abbreviation (input) INODE_INVALID :: nat where "INODE_INVALID \<equiv> 0"
abbreviation (input) INODE_DIRECTORY :: nat where "INODE_DIRECTORY \<equiv> 1"
abbreviation (input) INODE_REGULAR :: nat where "INODE_REGULAR \<equiv> 2"
abbreviation (input) INODE_DEVICE :: nat where "INODE_DEVICE \<equiv> 3"
abbreviation (input) ROOT_INODE_NO :: nat where "ROOT_INODE_NO \<equiv> 1"
abbreviation (input) BIT_PER_BLOCK :: nat where "BIT_PER_BLOCK \<equiv> 4096"
abbreviation (input) U16 :: nat where "U16 \<equiv> 65536"
abbreviation (input) U32 :: nat where "U32 \<equiv> 4294967296"
abbreviation (input) U64 :: nat where "U64 \<equiv> 18446744073709551616"

section \<open>Encodings\<close>

definition slot_get :: "(byte list \<Rightarrow> 'a) \<Rightarrow> nat \<Rightarrow> nat \<Rightarrow> byte list \<Rightarrow> 'a" where
  "slot_get dec w i b = dec (slice (i * w) w b)"

definition slot_put :: "('a \<Rightarrow> byte list) \<Rightarrow> nat \<Rightarrow> nat \<Rightarrow> 'a \<Rightarrow> byte list \<Rightarrow> byte list" where
  "slot_put enc w i x b = patch (i * w) (enc x) b"

locale codec =
  fixes enc :: "'a \<Rightarrow> byte list" and dec :: "byte list \<Rightarrow> 'a" and width :: nat and ok :: "'a \<Rightarrow> bool"
  assumes length_enc: "ok x \<Longrightarrow> length (enc x) = width"
    and dec_enc: "ok x \<Longrightarrow> dec (enc x) = x"
    and enc_dec: "length bs = width \<Longrightarrow> enc (dec bs) = bs"
    and ok_dec: "length bs = width \<Longrightarrow> ok (dec bs)"
begin

lemma slot_in_block: "i < n \<Longrightarrow> n * width \<le> length b \<Longrightarrow> i * width + width \<le> length b"
  by (metis Suc_leI add.commute le_trans mult_Suc mult_le_mono1)

lemma length_slot_put:
  "ok x \<Longrightarrow> i * width + width \<le> length b \<Longrightarrow> length (slot_put enc width i x b) = length b"
  by (simp add: slot_put_def length_enc)

lemma slot_get_put_same:
  assumes "ok x" and "i * width + width \<le> length b"
  shows "slot_get dec width i (slot_put enc width i x b) = x"
  using assms slice_patch_same [of "i * width" "enc x" b]
  by (simp add: slot_get_def slot_put_def length_enc dec_enc)

lemma slot_get_put_other:
  assumes "ok x" and "i * width + width \<le> length b" and "j * width + width \<le> length b" and "i \<noteq> j"
  shows "slot_get dec width j (slot_put enc width i x b) = slot_get dec width j b"
proof -
  have "j * width + width \<le> i * width \<or> i * width + width \<le> j * width"
    using assms(4) by (metis Suc_leI add.commute mult_Suc mult_le_mono1 nat_neq_iff)
  then show ?thesis
    using assms by (simp add: slot_get_def slot_put_def slice_patch_disjoint length_enc)
qed

lemma slot_put_get: "i * width + width \<le> length b \<Longrightarrow>
  slot_put enc width i (slot_get dec width i b) b = b"
  by (simp add: slot_get_def slot_put_def enc_dec patch_slice_id)

lemma slot_get_ok: "i * width + width \<le> length b \<Longrightarrow> ok (slot_get dec width i b)"
  by (simp add: slot_get_def ok_dec)

text \<open>The first \<open>n\<close> slots of a block as an array.\<close>

lemma slots_after_put:
  assumes "ok x" and "n * width \<le> length b" and "i < n"
  shows "map (\<lambda>j. slot_get dec width j (slot_put enc width i x b)) [0..<n]
    = (map (\<lambda>j. slot_get dec width j b) [0..<n])[i := x]"
proof (intro nth_equalityI)
  fix j assume "j < length (map (\<lambda>j. slot_get dec width j (slot_put enc width i x b)) [0..<n])"
  then have j: "j < n" by simp
  note in_b = slot_in_block [OF _ assms(2)]
  show "map (\<lambda>j. slot_get dec width j (slot_put enc width i x b)) [0..<n] ! j
    = (map (\<lambda>j. slot_get dec width j b) [0..<n])[i := x] ! j"
    using j assms slot_get_put_same [OF assms(1) in_b [OF assms(3)]]
      slot_get_put_other [OF assms(1) in_b [OF assms(3)] in_b [OF j]]
    by (cases "i = j") auto
qed simp

end

section \<open>Integers\<close>

lemma codec_le: "codec (le_enc k) le_dec k (\<lambda>n. n < 256 ^ k)"
  by unfold_locales (auto simp: le_dec_enc le_enc_dec le_dec_less)

lemma le_dec_enc_U:
  "n < U16 \<Longrightarrow> le_dec (le_enc 2 n) = n"
  "n < U32 \<Longrightarrow> le_dec (le_enc 4 n) = n"
  "n < U64 \<Longrightarrow> le_dec (le_enc 8 n) = n"
  using le_dec_enc [of n 2] le_dec_enc [of n 4] le_dec_enc [of n 8] by simp_all

lemma le_dec_bound:
  "length bs = 2 \<Longrightarrow> le_dec bs < U16"
  "length bs = 4 \<Longrightarrow> le_dec bs < U32"
  "length bs = 8 \<Longrightarrow> le_dec bs < U64"
  using le_dec_less [of bs] by simp_all

interpretation u32: codec "le_enc 4" le_dec 4 "\<lambda>n. n < U32"
  using codec_le [of 4] by simp

interpretation u64: codec "le_enc 8" le_dec 8 "\<lambda>n. n < U64"
  using codec_le [of 8] by simp

lemma slice_join: "p = off + a \<Longrightarrow> slice off a bs @ slice p b bs = slice off (a + b) bs"
  using take_add [of a b "drop off bs"] by (simp add: slice_def add.commute)

text \<open>An array of \<open>n\<close> integers of \<open>k\<close> bytes each.\<close>

definition enc_ints :: "nat \<Rightarrow> nat list \<Rightarrow> byte list" where
  "enc_ints k xs = concat (map (le_enc k) xs)"

definition dec_ints :: "nat \<Rightarrow> nat \<Rightarrow> byte list \<Rightarrow> nat list" where
  "dec_ints k n bs = map (\<lambda>i. slot_get le_dec k i bs) [0..<n]"

lemma length_enc_ints [simp]: "length (enc_ints k xs) = length xs * k"
  by (induction xs) (auto simp: enc_ints_def)

lemma length_dec_ints [simp]: "length (dec_ints k n bs) = n"
  by (simp add: dec_ints_def)

lemma slot_get_le_Cons:
  "slot_get le_dec k (Suc i) (le_enc k x @ bs) = slot_get le_dec k i bs"
  by (simp add: slot_get_def slice_def)

lemma dec_enc_ints: "\<forall>x\<in>set xs. x < 256 ^ k \<Longrightarrow> dec_ints k (length xs) (enc_ints k xs) = xs"
proof (induction xs)
  case Nil
  then show ?case by (simp add: dec_ints_def)
next
  case (Cons x xs)
  have "dec_ints k (length (x # xs)) (enc_ints k (x # xs))
      = slot_get le_dec k 0 (le_enc k x @ enc_ints k xs)
        # map (\<lambda>i. slot_get le_dec k (Suc i) (le_enc k x @ enc_ints k xs)) [0..<length xs]"
    by (simp add: dec_ints_def enc_ints_def map_upt_Suc del: upt_Suc)
  also have "\<dots> = x # dec_ints k (length xs) (enc_ints k xs)"
    using Cons.prems by (simp add: slot_get_le_Cons dec_ints_def)
      (simp add: slot_get_def slice_def le_dec_enc)
  finally show ?case using Cons by simp
qed

lemma enc_dec_ints: "length bs = n * k \<Longrightarrow> enc_ints k (dec_ints k n bs) = bs"
proof (induction n arbitrary: bs)
  case 0
  then show ?case by (simp add: enc_ints_def dec_ints_def)
next
  case (Suc n)
  have "enc_ints k (dec_ints k (Suc n) bs) = enc_ints k (dec_ints k n (take (n * k) bs)) @ drop (n * k) bs"
  proof -
    have "slot_get le_dec k i bs = slot_get le_dec k i (take (n * k) bs)" if "i < n" for i
    proof -
      have "i * k + k \<le> n * k" using that by (metis Suc_leI add.commute mult_Suc mult_le_mono1)
      then show ?thesis by (simp add: slot_get_def slice_def drop_take min_def)
    qed
    then have eq: "dec_ints k n bs = dec_ints k n (take (n * k) bs)"
      by (simp add: dec_ints_def)
    have "enc_ints k (dec_ints k (Suc n) bs) = enc_ints k (dec_ints k n bs) @ le_enc k (slot_get le_dec k n bs)"
      by (simp add: enc_ints_def dec_ints_def)
    also have "le_enc k (slot_get le_dec k n bs) = drop (n * k) bs"
      using Suc.prems by (simp add: slot_get_def slice_def le_enc_dec)
    finally show ?thesis by (simp only: eq)
  qed
  with Suc.IH [of "take (n * k) bs"] Suc.prems show ?case by simp
qed

lemma dec_ints_bound: "n * k \<le> length bs \<Longrightarrow> \<forall>x\<in>set (dec_ints k n bs). x < 256 ^ k"
proof
  fix x assume len: "n * k \<le> length bs" and "x \<in> set (dec_ints k n bs)"
  then obtain i where i: "i < n" "x = le_dec (slice (i * k) k bs)"
    by (auto simp: dec_ints_def slot_get_def)
  have "i * k + k \<le> length bs"
    using i(1) len by (metis Suc_leI add.commute le_trans mult_Suc mult_le_mono1)
  with i le_dec_less [of "slice (i * k) k bs"] show "x < 256 ^ k" by simp
qed

section \<open>Structures\<close>

text \<open>\<^verbatim>\<open>SuperBlock\<close>: seven 32-bit fields.\<close>

record SuperBlock =
  num_blocks :: nat
  num_data_blocks :: nat
  num_inodes :: nat
  num_log_blocks :: nat
  log_start :: nat
  inode_start :: nat
  bitmap_start :: nat

text \<open>\<^verbatim>\<open>InodeEntry\<close> (\<^verbatim>\<open>struct dinode\<close>): 64 bytes, eight to a block.\<close>

record InodeEntry =
  itype :: nat
  major :: nat
  minor :: nat
  num_links :: nat
  num_bytes :: nat
  addrs :: "nat list"
  indirect :: nat

definition InodeEntry_ok :: "InodeEntry \<Rightarrow> bool" where
  "InodeEntry_ok e \<longleftrightarrow> itype e < U16 \<and> major e < U16 \<and> minor e < U16 \<and> num_links e < U16
     \<and> num_bytes e < U32 \<and> length (addrs e) = INODE_NUM_DIRECT \<and> (\<forall>a\<in>set (addrs e). a < U32)
     \<and> indirect e < U32"

definition enc_InodeEntry :: "InodeEntry \<Rightarrow> byte list" where
  "enc_InodeEntry e = le_enc 2 (itype e) @ le_enc 2 (major e) @ le_enc 2 (minor e)
     @ le_enc 2 (num_links e) @ le_enc 4 (num_bytes e) @ enc_ints 4 (addrs e) @ le_enc 4 (indirect e)"

definition dec_InodeEntry :: "byte list \<Rightarrow> InodeEntry" where
  "dec_InodeEntry bs = \<lparr>itype = le_dec (slice 0 2 bs), major = le_dec (slice 2 2 bs),
     minor = le_dec (slice 4 2 bs), num_links = le_dec (slice 6 2 bs),
     num_bytes = le_dec (slice 8 4 bs), addrs = dec_ints 4 INODE_NUM_DIRECT (slice 12 48 bs),
     indirect = le_dec (slice 60 4 bs)\<rparr>"

text \<open>\<^verbatim>\<open>DirEntry\<close>: a 16-bit inode number and 14 characters of name.\<close>

record DirEntry =
  inode_no :: nat
  name :: "byte list"

definition DirEntry_ok :: "DirEntry \<Rightarrow> bool" where
  "DirEntry_ok d \<longleftrightarrow> inode_no d < U16 \<and> length (name d) = FILE_NAME_MAX_LENGTH"

definition enc_DirEntry :: "DirEntry \<Rightarrow> byte list" where
  "enc_DirEntry d = le_enc 2 (inode_no d) @ name d"

definition dec_DirEntry :: "byte list \<Rightarrow> DirEntry" where
  "dec_DirEntry bs = \<lparr>inode_no = le_dec (slice 0 2 bs), name = slice 2 FILE_NAME_MAX_LENGTH bs\<rparr>"

text \<open>\<^verbatim>\<open>LogHeader\<close>: a 64-bit count and 63 block numbers, which fill a block exactly.\<close>

record LogHeader =
  hnum :: nat
  hblocks :: "nat list"

definition LogHeader_ok :: "LogHeader \<Rightarrow> bool" where
  "LogHeader_ok h \<longleftrightarrow> hnum h < U64 \<and> length (hblocks h) = LOG_MAX_SIZE \<and> (\<forall>b\<in>set (hblocks h). b < U64)"

definition enc_LogHeader :: "LogHeader \<Rightarrow> byte list" where
  "enc_LogHeader h = le_enc 8 (hnum h) @ enc_ints 8 (hblocks h)"

definition dec_LogHeader :: "byte list \<Rightarrow> LogHeader" where
  "dec_LogHeader bs = \<lparr>hnum = le_dec (slice 0 8 bs), hblocks = dec_ints 8 LOG_MAX_SIZE (slice 8 504 bs)\<rparr>"

interpretation logheader: codec enc_LogHeader dec_LogHeader BLOCK_SIZE LogHeader_ok
proof (unfold_locales, goal_cases)
  case (1 x)
  then show ?case by (simp add: enc_LogHeader_def LogHeader_ok_def)
next
  case (2 x)
  then have "dec_ints 8 63 (enc_ints 8 (hblocks x)) = hblocks x"
    using dec_enc_ints [of "hblocks x" 8] by (simp add: LogHeader_ok_def)
  with 2 show ?case
    by (simp add: enc_LogHeader_def dec_LogHeader_def slice_def le_dec_enc_U LogHeader_ok_def)
next
  case (3 bs)
  then show ?case
    using slice_join [of 8 0 8 bs 504] enc_dec_ints [of "slice 8 504 bs" 63 8] slice_all [of bs]
    by (simp add: enc_LogHeader_def dec_LogHeader_def le_enc_dec)
next
  case (4 bs)
  then show ?case
    using dec_ints_bound [of 63 8 "slice 8 504 bs"]
    by (simp add: LogHeader_ok_def dec_LogHeader_def le_dec_bound)
qed

interpretation direntry: codec enc_DirEntry dec_DirEntry 16 DirEntry_ok
proof (unfold_locales, goal_cases)
  case (1 x)
  then show ?case by (simp add: enc_DirEntry_def DirEntry_ok_def)
next
  case (2 x)
  then show ?case
    by (simp add: enc_DirEntry_def dec_DirEntry_def slice_def le_dec_enc_U DirEntry_ok_def)
next
  case (3 bs)
  then show ?case
    using slice_join [of 2 0 2 bs 14] slice_all [of bs]
    by (simp add: enc_DirEntry_def dec_DirEntry_def le_enc_dec)
next
  case (4 bs)
  then show ?case by (simp add: DirEntry_ok_def dec_DirEntry_def le_dec_bound)
qed

interpretation inodeentry: codec enc_InodeEntry dec_InodeEntry 64 InodeEntry_ok
proof (unfold_locales, goal_cases)
  case (1 x)
  then show ?case by (simp add: enc_InodeEntry_def InodeEntry_ok_def)
next
  case (2 x)
  then have "dec_ints 4 12 (enc_ints 4 (addrs x)) = addrs x"
    using dec_enc_ints [of "addrs x" 4] by (simp add: InodeEntry_ok_def)
  with 2 show ?case
    by (simp add: enc_InodeEntry_def dec_InodeEntry_def slice_def le_dec_enc_U InodeEntry_ok_def)
next
  case (3 bs)
  then show ?case
    using enc_dec_ints [of "slice 12 48 bs" 12 4] slice_all [of bs]
    by (simp add: enc_InodeEntry_def dec_InodeEntry_def le_enc_dec slice_join)
next
  case (4 bs)
  then show ?case
    using dec_ints_bound [of 12 4 "slice 12 48 bs"]
    by (simp add: InodeEntry_ok_def dec_InodeEntry_def le_dec_bound)
qed

end
