(* ===== verification/CString.thy ===== *)
theory CString
  imports Prelude
begin

text \<open>
  The memory and string routines of \<^verbatim>\<open>common/string.c\<close> and the arithmetic helpers of \<^verbatim>\<open>common/defines.h\<close>.

  Memory is a function from addresses to bytes; a string argument that is only read is the function
  \<open>\<lambda>i. s[i]\<close>. A counted loop \<^verbatim>\<open>for (i = 0; i < n; i++)\<close> over memory is a \<^const>\<open>fold\<close> over the indices in the order
  the loop takes them, so overlapping source and destination behave as they do in C. \<open>cstr n s\<close> is the
  string at \<open>s\<close>: its bytes up to the first NUL, at most \<open>n\<close> of them. Characters are unsigned, as on AArch64.
\<close>

type_synonym mem = "nat \<Rightarrow> byte"

section \<open>Rounding\<close>

definition round_down :: "64 word \<Rightarrow> 64 word \<Rightarrow> 64 word" where
  "round_down a b = a - a mod b"

definition round_up :: "64 word \<Rightarrow> 64 word \<Rightarrow> 64 word" where
  "round_up a b = round_down (a + b - 1) b"

section \<open>Blocks of memory\<close>

definition memset :: "nat \<Rightarrow> byte \<Rightarrow> nat \<Rightarrow> mem \<Rightarrow> mem" where
  "memset s c n m = fold (\<lambda>i m. m(s + i := c)) [0..<n] m"

definition copy_byte :: "nat \<Rightarrow> nat \<Rightarrow> nat \<Rightarrow> mem \<Rightarrow> mem" where
  "copy_byte dest src i m = m(dest + i := m (src + i))"

definition memcpy :: "nat \<Rightarrow> nat \<Rightarrow> nat \<Rightarrow> mem \<Rightarrow> mem" where
  "memcpy dest src n m = fold (copy_byte dest src) [0..<n] m"

fun memcmp_from :: "mem \<Rightarrow> nat \<Rightarrow> nat \<Rightarrow> nat \<Rightarrow> nat \<Rightarrow> int" where
  "memcmp_from m s1 s2 i 0 = 0"
| "memcmp_from m s1 s2 i (Suc k) =
     (let c1 = uint (m (s1 + i)); c2 = uint (m (s2 + i))
      in if c1 \<noteq> c2 then c1 - c2 else memcmp_from m s1 s2 (Suc i) k)"

definition memcmp :: "nat \<Rightarrow> nat \<Rightarrow> nat \<Rightarrow> mem \<Rightarrow> int" where
  "memcmp s1 s2 n m = memcmp_from m s1 s2 0 n"

definition memmove :: "nat \<Rightarrow> nat \<Rightarrow> nat \<Rightarrow> mem \<Rightarrow> mem" where
  "memmove dest src n m =
     (if src < dest \<and> dest - src < n
      then fold (copy_byte dest src) (rev [0..<n]) m
      else fold (copy_byte dest src) [0..<n] m)"

section \<open>Strings\<close>

fun strncpy_from :: "(nat \<Rightarrow> byte) \<Rightarrow> nat \<Rightarrow> nat \<Rightarrow> (nat \<Rightarrow> byte) \<Rightarrow> nat \<times> (nat \<Rightarrow> byte)" where
  "strncpy_from src i 0 dest = (i, dest)"
| "strncpy_from src i (Suc k) dest =
     (if src i \<noteq> 0 then strncpy_from src (Suc i) k (dest(i := src i)) else (i, dest))"

definition strncpy :: "(nat \<Rightarrow> byte) \<Rightarrow> (nat \<Rightarrow> byte) \<Rightarrow> nat \<Rightarrow> (nat \<Rightarrow> byte)" where
  "strncpy dest src n =
     (let (i, dest) = strncpy_from src 0 n dest in fold (\<lambda>j d. d(j := 0)) [i..<n] dest)"

definition strncpy_fast :: "(nat \<Rightarrow> byte) \<Rightarrow> (nat \<Rightarrow> byte) \<Rightarrow> nat \<Rightarrow> (nat \<Rightarrow> byte)" where
  "strncpy_fast dest src n =
     (let (i, dest) = strncpy_from src 0 n dest in if i < n then dest(i := 0) else dest)"

fun strncmp_from :: "(nat \<Rightarrow> byte) \<Rightarrow> (nat \<Rightarrow> byte) \<Rightarrow> nat \<Rightarrow> nat \<Rightarrow> int" where
  "strncmp_from s1 s2 i 0 = 0"
| "strncmp_from s1 s2 i (Suc k) =
     (if s1 i \<noteq> s2 i then uint (s1 i) - uint (s2 i)
      else if s1 i = 0 \<or> s2 i = 0 then 0
      else strncmp_from s1 s2 (Suc i) k)"

definition strncmp :: "(nat \<Rightarrow> byte) \<Rightarrow> (nat \<Rightarrow> byte) \<Rightarrow> nat \<Rightarrow> int" where
  "strncmp s1 s2 n = strncmp_from s1 s2 0 n"

partial_function (option) strlen_from :: "(nat \<Rightarrow> byte) \<Rightarrow> nat \<Rightarrow> nat option" where
  "strlen_from s i = (if s i \<noteq> 0 then strlen_from s (Suc i) else Some i)"

definition strlen :: "(nat \<Rightarrow> byte) \<Rightarrow> nat option" where
  "strlen s = strlen_from s 0"

section \<open>What the routines compute\<close>

text \<open>The string at \<open>s\<close>, cut at \<open>n\<close> bytes.\<close>

definition cstr :: "nat \<Rightarrow> (nat \<Rightarrow> byte) \<Rightarrow> byte list" where
  "cstr n s = takeWhile (\<lambda>c. c \<noteq> 0) (map s [0..<n])"

lemma fold_upd_apply:
  assumes "distinct is"
  shows "fold (\<lambda>i m. m(d + i := c)) is m a = (if a \<in> (+) d ` set is then c else m a)"
  using assms by (induction "is" arbitrary: m) auto

lemma memset_apply: "memset s c n m a = (if s \<le> a \<and> a < s + n then c else m a)"
  by (auto simp: memset_def fold_upd_apply)

lemma copy_forward:
  "dest \<le> src \<or> n \<le> dest - src \<Longrightarrow> fold (copy_byte dest src) [0..<n] m a
    = (if dest \<le> a \<and> a < dest + n then m (a - dest + src) else m a)"
proof (induction n arbitrary: a)
  case 0
  then show ?case by auto
next
  case (Suc n)
  then have "dest \<le> src \<or> n \<le> dest - src" by auto
  from Suc.IH [OF this] Suc.prems show ?case by (auto simp: copy_byte_def add.commute less_Suc_eq)
qed

lemma copy_backward:
  "src < dest \<Longrightarrow> fold (copy_byte dest src) (rev [0..<n]) m a
    = (if dest \<le> a \<and> a < dest + n then m (a - dest + src) else m a)"
  by (induction n arbitrary: m) (auto simp: copy_byte_def add.commute less_Suc_eq)

lemma memmove_apply:
  "memmove dest src n m a = (if dest \<le> a \<and> a < dest + n then m (a - dest + src) else m a)"
proof (cases "src < dest \<and> dest - src < n")
  case True
  then show ?thesis by (simp add: memmove_def copy_backward)
next
  case False
  then have "dest \<le> src \<or> n \<le> dest - src" by auto
  with copy_forward [OF this] show ?thesis by (simp only: memmove_def if_not_P [OF False])
qed

lemma memcpy_apply:
  assumes "dest + n \<le> src \<or> src + n \<le> dest"
  shows "memcpy dest src n m a = (if dest \<le> a \<and> a < dest + n then m (a - dest + src) else m a)"
proof -
  have "\<not> (src < dest \<and> dest - src < n)" using assms by auto
  then have "memcpy dest src n m = memmove dest src n m" by (simp only: memcpy_def memmove_def if_False)
  then show ?thesis by (simp add: memmove_apply)
qed

lemma memcmp_from_eq_0:
  "memcmp_from m s1 s2 i k = 0 \<longleftrightarrow> (\<forall>j<k. m (s1 + i + j) = m (s2 + i + j))"
proof (induction k arbitrary: i)
  case 0
  then show ?case by simp
next
  case (Suc k)
  then show ?case by (auto simp: Let_def less_Suc_eq_0_disj word_uint_eq_iff)
qed

lemma strncpy_from_spec:
  "strncpy_from src i k dest = (i', dest') \<Longrightarrow>
     i \<le> i' \<and> i' \<le> i + k \<and> (\<forall>j. i \<le> j \<and> j < i' \<longrightarrow> src j \<noteq> 0) \<and> (i' < i + k \<longrightarrow> src i' = 0)
     \<and> dest' = (\<lambda>j. if i \<le> j \<and> j < i' then src j else dest j)"
proof (induction k arbitrary: i dest)
  case 0
  then show ?case by (auto simp: fun_eq_iff)
next
  case (Suc k)
  show ?case
  proof (cases "src i \<noteq> 0")
    case True
    with Suc.prems have "strncpy_from src (Suc i) k (dest(i := src i)) = (i', dest')" by simp
    from Suc.IH [OF this] True show ?thesis
      by (auto simp: fun_eq_iff Suc_le_eq) (metis le_neq_implies_less)+
  next
    case False
    with Suc.prems show ?thesis by (auto simp: fun_eq_iff)
  qed
qed

lemma cstr_take:
  assumes "i \<le> n" and "\<forall>j<i. s j \<noteq> 0" and "i < n \<longrightarrow> s i = 0"
  shows "cstr n s = map s [0..<i]"
proof -
  have "[0..<n] = [0..<i] @ [i..<n]" using assms(1) upt_add_eq_append [of 0 i "n - i"] by simp
  moreover have "takeWhile (\<lambda>c. c \<noteq> 0) (map s [i..<n]) = []"
    using assms(1,3) by (cases "i = n") (auto simp: upt_conv_Cons)
  moreover have "takeWhile (\<lambda>c. c \<noteq> 0) (map s [0..<i] @ map s [i..<n])
      = map s [0..<i] @ takeWhile (\<lambda>c. c \<noteq> 0) (map s [i..<n])"
    using assms(2) by (intro takeWhile_append2) auto
  ultimately show ?thesis by (simp add: cstr_def)
qed

lemma strncpy_apply:
  "strncpy dest src n j = (if j < n then (if j < length (cstr n src) then src j else 0) else dest j)"
proof -
  obtain i d where e: "strncpy_from src 0 n dest = (i, d)" by fastforce
  note sp = strncpy_from_spec [OF e]
  have "cstr n src = map src [0..<i]" using sp by (intro cstr_take) auto
  moreover have "fold (\<lambda>j d. d(j := 0)) [i..<n] d j = (if j \<in> set [i..<n] then 0 else d j)"
    using fold_upd_apply [of "[i..<n]" 0 0 d j] by simp
  ultimately show ?thesis using sp by (auto simp: strncpy_def e)
qed

lemma byte_eq_uint [simp]: "uint (a :: byte) = uint b \<longleftrightarrow> a = b"
  by (simp add: word_uint_eq_iff)

lemma strncmp_from_eq_0:
  "strncmp_from s1 s2 i k = 0 \<longleftrightarrow>
     takeWhile (\<lambda>c. c \<noteq> 0) (map s1 [i..<i + k]) = takeWhile (\<lambda>c. c \<noteq> 0) (map s2 [i..<i + k])"
proof (induction k arbitrary: i)
  case 0
  then show ?case by simp
next
  case (Suc k)
  have u: "[i..<i + Suc k] = i # [Suc i..<Suc i + k]" using upt_conv_Cons [of i "i + Suc k"] by simp
  show ?case unfolding u by (auto simp: Suc uint_0_iff)
qed

lemma strncmp_0_cstr: "strncmp s1 s2 n = 0 \<longleftrightarrow> cstr n s1 = cstr n s2"
  using strncmp_from_eq_0 [of s1 s2 0 n] by (simp add: strncmp_def cstr_def)

lemma strlen_from_least:
  "strlen_from s i = Some n" if "i \<le> n" and "s n = 0" and "\<forall>j. i \<le> j \<and> j < n \<longrightarrow> s j \<noteq> 0"
  using that
proof (induction "n - i" arbitrary: i)
  case 0
  then show ?case by (simp add: strlen_from.simps)
next
  case (Suc k)
  then have "strlen_from s (Suc i) = Some n" by auto
  with Suc.prems Suc.hyps(2) show ?case by (simp add: strlen_from.simps [of s i])
qed

section \<open>Properties\<close>

text \<open>
  Memmove copies the original bytes of the source, whether or not the two ranges overlap, and changes nothing
  outside the destination.
\<close>
theorem memmove_copies:
  "memmove dest src n m = (\<lambda>a. if dest \<le> a \<and> a < dest + n then m (src + (a - dest)) else m a)"
  by (simp add: fun_eq_iff memmove_apply add.commute)

text \<open>
  Strncpy stores the string at its source, cut at the bound, pads the rest of the bound with NULs and
  writes nothing behind it; so the copy compares equal to the source under the same bound.
\<close>
theorem strncpy_copies:
  "(\<forall>j. strncpy dest src n j = (if j < n then (if j < length (cstr n src) then src j else 0) else dest j))
   \<and> strncmp (strncpy dest src n) src n = 0"
proof -
  obtain i d where e: "strncpy_from src 0 n dest = (i, d)" by fastforce
  note sp = strncpy_from_spec [OF e]
  have c: "cstr n src = map src [0..<i]" using sp by (intro cstr_take) auto
  have "cstr n (strncpy dest src n) = map (strncpy dest src n) [0..<i]"
    using sp c by (intro cstr_take) (auto simp: strncpy_apply)
  also have "\<dots> = map src [0..<i]" using sp c by (auto simp: strncpy_apply)
  finally show ?thesis by (simp add: c strncpy_apply strncmp_0_cstr)
qed

end
