(* ===== verification/Bitmap.thy ===== *)
theory Bitmap
  imports Disk_Layout
begin

text \<open>
  The bitmaps of \<^verbatim>\<open>common/bitmap.h\<close>: a boolean array packed into 64-bit cells.

  The locale \<open>bit_array\<close> is what the block allocator relies on. It is interpreted twice: on an array of cells,
  and on the bytes of a disk block that the allocator casts to \<^verbatim>\<open>BitmapCell *\<close>.
\<close>

unbundle bit_operations_syntax

type_synonym BitmapCell = "64 word"

abbreviation (input) BITMAP_BITS_PER_CELL :: nat where "BITMAP_BITS_PER_CELL \<equiv> 64"

definition BITMAP_TO_NUM_CELLS :: "nat \<Rightarrow> nat" where
  "BITMAP_TO_NUM_CELLS sz = (sz + BITMAP_BITS_PER_CELL - 1) div BITMAP_BITS_PER_CELL"

definition BITMAP_PARSE_INDEX :: "nat \<Rightarrow> nat \<times> nat" where
  "BITMAP_PARSE_INDEX index = (index div BITMAP_BITS_PER_CELL, index mod BITMAP_BITS_PER_CELL)"

definition bitmap_get :: "BitmapCell list \<Rightarrow> nat \<Rightarrow> bool" where
  "bitmap_get bitmap index =
     (let (idx, offset) = BITMAP_PARSE_INDEX index
      in (drop_bit offset (bitmap ! idx) AND 1) \<noteq> 0)"

definition bitmap_set :: "nat \<Rightarrow> BitmapCell list \<Rightarrow> BitmapCell list" where
  "bitmap_set index bitmap =
     (let (idx, offset) = BITMAP_PARSE_INDEX index
      in bitmap[idx := bitmap ! idx OR push_bit offset 1])"

definition bitmap_clear :: "nat \<Rightarrow> BitmapCell list \<Rightarrow> BitmapCell list" where
  "bitmap_clear index bitmap =
     (let (idx, offset) = BITMAP_PARSE_INDEX index
      in bitmap[idx := bitmap ! idx AND NOT (push_bit offset 1)])"

section \<open>The contract\<close>

text \<open>The first index below \<open>n\<close> whose bit is clear, as a linear search finds it.\<close>

definition first_clear :: "('b \<Rightarrow> nat \<Rightarrow> bool) \<Rightarrow> nat \<Rightarrow> 'b \<Rightarrow> nat option" where
  "first_clear get n b = find (\<lambda>i. \<not> get b i) [0..<n]"

locale bit_array =
  fixes get :: "'b \<Rightarrow> nat \<Rightarrow> bool" and set1 :: "nat \<Rightarrow> 'b \<Rightarrow> 'b" and clear1 :: "nat \<Rightarrow> 'b \<Rightarrow> 'b"
    and cap :: "'b \<Rightarrow> nat"
  assumes cap_set1: "i < cap b \<Longrightarrow> cap (set1 i b) = cap b"
    and cap_clear1: "i < cap b \<Longrightarrow> cap (clear1 i b) = cap b"
    and get_set1: "i < cap b \<Longrightarrow> j < cap b \<Longrightarrow> get (set1 i b) j \<longleftrightarrow> j = i \<or> get b j"
    and get_clear1: "i < cap b \<Longrightarrow> j < cap b \<Longrightarrow> get (clear1 i b) j \<longleftrightarrow> j \<noteq> i \<and> get b j"
begin

text \<open>The bits that are set, as a set.\<close>

definition bits_of :: "'b \<Rightarrow> nat set" where
  "bits_of b = {i. i < cap b \<and> get b i}"

lemma bits_of_set1: "i < cap b \<Longrightarrow> bits_of (set1 i b) = insert i (bits_of b)"
  by (auto simp: bits_of_def cap_set1 get_set1)

lemma bits_of_clear1: "i < cap b \<Longrightarrow> bits_of (clear1 i b) = bits_of b - {i}"
  by (auto simp: bits_of_def cap_clear1 get_clear1)

lemma clear1_set1: "i < cap b \<Longrightarrow> \<not> get b i \<Longrightarrow> bits_of (clear1 i (set1 i b)) = bits_of b"
  by (simp add: bits_of_set1 bits_of_clear1 cap_set1) (auto simp: bits_of_def)

lemma first_clear_Some:
  "first_clear get n b = Some i \<Longrightarrow> i < n \<and> \<not> get b i \<and> (\<forall>j<i. get b j)"
  by (auto simp: first_clear_def find_Some_iff)

lemma first_clear_None: "first_clear get n b = None \<longleftrightarrow> (\<forall>i<n. get b i)"
  by (auto simp: first_clear_def find_None_iff)

end

section \<open>Cells\<close>

lemma bitmap_get_bit:
  "bitmap_get bitmap i \<longleftrightarrow> bit (bitmap ! (i div 64)) (i mod 64)"
  by (simp add: bitmap_get_def BITMAP_PARSE_INDEX_def and_one_eq bit_iff_odd_drop_bit
      odd_iff_mod_2_eq_one)

lemma div_mod_eq_iff: "(i::nat) div n = j div n \<and> i mod n = j mod n \<longleftrightarrow> i = j"
  by (metis div_mult_mod_eq)

interpretation cells: bit_array bitmap_get bitmap_set bitmap_clear "\<lambda>bm. 64 * length bm"
proof (unfold_locales, goal_cases)
  case (1 i b)
  then show ?case by (simp add: bitmap_set_def BITMAP_PARSE_INDEX_def)
next
  case (2 i b)
  then show ?case by (simp add: bitmap_clear_def BITMAP_PARSE_INDEX_def)
next
  case (3 i b j)
  then have "i div 64 < length b" by (simp add: less_mult_imp_div_less mult.commute)
  then show ?case
    using div_mod_eq_iff [of i 64 j]
    by (auto simp: bitmap_get_bit bitmap_set_def BITMAP_PARSE_INDEX_def nth_list_update
        bit_or_iff bit_exp_iff)
next
  case (4 i b j)
  then have "i div 64 < length b" by (simp add: less_mult_imp_div_less mult.commute)
  then show ?case
    using div_mod_eq_iff [of i 64 j]
    by (auto simp: bitmap_get_bit bitmap_clear_def BITMAP_PARSE_INDEX_def nth_list_update
        bit_and_iff bit_not_iff bit_exp_iff)
qed

section \<open>A disk block as a bitmap\<close>

text \<open>\<^verbatim>\<open>(BitmapCell *)block->data\<close>: the 64 little-endian cells of a block, and the bytes of such cells.\<close>

definition cells_of :: "byte list \<Rightarrow> BitmapCell list" where
  "cells_of data = map word_of_nat (dec_ints 8 64 data)"

definition bytes_of_cells :: "BitmapCell list \<Rightarrow> byte list" where
  "bytes_of_cells cs = enc_ints 8 (map unat cs)"

definition data_bitmap_get :: "byte list \<Rightarrow> nat \<Rightarrow> bool" where
  "data_bitmap_get data i = bitmap_get (cells_of data) i"

definition data_bitmap_set :: "nat \<Rightarrow> byte list \<Rightarrow> byte list" where
  "data_bitmap_set i data = bytes_of_cells (bitmap_set i (cells_of data))"

definition data_bitmap_clear :: "nat \<Rightarrow> byte list \<Rightarrow> byte list" where
  "data_bitmap_clear i data = bytes_of_cells (bitmap_clear i (cells_of data))"

lemma length_cells_of [simp]: "length (cells_of data) = 64"
  by (simp add: cells_of_def)

lemma length_bytes_of_cells [simp]: "length (bytes_of_cells cs) = 8 * length cs"
  by (simp add: bytes_of_cells_def)

lemma cells_of_bytes: "length cs = 64 \<Longrightarrow> cells_of (bytes_of_cells cs) = cs"
proof -
  assume len: "length cs = 64"
  have "dec_ints 8 64 (enc_ints 8 (map unat cs)) = map unat cs"
  proof -
    have "unat c < 256 ^ 8" for c :: "64 word" using unsigned_less [of c] by simp
    then have "\<forall>x\<in>set (map unat cs). x < 256 ^ 8" by auto
    from dec_enc_ints [OF this] len show ?thesis by simp
  qed
  then show ?thesis by (simp add: cells_of_def bytes_of_cells_def comp_def)
qed

lemma length_data_bitmap [simp]:
  "length (data_bitmap_set i data) = BLOCK_SIZE" "length (data_bitmap_clear i data) = BLOCK_SIZE"
  by (simp_all add: data_bitmap_set_def data_bitmap_clear_def bitmap_set_def bitmap_clear_def
      BITMAP_PARSE_INDEX_def)

interpretation block_bits: bit_array data_bitmap_get data_bitmap_set data_bitmap_clear
  "\<lambda>_. BIT_PER_BLOCK"
proof (unfold_locales, goal_cases)
  case (2 i b j)
  then show ?case
    using cells.get_set1 [of i "cells_of b" j] cells.cap_set1 [of i "cells_of b"]
    by (simp add: data_bitmap_get_def data_bitmap_set_def cells_of_bytes)
next
  case (3 i b j)
  then show ?case
    using cells.get_clear1 [of i "cells_of b" j] cells.cap_clear1 [of i "cells_of b"]
    by (simp add: data_bitmap_get_def data_bitmap_clear_def cells_of_bytes)
qed simp_all

section \<open>Properties\<close>

text \<open>
  On the bytes of a bitmap block, setting a bit makes exactly that bit read as set, clearing it makes
  exactly that bit read as clear, and the other 4095 bits read as before, in whatever cell they lie.
\<close>
theorem block_bitmap_set_clear:
  assumes "i < BIT_PER_BLOCK" and "j < BIT_PER_BLOCK"
  shows "(data_bitmap_get (data_bitmap_set i data) j \<longleftrightarrow> j = i \<or> data_bitmap_get data j)
    \<and> (data_bitmap_get (data_bitmap_clear i data) j \<longleftrightarrow> j \<noteq> i \<and> data_bitmap_get data j)"
  using block_bits.get_set1 [OF assms] block_bits.get_clear1 [OF assms] by simp

theorem block_bitmap_set_clear_witness:
  "data_bitmap_get (data_bitmap_set 100 (replicate 512 0)) 100
    \<and> \<not> data_bitmap_get (data_bitmap_clear 100 (replicate 512 255)) 100"
  using block_bitmap_set_clear [of 100 100 "replicate 512 0"]
    block_bitmap_set_clear [of 100 100 "replicate 512 255"] by simp

end
