(* ===== verification/Semaphore.thy ===== *)
theory Semaphore
  imports Locks
begin

text \<open>
  Counting semaphores (\<^verbatim>\<open>common/sem.c\<close>), which are also the kernel's sleep locks.

  A sleeper is a \<^verbatim>\<open>WaitData\<close> on the semaphore's list; \<open>sleeplist\<close> holds their addresses from \<^verbatim>\<open>sleeplist.next\<close> to
  \<^verbatim>\<open>sleeplist.prev\<close>, so \<^verbatim>\<open>_insert_into_list\<close> adds at the front and \<^verbatim>\<open>_post_sem\<close> takes the last. \<^verbatim>\<open>_wait_sem\<close> gives the CPU
  away in its middle: \<open>wait_sem_enter\<close> is the part before \<^verbatim>\<open>sched\<close> and \<open>wait_sem_resume\<close> the part after it, and
  other processes run in between. The processes a routine makes runnable through \<^verbatim>\<open>activate_proc\<close> are
  part of its result.

  The value is an \<^verbatim>\<open>int\<close> in the code and an integer here. The two agree as long as it stays in the range of an \<^verbatim>\<open>int\<close>, that is while fewer than
  \<open>2^31 - 1\<close> units and fewer than \<open>2^31\<close> waits have been counted; the theorem on the step relation shows that the value is in range then. Beyond that the
  code's \<^verbatim>\<open>++val\<close> overflows and the assertion in \<^verbatim>\<open>_post_sem\<close> fails with nobody asleep.
\<close>

section \<open>Operations\<close>

record WaitData =
  up :: bool
  wproc :: nat

record Semaphore =
  sem_lock :: SpinLock
  sval :: int
  sleeplist :: "nat list"

type_synonym waits = "nat \<Rightarrow> WaitData"

definition init_sem :: "int \<Rightarrow> Semaphore" where
  "init_sem val = \<lparr>sem_lock = \<lparr>locked = False\<rparr>, sval = val, sleeplist = []\<rparr>"

definition lock_sem :: "Semaphore \<Rightarrow> Semaphore res" where
  "lock_sem sem = rbind (acquire_spinlock (sem_lock sem)) (\<lambda>l. Inr (sem\<lparr>sem_lock := l\<rparr>))"

definition unlock_sem :: "Semaphore \<Rightarrow> Semaphore" where
  "unlock_sem sem = sem\<lparr>sem_lock := release_spinlock (sem_lock sem)\<rparr>"

definition get_sem_locked :: "Semaphore \<Rightarrow> bool \<times> Semaphore" where
  "get_sem_locked sem = (if sval sem > 0 then (True, sem\<lparr>sval := sval sem - 1\<rparr>) else (False, sem))"

definition query_sem :: "Semaphore \<Rightarrow> int" where
  "query_sem sem = sval sem"

definition get_all_sem :: "Semaphore \<Rightarrow> (int \<times> Semaphore) res" where
  "get_all_sem sem = rbind (lock_sem sem) (\<lambda>sem.
     let (ret, sem) = (if sval sem > 0 then (sval sem, sem\<lparr>sval := 0\<rparr>) else (0, sem))
     in Inr (ret, unlock_sem sem))"

text \<open>\<^verbatim>\<open>_post_sem\<close>; the last component is the process handed to \<^verbatim>\<open>activate_proc\<close>, if any.\<close>

definition post_sem_locked :: "Semaphore \<times> waits \<Rightarrow> ((Semaphore \<times> waits) \<times> nat list) res" where
  "post_sem_locked = (\<lambda>(sem, wd).
     let sem = sem\<lparr>sval := sval sem + 1\<rparr>
     in if sval sem \<le> 0
        then rassert (sleeplist sem \<noteq> [])
          (let wait = last (sleeplist sem);
               wd = wd(wait := (wd wait)\<lparr>up := True\<rparr>);
               sem = sem\<lparr>sleeplist := butlast (sleeplist sem)\<rparr>
           in Inr ((sem, wd), [wproc (wd wait)]))
        else Inr ((sem, wd), []))"

text \<open>The macro \<^verbatim>\<open>post_sem\<close>.\<close>

definition post_sem :: "Semaphore \<times> waits \<Rightarrow> ((Semaphore \<times> waits) \<times> nat list) res" where
  "post_sem = (\<lambda>(sem, wd). rbind (lock_sem sem) (\<lambda>sem.
     rbind (post_sem_locked (sem, wd)) (\<lambda>((sem, wd), ps). Inr ((unlock_sem sem, wd), ps))))"

lemma post_sem_locked_sval: "post_sem_locked s = Inr (s', ps) \<Longrightarrow> sval (fst s') = sval (fst s) + 1"
  by (auto simp: post_sem_locked_def Let_def split: prod.splits if_splits)

lemma get_sem_locked_False: "get_sem_locked sem = (False, sem') \<Longrightarrow> sem' = sem \<and> sval sem \<le> 0"
  by (auto simp: get_sem_locked_def split: if_splits)

text \<open>
  \<^verbatim>\<open>do _post_sem(sem), ret++; while (!_get_sem(sem));\<close>. Every round raises the value by one and the loop
  stops at the first round that ends with a positive value.
\<close>

function post_all_loop :: "int \<Rightarrow> Semaphore \<times> waits \<Rightarrow> nat list \<Rightarrow> (int \<times> (Semaphore \<times> waits) \<times> nat list) res" where
  "post_all_loop ret s ps =
     (case post_sem_locked s of
        Inl e \<Rightarrow> Inl e
      | Inr (s', ps') \<Rightarrow>
          (case get_sem_locked (fst s') of
             (True, sem) \<Rightarrow> Inr (ret + 1, (sem, snd s'), ps @ ps')
           | (False, sem) \<Rightarrow> post_all_loop (ret + 1) (sem, snd s') (ps @ ps')))"
  by pat_completeness auto

termination
  by (relation "measure (\<lambda>(ret, s, ps). nat (1 - sval (fst s)))")
    (auto dest!: post_sem_locked_sval get_sem_locked_False [OF sym])

declare post_all_loop.simps [simp del]

definition post_all_sem :: "Semaphore \<times> waits \<Rightarrow> (int \<times> (Semaphore \<times> waits) \<times> nat list) res" where
  "post_all_sem = (\<lambda>(sem, wd). rbind (lock_sem sem) (\<lambda>sem.
     rbind (post_all_loop (-1) (sem, wd) []) (\<lambda>(ret, (sem, wd), ps).
       Inr (ret, (unlock_sem sem, wd), ps))))"

text \<open>
  \<^verbatim>\<open>_wait_sem\<close> up to \<^verbatim>\<open>sched\<close>, called with the semaphore's lock held: \<open>None\<close> means the caller has the semaphore and returned,
  \<open>Some w\<close> that it sleeps on the wait data allocated at \<open>w\<close>.
\<close>

definition wait_sem_enter :: "nat \<Rightarrow> nat \<Rightarrow> Semaphore \<times> waits \<Rightarrow> (Semaphore \<times> waits) \<times> nat option" where
  "wait_sem_enter wait thisproc = (\<lambda>(sem, wd).
     let sem = sem\<lparr>sval := sval sem - 1\<rparr>
     in if sval sem \<ge> 0 then ((unlock_sem sem, wd), None)
        else let wd = wd(wait := \<lparr>up = False, wproc = thisproc\<rparr>);
                 sem = sem\<lparr>sleeplist := wait # sleeplist sem\<rparr>
             in ((unlock_sem sem, wd), Some wait))"

text \<open>\<^verbatim>\<open>_wait_sem\<close> after \<^verbatim>\<open>sched\<close> has returned, either because a post set \<^verbatim>\<open>up\<close> or because the sleep was broken by an alert.\<close>

definition wait_sem_resume :: "nat \<Rightarrow> Semaphore \<times> waits \<Rightarrow> ((Semaphore \<times> waits) \<times> bool) res" where
  "wait_sem_resume wait = (\<lambda>(sem, wd). rbind (lock_sem sem) (\<lambda>sem.
     if \<not> up (wd wait)
     then let sem = sem\<lparr>sval := sval sem + 1\<rparr>
          in rassert (sval sem \<le> 0)
               (Inr ((unlock_sem (sem\<lparr>sleeplist := remove1 wait (sleeplist sem)\<rparr>), wd), False))
     else Inr ((unlock_sem sem, wd), True)))"

section \<open>Invariant\<close>

text \<open>The value counts the sleepers when it is negative, and nobody sleeps when it is not.\<close>

definition sem_inv :: "Semaphore \<Rightarrow> bool" where
  "sem_inv sem \<longleftrightarrow> int (length (sleeplist sem)) = max 0 (- sval sem) \<and> distinct (sleeplist sem)"

lemma sem_inv_lock [simp]: "sem_inv (sem\<lparr>sem_lock := l\<rparr>) = sem_inv sem" "sem_inv (unlock_sem sem) = sem_inv sem"
  by (simp_all add: sem_inv_def unlock_sem_def)

lemma sem_inv_empty: "sem_inv sem \<Longrightarrow> sleeplist sem = [] \<longleftrightarrow> 0 \<le> sval sem"
  by (cases "sleeplist sem") (auto simp: sem_inv_def max_def split: if_splits)

lemma sem_inv_neg: "sem_inv sem \<Longrightarrow> sleeplist sem \<noteq> [] \<Longrightarrow> sval sem = - int (length (sleeplist sem))"
  using sem_inv_empty [of sem] by (auto simp: sem_inv_def)

lemma sem_invI:
  "0 \<le> sval sem \<Longrightarrow> sleeplist sem = [] \<Longrightarrow> sem_inv sem"
  "sval sem = - int (length (sleeplist sem)) \<Longrightarrow> distinct (sleeplist sem) \<Longrightarrow> sem_inv sem"
  by (auto simp: sem_inv_def)

lemma sem_inv_init: "0 \<le> v \<Longrightarrow> sem_inv (init_sem v)"
  by (simp add: sem_inv_def init_sem_def)

lemma get_sem_inv: "sem_inv sem \<Longrightarrow> sem_inv (snd (get_sem_locked sem))"
  by (auto simp: sem_inv_def get_sem_locked_def)

lemma post_sem_locked_ok:
  assumes "sem_inv sem"
  shows "post_sem_locked (sem, wd) =
    (if sleeplist sem = [] then Inr ((sem\<lparr>sval := sval sem + 1\<rparr>, wd), [])
     else let w = last (sleeplist sem)
          in Inr ((sem\<lparr>sval := sval sem + 1, sleeplist := butlast (sleeplist sem)\<rparr>,
                   wd(w := (wd w)\<lparr>up := True\<rparr>)), [wproc (wd w)]))"
    and "sem_inv (sem\<lparr>sval := sval sem + 1, sleeplist := butlast (sleeplist sem)\<rparr>)"
proof -
  have "sleeplist sem = [] \<longleftrightarrow> \<not> sval sem + 1 \<le> 0"
    using sem_inv_empty [OF assms] by auto
  then show "post_sem_locked (sem, wd) =
    (if sleeplist sem = [] then Inr ((sem\<lparr>sval := sval sem + 1\<rparr>, wd), [])
     else let w = last (sleeplist sem)
          in Inr ((sem\<lparr>sval := sval sem + 1, sleeplist := butlast (sleeplist sem)\<rparr>,
                   wd(w := (wd w)\<lparr>up := True\<rparr>)), [wproc (wd w)]))"
    by (auto simp: post_sem_locked_def Let_def)
  show "sem_inv (sem\<lparr>sval := sval sem + 1, sleeplist := butlast (sleeplist sem)\<rparr>)"
  proof (cases "sleeplist sem = []")
    case True
    with sem_inv_empty [OF assms] show ?thesis by (intro sem_invI(1)) auto
  next
    case False
    with sem_inv_neg [OF assms False] assms show ?thesis
      by (intro sem_invI(2)) (auto simp: sem_inv_def distinct_butlast Suc_le_eq of_nat_diff)
  qed
qed

lemma post_sem_locked_inv:
  assumes "sem_inv sem" and "post_sem_locked (sem, wd) = Inr ((sem', wd'), ps)"
  shows "sem_inv sem'" and "sval sem' = sval sem + 1" and "sleeplist sem' = butlast (sleeplist sem)"
    and "sem_lock sem' = sem_lock sem"
  using assms post_sem_locked_ok [OF assms(1)] sem_inv_empty [OF assms(1)]
  by (auto simp: Let_def sem_invI split: if_splits)

lemma wait_sem_enter_inv:
  assumes "sem_inv sem" and "w \<notin> set (sleeplist sem)"
  shows "sem_inv (fst (fst (wait_sem_enter w p (sem, wd))))"
proof (cases "sleeplist sem = []")
  case True
  with sem_inv_empty [OF assms(1)] show ?thesis by (auto simp: wait_sem_enter_def Let_def sem_invI)
next
  case False
  with sem_inv_neg [OF assms(1) False] assms show ?thesis
    by (auto simp: wait_sem_enter_def Let_def sem_inv_def [of sem] intro!: sem_invI(2))
qed

lemma wait_sem_resume_inv:
  assumes "sem_inv sem" and "\<not> locked (sem_lock sem)" and "\<not> up (wd w) \<longrightarrow> w \<in> set (sleeplist sem)"
  shows "\<exists>sem'. wait_sem_resume w (sem, wd) = Inr ((sem', wd), up (wd w)) \<and> sem_inv sem'"
proof (cases "up (wd w)")
  case True
  with assms show ?thesis by (simp add: wait_sem_resume_def lock_sem_def)
next
  case False
  with assms(3) have w: "w \<in> set (sleeplist sem)" by simp
  then have pos: "Suc 0 \<le> length (sleeplist sem)" by (cases "sleeplist sem") auto
  with sem_inv_neg [OF assms(1)] have "sval sem = - int (length (sleeplist sem))" by (cases "sleeplist sem") auto
  moreover have "length (remove1 w (sleeplist sem)) = length (sleeplist sem) - 1"
    using w by (simp add: length_remove1)
  ultimately have "sem_inv (sem\<lparr>sval := sval sem + 1, sleeplist := remove1 w (sleeplist sem)\<rparr>)"
    using assms(1) pos by (intro sem_invI(2)) (auto simp: sem_inv_def of_nat_diff)
  moreover have "sval sem + 1 \<le> 0" using pos \<open>sval sem = _\<close> by simp
  ultimately show ?thesis
    using False assms(2) by (simp add: wait_sem_resume_def lock_sem_def unlock_sem_def Let_def)
qed

section \<open>Processes around one semaphore\<close>

text \<open>
  Any number of processes use one semaphore. Each step is one locked section of \<^verbatim>\<open>sem.c\<close>; \<open>ncalls\<close> numbers the wait data.
  \<open>posted\<close> and \<open>granted\<close> count the posts and the waits that a post or a free unit has satisfied.
\<close>

datatype waiter = Awake | Asleep nat

record sem_sys =
  the_sem :: Semaphore
  the_waits :: waits
  waiters :: "nat \<Rightarrow> waiter"
  ncalls :: nat
  posted :: nat
  granted :: nat

inductive sem_step :: "sem_sys \<Rightarrow> sem_sys \<Rightarrow> bool" where
  wait_now: "waiters s p = Awake \<Longrightarrow> lock_sem (the_sem s) = Inr sem \<Longrightarrow>
    wait_sem_enter (ncalls s) p (sem, the_waits s) = ((sem', wd'), None) \<Longrightarrow>
    sem_step s (s\<lparr>the_sem := sem', the_waits := wd', ncalls := Suc (ncalls s), granted := Suc (granted s)\<rparr>)"
| wait_sleep: "waiters s p = Awake \<Longrightarrow> lock_sem (the_sem s) = Inr sem \<Longrightarrow>
    wait_sem_enter (ncalls s) p (sem, the_waits s) = ((sem', wd'), Some w) \<Longrightarrow>
    sem_step s (s\<lparr>the_sem := sem', the_waits := wd', ncalls := Suc (ncalls s),
                  waiters := (waiters s)(p := Asleep w)\<rparr>)"
| post: "waiters s p = Awake \<Longrightarrow> post_sem (the_sem s, the_waits s) = Inr ((sem', wd'), ps) \<Longrightarrow>
    sem_step s (s\<lparr>the_sem := sem', the_waits := wd', posted := Suc (posted s),
                  granted := granted s + length ps\<rparr>)"
| resume: "waiters s p = Asleep w \<Longrightarrow> wait_sem_resume w (the_sem s, the_waits s) = Inr ((sem', wd'), r) \<Longrightarrow>
    sem_step s (s\<lparr>the_sem := sem', the_waits := wd', waiters := (waiters s)(p := Awake)\<rparr>)"
| try_get: "waiters s p = Awake \<Longrightarrow> lock_sem (the_sem s) = Inr sem \<Longrightarrow> get_sem_locked sem = (r, sem') \<Longrightarrow>
    sem_step s (s\<lparr>the_sem := unlock_sem sem', granted := granted s + (if r then 1 else 0)\<rparr>)"

definition sem_sys_init :: "int \<Rightarrow> sem_sys" where
  "sem_sys_init v = \<lparr>the_sem = init_sem v, the_waits = (\<lambda>_. \<lparr>up = False, wproc = 0\<rparr>),
     waiters = (\<lambda>_. Awake), ncalls = 0, posted = 0, granted = 0\<rparr>"

text \<open>
  Units are conserved: the value is the initial one plus the posts, less the satisfied waits and less the
  sleepers still queued. A queued wait data belongs to a sleeping process and is not marked up.
\<close>

definition sem_sys_inv :: "int \<Rightarrow> sem_sys \<Rightarrow> bool" where
  "sem_sys_inv v s \<longleftrightarrow> sem_inv (the_sem s) \<and> \<not> locked (sem_lock (the_sem s))
     \<and> sval (the_sem s) = v + int (posted s) - int (granted s) - int (length (sleeplist (the_sem s)))
     \<and> (\<forall>w\<in>set (sleeplist (the_sem s)). w < ncalls s \<and> \<not> up (the_waits s w))
     \<and> (\<forall>p w. waiters s p = Asleep w \<longrightarrow> w < ncalls s)
     \<and> (\<forall>p w. waiters s p = Asleep w \<longrightarrow> w \<in> set (sleeplist (the_sem s)) \<or> up (the_waits s w))
     \<and> (\<forall>p q w. waiters s p = Asleep w \<longrightarrow> waiters s q = Asleep w \<longrightarrow> p = q)"

inductive sem_reachable :: "int \<Rightarrow> sem_sys \<Rightarrow> bool" for v where
  start: "sem_reachable v (sem_sys_init v)"
| step: "sem_reachable v s \<Longrightarrow> sem_step s t \<Longrightarrow> sem_reachable v t"

lemma sem_sys_inv_init: "0 \<le> v \<Longrightarrow> sem_sys_inv v (sem_sys_init v)"
  by (simp add: sem_sys_inv_def sem_sys_init_def sem_inv_def init_sem_def)

lemma lock_semD: "lock_sem sem = Inr sem' \<Longrightarrow>
  \<not> locked (sem_lock sem) \<and> sem' = sem\<lparr>sem_lock := (sem_lock sem)\<lparr>locked := True\<rparr>\<rparr>"
  by (cases "locked (sem_lock sem)") (auto simp: lock_sem_def)

lemma unlock_sem_simps [simp]:
  "sval (unlock_sem sem) = sval sem" "sleeplist (unlock_sem sem) = sleeplist sem"
  "\<not> locked (sem_lock (unlock_sem sem))"
  by (simp_all add: unlock_sem_def release_spinlock_eq)

lemma post_semD:
  assumes "post_sem (sem, wd) = Inr ((sem', wd'), ps)" and "sem_inv sem"
  shows "sem_inv sem'" and "\<not> locked (sem_lock sem')" and "sval sem' = sval sem + 1"
    and "sleeplist sem' = butlast (sleeplist sem)"
    and "length ps = length (sleeplist sem) - length (sleeplist sem')"
    and "wd' = (if sleeplist sem = [] then wd
                else wd(last (sleeplist sem) := (wd (last (sleeplist sem)))\<lparr>up := True\<rparr>))"
proof -
  let ?sem = "sem\<lparr>sem_lock := (sem_lock sem)\<lparr>locked := True\<rparr>\<rparr>"
  from assms(1) obtain sem1 where sem1: "post_sem_locked (?sem, wd) = Inr ((sem1, wd'), ps)" "sem' = unlock_sem sem1"
    by (auto simp: post_sem_def rbind_eq_Inr_conv dest!: lock_semD split: prod.splits)
  have inv: "sem_inv ?sem" using assms(2) by simp
  note post = post_sem_locked_inv [OF inv sem1(1)]
  from post sem1(2) show "sem_inv sem'" "\<not> locked (sem_lock sem')" "sval sem' = sval sem + 1"
      "sleeplist sem' = butlast (sleeplist sem)" by simp_all
  then show "length ps = length (sleeplist sem) - length (sleeplist sem')"
    and "wd' = (if sleeplist sem = [] then wd
                else wd(last (sleeplist sem) := (wd (last (sleeplist sem)))\<lparr>up := True\<rparr>))"
    using sem1(1) post_sem_locked_ok(1) [OF inv, of wd]
    by (auto simp: Let_def Suc_le_eq split: if_splits)
qed

lemma sem_step_inv: "sem_step s t \<Longrightarrow> sem_sys_inv v s \<Longrightarrow> sem_sys_inv v t"
proof (induction rule: sem_step.induct)
  case (wait_now s p sem sem' wd')
  then have "sem_inv sem'" using wait_sem_enter_inv [of sem "ncalls s" p "the_waits s"]
    by (force simp: sem_sys_inv_def dest: lock_semD)
  moreover from wait_now have "sval sem' = sval (the_sem s) - 1" "sleeplist sem' = sleeplist (the_sem s)"
      "wd' = the_waits s" "\<not> locked (sem_lock sem')"
    by (auto simp: wait_sem_enter_def Let_def dest!: lock_semD split: if_splits)
  ultimately show ?case using wait_now.prems by (fastforce simp: sem_sys_inv_def)
next
  case (wait_sleep s p sem sem' wd' w)
  then have "sem_inv sem'" using wait_sem_enter_inv [of sem "ncalls s" p "the_waits s"]
    by (force simp: sem_sys_inv_def dest: lock_semD)
  moreover from wait_sleep have "w = ncalls s" "sval sem' = sval (the_sem s) - 1"
      "sleeplist sem' = w # sleeplist (the_sem s)"
      "wd' = (the_waits s)(w := \<lparr>up = False, wproc = p\<rparr>)" "\<not> locked (sem_lock sem')"
    by (auto simp: wait_sem_enter_def Let_def dest!: lock_semD split: if_splits)
  ultimately show ?case using wait_sleep.prems
    by (auto simp: sem_sys_inv_def less_Suc_eq)
next
  case (post s p sem' wd' ps)
  let ?l = "sleeplist (the_sem s)"
  have inv: "sem_inv (the_sem s)" using post.prems by (simp add: sem_sys_inv_def)
  note P = post_semD [OF post.hyps(2) inv]
  have len: "int (length ps) = int (length ?l) - int (length (sleeplist sem'))" by (simp add: P)
  have "distinct ?l" using inv by (simp add: sem_inv_def)
  then have dl: "?l \<noteq> [] \<Longrightarrow> last ?l \<notin> set (butlast ?l)"
    by (metis append_butlast_last_id distinct_append disjoint_insert(1) list.simps(15))
  have split: "?l \<noteq> [] \<Longrightarrow> set ?l = insert (last ?l) (set (butlast ?l))"
    by (metis append_butlast_last_id list.simps(15) rotate1.simps(2) set_rotate1)
  show ?case
    using post.prems P(1-4) P(6) len dl split
    by (cases "?l = []") (auto simp: sem_sys_inv_def dest: in_set_butlastD)
next
  case (resume s p w sem' wd' r)
  then have a: "\<not> up (the_waits s w) \<longrightarrow> w \<in> set (sleeplist (the_sem s))" "sem_inv (the_sem s)"
      "\<not> locked (sem_lock (the_sem s))"
    by (auto simp: sem_sys_inv_def)
  from wait_sem_resume_inv [of "the_sem s" "the_waits s" w, OF a(2,3,1)] resume.hyps(2) have r: "sem_inv sem'" "wd' = the_waits s" "r = up (the_waits s w)"
    by auto
  from resume.hyps(2) a(3) have e: "\<not> locked (sem_lock sem')"
      "sleeplist sem' = (if up (the_waits s w) then sleeplist (the_sem s) else remove1 w (sleeplist (the_sem s)))"
      "sval sem' = (if up (the_waits s w) then sval (the_sem s) else sval (the_sem s) + 1)"
    by (auto simp: wait_sem_resume_def lock_sem_def Let_def split: if_splits)
  have d: "distinct (sleeplist (the_sem s))" using a(2) by (simp add: sem_inv_def)
  have others: "w' \<noteq> w" if "waiters s q = Asleep w'" "q \<noteq> p" for q w'
    using resume.prems resume.hyps(1) that by (auto simp: sem_sys_inv_def)
  show ?case
  proof (cases "up (the_waits s w)")
    case True
    with resume.prems r e show ?thesis by (auto simp: sem_sys_inv_def)
  next
    case False
    then have w: "w \<in> set (sleeplist (the_sem s))" using a(1) by simp
    have "int (length (remove1 w (sleeplist (the_sem s)))) = int (length (sleeplist (the_sem s))) - 1"
      unfolding length_remove1 if_P [OF w] using length_pos_if_in_set [OF w] by linarith
    with False resume.prems r e d others show ?thesis
      by (auto simp: sem_sys_inv_def in_set_remove1)
  qed
next
  case (try_get s p sem r sem')
  then have sem: "sem_inv sem" "sval sem = sval (the_sem s)" "sleeplist sem = sleeplist (the_sem s)"
    by (auto simp: sem_sys_inv_def dest!: lock_semD)
  with get_sem_inv [OF sem(1)] try_get.hyps(3) have "sem_inv sem'"
      "sval sem' = sval (the_sem s) - (if r then 1 else 0)" "sleeplist sem' = sleeplist (the_sem s)"
    by (auto simp: get_sem_locked_def split: if_splits)
  with try_get.prems show ?case by (fastforce simp: sem_sys_inv_def)
qed

lemma sem_reachable_inv: "sem_reachable v s \<Longrightarrow> 0 \<le> v \<Longrightarrow> sem_sys_inv v s"
  by (induction rule: sem_reachable.induct) (auto intro: sem_sys_inv_init sem_step_inv)

section \<open>Waking everybody\<close>

lemma post_all_loop_sleepers:
  assumes "sem_inv sem"
  shows "post_all_loop r (sem, wd) ps = Inr (r + 1 + int (length (sleeplist sem)),
    (sem\<lparr>sval := max 0 (sval sem), sleeplist := []\<rparr>,
     \<lambda>w. if w \<in> set (sleeplist sem) then (wd w)\<lparr>up := True\<rparr> else wd w),
    ps @ map (\<lambda>w. wproc (wd w)) (rev (sleeplist sem)))"
  using assms
proof (induction "sleeplist sem" arbitrary: sem wd r ps rule: rev_induct)
  case Nil
  then have e: "sleeplist sem = []" "0 \<le> sval sem" using sem_inv_empty [OF Nil.prems] by simp_all
  with post_sem_locked_ok(1) [OF Nil.prems, of wd] show ?case
    by (subst post_all_loop.simps) (simp add: get_sem_locked_def)
next
  case (snoc w ys)
  then have sl: "sleeplist sem = ys @ [w]" by simp
  let ?sem = "sem\<lparr>sval := sval sem + 1, sleeplist := ys\<rparr>" and ?wd = "wd(w := (wd w)\<lparr>up := True\<rparr>)"
  have inv: "sem_inv ?sem" using post_sem_locked_ok(2) [OF snoc.prems] by (simp add: sl)
  have val: "sval sem = - int (length ys) - 1" using sem_inv_neg [OF snoc.prems] by (simp add: sl)
  have d: "w \<notin> set ys" "distinct ys" using snoc.prems by (auto simp: sem_inv_def sl)
  have "post_sem_locked (sem, wd) = Inr ((?sem, ?wd), [wproc (wd w)])"
    using post_sem_locked_ok(1) [OF snoc.prems, of wd] by (simp add: sl)
  then have "post_all_loop r (sem, wd) ps = post_all_loop (r + 1) (?sem, ?wd) (ps @ [wproc (wd w)])"
    using val by (subst post_all_loop.simps) (simp add: get_sem_locked_def)
  also have "\<dots> = Inr (r + 1 + 1 + int (length ys),
      (?sem\<lparr>sval := max 0 (sval ?sem), sleeplist := []\<rparr>,
       \<lambda>x. if x \<in> set ys then (?wd x)\<lparr>up := True\<rparr> else ?wd x),
      (ps @ [wproc (wd w)]) @ map (\<lambda>w. wproc (?wd w)) (rev ys))"
    using snoc.hyps(1) [of ?sem "r + 1" ?wd "ps @ [wproc (wd w)]"] inv by simp
  finally show ?case
    using d val by (auto simp: sl max_def fun_eq_iff intro!: map_cong)
qed

section \<open>One thread of control\<close>

text \<open>
  How the semaphore looks to code that runs alone: a wait that has to sleep does not come back, and nobody is there to
  be woken by a post.
\<close>

definition no_waits :: waits where
  "no_waits = (\<lambda>_. \<lparr>up = False, wproc = 0\<rparr>)"

definition sem_wait :: "Semaphore \<Rightarrow> Semaphore res" where
  "sem_wait sem = rbind (lock_sem sem) (\<lambda>sem.
     case wait_sem_enter 0 0 (sem, no_waits) of
       ((sem, _), None) \<Rightarrow> Inr sem
     | ((sem, _), Some _) \<Rightarrow> Inl Blocked)"

definition sem_post :: "Semaphore \<Rightarrow> Semaphore res" where
  "sem_post sem = rbind (post_sem (sem, no_waits)) (\<lambda>((sem, _), _). Inr sem)"

definition sem_post_all :: "Semaphore \<Rightarrow> Semaphore res" where
  "sem_post_all sem = rbind (post_all_sem (sem, no_waits)) (\<lambda>(_, (sem, _), _). Inr sem)"

text \<open>A semaphore of value \<open>v\<close> that nobody holds locked or sleeps on.\<close>

definition quiet_sem :: "int \<Rightarrow> Semaphore \<Rightarrow> bool" where
  "quiet_sem v sem \<longleftrightarrow> \<not> locked (sem_lock sem) \<and> sleeplist sem = [] \<and> sval sem = v \<and> 0 \<le> v"

lemma quiet_init: "0 \<le> v \<Longrightarrow> quiet_sem v (init_sem v)"
  by (simp add: quiet_sem_def init_sem_def)

lemma quiet_unlock:
  "\<not> locked l \<Longrightarrow> release_spinlock (l\<lparr>locked := True\<rparr>) = l"
  by (cases l) (simp add: release_spinlock_eq)

lemma sem_wait_quiet:
  assumes "quiet_sem v sem"
  shows "sem_wait sem = (if 0 < v then Inr (sem\<lparr>sval := v - 1\<rparr>) else Inl Blocked)"
  using assms by (auto simp: sem_wait_def quiet_sem_def lock_sem_def wait_sem_enter_def unlock_sem_def
      Let_def quiet_unlock)

lemma sem_post_quiet:
  assumes "quiet_sem v sem"
  shows "sem_post sem = Inr (sem\<lparr>sval := v + 1\<rparr>)"
  using assms by (simp add: sem_post_def post_sem_def quiet_sem_def lock_sem_def post_sem_locked_def
      unlock_sem_def Let_def quiet_unlock)

lemma quiet_sval: "quiet_sem v sem \<Longrightarrow> 0 \<le> w \<Longrightarrow> quiet_sem w (sem\<lparr>sval := w\<rparr>)"
  by (simp add: quiet_sem_def)

lemma sem_post_all_quiet:
  assumes "quiet_sem v sem"
  shows "sem_post_all sem = Inr sem"
proof -
  let ?sem = "sem\<lparr>sem_lock := (sem_lock sem)\<lparr>locked := True\<rparr>\<rparr>"
  have "sem_inv ?sem" using assms by (simp add: sem_inv_def quiet_sem_def)
  from post_all_loop_sleepers [OF this, of "-1" no_waits "[]"] assms show ?thesis
    by (cases sem) (auto simp: sem_post_all_def post_all_sem_def quiet_sem_def lock_sem_def unlock_sem_def
        quiet_unlock)
qed

section \<open>Properties\<close>

text \<open>The counters of the system only grow, so a bound on them holds in all earlier states too.\<close>

lemma sem_step_counters: "sem_step s t \<Longrightarrow> posted s \<le> posted t \<and> ncalls s \<le> ncalls t"
  by (induction rule: sem_step.induct) auto

lemma sem_sys_inv_range:
  assumes "sem_sys_inv v s"
  shows "- int (ncalls s) \<le> sval (the_sem s)" "sval (the_sem s) \<le> v + int (posted s)"
proof -
  let ?l = "sleeplist (the_sem s)"
  have i: "sem_inv (the_sem s)" "\<forall>w\<in>set ?l. w < ncalls s" using assms unfolding sem_sys_inv_def by blast+
  then have d: "distinct ?l" "set ?l \<subseteq> {..<ncalls s}" unfolding sem_inv_def by auto
  have "length ?l \<le> ncalls s" using distinct_card [OF d(1)] card_mono [OF finite_lessThan d(2)] by simp
  moreover have "int (length ?l) = max 0 (- sval (the_sem s))" using i(1) unfolding sem_inv_def by (rule conjunct1)
  ultimately show "- int (ncalls s) \<le> sval (the_sem s)" by linarith
  have "sval (the_sem s) = v + int (posted s) - int (granted s) - int (length ?l)" using assms unfolding sem_sys_inv_def by blast
  then show "sval (the_sem s) \<le> v + int (posted s)" by linarith
qed

text \<open>
  C17: in every state that processes can reach by waiting on, posting, polling and being alerted out of one semaphore, with fewer than \<open>2^31 - 1\<close> units (the initial value
  and the posts) and fewer than \<open>2^31\<close> waits so far: no more waits have been satisfied than there are units; neither the next increment nor the next decrement leaves
  the range of an \<^verbatim>\<open>int\<close>; and none of the assertions can fail: a post finds a sleeper whenever the value says there is one, and a process that comes
  back from sleep leaves the semaphore without a panic.
\<close>
theorem semaphore_units_conserved:
  assumes "0 \<le> v" and "sem_reachable v s" and "v + int (posted s) < 2 ^ 31 - 1" and "int (ncalls s) < 2 ^ 31"
  shows "int (granted s) \<le> v + int (posted s)
    \<and> - (2 ^ 31) \<le> sval (the_sem s) - 1 \<and> sval (the_sem s) + 1 \<le> 2 ^ 31 - 1
    \<and> (\<exists>r. post_sem (the_sem s, the_waits s) = Inr r)
    \<and> (\<forall>p w. waiters s p = Asleep w \<longrightarrow> (\<exists>r. wait_sem_resume w (the_sem s, the_waits s) = Inr r))"
proof -
  have inv: "sem_sys_inv v s" using assms sem_reachable_inv by blast
  then have i: "sem_inv (the_sem s)" "\<not> locked (sem_lock (the_sem s))" by (auto simp: sem_sys_inv_def)
  have "int (granted s) \<le> v + int (posted s)"
    using inv sem_inv_empty [OF i(1)] sem_inv_neg [OF i(1)]
    by (cases "sleeplist (the_sem s) = []") (auto simp: sem_sys_inv_def)
  moreover have "- (2 ^ 31) \<le> sval (the_sem s) - 1" using sem_sys_inv_range(1) [OF inv] assms(4) by linarith
  moreover have "sval (the_sem s) + 1 \<le> 2 ^ 31 - 1" using sem_sys_inv_range(2) [OF inv] assms(3) by linarith
  moreover have "\<exists>r. post_sem (the_sem s, the_waits s) = Inr r"
    using i post_sem_locked_ok(1) [of "the_sem s\<lparr>sem_lock := (sem_lock (the_sem s))\<lparr>locked := True\<rparr>\<rparr>"]
    by (auto simp: post_sem_def lock_sem_def Let_def split: if_splits)
  moreover have "\<exists>r. wait_sem_resume w (the_sem s, the_waits s) = Inr r" if "waiters s p = Asleep w" for p w
  proof -
    have "\<not> up (the_waits s w) \<longrightarrow> w \<in> set (sleeplist (the_sem s))" using inv that by (auto simp: sem_sys_inv_def)
    with wait_sem_resume_inv [OF i, of "the_waits s" w] show ?thesis by blast
  qed
  ultimately show ?thesis by blast
qed

text \<open>A unit is taken, a second process falls asleep, the first one posts.\<close>

theorem semaphore_units_conserved_witness:
  "\<exists>s r. sem_reachable 1 s \<and> granted s = 2 \<and> posted s = 1 \<and> waiters s 1 = Asleep 1 \<and> sval (the_sem s) = 0
     \<and> wait_sem_resume 1 (the_sem s, the_waits s) = Inr r"
proof -
  let ?s0 = "sem_sys_init 1"
  let ?s1 = "?s0\<lparr>the_sem := init_sem 0, ncalls := 1, granted := 1\<rparr>"
  let ?s2 = "?s1\<lparr>the_sem := (init_sem 0)\<lparr>sval := - 1, sleeplist := [1]\<rparr>, the_waits := (the_waits ?s1)(1 := \<lparr>up = False, wproc = 1\<rparr>), ncalls := Suc 1,
      waiters := (waiters ?s1)(1 := Asleep 1)\<rparr>"
  let ?s3 = "?s2\<lparr>the_sem := init_sem 0, the_waits := (the_waits ?s1)(1 := \<lparr>up = True, wproc = 1\<rparr>), posted := 1, granted := Suc 1\<rparr>"
  note defs = sem_sys_init_def init_sem_def lock_sem_def wait_sem_enter_def unlock_sem_def release_spinlock_eq post_sem_def post_sem_locked_def
  have "sem_step ?s0 ?s1"
    using sem_step.wait_now [of ?s0 0 "(init_sem 1)\<lparr>sem_lock := \<lparr>locked = True\<rparr>\<rparr>" "init_sem 0" "the_waits ?s0"] by (simp add: defs)
  moreover have "sem_step ?s1 ?s2"
    using sem_step.wait_sleep [of ?s1 1 "(init_sem 0)\<lparr>sem_lock := \<lparr>locked = True\<rparr>\<rparr>"] by (simp add: defs)
  moreover have "sem_step ?s2 ?s3"
    using sem_step.post [of ?s2 0 "init_sem 0" "the_waits ?s3" "[1]"] by (simp add: defs)
  ultimately have r: "sem_reachable 1 ?s3"
    by (intro sem_reachable.step [OF sem_reachable.step [OF sem_reachable.step [OF sem_reachable.start]]])
  have "waiters ?s3 1 = Asleep 1" by simp
  then have "\<exists>x. wait_sem_resume 1 (the_sem ?s3, the_waits ?s3) = Inr x"
    using semaphore_units_conserved [OF _ r] by (simp add: defs)
  then show ?thesis using r by (intro exI [of _ ?s3]) (simp add: init_sem_def)
qed

text \<open>
  \<^verbatim>\<open>post_all_sem\<close> returns, wakes exactly the processes asleep on the semaphore, longest sleeper first, returns how many
  it woke and leaves a semaphore nobody sleeps on whose value is as before when it was not negative and 0
  otherwise.
\<close>
theorem post_all_sem_wakes_all:
  assumes "sem_inv sem" and "\<not> locked (sem_lock sem)"
  shows "post_all_sem (sem, wd) = Inr (int (length (sleeplist sem)),
    (sem\<lparr>sval := max 0 (sval sem), sleeplist := []\<rparr>,
     \<lambda>w. if w \<in> set (sleeplist sem) then (wd w)\<lparr>up := True\<rparr> else wd w),
    map (\<lambda>w. wproc (wd w)) (rev (sleeplist sem)))"
proof -
  let ?sem = "sem\<lparr>sem_lock := (sem_lock sem)\<lparr>locked := True\<rparr>\<rparr>"
  have "sem_inv ?sem" using assms(1) by simp
  moreover have "(sem_lock sem)\<lparr>locked := False\<rparr> = sem_lock sem" using assms(2) by (cases "sem_lock sem") simp
  ultimately show ?thesis
    using assms(2) post_all_loop_sleepers [of ?sem "-1" wd "[]"]
    by (simp add: post_all_sem_def lock_sem_def unlock_sem_def release_spinlock_eq)
qed

theorem post_all_sem_wakes_all_witness:
  "fst (projr (post_all_sem (\<lparr>sem_lock = \<lparr>locked = False\<rparr>, sval = -2, sleeplist = [7, 5]\<rparr>,
      \<lambda>w. \<lparr>up = False, wproc = w + 100\<rparr>))) = 2
   \<and> snd (snd (projr (post_all_sem (\<lparr>sem_lock = \<lparr>locked = False\<rparr>, sval = -2, sleeplist = [7, 5]\<rparr>,
      \<lambda>w. \<lparr>up = False, wproc = w + 100\<rparr>)))) = [105, 107]"
  using post_all_sem_wakes_all [of "\<lparr>sem_lock = \<lparr>locked = False\<rparr>, sval = -2, sleeplist = [7, 5]\<rparr>"
      "\<lambda>w. \<lparr>up = False, wproc = w + 100\<rparr>"]
  by (simp add: sem_inv_def)

end
