(* ===== verification/Cache.thy ===== *)
theory Cache
  imports Bitmap Semaphore
begin

text \<open>
  The block cache and its write-ahead log (\<^verbatim>\<open>fs/cache.c\<close>, \<^verbatim>\<open>fs/cache.h\<close>).

  The state is what the file keeps in static variables, together with the block device behind it. The device is its content, plus
  the list of writes it has received, which is what a crash can cut short. The cached blocks are the list behind
  \<^verbatim>\<open>head\<close>, from \<^verbatim>\<open>head.next\<close> on. A \<^verbatim>\<open>Block *\<close> is represented by the number of the block, since the cache never holds two
  blocks of one number (part of \<open>cache_ok\<close>). The definitions follow one thread of control; spin
  locks and sleep locks are taken and released where the code does it, and a thread that would have to wait for itself ends in
  \<open>Blocked\<close>. Allocation of the \<^verbatim>\<open>Block\<close> structure is assumed to succeed.
\<close>

section \<open>State\<close>

abbreviation (input) OP_MAX_NUM_BLOCKS :: nat where "OP_MAX_NUM_BLOCKS \<equiv> 10"
abbreviation (input) EVICTION_THRESHOLD :: nat where "EVICTION_THRESHOLD \<equiv> 20"

record Block =
  block_no :: nat
  acquired :: bool
  pinned :: bool
  blk_lock :: Semaphore
  valid :: bool
  data :: "byte list"

record OpContext =
  rm :: nat
  ts :: nat

record bcache =
  sblock :: SuperBlock
  disk :: "nat \<Rightarrow> byte list"
  dlog :: "(nat \<times> byte list) list"
  cache_lock :: SpinLock
  log_lock :: SpinLock
  bitmap_lock :: SpinLock
  blocks :: "Block list"
  header :: LogHeader
  block_num :: nat
  outstanding :: int
  log_sem :: Semaphore

section \<open>The device\<close>

definition device_write :: "nat \<Rightarrow> byte list \<Rightarrow> bcache \<Rightarrow> bcache" where
  "device_write n d s = s\<lparr>disk := (disk s)(n := d), dlog := dlog s @ [(n, d)]\<rparr>"

definition read_header :: "bcache \<Rightarrow> bcache" where
  "read_header s = s\<lparr>header := dec_LogHeader (disk s (log_start (sblock s)))\<rparr>"

definition write_header :: "bcache \<Rightarrow> bcache" where
  "write_header s = device_write (log_start (sblock s)) (enc_LogHeader (header s)) s"

section \<open>Cached blocks\<close>

definition init_block :: Block where
  "init_block = \<lparr>block_no = 0, acquired = False, pinned = False, blk_lock = init_sem 1, valid = False,
                 data = replicate BLOCK_SIZE 0\<rparr>"

definition get_num_cached_blocks :: "bcache \<Rightarrow> nat" where
  "get_num_cached_blocks s = block_num s"

text \<open>
  The loop of \<^verbatim>\<open>manage_block_num\<close> walks from \<^verbatim>\<open>head.prev\<close> towards the front; its argument is the list in that
  order, and it stops as soon as the count is below the threshold or the walk is back at the head.
\<close>

fun evict_from_back :: "nat \<Rightarrow> Block list \<Rightarrow> nat \<times> Block list" where
  "evict_from_back n [] = (n, [])"
| "evict_from_back n (b # bs) =
     (if n \<ge> EVICTION_THRESHOLD
      then if \<not> acquired b \<and> \<not> pinned b then evict_from_back (n - 1) bs
           else (case evict_from_back n bs of (n', bs') \<Rightarrow> (n', b # bs'))
      else (n, b # bs))"

definition manage_block_num :: "bcache \<Rightarrow> bcache" where
  "manage_block_num s =
     (case evict_from_back (block_num s) (rev (blocks s)) of
        (n, bs) \<Rightarrow> s\<lparr>block_num := n, blocks := rev bs\<rparr>)"

definition find_block :: "nat \<Rightarrow> bcache \<Rightarrow> Block option" where
  "find_block n s = find (\<lambda>b. block_no b = n) (blocks s)"

text \<open>Assignment to a field of the cached block \<open>n\<close>.\<close>

definition upd_block :: "nat \<Rightarrow> (Block \<Rightarrow> Block) \<Rightarrow> bcache \<Rightarrow> bcache" where
  "upd_block n f s = s\<lparr>blocks := map (\<lambda>b. if block_no b = n then f b else b) (blocks s)\<rparr>"

definition cache_lock_acquire :: "bcache \<Rightarrow> bcache res" where
  "cache_lock_acquire s = rbind (acquire_spinlock (cache_lock s)) (\<lambda>l. Inr (s\<lparr>cache_lock := l\<rparr>))"

definition cache_lock_release :: "bcache \<Rightarrow> bcache" where
  "cache_lock_release s = s\<lparr>cache_lock := release_spinlock (cache_lock s)\<rparr>"

definition log_lock_acquire :: "bcache \<Rightarrow> bcache res" where
  "log_lock_acquire s = rbind (acquire_spinlock (log_lock s)) (\<lambda>l. Inr (s\<lparr>log_lock := l\<rparr>))"

definition log_lock_release :: "bcache \<Rightarrow> bcache" where
  "log_lock_release s = s\<lparr>log_lock := release_spinlock (log_lock s)\<rparr>"

definition bitmap_lock_acquire :: "bcache \<Rightarrow> bcache res" where
  "bitmap_lock_acquire s = rbind (acquire_spinlock (bitmap_lock s)) (\<lambda>l. Inr (s\<lparr>bitmap_lock := l\<rparr>))"

definition bitmap_lock_release :: "bcache \<Rightarrow> bcache" where
  "bitmap_lock_release s = s\<lparr>bitmap_lock := release_spinlock (bitmap_lock s)\<rparr>"

definition cache_acquire :: "nat \<Rightarrow> bcache \<Rightarrow> bcache res" where
  "cache_acquire no s = rbind (cache_lock_acquire s) (\<lambda>s.
     case find_block no s of
       Some b \<Rightarrow>
         let s = upd_block no (\<lambda>b. b\<lparr>acquired := True\<rparr>) s;
             s = cache_lock_release s
         in rbind (sem_wait (blk_lock b)) (\<lambda>l.
            let s = upd_block no (\<lambda>b. b\<lparr>blk_lock := l\<rparr>) s
            in rbind (cache_lock_acquire s) (\<lambda>s.
               let s = s\<lparr>blocks := filter (\<lambda>b. block_no b = no) (blocks s)
                                    @ filter (\<lambda>b. block_no b \<noteq> no) (blocks s)\<rparr>
               in Inr (cache_lock_release s)))
     | None \<Rightarrow>
         let s = manage_block_num s;
             b = init_block
         in rbind (sem_wait (blk_lock b)) (\<lambda>l.
            let b = b\<lparr>blk_lock := l, block_no := no, acquired := True, valid := True\<rparr>;
                s = s\<lparr>block_num := block_num s + 1\<rparr>;
                s = cache_lock_release s;
                b = b\<lparr>data := disk s no\<rparr>
            in rbind (cache_lock_acquire s) (\<lambda>s.
               let s = s\<lparr>blocks := b # blocks s\<rparr>
               in Inr (cache_lock_release s))))"

definition cache_release :: "nat \<Rightarrow> bcache \<Rightarrow> bcache res" where
  "cache_release no s = rbind (cache_lock_acquire s) (\<lambda>s.
     case find_block no s of
       None \<Rightarrow> Inl Fault
     | Some b \<Rightarrow> rbind (sem_post (blk_lock b)) (\<lambda>l.
         Inr (cache_lock_release
           (upd_block no (\<lambda>b. b\<lparr>acquired := False, blk_lock := l\<rparr>) s))))"

text \<open>Reading \<^verbatim>\<open>block->data\<close> and assigning it, for a block the caller has acquired.\<close>

definition block_data :: "nat \<Rightarrow> bcache \<Rightarrow> byte list res" where
  "block_data no s = (case find_block no s of None \<Rightarrow> Inl Fault | Some b \<Rightarrow> Inr (data b))"

definition set_block_data :: "nat \<Rightarrow> byte list \<Rightarrow> bcache \<Rightarrow> bcache" where
  "set_block_data no d = upd_block no (\<lambda>b. b\<lparr>data := d\<rparr>)"

section \<open>Atomic operations and the log\<close>

text \<open>
  The waiting loop of \<^verbatim>\<open>cache_begin_op\<close>, entered and left with the log lock held. Alone, a thread can go round it
  only as often as the semaphore has units.
\<close>

definition log_is_full :: "bcache \<Rightarrow> bool" where
  "log_is_full s \<longleftrightarrow> int LOG_MAX_SIZE \<le> int (hnum (header s)) + (outstanding s + 1) * int OP_MAX_NUM_BLOCKS"

function begin_op_wait :: "bcache \<Rightarrow> bcache res" where
  "begin_op_wait s =
     (if log_is_full s
      then case sem_wait (log_sem s) of
             Inl e \<Rightarrow> Inl e
           | Inr l \<Rightarrow> if nat (sval l) < nat (sval (log_sem s)) then begin_op_wait (s\<lparr>log_sem := l\<rparr>) else Inl Blocked
      else Inr s)"
  by pat_completeness auto
termination
  by (relation "measure (\<lambda>s. nat (sval (log_sem s)))") auto

declare begin_op_wait.simps [simp del]

definition cache_begin_op :: "OpContext \<Rightarrow> bcache \<Rightarrow> (OpContext \<times> bcache) res" where
  "cache_begin_op ctx s = rbind (log_lock_acquire s) (\<lambda>s.
     let ctx = ctx\<lparr>rm := OP_MAX_NUM_BLOCKS\<rparr>
     in rbind (begin_op_wait s) (\<lambda>s.
        let s = s\<lparr>outstanding := outstanding s + 1\<rparr>
        in Inr (ctx, log_lock_release s)))"

definition cache_sync :: "OpContext option \<Rightarrow> nat \<Rightarrow> bcache \<Rightarrow> (OpContext option \<times> bcache) res" where
  "cache_sync ctx no s = (case find_block no s of
     None \<Rightarrow> Inl Fault
   | Some b \<Rightarrow> (case ctx of
       None \<Rightarrow> Inr (None, device_write no (data b) s)
     | Some c \<Rightarrow> rbind (log_lock_acquire s) (\<lambda>s.
         let s = upd_block no (\<lambda>b. b\<lparr>pinned := True\<rparr>) s;
             n = hnum (header s);
             exist = no \<in> set (take n (hblocks (header s)))
         in if \<not> exist
            then if n \<ge> LOG_MAX_SIZE then Inl Fault
                 else let s = s\<lparr>header := \<lparr>hnum = n + 1, hblocks = (hblocks (header s))[n := no]\<rparr>\<rparr>
                      in if rm c \<le> 0 \<or> hnum (header s) \<ge> LOG_MAX_SIZE then Inl Panic
                         else Inr (Some (c\<lparr>rm := rm c - 1\<rparr>), log_lock_release s)
            else Inr (Some c, log_lock_release s))))"

definition copy_block :: "nat \<Rightarrow> nat \<Rightarrow> bcache \<Rightarrow> bcache res" where
  "copy_block from_no to_no s =
     rbind (cache_acquire from_no s) (\<lambda>s.
     rbind (cache_acquire to_no s) (\<lambda>s.
     rbind (block_data from_no s) (\<lambda>d.
     let s = set_block_data to_no d s;
         s = device_write to_no d s
     in rbind (cache_release from_no s) (cache_release to_no))))"

fun log_blocks :: "nat \<Rightarrow> nat list \<Rightarrow> bcache \<Rightarrow> bcache res" where
  "log_blocks to_no [] s = Inr s"
| "log_blocks to_no (n # ns) s = rbind (copy_block n to_no s) (log_blocks (Suc to_no) ns)"

fun install_blocks :: "nat list \<Rightarrow> bcache \<Rightarrow> bcache res" where
  "install_blocks [] s = Inr s"
| "install_blocks (n # ns) s =
     rbind (cache_acquire n s) (\<lambda>s.
     rbind (block_data n s) (\<lambda>d.
     let s = log_lock_release s;
         s = device_write n d s
     in rbind (log_lock_acquire s) (\<lambda>s.
        let s = upd_block n (\<lambda>b. b\<lparr>pinned := False\<rparr>) s
        in rbind (cache_release n s) (install_blocks ns))))"

definition cache_end_op :: "bcache \<Rightarrow> bcache res" where
  "cache_end_op s = rbind (log_lock_acquire s) (\<lambda>s.
     let s = s\<lparr>outstanding := outstanding s - 1\<rparr>
     in if outstanding s > 0
        then rbind (sem_post (log_sem s)) (\<lambda>l. Inr (log_lock_release (s\<lparr>log_sem := l\<rparr>)))
        else
          rbind (log_blocks (log_start (sblock s) + 1) (take (hnum (header s)) (hblocks (header s))) s) (\<lambda>s.
          let s = write_header s
          in rbind (install_blocks (take (hnum (header s)) (hblocks (header s))) s) (\<lambda>s.
          let s = s\<lparr>header := (header s)\<lparr>hnum := 0\<rparr>\<rparr>;
              s = write_header s
          in rbind (sem_post_all (log_sem s)) (\<lambda>l.
             Inr (log_lock_release (s\<lparr>log_sem := l\<rparr>))))))"

section \<open>Recovery\<close>

fun restore_blocks :: "nat \<Rightarrow> nat list \<Rightarrow> bcache \<Rightarrow> bcache res" where
  "restore_blocks from_no [] s = Inr s"
| "restore_blocks from_no (n # ns) s = rbind (copy_block from_no n s) (restore_blocks (Suc from_no) ns)"

text \<open>
  \<^verbatim>\<open>memset(header.block_no, 0, LOG_MAX_SIZE)\<close> clears 63 bytes of the array, not 63 entries.
\<close>

definition clear_header_blocks :: "nat list \<Rightarrow> nat list" where
  "clear_header_blocks bs = dec_ints 8 LOG_MAX_SIZE (patch 0 (replicate LOG_MAX_SIZE 0) (enc_ints 8 bs))"

text \<open>A header on the disk that counts more blocks than it can list makes the loop read beyond the array, which is a \<open>Fault\<close>.\<close>

definition init_bcache :: "SuperBlock \<Rightarrow> (nat \<Rightarrow> byte list) \<Rightarrow> bcache res" where
  "init_bcache sb dev =
     (let s = \<lparr>sblock = sb, disk = dev, dlog = [], cache_lock = \<lparr>locked = False\<rparr>, log_lock = \<lparr>locked = False\<rparr>,
               bitmap_lock = \<lparr>locked = False\<rparr>, blocks = [], header = \<lparr>hnum = 0, hblocks = replicate LOG_MAX_SIZE 0\<rparr>,
               block_num = 0, outstanding = 0, log_sem = init_sem 0\<rparr>;
          s = read_header s
      in if LOG_MAX_SIZE < hnum (header s) then Inl Fault
         else rbind (restore_blocks (log_start sb + 1) (take (hnum (header s)) (hblocks (header s))) s) (\<lambda>s.
         let s = s\<lparr>header := \<lparr>hnum = 0, hblocks = clear_header_blocks (hblocks (header s))\<rparr>\<rparr>
         in Inr (write_header s)))"

section \<open>Block allocation\<close>

text \<open>
  The bitmap is one block. Reading or writing a bit beyond its 4096 leaves \<^verbatim>\<open>block->data\<close>, which is the \<open>Fault\<close> case of both
  routines.
\<close>

definition cache_alloc :: "OpContext option \<Rightarrow> bcache \<Rightarrow> (nat \<times> OpContext option \<times> bcache) res" where
  "cache_alloc ctx s =
     rbind (bitmap_lock_acquire s) (\<lambda>s.
     let bm = bitmap_start (sblock s)
     in rbind (cache_acquire bm s) (\<lambda>s.
        rbind (block_data bm s) (\<lambda>d.
        case first_clear data_bitmap_get (min BIT_PER_BLOCK (num_blocks (sblock s))) d of
          Some i \<Rightarrow>
            let s = set_block_data bm (data_bitmap_set i d) s
            in rbind (cache_sync ctx bm s) (\<lambda>(ctx, s).
               rbind (cache_release bm s) (\<lambda>s.
               rbind (cache_acquire i s) (\<lambda>s.
               let s = set_block_data i (replicate BLOCK_SIZE 0) s
               in rbind (cache_sync ctx i s) (\<lambda>(ctx, s).
                  rbind (cache_release i s) (\<lambda>s.
                  Inr (i, ctx, bitmap_lock_release s))))))
        | None \<Rightarrow> if num_blocks (sblock s) > BIT_PER_BLOCK then Inl Fault
                  else rbind (cache_release bm s) (\<lambda>s. Inl Panic))))"

definition cache_free :: "OpContext option \<Rightarrow> nat \<Rightarrow> bcache \<Rightarrow> (OpContext option \<times> bcache) res" where
  "cache_free ctx no s =
     rbind (bitmap_lock_acquire s) (\<lambda>s.
     let bm = bitmap_start (sblock s)
     in rbind (cache_acquire bm s) (\<lambda>s.
        rbind (block_data bm s) (\<lambda>d.
        if no \<ge> BIT_PER_BLOCK then Inl Fault
        else let s = set_block_data bm (data_bitmap_clear no d) s
        in rbind (cache_sync ctx bm s) (\<lambda>(ctx, s).
           rbind (cache_release bm s) (\<lambda>s.
           Inr (ctx, bitmap_lock_release s))))))"

section \<open>The content a client sees\<close>

text \<open>
  \<open>bview s n\<close> is the content of block \<open>n\<close> as the next acquire will show it. \<open>held\<close> and \<open>pin\<close> are the blocks some caller
  has acquired and the blocks with logged changes not yet installed. \<open>rest\<close> is the state without the list of cached
  blocks.
\<close>

definition bview :: "bcache \<Rightarrow> nat \<Rightarrow> byte list" where
  "bview s n = (case find_block n s of None \<Rightarrow> disk s n | Some b \<Rightarrow> data b)"

definition cached :: "bcache \<Rightarrow> nat set" where
  "cached s = block_no ` set (blocks s)"

definition held :: "bcache \<Rightarrow> nat set" where
  "held s = block_no ` {b \<in> set (blocks s). acquired b}"

definition pin :: "bcache \<Rightarrow> nat set" where
  "pin s = block_no ` {b \<in> set (blocks s). pinned b}"

definition rest :: "bcache \<Rightarrow> bcache" where
  "rest s = s\<lparr>blocks := [], block_num := 0\<rparr>"

definition block_ok :: "(nat \<Rightarrow> byte list) \<Rightarrow> Block \<Rightarrow> bool" where
  "block_ok dk b \<longleftrightarrow> length (data b) = BLOCK_SIZE
     \<and> quiet_sem (if acquired b then 0 else 1) (blk_lock b)
     \<and> (\<not> acquired b \<and> \<not> pinned b \<longrightarrow> data b = dk (block_no b))"

definition cache_ok :: "bcache \<Rightarrow> bool" where
  "cache_ok s \<longleftrightarrow> distinct (map block_no (blocks s)) \<and> block_num s = length (blocks s)
     \<and> (\<forall>b\<in>set (blocks s). block_ok (disk s) b)
     \<and> (\<forall>n. length (disk s n) = BLOCK_SIZE)
     \<and> \<not> locked (cache_lock s)"

lemma cache_okD:
  assumes "cache_ok s"
  shows "distinct (map block_no (blocks s))" "block_num s = length (blocks s)"
    "b \<in> set (blocks s) \<Longrightarrow> block_ok (disk s) b" "length (disk s n) = BLOCK_SIZE"
    "\<not> locked (cache_lock s)"
  using assms by (auto simp: cache_ok_def)

lemma rest_eq_iff:
  "rest s' = rest s \<longleftrightarrow> sblock s' = sblock s \<and> disk s' = disk s \<and> dlog s' = dlog s
    \<and> cache_lock s' = cache_lock s \<and> log_lock s' = log_lock s \<and> bitmap_lock s' = bitmap_lock s
    \<and> header s' = header s \<and> outstanding s' = outstanding s \<and> log_sem s' = log_sem s"
  by (cases s; cases s') (auto simp: rest_def)

lemma rest_write_iff:
  "rest s' = (rest s)\<lparr>disk := dk, dlog := dl\<rparr> \<longleftrightarrow> sblock s' = sblock s \<and> disk s' = dk \<and> dlog s' = dl
    \<and> cache_lock s' = cache_lock s \<and> log_lock s' = log_lock s \<and> bitmap_lock s' = bitmap_lock s
    \<and> header s' = header s \<and> outstanding s' = outstanding s \<and> log_sem s' = log_sem s"
  by (cases s; cases s') (auto simp: rest_def)

lemma distinct_key_unique:
  "distinct (map f xs) \<Longrightarrow> x \<in> set xs \<Longrightarrow> y \<in> set xs \<Longrightarrow> f x = f y \<Longrightarrow> x = y"
  by (auto simp: distinct_map dest: inj_onD)

lemma find_block_SomeI:
  assumes "distinct (map block_no (blocks s))" and "b \<in> set (blocks s)"
  shows "find_block (block_no b) s = Some b"
proof -
  from assms(2) obtain b' where b': "find (\<lambda>c. block_no c = block_no b) (blocks s) = Some b'"
    by (cases "find (\<lambda>c. block_no c = block_no b) (blocks s)") (auto simp: find_None_set)
  then have "b' \<in> set (blocks s)" "block_no b' = block_no b" using find_SomeD by fastforce+
  then have "b' = b" using distinct_key_unique [OF assms(1)] assms(2) by blast
  with b' show ?thesis by (simp add: find_block_def)
qed

lemma find_block_SomeD: "find_block n s = Some b \<Longrightarrow> b \<in> set (blocks s) \<and> block_no b = n"
  by (auto simp: find_block_def dest: find_SomeD)

lemma find_block_None_iff: "find_block n s = None \<longleftrightarrow> n \<notin> cached s"
  by (auto simp: find_block_def find_None_set cached_def)

lemma find_block_iff:
  "distinct (map block_no (blocks s)) \<Longrightarrow>
    find_block n s = Some b \<longleftrightarrow> b \<in> set (blocks s) \<and> block_no b = n"
  using find_block_SomeI find_block_SomeD by blast

lemma find_block_cong:
  assumes "distinct (map block_no (blocks s))" and "distinct (map block_no (blocks s'))"
    and "\<And>b. block_no b = n \<Longrightarrow> b \<in> set (blocks s') \<longleftrightarrow> b \<in> set (blocks s)"
  shows "find_block n s' = find_block n s"
proof (cases "find_block n s")
  case None
  then have "n \<notin> cached s'" using assms(3) by (auto simp: find_block_None_iff cached_def)
  moreover from None have "n \<notin> cached s" by (simp add: find_block_None_iff)
  ultimately show ?thesis by (metis find_block_None_iff)
next
  case (Some b)
  then have "b \<in> set (blocks s')" "block_no b = n" using assms(3) [of b] find_block_SomeD [OF Some] by auto
  then have "find_block n s' = Some b" using find_block_SomeI [OF assms(2)] by blast
  with Some show ?thesis by simp
qed

lemma held_cached: "held s \<subseteq> cached s" and pin_cached: "pin s \<subseteq> cached s"
  by (auto simp: held_def pin_def cached_def)

lemma find_held:
  assumes "cache_ok s" and "n \<in> held s"
  obtains b where "find_block n s = Some b" "b \<in> set (blocks s)" "block_no b = n" "acquired b"
  using assms find_block_SomeI [OF cache_okD(1) [OF assms(1)]] by (auto simp: held_def)

lemma find_block_held_iff:
  assumes "cache_ok s" and "find_block n s = Some b"
  shows "n \<in> held s \<longleftrightarrow> acquired b" "n \<in> pin s \<longleftrightarrow> pinned b"
  using assms distinct_key_unique [OF cache_okD(1) [OF assms(1)]] find_block_SomeD [OF assms(2)]
  by (auto simp: held_def pin_def)

lemma bview_clean:
  assumes "cache_ok s" and "n \<notin> held s" and "n \<notin> pin s"
  shows "bview s n = disk s n"
proof (cases "find_block n s")
  case (Some b)
  then show ?thesis
    using assms find_block_held_iff [OF assms(1) Some] find_block_SomeD [OF Some] cache_okD(3) [OF assms(1)]
    by (auto simp: bview_def block_ok_def)
qed (simp add: bview_def)

lemma length_bview [simp]: "cache_ok s \<Longrightarrow> length (bview s n) = BLOCK_SIZE"
  using find_block_SomeD [of n s] by (auto simp: bview_def cache_ok_def block_ok_def split: option.splits)

section \<open>Acquire and release\<close>

lemma evict_from_back_props:
  assumes "evict_from_back n bs = (n', bs')" and "length bs \<le> n"
  shows "set bs' \<subseteq> set bs" "distinct (map block_no bs) \<Longrightarrow> distinct (map block_no bs')"
    "n' + length bs = n + length bs'"
    "b \<in> set bs \<Longrightarrow> acquired b \<or> pinned b \<Longrightarrow> b \<in> set bs'"
    "n' < EVICTION_THRESHOLD \<or> (\<forall>b\<in>set bs'. acquired b \<or> pinned b)"
proof -
  have "set bs' \<subseteq> set bs \<and> (distinct (map block_no bs) \<longrightarrow> distinct (map block_no bs'))
    \<and> n' + length bs = n + length bs'
    \<and> (\<forall>b\<in>set bs. acquired b \<or> pinned b \<longrightarrow> b \<in> set bs')
    \<and> (n' < EVICTION_THRESHOLD \<or> (\<forall>b\<in>set bs'. acquired b \<or> pinned b))"
    using assms
  proof (induction n bs arbitrary: n' bs' rule: evict_from_back.induct)
    case (1 n)
    then show ?case by auto
  next
    case (2 n b bs)
    show ?case
    proof (cases "n \<ge> EVICTION_THRESHOLD")
      case ge: True
      show ?thesis
      proof (cases "acquired b \<or> pinned b")
        case True
        then obtain bs'' where e: "evict_from_back n bs = (n', bs'')" and bs': "bs' = b # bs''"
          using 2(3) ge by (auto split: prod.splits)
        have "\<not> (\<not> acquired b \<and> \<not> pinned b)" using True by blast
        from 2(2) [OF ge this e] 2(4) True show ?thesis by (auto simp: bs' image_iff)
      next
        case False
        then have e: "evict_from_back (n - 1) bs = (n', bs')" using 2(3) ge by simp
        have c: "\<not> acquired b \<and> \<not> pinned b" using False by blast
        have "length bs \<le> n - 1" using 2(4) ge by simp
        from 2(1) [OF ge c e this] 2(4) ge False show ?thesis by auto
      qed
    next
      case False
      then show ?thesis using 2(3) by auto
    qed
  qed
  then show "set bs' \<subseteq> set bs" "distinct (map block_no bs) \<Longrightarrow> distinct (map block_no bs')"
    "n' + length bs = n + length bs'"
    "b \<in> set bs \<Longrightarrow> acquired b \<or> pinned b \<Longrightarrow> b \<in> set bs'"
    "n' < EVICTION_THRESHOLD \<or> (\<forall>b\<in>set bs'. acquired b \<or> pinned b)" by blast+
qed

lemma manage_block_num_props:
  assumes ok: "cache_ok s"
  shows "cache_ok (manage_block_num s)" "bview (manage_block_num s) = bview s"
    "held (manage_block_num s) = held s" "pin (manage_block_num s) = pin s"
    "rest (manage_block_num s) = rest s" "cached (manage_block_num s) \<subseteq> cached s"
    "block_num (manage_block_num s) < EVICTION_THRESHOLD \<or> cached (manage_block_num s) = held s \<union> pin s"
proof -
  obtain n bs where e: "evict_from_back (block_num s) (rev (blocks s)) = (n, bs)" by fastforce
  let ?s = "manage_block_num s"
  have s': "?s = s\<lparr>block_num := n, blocks := rev bs\<rparr>" by (simp add: manage_block_num_def e)
  note ev = evict_from_back_props [OF e]
  have len: "length (rev (blocks s)) \<le> block_num s" using cache_okD(2) [OF ok] by simp
  have sub: "set bs \<subseteq> set (blocks s)" using ev(1) [OF len] by simp
  have keep: "b \<in> set (blocks s) \<Longrightarrow> acquired b \<or> pinned b \<Longrightarrow> b \<in> set bs" for b
    using ev(4) [OF len, of b] by simp
  have d: "distinct (map block_no (rev bs))"
    using ev(2) [OF len] cache_okD(1) [OF ok] by (simp add: rev_map [symmetric])
  show ok': "cache_ok ?s"
    using ok sub d ev(3) [OF len] by (auto simp: s' cache_ok_def)
  show rest: "rest ?s = rest s" by (simp add: s' rest_def)
  show h: "held ?s = held s" and p: "pin ?s = pin s" and "cached ?s \<subseteq> cached s"
    using sub keep by (auto simp: s' held_def pin_def cached_def)
  show "block_num ?s < EVICTION_THRESHOLD \<or> cached ?s = held s \<union> pin s"
  proof (cases "n < EVICTION_THRESHOLD")
    case False
    then have "\<forall>b\<in>set bs. acquired b \<or> pinned b" using ev(5) [OF len] by blast
    then have "cached ?s = held ?s \<union> pin ?s" by (auto simp: s' held_def pin_def cached_def)
    then show ?thesis using h p by simp
  qed (simp add: s')
  show "bview ?s = bview s"
  proof
    fix m
    show "bview ?s m = bview s m"
    proof (cases "m \<in> held s \<or> m \<in> pin s")
      case True
      then obtain b where b: "b \<in> set (blocks s)" "block_no b = m" "acquired b \<or> pinned b"
        by (auto simp: held_def pin_def)
      have "find_block m s = Some b" using find_block_SomeI [OF cache_okD(1) [OF ok] b(1)] b(2) by simp
      moreover have "find_block m ?s = Some b"
        using find_block_SomeI [OF cache_okD(1) [OF ok'], of b] keep [OF b(1,3)] b(2) by (simp add: s')
      ultimately show ?thesis by (simp add: bview_def)
    next
      case False
      then show ?thesis using bview_clean [OF ok] bview_clean [OF ok'] h p by (simp add: s')
    qed
  qed
qed

lemma cache_lock_acquire_ok:
  "cache_ok s \<Longrightarrow> cache_lock_acquire s = Inr (s\<lparr>cache_lock := (cache_lock s)\<lparr>locked := True\<rparr>\<rparr>)"
  by (simp add: cache_lock_acquire_def cache_okD(5))

lemma upd_block_blocks:
  "set (blocks (upd_block n f s)) = (\<lambda>b. if block_no b = n then f b else b) ` set (blocks s)"
  by (simp add: upd_block_def)

lemma image_update_key:
  assumes "k x = n"
  shows "k ` {c \<in> insert x {c \<in> S. k c \<noteq> n}. P c} = (if P x then insert n (k ` {c \<in> S. P c}) else k ` {c \<in> S. P c} - {n})"
proof (cases "P x")
  case True
  then have "{c \<in> insert x {c \<in> S. k c \<noteq> n}. P c} = insert x {c \<in> S. P c \<and> k c \<noteq> n}" by auto
  then show ?thesis using True assms by auto
next
  case False
  then have "{c \<in> insert x {c \<in> S. k c \<noteq> n}. P c} = {c \<in> S. P c \<and> k c \<noteq> n}" by auto
  then show ?thesis using False by auto
qed

text \<open>Changing one cached block, with its number kept and its data, flags and lock consistent again.\<close>

lemma upd_block_props:
  assumes ok: "cache_ok s" and b: "find_block n s = Some b"
    and no: "block_no (f b) = n" and good: "block_ok (disk s) (f b)"
  shows "cache_ok (upd_block n f s)"
    "find_block n (upd_block n f s) = Some (f b)"
    "bview (upd_block n f s) = (bview s)(n := data (f b))"
    "held (upd_block n f s) = (if acquired (f b) then insert n (held s) else held s - {n})"
    "pin (upd_block n f s) = (if pinned (f b) then insert n (pin s) else pin s - {n})"
    "rest (upd_block n f s) = rest s" "cached (upd_block n f s) = cached s"
proof -
  let ?g = "\<lambda>c. if block_no c = n then f c else c" and ?s = "upd_block n f s"
  have uniq: "c \<in> set (blocks s) \<Longrightarrow> block_no c = n \<Longrightarrow> c = b" for c
    using distinct_key_unique [OF cache_okD(1) [OF ok], of c b] find_block_SomeD [OF b] by auto
  have key: "c \<in> set (blocks s) \<Longrightarrow> block_no (?g c) = block_no c" for c
    using uniq [of c] no by auto
  have keys: "map block_no (blocks ?s) = map block_no (blocks s)"
    using key by (simp add: upd_block_def comp_def)
  have set': "set (blocks ?s) = insert (f b) {c \<in> set (blocks s). block_no c \<noteq> n}"
    using find_block_SomeD [OF b] uniq by (auto simp: upd_block_blocks image_iff)
  have disk: "disk ?s = disk s" "block_num ?s = block_num s" "cache_lock ?s = cache_lock s"
    by (simp_all add: upd_block_def)
  have len: "length (blocks ?s) = length (blocks s)" by (simp add: upd_block_def)
  show ok': "cache_ok ?s"
    using ok good by (auto simp: cache_ok_def keys disk set' len)
  show fb: "find_block n ?s = Some (f b)"
    using find_block_SomeI [OF cache_okD(1) [OF ok'], of "f b"] set' no by simp
  have other: "m \<noteq> n \<Longrightarrow> find_block m ?s = find_block m s" for m
    by (rule find_block_cong [OF cache_okD(1) [OF ok] cache_okD(1) [OF ok']]) (auto simp: set' no)
  show "bview ?s = (bview s)(n := data (f b))"
    using other fb by (auto simp: bview_def disk fun_eq_iff split: option.split)
  show "held ?s = (if acquired (f b) then insert n (held s) else held s - {n})"
    and "pin ?s = (if pinned (f b) then insert n (pin s) else pin s - {n})"
    and "cached ?s = cached s"
    using find_block_SomeD [OF b] image_update_key [of block_no "f b" n "set (blocks s)", OF no]
    by (auto simp: held_def pin_def cached_def set' no)
  show "rest ?s = rest s" by (simp add: upd_block_def rest_def)
qed

text \<open>The list of cached blocks only matters up to reordering.\<close>

lemma reorder_blocks_props:
  assumes ok: "cache_ok s" and set': "set bs = set (blocks s)" and d: "distinct (map block_no bs)"
  shows "cache_ok (s\<lparr>blocks := bs\<rparr>)" "bview (s\<lparr>blocks := bs\<rparr>) = bview s"
    "held (s\<lparr>blocks := bs\<rparr>) = held s" "pin (s\<lparr>blocks := bs\<rparr>) = pin s"
    "rest (s\<lparr>blocks := bs\<rparr>) = rest s" "cached (s\<lparr>blocks := bs\<rparr>) = cached s"
proof -
  have "card (set bs) = length bs" using d by (metis distinct_card distinct_map)
  moreover have "card (set (blocks s)) = length (blocks s)"
    using cache_okD(1) [OF ok] by (metis distinct_card distinct_map)
  ultimately have len: "length bs = length (blocks s)" using set' by simp
  show ok': "cache_ok (s\<lparr>blocks := bs\<rparr>)" using ok len d set' by (auto simp: cache_ok_def)
  have "find_block m (s\<lparr>blocks := bs\<rparr>) = find_block m s" for m
    by (rule find_block_cong [OF cache_okD(1) [OF ok] cache_okD(1) [OF ok']]) (simp add: set')
  then show "bview (s\<lparr>blocks := bs\<rparr>) = bview s" by (simp add: bview_def fun_eq_iff split: option.split)
qed (use set' in \<open>simp_all add: held_def pin_def rest_def cached_def\<close>)

lemma lock_cycle:
  "\<not> locked l \<Longrightarrow> release_spinlock (l\<lparr>locked := True\<rparr>) = l"
  by (cases l) (simp add: release_spinlock_eq)

lemma cache_acquire_hit_props:
  assumes ok: "cache_ok s" and b: "find_block n s = Some b" and free: "n \<notin> held s"
  obtains s' where "cache_acquire n s = Inr s'" "cache_ok s'" "bview s' = bview s"
    "held s' = insert n (held s)" "pin s' = pin s" "rest s' = rest s" "cached s' = cached s"
proof -
  let ?f = "\<lambda>b. b\<lparr>acquired := True\<rparr>" and ?l = "(blk_lock b)\<lparr>sval := 0\<rparr>"
  let ?g = "\<lambda>b. b\<lparr>acquired := True, blk_lock := ?l\<rparr>"
  have bok: "block_ok (disk s) b" "\<not> acquired b" "block_no b = n"
    using find_block_SomeD [OF b] cache_okD(3) [OF ok] find_block_held_iff [OF ok b] free by auto
  then have wait: "sem_wait (blk_lock b) = Inr ?l"
    by (auto simp: block_ok_def sem_wait_quiet [of 1])
  have gok: "block_ok (disk s) (?g b)"
    using bok by (auto simp: block_ok_def intro: quiet_sval)
  have gno: "block_no (?g b) = n" using bok by simp
  note u = upd_block_props [OF ok b, of ?g, OF gno gok, simplified]
  define bs where "bs = blocks (upd_block n ?g s)"
  let ?bs = "filter (\<lambda>b. block_no b = n) bs @ filter (\<lambda>b. block_no b \<noteq> n) bs"
  have bs: "set ?bs = set (blocks (upd_block n ?g s))" "distinct (map block_no ?bs)"
  proof -
    show "set ?bs = set (blocks (upd_block n ?g s))" by (auto simp: bs_def)
    have "distinct (map block_no bs)" using cache_okD(1) [OF u(1)] by (simp add: bs_def)
    then show "distinct (map block_no ?bs)" by (auto simp: distinct_map intro: inj_on_subset)
  qed
  note r = reorder_blocks_props [OF u(1) bs]
  have "cache_acquire n s = Inr ((upd_block n ?g s)\<lparr>blocks := ?bs\<rparr>)"
    using b wait cache_okD(5) [OF ok] lock_cycle [OF cache_okD(5) [OF ok]]
    by (simp add: cache_acquire_def cache_lock_acquire_ok [OF ok] find_block_def upd_block_def
        cache_lock_release_def cache_lock_acquire_def Let_def bs_def comp_def if_distrib
        release_spinlock_eq cong: if_cong)
  moreover have "(if pinned b then insert n (pin s) else pin s - {n}) = pin s"
    using find_block_held_iff(2) [OF ok b] by auto
  ultimately show ?thesis
    using r u that bok b by (simp add: bview_def fun_upd_idem)
qed

lemma cache_acquire_miss_props:
  assumes ok: "cache_ok s" and b: "find_block n s = None"
  obtains s' where "cache_acquire n s = Inr s'" "cache_ok s'" "bview s' = bview s"
    "held s' = insert n (held s)" "pin s' = pin s" "rest s' = rest s" "cached s' \<subseteq> insert n (cached s)"
    "block_num s' \<le> EVICTION_THRESHOLD \<or> cached s' = insert n (held s \<union> pin s)"
proof -
  let ?m = "manage_block_num s"
  let ?b = "init_block\<lparr>blk_lock := (init_sem 1)\<lparr>sval := 0\<rparr>, block_no := n, acquired := True, valid := True, data := disk s n\<rparr>"
  let ?s = "?m\<lparr>block_num := block_num ?m + 1, blocks := ?b # blocks ?m\<rparr>"
  note m = manage_block_num_props [OF ok]
  have disk: "disk ?m = disk s" "cache_lock ?m = cache_lock s" using m(5) by (simp_all add: rest_eq_iff)
  have n: "n \<notin> cached ?m" using b m(6) by (auto simp: find_block_None_iff)
  have q: "quiet_sem 1 (init_sem 1)" "quiet_sem 0 ((init_sem 1)\<lparr>sval := 0\<rparr>)"
    by (simp_all add: quiet_sem_def init_sem_def)
  have bok: "block_ok (disk s) ?b"
    using q cache_okD(4) [OF ok] by (simp add: block_ok_def)
  have mlock: "manage_block_num (s\<lparr>cache_lock := l\<rparr>) = ?m\<lparr>cache_lock := l\<rparr>" for l
    by (simp add: manage_block_num_def split: prod.split)
  have fb: "find_block n (s\<lparr>cache_lock := l\<rparr>) = None" for l using b by (simp add: find_block_def)
  have "cache_acquire n s = Inr ?s"
    using cache_okD(5) [OF ok] lock_cycle [OF cache_okD(5) [OF ok]] q
    by (simp add: cache_acquire_def cache_lock_acquire_ok [OF ok] mlock fb Let_def init_block_def
        sem_wait_quiet [of 1] cache_lock_release_def cache_lock_acquire_def release_spinlock_eq disk)
  moreover have ok': "cache_ok ?s"
    using m(1) n bok disk by (auto simp: cache_ok_def cached_def)
  moreover have "bview ?s = bview s"
  proof
    fix j
    show "bview ?s j = bview s j"
    proof (cases "j = n")
      case True
      then show ?thesis using b by (simp add: bview_def find_block_def)
    next
      case False
      then have "find_block j ?s = find_block j ?m" by (simp add: find_block_def)
      then have "bview ?s j = bview ?m j" by (simp add: bview_def split: option.split)
      then show ?thesis using m(2) by simp
    qed
  qed
  moreover have "held ?s = insert n (held s)" "pin ?s = pin s" "cached ?s \<subseteq> insert n (cached s)"
  proof -
    have c: "{c. (c = ?b \<or> c \<in> S) \<and> acquired c} = insert ?b {c \<in> S. acquired c}"
      "{c. (c = ?b \<or> c \<in> S) \<and> pinned c} = {c \<in> S. pinned c}" for S by (auto simp: init_block_def)
    show "held ?s = insert n (held s)" using m(3) by (simp add: held_def c)
    show "pin ?s = pin s" using m(4) by (simp add: pin_def c)
    show "cached ?s \<subseteq> insert n (cached s)" using m(6) by (auto simp: cached_def)
  qed
  moreover have "rest ?s = rest s" using m(5) by (simp add: rest_def)
  moreover have "block_num ?s \<le> EVICTION_THRESHOLD \<or> cached ?s = insert n (held s \<union> pin s)"
    using m(7) by (auto simp: cached_def)
  ultimately show ?thesis using that by blast
qed

text \<open>
  The contract of \<^verbatim>\<open>acquire\<close>: the caller gets the current content of the block, nothing else a client can see changes, and no
  block that is held or pinned leaves the cache.
\<close>

lemma cache_acquire_props:
  assumes ok: "cache_ok s" and free: "n \<notin> held s"
  obtains s' where "cache_acquire n s = Inr s'" "cache_ok s'" "bview s' = bview s"
    "held s' = insert n (held s)" "pin s' = pin s" "rest s' = rest s" "cached s' \<subseteq> insert n (cached s)"
proof (cases "find_block n s")
  case None
  from cache_acquire_miss_props [OF ok None] that show ?thesis by metis
next
  case (Some b)
  from cache_acquire_hit_props [OF ok Some free] that show ?thesis by (metis subset_insertI)
qed

lemma cache_release_props:
  assumes ok: "cache_ok s" and h: "n \<in> held s" and clean: "n \<in> pin s \<or> bview s n = disk s n"
  obtains s' where "cache_release n s = Inr s'" "cache_ok s'" "bview s' = bview s"
    "held s' = held s - {n}" "pin s' = pin s" "rest s' = rest s" "cached s' = cached s"
proof -
  from find_held [OF ok h] obtain b where
    b: "find_block n s = Some b" "b \<in> set (blocks s)" "block_no b = n" "acquired b" by blast
  let ?l = "(blk_lock b)\<lparr>sval := 1\<rparr>"
  let ?g = "\<lambda>b. b\<lparr>acquired := False, blk_lock := ?l\<rparr>"
  have bok: "block_ok (disk s) b" using cache_okD(3) [OF ok b(2)] .
  have post: "sem_post (blk_lock b) = Inr ?l"
    using bok b(4) sem_post_quiet [of 0 "blk_lock b"] by (simp add: block_ok_def)
  have gok: "block_ok (disk s) (?g b)"
    using bok b clean find_block_held_iff(2) [OF ok b(1)]
    by (auto simp: block_ok_def bview_def intro: quiet_sval)
  have gno: "block_no (?g b) = n" using b by simp
  note u = upd_block_props [OF ok b(1), of ?g, OF gno gok, simplified]
  have "cache_release n s = Inr (upd_block n ?g s)"
    using b(1) post lock_cycle [OF cache_okD(5) [OF ok]]
    by (simp add: cache_release_def cache_lock_acquire_ok [OF ok] find_block_def upd_block_def
        cache_lock_release_def)
  moreover have "bview (upd_block n ?g s) = bview s"
    using u(3) b(1) by (auto simp: bview_def fun_eq_iff)
  moreover have "pin (upd_block n ?g s) = pin s"
    using u(5) find_block_held_iff(2) [OF ok b(1)] by auto
  ultimately show ?thesis using that u by metis
qed

lemma block_data_held: "cache_ok s \<Longrightarrow> n \<in> held s \<Longrightarrow> block_data n s = Inr (bview s n)"
  by (erule find_held) (auto simp: block_data_def bview_def)

lemma set_block_data_props:
  assumes ok: "cache_ok s" and h: "n \<in> held s" and len: "length d = BLOCK_SIZE"
  shows "cache_ok (set_block_data n d s)" "bview (set_block_data n d s) = (bview s)(n := d)"
    "held (set_block_data n d s) = held s" "pin (set_block_data n d s) = pin s"
    "rest (set_block_data n d s) = rest s" "cached (set_block_data n d s) = cached s"
proof -
  from find_held [OF ok h] obtain b where
    b: "find_block n s = Some b" "b \<in> set (blocks s)" "block_no b = n" "acquired b" by blast
  have gok: "block_ok (disk s) (b\<lparr>data := d\<rparr>)"
    using cache_okD(3) [OF ok b(2)] b(4) len by (auto simp: block_ok_def)
  have gno: "block_no (b\<lparr>data := d\<rparr>) = n" using b by simp
  note u = upd_block_props [OF ok b(1), of "\<lambda>b. b\<lparr>data := d\<rparr>", OF gno gok, simplified]
  then show "cache_ok (set_block_data n d s)" "bview (set_block_data n d s) = (bview s)(n := d)"
    "held (set_block_data n d s) = held s" "pin (set_block_data n d s) = pin s"
    "rest (set_block_data n d s) = rest s" "cached (set_block_data n d s) = cached s"
    using b(4) h find_block_held_iff(2) [OF ok b(1)] by (auto simp: set_block_data_def)
qed

lemma device_write_props:
  assumes ok: "cache_ok s" and n: "n \<in> held s \<or> n \<notin> cached s" and len: "length d = BLOCK_SIZE"
  shows "cache_ok (device_write n d s)"
    "bview (device_write n d s) = (if n \<in> held s then bview s else (bview s)(n := d))"
    "held (device_write n d s) = held s" "pin (device_write n d s) = pin s"
    "cached (device_write n d s) = cached s"
    "rest (device_write n d s) = (rest s)\<lparr>disk := (disk s)(n := d), dlog := dlog s @ [(n, d)]\<rparr>"
proof -
  let ?s = "device_write n d s"
  have s': "blocks ?s = blocks s" "disk ?s = (disk s)(n := d)" by (simp_all add: device_write_def)
  have "block_ok ((disk s)(n := d)) b" if b: "b \<in> set (blocks s)" for b
  proof (cases "block_no b = n")
    case True
    then have "n \<in> held s" using n b by (auto simp: cached_def)
    then have "acquired b"
      using True b distinct_key_unique [OF cache_okD(1) [OF ok]] by (auto simp: held_def)
    then show ?thesis using cache_okD(3) [OF ok b] by (auto simp: block_ok_def)
  next
    case False
    then show ?thesis using cache_okD(3) [OF ok b] by (auto simp: block_ok_def)
  qed
  then show "cache_ok ?s" using ok len by (auto simp: cache_ok_def s' device_write_def)
  have f: "find_block m ?s = find_block m s" for m by (simp add: find_block_def s')
  show "bview ?s = (if n \<in> held s then bview s else (bview s)(n := d))"
  proof (cases "n \<in> held s")
    case True
    then have "n \<in> cached s" using held_cached by blast
    then have "find_block n s \<noteq> None" by (simp add: find_block_None_iff)
    then show ?thesis using True by (auto simp: bview_def f s' fun_eq_iff split: option.split)
  next
    case False
    then have "find_block n s = None" using n by (simp add: find_block_None_iff)
    then show ?thesis using False by (auto simp: bview_def f s' fun_eq_iff split: option.split)
  qed
qed (simp_all add: device_write_def held_def pin_def cached_def rest_def)

section \<open>Sequences of device writes\<close>

text \<open>What the device holds after it has performed the writes of a list, in order.\<close>

definition apply_writes :: "(nat \<times> byte list) list \<Rightarrow> (nat \<Rightarrow> byte list) \<Rightarrow> nat \<Rightarrow> byte list" where
  "apply_writes ws dk = fold (\<lambda>(n, d) f. f(n := d)) ws dk"

lemma apply_writes_simps [simp]:
  "apply_writes [] dk = dk" "apply_writes ((n, d) # ws) dk = apply_writes ws (dk(n := d))"
  "apply_writes (ws @ ws') dk = apply_writes ws' (apply_writes ws dk)"
  by (simp_all add: apply_writes_def)

lemma apply_writes_other: "m \<notin> fst ` set ws \<Longrightarrow> apply_writes ws dk m = dk m"
  by (induction ws arbitrary: dk) auto

lemma apply_writes_in:
  "distinct (map fst ws) \<Longrightarrow> (n, d) \<in> set ws \<Longrightarrow> apply_writes ws dk n = d"
proof (induction ws arbitrary: dk)
  case (Cons w ws)
  obtain k e where w: "w = (k, e)" by fastforce
  show ?case
  proof (cases "(n, d) \<in> set ws")
    case True
    then show ?thesis using Cons by (simp add: w)
  next
    case False
    then have "n = k" "d = e" "n \<notin> fst ` set ws" using Cons.prems by (auto simp: w)
    then show ?thesis by (simp add: w apply_writes_other)
  qed
qed simp

lemma apply_writes_cong:
  "dk m = dk' m \<Longrightarrow> apply_writes ws dk m = apply_writes ws dk' m"
proof (induction ws arbitrary: dk dk')
  case (Cons w ws)
  obtain k e where w: "w = (k, e)" by fastforce
  have "(dk(k := e)) m = (dk'(k := e)) m" using Cons.prems by simp
  then show ?case unfolding w apply_writes_simps by (rule Cons.IH)
qed simp

lemma apply_writes_map:
  assumes "distinct ns" and "m \<in> set ns"
  shows "apply_writes (map (\<lambda>n. (n, f n)) ns) dk m = f m"
  using assms by (intro apply_writes_in) (auto simp: comp_def)

lemma length_apply_writes:
  "(\<And>n. length (dk n) = BLOCK_SIZE) \<Longrightarrow> (\<And>w. w \<in> set ws \<Longrightarrow> length (snd w) = BLOCK_SIZE) \<Longrightarrow>
    length (apply_writes ws dk n) = BLOCK_SIZE"
proof (induction ws arbitrary: dk)
  case (Cons w ws)
  obtain k e where w: "w = (k, e)" by fastforce
  have "length (apply_writes ws (dk(k := e)) n) = BLOCK_SIZE"
    using Cons.prems(1) Cons.prems(2) [of w] by (intro Cons.IH Cons.prems(2)) (auto simp: w)
  then show ?case by (simp add: w)
qed simp

section \<open>Copying blocks through the cache\<close>

fun copies :: "(nat \<times> nat) list \<Rightarrow> bcache \<Rightarrow> bcache res" where
  "copies [] s = Inr s"
| "copies ((f, t) # ps) s = rbind (copy_block f t s) (copies ps)"

lemma log_blocks_copies: "log_blocks to_no ns s = copies (zip ns [to_no..<to_no + length ns]) s"
proof (induction ns arbitrary: to_no s)
  case (Cons n ns)
  have "[to_no..<to_no + length (n # ns)] = to_no # [Suc to_no..<Suc to_no + length ns]"
    by (simp add: upt_conv_Cons del: upt_Suc)
  then show ?case by (simp add: Cons.IH [abs_def] del: upt_Suc)
qed simp

lemma restore_blocks_copies: "restore_blocks from_no ns s = copies (zip [from_no..<from_no + length ns] ns) s"
proof (induction ns arbitrary: from_no s)
  case (Cons n ns)
  have "[from_no..<from_no + length (n # ns)] = from_no # [Suc from_no..<Suc from_no + length ns]"
    by (simp add: upt_conv_Cons del: upt_Suc)
  then show ?case by (simp add: Cons.IH [abs_def] del: upt_Suc)
qed simp

lemma copy_block_props:
  assumes ok: "cache_ok s" and f: "f \<notin> held s" and t: "t \<notin> held s" and ft: "f \<noteq> t"
  obtains s' where "copy_block f t s = Inr s'" "cache_ok s'" "bview s' = (bview s)(t := bview s f)"
    "held s' = held s" "pin s' = pin s" "cached s' \<subseteq> insert f (insert t (cached s))"
    "rest s' = (rest s)\<lparr>disk := (disk s)(t := bview s f), dlog := dlog s @ [(t, bview s f)]\<rparr>"
proof -
  let ?d = "bview s f"
  from cache_acquire_props [OF ok f] obtain s1 where
    1: "cache_acquire f s = Inr s1" "cache_ok s1" "bview s1 = bview s" "held s1 = insert f (held s)"
      "pin s1 = pin s" "rest s1 = rest s" "cached s1 \<subseteq> insert f (cached s)" by metis
  have "t \<notin> held s1" using 1(4) t ft by auto
  from cache_acquire_props [OF 1(2) this] obtain s2 where
    2: "cache_acquire t s1 = Inr s2" "cache_ok s2" "bview s2 = bview s" "held s2 = insert t (insert f (held s))"
      "pin s2 = pin s" "rest s2 = rest s" "cached s2 \<subseteq> insert t (cached s1)"
    using 1 by metis
  have bd: "block_data f s2 = Inr ?d" using block_data_held [OF 2(2)] 2(3,4) by simp
  have len: "length ?d = BLOCK_SIZE" using ok by simp
  have h2: "t \<in> held s2" using 2(4) by simp
  note 3 = set_block_data_props [OF 2(2) h2 len]
  let ?s3 = "set_block_data t ?d s2"
  have "t \<in> held ?s3 \<or> t \<notin> cached ?s3" using 3(3) h2 by simp
  note 4 = device_write_props [OF 3(1) this len]
  let ?s4 = "device_write t ?d ?s3"
  have d4: "disk ?s4 = (disk s)(t := ?d)" using 4(6) 3(5) 2(6) by (simp add: rest_eq_iff device_write_def)
  have v4: "bview ?s4 = (bview s)(t := ?d)" "held ?s4 = insert t (insert f (held s))" "pin ?s4 = pin s"
    using 4 3 2 h2 by simp_all
  have "f \<in> pin ?s4 \<or> bview ?s4 f = disk ?s4 f"
    using bview_clean [OF ok f] ft by (auto simp: v4 d4)
  from cache_release_props [OF 4(1) _ this] obtain s5 where
    5: "cache_release f ?s4 = Inr s5" "cache_ok s5" "bview s5 = bview ?s4" "held s5 = held ?s4 - {f}"
      "pin s5 = pin ?s4" "rest s5 = rest ?s4" "cached s5 = cached ?s4" using v4 by auto
  have "disk s5 = disk ?s4" using 5(6) by (simp add: rest_eq_iff)
  then have "t \<in> pin s5 \<or> bview s5 t = disk s5 t" using 5(3) by (simp add: v4 d4)
  from cache_release_props [OF 5(2) _ this] obtain s6 where
    6: "cache_release t s5 = Inr s6" "cache_ok s6" "bview s6 = bview s5" "held s6 = held s5 - {t}"
      "pin s6 = pin s5" "rest s6 = rest s5" "cached s6 = cached s5" using 5(4) v4(2) ft by auto
  show ?thesis
  proof (rule that)
    show "copy_block f t s = Inr s6"
      by (simp add: copy_block_def 1(1) 2(1) bd 5(1) 6(1))
    show "held s6 = held s" using 6(4) 5(4) v4(2) f t ft by auto
    show "cached s6 \<subseteq> insert f (insert t (cached s))" using 6(7) 5(7) 4(5) 3(6) 2(7) 1(7) by auto
    show "rest s6 = (rest s)\<lparr>disk := (disk s)(t := ?d), dlog := dlog s @ [(t, ?d)]\<rparr>"
      using 6(6) 5(6) 4(6) 3(5) 2(6) by (simp add: rest_eq_iff)
  qed (use 6 5 v4 in simp_all)
qed

lemma copies_props:
  assumes "cache_ok s" and "distinct (map snd ps)" and "fst ` set ps \<inter> snd ` set ps = {}"
    and "(fst ` set ps \<union> snd ` set ps) \<inter> held s = {}"
  shows "\<exists>s'. copies ps s = Inr s' \<and> cache_ok s' \<and>
    bview s' = apply_writes (map (\<lambda>(f, t). (t, bview s f)) ps) (bview s) \<and>
    held s' = held s \<and> pin s' = pin s \<and> cached s' \<subseteq> cached s \<union> fst ` set ps \<union> snd ` set ps \<and>
    rest s' = (rest s)\<lparr>disk := apply_writes (map (\<lambda>(f, t). (t, bview s f)) ps) (disk s),
                       dlog := dlog s @ map (\<lambda>(f, t). (t, bview s f)) ps\<rparr>"
  using assms
proof (induction ps arbitrary: s)
  case Nil
  then show ?case by (auto simp: rest_def)
next
  case (Cons p ps)
  obtain f t where p: "p = (f, t)" by fastforce
  have ft: "f \<noteq> t" "f \<notin> held s" "t \<notin> held s" using Cons.prems(3,4) by (auto simp: p)
  from copy_block_props [OF Cons.prems(1) ft(2,3,1)] obtain s1 where
    1: "copy_block f t s = Inr s1" "cache_ok s1" "bview s1 = (bview s)(t := bview s f)"
    "held s1 = held s" "pin s1 = pin s" "cached s1 \<subseteq> insert f (insert t (cached s))"
    "rest s1 = (rest s)\<lparr>disk := (disk s)(t := bview s f), dlog := dlog s @ [(t, bview s f)]\<rparr>" by metis
  have "fst ` set ps \<inter> snd ` set ps = {}" "(fst ` set ps \<union> snd ` set ps) \<inter> held s1 = {}"
    "distinct (map snd ps)" using Cons.prems by (auto simp: 1(4))
  from Cons.IH [OF 1(2) this(3,1,2)] obtain s' where
    2: "copies ps s1 = Inr s'" "cache_ok s'"
    "bview s' = apply_writes (map (\<lambda>(f, t). (t, bview s1 f)) ps) (bview s1)"
    "held s' = held s1" "pin s' = pin s1" "cached s' \<subseteq> cached s1 \<union> fst ` set ps \<union> snd ` set ps"
    "rest s' = (rest s1)\<lparr>disk := apply_writes (map (\<lambda>(f, t). (t, bview s1 f)) ps) (disk s1),
                       dlog := dlog s1 @ map (\<lambda>(f, t). (t, bview s1 f)) ps\<rparr>" by blast
  have "bview s1 g = bview s g" if "g \<in> fst ` set ps" for g
    using that Cons.prems(3) by (auto simp: 1(3) p)
  then have m: "map (\<lambda>(f, t). (t, bview s1 f)) ps = map (\<lambda>(f, t). (t, bview s f)) ps"
    by (force simp: image_iff)
  have d1: "disk s1 = (disk s)(t := bview s f)" "dlog s1 = dlog s @ [(t, bview s f)]"
    using 1(7) by (simp_all add: rest_write_iff)
  show ?case
    using 1(1,4,5,6) 2 [unfolded m, unfolded 1(3,7) d1] by (auto simp: p)
qed

section \<open>The log\<close>

text \<open>
  The blocks recorded in the header, the blocks of the log area, and the invariant of the log between operations: the header
  records exactly the pinned blocks, each once, there is room for one more, none of them lies in the
  log area, and the header on the disk is empty.
\<close>

definition logged :: "bcache \<Rightarrow> nat list" where
  "logged s = take (hnum (header s)) (hblocks (header s))"

definition log_area :: "SuperBlock \<Rightarrow> nat set" where
  "log_area sb = {log_start sb..<log_start sb + LOG_MAX_SIZE}"

text \<open>The first \<open>n\<close> blocks behind the log header.\<close>

definition log_slots :: "SuperBlock \<Rightarrow> nat \<Rightarrow> nat list" where
  "log_slots sb n = [log_start sb + 1..<log_start sb + 1 + n]"

lemma log_slots_props [simp]:
  "length (log_slots sb n) = n" "distinct (log_slots sb n)" "log_start sb \<notin> set (log_slots sb n)"
  "i < n \<Longrightarrow> log_slots sb n ! i = log_start sb + 1 + i"
  unfolding log_slots_def length_upt set_upt by (simp_all add: nth_append del: upt_Suc)

lemma log_slots_area: "n < LOG_MAX_SIZE \<Longrightarrow> set (log_slots sb n) \<subseteq> log_area sb - {log_start sb}"
  unfolding log_slots_def set_upt by (auto simp: log_area_def)

definition log_ok :: "bcache \<Rightarrow> bool" where
  "log_ok s \<longleftrightarrow> LogHeader_ok (header s) \<and> hnum (header s) < LOG_MAX_SIZE
     \<and> distinct (logged s) \<and> set (logged s) = pin s \<and> pin s \<inter> log_area (sblock s) = {}
     \<and> held s \<inter> log_area (sblock s) = {} \<and> log_start (sblock s) \<notin> cached s
     \<and> \<not> locked (log_lock s) \<and> hnum (dec_LogHeader (disk s (log_start (sblock s)))) = 0"

definition commit_writes :: "bcache \<Rightarrow> (nat \<times> byte list) list" where
  "commit_writes s = zip (log_slots (sblock s) (length (logged s))) (map (bview s) (logged s))
     @ [(log_start (sblock s), enc_LogHeader (header s))]
     @ map (\<lambda>n. (n, bview s n)) (logged s)
     @ [(log_start (sblock s), enc_LogHeader ((header s)\<lparr>hnum := 0\<rparr>))]"

lemma install_blocks_props:
  assumes "cache_ok s" and "set ns \<inter> held s = {}" and "distinct ns" and "\<not> locked l" and "log_lock s = l\<lparr>locked := True\<rparr>"
  shows "\<exists>s'. install_blocks ns s = Inr s' \<and> cache_ok s' \<and> bview s' = bview s \<and> held s' = held s
    \<and> pin s' = pin s - set ns \<and> cached s' \<subseteq> cached s \<union> set ns
    \<and> rest s' = (rest s)\<lparr>disk := apply_writes (map (\<lambda>n. (n, bview s n)) ns) (disk s),
                         dlog := dlog s @ map (\<lambda>n. (n, bview s n)) ns\<rparr>"
  using assms
proof (induction ns arbitrary: s)
  case Nil
  then show ?case by (auto simp: rest_def)
next
  case (Cons n ns)
  let ?d = "bview s n"
  have nh: "n \<notin> held s" using Cons.prems(2) by simp
  from cache_acquire_props [OF Cons.prems(1) nh] obtain s1 where
    1: "cache_acquire n s = Inr s1" "cache_ok s1" "bview s1 = bview s" "held s1 = insert n (held s)"
      "pin s1 = pin s" "rest s1 = rest s" "cached s1 \<subseteq> insert n (cached s)" by metis
  have bd: "block_data n s1 = Inr ?d" using block_data_held [OF 1(2)] 1(3,4) by simp
  have lk: "log_lock s1 = l\<lparr>locked := True\<rparr>" using 1(6) Cons.prems(5) by (simp add: rest_eq_iff)
  define s2 where "s2 = device_write n ?d s1"
  have "n \<in> held s1 \<or> n \<notin> cached s1" using 1(4) by simp
  note 2 = device_write_props [OF 1(2) this, of ?d, folded s2_def]
  have len: "length ?d = BLOCK_SIZE" using Cons.prems(1) by simp
  have h2: "n \<in> held s2" using 2(3) [OF len] 1(4) by simp
  from find_held [OF 2(1) [OF len] h2] obtain b where
    b: "find_block n s2 = Some b" "b \<in> set (blocks s2)" "block_no b = n" "acquired b" by blast
  let ?f = "\<lambda>b. b\<lparr>pinned := False\<rparr>"
  have fok: "block_ok (disk s2) (?f b)" "block_no (?f b) = n"
    using cache_okD(3) [OF 2(1) [OF len] b(2)] b by (auto simp: block_ok_def)
  define s3 where "s3 = upd_block n ?f s2"
  note 3 = upd_block_props [OF 2(1) [OF len] b(1), of ?f, OF fok(2,1), simplified, folded s3_def]
  have "bview s2 n = data b" using b(1) by (simp add: bview_def)
  moreover have "bview s2 = bview s" using 2(2) [OF len] 1(3,4) by simp
  ultimately have db: "data b = bview s n" by simp
  have v3: "bview s3 = bview s" "held s3 = insert n (held s)" "pin s3 = pin s - {n}"
    using 3(3,4,5) 2(2-4) [OF len] 1(3-5) b(4) by (auto simp: db)
  have r3: "rest s3 = (rest s)\<lparr>disk := (disk s)(n := ?d), dlog := dlog s @ [(n, ?d)]\<rparr>"
    using 3(6) 2(6) [OF len] 1(6) by (simp add: rest_eq_iff)
  then have "n \<in> pin s3 \<or> bview s3 n = disk s3 n" by (simp add: v3 rest_write_iff)
  from cache_release_props [OF 3(1) _ this] obtain s4 where
    4: "cache_release n s3 = Inr s4" "cache_ok s4" "bview s4 = bview s3" "held s4 = held s3 - {n}"
      "pin s4 = pin s3" "rest s4 = rest s3" "cached s4 = cached s3" using v3 by auto
  have s2': "log_lock_acquire (device_write n ?d (log_lock_release s1)) = Inr s2"
    using Cons.prems(4) lk lock_cycle [OF Cons.prems(4)]
    by (simp add: log_lock_acquire_def log_lock_release_def device_write_def s2_def)
  have step: "install_blocks (n # ns) s = install_blocks ns s4"
    by (simp add: 1(1) bd s2' s3_def [symmetric] 4(1))
  have v4: "bview s4 = bview s" "held s4 = held s" "pin s4 = pin s - {n}"
    using 4(3-5) v3 nh by auto
  have "set ns \<inter> held s4 = {}" "distinct ns" using Cons.prems(2,3) by (auto simp: v4)
  moreover have "log_lock s4 = l\<lparr>locked := True\<rparr>"
    using 4(6) r3 Cons.prems(5) by (simp add: rest_eq_iff rest_write_iff)
  ultimately obtain s' where
    5: "install_blocks ns s4 = Inr s'" "cache_ok s'" "bview s' = bview s4" "held s' = held s4"
      "pin s' = pin s4 - set ns" "cached s' \<subseteq> cached s4 \<union> set ns"
      "rest s' = (rest s4)\<lparr>disk := apply_writes (map (\<lambda>n. (n, bview s4 n)) ns) (disk s4),
                         dlog := dlog s4 @ map (\<lambda>n. (n, bview s4 n)) ns\<rparr>"
    using Cons.IH [OF 4(2)] Cons.prems(4) by blast
  have d4: "disk s4 = (disk s)(n := ?d)" "dlog s4 = dlog s @ [(n, ?d)]"
    using 4(6) r3 by (simp_all add: rest_eq_iff rest_write_iff)
  have "cached s4 \<subseteq> insert n (cached s)" using 4(7) 3(7) 2(5) [OF len] 1(7) by auto
  then show ?case
    unfolding step using 5 [unfolded v4 d4 4(6) r3] by auto
qed

lemma log_lock_acquire_ok:
  "\<not> locked (log_lock s) \<Longrightarrow> log_lock_acquire s = Inr (s\<lparr>log_lock := (log_lock s)\<lparr>locked := True\<rparr>\<rparr>)"
  by (simp add: log_lock_acquire_def)

text \<open>Fields that neither the cached blocks nor the device depend on.\<close>

lemma cache_ok_fields [simp]:
  "cache_ok (s\<lparr>log_lock := l\<rparr>) = cache_ok s" "cache_ok (s\<lparr>outstanding := i\<rparr>) = cache_ok s"
  "cache_ok (s\<lparr>header := h\<rparr>) = cache_ok s" "cache_ok (s\<lparr>log_sem := m\<rparr>) = cache_ok s"
  "cache_ok (s\<lparr>bitmap_lock := l\<rparr>) = cache_ok s"
  by (simp_all add: cache_ok_def)

lemma find_block_fields [simp]:
  "find_block n (s\<lparr>log_lock := l\<rparr>) = find_block n s" "find_block n (s\<lparr>outstanding := i\<rparr>) = find_block n s"
  "find_block n (s\<lparr>header := h\<rparr>) = find_block n s" "find_block n (s\<lparr>log_sem := m\<rparr>) = find_block n s"
  "find_block n (s\<lparr>bitmap_lock := l\<rparr>) = find_block n s"
  by (simp_all add: find_block_def)

lemma bview_fields [simp]:
  "bview (s\<lparr>log_lock := l\<rparr>) = bview s" "bview (s\<lparr>outstanding := i\<rparr>) = bview s"
  "bview (s\<lparr>header := h\<rparr>) = bview s" "bview (s\<lparr>log_sem := m\<rparr>) = bview s"
  "bview (s\<lparr>bitmap_lock := l\<rparr>) = bview s"
  by (simp_all add: bview_def fun_eq_iff split: option.split)

lemma sets_fields [simp]:
  "held (s\<lparr>log_lock := l\<rparr>) = held s" "held (s\<lparr>outstanding := i\<rparr>) = held s"
  "held (s\<lparr>header := h\<rparr>) = held s" "held (s\<lparr>log_sem := m\<rparr>) = held s" "held (s\<lparr>bitmap_lock := l\<rparr>) = held s"
  "pin (s\<lparr>log_lock := l\<rparr>) = pin s" "pin (s\<lparr>outstanding := i\<rparr>) = pin s"
  "pin (s\<lparr>header := h\<rparr>) = pin s" "pin (s\<lparr>log_sem := m\<rparr>) = pin s" "pin (s\<lparr>bitmap_lock := l\<rparr>) = pin s"
  "cached (s\<lparr>log_lock := l\<rparr>) = cached s" "cached (s\<lparr>outstanding := i\<rparr>) = cached s"
  "cached (s\<lparr>header := h\<rparr>) = cached s" "cached (s\<lparr>log_sem := m\<rparr>) = cached s"
  "cached (s\<lparr>bitmap_lock := l\<rparr>) = cached s"
  by (simp_all add: held_def pin_def cached_def)

lemma logged_length: "log_ok s \<Longrightarrow> length (logged s) = hnum (header s)"
  by (auto simp: log_ok_def logged_def LogHeader_ok_def)

lemma zip_map_swap:
  "length xs = length ys \<Longrightarrow> map (\<lambda>(f, t). (t, g f)) (zip xs ys) = zip ys (map g xs)"
  by (induction xs ys rule: list_induct2) auto

lemma logged_area: "log_ok s \<Longrightarrow> set (logged s) \<inter> log_area (sblock s) = {}"
  by (auto simp: log_ok_def)

lemma cache_end_op_props:
  assumes ok: "cache_ok s" and lok: "log_ok s" and out: "outstanding s = 1"
    and h: "set (logged s) \<inter> held s = {}" and q: "quiet_sem v (log_sem s)"
  obtains s' where "cache_end_op s = Inr s'" "cache_ok s'" "log_ok s'" "pin s' = {}" "held s' = held s"
    "logged s' = []" "outstanding s' = 0" "dlog s' = dlog s @ commit_writes s"
    "disk s' = apply_writes (commit_writes s) (disk s)"
    "\<And>m. m \<notin> log_area (sblock s) \<Longrightarrow> bview s' m = bview s m" "log_sem s' = log_sem s" "sblock s' = sblock s"
proof -
  let ?ns = "logged s" and ?ls = "log_start (sblock s)" and ?l = "log_lock s"
  define tos where "tos = log_slots (sblock s) (length ?ns)"
  let ?W1 = "zip tos (map (bview s) ?ns)" and ?W3 = "map (\<lambda>n. (n, bview s n)) ?ns"
  define s0 where "s0 = s\<lparr>log_lock := ?l\<lparr>locked := True\<rparr>, outstanding := 0\<rparr>"
  have unl: "\<not> locked ?l" using lok by (simp add: log_ok_def)
  have tlen: "length ?ns = length tos" by (simp add: tos_def)
  have s0: "cache_ok s0" "bview s0 = bview s" "held s0 = held s" "pin s0 = pin s" "cached s0 = cached s"
    using ok by (simp_all add: s0_def)
  have dist: "distinct ?ns" "set ?ns = pin s" using lok by (auto simp: log_ok_def)
  have zs: "map fst (zip ?ns tos) = ?ns" "map snd (zip ?ns tos) = tos" using tlen by simp_all
  have zs': "fst ` set (zip ?ns tos) = set ?ns" "snd ` set (zip ?ns tos) = set tos"
    using zs by (metis list.set_map)+
  have tarea: "set tos \<subseteq> log_area (sblock s) - {?ls}" 
    unfolding tos_def using lok logged_length [OF lok] by (intro log_slots_area) (simp add: log_ok_def)
  have disj: "set ?ns \<inter> set tos = {}" "set tos \<inter> held s = {}" "?ls \<notin> set tos" "?ls \<notin> set ?ns" "?ls \<notin> held s"
    using tarea logged_area [OF lok] lok by (auto simp: log_ok_def log_area_def)
  have "distinct (map snd (zip ?ns tos))" unfolding zs by (simp add: tos_def)
  moreover have "fst ` set (zip ?ns tos) \<inter> snd ` set (zip ?ns tos) = {}" using disj(1) unfolding zs' .
  moreover have "(fst ` set (zip ?ns tos) \<union> snd ` set (zip ?ns tos)) \<inter> held s0 = {}"
    unfolding zs' s0 using disj(2) h by auto
  ultimately obtain s1 where 1: "copies (zip ?ns tos) s0 = Inr s1" "cache_ok s1"
      "bview s1 = apply_writes ?W1 (bview s)" "held s1 = held s" "pin s1 = pin s"
      "cached s1 \<subseteq> cached s \<union> set ?ns \<union> set tos"
      "rest s1 = (rest s0)\<lparr>disk := apply_writes ?W1 (disk s0), dlog := dlog s0 @ ?W1\<rparr>"
    using copies_props [OF s0(1), of "zip ?ns tos"] unfolding zs' s0 zip_map_swap [OF tlen] by auto
  have r1: "disk s1 = apply_writes ?W1 (disk s)" "dlog s1 = dlog s @ ?W1" "header s1 = header s" "sblock s1 = sblock s"
    "log_lock s1 = ?l\<lparr>locked := True\<rparr>" "outstanding s1 = 0" "log_sem s1 = log_sem s"
    "bitmap_lock s1 = bitmap_lock s"
    using 1(7) by (simp_all add: rest_write_iff s0_def)
  have hok: "LogHeader_ok (header s)" "LogHeader_ok ((header s)\<lparr>hnum := 0\<rparr>)" using lok by (auto simp: log_ok_def LogHeader_ok_def)
  have W1fst: "fst ` set ?W1 = set tos" using tlen by (simp flip: set_map)
  have ls1: "?ls \<in> held s1 \<or> ?ls \<notin> cached s1" using 1(6) disj(3,4) lok by (auto simp: log_ok_def)
  note 2 = device_write_props [OF 1(2) ls1 logheader.length_enc [OF hok(1)]]
  let ?s2 = "write_header s1"
  have s2: "?s2 = device_write ?ls (enc_LogHeader (header s)) s1" by (simp add: write_header_def r1)
  have v2: "bview ?s2 n = bview s n" if "n \<in> set ?ns" for n
    using that 2(2) disj 1(4) apply_writes_other [of n ?W1 "bview s"] W1fst by (auto simp: s2 1(3))
  have "set ?ns \<inter> held ?s2 = {}" "log_lock ?s2 = ?l\<lparr>locked := True\<rparr>"
    using h 2(3) 1(4) by (auto simp: s2 r1 device_write_def)
  from install_blocks_props [OF _ this(1) dist(1) unl this(2)] 2(1) obtain s3 where
    3: "install_blocks ?ns ?s2 = Inr s3" "cache_ok s3" "bview s3 = bview ?s2" "held s3 = held ?s2"
    "pin s3 = pin ?s2 - set ?ns" "cached s3 \<subseteq> cached ?s2 \<union> set ?ns"
    "rest s3 = (rest ?s2)\<lparr>disk := apply_writes (map (\<lambda>n. (n, bview ?s2 n)) ?ns) (disk ?s2),
                         dlog := dlog ?s2 @ map (\<lambda>n. (n, bview ?s2 n)) ?ns\<rparr>"
    unfolding s2 by blast
  have W3: "map (\<lambda>n. (n, bview ?s2 n)) ?ns = ?W3" using v2 by simp
  have r3: "disk s3 = apply_writes ?W3 (disk ?s2)" "dlog s3 = dlog ?s2 @ ?W3" "header s3 = header s"
    "sblock s3 = sblock s" "log_lock s3 = ?l\<lparr>locked := True\<rparr>" "outstanding s3 = 0" "log_sem s3 = log_sem s"
    using 3(7) r1 unfolding W3 by (simp_all add: rest_write_iff s2 device_write_def)
  let ?h0 = "(header s)\<lparr>hnum := 0\<rparr>"
  let ?s4 = "s3\<lparr>header := ?h0\<rparr>"
  have ok4: "cache_ok ?s4" using 3(2) by simp
  have ls4: "?ls \<in> held ?s4 \<or> ?ls \<notin> cached ?s4"
    using 3(6) 2(5) 1(6) disj(3,4) lok by (auto simp: s2 log_ok_def)
  note 5 = device_write_props [OF ok4 ls4 logheader.length_enc [OF hok(2)]]
  let ?s5 = "device_write ?ls (enc_LogHeader ?h0) ?s4"
  let ?s' = "?s5\<lparr>log_lock := ?l\<rparr>"
  have s5: "write_header ?s4 = ?s5" "log_sem ?s5 = log_sem s" "log_lock ?s5 = ?l\<lparr>locked := True\<rparr>"
    by (simp_all add: write_header_def r3 device_write_def)
  have disk': "disk ?s' = apply_writes (commit_writes s) (disk s)" "dlog ?s' = dlog s @ commit_writes s"
    by (simp_all add: device_write_def r3 s2 r1 commit_writes_def tos_def)
  show ?thesis
  proof (rule that [of ?s'])
    have lb: "log_blocks (?ls + 1) ?ns s0 = Inr s1"
      using 1(1) unfolding log_blocks_copies tos_def log_slots_def .
    have "take (hnum (header ?s2)) (hblocks (header ?s2)) = ?ns" by (simp add: s2 device_write_def r1 logged_def)
    then show "cache_end_op s = Inr ?s'"
      using lb 3(1) s5 out lock_cycle [OF unl] sem_post_all_quiet [OF q]
      by (simp add: cache_end_op_def log_lock_acquire_ok [OF unl] s0_def logged_def Let_def r3 log_lock_release_def)
    have "?ls \<notin> cached ?s'" using ls4 5(3,5) 3(4) 2(3) 1(4) disj(5) by (auto simp: s2)
    then show "log_ok ?s'"
      using hok unl lok 5 3 2 1 r3 dist(2) by (simp add: log_ok_def logged_def s2 device_write_def logheader.dec_enc)
    show "bview ?s' m = bview s m" if "m \<notin> log_area (sblock s)" for m
    proof -
      have "m \<noteq> ?ls" "m \<notin> fst ` set ?W1" using that tarea W1fst by (auto simp: log_area_def)
      then show ?thesis using 5(2) 3(3) 2(2) apply_writes_other [of m ?W1 "bview s"] by (simp add: s2 1(3))
    qed
    show "cache_ok ?s'" using 5(1) by simp
    show "pin ?s' = {}" using 5(4) 3(5) 2(4) 1(5) dist(2) by (simp add: s2)
    show "held ?s' = held s" using 5(3) 3(4) 2(3) 1(4) by (simp add: s2)
  qed (use disk' r3 in \<open>simp_all add: logged_def device_write_def\<close>)
qed

section \<open>Recovery after a crash\<close>

lemma clear_header_ok:
  assumes "length bs = LOG_MAX_SIZE"
  shows "LogHeader_ok \<lparr>hnum = 0, hblocks = clear_header_blocks bs\<rparr>"
proof -
  let ?bs = "patch 0 (replicate LOG_MAX_SIZE 0) (enc_ints 8 bs)"
  have "length ?bs = 504" using assms by simp
  then show ?thesis using dec_ints_bound [of 63 8 ?bs] by (simp add: LogHeader_ok_def clear_header_blocks_def)
qed

lemma init_bcache_props:
  assumes len: "\<And>n. length (dev n) = BLOCK_SIZE"
    and h: "dec_LogHeader (dev (log_start sb)) = hdr" and ns: "ns = take (hnum hdr) (hblocks hdr)"
    and room: "length ns < LOG_MAX_SIZE" and dist: "distinct ns" and area: "set ns \<inter> log_area sb = {}"
  obtains r where "init_bcache sb dev = Inr r" "cache_ok r" "log_ok r" "held r = {}" "logged r = []" "sblock r = sb"
    "outstanding r = 0"
    "\<And>m. m \<notin> log_area sb \<Longrightarrow> bview r m =
       apply_writes (zip ns (map dev (log_slots sb (length ns)))) dev m"
proof -
  let ?ls = "log_start sb"
  define fs where "fs = log_slots sb (length ns)"
  let ?W = "zip ns (map dev fs)"
  define s0 where "s0 = \<lparr>sblock = sb, disk = dev, dlog = [], cache_lock = \<lparr>locked = False\<rparr>, log_lock = \<lparr>locked = False\<rparr>,
               bitmap_lock = \<lparr>locked = False\<rparr>, blocks = [], header = hdr,
               block_num = 0, outstanding = 0, log_sem = init_sem 0\<rparr>"
  have flen: "length fs = length ns" by (simp add: fs_def)
  have farea: "set fs \<subseteq> log_area sb - {?ls}"
    using room unfolding fs_def by (rule log_slots_area)
  have s0: "cache_ok s0" "held s0 = {}" "pin s0 = {}" "cached s0 = {}" "bview s0 = dev"
    using len by (auto simp: s0_def cache_ok_def held_def pin_def cached_def bview_def find_block_def)
  have zs: "map snd (zip fs ns) = ns" "map fst (zip fs ns) = fs" using flen by simp_all
  have zs': "fst ` set (zip fs ns) = set fs" "snd ` set (zip fs ns) = set ns" using zs by (metis list.set_map)+
  have "distinct (map snd (zip fs ns))" unfolding zs using dist .
  moreover have "fst ` set (zip fs ns) \<inter> snd ` set (zip fs ns) = {}" unfolding zs' using farea area by auto
  moreover have "(fst ` set (zip fs ns) \<union> snd ` set (zip fs ns)) \<inter> held s0 = {}" unfolding s0 by simp
  ultimately obtain s1 where 1: "copies (zip fs ns) s0 = Inr s1" "cache_ok s1"
      "bview s1 = apply_writes ?W dev" "held s1 = {}" "pin s1 = {}" "cached s1 \<subseteq> set fs \<union> set ns"
      "rest s1 = (rest s0)\<lparr>disk := apply_writes ?W (disk s0), dlog := dlog s0 @ ?W\<rparr>"
    using copies_props [OF s0(1), of "zip fs ns"] unfolding zs' s0 zip_map_swap [OF flen] by auto
  let ?h = "\<lparr>hnum = 0, hblocks = clear_header_blocks (hblocks (header s1))\<rparr>"
  let ?s2 = "s1\<lparr>header := ?h\<rparr>"
  have r1: "sblock s1 = sb" "log_lock s1 = \<lparr>locked = False\<rparr>" "outstanding s1 = 0" using 1(7) by (simp_all add: rest_write_iff s0_def)
  have "?ls \<in> log_area sb" by (simp add: log_area_def)
  then have "?ls \<notin> cached s1" using 1(6) farea area by blast
  then have ls: "?ls \<in> held ?s2 \<or> ?ls \<notin> cached ?s2" by simp
  have ok2: "cache_ok ?s2" using 1(2) by simp
  have hl: "length (hblocks hdr) = LOG_MAX_SIZE" using logheader.ok_dec [OF len, of ?ls] h by (simp add: LogHeader_ok_def)
  moreover have "header s1 = hdr" using 1(7) by (simp add: rest_write_iff s0_def)
  ultimately have hok: "LogHeader_ok ?h" using clear_header_ok by simp
  note 2 = device_write_props [OF ok2 ls logheader.length_enc [OF hok]]
  let ?r = "device_write ?ls (enc_LogHeader ?h) ?s2"
  show ?thesis
  proof (rule that [of ?r])
    have "restore_blocks (?ls + 1) ns s0 = Inr s1" using 1(1) unfolding restore_blocks_copies fs_def log_slots_def .
    moreover have "\<not> LOG_MAX_SIZE < hnum hdr" using room hl unfolding ns by simp
    ultimately show "init_bcache sb dev = Inr ?r"
      using h ns by (simp add: init_bcache_def read_header_def s0_def Let_def write_header_def r1 device_write_def)
    show "log_ok ?r"
      using 2(3-5) 1(4,5) \<open>?ls \<notin> cached s1\<close> hok r1
      by (simp add: log_ok_def logged_def logheader.dec_enc device_write_def)
    show "bview ?r m = apply_writes (zip ns (map dev (log_slots sb (length ns)))) dev m"
      if "m \<notin> log_area sb" for m
      using that 2(2) 1(4) by (auto simp: 1(3) fs_def [symmetric] log_area_def)
  qed (use 2 1 r1 in \<open>simp_all add: logged_def device_write_def\<close>)
qed

lemma init_bcache_empty_log:
  assumes "\<And>n. length (dev n) = BLOCK_SIZE" and "hnum (dec_LogHeader (dev (log_start sb))) = 0"
  obtains r where "init_bcache sb dev = Inr r" "cache_ok r" "log_ok r" "held r = {}" "logged r = []" "sblock r = sb"
    "outstanding r = 0" "\<And>m. m \<notin> log_area sb \<Longrightarrow> bview r m = dev m"
  using init_bcache_props [of dev sb "dec_LogHeader (dev (log_start sb))" "[]", OF assms(1) refl] assms(2)
  by simp metis

text \<open>
  The device after the first \<open>k\<close> writes of a commit: up to the header write nothing but the log area has changed; after it the log
  holds the new content of every logged block, and the last write empties the header again.
\<close>

lemma crash_before_header:
  assumes lok: "log_ok s" and k: "k \<le> length (logged s)" and m: "m \<notin> set (log_slots (sblock s) (length (logged s)))"
  shows "apply_writes (take k (commit_writes s)) dk m = dk m"
proof -
  let ?W = "zip (log_slots (sblock s) (length (logged s))) (map (bview s) (logged s))"
  have "take k (commit_writes s) = take k ?W" using k by (simp add: commit_writes_def)
  moreover have "fst ` set (take k ?W) \<subseteq> set (log_slots (sblock s) (length (logged s)))"
    by (auto dest!: in_set_takeD set_zip_leftD)
  ultimately show ?thesis using m by (auto intro: apply_writes_other)
qed

lemma crash_after_header:
  fixes dk :: "nat \<Rightarrow> byte list"
  assumes lok: "log_ok s" and k: "length (logged s) < k"
  defines "dk' \<equiv> apply_writes (take k (commit_writes s)) dk"
  shows "dk' (log_start (sblock s)) = enc_LogHeader (if k < length (commit_writes s) then header s else (header s)\<lparr>hnum := 0\<rparr>)"
    "map dk' (log_slots (sblock s) (length (logged s))) = map (bview s) (logged s)"
    "m \<notin> set (logged s) \<Longrightarrow> m \<notin> log_area (sblock s) \<Longrightarrow> dk' m = dk m"
    "length (commit_writes s) \<le> k \<Longrightarrow> m \<in> set (logged s) \<Longrightarrow> dk' m = bview s m"
proof -
  let ?ns = "logged s" and ?ls = "log_start (sblock s)"
  let ?tos = "log_slots (sblock s) (length ?ns)"
  let ?W1 = "zip ?tos (map (bview s) ?ns)" and ?W3 = "map (\<lambda>n. (n, bview s n)) ?ns"
  let ?D = "(apply_writes ?W1 dk)(?ls := enc_LogHeader (header s))"
  let ?j = "k - length ?ns - 1"
  let ?fin = "if k < length (commit_writes s) then [] else [(?ls, enc_LogHeader ((header s)\<lparr>hnum := 0\<rparr>))]"
  have room: "length ?ns < LOG_MAX_SIZE" using lok logged_length [OF lok] by (simp add: log_ok_def)
  have tos: "set ?tos \<subseteq> log_area (sblock s) - {?ls}" using log_slots_area [OF room] .
  have ls: "?ls \<in> log_area (sblock s)" by (simp add: log_area_def)
  have dis: "set ?ns \<inter> log_area (sblock s) = {}" "distinct ?ns"
    using logged_area [OF lok] lok by (auto simp: log_ok_def)
  have "take k (commit_writes s) = ?W1 @ (?ls, enc_LogHeader (header s)) # take ?j ?W3 @ ?fin"
    using k by (auto simp: commit_writes_def take_Cons' take_map min_def)
  then have dk': "dk' = apply_writes ?fin (apply_writes (take ?j ?W3) ?D)" by (simp add: dk'_def)
  have w3: "fst ` set (take ?j ?W3) \<subseteq> set ?ns" by (auto dest: in_set_takeD)
  have fin: "m \<noteq> ?ls \<Longrightarrow> apply_writes ?fin f m = f m" for f m by auto
  have out: "m \<notin> set ?ns \<Longrightarrow> apply_writes (take ?j ?W3) ?D m = ?D m" for m
    using w3 by (intro apply_writes_other) auto
  have "?ls \<notin> set ?ns" using ls dis by auto
  from out [OF this] show "dk' ?ls = enc_LogHeader (if k < length (commit_writes s) then header s else (header s)\<lparr>hnum := 0\<rparr>)"
    by (simp add: dk')
  have W1: "fst ` set ?W1 = set ?tos" by (simp flip: set_map)
  show "map dk' ?tos = map (bview s) ?ns"
  proof (rule nth_equalityI)
    fix i assume "i < length (map dk' ?tos)"
    then have i: "i < length ?ns" by simp
    then have t: "?tos ! i \<in> set ?tos" by (metis log_slots_props(1) nth_mem)
    have tn: "?tos ! i \<noteq> ?ls" "?tos ! i \<notin> set ?ns" using t tos dis by blast+
    have "(?tos ! i, bview s (?ns ! i)) \<in> set ?W1" using i by (force simp: set_zip)
    then have "apply_writes ?W1 dk (?tos ! i) = bview s (?ns ! i)" by (intro apply_writes_in) simp_all
    then have "dk' (?tos ! i) = bview s (?ns ! i)" using fin [OF tn(1)] out [OF tn(2)] tn by (simp add: dk')
    then show "map dk' ?tos ! i = map (bview s) ?ns ! i" using i by (simp del: log_slots_props(4))
  qed simp
  show "dk' m = dk m" if "m \<notin> set ?ns" "m \<notin> log_area (sblock s)"
  proof -
    have "m \<noteq> ?ls" "m \<notin> fst ` set ?W1" using that ls tos W1 by auto
    then show ?thesis using fin out [OF that(1)] apply_writes_other [of m ?W1 dk] by (simp add: dk')
  qed
  show "dk' m = bview s m" if "length (commit_writes s) \<le> k" "m \<in> set ?ns"
  proof -
    have "take ?j ?W3 = ?W3" using that(1) by (simp add: commit_writes_def)
    moreover have "m \<noteq> ?ls" using that(2) ls dis by auto
    ultimately show ?thesis using that(2) dis(2) fin apply_writes_map by (simp add: dk')
  qed
qed

lemma length_commit_disk:
  assumes "cache_ok s" and "log_ok s"
  shows "length (apply_writes (take k (commit_writes s)) (disk s) n) = BLOCK_SIZE"
proof (rule length_apply_writes)
  show "length (disk s m) = BLOCK_SIZE" for m using cache_okD(4) [OF assms(1)] .
  have "LogHeader_ok (header s)" "LogHeader_ok ((header s)\<lparr>hnum := 0\<rparr>)"
    using assms(2) by (auto simp: log_ok_def LogHeader_ok_def)
  note e = this [THEN logheader.length_enc]
  show "length (snd w) = BLOCK_SIZE" if "w \<in> set (take k (commit_writes s))" for w
  proof -
    obtain a b where w: "w = (a, b)" by fastforce
    show ?thesis using in_set_takeD [OF that] e assms(1) by (auto simp: w commit_writes_def dest!: set_zip_rightD)
  qed
qed

lemma crash_recovery_props:
  assumes ok: "cache_ok s" and lok: "log_ok s"
  obtains r where "init_bcache (sblock s) (apply_writes (take k (commit_writes s)) (disk s)) = Inr r"
    "cache_ok r" "log_ok r" "logged r = []"
    "\<And>m. m \<notin> log_area (sblock s) \<Longrightarrow> bview r m =
       (if length (logged s) < k \<and> m \<in> set (logged s) then bview s m else disk s m)"
proof -
  let ?dk = "apply_writes (take k (commit_writes s)) (disk s)"
  let ?ls = "log_start (sblock s)" and ?ns = "logged s"
  note len = length_commit_disk [OF ok lok, of k]
  have hok: "LogHeader_ok (header s)" "LogHeader_ok ((header s)\<lparr>hnum := 0\<rparr>)"
    using lok by (auto simp: log_ok_def LogHeader_ok_def)
  have room: "length ?ns < LOG_MAX_SIZE" using lok logged_length [OF lok] by (simp add: log_ok_def)
  consider (before) "k \<le> length ?ns" | (mid) "length ?ns < k" "k < length (commit_writes s)"
    | (after) "length ?ns < k" "length (commit_writes s) \<le> k" by linarith
  then show ?thesis
  proof cases
    case before
    have dk: "?dk m = disk s m" if "m \<notin> log_area (sblock s) - {?ls}" for m
      using crash_before_header [OF lok before] log_slots_area [OF room] that by blast
    then have "hnum (dec_LogHeader (?dk ?ls)) = 0" using lok by (simp add: log_ok_def)
    from init_bcache_empty_log [of ?dk "sblock s", OF len this] obtain r where
      r: "init_bcache (sblock s) ?dk = Inr r" "cache_ok r" "log_ok r" "logged r = []"
        "\<And>m. m \<notin> log_area (sblock s) \<Longrightarrow> bview r m = ?dk m" by metis
    then show ?thesis using that before dk by auto
  next
    case mid
    note c = crash_after_header [OF lok mid(1), where dk = "disk s"]
    have h: "dec_LogHeader (?dk ?ls) = header s" using c(1) mid(2) hok by (simp add: logheader.dec_enc)
    have m3: "zip ?ns (map ?dk (log_slots (sblock s) (length ?ns))) = map (\<lambda>n. (n, bview s n)) ?ns"
      unfolding c(2) by (simp add: zip_map2 zip_same_conv_map)
    from lok have "distinct ?ns" "set ?ns \<inter> log_area (sblock s) = {}" by (auto simp: log_ok_def)
    from init_bcache_props [of ?dk "sblock s", OF len h logged_def room this] obtain r where
      r: "init_bcache (sblock s) ?dk = Inr r" "cache_ok r" "log_ok r" "logged r = []"
        "\<And>m. m \<notin> log_area (sblock s) \<Longrightarrow> bview r m = apply_writes (map (\<lambda>n. (n, bview s n)) ?ns) ?dk m"
      unfolding m3 by blast
    have "apply_writes (map (\<lambda>n. (n, bview s n)) ?ns) ?dk m = (if m \<in> set ?ns then bview s m else disk s m)"
      if "m \<notin> log_area (sblock s)" for m
      using that apply_writes_map [OF \<open>distinct ?ns\<close>, of m] c(3) [of m]
        apply_writes_other [of m "map (\<lambda>n. (n, bview s n)) ?ns" ?dk] by (auto simp: image_image)
    with r mid that show ?thesis by auto
  next
    case after
    note c = crash_after_header [OF lok after(1), where dk = "disk s"]
    have "hnum (dec_LogHeader (?dk ?ls)) = 0" using c(1) after(2) hok by (simp add: logheader.dec_enc)
    from init_bcache_empty_log [of ?dk "sblock s", OF len this] obtain r where
      r: "init_bcache (sblock s) ?dk = Inr r" "cache_ok r" "log_ok r" "logged r = []"
        "\<And>m. m \<notin> log_area (sblock s) \<Longrightarrow> bview r m = ?dk m" by metis
    then show ?thesis using that after c(3,4) by auto
  qed
qed

section \<open>Reservation of log space\<close>

lemma cache_sync_props:
  assumes ok: "cache_ok s" and lok: "log_ok s" and h: "n \<in> held s" and n: "n \<notin> log_area (sblock s)" "n < U64"
    and room: "n \<in> set (logged s) \<or> (0 < rm c \<and> hnum (header s) + 1 < LOG_MAX_SIZE)"
  obtains s' where
    "cache_sync (Some c) n s = Inr (Some (if n \<in> set (logged s) then c else c\<lparr>rm := rm c - 1\<rparr>), s')"
    "cache_ok s'" "log_ok s'" "bview s' = bview s" "held s' = held s" "pin s' = insert n (pin s)" "cached s' = cached s"
    "logged s' = (if n \<in> set (logged s) then logged s else logged s @ [n])"
    "rest (s'\<lparr>header := header s\<rparr>) = rest s"
proof -
  from find_held [OF ok h] obtain b where
    b: "find_block n s = Some b" "b \<in> set (blocks s)" "block_no b = n" "acquired b" by blast
  let ?f = "\<lambda>b. b\<lparr>pinned := True\<rparr>"
  have fok: "block_no (?f b) = n" "block_ok (disk s) (?f b)"
    using cache_okD(3) [OF ok b(2)] b by (auto simp: block_ok_def)
  let ?u = "upd_block n ?f s" and ?hn = "hnum (header s)"
  note u = upd_block_props [OF ok b(1), of ?f, OF fok, simplified]
  have v: "bview ?u = bview s" "held ?u = held s"
    using u(3,4) b h by (auto simp: bview_def fun_eq_iff)
  have unl: "\<not> locked (log_lock s)" using lok by (simp add: log_ok_def)
  have ll: "log_lock_acquire s = Inr (s\<lparr>log_lock := (log_lock s)\<lparr>locked := True\<rparr>\<rparr>)"
    using log_lock_acquire_ok [OF unl] .
  have comm: "upd_block n f (s\<lparr>log_lock := l\<rparr>) = (upd_block n f s)\<lparr>log_lock := l\<rparr>" for f l
    by (simp add: upd_block_def)
  have uh: "header ?u = header s" "log_lock ?u = log_lock s" "sblock ?u = sblock s" "disk ?u = disk s"
    using u(6) by (simp_all add: rest_eq_iff)
  have hb: "length (hblocks (header s)) = LOG_MAX_SIZE" using lok by (simp add: log_ok_def LogHeader_ok_def)
  show ?thesis
  proof (cases "n \<in> set (logged s)")
    case True
    then have "n \<in> pin s" using lok by (simp add: log_ok_def)
    show ?thesis
    proof (rule that [of ?u])
      show "cache_sync (Some c) n s = Inr (Some (if n \<in> set (logged s) then c else c\<lparr>rm := rm c - 1\<rparr>), ?u)"
        using True lock_cycle [OF unl] uh
        by (simp add: cache_sync_def b(1) ll Let_def comm logged_def log_lock_release_def)
      show "log_ok ?u"
        using lok u v uh \<open>n \<in> pin s\<close> by (simp add: log_ok_def logged_def insert_absorb)
    qed (use u v uh True in \<open>simp_all add: logged_def rest_eq_iff\<close>)
  next
    case False
    let ?h = "\<lparr>hnum = ?hn + 1, hblocks = (hblocks (header s))[?hn := n]\<rparr>"
    let ?s = "?u\<lparr>header := ?h\<rparr>"
    have r: "0 < rm c" "?hn + 1 < LOG_MAX_SIZE" using False room by auto
    have lg: "logged ?s = logged s @ [n]"
      using r hb by (simp add: logged_def take_Suc_conv_app_nth)
    have hok: "LogHeader_ok ?h"
      using lok r n(2) set_update_subset_insert [of "hblocks (header s)" ?hn n] by (fastforce simp: log_ok_def LogHeader_ok_def)
    show ?thesis
    proof (rule that [of ?s])
      show "cache_sync (Some c) n s = Inr (Some (if n \<in> set (logged s) then c else c\<lparr>rm := rm c - 1\<rparr>), ?s)"
        using False r lock_cycle [OF unl] uh
        by (simp add: cache_sync_def b(1) ll Let_def comm logged_def log_lock_release_def)
      show "log_ok ?s"
        using lok u v uh hok lg r False n(1) by (auto simp: log_ok_def)
    qed (use u v uh False lg in \<open>simp_all add: rest_eq_iff\<close>)
  qed
qed

lemma begin_op_wait_full:
  assumes "log_is_full s" and "quiet_sem v (log_sem s)"
  shows "begin_op_wait s = Inl Blocked"
  using assms
proof (induction "nat v" arbitrary: s v)
  case 0
  then have "v = 0" by (simp add: quiet_sem_def)
  then show ?case using 0 sem_wait_quiet [of 0 "log_sem s"] by (subst begin_op_wait.simps) simp
next
  case (Suc k)
  then have v: "0 < v" "sval (log_sem s) = v" by (simp_all add: quiet_sem_def)
  let ?s = "s\<lparr>log_sem := (log_sem s)\<lparr>sval := v - 1\<rparr>\<rparr>"
  have "log_is_full ?s" "quiet_sem (v - 1) (log_sem ?s)" "k = nat (v - 1)"
    using Suc v by (auto simp: log_is_full_def intro: quiet_sval)
  from Suc.hyps(1) [OF this(3,1,2)] show ?case
    using Suc.prems v sem_wait_quiet [OF Suc.prems(2)] by (subst begin_op_wait.simps) simp
qed

lemma cache_begin_op_eq:
  assumes "\<not> locked (log_lock s)" and "quiet_sem v (log_sem s)"
  shows "cache_begin_op c s = (if log_is_full s then Inl Blocked
    else Inr (c\<lparr>rm := OP_MAX_NUM_BLOCKS\<rparr>, s\<lparr>outstanding := outstanding s + 1\<rparr>))"
proof -
  have full: "log_is_full (s\<lparr>log_lock := l\<rparr>) = log_is_full s" for l by (simp add: log_is_full_def)
  show ?thesis
  proof (cases "log_is_full s")
    case True
    then show ?thesis using assms begin_op_wait_full [of "s\<lparr>log_lock := (log_lock s)\<lparr>locked := True\<rparr>\<rparr>" v]
      by (simp add: cache_begin_op_def log_lock_acquire_ok full)
  next
    case False
    then show ?thesis using assms
      by (simp add: cache_begin_op_def log_lock_acquire_ok full begin_op_wait.simps log_lock_release_def lock_cycle)
  qed
qed

lemma cache_end_op_more:
  assumes "\<not> locked (log_lock s)" and "1 < outstanding s" and "quiet_sem v (log_sem s)"
  shows "cache_end_op s = Inr (s\<lparr>outstanding := outstanding s - 1, log_sem := (log_sem s)\<lparr>sval := v + 1\<rparr>\<rparr>)"
  using assms sem_post_quiet [OF assms(3)]
  by (simp add: cache_end_op_def log_lock_acquire_ok log_lock_release_def lock_cycle)

text \<open>
  Atomic operations of several processes, one call at a time in any order. A client acquires and releases blocks outside the
  log area, changes only blocks it holds, records them with \<^verbatim>\<open>sync\<close> before it releases them, and records at most as many
  distinct blocks as it has reserved.
\<close>

record log_sys =
  cst :: bcache
  ops :: "nat \<Rightarrow> OpContext option"

inductive log_step :: "log_sys \<Rightarrow> log_sys \<Rightarrow> bool" where
  op_begin: "ops S i = None \<Longrightarrow> cache_begin_op c (cst S) = Inr (c', s') \<Longrightarrow>
    log_step S (S\<lparr>cst := s', ops := (ops S)(i \<mapsto> c')\<rparr>)"
| op_acquire: "n \<notin> log_area (sblock (cst S)) \<Longrightarrow> n \<notin> held (cst S) \<Longrightarrow> cache_acquire n (cst S) = Inr s' \<Longrightarrow>
    log_step S (S\<lparr>cst := s'\<rparr>)"
| op_modify: "n \<in> held (cst S) \<Longrightarrow> length d = BLOCK_SIZE \<Longrightarrow> log_step S (S\<lparr>cst := set_block_data n d (cst S)\<rparr>)"
| op_sync: "ops S i = Some c \<Longrightarrow> n \<in> held (cst S) \<Longrightarrow> n < U64 \<Longrightarrow> 0 < rm c \<or> n \<in> set (logged (cst S)) \<Longrightarrow>
    cache_sync (Some c) n (cst S) = Inr (Some c', s') \<Longrightarrow>
    log_step S (S\<lparr>cst := s', ops := (ops S)(i \<mapsto> c')\<rparr>)"
| op_release: "n \<in> held (cst S) \<Longrightarrow> n \<in> pin (cst S) \<or> bview (cst S) n = disk (cst S) n \<Longrightarrow>
    cache_release n (cst S) = Inr s' \<Longrightarrow> log_step S (S\<lparr>cst := s'\<rparr>)"
| op_end: "ops S i = Some c \<Longrightarrow> set (logged (cst S)) \<inter> held (cst S) = {} \<Longrightarrow> cache_end_op (cst S) = Inr s' \<Longrightarrow>
    log_step S (S\<lparr>cst := s', ops := (ops S)(i := None)\<rparr>)"

inductive log_reachable :: "SuperBlock \<Rightarrow> (nat \<Rightarrow> byte list) \<Rightarrow> log_sys \<Rightarrow> bool" for sb dev where
  start: "init_bcache sb dev = Inr s \<Longrightarrow> log_reachable sb dev \<lparr>cst = s, ops = (\<lambda>_. None)\<rparr>"
| step: "log_reachable sb dev S \<Longrightarrow> log_step S S' \<Longrightarrow> log_reachable sb dev S'"

text \<open>The log entries that running operations may still claim.\<close>

definition reserved :: "(nat \<rightharpoonup> OpContext) \<Rightarrow> nat" where
  "reserved w = (\<Sum>i\<in>dom w. rm (the (w i)))"

definition log_sys_inv :: "log_sys \<Rightarrow> bool" where
  "log_sys_inv S \<longleftrightarrow> cache_ok (cst S) \<and> log_ok (cst S) \<and> (\<exists>v. quiet_sem v (log_sem (cst S)))
     \<and> finite (dom (ops S)) \<and> outstanding (cst S) = int (card (dom (ops S)))
     \<and> (\<forall>i c. ops S i = Some c \<longrightarrow> rm c \<le> OP_MAX_NUM_BLOCKS)
     \<and> hnum (header (cst S)) + reserved (ops S) < LOG_MAX_SIZE"

lemma log_ok_fields:
  assumes "log_ok s" and "header s' = header s" and "held s' \<inter> log_area (sblock s) = {}" and "pin s' = pin s"
    and "log_start (sblock s) \<notin> cached s'" and "sblock s' = sblock s" and "\<not> locked (log_lock s')" and "disk s' = disk s"
  shows "log_ok s'"
  using assms by (auto simp: log_ok_def logged_def)

lemma reserved_upd:
  assumes "finite (dom w)"
  shows "w i = None \<Longrightarrow> reserved (w(i \<mapsto> c)) = rm c + reserved w"
    and "w i = Some c' \<Longrightarrow> reserved (w(i \<mapsto> c)) + rm c' = rm c + reserved w"
    and "w i = Some c' \<Longrightarrow> reserved (w(i := None)) + rm c' = reserved w"
proof -
  let ?r = "\<Sum>j\<in>dom w - {i}. rm (the (w j))"
  have ins: "reserved (w(i \<mapsto> c)) = rm c + ?r"
    using assms by (simp add: reserved_def sum.insert_remove)
  have old: "reserved w = rm c' + ?r" if "w i = Some c'"
    using that assms sum.remove [of "dom w" i "\<lambda>j. rm (the (w j))"] by (auto simp: reserved_def)
  have del: "reserved (w(i := None)) = ?r" by (simp add: reserved_def)
  show "reserved (w(i \<mapsto> c)) = rm c + reserved w" if "w i = None"
  proof -
    have "dom w - {i} = dom w" using that by auto
    then show ?thesis using ins by (simp add: reserved_def)
  qed
  show "reserved (w(i \<mapsto> c)) + rm c' = rm c + reserved w" if "w i = Some c'"
    using ins old [OF that] by simp
  show "reserved (w(i := None)) + rm c' = reserved w" if "w i = Some c'"
    using del old [OF that] by simp
qed

lemma reserved_bound:
  assumes "finite (dom w)" and "\<forall>i c. w i = Some c \<longrightarrow> rm c \<le> OP_MAX_NUM_BLOCKS"
  shows "reserved w \<le> card (dom w) * OP_MAX_NUM_BLOCKS"
  using assms sum_bounded_above [of "dom w" "\<lambda>j. rm (the (w j))" OP_MAX_NUM_BLOCKS] by (fastforce simp: reserved_def)

text \<open>Steps that leave the operations alone keep the invariant as soon as they keep the cache and the log consistent.\<close>

lemma log_sys_inv_cache_step:
  assumes inv: "log_sys_inv S" and ok: "cache_ok s'" and rest: "rest s' = rest (cst S)" and pin: "pin s' = pin (cst S)"
    and area: "held s' \<inter> log_area (sblock (cst S)) = {}" "log_start (sblock (cst S)) \<notin> cached s'"
  shows "log_sys_inv (S\<lparr>cst := s'\<rparr>)"
proof -
  have r: "header s' = header (cst S)" "sblock s' = sblock (cst S)" "log_lock s' = log_lock (cst S)"
    "disk s' = disk (cst S)" "log_sem s' = log_sem (cst S)" "outstanding s' = outstanding (cst S)"
    using rest by (simp_all add: rest_eq_iff)
  have "log_ok (cst S)" using inv by (simp add: log_sys_inv_def)
  from log_ok_fields [OF this r(1) area(1) pin area(2) r(2)] r this have "log_ok s'" by (simp add: log_ok_def)
  with inv ok r show ?thesis by (simp add: log_sys_inv_def)
qed

lemma log_sys_inv_begin:
  assumes inv: "log_sys_inv S" and i: "ops S i = None" and e: "cache_begin_op c (cst S) = Inr (c', s')"
  shows "log_sys_inv (S\<lparr>cst := s', ops := (ops S)(i \<mapsto> c')\<rparr>)"
proof -
  let ?s = "cst S"
  obtain v where q: "quiet_sem v (log_sem ?s)" using inv by (auto simp: log_sys_inv_def)
  have unl: "\<not> locked (log_lock ?s)" using inv by (simp add: log_sys_inv_def log_ok_def)
  have nf: "\<not> log_is_full ?s" and c': "c' = c\<lparr>rm := OP_MAX_NUM_BLOCKS\<rparr>"
    and s': "s' = ?s\<lparr>outstanding := outstanding ?s + 1\<rparr>"
    using e unfolding cache_begin_op_eq [OF unl q] by (auto split: if_splits)
  have fin: "finite (dom (ops S))" and le: "\<forall>i c. ops S i = Some c \<longrightarrow> rm c \<le> OP_MAX_NUM_BLOCKS"
    and out: "outstanding ?s = int (card (dom (ops S)))" using inv by (auto simp: log_sys_inv_def)
  have sum: "reserved ((ops S)(i \<mapsto> c')) = OP_MAX_NUM_BLOCKS + reserved (ops S)"
    using reserved_upd(1) [OF fin i, of c'] by (simp add: c')
  have "int (hnum (header ?s)) + (int (card (dom (ops S))) + 1) * 10 < 63"
    using nf out by (simp add: log_is_full_def)
  then have "int (hnum (header ?s) + card (dom (ops S)) * 10 + 10) < 63" by (simp add: algebra_simps)
  then have "hnum (header ?s) + card (dom (ops S)) * 10 + 10 < 63" by (simp only: of_nat_less_numeral_iff)
  then have "hnum (header ?s) + reserved ((ops S)(i \<mapsto> c')) < LOG_MAX_SIZE"
    using reserved_bound [OF fin le] unfolding sum by linarith
  moreover have "log_ok s'" using inv by (simp add: s' log_sys_inv_def log_ok_def logged_def)
  moreover have "card (dom ((ops S)(i \<mapsto> c'))) = card (dom (ops S)) + 1" using i fin by (simp add: domIff)
  moreover have "\<forall>j d. ((ops S)(i \<mapsto> c')) j = Some d \<longrightarrow> rm d \<le> OP_MAX_NUM_BLOCKS" using le by (simp add: c')
  ultimately show ?thesis
    using inv fin out q unfolding log_sys_inv_def by (auto simp: s' simp del: fun_upd_apply)
qed

lemma log_sys_inv_sync:
  assumes inv: "log_sys_inv S" and i: "ops S i = Some c" and h: "n \<in> held (cst S)" "n < U64"
    and room: "0 < rm c \<or> n \<in> set (logged (cst S))"
  shows "\<exists>c' s'. cache_sync (Some c) n (cst S) = Inr (Some c', s') \<and> log_sys_inv (S\<lparr>cst := s', ops := (ops S)(i \<mapsto> c')\<rparr>)"
proof -
  let ?s = "cst S"
  have ok: "cache_ok ?s" "log_ok ?s" and fin: "finite (dom (ops S))"
    and le: "\<forall>i c. ops S i = Some c \<longrightarrow> rm c \<le> OP_MAX_NUM_BLOCKS"
    and sp: "hnum (header ?s) + reserved (ops S) < LOG_MAX_SIZE"
    using inv by (auto simp: log_sys_inv_def)
  note upd = reserved_upd(2) [OF fin i]
  have "rm c \<le> reserved (ops S)" using reserved_upd(3) [OF fin i] by simp
  moreover have n: "n \<notin> log_area (sblock ?s)" using ok(2) h by (auto simp: log_ok_def)
  ultimately have "n \<in> set (logged ?s) \<or> (0 < rm c \<and> hnum (header ?s) + 1 < LOG_MAX_SIZE)"
    using room sp by linarith
  define d where "d = (if n \<in> set (logged ?s) then c else c\<lparr>rm := rm c - 1\<rparr>)"
  from cache_sync_props [OF ok h(1) n h(2) \<open>n \<in> set (logged ?s) \<or> _\<close>, folded d_def] obtain s' where
    s': "cache_sync (Some c) n ?s = Inr (Some d, s')" "cache_ok s'" "log_ok s'"
    and lg: "logged s' = (if n \<in> set (logged ?s) then logged ?s else logged ?s @ [n])"
    and re: "rest (s'\<lparr>header := header ?s\<rparr>) = rest ?s" by metis
  have sp': "hnum (header s') + reserved ((ops S)(i \<mapsto> d)) < LOG_MAX_SIZE"
  proof (cases "n \<in> set (logged ?s)")
    case True
    then show ?thesis using lg logged_length [OF s'(3)] logged_length [OF ok(2)] sp upd [of d] by (simp add: d_def)
  next
    case False
    then show ?thesis using lg logged_length [OF s'(3)] logged_length [OF ok(2)] sp upd [of d] room by (simp add: d_def)
  qed
  have r: "outstanding s' = outstanding ?s" "log_sem s' = log_sem ?s" using re by (simp_all add: rest_eq_iff)
  have "card (dom ((ops S)(i \<mapsto> d))) = card (dom (ops S))" using i by (simp add: insert_absorb domI)
  moreover have "rm d \<le> rm c" "rm c \<le> OP_MAX_NUM_BLOCKS" using le i by (auto simp: d_def)
  then have "\<forall>j e. ((ops S)(i \<mapsto> d)) j = Some e \<longrightarrow> rm e \<le> OP_MAX_NUM_BLOCKS" using le by simp
  moreover have "finite (dom ((ops S)(i \<mapsto> d)))" using fin by simp
  ultimately have "log_sys_inv (S\<lparr>cst := s', ops := (ops S)(i \<mapsto> d)\<rparr>)"
    using inv s'(2,3) sp' r unfolding log_sys_inv_def by (simp del: dom_fun_upd fun_upd_apply)
  with s'(1) show ?thesis by blast
qed

lemma log_sys_inv_end:
  assumes inv: "log_sys_inv S" and i: "ops S i = Some c" and h: "set (logged (cst S)) \<inter> held (cst S) = {}"
  shows "\<exists>s'. cache_end_op (cst S) = Inr s' \<and> log_sys_inv (S\<lparr>cst := s', ops := (ops S)(i := None)\<rparr>)"
proof -
  let ?s = "cst S"
  have ok: "cache_ok ?s" "log_ok ?s" and fin: "finite (dom (ops S))"
    and le: "\<forall>i c. ops S i = Some c \<longrightarrow> rm c \<le> OP_MAX_NUM_BLOCKS" and out: "outstanding ?s = int (card (dom (ops S)))"
    and sp: "hnum (header ?s) + reserved (ops S) < LOG_MAX_SIZE"
    using inv by (auto simp: log_sys_inv_def)
  obtain v where q: "quiet_sem v (log_sem ?s)" using inv by (auto simp: log_sys_inv_def)
  have unl: "\<not> locked (log_lock ?s)" using ok(2) by (simp add: log_ok_def)
  have d: "dom ((ops S)(i := None)) = dom (ops S) - {i}" by auto
  have card: "card (dom (ops S)) = Suc (card (dom (ops S) - {i}))" using i fin by (metis card_Suc_Diff1 domI)
  have sum: "reserved ((ops S)(i := None)) \<le> reserved (ops S)" using reserved_upd(3) [OF fin i] by simp
  have le': "\<forall>j d. ((ops S)(i := None)) j = Some d \<longrightarrow> rm d \<le> OP_MAX_NUM_BLOCKS" using le by simp
  show ?thesis
  proof (cases "outstanding ?s = 1")
    case True
    from cache_end_op_props [OF ok True h q] obtain s' where
      s': "cache_end_op ?s = Inr s'" "cache_ok s'" "log_ok s'" "logged s' = []" "outstanding s' = 0" "log_sem s' = log_sem ?s"
      by metis
    have "card (dom (ops S) - {i}) = 0" using True out card by simp
    then have e: "dom (ops S) - {i} = {}" using fin by simp
    have "hnum (header s') = 0" using logged_length [OF s'(3)] s'(4) by simp
    moreover have "dom ((ops S)(i := None)) = {}" unfolding d using e .
    moreover from this have "reserved ((ops S)(i := None)) = 0" by (simp add: reserved_def del: dom_fun_upd)
    ultimately have "log_sys_inv (S\<lparr>cst := s', ops := (ops S)(i := None)\<rparr>)"
      using s' le' q unfolding log_sys_inv_def by (auto simp del: fun_upd_apply dom_fun_upd)
    with s'(1) show ?thesis by blast
  next
    case False
    then have gt: "1 < outstanding ?s" using out card by simp
    let ?s' = "?s\<lparr>outstanding := outstanding ?s - 1, log_sem := (log_sem ?s)\<lparr>sval := v + 1\<rparr>\<rparr>"
    have "quiet_sem (v + 1) (log_sem ?s')" using quiet_sval [OF q] q by (simp add: quiet_sem_def)
    moreover have "finite (dom ((ops S)(i := None)))" unfolding d using fin by simp
    moreover have "log_ok ?s'" using ok(2) by (simp add: log_ok_def logged_def)
    moreover have "outstanding ?s' = int (card (dom ((ops S)(i := None))))" unfolding d using out card by simp
    ultimately have "log_sys_inv (S\<lparr>cst := ?s', ops := (ops S)(i := None)\<rparr>)"
      using ok fin le' sp sum unfolding log_sys_inv_def by (auto simp del: fun_upd_apply dom_fun_upd)
    with cache_end_op_more [OF unl gt q] show ?thesis by blast
  qed
qed

lemma log_step_inv: "log_step S S' \<Longrightarrow> log_sys_inv S \<Longrightarrow> log_sys_inv S'"
proof (induction rule: log_step.induct)
  case (op_begin S i c c' s')
  then show ?case by (blast intro: log_sys_inv_begin)
next
  case (op_acquire n S s')
  have ok: "cache_ok (cst S)" "log_ok (cst S)" using op_acquire.prems by (auto simp: log_sys_inv_def)
  from cache_acquire_props [OF ok(1) op_acquire(2)] op_acquire(3) have
    "cache_ok s'" "held s' = insert n (held (cst S))" "pin s' = pin (cst S)" "rest s' = rest (cst S)"
    "cached s' \<subseteq> insert n (cached (cst S))" by auto
  then show ?case
    using op_acquire(1,4) ok(2) by (intro log_sys_inv_cache_step) (auto simp: log_ok_def log_area_def)
next
  case (op_modify n S d)
  then show ?case
    using set_block_data_props [of "cst S" n d]
    by (intro log_sys_inv_cache_step) (auto simp: log_sys_inv_def log_ok_def)
next
  case (op_sync S i c n c' s')
  then show ?case using log_sys_inv_sync by fastforce
next
  case (op_release n S s')
  have ok: "cache_ok (cst S)" "log_ok (cst S)" using op_release.prems by (auto simp: log_sys_inv_def)
  from cache_release_props [OF ok(1) op_release(1,2)] op_release(3) have
    "cache_ok s'" "held s' = held (cst S) - {n}" "pin s' = pin (cst S)" "rest s' = rest (cst S)"
    "cached s' = cached (cst S)" by auto
  then show ?case
    using op_release(4) ok(2) by (intro log_sys_inv_cache_step) (auto simp: log_ok_def)
next
  case (op_end S i c s')
  then show ?case using log_sys_inv_end by fastforce
qed

lemma log_reachable_inv:
  assumes "\<And>n. length (dev n) = BLOCK_SIZE" and "hnum (dec_LogHeader (dev (log_start sb))) = 0"
    and "log_reachable sb dev S"
  shows "log_sys_inv S"
  using assms(3)
proof induction
  case (start s)
  have q: "log_sem s = init_sem 0"
  proof -
    have "restore_blocks (log_start sb + 1) (take (hnum (dec_LogHeader (dev (log_start sb)))) ns) t = Inr t" for ns t
      using assms(2) by simp
    with start assms(2) show ?thesis
      by (auto simp: init_bcache_def Let_def read_header_def write_header_def device_write_def)
  qed
  from init_bcache_empty_log [of dev sb, OF assms(1,2)] start obtain
    "cache_ok s" "log_ok s" "logged s = []" "outstanding s = 0" by (metis sum.inject(2))
  moreover from this have "hnum (header s) = 0" using logged_length by fastforce
  ultimately show ?case using quiet_init [of 0] q by (auto simp: log_sys_inv_def reserved_def)
next
  case (step S S')
  then show ?case using log_step_inv by blast
qed

section \<open>Allocation of blocks\<close>

text \<open>Looking at a block: acquire it, read it, release it.\<close>

lemma bitmap_lock_acquire_ok:
  "\<not> locked (bitmap_lock s) \<Longrightarrow> bitmap_lock_acquire s = Inr (s\<lparr>bitmap_lock := (bitmap_lock s)\<lparr>locked := True\<rparr>\<rparr>)"
  by (simp add: bitmap_lock_acquire_def)

text \<open>What a client with a running operation relies on.\<close>

definition op_ready :: "OpContext \<Rightarrow> nat \<Rightarrow> bcache \<Rightarrow> bool" where
  "op_ready c k s \<longleftrightarrow> cache_ok s \<and> log_ok s \<and> k \<le> rm c \<and> hnum (header s) + rm c < LOG_MAX_SIZE"

text \<open>
  Acquire, overwrite, sync and release one block within an operation, the pattern of every update in the file system.
\<close>

definition cache_update :: "OpContext \<Rightarrow> nat \<Rightarrow> byte list \<Rightarrow> bcache \<Rightarrow> (OpContext \<times> bcache) res" where
  "cache_update c n d s =
     rbind (cache_acquire n s) (\<lambda>s.
     rbind (cache_sync (Some c) n (set_block_data n d s)) (\<lambda>(c, s).
     rbind (cache_release n s) (\<lambda>s. Inr (the c, s))))"

lemma cache_sync_keeps_ctx: "cache_sync (Some c) n s = Inr (co, s') \<Longrightarrow> co = Some (the co)"
  by (cases co) (auto simp: cache_sync_def Let_def elim!: rbind_InrE split: option.split_asm if_split_asm)

lemma cache_update_split:
  assumes "cache_update c n d s = Inr (c', s')"
  obtains s1 s3 where "cache_acquire n s = Inr s1" "cache_sync (Some c) n (set_block_data n d s1) = Inr (Some c', s3)"
    "cache_release n s3 = Inr s'"
proof -
  from assms obtain s1 where 1: "cache_acquire n s = Inr s1"
    and r1: "rbind (cache_sync (Some c) n (set_block_data n d s1)) (\<lambda>(c, s). rbind (cache_release n s) (\<lambda>s. Inr (the c, s))) = Inr (c', s')"
    unfolding cache_update_def by (rule rbind_InrE)
  from r1 obtain co s3 where 2: "cache_sync (Some c) n (set_block_data n d s1) = Inr (co, s3)"
    and r2: "rbind (cache_release n s3) (\<lambda>s. Inr (the co, s)) = Inr (c', s')"
    by (auto elim: rbind_InrE)
  from r2 have "cache_release n s3 = Inr s'" "c' = the co" by (auto elim: rbind_InrE)
  then show ?thesis using that [OF 1] 2 cache_sync_keeps_ctx [OF 2] by metis
qed

lemma cache_update_props:
  assumes rdy: "op_ready c (Suc k) s" and n: "n \<notin> held s" "n \<notin> log_area (sblock s)" "n < U64" and len: "length d = BLOCK_SIZE"
  obtains c' s' where "cache_update c n d s = Inr (c', s')" "op_ready c' k s'" "bview s' = (bview s)(n := d)"
    "held s' = held s" "rest (s'\<lparr>header := header s\<rparr>) = rest s"
proof -
  have ok: "cache_ok s" "log_ok s" and rm: "Suc k \<le> rm c" "hnum (header s) + rm c < LOG_MAX_SIZE"
    using rdy by (auto simp: op_ready_def)
  from cache_acquire_props [OF ok(1) n(1)] obtain s1 where
    1: "cache_acquire n s = Inr s1" "cache_ok s1" "bview s1 = bview s" "held s1 = insert n (held s)"
      "pin s1 = pin s" "rest s1 = rest s" "cached s1 \<subseteq> insert n (cached s)" by metis
  have h1: "n \<in> held s1" by (simp add: 1(4))
  note 2 = set_block_data_props [OF 1(2) h1 len]
  let ?s2 = "set_block_data n d s1"
  have r2: "header ?s2 = header s" "sblock ?s2 = sblock s" "log_lock ?s2 = log_lock s" "disk ?s2 = disk s"
    using 2(5) 1(6) by (simp_all add: rest_eq_iff)
  have lok2: "log_ok ?s2"
    using ok(2) r2 n(2) 1(4,5,7) 2(3,4,6)
    by (intro log_ok_fields [OF ok(2)]) (auto simp: log_ok_def log_area_def)
  have lg2: "logged ?s2 = logged s" by (simp add: logged_def r2)
  have "n \<in> set (logged ?s2) \<or> (0 < rm c \<and> hnum (header ?s2) + 1 < LOG_MAX_SIZE)" using rm r2 by auto
  moreover have "n \<in> held ?s2" "n \<notin> log_area (sblock ?s2)" using h1 2(3) n(2) r2 by simp_all
  ultimately obtain s3 where
    3: "cache_sync (Some c) n ?s2 = Inr (Some (if n \<in> set (logged s) then c else c\<lparr>rm := rm c - 1\<rparr>), s3)"
      "cache_ok s3" "log_ok s3" "bview s3 = bview ?s2" "held s3 = held ?s2" "pin s3 = insert n (pin ?s2)"
      "cached s3 = cached ?s2" "logged s3 = (if n \<in> set (logged s) then logged s else logged s @ [n])"
      "rest (s3\<lparr>header := header ?s2\<rparr>) = rest ?s2"
    using cache_sync_props [OF 2(1) lok2 _ _ n(3), of c] unfolding lg2 by metis
  have "n \<in> held s3" "n \<in> pin s3 \<or> bview s3 n = disk s3 n" using 3(5,6) h1 2(3) by simp_all
  from cache_release_props [OF 3(2) this] obtain s4 where
    4: "cache_release n s3 = Inr s4" "cache_ok s4" "bview s4 = bview s3" "held s4 = held s3 - {n}" "pin s4 = pin s3"
      "rest s4 = rest s3" "cached s4 = cached s3" by metis
  let ?c = "if n \<in> set (logged s) then c else c\<lparr>rm := rm c - 1\<rparr>"
  have r4: "header s4 = header s3" "sblock s4 = sblock s3" "log_lock s4 = log_lock s3" "disk s4 = disk s3"
    using 4(6) by (simp_all add: rest_eq_iff)
  have lok4: "log_ok s4"
    using 3(3) r4 4(4,5,7) by (intro log_ok_fields [OF 3(3)]) (auto simp: log_ok_def)
  have "op_ready ?c k s4"
    using rm 3(8) logged_length [OF 3(3)] logged_length [OF ok(2)] 4(2) lok4 r4
    by (cases "n \<in> set (logged s)") (auto simp: op_ready_def)
  moreover have "cache_update c n d s = Inr (?c, s4)"
    by (simp add: cache_update_def 1(1) 3(1) 4(1))
  moreover have "rest (s4\<lparr>header := header s\<rparr>) = rest s"
    using 4(6) 3(9) 2(5) 1(6) by (simp add: rest_eq_iff)
  moreover have "held s4 = held s" using 4(4) 3(5) 2(3) 1(4) n(1) by auto
  moreover have "bview s4 = (bview s)(n := d)" using 4(3) 3(4) 2(2) 1(3) by simp
  ultimately show ?thesis using that by blast
qed

lemma cache_read_props:
  assumes ok: "cache_ok s" and n: "n \<notin> held s"
  obtains s1 where "cache_acquire n s = Inr s1" "block_data n s1 = Inr (bview s n)" "sblock s1 = sblock s" "cache_ok s1"
    "n \<in> held s1" "bview s1 = bview s" "held s1 = insert n (held s)" "pin s1 = pin s" "rest s1 = rest s" "cached s1 \<subseteq> insert n (cached s)"
proof -
  from cache_acquire_props [OF ok n] obtain s1 where
    1: "cache_acquire n s = Inr s1" "cache_ok s1" "bview s1 = bview s" "held s1 = insert n (held s)"
      "pin s1 = pin s" "rest s1 = rest s" "cached s1 \<subseteq> insert n (cached s)" by metis
  then show ?thesis using that [of s1] block_data_held [OF 1(2), of n] by (simp add: rest_eq_iff)
qed

text \<open>A block that was only looked at can be released again without a trace.\<close>

lemma cache_peek_release:
  assumes ok: "cache_ok s" and n: "n \<notin> held s" and a: "cache_acquire n s = Inr s1"
  obtains s2 where "cache_release n s1 = Inr s2" "cache_ok s2" "bview s2 = bview s" "held s2 = held s" "pin s2 = pin s"
    "rest s2 = rest s" "cached s2 \<subseteq> insert n (cached s)"
proof -
  from cache_acquire_props [OF ok n] a have
    1: "cache_ok s1" "bview s1 = bview s" "held s1 = insert n (held s)" "pin s1 = pin s" "rest s1 = rest s"
      "cached s1 \<subseteq> insert n (cached s)" by auto
  have "n \<in> pin s1 \<or> bview s1 n = disk s1 n"
    using bview_clean [OF ok n] 1(2,4,5) by (auto simp: rest_eq_iff)
  from cache_release_props [OF 1(1) _ this] obtain s2 where
    "cache_release n s1 = Inr s2" "cache_ok s2" "bview s2 = bview s1" "held s2 = held s1 - {n}" "pin s2 = pin s1"
    "rest s2 = rest s1" "cached s2 = cached s1" using 1(3) by auto
  then show ?thesis using that [of s2] 1 n by auto
qed

lemma bitmap_lock_frame:
  "op_ready c k (s\<lparr>bitmap_lock := l\<rparr>) = op_ready c k s"
  by (simp add: op_ready_def log_ok_def logged_def)

definition bitmap_ready :: "bcache \<Rightarrow> bool" where
  "bitmap_ready s \<longleftrightarrow> \<not> locked (bitmap_lock s) \<and> bitmap_start (sblock s) \<notin> log_area (sblock s) \<and> bitmap_start (sblock s) \<notin> held s
     \<and> bitmap_start (sblock s) < U64"

abbreviation bitmap_of :: "bcache \<Rightarrow> byte list" where
  "bitmap_of s \<equiv> bview s (bitmap_start (sblock s))"

lemma cache_alloc_update:
  assumes rdy: "op_ready c (Suc (Suc k)) s" and bm: "bitmap_ready s"
    and i: "first_clear data_bitmap_get (min BIT_PER_BLOCK (num_blocks (sblock s))) (bitmap_of s) = Some i"
    and free: "i \<notin> held s" "i \<notin> log_area (sblock s)" "i \<noteq> bitmap_start (sblock s)"
  obtains c' s' where "cache_alloc (Some c) s = Inr (i, Some c', s')" "op_ready c' k s'" "held s' = held s"
    "bview s' = (bview s)(bitmap_start (sblock s) := data_bitmap_set i (bitmap_of s), i := replicate BLOCK_SIZE 0)"
    "bitmap_lock s' = bitmap_lock s" "rest (s'\<lparr>header := header s\<rparr>) = rest s"
proof -
  let ?bm = "bitmap_start (sblock s)" and ?l = "bitmap_lock s"
  let ?s0 = "s\<lparr>bitmap_lock := ?l\<lparr>locked := True\<rparr>\<rparr>"
  have b: "\<not> locked ?l" "?bm \<notin> log_area (sblock s)" "?bm \<notin> held s" "?bm < U64" using bm by (auto simp: bitmap_ready_def)
  have rdy0: "op_ready c (Suc (Suc k)) ?s0" using rdy by (simp add: bitmap_lock_frame)
  have ok0: "cache_ok ?s0" using rdy0 by (simp add: op_ready_def)
  have i4: "i < U64" using i by (auto simp: first_clear_def find_Some_iff)
  have "?bm \<notin> held ?s0" using b by simp
  from cache_read_props [OF ok0 this] obtain s1 where
    1: "cache_acquire ?bm ?s0 = Inr s1" "block_data ?bm s1 = Inr (bview ?s0 ?bm)" "sblock s1 = sblock ?s0" by metis
  have b0: "?bm \<notin> held ?s0" "?bm \<notin> log_area (sblock ?s0)" "?bm < U64" using b by simp_all
  from cache_update_props [OF rdy0 b0 length_data_bitmap(1)] obtain c2 s2 where
    2: "cache_update c ?bm (data_bitmap_set i (bitmap_of s)) ?s0 = Inr (c2, s2)" "op_ready c2 (Suc k) s2"
      "bview s2 = (bview ?s0)(?bm := data_bitmap_set i (bitmap_of s))" "held s2 = held ?s0"
      "rest (s2\<lparr>header := header ?s0\<rparr>) = rest ?s0" by metis
  note 1 = 1 [simplified] and 2 = 2 [simplified]
  have f2: "i \<notin> held s2" "i \<notin> log_area (sblock s2)" using free 2(4,5) by (auto simp: rest_eq_iff)
  from cache_update_props [OF 2(2) f2 i4 length_replicate] obtain c3 s3 where
    3: "cache_update c2 i (replicate BLOCK_SIZE 0) s2 = Inr (c3, s3)" "op_ready c3 k s3"
      "bview s3 = (bview s2)(i := replicate BLOCK_SIZE 0)" "held s3 = held s2" "rest (s3\<lparr>header := header s2\<rparr>) = rest s2"
    by metis
  let ?s' = "s3\<lparr>bitmap_lock := ?l\<rparr>"
  have l3: "bitmap_lock s3 = ?l\<lparr>locked := True\<rparr>" using 3(5) 2(5) by (simp add: rest_eq_iff)
  from cache_update_split [OF 2(1)] 1(1) obtain t2 where
    u2: "cache_sync (Some c) ?bm (set_block_data ?bm (data_bitmap_set i (bitmap_of s)) s1) = Inr (Some c2, t2)"
      "cache_release ?bm t2 = Inr s2" by (metis sum.inject(2))
  from cache_update_split [OF 3(1)] obtain t4 t5 where u3: "cache_acquire i s2 = Inr t4"
      "cache_sync (Some c2) i (set_block_data i (replicate BLOCK_SIZE 0) t4) = Inr (Some c3, t5)" "cache_release i t5 = Inr s3"
    by metis
  have "cache_alloc (Some c) s = Inr (i, Some c3, ?s')"
    using i u2 u3 l3 lock_cycle [OF b(1)]
    by (simp add: cache_alloc_def bitmap_lock_acquire_ok [OF b(1)] 1 Let_def bitmap_lock_release_def)
  moreover have "op_ready c3 k ?s'" using 3(2) by (simp add: bitmap_lock_frame)
  moreover have "rest (?s'\<lparr>header := header s\<rparr>) = rest s" using 3(5) 2(5) by (simp add: rest_eq_iff)
  ultimately show ?thesis using that [of c3 ?s'] 3(3,4) 2(3,4) by simp
qed

section \<open>Properties\<close>

text \<open>A cache with one logged change: block 100 holds ones, the disk is all zero.\<close>

definition demo_sb :: SuperBlock where
  "demo_sb = \<lparr>num_blocks = 1000, num_data_blocks = 800, num_inodes = 200, num_log_blocks = 64, log_start = 2,
              inode_start = 66, bitmap_start = 99\<rparr>"

definition demo_cache :: bcache where
  "demo_cache = \<lparr>sblock = demo_sb, disk = (\<lambda>_. replicate BLOCK_SIZE 0), dlog = [], cache_lock = \<lparr>locked = False\<rparr>,
     log_lock = \<lparr>locked = False\<rparr>, bitmap_lock = \<lparr>locked = False\<rparr>,
     blocks = [\<lparr>block_no = 100, acquired = False, pinned = True, blk_lock = init_sem 1, valid = True, data = replicate BLOCK_SIZE 1\<rparr>],
     header = \<lparr>hnum = 1, hblocks = 100 # replicate 62 0\<rparr>, block_num = 1, outstanding = 1, log_sem = init_sem 0\<rparr>"

lemma zero_header: "hnum (dec_LogHeader (replicate BLOCK_SIZE 0)) = 0"
  by (simp add: dec_LogHeader_def slice_def)

lemma demo_cache_simps [simp]:
  "sblock demo_cache = demo_sb" "disk demo_cache = (\<lambda>_. replicate BLOCK_SIZE 0)" "outstanding demo_cache = 1"
  "log_sem demo_cache = init_sem 0" "header demo_cache = \<lparr>hnum = 1, hblocks = 100 # replicate 62 0\<rparr>"
  "locked (log_lock demo_cache) = False" "log_start demo_sb = 2"
  by (simp_all add: demo_cache_def demo_sb_def)

lemma demo_cache_props:
  "cache_ok demo_cache" "log_ok demo_cache" "held demo_cache = {}" "logged demo_cache = [100]" "quiet_sem 0 (log_sem demo_cache)"
  "bview demo_cache 100 = replicate BLOCK_SIZE 1" "pin demo_cache = {100}"
proof -
  have c: "cached demo_cache = {100}" by (simp add: demo_cache_def cached_def)
  have "filter pinned (blocks demo_cache) = blocks demo_cache" by (simp add: demo_cache_def)
  moreover have "pin demo_cache = block_no ` set (filter pinned (blocks demo_cache))" by (simp add: pin_def)
  ultimately show p: "pin demo_cache = {100}" using c by (simp add: cached_def)
  show h: "held demo_cache = {}" by (simp add: demo_cache_def held_def)
  show l: "logged demo_cache = [100]" by (simp add: logged_def)
  show "cache_ok demo_cache"
    by (simp add: demo_cache_def cache_ok_def block_ok_def quiet_init)
  show "quiet_sem 0 (log_sem demo_cache)" by (simp add: quiet_init)
  show "bview demo_cache 100 = replicate BLOCK_SIZE 1"
    by (simp add: demo_cache_def bview_def find_block_def)
  have "LogHeader_ok (header demo_cache)" by (simp add: LogHeader_ok_def)
  then show "log_ok demo_cache"
    unfolding log_ok_def p h l c using zero_header by (simp add: log_area_def)
qed

text \<open>
  C1: ending the last running operation succeeds, and at whichever of its device writes the machine stops, recovery succeeds and
  shows either the disk as it was before the operation or all of its logged blocks with their new content: the boundary is the write
  of the log header. Once the call returns, every logged block is on the disk and the log is empty.
\<close>
theorem commit_crash_atomic:
  assumes "cache_ok s" and "log_ok s" and "outstanding s = 1" and "set (logged s) \<inter> held s = {}" and "quiet_sem v (log_sem s)"
  shows "\<exists>s' W. cache_end_op s = Inr s' \<and> dlog s' = dlog s @ W \<and> disk s' = apply_writes W (disk s) \<and> logged s' = []
    \<and> (\<forall>m. m \<notin> log_area (sblock s) \<longrightarrow> bview s' m = bview s m)
    \<and> (\<forall>m\<in>set (logged s). disk s' m = bview s m)
    \<and> (\<forall>k. \<exists>r. init_bcache (sblock s) (apply_writes (take k W) (disk s)) = Inr r \<and> cache_ok r \<and> log_ok r
         \<and> (\<forall>m. m \<notin> log_area (sblock s) \<longrightarrow>
              bview r m = (if length (logged s) < k \<and> m \<in> set (logged s) then bview s m else disk s m)))"
proof -
  from cache_end_op_props [OF assms] obtain s' where
    s': "cache_end_op s = Inr s'" "dlog s' = dlog s @ commit_writes s" "disk s' = apply_writes (commit_writes s) (disk s)"
      "logged s' = []" "\<And>m. m \<notin> log_area (sblock s) \<Longrightarrow> bview s' m = bview s m" by metis
  have "disk s' m = bview s m" if "m \<in> set (logged s)" for m
    using crash_after_header(4) [OF assms(2), of "length (commit_writes s)" m "disk s"] that s'(3)
    by (simp add: commit_writes_def)
  moreover have "\<exists>r. init_bcache (sblock s) (apply_writes (take k (commit_writes s)) (disk s)) = Inr r \<and> cache_ok r \<and> log_ok r
         \<and> (\<forall>m. m \<notin> log_area (sblock s) \<longrightarrow>
              bview r m = (if length (logged s) < k \<and> m \<in> set (logged s) then bview s m else disk s m))" for k
    using crash_recovery_props [OF assms(1,2), of k] by metis
  ultimately show ?thesis using s' by blast
qed

theorem commit_crash_atomic_witness:
  "\<exists>s' W r. cache_end_op demo_cache = Inr s' \<and> dlog s' = dlog demo_cache @ W
    \<and> init_bcache demo_sb (apply_writes (take 2 W) (disk demo_cache)) = Inr r \<and> bview r 100 = replicate BLOCK_SIZE 1"
proof -
  have o: "outstanding demo_cache = 1" "sblock demo_cache = demo_sb" by (simp_all add: demo_cache_def)
  have "set (logged demo_cache) \<inter> held demo_cache = {}" by (simp add: demo_cache_props)
  from commit_crash_atomic [OF demo_cache_props(1,2) o(1) this demo_cache_props(5)] obtain s' W where
    w: "cache_end_op demo_cache = Inr s'" "dlog s' = dlog demo_cache @ W"
    and r: "\<forall>k. \<exists>r. init_bcache (sblock demo_cache) (apply_writes (take k W) (disk demo_cache)) = Inr r \<and> cache_ok r \<and> log_ok r
         \<and> (\<forall>m. m \<notin> log_area (sblock demo_cache) \<longrightarrow>
              bview r m = (if length (logged demo_cache) < k \<and> m \<in> set (logged demo_cache) then bview demo_cache m else disk demo_cache m))"
    by (elim exE conjE)
  from r [THEN spec [of _ 2]] obtain r where
    r: "init_bcache demo_sb (apply_writes (take 2 W) (disk demo_cache)) = Inr r"
      "\<forall>m. m \<notin> log_area demo_sb \<longrightarrow> bview r m = (if m = 100 then bview demo_cache m else disk demo_cache m)"
    unfolding o(2) demo_cache_props(4) by auto
  have "100 \<notin> log_area demo_sb" by (simp add: log_area_def)
  then have "bview r 100 = replicate BLOCK_SIZE 1" using r(2) demo_cache_props(6) by simp
  then show ?thesis using w r(1) by blast
qed

text \<open>
  C2: however the calls of any number of running operations interleave, the log never overflows: an operation that still has reserved
  entries, or changes a block that is already logged, can record any block it holds without a panic, and ending an
  operation succeeds. In particular the reservation made by \<^verbatim>\<open>begin_op\<close> is always enough.
\<close>
theorem log_reservation_safe:
  assumes "\<And>n. length (dev n) = BLOCK_SIZE" and "hnum (dec_LogHeader (dev (log_start sb))) = 0" and "log_reachable sb dev S"
    and "ops S i = Some c"
  shows "hnum (header (cst S)) + rm c < LOG_MAX_SIZE
    \<and> (\<forall>n. n \<in> held (cst S) \<and> n < U64 \<and> (0 < rm c \<or> n \<in> set (logged (cst S))) \<longrightarrow>
         (\<exists>r. cache_sync (Some c) n (cst S) = Inr r))
    \<and> (set (logged (cst S)) \<inter> held (cst S) = {} \<longrightarrow> (\<exists>s'. cache_end_op (cst S) = Inr s' \<and> cache_ok s' \<and> log_ok s'))"
proof -
  have inv: "log_sys_inv S" using log_reachable_inv [OF assms(1-3)] .
  then have "rm c \<le> reserved (ops S)" "hnum (header (cst S)) + reserved (ops S) < LOG_MAX_SIZE"
    using reserved_upd(3) [of "ops S" i c] assms(4) by (auto simp: log_sys_inv_def)
  moreover have "\<exists>r. cache_sync (Some c) n (cst S) = Inr r"
    if "n \<in> held (cst S)" "n < U64" "0 < rm c \<or> n \<in> set (logged (cst S))" for n
    using log_sys_inv_sync [OF inv assms(4) that] by blast
  moreover have "\<exists>s'. cache_end_op (cst S) = Inr s' \<and> cache_ok s' \<and> log_ok s'" if "set (logged (cst S)) \<inter> held (cst S) = {}"
    using log_sys_inv_end [OF inv assms(4) that] by (auto simp: log_sys_inv_def)
  ultimately show ?thesis by (auto intro: le_less_trans)
qed

theorem log_reservation_safe_witness:
  "\<exists>s s1 s'. init_bcache demo_sb (\<lambda>_. replicate BLOCK_SIZE 0) = Inr s
    \<and> cache_begin_op \<lparr>rm = 0, ts = 0\<rparr> s = Inr (\<lparr>rm = OP_MAX_NUM_BLOCKS, ts = 0\<rparr>, s1) \<and> cache_end_op s1 = Inr s'"
proof -
  let ?dev = "\<lambda>_::nat. replicate BLOCK_SIZE (0 :: byte)"
  have len: "\<And>n. length (?dev n) = BLOCK_SIZE" by simp
  obtain s where s: "init_bcache demo_sb ?dev = Inr s" "logged s = []" "outstanding s = 0" "log_ok s" "held s = {}"
    using init_bcache_empty_log [of ?dev demo_sb, OF len zero_header] by metis
  have r0: "log_reachable demo_sb ?dev \<lparr>cst = s, ops = (\<lambda>_. None)\<rparr>" using s(1) by (rule log_reachable.start)
  then obtain v where "quiet_sem v (log_sem s)" "\<not> locked (log_lock s)" "hnum (header s) = 0"
    using log_reachable_inv [OF len zero_header r0] logged_length [OF s(4)] s(2) by (auto simp: log_sys_inv_def log_ok_def)
  then have b: "cache_begin_op \<lparr>rm = 0, ts = 0\<rparr> s = Inr (\<lparr>rm = OP_MAX_NUM_BLOCKS, ts = 0\<rparr>, s\<lparr>outstanding := 1\<rparr>)"
    using cache_begin_op_eq s(3) by (auto simp: log_is_full_def)
  let ?S = "\<lparr>cst = s\<lparr>outstanding := 1\<rparr>, ops = [0 \<mapsto> \<lparr>rm = OP_MAX_NUM_BLOCKS, ts = 0\<rparr>]\<rparr>"
  have "log_step \<lparr>cst = s, ops = (\<lambda>_. None)\<rparr> ?S"
    using log_step.op_begin [of "\<lparr>cst = s, ops = (\<lambda>_. None)\<rparr>" 0] b by simp
  with r0 have "log_reachable demo_sb ?dev ?S" by (rule log_reachable.step)
  from log_reservation_safe [OF len zero_header this, of 0] s(2) have "\<exists>s'. cache_end_op (s\<lparr>outstanding := 1\<rparr>) = Inr s'"
    by (auto simp: logged_def)
  with s(1) b show ?thesis by blast
qed

text \<open>
  C3: acquiring a block nobody holds returns its current content and changes the content of no block; no block that is held or has
  unwritten changes is evicted, and after a miss the cache is within its threshold of 20 blocks unless only such blocks
  are left.
\<close>
theorem cache_acquire_contract:
  assumes "cache_ok s" and "n \<notin> held s"
  shows "\<exists>s'. cache_acquire n s = Inr s' \<and> cache_ok s' \<and> block_data n s' = Inr (bview s n) \<and> bview s' = bview s
    \<and> held s' = insert n (held s) \<and> pin s' = pin s \<and> held s \<union> pin s \<subseteq> cached s' \<and> disk s' = disk s
    \<and> (n \<in> cached s \<or> block_num s' \<le> EVICTION_THRESHOLD \<or> cached s' = insert n (held s \<union> pin s))"
proof (cases "find_block n s")
  case None
  from cache_acquire_miss_props [OF assms(1) None] obtain s' where
    s': "cache_acquire n s = Inr s'" "cache_ok s'" "bview s' = bview s" "held s' = insert n (held s)" "pin s' = pin s"
      "rest s' = rest s" "block_num s' \<le> EVICTION_THRESHOLD \<or> cached s' = insert n (held s \<union> pin s)" by metis
  with held_cached [of s'] pin_cached [of s'] show ?thesis
    using block_data_held [OF s'(2), of n] by (auto simp: rest_eq_iff)
next
  case (Some b)
  from cache_acquire_hit_props [OF assms(1) Some assms(2)] obtain s' where
    s': "cache_acquire n s = Inr s'" "cache_ok s'" "bview s' = bview s" "held s' = insert n (held s)" "pin s' = pin s"
      "rest s' = rest s" "cached s' = cached s" by metis
  have "n \<in> cached s" using Some find_block_None_iff [of n s] by auto
  with s' held_cached [of s'] pin_cached [of s'] show ?thesis
    using block_data_held [OF s'(2), of n] by (auto simp: rest_eq_iff)
qed

theorem cache_acquire_contract_witness:
  "\<exists>s'. cache_acquire 100 demo_cache = Inr s' \<and> block_data 100 s' = Inr (replicate BLOCK_SIZE 1)"
  using cache_acquire_contract [OF demo_cache_props(1), of 100] by (auto simp: demo_cache_props)

text \<open>
  C10: with room for two log entries and the log area and the bitmap marked as in use, allocation panics exactly when every block is in
  use, and otherwise returns the first free block, sets its bit and no other, zeroes its content and changes no other block.
\<close>
theorem cache_alloc_first_free:
  assumes "op_ready c 2 s" and "bitmap_ready s" and "held s = {}" and "num_blocks (sblock s) \<le> BIT_PER_BLOCK"
    and used: "\<forall>j\<in>insert (bitmap_start (sblock s)) (log_area (sblock s)). data_bitmap_get (bitmap_of s) j"
  shows "if \<forall>j<num_blocks (sblock s). data_bitmap_get (bitmap_of s) j
    then cache_alloc (Some c) s = Inl Panic
    else \<exists>i c' s'. cache_alloc (Some c) s = Inr (i, Some c', s') \<and> op_ready c' 0 s'
       \<and> i < num_blocks (sblock s) \<and> \<not> data_bitmap_get (bitmap_of s) i \<and> (\<forall>j<i. data_bitmap_get (bitmap_of s) j)
       \<and> (\<forall>j<BIT_PER_BLOCK. data_bitmap_get (bview s' (bitmap_start (sblock s))) j \<longleftrightarrow> j = i \<or> data_bitmap_get (bitmap_of s) j)
       \<and> bview s' i = replicate BLOCK_SIZE 0
       \<and> (\<forall>m. m \<noteq> i \<and> m \<noteq> bitmap_start (sblock s) \<longrightarrow> bview s' m = bview s m)"
proof (cases "first_clear data_bitmap_get (min BIT_PER_BLOCK (num_blocks (sblock s))) (bitmap_of s)")
  case None
  let ?bm = "bitmap_start (sblock s)" and ?s0 = "s\<lparr>bitmap_lock := (bitmap_lock s)\<lparr>locked := True\<rparr>\<rparr>"
  have all: "\<forall>j<num_blocks (sblock s). data_bitmap_get (bitmap_of s) j"
    using None assms(4) unfolding block_bits.first_clear_None by simp
  have ok: "cache_ok ?s0" "?bm \<notin> held ?s0" "\<not> locked (bitmap_lock s)"
    using assms(1-3) by (simp_all add: op_ready_def bitmap_ready_def)
  from cache_read_props [OF ok(1,2)] obtain s1 where
    1: "cache_acquire ?bm ?s0 = Inr s1" "block_data ?bm s1 = Inr (bview ?s0 ?bm)" "sblock s1 = sblock ?s0" by metis
  from cache_peek_release [OF ok(1,2) 1(1)] obtain s2 where "cache_release ?bm s1 = Inr s2" by metis
  with None 1 ok(3) assms(4) have "cache_alloc (Some c) s = Inl Panic"
    by (simp add: cache_alloc_def bitmap_lock_acquire_ok)
  with all show ?thesis by simp
next
  case (Some i)
  let ?bm = "bitmap_start (sblock s)"
  have i: "i < num_blocks (sblock s)" "\<not> data_bitmap_get (bitmap_of s) i" "\<forall>j<i. data_bitmap_get (bitmap_of s) j" "i < BIT_PER_BLOCK"
    using block_bits.first_clear_Some [OF Some] by auto
  have free: "i \<notin> held s" "i \<notin> log_area (sblock s)" "i \<noteq> ?bm" using assms(3) used i(2) by auto
  from cache_alloc_update [OF assms(1) [unfolded numeral_2_eq_2] assms(2) Some free] obtain c' s' where
    a: "cache_alloc (Some c) s = Inr (i, Some c', s')" "op_ready c' 0 s'"
      "bview s' = (bview s)(?bm := data_bitmap_set i (bitmap_of s), i := replicate BLOCK_SIZE 0)" by metis
  have "\<forall>j<BIT_PER_BLOCK. data_bitmap_get (bview s' ?bm) j \<longleftrightarrow> j = i \<or> data_bitmap_get (bitmap_of s) j"
    using block_bits.get_set1 [OF i(4)] free(3) by (simp add: a(3))
  moreover have "bview s' i = replicate BLOCK_SIZE 0" "\<forall>m. m \<noteq> i \<and> m \<noteq> ?bm \<longrightarrow> bview s' m = bview s m" by (simp_all add: a(3))
  moreover have "\<not> (\<forall>j<num_blocks (sblock s). data_bitmap_get (bitmap_of s) j)" using i by blast
  ultimately show ?thesis using a(1,2) i(1-3) by (simp del: fun_upd_apply)
qed

definition demo_alloc :: bcache where
  "demo_alloc = demo_cache\<lparr>disk := (\<lambda>n. if n = 99 then fold data_bitmap_set [0..<104] (replicate BLOCK_SIZE 0) else replicate BLOCK_SIZE 0)\<rparr>"

lemma fold_bitmap_set:
  assumes "j < BIT_PER_BLOCK" and "set xs \<subseteq> {..<BIT_PER_BLOCK}"
  shows "data_bitmap_get (fold data_bitmap_set xs b) j \<longleftrightarrow> j \<in> set xs \<or> data_bitmap_get b j"
  using assms(2) by (induction xs arbitrary: b) (auto simp: block_bits.get_set1 [OF _ assms(1)])

lemma length_fold_bitmap_set: "length b = BLOCK_SIZE \<Longrightarrow> length (fold data_bitmap_set xs b) = BLOCK_SIZE"
  by (induction xs arbitrary: b) auto

lemma zero_bitmap: "j < BIT_PER_BLOCK \<Longrightarrow> \<not> data_bitmap_get (replicate BLOCK_SIZE 0) j"
proof -
  assume "j < BIT_PER_BLOCK"
  have "slot_get le_dec 8 i (replicate BLOCK_SIZE 0) = 0" for i by (simp add: slot_get_def slice_def)
  then have "cells_of (replicate BLOCK_SIZE 0) = map (\<lambda>_. 0) [0..<64]" by (simp add: cells_of_def dec_ints_def del: upt_Suc)
  then show ?thesis using \<open>j < BIT_PER_BLOCK\<close> by (simp add: data_bitmap_get_def bitmap_get_bit)
qed

lemma demo_alloc_props:
  "op_ready \<lparr>rm = 10, ts = 0\<rparr> 2 demo_alloc" "bitmap_ready demo_alloc" "held demo_alloc = {}"
  "bitmap_of demo_alloc = fold data_bitmap_set [0..<104] (replicate BLOCK_SIZE 0)"
proof -
  have b: "blocks demo_alloc = blocks demo_cache" "header demo_alloc = header demo_cache" "sblock demo_alloc = demo_sb"
    "log_lock demo_alloc = log_lock demo_cache" "bitmap_lock demo_alloc = bitmap_lock demo_cache"
    by (simp_all add: demo_alloc_def)
  show h: "held demo_alloc = {}" using demo_cache_props(3) by (simp add: held_def b)
  have p: "pin demo_alloc = pin demo_cache" "cached demo_alloc = cached demo_cache" "logged demo_alloc = logged demo_cache"
    by (simp_all add: pin_def cached_def logged_def b)
  have d: "disk demo_alloc 2 = replicate BLOCK_SIZE 0" by (simp add: demo_alloc_def)
  have "cache_ok demo_alloc"
    using demo_cache_props(1) length_fold_bitmap_set
    by (auto simp: demo_alloc_def cache_ok_def demo_cache_def block_ok_def)
  moreover have "log_ok demo_alloc"
    using demo_cache_props(2) unfolding log_ok_def h p b demo_cache_props(3) by (simp add: d)
  ultimately show "op_ready \<lparr>rm = 10, ts = 0\<rparr> 2 demo_alloc" by (simp add: op_ready_def b)
  show "bitmap_ready demo_alloc" unfolding bitmap_ready_def h b
    by (simp add: demo_sb_def log_area_def demo_cache_def)
  show "bitmap_of demo_alloc = fold data_bitmap_set [0..<104] (replicate BLOCK_SIZE 0)"
    by (simp add: bview_def find_block_def b demo_sb_def) (simp add: demo_alloc_def demo_cache_def)
qed

theorem cache_alloc_first_free_witness:
  "\<exists>c' s'. cache_alloc (Some \<lparr>rm = 10, ts = 0\<rparr>) demo_alloc = Inr (104, c', s')"
proof -
  let ?b = "fold data_bitmap_set [0..<104] (replicate BLOCK_SIZE 0)"
  have get: "data_bitmap_get ?b j \<longleftrightarrow> j < 104" if "j < BIT_PER_BLOCK" for j
  proof -
    have "set [0..<104] \<subseteq> {..<BIT_PER_BLOCK}" by auto
    from fold_bitmap_set [OF that this] zero_bitmap [OF that] show ?thesis by (auto simp del: upt_Suc)
  qed
  have sb: "sblock demo_alloc = demo_sb" by (simp add: demo_alloc_def)
  have n: "num_blocks demo_sb = 1000" by (simp add: demo_sb_def)
  have used: "\<forall>j\<in>insert (bitmap_start (sblock demo_alloc)) (log_area (sblock demo_alloc)). data_bitmap_get (bitmap_of demo_alloc) j"
    unfolding demo_alloc_props(4) unfolding sb using get by (auto simp: demo_sb_def log_area_def)
  have "(104::nat) < BIT_PER_BLOCK" "(104::nat) < 1000" by simp_all
  then have n104: "\<not> data_bitmap_get ?b 104" and some: "\<not> (\<forall>j<1000. data_bitmap_get ?b j)"
    using get [of 104] by (blast intro: less_irrefl)+
  have le: "num_blocks (sblock demo_alloc) \<le> BIT_PER_BLOCK" by (simp add: sb n)
  from cache_alloc_first_free [OF demo_alloc_props(1-3) le used]
  obtain i c' s' where a: "cache_alloc (Some \<lparr>rm = 10, ts = 0\<rparr>) demo_alloc = Inr (i, Some c', s')"
    and i: "i < 1000" "\<not> data_bitmap_get ?b i" "\<forall>j<i. data_bitmap_get ?b j"
    unfolding demo_alloc_props(4) unfolding sb n if_not_P [OF some] by (elim exE conjE)
  have "i < BIT_PER_BLOCK" using i(1) by simp
  then have "\<not> i < 104" using get i(2) by blast
  moreover have "\<not> 104 < i" using n104 i(3) by blast
  ultimately have "i = 104" by linarith
  with a show ?thesis by blast
qed

end
