(* ===== verification/Console.thy ===== *)
theory Console
  imports Semaphore Disk_Layout
begin

text \<open>
  The console's input buffer and line editing (\<^verbatim>\<open>kernel/console.c\<close>, \<^verbatim>\<open>kernel/console.h\<close>).

  The three indices are 64-bit: decrementing is written out as addition of \<open>U64 - 1\<close> modulo \<open>U64\<close>. Characters sent to the UART are
  collected in \<open>uart_out\<close>, and processes hit by Control-C in \<open>kills\<close>; the pid of the running process and the answers of
  \<^verbatim>\<open>kill\<close> are arguments. The loop of \<^verbatim>\<open>console_intr\<close> need not end, so it is a partial function with value \<open>None\<close> when it spins.
\<close>

section \<open>State\<close>

abbreviation (input) INPUT_BUF :: nat where "INPUT_BUF \<equiv> 128"
abbreviation (input) BACKSPACE :: byte where "BACKSPACE \<equiv> 127"
abbreviation (input) CTRL_U :: byte where "CTRL_U \<equiv> 21"
abbreviation (input) CTRL_D :: byte where "CTRL_D \<equiv> 4"
abbreviation (input) CTRL_C :: byte where "CTRL_C \<equiv> 3"
abbreviation (input) NEWLINE :: byte where "NEWLINE \<equiv> 10"
abbreviation (input) RETURN :: byte where "RETURN \<equiv> 13"

record console =
  cons_lock :: SpinLock
  cons_sem :: Semaphore
  cbuf :: "byte list"
  read_idx :: nat
  write_idx :: nat
  edit_idx :: nat
  uart_out :: "byte list"
  kills :: "int list"

definition console_init :: "console \<Rightarrow> console" where
  "console_init c = c\<lparr>cons_lock := init_spinlock (cons_lock c), cons_sem := init_sem 0\<rparr>"

text \<open>The static variable \<^verbatim>\<open>cons\<close> before \<^verbatim>\<open>console_init\<close>.\<close>

definition zero_console :: console where
  "zero_console = \<lparr>cons_lock = \<lparr>locked = False\<rparr>, cons_sem = init_sem 0, cbuf = replicate INPUT_BUF 0, read_idx = 0, write_idx = 0,
     edit_idx = 0, uart_out = [], kills = []\<rparr>"

definition uart_put_char :: "byte \<Rightarrow> console \<Rightarrow> console" where
  "uart_put_char c s = s\<lparr>uart_out := uart_out s @ [c]\<rparr>"

definition dec64 :: "nat \<Rightarrow> nat" where
  "dec64 i = (i + (U64 - 1)) mod U64"

section \<open>Typing\<close>

definition rub_out :: "console \<Rightarrow> console" where
  "rub_out s = uart_put_char 8 (uart_put_char 32 (uart_put_char 8 (s\<lparr>edit_idx := dec64 (edit_idx s) mod INPUT_BUF\<rparr>)))"

text \<open>
  The loop of Control-U. Each round moves the edit index one position back in a buffer of 128, so 128 rounds are enough to reach
  the write index (\<open>kill_line_done\<close>).
\<close>

fun kill_line :: "nat \<Rightarrow> console \<Rightarrow> console" where
  "kill_line 0 s = s"
| "kill_line (Suc k) s =
     (if edit_idx s \<noteq> write_idx s \<and> cbuf s ! (dec64 (edit_idx s) mod INPUT_BUF) \<noteq> NEWLINE
      then kill_line k (rub_out s) else s)"

definition console_full :: "console \<Rightarrow> bool" where
  "console_full s \<longleftrightarrow> (edit_idx s + 1) mod U64 mod INPUT_BUF = read_idx s"

definition push_char :: "byte \<Rightarrow> console \<Rightarrow> console" where
  "push_char c s =
     (let s = s\<lparr>edit_idx := (edit_idx s + 1) mod U64 mod INPUT_BUF\<rparr>;
          s = s\<lparr>cbuf := (cbuf s)[edit_idx s := c]\<rparr>
      in uart_put_char c s)"

definition commit_line :: "console \<Rightarrow> console res" where
  "commit_line s =
     (let s = s\<lparr>write_idx := edit_idx s\<rparr>
      in rbind (sem_post (cons_sem s)) (\<lambda>m. Inr (s\<lparr>cons_sem := m\<rparr>)))"

text \<open>
  One round of the loop in \<^verbatim>\<open>console_intr\<close>: the flag tells whether it ends in \<^verbatim>\<open>continue\<close> (another round with the same
  character) or in \<^verbatim>\<open>break\<close>.
\<close>

definition intr_round :: "int \<Rightarrow> (int \<Rightarrow> int) \<Rightarrow> byte \<Rightarrow> console \<Rightarrow> (bool \<times> console) res" where
  "intr_round pid kill c s =
     (if c = BACKSPACE then
        Inr (False, if edit_idx s \<noteq> write_idx s then rub_out s else s)
      else if c = CTRL_U then Inr (False, kill_line INPUT_BUF s)
      else if c = CTRL_D then
        if console_full s then Inr (True, s)
        else rbind (commit_line (push_char c s)) (\<lambda>s. Inr (False, s))
      else if c = CTRL_C then
        let s = uart_put_char 67 (uart_put_char 94 s)
        in if pid = -1 \<or> pid = 0 \<or> pid = 1 then Inr (False, s)
           else rassert (kill pid \<noteq> -1) (Inr (False, s\<lparr>kills := kills s @ [pid]\<rparr>))
      else
        if console_full s then Inr (True, s)
        else let s = push_char c s
             in if c = NEWLINE \<or> console_full s
                then rbind (commit_line s) (\<lambda>s. Inr (False, s))
                else Inr (False, s))"

partial_function (option) intr_loop :: "int \<Rightarrow> (int \<Rightarrow> int) \<Rightarrow> byte \<Rightarrow> console \<Rightarrow> console res option" where
  "intr_loop pid kill c s =
     (if c = 255 then Some (Inr s)
      else let c = (if c = RETURN then NEWLINE else c)
           in case intr_round pid kill c s of
                Inl e \<Rightarrow> Some (Inl e)
              | Inr r \<Rightarrow> if fst r then intr_loop pid kill c (snd r) else Some (Inr (snd r)))"

definition console_intr :: "int \<Rightarrow> (int \<Rightarrow> int) \<Rightarrow> byte \<Rightarrow> console \<Rightarrow> console res option" where
  "console_intr pid kill c s =
     (case acquire_spinlock (cons_lock s) of
        Inl e \<Rightarrow> Some (Inl e)
      | Inr l \<Rightarrow> map_option (\<lambda>r. rbind r (\<lambda>s. Inr (s\<lparr>cons_lock := release_spinlock (cons_lock s)\<rparr>)))
                   (intr_loop pid kill c (s\<lparr>cons_lock := l\<rparr>)))"

section \<open>Reading and writing\<close>

text \<open>
  The loop of \<^verbatim>\<open>console_read\<close>, with the console lock held. When the buffer is empty the lock is given up and \<^verbatim>\<open>_wait_sem\<close> is called, without
  taking the semaphore's own lock first; a sleep ends only by an alert, which makes the result \<open>None\<close> (the \<^verbatim>\<open>return -1\<close>).
\<close>

definition wait_input :: "bool \<Rightarrow> console \<Rightarrow> (bool \<times> console) res" where
  "wait_input alerted s =
     (let s = s\<lparr>cons_lock := release_spinlock (cons_lock s)\<rparr>
      in case wait_sem_enter 0 0 (cons_sem s, no_waits) of
           ((m, _), None) \<Rightarrow>
             rbind (acquire_spinlock (cons_lock s)) (\<lambda>l. Inr (True, s\<lparr>cons_sem := m, cons_lock := l\<rparr>))
         | ((m, wd), Some w) \<Rightarrow>
             if alerted
             then rbind (wait_sem_resume w (m, wd)) (\<lambda>((m, _), _). Inr (False, s\<lparr>cons_sem := m\<rparr>))
             else Inl Blocked)"

fun console_read_loop :: "bool \<Rightarrow> nat \<Rightarrow> nat \<Rightarrow> byte list \<Rightarrow> console \<Rightarrow> (byte list option \<times> console) res" where
  "console_read_loop alerted target 0 dst s = Inr (Some dst, s)"
| "console_read_loop alerted target (Suc n) dst s =
     rbind (if read_idx s = write_idx s then wait_input alerted s else Inr (True, s)) (\<lambda>(ok, s).
       if \<not> ok then Inr (None, s)
       else let s = s\<lparr>read_idx := (read_idx s + 1) mod U64 mod INPUT_BUF\<rparr>;
                c = cbuf s ! read_idx s
            in if c = CTRL_D
               then Inr (Some dst, if Suc n < target then s\<lparr>read_idx := dec64 (read_idx s)\<rparr> else s)
               else if c = NEWLINE then Inr (Some (dst @ [c]), s)
               else console_read_loop alerted target n (dst @ [c]) s)"

text \<open>The body of \<^verbatim>\<open>console_write\<close> between unlocking and locking the inode.\<close>

definition console_put :: "byte list \<Rightarrow> console \<Rightarrow> console res" where
  "console_put buf s =
     rbind (acquire_spinlock (cons_lock s)) (\<lambda>l.
     let s = fold (\<lambda>c s. uart_put_char (c mod 128) s) buf (s\<lparr>cons_lock := l\<rparr>)
     in Inr (s\<lparr>cons_lock := release_spinlock (cons_lock s)\<rparr>))"

definition console_get :: "bool \<Rightarrow> nat \<Rightarrow> console \<Rightarrow> (byte list option \<times> console) res" where
  "console_get alerted n s =
     rbind (acquire_spinlock (cons_lock s)) (\<lambda>l.
     rbind (console_read_loop alerted n n [] (s\<lparr>cons_lock := l\<rparr>)) (\<lambda>(r, s).
     Inr (r, if r = None then s else s\<lparr>cons_lock := release_spinlock (cons_lock s)\<rparr>)))"

section \<open>Invariant and pending input\<close>

definition console_ok :: "console \<Rightarrow> bool" where
  "console_ok s \<longleftrightarrow> length (cbuf s) = INPUT_BUF \<and> read_idx s < INPUT_BUF \<and> write_idx s < INPUT_BUF \<and> edit_idx s < INPUT_BUF
     \<and> (\<exists>v. quiet_sem v (cons_sem s)) \<and> \<not> locked (cons_lock s)"

text \<open>Distances in the ring.\<close>

definition ring_dist :: "nat \<Rightarrow> nat \<Rightarrow> nat" where
  "ring_dist i j = (j + INPUT_BUF - i) mod INPUT_BUF"

lemma dec64_mod: "i < INPUT_BUF \<Longrightarrow> dec64 i mod INPUT_BUF = (if i = 0 then 127 else i - 1)"
proof (cases "i = 0")
  case False
  assume "i < INPUT_BUF"
  then have "dec64 i = (i - 1 + U64) mod U64" using False by (simp add: dec64_def add.commute)
  also have "\<dots> = i - 1" using \<open>i < INPUT_BUF\<close> by simp
  finally show ?thesis using False \<open>i < INPUT_BUF\<close> by simp
qed (simp add: dec64_def)

lemma inc64_mod: "i < INPUT_BUF \<Longrightarrow> (i + 1) mod U64 mod INPUT_BUF = (if i = 127 then 0 else i + 1)"
  by auto

lemma ring_dist_less [simp]: "ring_dist i j < INPUT_BUF" by (simp add: ring_dist_def)

lemma ring_dist_eq_0: "i < INPUT_BUF \<Longrightarrow> j < INPUT_BUF \<Longrightarrow> ring_dist i j = 0 \<longleftrightarrow> i = j"
  by (auto simp: ring_dist_def mod_if split: if_splits)

lemma ring_dist_dec:
  assumes "i < INPUT_BUF" "j < INPUT_BUF" "i \<noteq> j"
  shows "Suc (ring_dist i (if j = 0 then 127 else j - 1)) = ring_dist i j"
  using assms by (auto simp: ring_dist_def mod_if split: if_splits)

lemma rub_out_simps [simp]:
  "cbuf (rub_out s) = cbuf s" "write_idx (rub_out s) = write_idx s" "read_idx (rub_out s) = read_idx s"
  "edit_idx (rub_out s) = dec64 (edit_idx s) mod INPUT_BUF" "cons_sem (rub_out s) = cons_sem s" "cons_lock (rub_out s) = cons_lock s"
  by (simp_all add: rub_out_def uart_put_char_def)

lemma kill_line_done:
  assumes "write_idx s < INPUT_BUF" and "edit_idx s < INPUT_BUF" and "ring_dist (write_idx s) (edit_idx s) \<le> k"
  shows "edit_idx (kill_line k s) = write_idx s \<or> cbuf s ! (dec64 (edit_idx (kill_line k s)) mod INPUT_BUF) = NEWLINE"
  using assms
proof (induction k arbitrary: s)
  case 0
  then show ?case using ring_dist_eq_0 by simp
next
  case (Suc k)
  show ?case
  proof (cases "edit_idx s \<noteq> write_idx s \<and> cbuf s ! (dec64 (edit_idx s) mod INPUT_BUF) \<noteq> NEWLINE")
    case True
    then have "ring_dist (write_idx s) (edit_idx (rub_out s)) \<le> k"
      using Suc.prems ring_dist_dec [OF Suc.prems(1,2)] dec64_mod [OF Suc.prems(2)] by (auto split: if_splits)
    with Suc.IH [of "rub_out s"] Suc.prems(1) True show ?thesis by simp
  qed auto
qed

text \<open>The characters from behind the read index up to index \<open>j\<close>.\<close>

definition pending :: "console \<Rightarrow> nat \<Rightarrow> byte list" where
  "pending s j = map (\<lambda>i. cbuf s ! ((read_idx s + 1 + i) mod INPUT_BUF)) [0..<ring_dist (read_idx s) j]"

lemma ring_dist_inc:
  assumes "i < INPUT_BUF" "j < INPUT_BUF" "(j + 1) mod INPUT_BUF \<noteq> i"
  shows "ring_dist i ((j + 1) mod INPUT_BUF) = Suc (ring_dist i j)"
  using assms by (auto simp: ring_dist_def mod_if split: if_splits)

lemma ring_dist_pos:
  assumes "i < INPUT_BUF" "j < INPUT_BUF"
  shows "(i + ring_dist i j) mod INPUT_BUF = j"
  using assms by (auto simp: ring_dist_def mod_if split: if_splits)

lemma push_char_simps [simp]:
  "read_idx (push_char c s) = read_idx s" "write_idx (push_char c s) = write_idx s" "cons_sem (push_char c s) = cons_sem s"
  "cons_lock (push_char c s) = cons_lock s" "edit_idx (push_char c s) = (edit_idx s + 1) mod U64 mod INPUT_BUF"
  "cbuf (push_char c s) = (cbuf s)[(edit_idx s + 1) mod U64 mod INPUT_BUF := c]"
  by (simp_all add: push_char_def uart_put_char_def Let_def)

lemma mod_U64_INPUT_BUF: "n < U64 \<Longrightarrow> n mod U64 mod INPUT_BUF = n mod INPUT_BUF" by simp

lemma pending_push:
  assumes ok: "console_ok s" and nf: "\<not> console_full s"
  shows "pending (push_char c s) (edit_idx (push_char c s)) = pending s (edit_idx s) @ [c]"
proof -
  let ?r = "read_idx s" and ?e = "edit_idx s"
  let ?d = "ring_dist ?r ?e" and ?e' = "(?e + 1) mod INPUT_BUF"
  have b: "?r < INPUT_BUF" "?e < INPUT_BUF" "length (cbuf s) = INPUT_BUF" using ok by (auto simp: console_ok_def)
  have e': "(?e + 1) mod U64 mod INPUT_BUF = ?e'" using b by (intro mod_U64_INPUT_BUF) simp
  have ne: "?e' \<noteq> ?r" using nf e' by (simp add: console_full_def)
  have d: "ring_dist ?r ?e' = Suc ?d" using ring_dist_inc [OF b(1,2) ne] .
  then have d127: "?d < 127" using ring_dist_less [of ?r ?e'] by simp
  have pos: "(?r + 1 + ?d) mod INPUT_BUF = ?e'"
    using ring_dist_pos [OF b(1,2)] by (metis (no_types, lifting) add.commute add.left_commute mod_add_left_eq)
  have other: "?e' \<noteq> (?r + 1 + i) mod INPUT_BUF" if "i < ?d" for i
  proof
    assume "?e' = (?r + 1 + i) mod INPUT_BUF"
    then have "(?r + 1 + i) mod 128 = (?r + 1 + ?d) mod 128" using pos by simp
    then have "(?d - i) mod 128 = 0" using that
      by (metis add_diff_cancel_left diff_is_0_eq' le_add_diff_inverse less_imp_le_nat mod_0 mod_eq_dvd_iff_nat dvd_imp_mod_0 nat_add_left_cancel_le)
    then show False using that d127 by simp
  qed
  have "map (\<lambda>i. (cbuf s)[?e' := c] ! ((?r + 1 + i) mod INPUT_BUF)) [0..<?d] = pending s ?e"
    using other by (simp add: pending_def)
  moreover have "(cbuf s)[?e' := c] ! ((?r + 1 + ?d) mod INPUT_BUF) = c" using pos b(3) by simp
  ultimately show ?thesis unfolding pending_def push_char_simps e' d by (simp add: pending_def)
qed

lemma length_pending [simp]: "length (pending s j) = ring_dist (read_idx s) j"
  by (simp add: pending_def)

lemma console_ok_push: "console_ok s \<Longrightarrow> console_ok (push_char c s)"
  by (auto simp: console_ok_def)

lemma full_iff:
  assumes "console_ok s"
  shows "console_full s \<longleftrightarrow> ring_dist (read_idx s) (edit_idx s) = 127"
  using assms by (auto simp: console_full_def console_ok_def ring_dist_def mod_if split: if_splits)

definition plain :: "byte \<Rightarrow> bool" where
  "plain c \<longleftrightarrow> c \<notin> {BACKSPACE, CTRL_U, CTRL_D, CTRL_C, NEWLINE, RETURN, 255}"

lemma console_lock_cycle:
  assumes "console_ok s"
  shows "acquire_spinlock (cons_lock s) = Inr ((cons_lock s)\<lparr>locked := True\<rparr>)"
    "release_spinlock ((cons_lock s)\<lparr>locked := True\<rparr>) = cons_lock s"
  using assms quiet_unlock by (auto simp: console_ok_def)

lemma push_char_lock: "push_char c (s\<lparr>cons_lock := l\<rparr>) = (push_char c s)\<lparr>cons_lock := l\<rparr>"
  by (simp add: push_char_def uart_put_char_def Let_def)

lemma console_full_lock [simp]: "console_full (s\<lparr>cons_lock := l\<rparr>) = console_full s"
  by (simp add: console_full_def)

lemma intr_plain:
  assumes ok: "console_ok s" and c: "plain c" and room: "ring_dist (read_idx s) (edit_idx s) < 126"
  shows "console_intr pid kill c s = Some (Inr (push_char c s))"
proof -
  have nf: "\<not> console_full s" using full_iff [OF ok] room by simp
  have "length (pending (push_char c s) (edit_idx (push_char c s))) = Suc (ring_dist (read_idx s) (edit_idx s))"
    unfolding pending_push [OF ok nf] by simp
  then have nf': "\<not> console_full (push_char c s)"
    using full_iff [OF console_ok_push [OF ok], of c] room by (simp only: length_pending)
  have "intr_round pid kill c (s\<lparr>cons_lock := l\<rparr>) = Inr (False, (push_char c s)\<lparr>cons_lock := l\<rparr>)" for l
    using c nf nf' by (simp add: intr_round_def plain_def push_char_lock)
  then show ?thesis
    using c console_lock_cycle [OF ok] by (simp add: console_intr_def intr_loop.simps plain_def)
qed

definition commit_state :: "console \<Rightarrow> console" where
  "commit_state s = s\<lparr>write_idx := edit_idx s, cons_sem := (cons_sem s)\<lparr>sval := sval (cons_sem s) + 1\<rparr>\<rparr>"

lemma intr_newline:
  assumes ok: "console_ok s" and room: "ring_dist (read_idx s) (edit_idx s) < 127" and c: "c = NEWLINE \<or> c = RETURN"
  shows "console_intr pid kill c s = Some (Inr (commit_state (push_char NEWLINE s)))"
proof -
  have nf: "\<not> console_full s" using full_iff [OF ok] room by simp
  obtain v where "quiet_sem v (cons_sem s)" using ok by (auto simp: console_ok_def)
  then have p: "sem_post (cons_sem s) = Inr ((cons_sem s)\<lparr>sval := sval (cons_sem s) + 1\<rparr>)"
    using sem_post_quiet [of v "cons_sem s"] by (simp add: quiet_sem_def)
  have "intr_round pid kill NEWLINE (s\<lparr>cons_lock := l\<rparr>) = Inr (False, (commit_state (push_char NEWLINE s))\<lparr>cons_lock := l\<rparr>)" for l
    using nf p by (simp add: intr_round_def push_char_lock commit_line_def commit_state_def)
  then show ?thesis
    using c console_lock_cycle [OF ok] by (auto simp: console_intr_def intr_loop.simps commit_state_def)
qed

text \<open>Typing a sequence of characters, one interrupt after the other.\<close>

fun type_chars :: "int \<Rightarrow> (int \<Rightarrow> int) \<Rightarrow> byte list \<Rightarrow> console \<Rightarrow> console res option" where
  "type_chars pid kill [] s = Some (Inr s)"
| "type_chars pid kill (c # cs) s =
     (case console_intr pid kill c s of Some (Inr s') \<Rightarrow> type_chars pid kill cs s' | r \<Rightarrow> r)"

lemma type_chars_append:
  "type_chars pid kill (cs @ cs') s = (case type_chars pid kill cs s of Some (Inr s') \<Rightarrow> type_chars pid kill cs' s' | r \<Rightarrow> r)"
  by (induction cs arbitrary: s) (auto split: option.splits sum.splits)

lemma type_plain:
  assumes "console_ok s" and "\<forall>c\<in>set cs. plain c" and "ring_dist (read_idx s) (edit_idx s) + length cs \<le> 126"
  shows "\<exists>s'. type_chars pid kill cs s = Some (Inr s') \<and> console_ok s' \<and> pending s' (edit_idx s') = pending s (edit_idx s) @ cs
    \<and> read_idx s' = read_idx s \<and> write_idx s' = write_idx s \<and> cons_sem s' = cons_sem s"
  using assms
proof (induction cs arbitrary: s)
  case (Cons c cs)
  let ?s = "push_char c s"
  have nf: "\<not> console_full s" using full_iff [OF Cons.prems(1)] Cons.prems(3) by simp
  note p = pending_push [OF Cons.prems(1) nf, of c]
  have "length (pending ?s (edit_idx ?s)) = Suc (ring_dist (read_idx s) (edit_idx s))" unfolding p by simp
  then have "ring_dist (read_idx ?s) (edit_idx ?s) + length cs \<le> 126" using Cons.prems(3) by (simp only: length_pending length_Cons)
  from Cons.IH [OF console_ok_push [OF Cons.prems(1)] _ this] Cons.prems(2) obtain s' where
    "type_chars pid kill cs ?s = Some (Inr s')" "console_ok s'" "pending s' (edit_idx s') = pending ?s (edit_idx ?s) @ cs"
    "read_idx s' = read_idx s" "write_idx s' = write_idx s" "cons_sem s' = cons_sem s" by auto
  moreover have "console_intr pid kill c s = Some (Inr ?s)" using Cons.prems by (intro intr_plain) auto
  ultimately show ?case using p by auto
qed simp

text \<open>Reading: the loop takes the pending characters up to and including the first newline.\<close>

lemma pending_Cons:
  assumes ok: "console_ok s" and p: "pending s (write_idx s) = c # cs"
  defines "s' \<equiv> s\<lparr>read_idx := (read_idx s + 1) mod U64 mod INPUT_BUF\<rparr>"
  shows "read_idx s \<noteq> write_idx s" "cbuf s ! read_idx s' = c" "pending s' (write_idx s') = cs" "console_ok s'"
proof -
  let ?r = "read_idx s" and ?w = "write_idx s"
  have b: "?r < INPUT_BUF" "?w < INPUT_BUF" using ok by (auto simp: console_ok_def)
  have r': "read_idx s' = (?r + 1) mod INPUT_BUF" using b by (simp add: s'_def del: One_nat_def)
  have len: "ring_dist ?r ?w = Suc (length cs)" using arg_cong [OF p, of length] by simp
  then show "?r \<noteq> ?w" using ring_dist_eq_0 [OF b] by auto
  have d: "ring_dist (read_idx s') ?w = length cs"
    using len b unfolding r' by (auto simp: ring_dist_def mod_if split: if_splits)
  have nth: "(c # cs) ! i = cbuf s ! ((?r + 1 + i) mod INPUT_BUF)" if "i < Suc (length cs)" for i
    unfolding p [symmetric] pending_def using that len by (simp del: upt_Suc)
  show "cbuf s ! read_idx s' = c" using nth [of 0] by (simp add: r')
  show "pending s' (write_idx s') = cs"
  proof (rule nth_equalityI)
    show "length (pending s' (write_idx s')) = length cs" using d by (simp add: s'_def)
    fix i assume "i < length (pending s' (write_idx s'))"
    then have i: "i < length cs" using d by (simp add: s'_def)
    have "((?r + 1) mod 128 + 1 + i) mod 128 = (?r + 1 + Suc i) mod 128"
      by (metis (no_types, lifting) add.assoc add_Suc_right mod_add_left_eq plus_1_eq_Suc)
    then show "pending s' (write_idx s') ! i = cs ! i"
      using nth [of "Suc i"] i d r' by (simp add: pending_def s'_def del: upt_Suc)
  qed
  show "console_ok s'" using ok by (auto simp: console_ok_def s'_def)
qed

lemma read_idx_lock: "s\<lparr>cons_lock := l, read_idx := i\<rparr> = s\<lparr>read_idx := i, cons_lock := l\<rparr>"
  by (cases s) simp

lemma console_read_line:
  assumes "console_ok s" and "pending s (write_idx s) = cs @ NEWLINE # rest" and "\<forall>c\<in>set cs. c \<noteq> NEWLINE \<and> c \<noteq> CTRL_D"
    and "length cs < n"
  shows "\<exists>s'. console_read_loop alerted target n dst (s\<lparr>cons_lock := l\<rparr>) = Inr (Some (dst @ cs @ [NEWLINE]), s'\<lparr>cons_lock := l\<rparr>)
    \<and> console_ok s' \<and> cons_lock s' = cons_lock s \<and> pending s' (write_idx s') = rest"
  using assms
proof (induction cs arbitrary: n s dst)
  case Nil
  then obtain m where n: "n = Suc m" by (cases n) auto
  note p = pending_Cons [OF Nil.prems(1), of NEWLINE rest, OF Nil.prems(2) [simplified]]
  let ?s = "s\<lparr>read_idx := (read_idx s + 1) mod U64 mod INPUT_BUF\<rparr>"
  have "console_read_loop alerted target n dst (s\<lparr>cons_lock := l\<rparr>) = Inr (Some (dst @ [NEWLINE]), ?s\<lparr>cons_lock := l\<rparr>)"
    using p(1,2) by (simp add: n Let_def read_idx_lock)
  then show ?case using p(3,4) by (intro exI [of _ ?s]) simp
next
  case (Cons c cs)
  then obtain m where n: "n = Suc m" by (cases n) auto
  let ?s = "s\<lparr>read_idx := (read_idx s + 1) mod U64 mod INPUT_BUF\<rparr>"
  note p = pending_Cons [OF Cons.prems(1), of c "cs @ NEWLINE # rest", OF Cons.prems(2) [simplified]]
  have step: "console_read_loop alerted target n dst (s\<lparr>cons_lock := l\<rparr>)
      = console_read_loop alerted target m (dst @ [c]) (?s\<lparr>cons_lock := l\<rparr>)"
    using p(1,2) Cons.prems(3) by (simp add: n Let_def read_idx_lock)
  show ?case
    using Cons.IH [OF p(4,3), of m "dst @ [c]"] Cons.prems(3,4) unfolding step by (simp add: n)
qed

lemma intr_loop_spins:
  assumes "intr_loop pid kill c s = Some r" and "console_full s"
  shows "\<not> (plain c \<or> c \<in> {NEWLINE, RETURN, CTRL_D})"
proof -
  let ?P = "\<lambda>(pid :: int) (kill :: int \<Rightarrow> int) c s (r :: console res). console_full s \<longrightarrow> \<not> (plain c \<or> c \<in> {NEWLINE, RETURN, CTRL_D})"
  have "?P pid kill c s r"
  proof (rule intr_loop.raw_induct [of ?P, OF _ assms(1)], intro impI notI)
    fix f pid kill c s r
    assume IH: "\<And>pid kill c s r. f pid kill c s = Some r \<Longrightarrow> ?P pid kill c s r" and full: "console_full s"
      and c: "plain c \<or> c \<in> {NEWLINE, RETURN, CTRL_D}"
      and body: "(if c = 255 then Some (Inr s)
         else let c = if c = RETURN then NEWLINE else c
              in case intr_round pid kill c s of Inl e \<Rightarrow> Some (Inl e)
                 | Inr q \<Rightarrow> if fst q then f pid kill c (snd q) else Some (Inr (snd q))) = Some r"
    let ?c = "if c = RETURN then NEWLINE else c"
    have "intr_round pid kill ?c s = Inr (True, s)" "plain ?c \<or> ?c \<in> {NEWLINE, RETURN, CTRL_D}" "c \<noteq> 255"
      using full c by (auto simp: intr_round_def plain_def)
    then show False using body IH [of pid kill ?c s r] full by (simp add: Let_def)
  qed
  with assms(2) show ?thesis by simp
qed

section \<open>Properties\<close>

text \<open>
  C25: a line of at most 125 ordinary characters, typed into a console with no pending input and ended by return or newline, is handed
  out by the next read of sufficient length, with the newline, and leaves nothing behind.
\<close>
theorem console_line_roundtrip:
  assumes "console_ok s" and "read_idx s = write_idx s" and "write_idx s = edit_idx s"
    and "\<forall>c\<in>set cs. plain c" and "length cs \<le> 125" and "length cs < n" and "e = NEWLINE \<or> e = RETURN"
  shows "\<exists>s1 s2. type_chars pid kill (cs @ [e]) s = Some (Inr s1) \<and> console_get alerted n s1 = Inr (Some (cs @ [NEWLINE]), s2)
    \<and> console_ok s2 \<and> pending s2 (write_idx s2) = []"
proof -
  have b: "read_idx s < INPUT_BUF" using assms(1) by (simp add: console_ok_def)
  have d0: "ring_dist (read_idx s) (edit_idx s) = 0" using assms(2,3) b by (simp add: ring_dist_def)
  then have empty: "pending s (edit_idx s) = []" by (simp add: pending_def)
  from type_plain [OF assms(1,4)] d0 assms(5) obtain s1 where
    1: "type_chars pid kill cs s = Some (Inr s1)" "console_ok s1" "pending s1 (edit_idx s1) = cs" by (auto simp: empty)
  have len: "ring_dist (read_idx s1) (edit_idx s1) = length cs" using arg_cong [OF 1(3), of length] by simp
  have room: "ring_dist (read_idx s1) (edit_idx s1) < 127" using len assms(5) by simp
  let ?s = "commit_state (push_char NEWLINE s1)"
  have nf: "\<not> console_full s1" using full_iff [OF 1(2)] room by simp
  have i: "console_intr pid kill e s1 = Some (Inr ?s)" using intr_newline [OF 1(2) room assms(7)] .
  have p: "pending ?s (write_idx ?s) = cs @ [NEWLINE]"
    using pending_push [OF 1(2) nf, of NEWLINE] 1(3) by (simp add: commit_state_def pending_def)
  obtain v where v: "quiet_sem v (cons_sem s1)" using 1(2) by (auto simp: console_ok_def)
  then have "quiet_sem (v + 1) (cons_sem ?s)" by (simp add: commit_state_def quiet_sem_def)
  then have ok: "console_ok ?s" using console_ok_push [OF 1(2), of NEWLINE] by (auto simp: console_ok_def commit_state_def)
  have cs: "\<forall>c\<in>set cs. c \<noteq> NEWLINE \<and> c \<noteq> CTRL_D" using assms(4) by (auto simp: plain_def)
  from console_read_line [OF ok _ cs assms(6), of "[]" alerted n "[]" "(cons_lock ?s)\<lparr>locked := True\<rparr>"] p obtain s2 where
    2: "console_read_loop alerted n n [] (?s\<lparr>cons_lock := (cons_lock ?s)\<lparr>locked := True\<rparr>\<rparr>)
        = Inr (Some (cs @ [NEWLINE]), s2\<lparr>cons_lock := (cons_lock ?s)\<lparr>locked := True\<rparr>\<rparr>)"
      "console_ok s2" "cons_lock s2 = cons_lock ?s" "pending s2 (write_idx s2) = []" by auto
  have "console_get alerted n ?s = Inr (Some (cs @ [NEWLINE]), s2)"
    using 2(1,3) console_lock_cycle [OF ok] by (simp add: console_get_def)
  then show ?thesis using 1(1) i 2 by (auto simp: type_chars_append)
qed

theorem console_line_roundtrip_witness:
  "\<exists>s1 s2. type_chars 5 (\<lambda>_. 0) [108, 115, 13] (console_init zero_console) = Some (Inr s1)
    \<and> console_get False 10 s1 = Inr (Some [108, 115, 10], s2)"
proof -
  have "console_ok (console_init zero_console)"
    using quiet_init [of 0] by (auto simp: console_ok_def console_init_def zero_console_def init_spinlock_def)
  from console_line_roundtrip [OF this, of "[108, 115]" 10 13 5 "\<lambda>_. 0" False]
  show ?thesis by (simp add: console_init_def zero_console_def plain_def) blast
qed

text \<open>
  When the ring has no free position, the interrupt handler never returns for an ordinary character or Control-D: its loop goes
  round with the same character and the same state, with the console lock held.
\<close>
theorem console_intr_spins_when_full:
  assumes "console_full s" and "\<not> locked (cons_lock s)" and "plain c \<or> c \<in> {NEWLINE, RETURN, CTRL_D}"
  shows "console_intr pid kill c s = None"
proof -
  have "console_full (s\<lparr>cons_lock := l\<rparr>)" for l using assms(1) by simp
  then have "intr_loop pid kill c (s\<lparr>cons_lock := l\<rparr>) = None" for l
    using intr_loop_spins assms(3) by (metis not_Some_eq)
  then show ?thesis using assms(2) by (simp add: console_intr_def)
qed

theorem console_intr_spins_when_full_witness:
  "console_intr 5 (\<lambda>_. 0) 97 (zero_console\<lparr>read_idx := 1\<rparr>) = None"
  by (rule console_intr_spins_when_full) (simp_all add: console_full_def zero_console_def plain_def)

text \<open>
  After a line has been typed and read completely, the semaphore still has the unit posted for it, so the next read does not wait
  although nothing is pending: it hands out whatever the ring holds behind the write index.
\<close>
theorem console_read_stale:
  "\<exists>s1 s2 s3. type_chars 5 (\<lambda>_. 0) [97, 10] zero_console = Some (Inr s1)
    \<and> console_get False 2 s1 = Inr (Some [97, 10], s2) \<and> read_idx s2 = write_idx s2
    \<and> console_get False 1 s2 = Inr (Some [0], s3)"
proof -
  let ?z = "zero_console"
  have ok: "console_ok ?z" using quiet_init [of 0] by (auto simp: console_ok_def zero_console_def)
  let ?s1 = "?z\<lparr>cbuf := (cbuf ?z)[Suc 0 := 97, Suc (Suc 0) := 10], edit_idx := Suc (Suc 0), write_idx := Suc (Suc 0),
                uart_out := [97, 10], cons_sem := init_sem 1\<rparr>"
  have "type_chars 5 (\<lambda>_. 0) [97, 10] ?z = Some (Inr ?s1)"
    using intr_plain [OF ok, of 97] intr_newline [OF console_ok_push [OF ok], of 97 10]
    by (simp add: plain_def push_char_def uart_put_char_def commit_state_def ring_dist_def zero_console_def Let_def init_sem_def)
  moreover have "console_get False 2 ?s1 = Inr (Some [97, 10], ?s1\<lparr>read_idx := 2\<rparr>)"
    unfolding numeral_2_eq_2 by (simp add: console_get_def zero_console_def Let_def release_spinlock_eq)
  moreover have "console_get False 1 (?s1\<lparr>read_idx := 2\<rparr>) = Inr (Some [0], ?s1\<lparr>read_idx := 3, cons_sem := init_sem 0\<rparr>)"
    by (simp add: console_get_def zero_console_def Let_def release_spinlock_eq wait_input_def wait_sem_enter_def init_sem_def
        unlock_sem_def)
  ultimately show ?thesis by (intro exI conjI) (assumption | simp)+
qed

end
