(* ===== verification/Inode.thy ===== *)
theory Inode
  imports Cache CString Console
begin

text \<open>
  The inode layer (\<^verbatim>\<open>fs/inode.c\<close>, \<^verbatim>\<open>fs/inode.h\<close>): inodes in memory, file contents, directories and path lookup.

  An \<^verbatim>\<open>Inode *\<close> is represented by the inode's number, 0 for \<^verbatim>\<open>NULL\<close>; the list behind \<^verbatim>\<open>head\<close> is the map \<open>itable\<close> from the numbers
  to the inodes in memory, and using an inode that has been freed is a \<open>Fault\<close>. An \<^verbatim>\<open>OpContext *\<close> is an option, returned
  with what the call has used up. \<^verbatim>\<open>u32 *addrs\<close> obtained by \<^verbatim>\<open>get_addrs\<close> points into the cached block and is used after the
  block's release: \<open>indirect_get\<close> and \<open>indirect_set\<close> access the cached copy, and fault when the block has left the cache. Device
  inodes go to the console of \<open>Console\<close>. Unsigned 64-bit sums are reduced modulo \<open>U64\<close>.
\<close>

section \<open>State\<close>

record Inode =
  ino_lock :: Semaphore
  rc :: RefCount
  ino :: nat
  ivalid :: bool
  entry :: InodeEntry

record itree =
  bc :: bcache
  ilock :: SpinLock
  itable :: "nat \<rightharpoonup> Inode"
  iroot :: nat
  cons :: console

type_synonym ctx = "OpContext option"

definition get_inode :: "nat \<Rightarrow> itree \<Rightarrow> Inode res" where
  "get_inode n s = (case itable s n of None \<Rightarrow> Inl Fault | Some i \<Rightarrow> Inr i)"

definition set_inode :: "nat \<Rightarrow> (Inode \<Rightarrow> Inode) \<Rightarrow> itree \<Rightarrow> itree" where
  "set_inode n f s = s\<lparr>itable := (itable s)(n := map_option f (itable s n))\<rparr>"

definition set_entry :: "nat \<Rightarrow> (InodeEntry \<Rightarrow> InodeEntry) \<Rightarrow> itree \<Rightarrow> itree" where
  "set_entry n f = set_inode n (\<lambda>i. i\<lparr>entry := f (entry i)\<rparr>)"

text \<open>The calls through \<^verbatim>\<open>cache->...\<close>.\<close>

definition fs_acquire :: "nat \<Rightarrow> itree \<Rightarrow> itree res" where
  "fs_acquire b s = rbind (cache_acquire b (bc s)) (\<lambda>c. Inr (s\<lparr>bc := c\<rparr>))"

definition fs_release :: "nat \<Rightarrow> itree \<Rightarrow> itree res" where
  "fs_release b s = rbind (cache_release b (bc s)) (\<lambda>c. Inr (s\<lparr>bc := c\<rparr>))"

definition fs_sync :: "ctx \<Rightarrow> nat \<Rightarrow> itree \<Rightarrow> (ctx \<times> itree) res" where
  "fs_sync ctx b s = rbind (cache_sync ctx b (bc s)) (\<lambda>(ctx, c). Inr (ctx, s\<lparr>bc := c\<rparr>))"

definition fs_alloc :: "ctx \<Rightarrow> itree \<Rightarrow> (nat \<times> ctx \<times> itree) res" where
  "fs_alloc ctx s = rbind (cache_alloc ctx (bc s)) (\<lambda>(b, ctx, c). Inr (b, ctx, s\<lparr>bc := c\<rparr>))"

definition fs_free :: "ctx \<Rightarrow> nat \<Rightarrow> itree \<Rightarrow> (ctx \<times> itree) res" where
  "fs_free ctx b s = rbind (cache_free ctx b (bc s)) (\<lambda>(ctx, c). Inr (ctx, s\<lparr>bc := c\<rparr>))"

definition fs_data :: "nat \<Rightarrow> itree \<Rightarrow> byte list res" where
  "fs_data b s = block_data b (bc s)"

definition fs_set_data :: "nat \<Rightarrow> byte list \<Rightarrow> itree \<Rightarrow> itree" where
  "fs_set_data b d s = s\<lparr>bc := set_block_data b d (bc s)\<rparr>"

section \<open>Inodes on disk and in memory\<close>

definition to_block_no :: "itree \<Rightarrow> nat \<Rightarrow> nat" where
  "to_block_no s n = inode_start (sblock (bc s)) + n div INODE_PER_BLOCK"

definition get_entry :: "byte list \<Rightarrow> nat \<Rightarrow> InodeEntry" where
  "get_entry d n = slot_get dec_InodeEntry 64 (n mod INODE_PER_BLOCK) d"

definition put_entry :: "nat \<Rightarrow> InodeEntry \<Rightarrow> byte list \<Rightarrow> byte list" where
  "put_entry n e d = slot_put enc_InodeEntry 64 (n mod INODE_PER_BLOCK) e d"

definition indirect_get :: "nat \<Rightarrow> nat \<Rightarrow> itree \<Rightarrow> nat res" where
  "indirect_get b i s = (if i < INODE_NUM_INDIRECT then rbind (fs_data b s) (\<lambda>d. Inr (slot_get le_dec 4 i d)) else Inl Fault)"

definition indirect_set :: "nat \<Rightarrow> nat \<Rightarrow> nat \<Rightarrow> itree \<Rightarrow> itree res" where
  "indirect_set b i a s =
     (if i < INODE_NUM_INDIRECT then rbind (fs_data b s) (\<lambda>d. Inr (fs_set_data b (slot_put (le_enc 4) 4 i a d) s)) else Inl Fault)"

definition zero_entry :: InodeEntry where
  "zero_entry = \<lparr>itype = 0, major = 0, minor = 0, num_links = 0, num_bytes = 0, addrs = replicate INODE_NUM_DIRECT 0, indirect = 0\<rparr>"

definition init_inode :: Inode where
  "init_inode = \<lparr>ino_lock = init_sem 1, rc = \<lparr>count = 0\<rparr>, ino = 0, ivalid = False, entry = zero_entry\<rparr>"

fun inode_alloc_from :: "ctx \<Rightarrow> nat \<Rightarrow> nat list \<Rightarrow> itree \<Rightarrow> (nat \<times> ctx \<times> itree) res" where
  "inode_alloc_from ctx type [] s = Inl Panic"
| "inode_alloc_from ctx type (n # ns) s =
     (let b = to_block_no s n
      in rbind (fs_acquire b s) (\<lambda>s.
         rbind (fs_data b s) (\<lambda>d.
         if itype (get_entry d n) = INODE_INVALID
         then let s = fs_set_data b (put_entry n (zero_entry\<lparr>itype := type\<rparr>) d) s
              in rbind (fs_sync ctx b s) (\<lambda>(ctx, s).
                 rbind (fs_release b s) (\<lambda>s.
                 Inr (n, ctx, s\<lparr>ilock := release_spinlock (ilock s)\<rparr>)))
         else rbind (fs_release b s) (inode_alloc_from ctx type ns))))"

definition inode_alloc :: "ctx \<Rightarrow> nat \<Rightarrow> itree \<Rightarrow> (nat \<times> ctx \<times> itree) res" where
  "inode_alloc ctx type s =
     rassert (type \<noteq> INODE_INVALID)
       (rbind (acquire_spinlock (ilock s)) (\<lambda>l.
        inode_alloc_from ctx type [1..<num_inodes (sblock (bc s))] (s\<lparr>ilock := l\<rparr>)))"

definition inode_lock :: "nat \<Rightarrow> itree \<Rightarrow> itree res" where
  "inode_lock n s = rbind (get_inode n s) (\<lambda>i.
     rassert (0 < sint (count (rc i)))
       (rbind (sem_wait (ino_lock i)) (\<lambda>m. Inr (set_inode n (\<lambda>i. i\<lparr>ino_lock := m\<rparr>) s))))"

definition inode_unlock :: "nat \<Rightarrow> itree \<Rightarrow> itree res" where
  "inode_unlock n s = rbind (get_inode n s) (\<lambda>i.
     rassert (0 < sint (count (rc i)))
       (rbind (sem_post (ino_lock i)) (\<lambda>m. Inr (set_inode n (\<lambda>i. i\<lparr>ino_lock := m\<rparr>) s))))"

definition inode_sync :: "ctx \<Rightarrow> nat \<Rightarrow> bool \<Rightarrow> itree \<Rightarrow> (ctx \<times> itree) res" where
  "inode_sync ctx n do_write s = rbind (get_inode n s) (\<lambda>i.
     let b = to_block_no s n
     in if ivalid i \<and> do_write then
          rbind (fs_acquire b s) (\<lambda>s.
          rbind (fs_data b s) (\<lambda>d.
          rbind (fs_sync ctx b (fs_set_data b (put_entry n (entry i) d) s)) (\<lambda>(ctx, s).
          rbind (fs_release b s) (\<lambda>s. Inr (ctx, s)))))
        else if \<not> ivalid i \<and> \<not> do_write then
          rbind (fs_acquire b s) (\<lambda>s.
          rbind (fs_data b s) (\<lambda>d.
          rbind (fs_release b (set_inode n (\<lambda>i. i\<lparr>entry := get_entry d n, ivalid := True\<rparr>) s)) (\<lambda>s.
          Inr (ctx, s))))
        else if ivalid i \<and> \<not> do_write then Inr (ctx, s)
        else Inl Panic)"

text \<open>
  \<^verbatim>\<open>inode_get\<close> links the new inode into the list only at the end; with numbers for pointers it has to be in the table before it can be
  locked and read, which a single thread cannot tell apart.
\<close>

definition inode_get :: "nat \<Rightarrow> itree \<Rightarrow> (nat \<times> itree) res" where
  "inode_get n s =
     (if n = 0 then Inr (0, s)
      else rassert (n < num_inodes (sblock (bc s)))
        (case itable s n of
           Some i \<Rightarrow>
             let s = set_inode n (\<lambda>i. i\<lparr>rc := increment_rc (rc i)\<rparr>) s
             in Inr (n, s\<lparr>ilock := release_spinlock (ilock s)\<rparr>)
         | None \<Rightarrow>
             let i = init_inode\<lparr>ino := n\<rparr>;
                 i = i\<lparr>rc := increment_rc (rc i)\<rparr>;
                 s = s\<lparr>itable := (itable s)(n \<mapsto> i)\<rparr>
             in rbind (inode_lock n s) (\<lambda>s.
                rbind (inode_sync None n False s) (\<lambda>(_, s).
                rbind (inode_unlock n s) (\<lambda>s. Inr (n, s))))))"

definition init_inodes :: "bcache \<Rightarrow> itree \<Rightarrow> itree res" where
  "init_inodes c s =
     (let s = s\<lparr>ilock := init_spinlock (ilock s), itable := (\<lambda>_. None), bc := c\<rparr>
      in if ROOT_INODE_NO < num_inodes (sblock c)
         then rbind (inode_get ROOT_INODE_NO s) (\<lambda>(n, s). Inr (s\<lparr>iroot := n\<rparr>))
         else Inr s)"

fun free_indirect :: "ctx \<Rightarrow> nat \<Rightarrow> nat list \<Rightarrow> itree \<Rightarrow> (ctx \<times> itree) res" where
  "free_indirect ctx b [] s = Inr (ctx, s)"
| "free_indirect ctx b (i # is) s =
     rbind (indirect_get b i s) (\<lambda>a.
     if a \<noteq> 0
     then rbind (indirect_get b i s) (\<lambda>a.
          rbind (fs_free ctx a s) (\<lambda>(ctx, s). free_indirect ctx b is s))
     else free_indirect ctx b is s)"

fun free_direct :: "ctx \<Rightarrow> nat \<Rightarrow> nat list \<Rightarrow> itree \<Rightarrow> (ctx \<times> itree) res" where
  "free_direct ctx n [] s = Inr (ctx, s)"
| "free_direct ctx n (i # is) s =
     rbind (get_inode n s) (\<lambda>ip.
     if addrs (entry ip) ! i \<noteq> 0
     then rbind (fs_free ctx (addrs (entry ip) ! i) s) (\<lambda>(ctx, s).
          free_direct ctx n is (set_entry n (\<lambda>e. e\<lparr>addrs := (addrs e)[i := 0]\<rparr>) s))
     else free_direct ctx n is s)"

definition inode_clear :: "ctx \<Rightarrow> nat \<Rightarrow> itree \<Rightarrow> (ctx \<times> itree) res" where
  "inode_clear ctx n s =
     rbind (acquire_spinlock (ilock s)) (\<lambda>l.
     let s = s\<lparr>ilock := l\<rparr>
     in rbind (get_inode n s) (\<lambda>i.
        let b = indirect (entry i)
        in rbind (if b \<noteq> 0
             then rbind (fs_acquire b s) (\<lambda>s.
                  rbind (fs_release b s) (\<lambda>s.
                  rbind (free_indirect ctx b [0..<INODE_NUM_INDIRECT] s) (\<lambda>(ctx, s).
                  rbind (fs_free ctx b s) (\<lambda>(ctx, s).
                  Inr (ctx, set_entry n (\<lambda>e. e\<lparr>indirect := 0\<rparr>) s)))))
             else Inr (ctx, s)) (\<lambda>(ctx, s).
           rbind (free_direct ctx n [0..<INODE_NUM_DIRECT] s) (\<lambda>(ctx, s).
           let s = set_entry n (\<lambda>e. e\<lparr>num_bytes := 0\<rparr>) s
           in rbind (inode_sync ctx n True s) (\<lambda>(ctx, s).
              Inr (ctx, s\<lparr>ilock := release_spinlock (ilock s)\<rparr>))))))"

definition inode_share :: "nat \<Rightarrow> itree \<Rightarrow> (nat \<times> itree) res" where
  "inode_share n s = rbind (get_inode n s) (\<lambda>_. Inr (n, set_inode n (\<lambda>i. i\<lparr>rc := increment_rc (rc i)\<rparr>) s))"

definition inode_put :: "ctx \<Rightarrow> nat \<Rightarrow> itree \<Rightarrow> (ctx \<times> itree) res" where
  "inode_put ctx n s = rbind (get_inode n s) (\<lambda>_.
     let s = set_inode n (\<lambda>i. i\<lparr>rc := snd (decrement_rc (rc i))\<rparr>) s
     in rbind (get_inode n s) (\<lambda>i.
        if count (rc i) = 0 \<and> num_links (entry i) = 0
        then let s = set_entry n (\<lambda>e. e\<lparr>itype := INODE_INVALID\<rparr>) s
             in rbind (inode_clear ctx n s) (\<lambda>(ctx, s).
                Inr (ctx, s\<lparr>itable := (itable s)(n := None)\<rparr>))
        else Inr (ctx, s)))"

section \<open>File contents\<close>

definition inode_map :: "ctx \<Rightarrow> nat \<Rightarrow> nat \<Rightarrow> itree \<Rightarrow> (nat \<times> bool \<times> ctx \<times> itree) res" where
  "inode_map ctx n off s = rbind (get_inode n s) (\<lambda>i.
     if off < INODE_NUM_DIRECT then
       if addrs (entry i) ! off = 0 then
         if ctx = None then Inr (0, False, ctx, s)
         else rbind (fs_alloc ctx s) (\<lambda>(a, ctx, s).
              let s = set_entry n (\<lambda>e. e\<lparr>addrs := (addrs e)[off := a]\<rparr>) s
              in rbind (inode_sync ctx n True s) (\<lambda>(ctx, s). Inr (a, True, ctx, s)))
       else Inr (addrs (entry i) ! off, False, ctx, s)
     else
       let idx = off - INODE_NUM_DIRECT
       in rbind (if indirect (entry i) = 0
            then rbind (fs_alloc ctx s) (\<lambda>(a, ctx, s). Inr (a, ctx, set_entry n (\<lambda>e. e\<lparr>indirect := a\<rparr>) s))
            else Inr (indirect (entry i), ctx, s)) (\<lambda>(b, ctx, s).
          rbind (fs_acquire b s) (\<lambda>s.
          rbind (fs_release b s) (\<lambda>s.
          rbind (indirect_get b idx s) (\<lambda>a.
          if a = 0 then
            if ctx = None then Inr (0, False, ctx, s)
            else rbind (fs_alloc ctx s) (\<lambda>(a, ctx, s).
                 rbind (indirect_set b idx a s) (\<lambda>s.
                 rbind (inode_sync ctx n True s) (\<lambda>(ctx, s).
                 rbind (indirect_get b idx s) (\<lambda>a. Inr (a, True, ctx, s)))))
          else Inr (a, False, ctx, s))))))"

text \<open>Console input and output through a device inode.\<close>

definition console_read :: "bool \<Rightarrow> nat \<Rightarrow> nat \<Rightarrow> itree \<Rightarrow> (byte list option \<times> itree) res" where
  "console_read alerted n cnt s =
     rbind (inode_unlock n s) (\<lambda>s.
     rbind (console_get alerted cnt (cons s)) (\<lambda>(r, c).
     let s = s\<lparr>cons := c\<rparr>
     in if r = None then Inr (r, s) else rbind (inode_lock n s) (\<lambda>s. Inr (r, s))))"

definition console_write :: "nat \<Rightarrow> byte list \<Rightarrow> itree \<Rightarrow> itree res" where
  "console_write n buf s =
     rbind (inode_unlock n s) (\<lambda>s.
     rbind (console_put buf (cons s)) (\<lambda>c.
     inode_lock n (s\<lparr>cons := c\<rparr>)))"

definition chunk :: "nat \<Rightarrow> nat \<Rightarrow> nat" where
  "chunk off left = min left (BLOCK_SIZE - off mod BLOCK_SIZE)"

lemma chunk_pos: "0 < left \<Longrightarrow> 0 < chunk off left" and chunk_le: "chunk off left \<le> left"
  by (simp_all add: chunk_def)

function inode_read_loop :: "nat \<Rightarrow> nat \<Rightarrow> nat \<Rightarrow> byte list \<Rightarrow> itree \<Rightarrow> (byte list \<times> itree) res" where
  "inode_read_loop n off left dst s =
     (if left = 0 then Inr (dst, s)
      else rbind (inode_map None n (off div BLOCK_SIZE) s) (\<lambda>(b, modified, _, s).
        rbind (fs_acquire b s) (\<lambda>s.
        let sz = chunk off left
        in rbind (fs_data b s) (\<lambda>d.
           rbind (fs_release b s) (\<lambda>s.
           rassert (\<not> modified) (inode_read_loop n (off + sz) (left - sz) (dst @ slice (off mod BLOCK_SIZE) sz d) s))))))"
  by pat_completeness auto
termination
  by (relation "measure (\<lambda>(n, off, left, dst, s). left)") (use chunk_pos in auto)

declare inode_read_loop.simps [simp del]

text \<open>
  \<^verbatim>\<open>inode_read\<close>: the bytes read (\<^verbatim>\<open>dest\<close>), of which there are as many as the return value says; \<open>None\<close> is the \<open>-1\<close> of an interrupted console
  read. The final \<^verbatim>\<open>ASSERT(modified == false)\<close> looks at the last block only and is checked for every block here, which is the same because
  with a null context no block ever sets the flag.
\<close>

definition inode_read :: "bool \<Rightarrow> nat \<Rightarrow> nat \<Rightarrow> nat \<Rightarrow> itree \<Rightarrow> (byte list option \<times> itree) res" where
  "inode_read alerted n off cnt s = rbind (get_inode n s) (\<lambda>i.
     if itype (entry i) = INODE_DEVICE
     then rassert (major (entry i) = 1) (console_read alerted n cnt s)
     else let nb = num_bytes (entry i);
              cnt = (if (cnt + off) mod U64 > nb then (nb + U64 - off) mod U64 else cnt);
              fin = (off + cnt) mod U64
          in rassert (off \<le> nb) (rassert (fin \<le> nb) (rassert (off \<le> fin)
             (rbind (inode_read_loop n off cnt [] s) (\<lambda>(dst, s). Inr (Some dst, s))))))"

function inode_write_loop :: "ctx \<Rightarrow> nat \<Rightarrow> byte list \<Rightarrow> nat \<Rightarrow> itree \<Rightarrow> (ctx \<times> itree) res" where
  "inode_write_loop ctx n src off s =
     (if src = [] then Inr (ctx, s)
      else let sz = chunk off (length src)
           in rbind (inode_map ctx n (off div BLOCK_SIZE) s) (\<lambda>(b, _, ctx, s).
              rassert (b \<noteq> 0)
                (rbind (fs_acquire b s) (\<lambda>s.
                 rbind (fs_data b s) (\<lambda>d.
                 let s = fs_set_data b (patch (off mod BLOCK_SIZE) (take sz src) d) s
                 in rbind (fs_sync ctx b s) (\<lambda>(ctx, s).
                    rbind (fs_release b s) (\<lambda>s.
                    inode_write_loop ctx n (drop sz src) (off + sz) s)))))))"
  by pat_completeness auto
termination
  by (relation "measure (\<lambda>(ctx, n, src, off, s). length src)") (use chunk_pos in auto)

declare inode_write_loop.simps [simp del]

definition inode_write :: "ctx \<Rightarrow> nat \<Rightarrow> byte list \<Rightarrow> nat \<Rightarrow> itree \<Rightarrow> (nat \<times> ctx \<times> itree) res" where
  "inode_write ctx n src off s = rbind (get_inode n s) (\<lambda>i.
     if itype (entry i) = INODE_DEVICE
     then rassert (major (entry i) = 1) (rbind (console_write n src s) (\<lambda>s. Inr (length src, ctx, s)))
     else let fin = (off + length src) mod U64
          in rassert (off \<le> num_bytes (entry i)) (rassert (fin \<le> INODE_MAX_BYTES) (rassert (off \<le> fin)
             (rbind (if fin > num_bytes (entry i)
                     then inode_sync ctx n True (set_entry n (\<lambda>e. e\<lparr>num_bytes := fin\<rparr>) s)
                     else Inr (ctx, s)) (\<lambda>(ctx, s).
              rbind (inode_write_loop ctx n src off s) (\<lambda>(ctx, s). Inr (length src, ctx, s)))))))"

section \<open>Directories\<close>

text \<open>
  Reading one entry into the 16 bytes of the local variable \<^verbatim>\<open>dir_entry\<close>: a read at the end of the directory may fill only the first of
  them. The variable is uninitialised at first, which is represented by zeros. \<^verbatim>\<open>inode_read\<close> of a directory is never a console read.
\<close>

definition fresh_dirent :: "byte list" where
  "fresh_dirent = replicate 16 0"

definition read_dirent :: "nat \<Rightarrow> nat \<Rightarrow> byte list \<Rightarrow> itree \<Rightarrow> (byte list \<times> itree) res" where
  "read_dirent n i buf s = rbind (inode_read False n i 16 s) (\<lambda>(d, s). Inr (patch 0 (the d) buf, s))"

fun lookup_from :: "nat \<Rightarrow> (nat \<Rightarrow> byte) \<Rightarrow> nat list \<Rightarrow> byte list \<Rightarrow> itree \<Rightarrow> (nat \<times> nat \<times> itree) res" where
  "lookup_from n nm [] buf s = Inr (0, 0, s)"
| "lookup_from n nm (i # is) buf s =
     rbind (read_dirent n i buf s) (\<lambda>(buf, s).
     let d = dec_DirEntry buf
     in if strncmp ((!) (name d)) nm FILE_NAME_MAX_LENGTH = 0 \<and> inode_no d \<noteq> 0
        then Inr (inode_no d, i, s)
        else lookup_from n nm is buf s)"

text \<open>The offsets \<open>0, 16, 32, \<dots>\<close> below the size of the directory.\<close>

definition dir_offsets :: "nat \<Rightarrow> nat list" where
  "dir_offsets nb = map (\<lambda>k. 16 * k) [0..<(nb + 15) div 16]"

text \<open>\<^verbatim>\<open>inode_lookup\<close>: the inode number, 0 if there is none, and the index of the entry.\<close>

definition inode_lookup :: "nat \<Rightarrow> (nat \<Rightarrow> byte) \<Rightarrow> itree \<Rightarrow> (nat \<times> nat \<times> itree) res" where
  "inode_lookup n nm s = rbind (get_inode n s) (\<lambda>i.
     rassert (itype (entry i) = INODE_DIRECTORY) (lookup_from n nm (dir_offsets (num_bytes (entry i))) fresh_dirent s))"

fun free_slot_from :: "nat \<Rightarrow> nat list \<Rightarrow> nat \<Rightarrow> byte list \<Rightarrow> itree \<Rightarrow> (nat \<times> byte list \<times> itree) res" where
  "free_slot_from n [] fin buf s = Inr (fin, buf, s)"
| "free_slot_from n (i # is) fin buf s =
     rbind (read_dirent n i buf s) (\<lambda>(buf, s).
     if inode_no (dec_DirEntry buf) = 0 then Inr (i, buf, s) else free_slot_from n is fin buf s)"

text \<open>
  \<^verbatim>\<open>inode_insert\<close>; \<open>None\<close> is the \<open>-1\<close> for a name that exists. The number is stored in 16 bits.
\<close>

definition inode_insert :: "ctx \<Rightarrow> nat \<Rightarrow> (nat \<Rightarrow> byte) \<Rightarrow> nat \<Rightarrow> itree \<Rightarrow> (nat option \<times> ctx \<times> itree) res" where
  "inode_insert ctx n nm m s = rbind (get_inode n s) (\<lambda>i.
     rassert (itype (entry i) = INODE_DIRECTORY)
       (rbind (inode_lookup n nm s) (\<lambda>(k, _, s).
        if k \<noteq> 0 then Inr (None, ctx, s)
        else let offs = dir_offsets (num_bytes (entry i))
             in rbind (free_slot_from n offs (16 * length offs) fresh_dirent s) (\<lambda>(i, buf, s).
                let d = dec_DirEntry buf;
                    d = \<lparr>inode_no = m mod U16, name = map (strncpy ((!) (name d)) nm FILE_NAME_MAX_LENGTH) [0..<FILE_NAME_MAX_LENGTH]\<rparr>
                in rbind (inode_write ctx n (enc_DirEntry d) i s) (\<lambda>(_, ctx, s). Inr (Some i, ctx, s))))))"

text \<open>The cleared copy of the last entry is a local variable and is never written back; the new size is not synced.\<close>

definition inode_remove :: "ctx \<Rightarrow> nat \<Rightarrow> nat \<Rightarrow> itree \<Rightarrow> (ctx \<times> itree) res" where
  "inode_remove ctx n index s = rbind (get_inode n s) (\<lambda>i.
     rassert (itype (entry i) = INODE_DIRECTORY) (rassert (index < num_bytes (entry i))
       (rbind (read_dirent n index fresh_dirent s) (\<lambda>(buf, s).
        if inode_no (dec_DirEntry buf) = 0 then Inr (ctx, s)
        else let last = (num_bytes (entry i) + U64 - 16) mod U64
             in rbind (read_dirent n last buf s) (\<lambda>(buf, s).
                rbind (inode_write ctx n buf index s) (\<lambda>(_, ctx, s).
                Inr (ctx, set_entry n (\<lambda>e. e\<lparr>num_bytes := (num_bytes e + U32 - 16) mod U32\<rparr>) s)))))))"

section \<open>Paths\<close>

abbreviation (input) SLASH :: byte where "SLASH \<equiv> 47"

text \<open>
  A path is the list of its characters without the final NUL. The result is the rest of the path and the name buffer, \<open>None\<close> the null pointer.
\<close>

definition skipelem :: "byte list \<Rightarrow> byte list \<Rightarrow> (byte list \<times> byte list) option" where
  "skipelem path nm =
     (let path = dropWhile (\<lambda>c. c = SLASH) path
      in if path = [] then None
         else let elem = takeWhile (\<lambda>c. c \<noteq> SLASH) path;
                  path = dropWhile (\<lambda>c. c \<noteq> SLASH) path;
                  nm = (if length elem \<ge> FILE_NAME_MAX_LENGTH then patch 0 (take FILE_NAME_MAX_LENGTH elem) nm
                        else patch 0 (elem @ [0]) nm)
              in Some (dropWhile (\<lambda>c. c = SLASH) path, nm))"

lemma skipelem_shorter:
  assumes "skipelem path nm = Some (path', nm')"
  shows "length path' < length path"
proof -
  let ?p = "dropWhile (\<lambda>c. c = SLASH) path"
  have "?p \<noteq> []" and p': "path' = dropWhile (\<lambda>c. c = SLASH) (dropWhile (\<lambda>c. c \<noteq> SLASH) ?p)"
    using assms by (auto simp: skipelem_def Let_def split: if_splits)
  then obtain c cs where p: "?p = c # cs" by (cases ?p) auto
  then have "c \<noteq> SLASH" using hd_dropWhile [of "\<lambda>c. c = SLASH" path] by simp
  then have "length path' \<le> length cs"
    using length_dropWhile_le [of "\<lambda>c. c = SLASH" "dropWhile (\<lambda>c. c \<noteq> SLASH) cs"] length_dropWhile_le [of "\<lambda>c. c \<noteq> SLASH" cs]
    by (simp add: p' p)
  moreover have "length (c # cs) \<le> length path" using length_dropWhile_le [of "\<lambda>c. c = SLASH" path] p by simp
  ultimately show ?thesis by simp
qed

text \<open>The loop of \<^verbatim>\<open>namex\<close>; the result is the inode, 0 for \<^verbatim>\<open>NULL\<close>, and the name buffer.\<close>

function namex_loop :: "bool \<Rightarrow> ctx \<Rightarrow> nat \<Rightarrow> byte list \<Rightarrow> byte list \<Rightarrow> itree \<Rightarrow> (nat \<times> byte list \<times> ctx \<times> itree) res" where
  "namex_loop parent ctx ans path nm s =
     (case skipelem path nm of
        None \<Rightarrow>
          if parent then rbind (inode_put ctx ans s) (\<lambda>(ctx, s). Inr (0, nm, ctx, s))
          else Inr (ans, nm, ctx, s)
      | Some (path, nm) \<Rightarrow>
          rbind (inode_lock ans s) (\<lambda>s.
          rbind (get_inode ans s) (\<lambda>i.
          if itype (entry i) \<noteq> INODE_DIRECTORY then
            rbind (inode_unlock ans s) (\<lambda>s.
            rbind (inode_put ctx ans s) (\<lambda>(ctx, s). Inr (0, nm, ctx, s)))
          else if parent \<and> path = [] then
            rbind (inode_unlock ans s) (\<lambda>s. Inr (ans, nm, ctx, s))
          else
            rbind (inode_lookup ans ((!) nm) s) (\<lambda>(m, _, s).
            rbind (inode_get m s) (\<lambda>(nxt, s).
            rbind (inode_unlock ans s) (\<lambda>s.
            rbind (inode_put ctx ans s) (\<lambda>(ctx, s).
            if nxt = 0 then Inr (0, nm, ctx, s)
            else namex_loop parent ctx nxt path nm s)))))))"
  by pat_completeness auto
termination
  by (relation "measure (\<lambda>(parent, ctx, ans, path, nm, s). length path)") (auto dest: skipelem_shorter)

declare namex_loop.simps [simp del]

definition namex :: "nat \<Rightarrow> byte list \<Rightarrow> bool \<Rightarrow> byte list \<Rightarrow> ctx \<Rightarrow> itree \<Rightarrow> (nat \<times> byte list \<times> ctx \<times> itree) res" where
  "namex cwd path parent nm ctx s =
     rbind (if path \<noteq> [] \<and> hd path = SLASH then inode_get ROOT_INODE_NO s else inode_share cwd s) (\<lambda>(ans, s).
     namex_loop parent ctx ans path nm s)"

definition namei :: "nat \<Rightarrow> byte list \<Rightarrow> ctx \<Rightarrow> itree \<Rightarrow> (nat \<times> ctx \<times> itree) res" where
  "namei cwd path ctx s =
     rbind (namex cwd path False (replicate FILE_NAME_MAX_LENGTH 0) ctx s) (\<lambda>(ip, _, ctx, s). Inr (ip, ctx, s))"

definition nameiparent :: "nat \<Rightarrow> byte list \<Rightarrow> byte list \<Rightarrow> ctx \<Rightarrow> itree \<Rightarrow> (nat \<times> byte list \<times> ctx \<times> itree) res" where
  "nameiparent cwd path nm ctx s = namex cwd path True nm ctx s"

section \<open>Metadata\<close>

datatype st_mode = S_IFREG | S_IFDIR | S_NONE

record stat =
  st_dev :: nat
  st_ino :: nat
  st_nlink :: nat
  st_size :: nat
  st_mode :: st_mode

definition stati :: "nat \<Rightarrow> stat \<Rightarrow> itree \<Rightarrow> stat res" where
  "stati n st s = rbind (get_inode n s) (\<lambda>i.
     let st = st\<lparr>st_dev := 1, st_ino := ino i, st_nlink := num_links (entry i), st_size := num_bytes (entry i)\<rparr>
     in if itype (entry i) = INODE_REGULAR then Inr (st\<lparr>st_mode := S_IFREG\<rparr>)
        else if itype (entry i) = INODE_DIRECTORY then Inr (st\<lparr>st_mode := S_IFDIR\<rparr>)
        else if itype (entry i) = INODE_DEVICE then Inr (st\<lparr>st_mode := S_NONE\<rparr>)
        else Inl Panic)"

section \<open>Path components\<close>

text \<open>Splitting at every slash; the components of a path are the pieces that are not empty.\<close>

fun split_slash :: "byte list \<Rightarrow> byte list list" where
  "split_slash [] = [[]]"
| "split_slash (c # cs) =
     (if c = SLASH then [] # split_slash cs
      else case split_slash cs of e # es \<Rightarrow> (c # e) # es | [] \<Rightarrow> [[c]])"

definition components :: "byte list \<Rightarrow> byte list list" where
  "components p = filter (\<lambda>e. e \<noteq> []) (split_slash p)"

text \<open>The names \<^verbatim>\<open>namex\<close> looks up one after the other: those \<^verbatim>\<open>skipelem\<close> leaves in the buffer, read as C strings.\<close>

function path_elems :: "byte list \<Rightarrow> byte list \<Rightarrow> byte list list" where
  "path_elems path nm =
     (case skipelem path nm of
        None \<Rightarrow> []
      | Some (path, nm) \<Rightarrow> cstr FILE_NAME_MAX_LENGTH ((!) nm) # path_elems path nm)"
  by pat_completeness auto
termination by (relation "measure (\<lambda>(path, nm). length path)") (auto dest: skipelem_shorter)

declare path_elems.simps [simp del]

lemma split_slash_first:
  "split_slash p = takeWhile (\<lambda>c. c \<noteq> SLASH) p # (case dropWhile (\<lambda>c. c \<noteq> SLASH) p of [] \<Rightarrow> [] | _ # r \<Rightarrow> split_slash r)"
  by (induction p) auto

lemma components_slash [simp]: "components (SLASH # p) = components p"
  by (simp add: components_def)

lemma components_dropWhile [simp]: "components (dropWhile (\<lambda>c. c = SLASH) p) = components p"
  by (induction p) auto

lemma components_first:
  assumes "p \<noteq> []" "hd p \<noteq> SLASH"
  shows "components p = takeWhile (\<lambda>c. c \<noteq> SLASH) p # components (dropWhile (\<lambda>c. c \<noteq> SLASH) p)"
proof -
  let ?r = "dropWhile (\<lambda>c. c \<noteq> SLASH) p"
  have "takeWhile (\<lambda>c. c \<noteq> SLASH) p \<noteq> []" using assms by (cases p) auto
  then have "components p = takeWhile (\<lambda>c. c \<noteq> SLASH) p # filter (\<lambda>e. e \<noteq> []) (case ?r of [] \<Rightarrow> [] | _ # r \<Rightarrow> split_slash r)"
    unfolding components_def by (subst split_slash_first) simp
  moreover have "filter (\<lambda>e. e \<noteq> []) (case ?r of [] \<Rightarrow> [] | _ # r \<Rightarrow> split_slash r) = components ?r"
  proof (cases ?r)
    case (Cons c r)
    then have "c = SLASH" using hd_dropWhile [of "\<lambda>c. c \<noteq> SLASH" p] by simp
    then show ?thesis using Cons by (simp add: components_def)
  next
    case Nil
    show ?thesis unfolding Nil by (simp add: components_def)
  qed
  ultimately show ?thesis by simp
qed

lemma cstr_name:
  assumes "0 \<notin> set e" "length nm = n" "nm' = (if length e \<ge> n then patch 0 (take n e) nm else patch 0 (e @ [0]) nm)"
  shows "cstr n ((!) nm') = take n e" "length nm' = n"
proof -
  show len: "length nm' = n" using assms(2,3) by simp
  have nth: "nm' ! k = (if k < length e then e ! k else 0)" if "k < n" "k \<le> length e" for k
    using that assms(2,3) by (auto simp: nth_patch nth_append split: if_splits)
  show "cstr n ((!) nm') = take n e"
  proof (cases "n \<le> length e")
    case True
    have "map ((!) nm') [0..<n] = take n e" using nth True by (intro nth_equalityI) auto
    moreover have "\<forall>c \<in> set (take n e). c \<noteq> 0" using assms(1) by (auto dest: in_set_takeD)
    ultimately show ?thesis by (simp add: cstr_def takeWhile_eq_all_conv)
  next
    case False
    then have "[0..<n] = [0..<length e] @ length e # [Suc (length e)..<n]"
      by (metis le_add_diff_inverse less_imp_le_nat not_le upt_add_eq_append upt_conv_Cons zero_le)
    moreover have "map ((!) nm') [0..<length e] = e" "nm' ! length e = 0"
      using nth False by (auto intro!: nth_equalityI)
    ultimately have "map ((!) nm') [0..<n] = e @ 0 # map ((!) nm') [Suc (length e)..<n]" by simp
    moreover have "\<forall>c \<in> set e. c \<noteq> 0" using assms(1) by auto
    ultimately show ?thesis using False by (simp add: cstr_def takeWhile_append2)
  qed
qed

text \<open>C16: \<^verbatim>\<open>skipelem\<close>, called until it returns null, takes a path apart exactly like splitting it at its slashes: the names it leaves in the buffer
  are the components that are not empty, in order, each cut to 14 characters. A component of 14 characters or more fills the buffer without a terminator, although the comment at
  \<^verbatim>\<open>FILE_NAME_MAX_LENGTH\<close> counts the terminator among the 14; the functions that compare and store names handle such names.\<close>

theorem skipelem_splits_path:
  assumes "0 \<notin> set path" "length nm = FILE_NAME_MAX_LENGTH"
  shows "path_elems path nm = map (take FILE_NAME_MAX_LENGTH) (components path)"
  using assms
proof (induction path nm rule: path_elems.induct)
  case (1 path nm)
  let ?p = "dropWhile (\<lambda>c. c = SLASH) path"
  show ?case
  proof (cases "?p = []")
    case True
    then have "components path = components []" using components_dropWhile [of path] by metis
    then have "components path = []" by (simp add: components_def)
    then show ?thesis using True by (simp add: path_elems.simps [of path] skipelem_def)
  next
    case False
    let ?e = "takeWhile (\<lambda>c. c \<noteq> SLASH) ?p"
    let ?r = "dropWhile (\<lambda>c. c = SLASH) (dropWhile (\<lambda>c. c \<noteq> SLASH) ?p)"
    let ?nm = "if length ?e \<ge> FILE_NAME_MAX_LENGTH then patch 0 (take FILE_NAME_MAX_LENGTH ?e) nm else patch 0 (?e @ [0]) nm"
    have sk: "skipelem path nm = Some (?r, ?nm)" using False unfolding skipelem_def Let_def by (simp only: if_False)
    have e0: "0 \<notin> set ?e" and r0: "0 \<notin> set ?r" using "1.prems"(1) by (meson set_dropWhileD set_takeWhileD)+
    note nm = cstr_name [OF e0 "1.prems"(2) refl]
    have "hd ?p \<noteq> SLASH" using hd_dropWhile [OF False] by simp
    then have "components path = ?e # components ?r"
      using components_first [OF False] components_dropWhile [of path] by simp
    moreover have "path_elems ?r ?nm = map (take FILE_NAME_MAX_LENGTH) (components ?r)"
      using "1.IH" [OF sk refl r0 nm(2)] .
    moreover have "path_elems path nm = cstr FILE_NAME_MAX_LENGTH ((!) ?nm) # path_elems ?r ?nm"
      by (subst path_elems.simps) (simp only: sk option.case prod.case)
    ultimately show ?thesis using nm(1) by (simp only: list.map)
  qed
qed

theorem skipelem_splits_path_witness:
  "path_elems [47, 97, 47, 47, 98, 98] (replicate FILE_NAME_MAX_LENGTH 1) = [[97], [98, 98]]"
proof -
  have "components [47, 97, 47, 47, 98, 98] = [[97], [98, 98]]" by (simp add: components_def)
  then show ?thesis using skipelem_splits_path [of "[47, 97, 47, 47, 98, 98]" "replicate FILE_NAME_MAX_LENGTH 1"] by simp
qed

end
