(* ===== verification/Inode_Data.thy ===== *)
theory Inode_Data
  imports Inode
begin

text \<open>
  The content of files: what \<^verbatim>\<open>inode_read\<close> and \<^verbatim>\<open>inode_write\<close> (\<^verbatim>\<open>fs/inode.c\<close>) do to it, on top of the contract of the block cache.

  \<open>fblock\<close> is the block that holds a range of a file, found in the inode or in its indirect block; \<open>fbyte\<close> and \<open>file_bytes\<close> are the bytes of the file as
  the next read of the cache will show them. A file is \<open>mapped\<close> up to \<open>nb\<close> blocks if these have been allocated, all different, and none of them is
  held by another caller or part of the log.
\<close>

definition fblock :: "itree \<Rightarrow> InodeEntry \<Rightarrow> nat \<Rightarrow> nat" where
  "fblock s e k =
     (if k < INODE_NUM_DIRECT then addrs e ! k
      else slot_get le_dec 4 (k - INODE_NUM_DIRECT) (bview (bc s) (indirect e)))"

definition fbyte :: "itree \<Rightarrow> InodeEntry \<Rightarrow> nat \<Rightarrow> byte" where
  "fbyte s e p = bview (bc s) (fblock s e (p div BLOCK_SIZE)) ! (p mod BLOCK_SIZE)"

definition file_bytes :: "itree \<Rightarrow> InodeEntry \<Rightarrow> byte list" where
  "file_bytes s e = map (fbyte s e) [0..<num_bytes e]"

definition usable :: "itree \<Rightarrow> nat \<Rightarrow> bool" where
  "usable s b \<longleftrightarrow> b \<noteq> 0 \<and> b \<notin> held (bc s) \<and> b \<notin> log_area (sblock (bc s)) \<and> b < U64"

definition mapped :: "itree \<Rightarrow> InodeEntry \<Rightarrow> nat \<Rightarrow> bool" where
  "mapped s e nb \<longleftrightarrow> nb \<le> INODE_MAX_BLOCKS \<and> (\<forall>k<nb. usable s (fblock s e k)) \<and> inj_on (fblock s e) {..<nb}
     \<and> (INODE_NUM_DIRECT < nb \<longrightarrow> usable s (indirect e) \<and> indirect e \<notin> fblock s e ` {..<nb})"

text \<open>Two states a client of the cache cannot tell apart.\<close>

definition same_view :: "itree \<Rightarrow> itree \<Rightarrow> bool" where
  "same_view s s' \<longleftrightarrow> itable s' = itable s \<and> bview (bc s') = bview (bc s) \<and> held (bc s') = held (bc s) \<and> sblock (bc s') = sblock (bc s)
     \<and> header (bc s') = header (bc s) \<and> bitmap_lock (bc s') = bitmap_lock (bc s)"

lemma same_view_refl [simp]: "same_view s s"
  by (simp add: same_view_def)

lemma same_view_fblock: "same_view s s' \<Longrightarrow> fblock s' e k = fblock s e k"
  by (simp add: same_view_def fblock_def)

lemma same_view_mapped: "same_view s s' \<Longrightarrow> mapped s' e nb = mapped s e nb"
  by (simp add: mapped_def usable_def same_view_def fblock_def inj_on_def)

lemma same_view_fbyte: "same_view s s' \<Longrightarrow> fbyte s' e p = fbyte s e p"
  by (simp add: same_view_def fbyte_def fblock_def)

definition quiet_log :: "itree \<Rightarrow> bool" where
  "quiet_log s \<longleftrightarrow> cache_ok (bc s) \<and> log_ok (bc s)"

lemma op_ready_view:
  assumes "op_ready c k (bc s)" "same_view s s'" "quiet_log s'"
  shows "op_ready c k (bc s')"
  using assms by (simp add: op_ready_def same_view_def quiet_log_def)

lemma op_ready_quiet: "op_ready c k (bc s) \<Longrightarrow> quiet_log s"
  by (simp add: op_ready_def quiet_log_def)

lemma op_ready_less: "op_ready c m s \<Longrightarrow> k \<le> m \<Longrightarrow> op_ready c k s"
  by (simp add: op_ready_def)

lemma peek_block:
  assumes q: "quiet_log s" and u: "usable s b"
  obtains s1 s2 where "fs_acquire b s = Inr s1" "fs_data b s1 = Inr (bview (bc s) b)" "fs_release b s1 = Inr s2"
    "fs_data b s2 = Inr (bview (bc s) b)" "same_view s s2" "quiet_log s2"
proof -
  have ok: "cache_ok (bc s)" and lok: "log_ok (bc s)" using q by (auto simp: quiet_log_def)
  have b: "b \<notin> held (bc s)" "b \<notin> log_area (sblock (bc s))" using u by (auto simp: usable_def)
  from cache_read_props [OF ok b(1)] obtain c1 where
    1: "cache_acquire b (bc s) = Inr c1" "block_data b c1 = Inr (bview (bc s) b)" "cache_ok c1" "b \<in> held c1" "bview c1 = bview (bc s)"
      "held c1 = insert b (held (bc s))" "pin c1 = pin (bc s)" "rest c1 = rest (bc s)" "cached c1 \<subseteq> insert b (cached (bc s))" by metis
  have "b \<in> pin c1 \<or> bview c1 b = disk c1 b"
    using bview_clean [OF ok b(1)] 1(5,7,8) by (auto simp: rest_eq_iff)
  from cache_release_props [OF 1(3,4) this] obtain c2 where
    2: "cache_release b c1 = Inr c2" "cache_ok c2" "bview c2 = bview c1" "held c2 = held c1 - {b}" "pin c2 = pin c1"
      "rest c2 = rest c1" "cached c2 = cached c1" by metis
  have "b \<in> cached c2" using 1(4) held_cached 2(7) by blast
  then obtain x where x: "find_block b c2 = Some x" using find_block_None_iff by fastforce
  have "bview c2 b = data x" using x by (simp add: bview_def)
  then have "block_data b c2 = Inr (bview (bc s) b)" using x 1(5) 2(3) by (simp add: block_data_def)
  moreover have "log_start (sblock (bc s)) \<in> log_area (sblock (bc s))" by (simp add: log_area_def)
  then have "log_ok c2" using 1 2 lok b
    by (intro log_ok_fields [OF lok]) (auto simp: rest_eq_iff log_ok_def)
  moreover have "held c2 = held (bc s)" using 2(4) 1(6) b(1) by auto
  ultimately show ?thesis
    using that [of "s\<lparr>bc := c1\<rparr>" "s\<lparr>bc := c2\<rparr>"] 1 2
    by (simp add: fs_acquire_def fs_data_def fs_release_def same_view_def quiet_log_def rest_eq_iff)
qed

lemma write_block:
  assumes rdy: "op_ready c (Suc k) (bc s)" and u: "usable s b" and len: "length d = BLOCK_SIZE"
  obtains s1 c' t s' where "fs_acquire b s = Inr s1" "fs_data b s1 = Inr (bview (bc s) b)"
    "fs_sync (Some c) b (fs_set_data b d s1) = Inr (Some c', t)" "fs_release b t = Inr s'"
    "op_ready c' k (bc s')" "bview (bc s') = (bview (bc s))(b := d)" "held (bc s') = held (bc s)" "sblock (bc s') = sblock (bc s)" "itable s' = itable s"
    "bitmap_lock (bc s') = bitmap_lock (bc s)"
proof -
  have ok: "cache_ok (bc s)" using rdy by (simp add: op_ready_def)
  have b: "b \<notin> held (bc s)" "b \<notin> log_area (sblock (bc s))" "b < U64" using u by (auto simp: usable_def)
  from cache_update_props [OF rdy b len] obtain c' c4 where
    4: "cache_update c b d (bc s) = Inr (c', c4)" "op_ready c' k c4" "bview c4 = (bview (bc s))(b := d)" "held c4 = held (bc s)"
      "rest (c4\<lparr>header := header (bc s)\<rparr>) = rest (bc s)" by metis
  from cache_update_split [OF 4(1)] obtain c1 c3 where
    s: "cache_acquire b (bc s) = Inr c1" "cache_sync (Some c) b (set_block_data b d c1) = Inr (Some c', c3)" "cache_release b c3 = Inr c4" by metis
  have "block_data b c1 = Inr (bview (bc s) b)" using cache_read_props [OF ok b(1)] s(1) by (metis sum.inject(2))
  then show ?thesis
    using that [of "s\<lparr>bc := c1\<rparr>" c' "s\<lparr>bc := c3\<rparr>" "s\<lparr>bc := c4\<rparr>"] s 4
    by (simp add: fs_acquire_def fs_data_def fs_sync_def fs_set_data_def fs_release_def rest_eq_iff)
qed

section \<open>Finding blocks\<close>

lemma inode_map_mapped:
  assumes i: "itable s n = Some i" "entry i = e" and m: "mapped s e nb" and k: "k < nb" and q: "quiet_log s"
  obtains s' where "inode_map ctx n k s = Inr (fblock s e k, False, ctx, s')" "same_view s s'" "quiet_log s'"
proof (cases "k < INODE_NUM_DIRECT")
  case True
  have "fblock s e k \<noteq> 0" using m k by (auto simp: mapped_def usable_def)
  then have "inode_map ctx n k s = Inr (fblock s e k, False, ctx, s)"
    using True i by (simp add: inode_map_def get_inode_def fblock_def)
  then show ?thesis using that q by simp
next
  case False
  have nb: "INODE_NUM_DIRECT < nb" "nb \<le> INODE_MAX_BLOCKS" using False k m by (auto simp: mapped_def)
  have u: "usable s (indirect e)" using m nb by (auto simp: mapped_def)
  then have nz: "indirect e \<noteq> 0" by (simp add: usable_def)
  have fb: "fblock s e k \<noteq> 0" using m k by (auto simp: mapped_def usable_def)
  from peek_block [OF q u] obtain s1 s2 where
    1: "fs_acquire (indirect e) s = Inr s1" "fs_release (indirect e) s1 = Inr s2" "fs_data (indirect e) s2 = Inr (bview (bc s) (indirect e))"
      "same_view s s2" "quiet_log s2" by metis
  have "k - INODE_NUM_DIRECT < INODE_NUM_INDIRECT" using k nb by linarith
  then have "indirect_get (indirect e) (k - INODE_NUM_DIRECT) s2 = Inr (fblock s e k)"
    using False 1(3) by (simp add: indirect_get_def fblock_def)
  then have "inode_map ctx n k s = Inr (fblock s e k, False, ctx, s2)"
    using False i nz fb 1(1,2) by (simp add: inode_map_def get_inode_def Let_def)
  then show ?thesis using that 1(4,5) by blast
qed

section \<open>Positions and blocks\<close>

lemma same_block_iff:
  fixes B :: nat
  assumes "sz \<le> B - off mod B" "0 < B"
  shows "off \<le> p \<and> p < off + sz \<longleftrightarrow> p div B = off div B \<and> off mod B \<le> p mod B \<and> p mod B < off mod B + sz"
    and "p div B = off div B \<Longrightarrow> p - off = p mod B - off mod B"
proof -
  have po: "p = B * (p div B) + p mod B" "off = B * (off div B) + off mod B" by simp_all
  have om: "off mod B < B" using assms(2) by simp
  show "p - off = p mod B - off mod B" if "p div B = off div B" using po that by (metis add_diff_cancel_left)
  show "off \<le> p \<and> p < off + sz \<longleftrightarrow> p div B = off div B \<and> off mod B \<le> p mod B \<and> p mod B < off mod B + sz"
  proof (cases "p div B = off div B")
    case True
    then show ?thesis using po by (metis add_le_cancel_left add_less_cancel_left add.assoc)
  next
    case False
    have "\<not> (off \<le> p \<and> p < off + sz)"
    proof
      assume a: "off \<le> p \<and> p < off + sz"
      have "p < B * (off div B) + B" using a assms(1) om po(2) by linarith
      then have "p div B \<le> off div B" using assms(2) by (metis add.commute less_mult_imp_div_less mult.commute mult_Suc not_less_eq_eq not_le)
      moreover have "off div B \<le> p div B" using a by (simp add: div_le_mono)
      ultimately show False using False by simp
    qed
    then show ?thesis using False by simp
  qed
qed

text \<open>The number of blocks a range of a file touches.\<close>

definition blocks_touched :: "nat \<Rightarrow> nat \<Rightarrow> nat" where
  "blocks_touched off len = (if len = 0 then 0 else (off mod BLOCK_SIZE + len + (BLOCK_SIZE - 1)) div BLOCK_SIZE)"

lemma touched_step:
  fixes B :: nat
  assumes "0 < B" "sz = min len (B - off mod B)" "0 < len"
  shows "(off mod B + len + (B - 1)) div B = Suc (((off + sz) mod B + (len - sz) + (B - 1)) div B) \<or> sz = len \<and> 0 < (off mod B + len + (B - 1)) div B"
proof (cases "len \<le> B - off mod B")
  case True
  have "B \<le> off mod B + len + (B - 1)" using assms by linarith
  then have "0 < (off mod B + len + (B - 1)) div B" using assms(1) by (simp add: div_greater_zero_iff)
  then show ?thesis using True assms by auto
next
  case False
  have om: "off mod B < B" using assms(1) by simp
  then have sz: "sz = B - off mod B" "off mod B + sz = B" using False assms(2) by auto
  have "(off + sz) mod B = 0" using sz(2) by (metis mod_add_left_eq mod_self)
  moreover have "off mod B + len + (B - 1) = B + (len - sz + (B - 1))" using sz False om by linarith
  moreover have "(B + q) div B = Suc (q div B)" for q :: nat using assms(1) by (simp add: div_add_self1)
  ultimately show ?thesis by (simp only: add_0 simp_thms)
qed

lemma if_le: "(if P then 0 else x) \<le> (x::nat)"
  by simp

lemma blocks_touched_step:
  assumes "0 < len" "blocks_touched off len \<le> k"
  obtains k' where "k = Suc k'" "blocks_touched (off + chunk off len) (len - chunk off len) \<le> k'"
proof -
  have s: "chunk off len = min len (BLOCK_SIZE - off mod BLOCK_SIZE)" by (simp add: chunk_def)
  have le: "(off mod BLOCK_SIZE + len + (BLOCK_SIZE - 1)) div BLOCK_SIZE \<le> k"
    using assms(2) unfolding blocks_touched_def if_not_P [OF less_imp_neq [OF assms(1), symmetric]] .
  have B: "0 < BLOCK_SIZE" by simp
  have bt: "blocks_touched (off + chunk off len) (len - chunk off len)
    \<le> ((off + chunk off len) mod BLOCK_SIZE + (len - chunk off len) + (BLOCK_SIZE - 1)) div BLOCK_SIZE"
    unfolding blocks_touched_def by (rule if_le)
  from touched_step [OF B s assms(1)] consider
      "(off mod BLOCK_SIZE + len + (BLOCK_SIZE - 1)) div BLOCK_SIZE
         = Suc (((off + chunk off len) mod BLOCK_SIZE + (len - chunk off len) + (BLOCK_SIZE - 1)) div BLOCK_SIZE)"
    | "chunk off len = len" "0 < (off mod BLOCK_SIZE + len + (BLOCK_SIZE - 1)) div BLOCK_SIZE" by (elim disjE conjE)
  then show ?thesis
  proof cases
    case 1
    then obtain k' where "k = Suc k'" using le by (metis Suc_le_D)
    moreover have "blocks_touched (off + chunk off len) (len - chunk off len) \<le> k'"
      using bt le [unfolded 1 calculation] by (simp only: Suc_le_mono)
    ultimately show ?thesis using that by blast
  next
    case 2
    then obtain k' where "k = Suc k'" using le by (metis Suc_le_D gr0_conv_Suc)
    moreover have "blocks_touched (off + chunk off len) (len - chunk off len) = 0" by (simp add: 2(1) blocks_touched_def)
    ultimately show ?thesis using that by simp
  qed
qed

section \<open>Writing\<close>

lemma bview_length: "quiet_log s \<Longrightarrow> length (bview (bc s) b) = BLOCK_SIZE"
  by (simp add: quiet_log_def)

text \<open>\<open>wrote s s' e nb off ds\<close>: from \<open>s\<close> to \<open>s'\<close> the bytes \<open>ds\<close> were stored at position \<open>off\<close> of a file of \<open>nb\<close> blocks and nothing else changed.\<close>

definition wrote :: "itree \<Rightarrow> itree \<Rightarrow> InodeEntry \<Rightarrow> nat \<Rightarrow> nat \<Rightarrow> byte list \<Rightarrow> bool" where
  "wrote s s' e nb off ds \<longleftrightarrow> itable s' = itable s \<and> mapped s' e nb \<and> held (bc s') = held (bc s) \<and> sblock (bc s') = sblock (bc s)
     \<and> (\<forall>b. b \<notin> fblock s e ` {..<nb} \<longrightarrow> bview (bc s') b = bview (bc s) b) \<and> (\<forall>j<nb. fblock s' e j = fblock s e j)
     \<and> (\<forall>p. p div BLOCK_SIZE < nb \<longrightarrow> fbyte s' e p = (if off \<le> p \<and> p < off + length ds then ds ! (p - off) else fbyte s e p))"

lemma wrote_nothing: "mapped s e nb \<Longrightarrow> wrote s s e nb off []"
  by (auto simp: wrote_def)

lemma wrote_append:
  assumes 1: "wrote s s1 e nb off xs" and 2: "wrote s1 s2 e nb (off + length xs) ys"
  shows "wrote s s2 e nb off (xs @ ys)"
proof -
  have img: "fblock s1 e ` {..<nb} = fblock s e ` {..<nb}" using 1 by (auto simp: wrote_def)
  have "fbyte s2 e p = (if off \<le> p \<and> p < off + length (xs @ ys) then (xs @ ys) ! (p - off) else fbyte s e p)" if p: "p div BLOCK_SIZE < nb" for p
  proof -
    have a: "fbyte s1 e p = (if off \<le> p \<and> p < off + length xs then xs ! (p - off) else fbyte s e p)" using 1 p by (simp add: wrote_def)
    have b: "fbyte s2 e p = (if off + length xs \<le> p \<and> p < off + length xs + length ys then ys ! (p - (off + length xs)) else fbyte s1 e p)"
      using 2 p by (simp add: wrote_def)
    show ?thesis unfolding b a by (auto simp: nth_append)
  qed
  moreover have "\<forall>b. b \<notin> fblock s e ` {..<nb} \<longrightarrow> bview (bc s2) b = bview (bc s) b" using 1 2 img unfolding wrote_def by metis
  ultimately show ?thesis using 1 2 unfolding wrote_def by simp
qed

text \<open>Storing \<open>ds\<close> at position \<open>off\<close> of a file, inside one block.\<close>

lemma write_in_block:
  assumes i: "itable s n = Some i" "entry i = e" and m: "mapped s e nb" and rdy: "op_ready c (Suc k) (bc s)"
    and fit: "length ds \<le> BLOCK_SIZE - off mod BLOCK_SIZE" and nb: "off div BLOCK_SIZE < nb"
  obtains b s0 s1 d c' t s' where "inode_map (Some c) n (off div BLOCK_SIZE) s = Inr (b, False, Some c, s0)"
    "b \<noteq> 0" "fs_acquire b s0 = Inr s1" "fs_data b s1 = Inr d"
    "fs_sync (Some c) b (fs_set_data b (patch (off mod BLOCK_SIZE) ds d) s1) = Inr (Some c', t)"
    "fs_release b t = Inr s'" "op_ready c' k (bc s')" "wrote s s' e nb off ds"
proof -
  let ?k = "off div BLOCK_SIZE" and ?o = "off mod BLOCK_SIZE"
  let ?b = "fblock s e ?k"
  let ?d = "patch ?o ds (bview (bc s) ?b)"
  from inode_map_mapped [OF i m nb op_ready_quiet [OF rdy]] obtain s0 where
    0: "inode_map (Some c) n ?k s = Inr (?b, False, Some c, s0)" "same_view s s0" "quiet_log s0" by blast
  note v = 0(2) [unfolded same_view_def]
  have u: "usable s0 ?b" using m nb v by (simp add: mapped_def usable_def)
  have len: "length (bview (bc s) ?b) = BLOCK_SIZE" using bview_length [OF op_ready_quiet [OF rdy]] .
  have ob: "?o < BLOCK_SIZE" by simp
  have ld: "length ?d = BLOCK_SIZE" using len fit ob by simp
  from write_block [OF op_ready_view [OF rdy 0(2,3)] u ld] obtain s1 c' t s' where
    1: "fs_acquire ?b s0 = Inr s1" "fs_data ?b s1 = Inr (bview (bc s0) ?b)" "fs_sync (Some c) ?b (fs_set_data ?b ?d s1) = Inr (Some c', t)"
      "fs_release ?b t = Inr s'" "op_ready c' k (bc s')" "bview (bc s') = (bview (bc s0))(?b := ?d)" "held (bc s') = held (bc s0)"
      "sblock (bc s') = sblock (bc s0)" "itable s' = itable s0" by metis
  have view: "bview (bc s') = (bview (bc s))(?b := ?d)" using 1(6) v by simp
  have fb: "fblock s' e j = fblock s e j" if j: "j < nb" for j
  proof (cases "j < INODE_NUM_DIRECT")
    case False
    then have "indirect e \<noteq> ?b" using m j nb by (auto simp: mapped_def)
    then show ?thesis using view by (simp add: fblock_def)
  qed (simp add: fblock_def)
  have "mapped s' e nb"
  proof -
    have "inj_on (fblock s' e) {..<nb}" using m fb by (auto simp: mapped_def inj_on_def)
    moreover have "fblock s' e ` {..<nb} = fblock s e ` {..<nb}" using fb by (intro image_cong) auto
    ultimately show ?thesis using m fb 1(7,8) v by (simp add: mapped_def usable_def)
  qed
  moreover have "fbyte s' e p = (if off \<le> p \<and> p < off + length ds then ds ! (p - off) else fbyte s e p)" if p: "p div BLOCK_SIZE < nb" for p
  proof (cases "p div BLOCK_SIZE = ?k")
    case True
    have pm: "p mod BLOCK_SIZE < length (bview (bc s) ?b)" using len by simp
    have "fbyte s' e p = ?d ! (p mod BLOCK_SIZE)" using fb [OF p] view True by (simp add: fbyte_def)
    also have "\<dots> = (if ?o \<le> p mod BLOCK_SIZE \<and> p mod BLOCK_SIZE < ?o + length ds then ds ! (p mod BLOCK_SIZE - ?o) else bview (bc s) ?b ! (p mod BLOCK_SIZE))"
      using nth_patch [of ?o ds "bview (bc s) ?b" "p mod BLOCK_SIZE"] fit len pm ob by simp
    also have "\<dots> = (if off \<le> p \<and> p < off + length ds then ds ! (p - off) else bview (bc s) ?b ! (p mod BLOCK_SIZE))"
      using same_block_iff [OF fit, of p] True by simp
    finally show ?thesis using True by (simp only: fbyte_def)
  next
    case False
    then have "fblock s e (p div BLOCK_SIZE) \<noteq> ?b" using m p nb by (auto simp: mapped_def dest: inj_onD)
    then have "fbyte s' e p = fbyte s e p" using fb [OF p] view by (simp add: fbyte_def)
    moreover have "\<not> (off \<le> p \<and> p < off + length ds)" using same_block_iff(1) [OF fit, of p] False by auto
    ultimately show ?thesis by (simp only: if_False)
  qed
  ultimately have "wrote s s' e nb off ds" using 1(7-9) v fb view nb by (auto simp: wrote_def)
  moreover have "?b \<noteq> 0" using u by (simp add: usable_def)
  ultimately show ?thesis
    using that [OF 0(1) _ 1(1)] 1(2-5) v by simp
qed

lemma chunk_facts: "chunk off len = min len (BLOCK_SIZE - off mod BLOCK_SIZE)"
  by (simp add: chunk_def)

text \<open>The loop of \<^verbatim>\<open>inode_write\<close>, within an operation that has room in the log for every block it touches.\<close>

lemma inode_write_loop_wrote:
  assumes "itable s n = Some i" "entry i = e" "mapped s e nb" "op_ready c k (bc s)" "blocks_touched off (length src) \<le> k"
    "off + length src \<le> nb * BLOCK_SIZE"
  shows "\<exists>c' s'. inode_write_loop (Some c) n src off s = Inr (Some c', s') \<and> quiet_log s' \<and> wrote s s' e nb off src"
  using assms
proof (induction "length src" arbitrary: src off s c k rule: less_induct)
  case less
  show ?case
  proof (cases "src = []")
    case True
    then show ?thesis using op_ready_quiet [OF less.prems(4)] wrote_nothing [OF less.prems(3)] by (simp add: inode_write_loop.simps [of _ _ "[]"])
  next
    case False
    let ?sz = "chunk off (length src)"
    have sz: "0 < ?sz" "?sz \<le> length src" using chunk_pos [of "length src" off] False by (simp_all add: chunk_facts)
    have fit: "length (take ?sz src) \<le> BLOCK_SIZE - off mod BLOCK_SIZE" by (simp add: chunk_facts)
    have "off < nb * BLOCK_SIZE" using less.prems(6) False by (cases src) auto
    then have nb: "off div BLOCK_SIZE < nb" by (rule less_mult_imp_div_less)
    obtain k' where k': "k = Suc k'" "blocks_touched (off + ?sz) (length src - ?sz) \<le> k'"
      using blocks_touched_step [OF _ less.prems(5)] False by blast
    from write_in_block [OF less.prems(1-3) less.prems(4) [unfolded k'(1)] fit nb] obtain b s0 s1 d c' t s' where
      w: "inode_map (Some c) n (off div BLOCK_SIZE) s = Inr (b, False, Some c, s0)"
        "b \<noteq> 0" "fs_acquire b s0 = Inr s1" "fs_data b s1 = Inr d"
        "fs_sync (Some c) b (fs_set_data b (patch (off mod BLOCK_SIZE) (take ?sz src) d) s1) = Inr (Some c', t)"
        "fs_release b t = Inr s'" "op_ready c' k' (bc s')" "wrote s s' e nb off (take ?sz src)" by metis
    have st: "inode_write_loop (Some c) n src off s = inode_write_loop (Some c') n (drop ?sz src) (off + ?sz) s'"
      using False w(1-6) by (simp add: inode_write_loop.simps [of _ _ src] Let_def)
    have lt: "length (drop ?sz src) < length src" using sz by (simp only: length_drop)
    have "itable s' n = Some i" "mapped s' e nb" using w(8) less.prems(1) by (simp_all add: wrote_def)
    then obtain c'' s'' where r: "inode_write_loop (Some c') n (drop ?sz src) (off + ?sz) s' = Inr (Some c'', s'')" "quiet_log s''"
      "wrote s' s'' e nb (off + ?sz) (drop ?sz src)"
      using less.hyps [OF lt, of s' c' k' "off + ?sz"] sz k'(2) w(7) less.prems(2,6) by auto
    have "length (take ?sz src) = ?sz" using sz by simp
    then have "wrote s s'' e nb off (take ?sz src @ drop ?sz src)"
      using wrote_append [OF w(8)] r(3) by (simp only:)
    then show ?thesis using st r by simp
  qed
qed

section \<open>Reading\<close>

lemma slice_file:
  assumes "sz \<le> BLOCK_SIZE - off mod BLOCK_SIZE" "quiet_log s"
  shows "slice (off mod BLOCK_SIZE) sz (bview (bc s) (fblock s e (off div BLOCK_SIZE))) = map (fbyte s e) [off..<off + sz]"
proof (rule nth_equalityI)
  let ?d = "bview (bc s) (fblock s e (off div BLOCK_SIZE))"
  have len: "off mod BLOCK_SIZE + sz \<le> length ?d" using assms(1) bview_length [OF assms(2)] by simp
  then show "length (slice (off mod BLOCK_SIZE) sz ?d) = length (map (fbyte s e) [off..<off + sz])" by simp
  fix j assume "j < length (slice (off mod BLOCK_SIZE) sz ?d)"
  then have j: "j < sz" using len by simp
  have "off \<le> off + j \<and> off + j < off + sz" using j by simp
  then have dv: "(off + j) div BLOCK_SIZE = off div BLOCK_SIZE" "off mod BLOCK_SIZE \<le> (off + j) mod BLOCK_SIZE"
    using same_block_iff(1) [OF assms(1), of "off + j"] by auto
  have "off + j - off = (off + j) mod BLOCK_SIZE - off mod BLOCK_SIZE"
    using same_block_iff(2) [OF assms(1) _ dv(1)] by simp
  then have "(off + j) mod BLOCK_SIZE = off mod BLOCK_SIZE + j" using dv(2) by linarith
  with dv(1) show "slice (off mod BLOCK_SIZE) sz ?d ! j = map (fbyte s e) [off..<off + sz] ! j"
    using j len by (simp add: nth_slice fbyte_def)
qed

lemma inode_read_loop_bytes:
  assumes "itable s n = Some i" "entry i = e" "mapped s e nb" "quiet_log s" "off + left \<le> nb * BLOCK_SIZE"
  shows "\<exists>s'. inode_read_loop n off left dst s = Inr (dst @ map (fbyte s e) [off..<off + left], s') \<and> same_view s s' \<and> quiet_log s'"
  using assms
proof (induction left arbitrary: off dst s rule: less_induct)
  case (less left)
  show ?case
  proof (cases "left = 0")
    case True
    then show ?thesis using less.prems(4) by (simp add: inode_read_loop.simps [of _ _ 0])
  next
    case False
    let ?sz = "chunk off left" and ?b = "fblock s e (off div BLOCK_SIZE)"
    have sz: "0 < ?sz" "?sz \<le> left" "?sz \<le> BLOCK_SIZE - off mod BLOCK_SIZE" using chunk_pos [of left off] False by (simp_all add: chunk_facts)
    have "off < nb * BLOCK_SIZE" using less.prems(5) False by simp
    then have nb: "off div BLOCK_SIZE < nb" by (rule less_mult_imp_div_less)
    from inode_map_mapped [OF less.prems(1-3) nb less.prems(4)] obtain s0 where
      0: "inode_map None n (off div BLOCK_SIZE) s = Inr (?b, False, None, s0)" "same_view s s0" "quiet_log s0" by blast
    have u: "usable s0 ?b" using less.prems(3) nb 0(2) by (simp add: mapped_def usable_def same_view_def)
    from peek_block [OF 0(3) u] obtain s1 s2 where
      1: "fs_acquire ?b s0 = Inr s1" "fs_data ?b s1 = Inr (bview (bc s0) ?b)" "fs_release ?b s1 = Inr s2" "same_view s0 s2" "quiet_log s2" by metis
    have v: "same_view s s2" using 0(2) 1(4) by (simp add: same_view_def)
    have "bview (bc s0) ?b = bview (bc s) ?b" using 0(2) by (simp add: same_view_def)
    then have "inode_read_loop n off left dst s
        = inode_read_loop n (off + ?sz) (left - ?sz) (dst @ map (fbyte s e) [off..<off + ?sz]) s2"
      using False 0(1) 1(1-3) slice_file [OF sz(3) less.prems(4)]
      by (simp add: inode_read_loop.simps [of _ off left] Let_def)
    note st = this
    have it: "itable s2 n = Some i" using less.prems(1) v by (simp add: same_view_def)
    have m2: "mapped s2 e nb" using less.prems(3) same_view_mapped [OF v] by (simp only:)
    have lt: "left - ?sz < left" and le: "off + ?sz + (left - ?sz) \<le> nb * BLOCK_SIZE" using sz less.prems(5) by linarith+
    from less.IH [OF lt it less.prems(2) m2 1(5) le] obtain s' where "inode_read_loop n (off + ?sz) (left - ?sz) (dst @ map (fbyte s e) [off..<off + ?sz]) s2
        = Inr ((dst @ map (fbyte s e) [off..<off + ?sz]) @ map (fbyte s2 e) [off + ?sz..<off + ?sz + (left - ?sz)], s')" and
      r: "same_view s2 s'" "quiet_log s'" by blast
    moreover have "fbyte s2 e = fbyte s e" using same_view_fbyte [OF v] by (rule ext)
    moreover have "[off..<off + left] = [off..<off + ?sz] @ [off + ?sz..<off + ?sz + (left - ?sz)]"
      using upt_add_eq_append [of off "off + ?sz" "left - ?sz"] sz by simp
    moreover have "same_view s s'" using v r(1) by (simp add: same_view_def)
    ultimately show ?thesis using st r(2) by (simp only: map_append append_assoc) blast
  qed
qed

lemma file_size_bound:
  assumes "mapped s e nb" "num_bytes e \<le> nb * BLOCK_SIZE"
  shows "num_bytes e \<le> INODE_MAX_BYTES" "INODE_MAX_BYTES < U64"
proof -
  have "nb \<le> INODE_MAX_BLOCKS" using assms(1) by (simp add: mapped_def)
  then show "num_bytes e \<le> INODE_MAX_BYTES" "INODE_MAX_BYTES < U64" using assms(2) by simp_all
qed

lemma inode_write_inside:
  assumes "itable s n = Some i" "itype (entry i) \<noteq> INODE_DEVICE" "mapped s (entry i) nb" "num_bytes (entry i) \<le> nb * BLOCK_SIZE"
    and "op_ready c k (bc s)" "blocks_touched off (length src) \<le> k" "off + length src \<le> num_bytes (entry i)"
  shows "\<exists>c' s'. inode_write (Some c) n src off s = Inr (length src, Some c', s') \<and> quiet_log s' \<and> wrote s s' (entry i) nb off src
      \<and> file_bytes s' (entry i) = patch off src (file_bytes s (entry i))"
proof -
  let ?e = "entry i" and ?nb = "num_bytes (entry i)"
  note mx = file_size_bound [OF assms(3,4)]
  have le: "off + length src \<le> nb * BLOCK_SIZE" using assms(4,7) by linarith
  from inode_write_loop_wrote [OF assms(1) refl assms(3,5,6) le] obtain c' s' where
    w: "inode_write_loop (Some c) n src off s = Inr (Some c', s')" "quiet_log s'" "wrote s s' ?e nb off src" by blast
  have fin: "(off + length src) mod U64 = off + length src" using assms(7) mx by (intro mod_less) linarith
  then have "inode_write (Some c) n src off s = Inr (length src, Some c', s')"
    using assms(1,2,7) mx(1) w(1) unfolding inode_write_def Let_def by (simp add: get_inode_def)
  moreover have "file_bytes s' ?e = patch off src (file_bytes s ?e)"
  proof (rule nth_equalityI)
    show "length (file_bytes s' ?e) = length (patch off src (file_bytes s ?e))" using assms(7) by (simp add: file_bytes_def)
    fix p assume "p < length (file_bytes s' ?e)"
    then have p: "p < ?nb" by (simp add: file_bytes_def)
    then have "p div BLOCK_SIZE < nb" using assms(4) by (intro less_mult_imp_div_less) linarith
    then show "file_bytes s' ?e ! p = patch off src (file_bytes s ?e) ! p"
      using w(3) p assms(7) by (simp add: file_bytes_def wrote_def nth_patch)
  qed
  ultimately show ?thesis using w(2,3) by blast
qed

lemma inode_read_inside:
  assumes "itable s n = Some i" "itype (entry i) \<noteq> INODE_DEVICE" "mapped s (entry i) nb" "num_bytes (entry i) \<le> nb * BLOCK_SIZE"
    and "quiet_log s" "pos + cnt \<le> num_bytes (entry i)"
  shows "\<exists>s'. inode_read False n pos cnt s = Inr (Some (slice pos cnt (file_bytes s (entry i))), s') \<and> same_view s s' \<and> quiet_log s'"
proof -
  note mx = file_size_bound [OF assms(3,4)]
  have le: "pos + cnt \<le> nb * BLOCK_SIZE" using assms(4,6) by linarith
  from inode_read_loop_bytes [OF assms(1) refl assms(3,5) le, of "[]"] obtain s' where
    r: "inode_read_loop n pos cnt [] s = Inr (map (fbyte s (entry i)) [pos..<pos + cnt], s')" "same_view s s'" "quiet_log s'" by auto
  have "map (fbyte s (entry i)) [pos..<pos + cnt] = slice pos cnt (file_bytes s (entry i))"
    using assms(6) by (intro nth_equalityI) (simp_all add: nth_slice file_bytes_def)
  moreover have f1: "(pos + cnt) mod U64 = pos + cnt" using assms(6) mx by (intro mod_less) linarith
  have "(cnt + pos) mod U64 = pos + cnt" using f1 by (simp only: add.commute [of cnt pos])
  with f1 have "inode_read False n pos cnt s = Inr (Some (map (fbyte s (entry i)) [pos..<pos + cnt]), s')"
    using assms(1,2,6) r(1) unfolding inode_read_def Let_def by (simp add: get_inode_def)
  ultimately show ?thesis using r(2,3) by simp
qed

text \<open>
  C5: overwriting part of a file. An inode that is no device, whose blocks are all present and different from each other, is written inside its
  size by an operation with enough log space: the write succeeds for all bytes, the file then holds the new bytes at the given position and the old ones
  elsewhere, no block outside the file changes, and reading any range returns exactly the bytes of the file. The blocks may be direct or indirect, and the
  range may start and end in the middle of blocks.
\<close>
theorem inode_write_read_roundtrip:
  assumes "itable s n = Some i" "itype (entry i) \<noteq> INODE_DEVICE" "mapped s (entry i) nb" "num_bytes (entry i) \<le> nb * BLOCK_SIZE"
    and "op_ready c k (bc s)" "blocks_touched off (length src) \<le> k" "off + length src \<le> num_bytes (entry i)" "pos + cnt \<le> num_bytes (entry i)"
  shows "\<exists>c' s'. inode_write (Some c) n src off s = Inr (length src, Some c', s')
      \<and> file_bytes s' (entry i) = patch off src (file_bytes s (entry i))
      \<and> (\<forall>b. b \<notin> fblock s (entry i) ` {..<nb} \<longrightarrow> bview (bc s') b = bview (bc s) b)
      \<and> (\<exists>s''. inode_read False n pos cnt s' = Inr (Some (slice pos cnt (patch off src (file_bytes s (entry i)))), s'') \<and> same_view s' s'')"
proof -
  obtain c' s' where w: "inode_write (Some c) n src off s = Inr (length src, Some c', s')" "quiet_log s'" "wrote s s' (entry i) nb off src"
    "file_bytes s' (entry i) = patch off src (file_bytes s (entry i))"
    using inode_write_inside [OF assms(1-7)] by blast
  have "itable s' n = Some i" "mapped s' (entry i) nb" using w(3) assms(1) by (simp_all add: wrote_def)
  from inode_read_inside [OF this(1) assms(2) this(2) assms(4) w(2) assms(8)] show ?thesis using w unfolding wrote_def by auto
qed

definition demo_file :: Inode where
  "demo_file = init_inode\<lparr>entry := zero_entry\<lparr>itype := INODE_REGULAR, num_bytes := 514, addrs := [100, 101] @ replicate 10 0\<rparr>\<rparr>"

definition demo_tree :: itree where
  "demo_tree = \<lparr>bc = demo_cache, ilock = \<lparr>locked = False\<rparr>, itable = [5 \<mapsto> demo_file], iroot = 1, cons = zero_console\<rparr>"

lemma demo_tree_mapped: "mapped demo_tree (entry demo_file) 2"
proof -
  have "fblock demo_tree (entry demo_file) 0 = 100" "fblock demo_tree (entry demo_file) 1 = 101"
    by (simp_all add: fblock_def demo_file_def)
  moreover have "usable demo_tree 100" "usable demo_tree 101"
    using demo_cache_props(3) by (simp_all add: usable_def demo_tree_def log_area_def)
  moreover have "{..<2::nat} = {0, 1}" by auto
  ultimately show ?thesis by (auto simp: mapped_def less_2_cases_iff)
qed

lemma demo_tree_bytes: "file_bytes demo_tree (entry demo_file) = replicate 512 1 @ [0, 0]"
proof -
  have v: "bview demo_cache 101 = replicate BLOCK_SIZE 0"
    by (simp add: bview_def find_block_def demo_cache_def)
  have "fbyte demo_tree (entry demo_file) p = (replicate 512 1 @ [0, 0]) ! p" if "p < 514" for p
  proof (cases "p < 512")
    case True
    then show ?thesis using demo_cache_props(6) by (simp add: fbyte_def fblock_def demo_file_def demo_tree_def nth_append)
  next
    case False
    then have "p = 512 \<or> p = 513" using that by auto
    then show ?thesis using v by (auto simp: fbyte_def fblock_def demo_file_def demo_tree_def nth_append)
  qed
  then show ?thesis by (intro nth_equalityI) (simp_all add: file_bytes_def demo_file_def zero_entry_def)
qed

theorem inode_write_read_roundtrip_witness:
  "\<exists>c s' s''. inode_write (Some \<lparr>rm = 10, ts = 0\<rparr>) 5 [7, 8] 511 demo_tree = Inr (2, Some c, s')
     \<and> inode_read False 5 510 4 s' = Inr (Some [1, 7, 8, 0], s'')"
proof -
  have "op_ready \<lparr>rm = 10, ts = 0\<rparr> 2 (bc demo_tree)"
    using demo_cache_props(1,2) by (simp add: op_ready_def demo_tree_def)
  moreover have "itable demo_tree 5 = Some demo_file" by (simp add: demo_tree_def)
  moreover have "num_bytes (entry demo_file) = 514" "itype (entry demo_file) \<noteq> INODE_DEVICE" by (simp_all add: demo_file_def zero_entry_def)
  moreover have "blocks_touched 511 (length [7, 8 :: byte]) \<le> 2" by (simp add: blocks_touched_def)
  moreover have "slice 510 4 (patch 511 [7, 8] (replicate 512 1 @ [0, 0])) = [1, 7, 8, 0 :: byte]"
    by (simp add: slice_def patch_def)
  ultimately show ?thesis
    using inode_write_read_roundtrip [of demo_tree 5 demo_file 2 "\<lparr>rm = 10, ts = 0\<rparr>" 2 511 "[7, 8]" 510 4] demo_tree_mapped
    by (auto simp: demo_tree_bytes)
qed

end
