(* ===== verification/Pipe.thy ===== *)
theory Pipe
  imports Semaphore Disk_Layout
begin

text \<open>
  Pipes (\<^verbatim>\<open>fs/pipe.c\<close>, \<^verbatim>\<open>fs/pipe.h\<close>): a ring of 512 bytes with two free-running 32-bit counters.

  The definitions follow one thread of control. A reader or writer that has to wait goes round its loop once per unit of the
  semaphore and ends in \<open>Blocked\<close> when none is left. \<open>killed\<close> is the flag of the calling process. The caller's buffer is the byte list
  that is written, or the byte list that is returned; the result \<open>None\<close> is the \<open>-1\<close> of the code.
\<close>

abbreviation (input) PIPE_SIZE :: nat where "PIPE_SIZE \<equiv> 512"

record Pipe =
  plock :: SpinLock
  wlock :: Semaphore
  rlock :: Semaphore
  pdata :: "byte list"
  nread :: nat
  nwrite :: nat
  readopen :: bool
  writeopen :: bool

definition init_pipe :: "Pipe \<Rightarrow> Pipe" where
  "init_pipe pi = pi\<lparr>plock := init_spinlock (plock pi), readopen := True, writeopen := True, nread := 0, nwrite := 0,
     rlock := init_sem 0, wlock := init_sem 0\<rparr>"

definition plock_release :: "Pipe \<Rightarrow> Pipe" where
  "plock_release pi = pi\<lparr>plock := release_spinlock (plock pi)\<rparr>"

definition post_rlock :: "Pipe \<Rightarrow> Pipe res" where
  "post_rlock pi = rbind (sem_post (rlock pi)) (\<lambda>m. Inr (pi\<lparr>rlock := m\<rparr>))"

definition post_wlock :: "Pipe \<Rightarrow> Pipe res" where
  "post_wlock pi = rbind (sem_post (wlock pi)) (\<lambda>m. Inr (pi\<lparr>wlock := m\<rparr>))"

text \<open>The flag of the result says that the memory of the pipe has been given back.\<close>

definition pipe_close :: "bool \<Rightarrow> Pipe \<Rightarrow> (bool \<times> Pipe) res" where
  "pipe_close writable pi =
     rbind (acquire_spinlock (plock pi)) (\<lambda>l.
     let pi = pi\<lparr>plock := l\<rparr>
     in rbind (if writable then post_rlock (pi\<lparr>writeopen := False\<rparr>) else post_wlock (pi\<lparr>readopen := False\<rparr>)) (\<lambda>pi.
        let pi = plock_release pi
        in Inr (\<not> readopen pi \<and> \<not> writeopen pi, pi)))"

definition pipe_full :: "Pipe \<Rightarrow> bool" where
  "pipe_full pi \<longleftrightarrow> nwrite pi = (nread pi + PIPE_SIZE) mod U32"

text \<open>The inner loop of \<^verbatim>\<open>pipe_write\<close>; the flag is false when it left through \<^verbatim>\<open>return -1\<close>.\<close>

function pipe_write_wait :: "bool \<Rightarrow> Pipe \<Rightarrow> (bool \<times> Pipe) res" where
  "pipe_write_wait killed pi =
     (if \<not> pipe_full pi then Inr (True, pi)
      else if \<not> readopen pi \<or> killed then Inr (False, plock_release pi)
      else case post_rlock pi of
             Inl e \<Rightarrow> Inl e
           | Inr pi' \<Rightarrow>
               (case sem_wait (wlock (plock_release pi')) of
                  Inl e \<Rightarrow> Inl e
                | Inr m \<Rightarrow> if nat (sval m) < nat (sval (wlock pi))
                           then pipe_write_wait killed ((plock_release pi')\<lparr>wlock := m\<rparr>) else Inl Blocked))"
  by pat_completeness auto
termination
  by (relation "measure (\<lambda>(killed, pi). nat (sval (wlock pi)))") auto

declare pipe_write_wait.simps [simp del]

definition put_byte :: "byte \<Rightarrow> Pipe \<Rightarrow> Pipe" where
  "put_byte c pi = pi\<lparr>pdata := (pdata pi)[nwrite pi mod PIPE_SIZE := c], nwrite := (nwrite pi + 1) mod U32\<rparr>"

fun pipe_write_loop :: "bool \<Rightarrow> byte list \<Rightarrow> Pipe \<Rightarrow> (bool \<times> Pipe) res" where
  "pipe_write_loop killed [] pi = Inr (True, pi)"
| "pipe_write_loop killed (c # cs) pi =
     rbind (pipe_write_wait killed pi) (\<lambda>(ok, pi).
     if ok then pipe_write_loop killed cs (put_byte c pi) else Inr (False, pi))"

definition pipe_write :: "bool \<Rightarrow> byte list \<Rightarrow> Pipe \<Rightarrow> (nat option \<times> Pipe) res" where
  "pipe_write killed src pi =
     rbind (acquire_spinlock (plock pi)) (\<lambda>l.
     rbind (pipe_write_loop killed src (pi\<lparr>plock := l\<rparr>)) (\<lambda>(ok, pi).
     if ok then rbind (post_rlock pi) (\<lambda>pi. Inr (Some (length src), plock_release pi))
     else Inr (None, pi)))"

function pipe_read_wait :: "bool \<Rightarrow> Pipe \<Rightarrow> (bool \<times> Pipe) res" where
  "pipe_read_wait killed pi =
     (if \<not> (nread pi = nwrite pi \<and> writeopen pi) then Inr (True, pi)
      else if killed then Inr (False, plock_release pi)
      else case sem_wait (rlock (plock_release pi)) of
             Inl e \<Rightarrow> Inl e
           | Inr m \<Rightarrow> if nat (sval m) < nat (sval (rlock pi))
                      then pipe_read_wait killed ((plock_release pi)\<lparr>rlock := m\<rparr>) else Inl Blocked)"
  by pat_completeness auto
termination
  by (relation "measure (\<lambda>(killed, pi). nat (sval (rlock pi)))") auto

declare pipe_read_wait.simps [simp del]

fun pipe_read_loop :: "nat \<Rightarrow> byte list \<Rightarrow> Pipe \<Rightarrow> byte list \<times> Pipe" where
  "pipe_read_loop 0 dst pi = (dst, pi)"
| "pipe_read_loop (Suc n) dst pi =
     (if nread pi = nwrite pi then (dst, pi)
      else pipe_read_loop n (dst @ [pdata pi ! (nread pi mod PIPE_SIZE)]) (pi\<lparr>nread := (nread pi + 1) mod U32\<rparr>))"

definition pipe_read :: "bool \<Rightarrow> nat \<Rightarrow> Pipe \<Rightarrow> (byte list option \<times> Pipe) res" where
  "pipe_read killed n pi =
     rbind (acquire_spinlock (plock pi)) (\<lambda>l.
     rbind (pipe_read_wait killed (pi\<lparr>plock := l\<rparr>)) (\<lambda>(ok, pi).
     if ok then let (dst, pi) = pipe_read_loop n [] pi
                in rbind (post_wlock pi) (\<lambda>pi. Inr (Some dst, plock_release pi))
     else Inr (None, pi)))"

section \<open>The bytes in the pipe\<close>

definition fill :: "Pipe \<Rightarrow> nat" where
  "fill pi = (nwrite pi + U32 - nread pi) mod U32"

definition content :: "Pipe \<Rightarrow> byte list" where
  "content pi = map (\<lambda>i. pdata pi ! ((nread pi + i) mod PIPE_SIZE)) [0..<fill pi]"

definition pipe_ok :: "Pipe \<Rightarrow> bool" where
  "pipe_ok pi \<longleftrightarrow> length (pdata pi) = PIPE_SIZE \<and> nread pi < U32 \<and> nwrite pi < U32 \<and> fill pi \<le> PIPE_SIZE
     \<and> (\<exists>v. quiet_sem v (rlock pi)) \<and> (\<exists>v. quiet_sem v (wlock pi)) \<and> \<not> locked (plock pi)"

lemma length_content [simp]: "length (content pi) = fill pi"
  by (simp add: content_def)

lemma fill_pos:
  assumes "nread pi < U32" "nwrite pi < U32"
  shows "(nread pi + fill pi) mod U32 = nwrite pi"
  using assms by (simp add: fill_def mod_add_right_eq)

lemma fill_cases:
  assumes "nread pi < U32" "nwrite pi < U32"
  shows "fill pi = (if nread pi \<le> nwrite pi then nwrite pi - nread pi else nwrite pi + U32 - nread pi)"
  using assms by (auto simp: fill_def mod_if)

lemma fill_0_iff: "nread pi < U32 \<Longrightarrow> nwrite pi < U32 \<Longrightarrow> fill pi = 0 \<longleftrightarrow> nread pi = nwrite pi"
  by (auto simp: fill_cases split: if_splits)

lemma pipe_full_iff:
  assumes "nread pi < U32" "nwrite pi < U32"
  shows "pipe_full pi \<longleftrightarrow> fill pi = PIPE_SIZE"
proof (cases "nread pi + PIPE_SIZE < U32")
  case True
  then show ?thesis using assms by (auto simp: pipe_full_def fill_cases split: if_splits)
next
  case False
  then have "(nread pi + PIPE_SIZE) mod U32 = nread pi + PIPE_SIZE - U32" using assms(1) by (simp add: mod_if)
  then show ?thesis using False assms by (auto simp: pipe_full_def fill_cases split: if_splits)
qed

text \<open>The size of the ring divides the range of the counters, so a wrapped counter still points to the right byte.\<close>

lemma mod_U32_PIPE: "n mod U32 mod PIPE_SIZE = n mod PIPE_SIZE"
  by (rule mod_mod_cancel) simp

lemma put_byte_props:
  assumes b: "length (pdata pi) = PIPE_SIZE" "nread pi < U32" "nwrite pi < U32" and room: "fill pi < PIPE_SIZE"
  shows "fill (put_byte c pi) = Suc (fill pi)" "content (put_byte c pi) = content pi @ [c]"
proof -
  let ?pi = "put_byte c pi"
  have nw: "(nread pi + fill pi) mod U32 = nwrite pi" using fill_pos [OF b(2,3)] .
  have nw': "nwrite ?pi = (if nwrite pi + 1 = U32 then 0 else nwrite pi + 1)" "nread ?pi = nread pi"
    using b(3) by (auto simp: put_byte_def)
  have "nread ?pi < U32" "nwrite ?pi < U32" using b by (auto simp: put_byte_def)
  note fc = fill_cases [OF this] fill_cases [OF b(2,3)]
  show f: "fill ?pi = Suc (fill pi)"
    using b(2,3) room unfolding fc nw' by (auto split: if_splits)
  have pos: "(nread pi + fill pi) mod PIPE_SIZE = nwrite pi mod PIPE_SIZE" using nw mod_U32_PIPE by metis
  have other: "nwrite pi mod PIPE_SIZE \<noteq> (nread pi + i) mod PIPE_SIZE" if "i < fill pi" for i
  proof
    assume "nwrite pi mod PIPE_SIZE = (nread pi + i) mod PIPE_SIZE"
    then have "(nread pi + fill pi) mod 512 = (nread pi + i) mod 512" using pos by simp
    then have "i = fill pi" using ring_pos_inj [of "nread pi" i 512 "fill pi"] that room by simp
    then show False using that by simp
  qed
  have "map (\<lambda>i. (pdata pi)[nwrite pi mod PIPE_SIZE := c] ! ((nread pi + i) mod PIPE_SIZE)) [0..<fill pi] = content pi"
    using other by (simp add: content_def)
  moreover have "(pdata pi)[nwrite pi mod PIPE_SIZE := c] ! ((nread pi + fill pi) mod PIPE_SIZE) = c" using pos b(1) by simp
  ultimately show "content ?pi = content pi @ [c]" unfolding content_def f by (simp add: content_def put_byte_def)
qed

lemma put_byte_ok: "pipe_ok pi \<Longrightarrow> fill pi < PIPE_SIZE \<Longrightarrow> pipe_ok (put_byte c pi)"
  using put_byte_props(1) [of pi c] by (auto simp: pipe_ok_def put_byte_def)

lemma pipe_fields [simp]:
  "fill (pi\<lparr>plock := l\<rparr>) = fill pi" "content (pi\<lparr>plock := l\<rparr>) = content pi" "pipe_full (pi\<lparr>plock := l\<rparr>) = pipe_full pi"
  "fill (pi\<lparr>rlock := m\<rparr>) = fill pi" "content (pi\<lparr>rlock := m\<rparr>) = content pi"
  "fill (pi\<lparr>wlock := m\<rparr>) = fill pi" "content (pi\<lparr>wlock := m\<rparr>) = content pi"
  by (simp_all add: fill_def content_def pipe_full_def)

lemma put_byte_simps [simp]:
  "plock (put_byte c pi) = plock pi" "readopen (put_byte c pi) = readopen pi" "writeopen (put_byte c pi) = writeopen pi"
  by (simp_all add: put_byte_def)

lemma nread_plock: "pi\<lparr>plock := l, nread := k\<rparr> = pi\<lparr>nread := k, plock := l\<rparr>"
  by (cases pi) simp

lemma put_byte_plock: "put_byte c (pi\<lparr>plock := l\<rparr>) = (put_byte c pi)\<lparr>plock := l\<rparr>"
  by (simp add: put_byte_def)

lemma pipe_write_loop_fits:
  assumes "pipe_ok pi" and "fill pi + length cs \<le> PIPE_SIZE"
  shows "\<exists>pi'. pipe_write_loop killed cs (pi\<lparr>plock := l\<rparr>) = Inr (True, pi'\<lparr>plock := l\<rparr>) \<and> pipe_ok pi' \<and> content pi' = content pi @ cs
    \<and> plock pi' = plock pi \<and> readopen pi' = readopen pi \<and> writeopen pi' = writeopen pi"
  using assms
proof (induction cs arbitrary: pi)
  case (Cons c cs)
  have b: "length (pdata pi) = PIPE_SIZE" "nread pi < U32" "nwrite pi < U32" "fill pi < PIPE_SIZE"
    using Cons.prems by (auto simp: pipe_ok_def)
  have "\<not> pipe_full pi" using pipe_full_iff [OF b(2,3)] b(4) by simp
  then have w: "pipe_write_wait killed (pi\<lparr>plock := l\<rparr>) = Inr (True, pi\<lparr>plock := l\<rparr>)"
    by (subst pipe_write_wait.simps) simp
  have "fill (put_byte c pi) + length cs \<le> PIPE_SIZE" using put_byte_props(1) [OF b] Cons.prems(2) by simp
  from Cons.IH [OF put_byte_ok [OF Cons.prems(1) b(4)] this] put_byte_props(2) [OF b] show ?case
    by (simp add: w put_byte_plock)
qed auto

lemma pipe_read_loop_takes:
  assumes "pipe_ok pi"
  shows "\<exists>pi'. pipe_read_loop n dst (pi\<lparr>plock := l\<rparr>) = (dst @ take n (content pi), pi'\<lparr>plock := l\<rparr>) \<and> pipe_ok pi'
    \<and> content pi' = drop n (content pi) \<and> plock pi' = plock pi \<and> readopen pi' = readopen pi \<and> writeopen pi' = writeopen pi"
  using assms
proof (induction n arbitrary: pi dst)
  case (Suc n)
  have b: "length (pdata pi) = PIPE_SIZE" "nread pi < U32" "nwrite pi < U32" "fill pi \<le> PIPE_SIZE"
    using Suc.prems by (auto simp: pipe_ok_def)
  show ?case
  proof (cases "nread pi = nwrite pi")
    case True
    then have "fill pi = 0" using fill_0_iff [OF b(2,3)] by simp
    then have "content pi = []" by (simp add: content_def)
    with True Suc.prems show ?thesis by (auto intro!: exI [of _ pi])
  next
    case False
    let ?pi = "pi\<lparr>nread := (nread pi + 1) mod U32\<rparr>"
    have nr: "nread ?pi = (if nread pi + 1 = U32 then 0 else nread pi + 1)" "nwrite ?pi = nwrite pi" using b(2) by auto
    have "nread ?pi < U32" "nwrite ?pi < U32" using b by auto
    note fc = fill_cases [OF this] fill_cases [OF b(2,3)]
    have f: "Suc (fill ?pi) = fill pi" using False b(2,3) unfolding fc nr by (auto split: if_splits)
    have pos: "(nread ?pi + i) mod PIPE_SIZE = (nread pi + Suc i) mod PIPE_SIZE" for i
    proof -
      have "(nread ?pi + i) mod PIPE_SIZE = ((nread pi + 1) mod U32 mod PIPE_SIZE + i) mod PIPE_SIZE"
        by (simp add: mod_add_left_eq)
      also have "\<dots> = (nread pi + 1 + i) mod PIPE_SIZE" unfolding mod_U32_PIPE by (simp only: mod_add_left_eq)
      finally show ?thesis by simp
    qed
    have c: "content pi = pdata pi ! (nread pi mod PIPE_SIZE) # content ?pi"
      unfolding content_def f [symmetric] map_upt_Suc pos by simp
    have "pipe_ok ?pi" using Suc.prems f by (auto simp: pipe_ok_def)
    from Suc.IH [OF this, of "dst @ [pdata pi ! (nread pi mod PIPE_SIZE)]"] False show ?thesis
      by (simp add: c nread_plock)
  qed
qed auto

section \<open>Properties\<close>

lemma pipe_lock_cycle:
  assumes "pipe_ok pi"
  shows "acquire_spinlock (plock pi) = Inr ((plock pi)\<lparr>locked := True\<rparr>)" "release_spinlock ((plock pi)\<lparr>locked := True\<rparr>) = plock pi"
  using assms quiet_unlock by (auto simp: pipe_ok_def)

lemma pipe_ok_post:
  assumes "pipe_ok pi"
  obtains pr pw where "post_rlock (pi\<lparr>plock := l\<rparr>) = Inr (pr\<lparr>plock := l\<rparr>)" "pipe_ok pr" "content pr = content pi" "plock pr = plock pi"
    "readopen pr = readopen pi" "writeopen pr = writeopen pi"
    "post_wlock (pi\<lparr>plock := l\<rparr>) = Inr (pw\<lparr>plock := l\<rparr>)" "pipe_ok pw" "content pw = content pi" "plock pw = plock pi"
    "readopen pw = readopen pi" "writeopen pw = writeopen pi"
proof -
  obtain v w where q: "quiet_sem v (rlock pi)" "quiet_sem w (wlock pi)" using assms by (auto simp: pipe_ok_def)
  let ?r = "pi\<lparr>rlock := (rlock pi)\<lparr>sval := v + 1\<rparr>\<rparr>" and ?w = "pi\<lparr>wlock := (wlock pi)\<lparr>sval := w + 1\<rparr>\<rparr>"
  have ge: "0 \<le> v" "0 \<le> w" using q by (auto simp: quiet_sem_def)
  have "quiet_sem (v + 1) (rlock ?r)" "quiet_sem (w + 1) (wlock ?w)"
    using quiet_sval [OF q(1)] quiet_sval [OF q(2)] ge by simp_all
  then have "pipe_ok ?r" "pipe_ok ?w" using assms by (auto simp: pipe_ok_def)
  moreover have "post_rlock (pi\<lparr>plock := l\<rparr>) = Inr (?r\<lparr>plock := l\<rparr>)" "post_wlock (pi\<lparr>plock := l\<rparr>) = Inr (?w\<lparr>plock := l\<rparr>)"
    using sem_post_quiet [OF q(1)] sem_post_quiet [OF q(2)] by (simp_all add: post_rlock_def post_wlock_def)
  ultimately show ?thesis using that [of ?r ?w] by simp
qed

lemma pipe_write_fits:
  assumes ok: "pipe_ok pi" and room: "length (content pi) + length src \<le> PIPE_SIZE"
  shows "\<exists>pi'. pipe_write killed src pi = Inr (Some (length src), pi') \<and> pipe_ok pi' \<and> content pi' = content pi @ src
    \<and> writeopen pi' = writeopen pi"
proof -
  let ?l = "(plock pi)\<lparr>locked := True\<rparr>"
  from pipe_write_loop_fits [OF ok, of src killed ?l] room obtain p1 where
    1: "pipe_write_loop killed src (pi\<lparr>plock := ?l\<rparr>) = Inr (True, p1\<lparr>plock := ?l\<rparr>)" "pipe_ok p1" "content p1 = content pi @ src"
      "plock p1 = plock pi" "writeopen p1 = writeopen pi" by auto
  from pipe_ok_post [OF 1(2), of ?l] obtain p2 where
    2: "post_rlock (p1\<lparr>plock := ?l\<rparr>) = Inr (p2\<lparr>plock := ?l\<rparr>)" "pipe_ok p2" "content p2 = content p1" "plock p2 = plock p1"
      "writeopen p2 = writeopen p1" by metis
  have "pipe_write killed src pi = Inr (Some (length src), p2)"
    using pipe_lock_cycle [OF ok] 1(1,4) 2(1,4) by (simp add: pipe_write_def plock_release_def)
  then show ?thesis using 1 2 by simp
qed

lemma pipe_read_takes:
  assumes ok: "pipe_ok pi" and ne: "content pi \<noteq> [] \<or> \<not> writeopen pi"
  shows "\<exists>pi'. pipe_read killed n pi = Inr (Some (take n (content pi)), pi') \<and> pipe_ok pi' \<and> content pi' = drop n (content pi)
    \<and> writeopen pi' = writeopen pi"
proof -
  let ?l = "(plock pi)\<lparr>locked := True\<rparr>"
  have b: "nread pi < U32" "nwrite pi < U32" using ok by (auto simp: pipe_ok_def)
  have "\<not> (nread pi = nwrite pi \<and> writeopen pi)" using ne fill_0_iff [OF b] by (auto simp: content_def)
  then have w: "pipe_read_wait killed (pi\<lparr>plock := ?l\<rparr>) = Inr (True, pi\<lparr>plock := ?l\<rparr>)"
    by (subst pipe_read_wait.simps) simp
  from pipe_read_loop_takes [OF ok, of n "[]" ?l] obtain p1 where
    1: "pipe_read_loop n [] (pi\<lparr>plock := ?l\<rparr>) = (take n (content pi), p1\<lparr>plock := ?l\<rparr>)" "pipe_ok p1" "content p1 = drop n (content pi)"
      "plock p1 = plock pi" "writeopen p1 = writeopen pi" by auto
  from pipe_ok_post [OF 1(2), of ?l] obtain p2 where
    2: "post_wlock (p1\<lparr>plock := ?l\<rparr>) = Inr (p2\<lparr>plock := ?l\<rparr>)" "pipe_ok p2" "content p2 = content p1" "plock p2 = plock p1"
      "writeopen p2 = writeopen p1" by metis
  have "pipe_read killed n pi = Inr (Some (take n (content pi)), p2)"
    using pipe_lock_cycle [OF ok] w 1(1,4) 2(1,4) by (simp add: pipe_read_def plock_release_def)
  then show ?thesis using 1 2 by simp
qed

text \<open>
  C24: a pipe is a bounded queue of bytes, also when its 32-bit counters wrap around: a write that fits appends its bytes, a read of a pipe
  that is not empty or whose writing end is closed returns the oldest bytes, as many as asked for and available, and leaves the rest.
\<close>
theorem pipe_is_bounded_fifo:
  assumes "pipe_ok pi"
  shows "(length (content pi) + length src \<le> PIPE_SIZE \<longrightarrow>
      (\<exists>pi'. pipe_write killed src pi = Inr (Some (length src), pi') \<and> pipe_ok pi' \<and> content pi' = content pi @ src))
    \<and> (content pi \<noteq> [] \<or> \<not> writeopen pi \<longrightarrow>
      (\<exists>pi'. pipe_read killed n pi = Inr (Some (take n (content pi)), pi') \<and> pipe_ok pi' \<and> content pi' = drop n (content pi)))"
  using pipe_write_fits [OF assms] pipe_read_takes [OF assms] by blast

text \<open>A fresh pipe whose counters are about to wrap.\<close>

definition demo_pipe :: Pipe where
  "demo_pipe = \<lparr>plock = \<lparr>locked = False\<rparr>, wlock = init_sem 0, rlock = init_sem 0, pdata = replicate PIPE_SIZE 0,
     nread = U32 - 1, nwrite = U32 - 1, readopen = True, writeopen = True\<rparr>"

theorem pipe_is_bounded_fifo_witness:
  "\<exists>p1 p2. pipe_write False [7, 8, 9] demo_pipe = Inr (Some 3, p1) \<and> pipe_read False 2 p1 = Inr (Some [7, 8], p2)"
proof -
  have ok: "pipe_ok demo_pipe" using quiet_init [of 0] by (auto simp: pipe_ok_def demo_pipe_def fill_def)
  have c: "content demo_pipe = []" by (simp add: content_def demo_pipe_def fill_def)
  from pipe_is_bounded_fifo [OF ok, of "[7, 8, 9]" False] c obtain p1 where
    1: "pipe_write False [7, 8, 9] demo_pipe = Inr (Some 3, p1)" "pipe_ok p1" "content p1 = [7, 8, 9]"
    by (auto simp: numeral_3_eq_3)
  from pipe_is_bounded_fifo [OF 1(2), of _ False 2] 1 show ?thesis by auto
qed

end
