(* ===== verification/File_Table.thy ===== *)
theory File_Table
  imports Inode Pipe
begin

text \<open>
  Open files (\<^verbatim>\<open>fs/file.c\<close>, \<^verbatim>\<open>fs/file.h\<close>) and the creation of pipes (\<^verbatim>\<open>pipe_alloc\<close> of \<^verbatim>\<open>fs/pipe.c\<close>).

  A \<^verbatim>\<open>File *\<close> is the index of the entry in the global table. The union of a pipe pointer and an inode pointer is one number: the address of
  the pipe in \<open>pipes\<close>, or the number of the inode. \<open>None\<close> as the result of a read, write or stat is the \<open>-1\<close> of the code. A pipe
  structure comes from \<^verbatim>\<open>kalloc\<close>, whose answer is an argument; 0 is its failure.
\<close>

abbreviation (input) NFILE :: nat where "NFILE \<equiv> 65536"
abbreviation (input) NOPENFILE :: nat where "NOPENFILE \<equiv> 128"
abbreviation (input) MAX_OP_WRITE_N :: nat where "MAX_OP_WRITE_N \<equiv> 1536"

datatype fd_type = FD_NONE | FD_PIPE | FD_INODE

record File =
  ftype :: fd_type
  fref :: int
  readable :: bool
  writable :: bool
  fobj :: nat
  foff :: nat

record fstate =
  it :: itree
  ftable_lock :: SpinLock
  filelist :: "File list"
  pipes :: "nat \<rightharpoonup> Pipe"

record oftable =
  openfilelist :: "nat option list"
  of_num :: int

definition init_ftable :: "fstate \<Rightarrow> fstate" where
  "init_ftable s = s\<lparr>ftable_lock := init_spinlock (ftable_lock s)\<rparr>"

definition init_oftable :: "oftable \<Rightarrow> oftable" where
  "init_oftable t = \<lparr>openfilelist = replicate NOPENFILE None, of_num = 0\<rparr>"

definition ftable_acquire :: "fstate \<Rightarrow> fstate res" where
  "ftable_acquire s = rbind (acquire_spinlock (ftable_lock s)) (\<lambda>l. Inr (s\<lparr>ftable_lock := l\<rparr>))"

definition ftable_release :: "fstate \<Rightarrow> fstate" where
  "ftable_release s = s\<lparr>ftable_lock := release_spinlock (ftable_lock s)\<rparr>"

definition set_file :: "nat \<Rightarrow> (File \<Rightarrow> File) \<Rightarrow> fstate \<Rightarrow> fstate" where
  "set_file f g s = s\<lparr>filelist := (filelist s)[f := g (filelist s ! f)]\<rparr>"

definition get_file :: "nat \<Rightarrow> fstate \<Rightarrow> File res" where
  "get_file f s = (if f < length (filelist s) then Inr (filelist s ! f) else Inl Fault)"

definition file_alloc :: "fstate \<Rightarrow> (nat option \<times> fstate) res" where
  "file_alloc s = rbind (ftable_acquire s) (\<lambda>s.
     case find (\<lambda>i. fref (filelist s ! i) = 0) [0..<length (filelist s)] of
       Some i \<Rightarrow> Inr (Some i, ftable_release (set_file i (\<lambda>f. f\<lparr>fref := 1\<rparr>) s))
     | None \<Rightarrow> Inr (None, ftable_release s))"

definition file_dup :: "nat \<Rightarrow> fstate \<Rightarrow> (nat \<times> fstate) res" where
  "file_dup f s = rbind (get_file f s) (\<lambda>_. rbind (ftable_acquire s) (\<lambda>s.
     Inr (f, ftable_release (set_file f (\<lambda>x. x\<lparr>fref := fref x + 1\<rparr>) s))))"

text \<open>Calls of the layers below, lifted to the whole state.\<close>

definition fs_begin_op :: "fstate \<Rightarrow> (ctx \<times> fstate) res" where
  "fs_begin_op s = rbind (cache_begin_op \<lparr>rm = 0, ts = 0\<rparr> (bc (it s))) (\<lambda>(c, b). Inr (Some c, s\<lparr>it := (it s)\<lparr>bc := b\<rparr>\<rparr>))"

definition fs_end_op :: "fstate \<Rightarrow> fstate res" where
  "fs_end_op s = rbind (cache_end_op (bc (it s))) (\<lambda>b. Inr (s\<lparr>it := (it s)\<lparr>bc := b\<rparr>\<rparr>))"

definition on_itree :: "(itree \<Rightarrow> itree res) \<Rightarrow> fstate \<Rightarrow> fstate res" where
  "on_itree f s = rbind (f (it s)) (\<lambda>t. Inr (s\<lparr>it := t\<rparr>))"

definition on_itree_ctx :: "(itree \<Rightarrow> (ctx \<times> itree) res) \<Rightarrow> fstate \<Rightarrow> (ctx \<times> fstate) res" where
  "on_itree_ctx f s = rbind (f (it s)) (\<lambda>(c, t). Inr (c, s\<lparr>it := t\<rparr>))"

definition get_pipe :: "nat \<Rightarrow> fstate \<Rightarrow> Pipe res" where
  "get_pipe p s = (case pipes s p of None \<Rightarrow> Inl Fault | Some pi \<Rightarrow> Inr pi)"

definition file_close :: "nat \<Rightarrow> fstate \<Rightarrow> fstate res" where
  "file_close f s = rbind (get_file f s) (\<lambda>x.
     if ftype x = FD_NONE then Inr s
     else rbind (ftable_acquire s) (\<lambda>s.
       let s = set_file f (\<lambda>x. x\<lparr>fref := fref x - 1\<rparr>) s
       in if fref (filelist s ! f) > 0 then Inr (ftable_release s)
          else let now = filelist s ! f;
                   s = ftable_release (set_file f (\<lambda>x. x\<lparr>fref := 0, ftype := FD_NONE\<rparr>) s)
               in if ftype now = FD_PIPE then
                    rbind (get_pipe (fobj now) s) (\<lambda>pi.
                    rbind (pipe_close (writable now) pi) (\<lambda>(gone, pi).
                    Inr (s\<lparr>pipes := (pipes s)(fobj now := if gone then None else Some pi)\<rparr>)))
                  else if ftype now = FD_INODE then
                    rbind (fs_begin_op s) (\<lambda>(ctx, s).
                    rbind (on_itree_ctx (inode_put ctx (fobj now)) s) (\<lambda>(ctx, s).
                    fs_end_op s))
                  else Inr s))"

definition file_stat :: "nat \<Rightarrow> stat \<Rightarrow> fstate \<Rightarrow> (stat option \<times> fstate) res" where
  "file_stat f st s = rbind (get_file f s) (\<lambda>x.
     if ftype x = FD_INODE then
       rbind (on_itree (inode_lock (fobj x)) s) (\<lambda>s.
       rbind (stati (fobj x) st (it s)) (\<lambda>st.
       rbind (on_itree (inode_unlock (fobj x)) s) (\<lambda>s. Inr (Some st, s))))
     else Inr (None, s))"

text \<open>
  \<^verbatim>\<open>file_read\<close>: the offset advances by what was read; the \<open>-1\<close> of an interrupted console read is added to the unsigned offset as \<open>2^64 - 1\<close>,
  and the inode, which that read left unlocked, is unlocked again.
\<close>

definition file_read :: "bool \<Rightarrow> bool \<Rightarrow> nat \<Rightarrow> nat \<Rightarrow> fstate \<Rightarrow> (byte list option \<times> fstate) res" where
  "file_read killed alerted f n s = rbind (get_file f s) (\<lambda>x.
     if \<not> readable x then Inr (None, s)
     else if ftype x = FD_PIPE then
       rbind (get_pipe (fobj x) s) (\<lambda>pi.
       rbind (pipe_read killed n pi) (\<lambda>(r, pi). Inr (r, s\<lparr>pipes := (pipes s)(fobj x \<mapsto> pi)\<rparr>)))
     else if ftype x = FD_INODE then
       rbind (on_itree (inode_lock (fobj x)) s) (\<lambda>s.
       rbind (inode_read alerted (fobj x) (foff x) n (it s)) (\<lambda>(r, t).
       let k = (case r of None \<Rightarrow> U64 - 1 | Some d \<Rightarrow> length d);
           s = set_file f (\<lambda>x. x\<lparr>foff := (foff x + k) mod U64\<rparr>) (s\<lparr>it := t\<rparr>)
       in rbind (on_itree (inode_unlock (fobj x)) s) (\<lambda>s. Inr (r, s))))
     else Inl Panic)"

text \<open>
  The loop of \<^verbatim>\<open>file_write\<close>: one atomic operation for at most 1536 bytes. A write of 0 bytes would make it spin; \<^verbatim>\<open>inode_write\<close> never returns that
  for a non-empty source.
\<close>

function file_write_loop :: "nat \<Rightarrow> nat \<Rightarrow> byte list \<Rightarrow> fstate \<Rightarrow> fstate res" where
  "file_write_loop f ip src s =
     (if src = [] then Inr s
      else let op_n = min (length src) MAX_OP_WRITE_N
           in rbind (fs_begin_op s) (\<lambda>(ctx, s).
              rbind (on_itree (inode_lock ip) s) (\<lambda>s.
              rbind (get_file f s) (\<lambda>x.
              rbind (inode_write ctx ip (take op_n src) (foff x) (it s)) (\<lambda>(w, ctx, t).
              let s = set_file f (\<lambda>x. x\<lparr>foff := (foff x + w) mod U64\<rparr>) (s\<lparr>it := t\<rparr>)
              in rbind (on_itree (inode_unlock ip) s) (\<lambda>s.
                 rbind (fs_end_op s) (\<lambda>s.
                 if w = 0 then Inl Blocked else file_write_loop f ip (drop w src) s)))))))"
  by pat_completeness auto
termination
  by (relation "measure (\<lambda>(f, ip, src, s). length src)") auto

declare file_write_loop.simps [simp del]

definition file_write :: "bool \<Rightarrow> nat \<Rightarrow> byte list \<Rightarrow> fstate \<Rightarrow> (nat option \<times> fstate) res" where
  "file_write killed f src s = rbind (get_file f s) (\<lambda>x.
     if \<not> writable x then Inr (None, s)
     else if ftype x = FD_PIPE then
       rbind (get_pipe (fobj x) s) (\<lambda>pi.
       rbind (pipe_write killed src pi) (\<lambda>(r, pi). Inr (r, s\<lparr>pipes := (pipes s)(fobj x \<mapsto> pi)\<rparr>)))
     else if ftype x = FD_INODE then
       let max_n = (INODE_MAX_BYTES + U64 - foff x) mod U64;
           src = take (min (length src) max_n) src
       in rbind (file_write_loop f (fobj x) src s) (\<lambda>s. Inr (Some (length src), s))
     else Inl Panic)"

section \<open>Creating a pipe\<close>

definition init_read_pipe :: "nat \<Rightarrow> nat \<Rightarrow> fstate \<Rightarrow> fstate" where
  "init_read_pipe f p = set_file f (\<lambda>x. x\<lparr>ftype := FD_PIPE, readable := True, writable := False, fobj := p\<rparr>)"

definition init_write_pipe :: "nat \<Rightarrow> nat \<Rightarrow> fstate \<Rightarrow> fstate" where
  "init_write_pipe f p = set_file f (\<lambda>x. x\<lparr>ftype := FD_PIPE, readable := False, writable := True, fobj := p\<rparr>)"

definition close_opt :: "nat option \<Rightarrow> fstate \<Rightarrow> fstate res" where
  "close_opt f s = (case f of None \<Rightarrow> Inr s | Some f \<Rightarrow> file_close f s)"

definition fresh_pipe :: Pipe where
  "fresh_pipe = \<lparr>plock = \<lparr>locked = False\<rparr>, wlock = init_sem 0, rlock = init_sem 0, pdata = replicate PIPE_SIZE 0, nread = 0, nwrite = 0,
     readopen = False, writeopen = False\<rparr>"

text \<open>\<open>mem\<close> is the address \<^verbatim>\<open>kalloc\<close> returns. The pair of the result is \<open>None\<close> when the call returns \<open>-1\<close>.\<close>

definition pipe_alloc :: "nat \<Rightarrow> fstate \<Rightarrow> ((nat \<times> nat) option \<times> fstate) res" where
  "pipe_alloc mem s =
     rbind (file_alloc s) (\<lambda>(f0, s).
     rbind (if f0 = None then Inr (None, s) else file_alloc s) (\<lambda>(f1, s).
     if f0 \<noteq> None \<and> f1 \<noteq> None \<and> mem \<noteq> 0
     then let s = s\<lparr>pipes := (pipes s)(mem \<mapsto> init_pipe fresh_pipe)\<rparr>;
              s = init_write_pipe (the f1) mem (init_read_pipe (the f0) mem s)
          in Inr (Some (the f0, the f1), s)
     else rbind (close_opt f0 s) (\<lambda>s.
          rbind (close_opt f1 s) (\<lambda>s. Inr (None, s)))))"

section \<open>Lemmas\<close>

definition file_free :: "fstate \<Rightarrow> nat \<Rightarrow> bool" where
  "file_free s i \<longleftrightarrow> i < length (filelist s) \<and> fref (filelist s ! i) = 0"

lemma ftable_cycle:
  "\<not> locked (ftable_lock s) \<Longrightarrow> ftable_acquire s = Inr (s\<lparr>ftable_lock := (ftable_lock s)\<lparr>locked := True\<rparr>\<rparr>)"
  by (simp add: ftable_acquire_def)

lemma file_alloc_props:
  assumes lk: "\<not> locked (ftable_lock s)"
  shows "(\<nexists>i. file_free s i) \<Longrightarrow> file_alloc s = Inr (None, s)"
    and "file_free s j \<Longrightarrow> \<exists>i. file_free s i \<and> file_alloc s = Inr (Some i, set_file i (\<lambda>f. f\<lparr>fref := 1\<rparr>) s)"
proof -
  let ?l = "(ftable_lock s)\<lparr>locked := True\<rparr>"
  have rel: "ftable_release (s\<lparr>ftable_lock := ?l\<rparr>) = s" using lock_cycle [OF lk] by (simp add: ftable_release_def)
  have rel': "ftable_release (set_file i g (s\<lparr>ftable_lock := ?l\<rparr>)) = set_file i g s" for i g
    using lock_cycle [OF lk] by (simp add: ftable_release_def set_file_def)
  show "file_alloc s = Inr (None, s)" if "\<nexists>i. file_free s i"
  proof -
    have "find (\<lambda>i. fref (filelist s ! i) = 0) [0..<length (filelist s)] = None"
      using that by (auto simp: find_None_set file_free_def)
    then show ?thesis using rel by (simp add: file_alloc_def ftable_cycle [OF lk])
  qed
  show "\<exists>i. file_free s i \<and> file_alloc s = Inr (Some i, set_file i (\<lambda>f. f\<lparr>fref := 1\<rparr>) s)" if "file_free s j"
  proof -
    from that obtain i where i: "find (\<lambda>i. fref (filelist s ! i) = 0) [0..<length (filelist s)] = Some i"
      by (cases "find (\<lambda>i. fref (filelist s ! i) = 0) [0..<length (filelist s)]") (auto simp: find_None_set file_free_def)
    then have "file_free s i" using find_SomeD [OF i] by (auto simp: file_free_def)
    moreover have "file_alloc s = Inr (Some i, set_file i (\<lambda>f. f\<lparr>fref := 1\<rparr>) s)"
      using i rel' by (simp add: file_alloc_def ftable_cycle [OF lk])
    ultimately show ?thesis by blast
  qed
qed

lemma set_file_simps [simp]:
  "ftable_lock (set_file f g s) = ftable_lock s" "it (set_file f g s) = it s" "pipes (set_file f g s) = pipes s"
  "length (filelist (set_file f g s)) = length (filelist s)"
  "f < length (filelist s) \<Longrightarrow> filelist (set_file f g s) ! f = g (filelist s ! f)"
  "f \<noteq> h \<Longrightarrow> filelist (set_file f g s) ! h = filelist s ! h"
  by (simp_all add: set_file_def)

text \<open>With two free entries the two allocations of \<^verbatim>\<open>pipe_alloc\<close> take two different ones.\<close>

lemma file_alloc_two:
  assumes lk: "\<not> locked (ftable_lock s)" and free: "file_free s i" "file_free s j" "i \<noteq> j"
  obtains f0 f1 s1 where "file_alloc s = Inr (Some f0, s1)" "file_alloc s1 = Inr (Some f1, set_file f1 (\<lambda>f. f\<lparr>fref := 1\<rparr>) s1)"
    "s1 = set_file f0 (\<lambda>f. f\<lparr>fref := 1\<rparr>) s" "f0 \<noteq> f1" "file_free s f0" "file_free s f1"
proof -
  from file_alloc_props(2) [OF lk free(1)] obtain f0 where
    0: "file_free s f0" "file_alloc s = Inr (Some f0, set_file f0 (\<lambda>f. f\<lparr>fref := 1\<rparr>) s)" by blast
  let ?s = "set_file f0 (\<lambda>f. f\<lparr>fref := 1\<rparr>) s"
  have still: "file_free ?s k \<longleftrightarrow> file_free s k \<and> k \<noteq> f0" for k
    using 0(1) by (cases "k = f0") (auto simp: file_free_def)
  have "\<exists>k. file_free ?s k" using free still by blast
  then obtain f1 where "file_free ?s f1" "file_alloc ?s = Inr (Some f1, set_file f1 (\<lambda>f. f\<lparr>fref := 1\<rparr>) ?s)"
    using file_alloc_props(2) [of ?s] lk by auto
  with 0 still that show ?thesis by blast
qed

lemma fresh_pipe_ok: "pipe_ok (init_pipe fresh_pipe)" "content (init_pipe fresh_pipe) = []" "writeopen (init_pipe fresh_pipe)"
  using quiet_init [of 0] by (auto simp: pipe_ok_def init_pipe_def fresh_pipe_def fill_def content_def init_spinlock_def)

section \<open>Properties\<close>

text \<open>
  With two free entries in the file table, \<^verbatim>\<open>pipe_alloc\<close> returns two different files that form a working pipe: up to 512 bytes written
  to the second are what reading from the first returns, in order, and neither file works in the other direction.
\<close>
theorem pipe_alloc_connects:
  assumes "\<not> locked (ftable_lock s)" and "file_free s i" and "file_free s j" and "i \<noteq> j" and "mem \<noteq> 0"
    and "src \<noteq> []" and "length src \<le> PIPE_SIZE"
  shows "\<exists>f0 f1 s1 s2 s3. pipe_alloc mem s = Inr (Some (f0, f1), s1) \<and> f0 \<noteq> f1 \<and> file_free s f0 \<and> file_free s f1
    \<and> file_write killed f1 src s1 = Inr (Some (length src), s2)
    \<and> file_read killed alerted f0 n s2 = Inr (Some (take n src), s3)
    \<and> file_write killed f0 src s1 = Inr (None, s1) \<and> file_read killed alerted f1 n s1 = Inr (None, s1)"
proof -
  from file_alloc_two [OF assms(1-4)] obtain f0 f1 t where
    a: "file_alloc s = Inr (Some f0, t)" "file_alloc t = Inr (Some f1, set_file f1 (\<lambda>f. f\<lparr>fref := 1\<rparr>) t)"
      "t = set_file f0 (\<lambda>f. f\<lparr>fref := 1\<rparr>) s" "f0 \<noteq> f1" "file_free s f0" "file_free s f1" by metis
  have len: "f0 < length (filelist s)" "f1 < length (filelist s)" using a(5,6) by (auto simp: file_free_def)
  let ?u = "set_file f1 (\<lambda>f. f\<lparr>fref := 1\<rparr>) t"
  define s1 where "s1 = init_write_pipe f1 mem (init_read_pipe f0 mem (?u\<lparr>pipes := (pipes ?u)(mem \<mapsto> init_pipe fresh_pipe)\<rparr>))"
  have p: "pipe_alloc mem s = Inr (Some (f0, f1), s1)"
    using assms(5) by (simp add: pipe_alloc_def a(1,2) s1_def)
  have f0: "get_file f0 s1 = Inr (filelist s1 ! f0)" "ftype (filelist s1 ! f0) = FD_PIPE" "readable (filelist s1 ! f0)"
      "\<not> writable (filelist s1 ! f0)" "fobj (filelist s1 ! f0) = mem"
    and f1: "get_file f1 s1 = Inr (filelist s1 ! f1)" "ftype (filelist s1 ! f1) = FD_PIPE" "\<not> readable (filelist s1 ! f1)"
      "writable (filelist s1 ! f1)" "fobj (filelist s1 ! f1) = mem"
    and pm: "pipes s1 mem = Some (init_pipe fresh_pipe)"
    using len a(4) by (simp_all add: s1_def get_file_def init_read_pipe_def init_write_pipe_def set_file_def a(3) nth_list_update)
  from pipe_write_fits [OF fresh_pipe_ok(1), of src killed] fresh_pipe_ok(2) assms(7) obtain pi where
    pi: "pipe_write killed src (init_pipe fresh_pipe) = Inr (Some (length src), pi)" "pipe_ok pi" "content pi = src" by auto
  from pipe_read_takes [OF pi(2), of killed n] pi(3) assms(6) obtain pi' where
    pi': "pipe_read killed n pi = Inr (Some (take n src), pi')" by auto
  let ?s2 = "s1\<lparr>pipes := (pipes s1)(mem \<mapsto> pi)\<rparr>"
  have w: "file_write killed f1 src s1 = Inr (Some (length src), ?s2)"
    using f1 pm pi(1) by (simp add: file_write_def get_pipe_def)
  have "get_file f0 ?s2 = Inr (filelist s1 ! f0)" using f0(1) by (simp add: get_file_def split: if_splits)
  then have "file_read killed alerted f0 n ?s2 = Inr (Some (take n src), ?s2\<lparr>pipes := (pipes ?s2)(mem \<mapsto> pi')\<rparr>)"
    using f0 pi' by (simp add: file_read_def get_pipe_def)
  moreover have "file_write killed f0 src s1 = Inr (None, s1)" "file_read killed alerted f1 n s1 = Inr (None, s1)"
    using f0 f1 by (simp_all add: file_write_def file_read_def)
  ultimately show ?thesis using p a(4-6) w by blast
qed

definition demo_files :: fstate where
  "demo_files = \<lparr>it = \<lparr>bc = demo_cache, ilock = \<lparr>locked = False\<rparr>, itable = (\<lambda>_. None), iroot = 0, cons = zero_console\<rparr>,
     ftable_lock = \<lparr>locked = False\<rparr>,
     filelist = replicate NFILE \<lparr>ftype = FD_NONE, fref = 0, readable = False, writable = False, fobj = 0, foff = 0\<rparr>,
     pipes = (\<lambda>_. None)\<rparr>"

lemma demo_files_free: "i < NFILE \<Longrightarrow> file_free demo_files i"
  by (simp add: file_free_def demo_files_def)

theorem pipe_alloc_connects_witness:
  "\<exists>f0 f1 s1 s2 s3. pipe_alloc 4096 demo_files = Inr (Some (f0, f1), s1)
    \<and> file_write False f1 [104, 105] s1 = Inr (Some 2, s2) \<and> file_read False False f0 10 s2 = Inr (Some [104, 105], s3)"
proof -
  have "\<not> locked (ftable_lock demo_files)" by (simp add: demo_files_def)
  from pipe_alloc_connects [OF this demo_files_free demo_files_free, of 0 1 4096 "[104, 105]" False False 10]
  show ?thesis by auto
qed

text \<open>
  When the memory for the pipe cannot be allocated, \<^verbatim>\<open>pipe_alloc\<close> reports failure but the two file structures it had taken keep their
  reference count of 1: they still have type \<^verbatim>\<open>FD_NONE\<close>, for which \<^verbatim>\<open>file_close\<close> returns at once, so both entries are lost.
\<close>
theorem pipe_alloc_failure_leaks:
  assumes "\<not> locked (ftable_lock s)" and "file_free s i" and "file_free s j" and "i \<noteq> j"
    and "\<forall>f\<in>set (filelist s). fref f = 0 \<longrightarrow> ftype f = FD_NONE"
  shows "\<exists>f0 f1 s'. pipe_alloc 0 s = Inr (None, s') \<and> f0 \<noteq> f1 \<and> file_free s f0 \<and> file_free s f1
    \<and> (\<forall>k. file_free s' k \<longleftrightarrow> file_free s k \<and> k \<noteq> f0 \<and> k \<noteq> f1)"
proof -
  from file_alloc_two [OF assms(1-4)] obtain f0 f1 t where
    a: "file_alloc s = Inr (Some f0, t)" "file_alloc t = Inr (Some f1, set_file f1 (\<lambda>f. f\<lparr>fref := 1\<rparr>) t)"
      "t = set_file f0 (\<lambda>f. f\<lparr>fref := 1\<rparr>) s" "f0 \<noteq> f1" "file_free s f0" "file_free s f1" by metis
  let ?u = "set_file f1 (\<lambda>f. f\<lparr>fref := 1\<rparr>) t"
  have len: "f0 < length (filelist s)" "f1 < length (filelist s)" using a(5,6) by (auto simp: file_free_def)
  have "ftype (filelist s ! f0) = FD_NONE" "ftype (filelist s ! f1) = FD_NONE"
    using assms(5) a(5,6) by (auto simp: file_free_def)
  then have "ftype (filelist ?u ! f0) = FD_NONE" "ftype (filelist ?u ! f1) = FD_NONE" "f0 < length (filelist ?u)" "f1 < length (filelist ?u)"
    using len a(4) by (simp_all add: a(3) set_file_def nth_list_update)
  then have "close_opt (Some f0) ?u = Inr ?u" "close_opt (Some f1) ?u = Inr ?u"
    by (simp_all add: close_opt_def file_close_def get_file_def)
  then have "pipe_alloc 0 s = Inr (None, ?u)" by (simp add: pipe_alloc_def a(1,2))
  moreover have "\<forall>k. file_free ?u k \<longleftrightarrow> file_free s k \<and> k \<noteq> f0 \<and> k \<noteq> f1"
    using len a(4) by (auto simp: file_free_def a(3) set_file_def nth_list_update)
  ultimately show ?thesis using a(4-6) by blast
qed

theorem pipe_alloc_failure_leaks_witness:
  "\<exists>f0 s'. pipe_alloc 0 demo_files = Inr (None, s') \<and> file_free demo_files f0 \<and> \<not> file_free s' f0"
proof -
  have "\<not> locked (ftable_lock demo_files)" "\<forall>f\<in>set (filelist demo_files). fref f = 0 \<longrightarrow> ftype f = FD_NONE"
    by (simp_all add: demo_files_def)
  from pipe_alloc_failure_leaks [OF this(1) demo_files_free demo_files_free _ this(2), of 0 1] show ?thesis by auto
qed

end
