(* ===== verification/Kernel_Mem.thy ===== *)
theory Kernel_Mem
  imports Locks "HOL-Library.Multiset"
begin

text \<open>
  The page and block allocators (\<^verbatim>\<open>kernel/mem.c\<close>).

  Addresses are physical addresses, so \<^verbatim>\<open>K2P\<close> is the identity. The lock-free queues are used by one thread here and are therefore the sequences that
  \<open>Linked_List\<close> shows them to be: \<open>nodes\<close> is the queue of free pages, \<open>free\<close> the array of 256 queues of free blocks. \<open>hdr\<close> is the
  integer the allocator stores in the first word of a block, \<open>pages_ref\<close> the reference counts by page number. Indexing an array
  outside its bounds, and using the null pointer that an empty page queue yields, is a \<open>Fault\<close>.
\<close>

abbreviation (input) PAGE_SIZE :: nat where "PAGE_SIZE \<equiv> 4096"

record page =
  ref :: RefCount
  ref_lock :: SpinLock

record kmem =
  kalloc_page_cnt :: RefCount
  left_pages :: RefCount
  zero_page_ptr :: nat
  kernel_mem_lock :: SpinLock
  nodes :: "nat list"
  pages_ref :: "nat \<Rightarrow> page"
  free :: "nat list list"
  hdr :: "nat \<Rightarrow> nat"

section \<open>Pages\<close>

text \<open>The pages from \<open>lo\<close> (the page of \<^verbatim>\<open>end\<close>) below \<open>hi\<close> (the table of reference counts).\<close>

fun init_page :: "nat list \<Rightarrow> kmem \<Rightarrow> kmem" where
  "init_page [] s = s"
| "init_page (p # ps) s = init_page ps (s\<lparr>nodes := p # nodes s, left_pages := increment_rc (left_pages s)\<rparr>)"

definition set_page :: "nat \<Rightarrow> (page \<Rightarrow> page) \<Rightarrow> kmem \<Rightarrow> kmem" where
  "set_page n f s = s\<lparr>pages_ref := (pages_ref s)(n := f (pages_ref s n))\<rparr>"

definition kalloc_page :: "kmem \<Rightarrow> (nat \<times> kmem) res" where
  "kalloc_page s =
     (let s = s\<lparr>kalloc_page_cnt := increment_rc (kalloc_page_cnt s), left_pages := snd (decrement_rc (left_pages s))\<rparr>
      in case nodes s of
           [] \<Rightarrow> Inl Fault
         | p # ps \<Rightarrow>
             let s = s\<lparr>nodes := ps\<rparr>;
                 s = set_page (p div PAGE_SIZE) (\<lambda>g. g\<lparr>ref := (ref g)\<lparr>count := 0\<rparr>, ref_lock := init_spinlock (ref_lock g)\<rparr>) s
             in Inr (p, s))"

definition kfree_page :: "nat \<Rightarrow> kmem \<Rightarrow> kmem res" where
  "kfree_page p s =
     (let s = s\<lparr>kalloc_page_cnt := snd (decrement_rc (kalloc_page_cnt s))\<rparr>;
          n = p div PAGE_SIZE
      in rbind (acquire_spinlock (ref_lock (pages_ref s n))) (\<lambda>l.
         let s = set_page n (\<lambda>g. g\<lparr>ref_lock := l, ref := snd (decrement_rc (ref g))\<rparr>) s;
             s = (if sint (RefCount.count (ref (pages_ref s n))) \<le> 0
                  then s\<lparr>nodes := p # nodes s, left_pages := increment_rc (left_pages s)\<rparr> else s)
         in Inr (set_page n (\<lambda>g. g\<lparr>ref_lock := release_spinlock (ref_lock g)\<rparr>) s)))"

definition left_page_cnt :: "kmem \<Rightarrow> nat" where
  "left_page_cnt s = unat (RefCount.count (left_pages s))"

definition kinit :: "nat \<Rightarrow> nat \<Rightarrow> kmem \<Rightarrow> kmem res" where
  "kinit lo hi s =
     (let s = s\<lparr>kalloc_page_cnt := init_rc (kalloc_page_cnt s), left_pages := init_rc (left_pages s),
                kernel_mem_lock := init_spinlock (kernel_mem_lock s), zero_page_ptr := 0\<rparr>;
          s = init_page (map (\<lambda>k. lo + k * PAGE_SIZE) [0..<(hi - lo + (PAGE_SIZE - 1)) div PAGE_SIZE]) s
      in rbind (kalloc_page s) (\<lambda>(p, s).
         let s = s\<lparr>zero_page_ptr := p\<rparr>
         in Inr (set_page (p div PAGE_SIZE) (\<lambda>g. g\<lparr>ref := (ref g)\<lparr>count := 1\<rparr>\<rparr>) s)))"

definition get_zero_page :: "kmem \<Rightarrow> nat" where
  "get_zero_page s = zero_page_ptr s"

text \<open>
  \<^verbatim>\<open>get_page_ref\<close> indexes the table with \<^verbatim>\<open>PAGE_INDEX\<close>, which counts pages from \<^verbatim>\<open>EXTMEM\<close>, where the routines above count
  from 0.
\<close>

abbreviation (input) EXTMEM :: nat where "EXTMEM \<equiv> 0x40000000"

definition get_page_ref :: "nat \<Rightarrow> kmem \<Rightarrow> (64 word \<times> kmem) res" where
  "get_page_ref addr s =
     (let index = (addr div PAGE_SIZE * PAGE_SIZE + 2 ^ 64 - EXTMEM) mod 2 ^ 64 div PAGE_SIZE
      in rbind (acquire_spinlock (kernel_mem_lock s)) (\<lambda>l.
         let s = s\<lparr>kernel_mem_lock := l\<rparr>;
             r = RefCount.count (ref (pages_ref s index))
         in Inr (r, s\<lparr>kernel_mem_lock := release_spinlock (kernel_mem_lock s)\<rparr>)))"

section \<open>Blocks\<close>

text \<open>The number of 16-byte units of a request with its header, as the \<^verbatim>\<open>int\<close> it is stored in.\<close>

definition block_units :: "nat \<Rightarrow> int" where
  "block_units sz = (let sz = (sz + 8) mod 2 ^ 64 in signed_take_bit 31 (int (if sz mod 16 = 0 then sz div 16 else sz div 16 + 1)))"

definition push_free :: "int \<Rightarrow> nat \<Rightarrow> kmem \<Rightarrow> kmem res" where
  "push_free i a s = (if 0 \<le> i \<and> i < 256 then Inr (s\<lparr>free := (free s)[nat i := a # free s ! nat i]\<rparr>) else Inl Fault)"

definition kalloc :: "nat \<Rightarrow> kmem \<Rightarrow> (nat \<times> kmem) res" where
  "kalloc sz s =
     rbind (acquire_spinlock (kernel_mem_lock s)) (\<lambda>l.
     let s = s\<lparr>kernel_mem_lock := l\<rparr>;
         number = nat (block_units sz);
         finish = (\<lambda>node v s. Inr (node + 8, s\<lparr>hdr := (hdr s)(node := v), kernel_mem_lock := release_spinlock (kernel_mem_lock s)\<rparr>))
     in if number = 256 then rbind (kalloc_page s) (\<lambda>(node, s). finish node 256 s)
        else if block_units sz \<le> 0 then Inl Fault
        else case find (\<lambda>i. free s ! i \<noteq> []) [number - 1..<256] of
          Some i \<Rightarrow>
            let node = hd (free s ! i);
                s = s\<lparr>free := (free s)[i := tl (free s ! i)]\<rparr>;
                freenumber = i + 1 - number
            in rbind (if freenumber \<noteq> 0 then push_free (int freenumber - 1) (node + number * 16) s else Inr s)
                 (finish node (number - 1))
        | None \<Rightarrow>
            rbind (kalloc_page s) (\<lambda>(node, s).
            rbind (push_free (256 - int number - 1) (node + number * 16) s)
              (finish node (number - 1))))"

definition kfree :: "nat \<Rightarrow> kmem \<Rightarrow> kmem res" where
  "kfree ptr s = (let ptr = ptr - 8 in push_free (int (hdr s ptr)) ptr s)"

section \<open>Conservation of memory\<close>

text \<open>The bytes of a block, and of everything the allocator holds.\<close>

definition span :: "nat \<Rightarrow> nat \<Rightarrow> nat multiset" where
  "span a n = mset [a..<a + n]"

definition cover :: "kmem \<Rightarrow> nat multiset" where
  "cover s = (\<Sum>p\<in>#mset (nodes s). span p PAGE_SIZE)
     + (\<Sum>i<length (free s). \<Sum>a\<in>#mset (free s ! i). span a (16 * (i + 1)))"

definition kmem_ok :: "kmem \<Rightarrow> bool" where
  "kmem_ok s \<longleftrightarrow> length (free s) = 256 \<and> \<not> locked (kernel_mem_lock s)"

lemma span_split: "span a (m + n) = span a m + span (a + m) n"
  using upt_add_eq_append [of a "a + m" n] by (simp add: span_def add.assoc)

lemma span_empty [simp]: "span a 0 = {#}" by (simp add: span_def)

lemma sum_add_at:
  fixes f :: "nat \<Rightarrow> 'a multiset"
  assumes "i < n"
  shows "(\<Sum>j<n. f j + (if j = i then c else {#})) = (\<Sum>j<n. f j) + c"
  using assms by (simp add: sum.distrib)

lemma push_free_ok:
  assumes "k < 256" and "length (free s) = 256"
  shows "push_free (int k) a s = Inr (s\<lparr>free := (free s)[k := a # free s ! k]\<rparr>)"
  using assms by (simp add: push_free_def)

lemma cover_add:
  assumes k: "k < length (free s)"
  shows "cover (s\<lparr>free := (free s)[k := a # free s ! k]\<rparr>) = cover s + span a (16 * (k + 1))"
proof -
  let ?g = "\<lambda>j. \<Sum>a\<in>#mset (free s ! j). span a (16 * (j + 1))"
  have "(\<Sum>j<length (free s). \<Sum>x\<in>#mset ((free s)[k := a # free s ! k] ! j). span x (16 * (j + 1)))
      = (\<Sum>j<length (free s). ?g j + (if j = k then span a (16 * (k + 1)) else {#}))"
  proof (rule sum.cong [OF refl])
    fix j
    show "(\<Sum>x\<in>#mset ((free s)[k := a # free s ! k] ! j). span x (16 * (j + 1))) = ?g j + (if j = k then span a (16 * (k + 1)) else {#})"
      using k by (cases "j = k") (simp_all add: add.commute)
  qed
  also note sum_add_at [OF k]
  finally show ?thesis by (simp add: cover_def add.assoc)
qed

lemma cover_push:
  assumes "k < 256" and "length (free s) = 256"
  shows "\<exists>u. push_free (int k) a s = Inr u \<and> cover u = cover s + span a (16 * (k + 1)) \<and> length (free u) = 256
    \<and> kernel_mem_lock u = kernel_mem_lock s \<and> hdr u = hdr s \<and> nodes u = nodes s"
  using push_free_ok [OF assms] cover_add [of k s a] assms by fastforce

lemma cover_pop:
  assumes "i < length (free s)" and "free s ! i = a # as"
  shows "cover s = cover (s\<lparr>free := (free s)[i := as]\<rparr>) + span a (16 * (i + 1))"
  using cover_add [of i "s\<lparr>free := (free s)[i := as]\<rparr>" a] assms list_update_id [of "free s" i] by simp

lemma cover_page:
  assumes "kalloc_page s = Inr (p, s')"
  shows "cover s = cover s' + span p PAGE_SIZE" "free s' = free s" "kernel_mem_lock s' = kernel_mem_lock s" "hdr s' = hdr s"
    "p = hd (nodes s)" "nodes s' = tl (nodes s)"
  using assms by (auto simp: kalloc_page_def cover_def set_page_def Let_def ac_simps split: list.splits)

lemma cover_fields [simp]: "cover (s\<lparr>hdr := h\<rparr>) = cover s" "cover (s\<lparr>kernel_mem_lock := l\<rparr>) = cover s"
  by (simp_all add: cover_def)

lemma units_round_up: "(if x mod 16 = 0 then x div 16 else x div 16 + 1) = (x + 15) div (16 :: nat)"
proof (cases "x mod 16 = 0")
  case True
  then show ?thesis using div_mult_mod_eq [of x 16] by simp
next
  case False
  then have "(x + 15) div 16 = x div 16 + 1" using div_mult_mod_eq [of x 16] mod_less_divisor [of 16 x] by linarith
  then show ?thesis using False by presburger
qed

lemma block_units_small:
  assumes "sz \<le> 5000"
  shows "block_units sz = int ((sz + 8 + 15) div 16)"
proof -
  have "sz + 8 < 2 ^ 64" by (rule le_less_trans [of _ 5008]) (use assms in simp_all)
  then have "(sz + 8) mod 2 ^ 64 = sz + 8" by (rule mod_less)
  moreover have "signed_take_bit 31 (int ((sz + 8 + 15) div 16)) = int ((sz + 8 + 15) div 16)"
  proof (rule signed_take_bit_int_eq_self)
    have "(sz + 8 + 15) div 16 \<le> 5023" using assms by linarith
    then have "int ((sz + 8 + 15) div 16) \<le> 5023" by linarith
    then show "int ((sz + 8 + 15) div 16) < 2 ^ 31" by (rule le_less_trans) simp
  qed (rule order_trans [of _ 0], simp_all)
  ultimately show ?thesis unfolding block_units_def Let_def units_round_up by presburger
qed

lemma block_units_bounds:
  assumes "sz \<le> 4072"
  shows "\<exists>n. block_units sz = int n \<and> 0 < n \<and> n < 256 \<and> sz + 8 \<le> 16 * n \<and> 16 * n < sz + 24"
proof -
  have "block_units sz = int ((sz + 8 + 15) div 16)" using assms by (simp add: block_units_small)
  moreover have "0 < (sz + 8 + 15) div 16" "(sz + 8 + 15) div 16 < 256" "sz + 8 \<le> 16 * ((sz + 8 + 15) div 16)"
    "16 * ((sz + 8 + 15) div 16) < sz + 24" using assms by linarith+
  ultimately show ?thesis by blast
qed

text \<open>What a successful allocation does, for every request of at most 4088 bytes.\<close>

definition kalloc_finish :: "nat \<Rightarrow> nat \<Rightarrow> kmem \<Rightarrow> kmem" where
  "kalloc_finish node v s = s\<lparr>hdr := (hdr s)(node := v), kernel_mem_lock := release_spinlock (kernel_mem_lock s)\<rparr>"

lemma kalloc_finish_ok:
  assumes "length (free s) = 256"
  shows "kmem_ok (kalloc_finish node v s)" "cover (kalloc_finish node v s) = cover s" "hdr (kalloc_finish node v s) = (hdr s)(node := v)"
  using assms by (simp_all add: kalloc_finish_def kmem_ok_def release_spinlock_eq cover_def)

lemma kalloc_small:
  assumes "\<not> locked (kernel_mem_lock s)" and "block_units sz = int n" and "0 < n" and "n < 256"
  shows "kalloc sz s =
     (let s = s\<lparr>kernel_mem_lock := (kernel_mem_lock s)\<lparr>locked := True\<rparr>\<rparr>
      in case find (\<lambda>i. free s ! i \<noteq> []) [n - 1..<256] of
          Some i \<Rightarrow>
            let node = hd (free s ! i); s = s\<lparr>free := (free s)[i := tl (free s ! i)]\<rparr>; freenumber = i + 1 - n
            in rbind (if freenumber \<noteq> 0 then push_free (int freenumber - 1) (node + n * 16) s else Inr s)
                 (\<lambda>s. Inr (node + 8, kalloc_finish node (n - 1) s))
        | None \<Rightarrow>
            rbind (kalloc_page s) (\<lambda>(node, s).
            rbind (push_free (256 - int n - 1) (node + n * 16) s) (\<lambda>s. Inr (node + 8, kalloc_finish node (n - 1) s))))"
proof -
  have "n \<noteq> 256" "\<not> int n \<le> 0" using assms by simp_all
  then show ?thesis
    unfolding kalloc_def Let_def assms(2) nat_int by (simp only: acquire_spinlock_free [OF assms(1)] rbind_Inr if_False kalloc_finish_def)
qed

lemma kalloc_from_free:
  assumes ok: "kmem_ok s" and n: "0 < n" "n < 256" "block_units sz = int n" and i: "find (\<lambda>i. free s ! i \<noteq> []) [n - 1..<256] = Some i"
  shows "\<exists>node s'. kalloc sz s = Inr (node + 8, s') \<and> kmem_ok s' \<and> hdr s' = (hdr s)(node := n - 1)
    \<and> cover s = cover s' + span node (16 * n)"
proof -
  let ?l = "(kernel_mem_lock s)\<lparr>locked := True\<rparr>"
  have len: "length (free s) = 256" and unl: "\<not> locked (kernel_mem_lock s)" using ok by (auto simp: kmem_ok_def)
  have ib: "n - 1 \<le> i" "i < 256" and ne: "free s ! i \<noteq> []" using find_SomeD [OF i] by auto
  then obtain a as where fi: "free s ! i = a # as" by (cases "free s ! i") auto
  let ?s = "s\<lparr>kernel_mem_lock := ?l\<rparr>"
  let ?t = "?s\<lparr>free := (free s)[i := as]\<rparr>"
  have c1: "cover s = cover ?t + span a (16 * (i + 1))" using cover_pop [of i ?s a as] len ib fi by simp
  show ?thesis
  proof (cases "i + 1 = n")
    case True
    then have "kalloc sz s = Inr (a + 8, kalloc_finish a (n - 1) ?t)"
      using kalloc_small [OF unl n(3,1,2)] i fi by (simp add: Let_def)
    then show ?thesis using kalloc_finish_ok [of ?t] len c1 True by auto
  next
    case False
    let ?k = "i + 1 - n"
    have k: "0 < ?k" "?k - 1 < 256" using False ib n by auto
    have ik: "int ?k - 1 = int (?k - 1)" and k1: "?k - 1 + 1 = ?k" using k by simp_all
    obtain u where u: "push_free (int ?k - 1) (a + n * 16) ?t = Inr u" and
      cu: "cover u = cover ?t + span (a + n * 16) (16 * ?k)" "length (free u) = 256" "hdr u = hdr s"
      using cover_push [OF k(2), of ?t "a + n * 16"] len unfolding ik k1 by auto
    have "kalloc sz s = Inr (a + 8, kalloc_finish a (n - 1) u)"
      using kalloc_small [OF unl n(3,1,2)] i fi u k by (simp add: Let_def)
    moreover note cu
    moreover have "span a (16 * (i + 1)) = span a (16 * n) + span (a + n * 16) (16 * ?k)"
    proof -
      have "16 * (i + 1) = 16 * n + 16 * ?k" using ib n by simp
      then show ?thesis using span_split [of a "16 * n" "16 * ?k"] by (simp add: mult.commute)
    qed
    ultimately show ?thesis using kalloc_finish_ok [of u] c1 by (auto simp: add.assoc add.left_commute add.commute)
  qed
qed

lemma kalloc_from_page:
  assumes ok: "kmem_ok s" and n: "0 < n" "n < 256" "block_units sz = int n" and i: "find (\<lambda>i. free s ! i \<noteq> []) [n - 1..<256] = None"
    and pg: "nodes s \<noteq> []"
  shows "\<exists>node s'. kalloc sz s = Inr (node + 8, s') \<and> kmem_ok s' \<and> hdr s' = (hdr s)(node := n - 1)
    \<and> cover s = cover s' + span node (16 * n) \<and> node = hd (nodes s) \<and> nodes s' = tl (nodes s)"
proof -
  let ?s = "s\<lparr>kernel_mem_lock := (kernel_mem_lock s)\<lparr>locked := True\<rparr>\<rparr>"
  have len: "length (free s) = 256" and unl: "\<not> locked (kernel_mem_lock s)" using ok by (auto simp: kmem_ok_def)
  obtain p t where t: "kalloc_page ?s = Inr (p, t)" using pg by (cases "nodes s") (auto simp: kalloc_page_def Let_def)
  note ct = cover_page [OF t]
  have "256 - n - 1 < 256" and ik: "256 - int n - 1 = int (256 - n - 1)" and k1: "256 - n - 1 + 1 = 256 - n" using n by simp_all
  then obtain u where u: "push_free (256 - int n - 1) (p + n * 16) t = Inr u" and
    cu: "cover u = cover t + span (p + n * 16) (16 * (256 - n))" "length (free u) = 256" "hdr u = hdr s" "nodes u = nodes t"
    using cover_push [of "256 - n - 1" t "p + n * 16"] len ct unfolding ik k1 by auto
  have fl: "free ?s = free s" by simp
  have "kalloc sz s = Inr (p + 8, kalloc_finish p (n - 1) u)"
    unfolding kalloc_small [OF unl n(3,1,2)] Let_def by (simp only: fl i t u option.case rbind_Inr split_conv)
  moreover note cu
  moreover have "cover s = cover u + span p (16 * n)"
  proof -
    have e: "PAGE_SIZE = 16 * n + 16 * (256 - n)" using n(1,2) by simp
    have "span p PAGE_SIZE = span p (16 * n) + span (p + n * 16) (16 * (256 - n))"
      unfolding e span_split mult.commute [of n 16] by (rule refl)
    then have "cover ?s = cover u + span p (16 * n)" unfolding ct(1) cu(1) by (simp only: add.assoc add.commute add.left_commute)
    then show ?thesis by (simp only: cover_fields)
  qed
  moreover note kalloc_finish_ok [OF cu(2), of p "n - 1"]
  ultimately show ?thesis using ct(5,6)
    by (intro exI [of _ p] exI [of _ "kalloc_finish p (n - 1) u"]) (simp add: kalloc_finish_def)
qed

lemma kalloc_props:
  assumes "kmem_ok s" and "nodes s \<noteq> []" and "sz \<le> 4072"
  shows "\<exists>node s' n. kalloc sz s = Inr (node + 8, s') \<and> kmem_ok s' \<and> hdr s' = (hdr s)(node := n - 1) \<and> 0 < n \<and> n < 256
    \<and> sz + 8 \<le> 16 * n \<and> cover s = cover s' + span node (16 * n)"
proof -
  obtain n where n: "block_units sz = int n" "0 < n" "n < 256" "sz + 8 \<le> 16 * n"
    using block_units_bounds [OF assms(3)] by blast
  then show ?thesis
    using kalloc_from_free [OF assms(1) n(2,3,1)] kalloc_from_page [OF assms(1) n(2,3,1) _ assms(2)]
    by (cases "find (\<lambda>i. free s ! i \<noteq> []) [n - 1..<256]") blast+
qed

lemma kfree_props:
  assumes "kmem_ok s" and "hdr s node = n - 1" and "0 < n" and "n \<le> 256"
  shows "\<exists>s'. kfree (node + 8) s = Inr s' \<and> kmem_ok s' \<and> hdr s' = hdr s \<and> cover s' = cover s + span node (16 * n)"
proof -
  have "n - 1 < 256" "n - 1 + 1 = n" using assms(3,4) by simp_all
  moreover have "length (free s) = 256" using assms(1) by (simp add: kmem_ok_def)
  ultimately obtain u where u: "push_free (int (n - 1)) node s = Inr u" "cover u = cover s + span node (16 * n)" "length (free u) = 256"
    "kernel_mem_lock u = kernel_mem_lock s" "hdr u = hdr s" using cover_push [of "n - 1" s node] by metis
  have "kfree (node + 8) s = Inr u" using u(1) assms(2) by (simp add: kfree_def)
  then show ?thesis using u assms(1) by (auto simp: kmem_ok_def)
qed

section \<open>Clients of the block allocator\<close>

text \<open>Runs of clients that free only what they hold. A live block is its address and its requested size.\<close>

inductive heap_run :: "kmem \<Rightarrow> kmem \<Rightarrow> (nat \<times> nat) list \<Rightarrow> bool" for s0 where
  start: "heap_run s0 s0 []"
| alloc: "heap_run s0 s live \<Longrightarrow> sz \<le> 4072 \<Longrightarrow> kalloc sz s = Inr (a, s') \<Longrightarrow> heap_run s0 s' ((a, sz) # live)"
| free: "heap_run s0 s (l1 @ (a, sz) # l2) \<Longrightarrow> kfree a s = Inr s' \<Longrightarrow> heap_run s0 s' (l1 @ l2)"

text \<open>The bytes of the block at \<open>a\<close>, header included, as the header gives them.\<close>

definition block_bytes :: "kmem \<Rightarrow> nat \<Rightarrow> nat multiset" where
  "block_bytes s a = span (a - 8) (16 * (hdr s (a - 8) + 1))"

definition block_fits :: "kmem \<Rightarrow> nat \<times> nat \<Rightarrow> bool" where
  "block_fits s b \<longleftrightarrow> 8 \<le> fst b \<and> hdr s (fst b - 8) < 255 \<and> snd b + 8 \<le> 16 * (hdr s (fst b - 8) + 1)"

definition heap_inv :: "kmem \<Rightarrow> kmem \<Rightarrow> (nat \<times> nat) list \<Rightarrow> bool" where
  "heap_inv s0 s live \<longleftrightarrow> kmem_ok s \<and> (\<forall>b\<in>set live. block_fits s b)
     \<and> cover s0 = cover s + (\<Sum>b\<in>#mset live. block_bytes s (fst b))"

lemma kalloc_needs_page:
  assumes "kalloc sz s = Inr (a, s')" and "sz \<le> 4072" and "kmem_ok s"
  shows "\<exists>node n. a = node + 8 \<and> kmem_ok s' \<and> hdr s' = (hdr s)(node := n - 1) \<and> 0 < n \<and> n < 256 \<and> sz + 8 \<le> 16 * n
    \<and> cover s = cover s' + span node (16 * n)"
proof -
  obtain n where n: "block_units sz = int n" "0 < n" "n < 256" "sz + 8 \<le> 16 * n"
    using block_units_bounds [OF assms(2)] by blast
  have unl: "\<not> locked (kernel_mem_lock s)" using assms(3) by (simp add: kmem_ok_def)
  show ?thesis
  proof (cases "find (\<lambda>i. free s ! i \<noteq> []) [n - 1..<256]")
    case None
    have "nodes s \<noteq> []"
      using assms(1) kalloc_small [OF unl n(1,2,3)] None by (auto simp: Let_def kalloc_page_def)
    then show ?thesis using kalloc_from_page [OF assms(3) n(2,3,1) None] assms(1) n by (metis Inr_inject Pair_inject)
  next
    case (Some i)
    then show ?thesis using kalloc_from_free [OF assms(3) n(2,3,1) Some] assms(1) n by (metis Inr_inject Pair_inject)
  qed
qed

lemma span_start: "0 < n \<Longrightarrow> a \<in># span a n" by (simp add: span_def)

lemma heap_inv_fresh:
  assumes "heap_inv s0 s live" and "\<forall>x. multiset.count (cover s0) x \<le> 1" and "x \<in># cover s" and "b \<in> set live"
  shows "fst b - 8 \<noteq> x"
proof
  assume e: "fst b - 8 = x"
  have "x \<in># block_bytes s (fst b)" unfolding block_bytes_def e by (rule span_start) simp
  then have "x \<in># (\<Sum>b\<in>#mset live. block_bytes s (fst b))" using assms(4) by auto
  then have "0 < multiset.count (\<Sum>b\<in>#mset live. block_bytes s (fst b)) x" "0 < multiset.count (cover s) x"
    using assms(3) unfolding count_greater_zero_iff by auto
  moreover have "multiset.count (cover s + (\<Sum>b\<in>#mset live. block_bytes s (fst b))) x \<le> 1"
    using assms(1,2) unfolding heap_inv_def by metis
  ultimately show False by (simp only: count_union)
qed

lemma heap_inv_frame:
  assumes "\<forall>b\<in>set live. hdr s' (fst b - 8) = hdr s (fst b - 8)"
  shows "(\<Sum>b\<in>#mset live. block_bytes s' (fst b)) = (\<Sum>b\<in>#mset live. block_bytes s (fst b))"
    "(\<forall>b\<in>set live. block_fits s' b) = (\<forall>b\<in>set live. block_fits s b)"
  using assms by (auto simp: block_bytes_def block_fits_def intro!: arg_cong [where f = sum_mset] image_mset_cong dest: bspec)

lemma heap_inv_alloc:
  assumes inv: "heap_inv s0 s live" and d: "\<forall>x. multiset.count (cover s0) x \<le> 1" and k: "kalloc sz s = Inr (a, s')" "sz \<le> 4072"
  shows "heap_inv s0 s' ((a, sz) # live)"
proof -
  obtain node n where a: "a = node + 8" and ok: "kmem_ok s'" and h: "hdr s' = (hdr s)(node := n - 1)"
    and n: "0 < n" "n < 256" "sz + 8 \<le> 16 * n" and c: "cover s = cover s' + span node (16 * n)"
    using kalloc_needs_page [OF k] inv by (auto simp: heap_inv_def)
  have "node \<in># cover s" unfolding c using span_start [of "16 * n" node] n by simp
  then have "\<forall>b\<in>set live. hdr s' (fst b - 8) = hdr s (fst b - 8)" using heap_inv_fresh [OF inv d] h by auto
  note fr = heap_inv_frame [OF this]
  have "block_fits s' (a, sz)" "block_bytes s' a = span node (16 * n)" using n by (auto simp: block_fits_def block_bytes_def a h)
  then show ?thesis using inv fr c ok by (auto simp: heap_inv_def add.assoc)
qed

lemma heap_inv_free:
  assumes inv: "heap_inv s0 s (l1 @ (a, sz) # l2)"
  shows "\<exists>s'. kfree a s = Inr s' \<and> heap_inv s0 s' (l1 @ l2)"
proof -
  have b: "8 \<le> a" "hdr s (a - 8) < 255" and ok: "kmem_ok s" using inv by (auto simp: heap_inv_def block_fits_def)
  obtain s' where s': "kfree (a - 8 + 8) s = Inr s'" "kmem_ok s'" "hdr s' = hdr s"
    "cover s' = cover s + span (a - 8) (16 * (hdr s (a - 8) + 1))"
    using kfree_props [OF ok, of "a - 8" "hdr s (a - 8) + 1"] b by auto
  have "block_fits s' = block_fits s" "block_bytes s' = block_bytes s"
    using s'(3) by (auto simp: fun_eq_iff block_fits_def block_bytes_def)
  then have "heap_inv s0 s' (l1 @ l2)" using inv s'(2,4) by (auto simp: heap_inv_def block_bytes_def ac_simps)
  then show ?thesis using s'(1) b by auto
qed

lemma heap_run_inv:
  assumes "heap_run s0 s live" and "kmem_ok s0" and "\<forall>x. multiset.count (cover s0) x \<le> 1"
  shows "heap_inv s0 s live"
  using assms
proof (induction rule: heap_run.induct)
  case start
  then show ?case by (simp add: heap_inv_def)
next
  case (alloc s live sz a s')
  then show ?case using heap_inv_alloc by blast
next
  case (free s l1 a sz l2 s')
  then show ?case using heap_inv_free by fastforce
qed

lemma set_span: "set_mset (span a n) = {a..<a + n}" by (auto simp: span_def)

lemma heap_inv_disjoint:
  assumes inv: "heap_inv s0 s (l1 @ (a, m) # l2 @ (b, n) # l3)" and d: "\<forall>x. multiset.count (cover s0) x \<le> 1"
  shows "{a..<a + m} \<inter> {b..<b + n} = {}"
proof (rule ccontr)
  have sub: "{a..<a + m} \<subseteq> set_mset (block_bytes s a)" "{b..<b + n} \<subseteq> set_mset (block_bytes s b)"
    using inv by (auto simp: heap_inv_def block_fits_def block_bytes_def set_span)
  assume "\<not> ?thesis"
  then obtain x where "x \<in># block_bytes s a" "x \<in># block_bytes s b" using sub by blast
  then have "0 < multiset.count (block_bytes s a) x" "0 < multiset.count (block_bytes s b) x"
    unfolding count_greater_zero_iff .
  moreover have "multiset.count (cover s0) x \<le> 1" using d ..
  ultimately show False using inv by (simp add: heap_inv_def del: count_greater_zero_iff)
qed

lemma heap_inv_within:
  assumes "heap_inv s0 s (l1 @ (a, m) # l2)"
  shows "{a..<a + m} \<subseteq> set_mset (cover s0)"
proof -
  have "{a..<a + m} \<subseteq> set_mset (block_bytes s a)"
    using assms by (auto simp: heap_inv_def block_fits_def block_bytes_def set_span)
  then show ?thesis using assms by (auto simp: heap_inv_def)
qed

text \<open>
  C21: clients that request at most 4072 bytes at a time and free only blocks they hold, from a heap whose pages and free blocks do not overlap: the bytes of two live
  blocks never overlap and lie in the memory the allocator started with, every live block can be freed, and a request of at
  most 4072 bytes succeeds while a free page is left. (Larger requests break the allocator, see \<open>kalloc_large_blocks\<close> below.)
\<close>

theorem kalloc_blocks_disjoint:
  assumes "heap_run s0 s live" and "kmem_ok s0" and "\<forall>x. multiset.count (cover s0) x \<le> 1"
  shows "(\<forall>l1 a m l2 b n l3. live = l1 @ (a, m) # l2 @ (b, n) # l3 \<longrightarrow> {a..<a + m} \<inter> {b..<b + n} = {})
    \<and> (\<forall>(a, m)\<in>set live. {a..<a + m} \<subseteq> set_mset (cover s0) \<and> (\<exists>s'. kfree a s = Inr s'))
    \<and> (\<forall>sz. sz \<le> 4072 \<longrightarrow> nodes s \<noteq> [] \<longrightarrow> (\<exists>a s'. kalloc sz s = Inr (a, s')))"
proof (intro conjI)
  note inv = heap_run_inv [OF assms]
  show "\<forall>l1 a m l2 b n l3. live = l1 @ (a, m) # l2 @ (b, n) # l3 \<longrightarrow> {a..<a + m} \<inter> {b..<b + n} = {}"
    using heap_inv_disjoint [OF _ assms(3)] inv by blast
  show "\<forall>(a, m)\<in>set live. {a..<a + m} \<subseteq> set_mset (cover s0) \<and> (\<exists>s'. kfree a s = Inr s')"
  proof clarify
    fix a m
    assume "(a, m) \<in> set live"
    then obtain l1 l2 where "live = l1 @ (a, m) # l2" by (auto simp: in_set_conv_decomp)
    then show "{a..<a + m} \<subseteq> set_mset (cover s0) \<and> (\<exists>s'. kfree a s = Inr s')"
      using heap_inv_within heap_inv_free inv by blast
  qed
  have "kmem_ok s" using inv by (simp add: heap_inv_def)
  then show "\<forall>sz. sz \<le> 4072 \<longrightarrow> nodes s \<noteq> [] \<longrightarrow> (\<exists>a s'. kalloc sz s = Inr (a, s'))" using kalloc_props by blast
qed

definition demo_kmem :: kmem where
  "demo_kmem = \<lparr>kalloc_page_cnt = \<lparr>RefCount.count = 0\<rparr>, left_pages = \<lparr>RefCount.count = 2\<rparr>, zero_page_ptr = 0, kernel_mem_lock = \<lparr>locked = False\<rparr>,
     nodes = [4096, 8192], pages_ref = (\<lambda>_. \<lparr>ref = \<lparr>RefCount.count = 0\<rparr>, ref_lock = \<lparr>locked = False\<rparr>\<rparr>), free = replicate 256 [], hdr = (\<lambda>_. 0)\<rparr>"

lemma cover_fresh:
  assumes "\<forall>i<length (free s). free s ! i = []"
  shows "cover s = (\<Sum>p\<in>#mset (nodes s). span p PAGE_SIZE)"
proof -
  have "(\<Sum>i<length (free s). \<Sum>a\<in>#mset (free s ! i). span a (16 * (i + 1))) = {#}"
    by (rule sum.neutral) (use assms in simp)
  then show ?thesis by (simp add: cover_def)
qed

lemma distinct_count_le: "distinct l \<Longrightarrow> \<forall>x. multiset.count (mset l) x \<le> 1"
  by (simp add: distinct_count_atmost_1)

lemma demo_kmem_ok: "kmem_ok demo_kmem" "\<forall>x. multiset.count (cover demo_kmem) x \<le> 1"
proof -
  let ?l = "[4096..<4096 + PAGE_SIZE] @ [8192..<8192 + PAGE_SIZE]"
  show "kmem_ok demo_kmem" by (simp add: demo_kmem_def kmem_ok_def)
  have "cover demo_kmem = mset ?l" unfolding mset_append
    by (subst cover_fresh) (simp_all add: demo_kmem_def span_def del: upt_rec_numeral)
  moreover have "distinct ?l"
    unfolding distinct_append set_upt by (intro conjI distinct_upt) auto
  ultimately show "\<forall>x. multiset.count (cover demo_kmem) x \<le> 1"
    using distinct_count_le by metis
qed

lemma demo_kmem_first: "\<exists>s. kalloc 100 demo_kmem = Inr (4104, s) \<and> nodes s = [8192] \<and> kmem_ok s"
proof -
  have u: "block_units 100 = int 7" by (simp add: block_units_small)
  have f: "find (\<lambda>i. free demo_kmem ! i \<noteq> []) [7 - 1..<256] = None"
    unfolding find_None_iff set_upt by (auto simp: demo_kmem_def)
  show ?thesis using kalloc_from_page [OF demo_kmem_ok(1) _ _ u f] by (auto simp: demo_kmem_def)
qed

theorem kalloc_blocks_disjoint_witness:
  "\<exists>s1 b s2. kalloc 100 demo_kmem = Inr (4104, s1) \<and> kalloc 200 s1 = Inr (b, s2) \<and> {b..<b + 200} \<inter> {4104..<4104 + 100} = {}
     \<and> (\<exists>s'. kfree 4104 s2 = Inr s')"
proof -
  obtain s1 where s1: "kalloc 100 demo_kmem = Inr (4104, s1)" "nodes s1 = [8192]" "kmem_ok s1" using demo_kmem_first by blast
  obtain b s2 where s2: "kalloc 200 s1 = Inr (b, s2)" using kalloc_props [of s1 200] s1 by auto
  have "heap_run demo_kmem s2 [(b, 200), (4104, 100)]"
    using heap_run.alloc [OF heap_run.alloc [OF heap_run.start _ s1(1)] _ s2] by simp
  note r = kalloc_blocks_disjoint [OF this demo_kmem_ok]
  have "{b..<b + 200} \<inter> {4104..<4104 + 100} = {}"
    by (rule r [THEN conjunct1, rule_format, of "[]" b 200 "[]" 4104 100 "[]"]) simp
  moreover have "\<exists>s'. kfree 4104 s2 = Inr s'"
    using r [THEN conjunct2, THEN conjunct1, THEN bspec, of "(4104, 100)"] by (simp only: split_conv list.set insert_iff simp_thms)
  ultimately show ?thesis using s1 s2 by blast
qed

lemma block_units_large:
  assumes "sz + 24 \<le> 2 ^ 35"
  shows "block_units sz = int ((sz + 8 + 15) div 16)"
proof -
  have "sz + 8 \<le> 2 ^ 35" using assms by linarith
  then have "sz + 8 < 2 ^ 64" by (rule le_less_trans) simp
  then have "(sz + 8) mod 2 ^ 64 = sz + 8" by (rule mod_less)
  moreover have "signed_take_bit 31 (int ((sz + 8 + 15) div 16)) = int ((sz + 8 + 15) div 16)"
  proof (rule signed_take_bit_int_eq_self)
    have "(2::nat) ^ 35 = 2 ^ 31 * 16" by simp
    then have "sz + 8 + 15 < 2 ^ 31 * 16" using assms by linarith
    then have "(sz + 8 + 15) div 16 < 2 ^ 31" by (rule less_mult_imp_div_less)
    then have "int ((sz + 8 + 15) div 16) < int (2 ^ 31)" by (simp only: of_nat_less_iff)
    then show "int ((sz + 8 + 15) div 16) < 2 ^ 31" by (simp only: of_nat_power of_nat_numeral)
  qed (rule order_trans [of _ 0], simp_all)
  ultimately show ?thesis unfolding block_units_def Let_def units_round_up by presburger
qed

lemma block_units_wraps:
  assumes "sz \<le> 4088"
  shows "block_units (sz + 2 ^ 36) = block_units sz"
proof -
  have e: "sz + 2 ^ 36 + 8 = (sz + 8) + 2 ^ 32 * 16" by simp
  have "(sz + 8) + 2 ^ 32 * 16 \<le> 4096 + 2 ^ 32 * 16" using assms by linarith
  then have lt1: "(sz + 8) + 2 ^ 32 * 16 < 2 ^ 64" by (rule le_less_trans) simp
  have "sz + 8 \<le> 4096" using assms by linarith
  then have lt2: "sz + 8 < 2 ^ 64" by (rule le_less_trans) simp
  have d: "((sz + 8) + 2 ^ 32 * 16) mod 16 = (sz + 8) mod 16" by (rule mod_mult_self1)
  have q: "((sz + 8) + 2 ^ 32 * 16) div 16 = 2 ^ 32 + (sz + 8) div 16" by (rule div_mult_self1) simp
  have w: "signed_take_bit 31 (int (2 ^ 32 + x)) = signed_take_bit 31 (int x)" for x :: nat
  proof -
    have "take_bit 32 (int (2 ^ 32 + x)) = take_bit 32 (int x)" by (simp add: take_bit_eq_mod)
    then show ?thesis using signed_take_bit_eq_iff_take_bit_eq [of 31 "int (2 ^ 32 + x)" "int x"] by simp
  qed
  have c: "(if P then 2 ^ 32 + a else 2 ^ 32 + a + 1) = 2 ^ 32 + (if P then a else a + 1)" for P and a :: nat by simp
  show ?thesis unfolding block_units_def Let_def e mod_less [OF lt1] mod_less [OF lt2] d q c w ..
qed

text \<open>
  C23: the size limits of \<^verbatim>\<open>kalloc\<close>. A block for 4073 to 4088 bytes is handed out as a whole page with header 256, and freeing it indexes the array of 256 queues out of
  bounds; a request from 4089 bytes to \<open>2^35 - 24\<close> indexes the array out of bounds already in the allocation. Neither index is checked: \<open>Fault\<close> is the access outside
  the array, with which the code goes on. Beyond \<open>2^36\<close> the number of units is cut to 32 bits: a request of \<open>n + 2^36\<close> bytes gets the block of a request of \<open>n\<close>.
\<close>

theorem kalloc_large_blocks:
  assumes "kmem_ok s" and "4072 < sz" and "sz + 24 \<le> 2 ^ 35"
  shows "(sz \<le> 4088 \<and> nodes s \<noteq> [] \<longrightarrow> (\<exists>s'. kalloc sz s = Inr (hd (nodes s) + 8, s') \<and> kfree (hd (nodes s) + 8) s' = Inl Fault))
    \<and> (4088 < sz \<longrightarrow> kalloc sz s = Inl Fault)
    \<and> (\<forall>n\<le>4088. kalloc (n + 2 ^ 36) s = kalloc n s)"
proof (intro conjI impI allI)
  let ?n = "(sz + 8 + 15) div 16"
  let ?s = "s\<lparr>kernel_mem_lock := (kernel_mem_lock s)\<lparr>locked := True\<rparr>\<rparr>"
  have u: "block_units sz = int ?n" using block_units_large [OF assms(3)] .
  have unl: "\<not> locked (kernel_mem_lock s)" using assms(1) by (simp add: kmem_ok_def)
  show "\<exists>s'. kalloc sz s = Inr (hd (nodes s) + 8, s') \<and> kfree (hd (nodes s) + 8) s' = Inl Fault" if a: "sz \<le> 4088 \<and> nodes s \<noteq> []"
  proof -
    have n: "?n = 256" using assms(2) a by linarith
    obtain t where t: "kalloc_page ?s = Inr (hd (nodes s), t)" using a by (cases "nodes s") (auto simp: kalloc_page_def Let_def)
    have "kalloc sz s = Inr (hd (nodes s) + 8, kalloc_finish (hd (nodes s)) 256 t)"
      unfolding kalloc_def Let_def u n nat_int acquire_spinlock_free [OF unl] rbind_Inr t kalloc_finish_def by simp
    moreover have "kfree (hd (nodes s) + 8) (kalloc_finish (hd (nodes s)) 256 t) = Inl Fault"
      by (simp add: kfree_def push_free_def kalloc_finish_def)
    ultimately show ?thesis by blast
  qed
  show "kalloc sz s = Inl Fault" if a: "4088 < sz"
  proof -
    have n: "256 < ?n" using a by linarith
    then have "[?n - 1..<256] = []" "?n \<noteq> 256" "\<not> int ?n \<le> 0" by simp_all
    moreover have "push_free (256 - int ?n - 1) x t = Inl Fault" for x t using n by (simp add: push_free_def)
    ultimately show ?thesis
      unfolding kalloc_def Let_def u nat_int acquire_spinlock_free [OF unl] rbind_Inr
      by (auto simp: rbind_def kalloc_page_def Let_def split: list.split)
  qed
  show "kalloc (n + 2 ^ 36) s = kalloc n s" if "n \<le> 4088" for n
    unfolding kalloc_def block_units_wraps [OF that] ..
qed

theorem kalloc_large_blocks_witness:
  "(\<exists>s'. kalloc 4080 demo_kmem = Inr (4104, s') \<and> kfree 4104 s' = Inl Fault) \<and> kalloc 4096 demo_kmem = Inl Fault
     \<and> kalloc (8 + 2 ^ 36) demo_kmem = kalloc 8 demo_kmem"
proof (intro conjI)
  show "\<exists>s'. kalloc 4080 demo_kmem = Inr (4104, s') \<and> kfree 4104 s' = Inl Fault"
    using kalloc_large_blocks [OF demo_kmem_ok(1), of 4080] by (simp add: demo_kmem_def)
  show "kalloc 4096 demo_kmem = Inl Fault" using kalloc_large_blocks [OF demo_kmem_ok(1), of 4096] by simp
  have "(4072::nat) < 4096" "(4096::nat) + 24 \<le> 2 ^ 35" by simp_all
  from kalloc_large_blocks [OF demo_kmem_ok(1) this, THEN conjunct2, THEN conjunct2, rule_format, of 8]
  show "kalloc (8 + 2 ^ 36) demo_kmem = kalloc 8 demo_kmem" by simp
qed

end
