(* ===== verification/Page_Table.thy ===== *)
theory Page_Table
  imports Kernel_Mem
begin

text \<open>
  Page tables (\<^verbatim>\<open>kernel/pt.c\<close>, \<^verbatim>\<open>aarch64/mmu.h\<close>).

  Physical memory is a function from addresses to bytes; page table entries are the 64-bit little-endian words in it. Kernel addresses
  are physical addresses here, so \<^verbatim>\<open>P2K\<close> and \<^verbatim>\<open>K2P\<close> are the identity. \<open>vmem\<close> pairs the memory with the page allocator. The queue link
  the allocator keeps in a free page is not written to the memory: nothing here reads a page before it is initialised.
\<close>

unbundle bit_operations_syntax

record vmem =
  km :: kmem
  mem :: "nat \<Rightarrow> byte"

record pgdir =
  pt :: "nat option"
  pgdir_lock :: SpinLock

section \<open>Words in memory and the fields of addresses and entries\<close>

definition rd64 :: "(nat \<Rightarrow> byte) \<Rightarrow> nat \<Rightarrow> 64 word" where
  "rd64 m a = word_of_nat (le_dec (map m [a, a + 1, a + 2, a + 3, a + 4, a + 5, a + 6, a + 7]))"

definition wr64 :: "(nat \<Rightarrow> byte) \<Rightarrow> nat \<Rightarrow> 64 word \<Rightarrow> nat \<Rightarrow> byte" where
  "wr64 m a v = (\<lambda>x. if a \<le> x \<and> x < a + 8 then le_enc 8 (unat v) ! (x - a) else m x)"

definition memset_page :: "(nat \<Rightarrow> byte) \<Rightarrow> nat \<Rightarrow> nat \<Rightarrow> byte" where
  "memset_page m p = (\<lambda>x. if p \<le> x \<and> x < p + PAGE_SIZE then 0 else m x)"

abbreviation (input) PTE_VALID :: "64 word" where "PTE_VALID \<equiv> 1"
abbreviation (input) PTE_TABLE :: "64 word" where "PTE_TABLE \<equiv> 3"
abbreviation (input) PTE_RO :: "64 word" where "PTE_RO \<equiv> 128"
abbreviation (input) PTE_USER_DATA :: "64 word" where "PTE_USER_DATA \<equiv> 0x647"
abbreviation (input) N_PTE_PER_TABLE :: nat where "N_PTE_PER_TABLE \<equiv> 512"

definition PTE_ADDRESS :: "64 word \<Rightarrow> nat" where
  "PTE_ADDRESS pte = unat (pte AND NOT 0xFFFF000000000FFF)"

definition PTE_FLAGS :: "64 word \<Rightarrow> 64 word" where
  "PTE_FLAGS pte = pte AND 0xFFFF000000000FFF"

definition PAGE_BASE :: "nat \<Rightarrow> nat" where
  "PAGE_BASE a = a div PAGE_SIZE * PAGE_SIZE"

definition VA_PART0 :: "64 word \<Rightarrow> nat" where
  "VA_PART0 va = unat (drop_bit 39 (va AND 0xFF8000000000))"

definition VA_PART1 :: "64 word \<Rightarrow> nat" where
  "VA_PART1 va = unat (drop_bit 30 (va AND 0x7FC0000000))"

definition VA_PART2 :: "64 word \<Rightarrow> nat" where
  "VA_PART2 va = unat (drop_bit 21 (va AND 0x3FE00000))"

definition VA_PART3 :: "64 word \<Rightarrow> nat" where
  "VA_PART3 va = unat (drop_bit 12 (va AND 0x1FF000))"

definition pte_valid :: "64 word \<Rightarrow> bool" where
  "pte_valid e \<longleftrightarrow> e AND PTE_VALID \<noteq> 0"

section \<open>Walking and building the tables\<close>

text \<open>The entry at \<open>a\<close>: the table it points to, built first when it is missing and \<open>alloc\<close> is set.\<close>

definition next_table :: "nat \<Rightarrow> bool \<Rightarrow> vmem \<Rightarrow> (nat option \<times> vmem) res" where
  "next_table a alloc s =
     (let e = rd64 (mem s) a
      in if pte_valid e then Inr (Some (PTE_ADDRESS e), s)
         else if alloc
           then rbind (kalloc_page (km s)) (\<lambda>(p, k).
             let s = s\<lparr>km := k, mem := memset_page (mem s) p\<rparr>
             in Inr (Some p, s\<lparr>mem := wr64 (mem s) a (word_of_nat p OR PTE_TABLE)\<rparr>))
         else Inr (None, s))"

definition get_pte :: "pgdir \<Rightarrow> 64 word \<Rightarrow> bool \<Rightarrow> vmem \<Rightarrow> (nat option \<times> pgdir \<times> vmem) res" where
  "get_pte pgdir va alloc s =
     rbind (case pt pgdir of
              None \<Rightarrow> if alloc then rbind (kalloc_page (km s)) (\<lambda>(p, k).
                         Inr (Some p, pgdir\<lparr>pt := Some p\<rparr>, s\<lparr>km := k, mem := memset_page (mem s) p\<rparr>))
                       else Inr (None, pgdir, s)
            | Some p \<Rightarrow> Inr (Some p, pgdir, s)) (\<lambda>(pt0, pgdir, s).
     case pt0 of None \<Rightarrow> Inr (None, pgdir, s) | Some pt0 \<Rightarrow>
     rbind (next_table (pt0 + 8 * VA_PART0 va) alloc s) (\<lambda>(pt1, s).
     case pt1 of None \<Rightarrow> Inr (None, pgdir, s) | Some pt1 \<Rightarrow>
     rbind (next_table (pt1 + 8 * VA_PART1 va) alloc s) (\<lambda>(pt2, s).
     case pt2 of None \<Rightarrow> Inr (None, pgdir, s) | Some pt2 \<Rightarrow>
     rbind (next_table (pt2 + 8 * VA_PART2 va) alloc s) (\<lambda>(pt3, s).
     case pt3 of None \<Rightarrow> Inr (None, pgdir, s) | Some pt3 \<Rightarrow>
     Inr (Some (pt3 + 8 * VA_PART3 va), pgdir, s)))))"

text \<open>\<^verbatim>\<open>init_sections\<close>, which \<^verbatim>\<open>init_pgdir\<close> ends with, is in \<open>Paging\<close>.\<close>

definition init_pgdir :: "pgdir \<Rightarrow> vmem \<Rightarrow> (pgdir \<times> vmem) res" where
  "init_pgdir pgdir s =
     (let pgdir = pgdir\<lparr>pgdir_lock := init_spinlock (pgdir_lock pgdir)\<rparr>
      in rbind (kalloc_page (km s)) (\<lambda>(p, k).
         Inr (pgdir\<lparr>pt := Some p\<rparr>, s\<lparr>km := k, mem := memset_page (mem s) p\<rparr>)))"

definition free_page :: "nat \<Rightarrow> vmem \<Rightarrow> vmem res" where
  "free_page p s = rbind (kfree_page p (km s)) (\<lambda>k. Inr (s\<lparr>km := k\<rparr>))"

text \<open>The three nested loops of \<^verbatim>\<open>free_pgdir\<close>, by the number of table levels below the page \<open>p\<close>: the tables an entry points to are
  freed before the table that holds the entry.\<close>

fun free_tables :: "nat \<Rightarrow> nat \<Rightarrow> vmem \<Rightarrow> vmem res"
  and free_entries :: "nat \<Rightarrow> nat \<Rightarrow> nat list \<Rightarrow> vmem \<Rightarrow> vmem res" where
  "free_tables 0 p s = free_page p s"
| "free_tables (Suc n) p s = rbind (free_entries n p [0..<N_PTE_PER_TABLE] s) (free_page p)"
| "free_entries n p [] s = Inr s"
| "free_entries n p (i # is) s =
     (let e = rd64 (mem s) (p + 8 * i)
      in rbind (if pte_valid e then free_tables n (PTE_ADDRESS e) s else Inr s) (free_entries n p is))"

definition free_pgdir_tables :: "pgdir \<Rightarrow> vmem \<Rightarrow> (pgdir \<times> vmem) res" where
  "free_pgdir_tables pgdir s =
     (case pt pgdir of
        None \<Rightarrow> Inr (pgdir, s)
      | Some pt0 \<Rightarrow> rbind (free_tables 3 pt0 s) (\<lambda>s. Inr (pgdir\<lparr>pt := None\<rparr>, s)))"

definition vmmap :: "pgdir \<Rightarrow> 64 word \<Rightarrow> nat \<Rightarrow> 64 word \<Rightarrow> vmem \<Rightarrow> (pgdir \<times> vmem) res" where
  "vmmap pd va ka flags s =
     rbind (get_pte pd va True s) (\<lambda>(ptentry_ptr, pd, s).
     case ptentry_ptr of None \<Rightarrow> Inl Fault | Some a \<Rightarrow>
     let ka0 = PAGE_BASE ka;
         s = s\<lparr>mem := wr64 (mem s) a (word_of_nat ka0 OR flags)\<rparr>;
         page_num = ka0 div PAGE_SIZE
     in rbind (acquire_spinlock (ref_lock (pages_ref (km s) page_num))) (\<lambda>l.
        Inr (pd, s\<lparr>km := set_page page_num (\<lambda>g. g\<lparr>ref := increment_rc (ref g), ref_lock := release_spinlock l\<rparr>) (km s)\<rparr>)))"

definition store_bytes :: "nat \<Rightarrow> byte list \<Rightarrow> (nat \<Rightarrow> byte) \<Rightarrow> nat \<Rightarrow> byte" where
  "store_bytes a bs m = (\<lambda>x. if a \<le> x \<and> x < a + length bs then bs ! (x - a) else m x)"

text \<open>The physical addresses that the kernel's own tables map (\<open>Kernel_PT\<close> derives this from the tables): the device window and the memory. An access of the
  kernel to any other address aborts.\<close>

definition kernel_mapped :: "nat \<Rightarrow> bool" where
  "kernel_mapped pa \<longleftrightarrow> 0x8000000 \<le> pa \<and> pa < 0xB000000 \<or> 0x40000000 \<le> pa \<and> pa < 0x80000000"

text \<open>\<^verbatim>\<open>copyout\<close> of the bytes \<open>bs\<close>; the address advances with wrap-around. The \<^verbatim>\<open>memmove\<close> aborts when the kernel does not map the page.\<close>

function copyout :: "pgdir \<Rightarrow> 64 word \<Rightarrow> byte list \<Rightarrow> vmem \<Rightarrow> (pgdir \<times> vmem) res" where
  "copyout pd va bs s =
     (if bs = [] then Inr (pd, s)
      else let off = unat va mod PAGE_SIZE; n = min (length bs) (PAGE_SIZE - off)
           in rbind (get_pte pd va True s) (\<lambda>(pte_p, pd, s).
              case pte_p of None \<Rightarrow> Inl Fault | Some a \<Rightarrow>
              let page = PTE_ADDRESS (rd64 (mem s) a)
              in if \<not> kernel_mapped page then Inl Fault
                 else copyout pd (va + word_of_nat n) (drop n bs) (s\<lparr>mem := store_bytes (page + off) (take n bs) (mem s)\<rparr>)))"
  by auto
termination
proof (relation "measure (\<lambda>(pd, va, bs, s). length bs)", goal_cases)
  case (2 pd va bs s off n x pa b pdb a q s')
  have "unat va mod PAGE_SIZE < PAGE_SIZE" by simp
  then have "0 < PAGE_SIZE - off" using 2(2) by simp
  then show ?case using 2(1,3) by simp
qed simp

section \<open>Reading back what was written\<close>

lemma map_8: "map m [a, a + 1, a + 2, a + 3, a + 4, a + 5, a + 6, a + 7] = map m [a..<a + 8]"
  by (simp add: upt_rec numeral_eq_Suc)

lemma rd64_wr64 [simp]: "rd64 (wr64 m a v) a = v"
proof -
  have "map (wr64 m a v) [a..<a + 8] = le_enc 8 (unat v)"
    by (rule nth_equalityI) (auto simp: wr64_def)
  moreover have "unat v < 256 ^ 8" using unsigned_less [of v] by simp
  ultimately show ?thesis by (simp only: rd64_def map_8 le_dec_enc) simp
qed

lemma rd64_cong:
  assumes "\<And>x. a \<le> x \<Longrightarrow> x < a + 8 \<Longrightarrow> m x = m' x"
  shows "rd64 m a = rd64 m' a"
proof -
  have "map m [a..<a + 8] = map m' [a..<a + 8]" using assms by auto
  then show ?thesis by (simp only: rd64_def map_8)
qed

lemma rd64_wr64_other: "a + 8 \<le> b \<or> b + 8 \<le> a \<Longrightarrow> rd64 (wr64 m a v) b = rd64 m b"
  by (rule rd64_cong) (auto simp: wr64_def)

lemma rd64_memset_in: "p \<le> a \<Longrightarrow> a + 8 \<le> p + PAGE_SIZE \<Longrightarrow> rd64 (memset_page m p) a = 0"
  by (simp add: rd64_def memset_page_def)

lemma rd64_memset_out: "a + 8 \<le> p \<or> p + PAGE_SIZE \<le> a \<Longrightarrow> rd64 (memset_page m p) a = rd64 m a"
  by (rule rd64_cong) (auto simp: memset_page_def)

definition page_ok :: "nat \<Rightarrow> bool" where
  "page_ok p \<longleftrightarrow> PAGE_SIZE dvd p \<and> p < 2 ^ 48"

lemma page_ok_apart:
  assumes "page_ok p" and "page_ok q" and "p \<noteq> q"
  shows "p + PAGE_SIZE \<le> q \<or> q + PAGE_SIZE \<le> p"
proof -
  obtain i j where "p = PAGE_SIZE * i" "q = PAGE_SIZE * j" using assms unfolding page_ok_def dvd_def by blast
  then show ?thesis using assms(3) by (cases "i < j") auto
qed

lemma slot_apart:
  assumes "page_ok p" and "page_ok q" and "i < 512" and "j < 512" and "p \<noteq> q \<or> i \<noteq> j"
  shows "p + 8 * i + 8 \<le> q + 8 * j \<or> q + 8 * j + 8 \<le> p + 8 * i"
  using page_ok_apart [OF assms(1,2)] assms(3-5) by (cases "p = q") auto

lemma address_mask: "(0xFFFF000000000FFF :: 64 word) = mask 12 OR push_bit 48 (mask 16)"
  by (simp add: mask_eq_exp_minus_1 push_bit_eq_mult)

lemma PTE_ADDRESS_table:
  assumes "page_ok p" and "f AND NOT (mask 12 OR push_bit 48 (mask 16)) = 0"
  shows "PTE_ADDRESS (word_of_nat p OR f) = p"
proof -
  have lo: "\<not> bit p n" if "n < 12" for n
  proof -
    obtain k where "p = 2 ^ 12 * k" using assms(1) by (auto simp: page_ok_def)
    then have "p = push_bit 12 k" by (simp add: push_bit_eq_mult)
    then show ?thesis using that by (simp add: bit_push_bit_iff)
  qed
  have hi: "\<not> bit p n" if "48 \<le> n" for n
    using assms(1) that by (metis bit_take_bit_iff linorder_not_le page_ok_def take_bit_nat_eq_self)
  have "(word_of_nat p OR f) AND NOT (mask 12 OR push_bit 48 (mask 16)) = (word_of_nat p AND NOT (mask 12 OR push_bit 48 (mask 16)) :: 64 word)"
    using assms(2) by (simp add: bit.conj_disj_distrib2)
  also have "\<dots> = word_of_nat p"
    by (rule bit_eqI) (use lo hi in \<open>auto simp: bit_simps\<close>)
  finally have "PTE_ADDRESS (word_of_nat p OR f) = unat (word_of_nat p :: 64 word)"
    by (simp only: PTE_ADDRESS_def address_mask)
  also have "\<dots> = p"
    using assms(1) by (simp add: unat_of_nat take_bit_nat_eq_self page_ok_def)
  finally show ?thesis .
qed

lemma pte_table:
  assumes "page_ok p"
  shows "pte_valid (word_of_nat p OR 3)" "PTE_ADDRESS (word_of_nat p OR 3) = p"
proof -
  have "bit ((word_of_nat p OR 3) AND 1 :: 64 word) 0" by (simp add: bit_simps)
  then show "pte_valid (word_of_nat p OR 3)" unfolding pte_valid_def by (metis bit_0_eq bot_apply bot_bool_def)
  show "PTE_ADDRESS (word_of_nat p OR 3) = p"
    by (rule PTE_ADDRESS_table [OF assms]) (simp flip: address_mask)
qed

section \<open>The tree of tables\<close>

text \<open>The table reached from \<open>p\<close> over the entries with the given indices.\<close>

fun walk :: "(nat \<Rightarrow> byte) \<Rightarrow> nat \<Rightarrow> nat list \<Rightarrow> nat option" where
  "walk m p [] = Some p"
| "walk m p (i # is) = (let e = rd64 m (p + 8 * i) in if pte_valid e then walk m (PTE_ADDRESS e) is else None)"

definition paths :: "nat list set" where
  "paths = {is. length is \<le> 3 \<and> set is \<subseteq> {..<512}}"

text \<open>The tables form a tree: every table is a page, no page is a table twice and no table is a free page.\<close>

definition tables_ok :: "(nat \<Rightarrow> byte) \<Rightarrow> nat \<Rightarrow> nat set \<Rightarrow> bool" where
  "tables_ok m p F \<longleftrightarrow> (\<forall>f\<in>F. page_ok f)
     \<and> (\<forall>is\<in>paths. \<forall>q. walk m p is = Some q \<longrightarrow> page_ok q \<and> q \<notin> F \<and> (\<forall>js\<in>paths. walk m p js = Some q \<longrightarrow> js = is))"

definition leaf :: "(nat \<Rightarrow> byte) \<Rightarrow> nat \<Rightarrow> nat list \<Rightarrow> nat \<Rightarrow> 64 word" where
  "leaf m p is l = (case walk m p is of None \<Rightarrow> 0 | Some q \<Rightarrow> rd64 m (q + 8 * l))"

lemma walk_snoc:
  "walk m p (is @ [i]) = (case walk m p is of None \<Rightarrow> None
     | Some q \<Rightarrow> let e = rd64 m (q + 8 * i) in if pte_valid e then Some (PTE_ADDRESS e) else None)"
  by (induction "is" arbitrary: p) (auto simp: Let_def)

lemma pathsD: "is @ [i] \<in> paths \<Longrightarrow> is \<in> paths \<and> i < 512" by (auto simp: paths_def)

lemma tables_okD:
  assumes "tables_ok m p F" and "is \<in> paths" and "walk m p is = Some q"
  shows "page_ok q" "q \<notin> F" "\<And>js. js \<in> paths \<Longrightarrow> walk m p js = Some q \<Longrightarrow> js = is"
  using assms by (auto simp: tables_ok_def)

lemma not_valid_0 [simp]: "\<not> pte_valid 0" by (simp add: pte_valid_def)

text \<open>Entering a fresh, cleared page \<open>f\<close> as the table at \<open>path @ [i]\<close>.\<close>

definition add_table :: "(nat \<Rightarrow> byte) \<Rightarrow> nat \<Rightarrow> nat \<Rightarrow> nat \<Rightarrow> byte" where
  "add_table m f a = wr64 (memset_page m f) a (word_of_nat f OR PTE_TABLE)"

definition can_add :: "(nat \<Rightarrow> byte) \<Rightarrow> nat \<Rightarrow> nat set \<Rightarrow> nat list \<Rightarrow> nat \<Rightarrow> nat \<Rightarrow> nat \<Rightarrow> bool" where
  "can_add m p F path i q f \<longleftrightarrow> tables_ok m p F \<and> path \<in> paths \<and> length path \<le> 2 \<and> i < 512 \<and> walk m p path = Some q
     \<and> \<not> pte_valid (rd64 m (q + 8 * i)) \<and> f \<in> F"

lemma can_addD:
  assumes "can_add m p F path i q f"
  shows "tables_ok m p F" "path \<in> paths" "length path \<le> 2" "i < 512" "walk m p path = Some q"
    "\<not> pte_valid (rd64 m (q + 8 * i))" "f \<in> F" "page_ok f" "page_ok q" "q \<noteq> f" "walk m p (path @ [i]) = None"
proof -
  note d = assms [unfolded can_add_def]
  then show "tables_ok m p F" "path \<in> paths" "length path \<le> 2" "i < 512" "walk m p path = Some q"
    "\<not> pte_valid (rd64 m (q + 8 * i))" "f \<in> F" by blast+
  then show "page_ok f" "page_ok q" "q \<noteq> f" using tables_okD [of m p F path q] by (auto simp: tables_ok_def [of m p F])
  show "walk m p (path @ [i]) = None" using d by (simp add: walk_snoc)
qed

lemma rd_new:
  assumes "can_add m p F path i q f" and "j < 512"
  shows "rd64 (add_table m f (q + 8 * i)) (f + 8 * j) = 0"
  using slot_apart [of q f i j] can_addD [OF assms(1)] assms(2) by (simp add: add_table_def rd64_wr64_other rd64_memset_in)

lemma rd_slot: "rd64 (add_table m f a) a = word_of_nat f OR PTE_TABLE" by (simp add: add_table_def)

lemma rd_old:
  assumes c: "can_add m p F path i q f" and "page_ok r" and "r \<noteq> f" and "j < 512" and "r \<noteq> q \<or> j \<noteq> i"
  shows "rd64 (add_table m f (q + 8 * i)) (r + 8 * j) = rd64 m (r + 8 * j)"
proof -
  have "r + 8 * j + 8 \<le> f \<or> f + PAGE_SIZE \<le> r + 8 * j" using page_ok_apart [of r f] can_addD [OF c] assms(2-4) by auto
  then show ?thesis using slot_apart [of q r i j] can_addD [OF c] assms(2-5)
    by (auto simp: add_table_def rd64_wr64_other rd64_memset_out)
qed

lemma walk_new:
  assumes c: "can_add m p F path i q f" and "js \<in> paths"
  shows "walk (add_table m f (q + 8 * i)) p js = (if js = path @ [i] then Some f else walk m p js)"
  using assms(2)
proof (induction js rule: rev_induct)
  case Nil
  then show ?case by simp
next
  case (snoc j js)
  let ?m = "add_table m f (q + 8 * i)"
  note js = pathsD [OF snoc.prems]
  show ?case
  proof (cases "js = path @ [i]")
    case True
    then show ?thesis using snoc.IH js rd_new [OF c, of j] can_addD(11) [OF c] walk_snoc [of _ p js j] by simp
  next
    case False
    then have eq: "walk ?m p js = walk m p js" using snoc.IH js by simp
    show ?thesis
    proof (cases "walk m p js")
      case None
      then show ?thesis using eq can_addD(5) [OF c] by (auto simp: walk_snoc)
    next
      case (Some r)
      note r = tables_okD [OF can_addD(1) [OF c] _ Some]
      show ?thesis
      proof (cases "r = q \<and> j = i")
        case True
        then have "js = path" using r(3) can_addD(2,5) [OF c] js by blast
        then show ?thesis using True eq Some rd_slot pte_table [OF can_addD(8) [OF c]] by (simp add: walk_snoc Let_def)
      next
        case False
        then have "js @ [j] \<noteq> path @ [i]" using Some can_addD(5) [OF c] by auto
        moreover have "rd64 ?m (r + 8 * j) = rd64 m (r + 8 * j)" using r js can_addD(7) [OF c] False by (intro rd_old [OF c]) auto
        ultimately show ?thesis using eq Some by (auto simp: walk_snoc)
      qed
    qed
  qed
qed

lemma ok_new:
  assumes c: "can_add m p F path i q f"
  shows "tables_ok (add_table m f (q + 8 * i)) p (F - {f})"
  unfolding tables_ok_def
proof (intro conjI ballI allI impI)
  show "page_ok g" if "g \<in> F - {f}" for g using can_addD(1) [OF c] that by (auto simp: tables_ok_def)
  note ok = can_addD(1) [OF c] and f = can_addD(7,8) [OF c] and wn = walk_new [OF c]
  fix "is" r
  assume a: "is \<in> paths" "walk (add_table m f (q + 8 * i)) p is = Some r"
  show "page_ok r" "r \<notin> F - {f}" using a tables_okD [OF ok] f by (auto simp: wn split: if_splits)
  show "js = is" if "js \<in> paths" "walk (add_table m f (q + 8 * i)) p js = Some r" for js
    using that a tables_okD [OF ok] f by (auto simp: wn split: if_splits)
qed

lemma leaf_new:
  assumes c: "can_add m p F path i q f" and "is \<in> paths" and "length is = 3" and "l < 512"
  shows "leaf (add_table m f (q + 8 * i)) p is l = leaf m p is l"
proof (cases "is = path @ [i]")
  case True
  then show ?thesis using assms rd_new [OF c] can_addD(11) [OF c] by (simp add: leaf_def walk_new [OF c])
next
  case False
  show ?thesis
  proof (cases "walk m p is")
    case None
    then show ?thesis using False assms by (simp add: leaf_def walk_new [OF c])
  next
    case (Some r)
    note r = tables_okD [OF can_addD(1) [OF c] assms(2) Some]
    have "r \<noteq> q" using r(3) can_addD(2,3,5) [OF c] assms(3) by auto
    then have "rd64 (add_table m f (q + 8 * i)) (r + 8 * l) = rd64 m (r + 8 * l)"
      using r can_addD(7) [OF c] assms by (intro rd_old [OF c]) auto
    then show ?thesis using False Some assms by (simp add: leaf_def walk_new [OF c])
  qed
qed

section \<open>Operations on the tree\<close>

definition vm_ok :: "nat \<Rightarrow> vmem \<Rightarrow> bool" where
  "vm_ok p s \<longleftrightarrow> tables_ok (mem s) p (set (nodes (km s))) \<and> distinct (nodes (km s))"

definition in_table :: "nat \<Rightarrow> vmem \<Rightarrow> nat \<Rightarrow> bool" where
  "in_table p s x \<longleftrightarrow> (\<exists>is\<in>paths. \<exists>q. walk (mem s) p is = Some q \<and> q \<le> x \<and> x < q + PAGE_SIZE)"

definition in_free :: "vmem \<Rightarrow> nat \<Rightarrow> bool" where
  "in_free s x \<longleftrightarrow> (\<exists>f\<in>set (nodes (km s)). f \<le> x \<and> x < f + PAGE_SIZE)"

text \<open>
  Building tables takes at most \<open>n\<close> free pages, keeps every table and every leaf entry, writes only inside tables and makes tables only of free pages.
\<close>

definition grows :: "nat \<Rightarrow> nat \<Rightarrow> vmem \<Rightarrow> vmem \<Rightarrow> bool" where
  "grows n p s s' \<longleftrightarrow> vm_ok p s'
     \<and> (\<forall>is\<in>paths. \<forall>q. walk (mem s) p is = Some q \<longrightarrow> walk (mem s') p is = Some q)
     \<and> (\<forall>is\<in>paths. \<forall>l<512. length is = 3 \<longrightarrow> leaf (mem s') p is l = leaf (mem s) p is l)
     \<and> length (nodes (km s)) \<le> length (nodes (km s')) + n \<and> set (nodes (km s')) \<subseteq> set (nodes (km s))
     \<and> (\<forall>x. \<not> in_table p s' x \<longrightarrow> mem s' x = mem s x)
     \<and> (\<forall>x. in_table p s' x \<longrightarrow> in_table p s x \<or> in_free s x)
     \<and> (\<forall>k. (\<forall>f\<in>set (nodes (km s)). f div PAGE_SIZE \<noteq> k) \<longrightarrow> pages_ref (km s') k = pages_ref (km s) k)"

lemma grows_refl: "vm_ok p s \<Longrightarrow> grows n p s s" by (simp add: grows_def)

lemma grows_trans:
  assumes "grows n p s t" and "grows k p t u"
  shows "grows (n + k) p s u"
proof -
  have "in_table p t x \<Longrightarrow> in_table p u x" for x using assms(2) unfolding grows_def in_table_def by blast
  then have "\<forall>x. \<not> in_table p u x \<longrightarrow> mem u x = mem s x" using assms unfolding grows_def by metis
  moreover have "\<forall>x. in_table p u x \<longrightarrow> in_table p s x \<or> in_free s x"
    using assms unfolding grows_def in_free_def by (meson subsetD)
  moreover have "\<forall>k. (\<forall>f\<in>set (nodes (km s)). f div PAGE_SIZE \<noteq> k) \<longrightarrow> pages_ref (km u) k = pages_ref (km s) k"
    using assms unfolding grows_def by (metis subsetD)
  moreover have "vm_ok p u" "length (nodes (km s)) \<le> length (nodes (km u)) + (n + k)" "set (nodes (km u)) \<subseteq> set (nodes (km s))"
    using assms unfolding grows_def by auto
  moreover have "\<forall>is\<in>paths. \<forall>q. walk (mem s) p is = Some q \<longrightarrow> walk (mem u) p is = Some q" using assms unfolding grows_def by blast
  moreover have "\<forall>is\<in>paths. \<forall>l<512. length is = 3 \<longrightarrow> leaf (mem u) p is l = leaf (mem s) p is l" using assms unfolding grows_def by metis
  ultimately show ?thesis unfolding grows_def by blast
qed

lemma kalloc_page_takes:
  assumes "nodes k = f # fs"
  shows "\<exists>k'. kalloc_page k = Inr (f, k') \<and> nodes k' = fs \<and> (\<forall>n. n \<noteq> f div PAGE_SIZE \<longrightarrow> pages_ref k' n = pages_ref k n)"
  using assms by (auto simp: kalloc_page_def set_page_def Let_def)

lemma add_table_frame:
  assumes "x < f \<or> f + PAGE_SIZE \<le> x" and "x < a \<or> a + 8 \<le> x"
  shows "add_table m f a x = m x"
  using assms by (auto simp: add_table_def wr64_def memset_page_def)

lemma next_table_grows:
  assumes ok: "vm_ok p s" and path: "path @ [i] \<in> paths" "walk (mem s) p path = Some q" and ne: "nodes (km s) \<noteq> []"
  shows "\<exists>q' s'. next_table (q + 8 * i) True s = Inr (Some q', s') \<and> grows 1 p s s' \<and> walk (mem s') p (path @ [i]) = Some q'"
proof (cases "pte_valid (rd64 (mem s) (q + 8 * i))")
  case True
  then show ?thesis using path(2) grows_refl [OF ok] by (simp add: next_table_def walk_snoc Let_def)
next
  case False
  obtain f fs where fs: "nodes (km s) = f # fs" using ne by (cases "nodes (km s)") auto
  obtain k where k: "kalloc_page (km s) = Inr (f, k)" "nodes k = fs" "\<forall>n. n \<noteq> f div PAGE_SIZE \<longrightarrow> pages_ref k n = pages_ref (km s) n"
    using kalloc_page_takes [OF fs] by blast
  let ?s = "s\<lparr>km := k, mem := add_table (mem s) f (q + 8 * i)\<rparr>"
  have c: "can_add (mem s) p (set (nodes (km s))) path i q f"
    using ok path False fs unfolding can_add_def vm_ok_def paths_def by simp
  have w: "walk (mem ?s) p (path @ [i]) = Some f" using walk_new [OF c path(1)] by simp
  have wo: "walk (mem ?s) p is = Some r" if "is \<in> paths" "walk (mem s) p is = Some r" for "is" r
    using walk_new [OF c that(1)] that(2) can_addD(11) [OF c] by auto
  have q: "path \<in> paths" "i < 512" using path by (auto simp: paths_def)
  have "distinct (f # fs)" using ok fs by (simp add: vm_ok_def)
  then have "set (nodes (km s)) - {f} = set fs" "distinct fs" using fs by auto
  then have "vm_ok p ?s" using ok_new [OF c] k(2) by (simp add: vm_ok_def)
  moreover have "mem ?s x = mem s x" if x: "\<not> in_table p ?s x" for x
  proof -
    have "\<not> (f \<le> x \<and> x < f + PAGE_SIZE)" "\<not> (q \<le> x \<and> x < q + PAGE_SIZE)"
      using x w wo [OF q(1) path(2)] q(1) path(1) unfolding in_table_def by blast+
    then show ?thesis using q(2) add_table_frame [of x f "q + 8 * i"] by fastforce
  qed
  moreover have "\<forall>n. (\<forall>f\<in>set (nodes (km s)). f div PAGE_SIZE \<noteq> n) \<longrightarrow> pages_ref (km ?s) n = pages_ref (km s) n"
    using k(3) fs by auto
  moreover have "in_table p s x \<or> in_free s x" if "in_table p ?s x" for x
    using that walk_new [OF c] fs unfolding in_table_def in_free_def by (auto split: if_splits)
  moreover have "\<forall>is\<in>paths. \<forall>l<512. length is = 3 \<longrightarrow> leaf (mem ?s) p is l = leaf (mem s) p is l" using leaf_new [OF c] by simp
  moreover have "length (nodes (km s)) \<le> length (nodes (km ?s)) + 1" "set (nodes (km ?s)) \<subseteq> set (nodes (km s))"
    using fs k(2) by auto
  ultimately have "grows 1 p s ?s" unfolding grows_def using wo by blast
  moreover have "next_table (q + 8 * i) True s = Inr (Some f, ?s)" using False k by (simp add: next_table_def add_table_def Let_def)
  ultimately show ?thesis using w by blast
qed

lemma field_less:
  fixes va :: "64 word"
  shows "unat (drop_bit n (va AND k)) \<le> unat k div 2 ^ n"
proof -
  have "unat (va AND k) \<le> unat k" using word_and_le1 word_le_nat_alt by blast
  then have "drop_bit n (unat (va AND k)) \<le> unat k div 2 ^ n" unfolding drop_bit_eq_div by (rule div_le_mono)
  moreover have "unat (drop_bit n (va AND k)) \<le> drop_bit n (unat (va AND k))"
    unfolding unsigned_drop_bit_eq drop_bit_eq_div [where 'a = nat] by (intro div_le_mono take_bit_nat_less_eq_self)
  ultimately show ?thesis by linarith
qed

lemma va_masks:
  "(0xFF8000000000 :: 64 word) = push_bit 39 (mask 9)" "(0x7FC0000000 :: 64 word) = push_bit 30 (mask 9)"
  "(0x3FE00000 :: 64 word) = push_bit 21 (mask 9)" "(0x1FF000 :: 64 word) = push_bit 12 (mask 9)"
  by (simp_all add: push_bit_eq_mult mask_eq_exp_minus_1)

lemma va_part_less: "VA_PART0 va < 512" "VA_PART1 va < 512" "VA_PART2 va < 512" "VA_PART3 va < 512"
  using field_less [of 39 va "0xFF8000000000"] field_less [of 30 va "0x7FC0000000"] field_less [of 21 va "0x3FE00000"]
    field_less [of 12 va "0x1FF000"]
  by (simp_all add: VA_PART0_def VA_PART1_def VA_PART2_def VA_PART3_def)

definition vpath :: "64 word \<Rightarrow> nat list" where
  "vpath va = [VA_PART0 va, VA_PART1 va, VA_PART2 va]"

lemma vpath_props: "vpath va \<in> paths" "length (vpath va) = 3" "[VA_PART0 va] \<in> paths" "[VA_PART0 va, VA_PART1 va] \<in> paths"
  using va_part_less [of va] by (auto simp: vpath_def paths_def)

lemma get_pte_present:
  assumes "pt pd = Some p" and "walk (mem s) p (vpath va) = Some q"
  shows "get_pte pd va alloc s = Inr (Some (q + 8 * VA_PART3 va), pd, s)"
  using assms by (auto simp: get_pte_def next_table_def vpath_def Let_def split: if_splits)

lemma get_pte_build:
  assumes ok: "vm_ok p s" and pd: "pt pd = Some p" and pg: "3 \<le> length (nodes (km s))"
  shows "\<exists>q s'. get_pte pd va True s = Inr (Some (q + 8 * VA_PART3 va), pd, s') \<and> grows 3 p s s' \<and> walk (mem s') p (vpath va) = Some q"
proof -
  obtain q1 s1 where 1: "next_table (p + 8 * VA_PART0 va) True s = Inr (Some q1, s1)" "grows 1 p s s1" "walk (mem s1) p [VA_PART0 va] = Some q1"
    using next_table_grows [OF ok, of "[]" "VA_PART0 va" p] vpath_props(3) [of va] pg unfolding append_Nil by fastforce
  then have n1: "nodes (km s1) \<noteq> []" "vm_ok p s1" using pg by (auto simp: grows_def)
  obtain q2 s2 where 2: "next_table (q1 + 8 * VA_PART1 va) True s1 = Inr (Some q2, s2)" "grows 1 p s1 s2"
      "walk (mem s2) p [VA_PART0 va, VA_PART1 va] = Some q2"
    using next_table_grows [OF n1(2), of "[VA_PART0 va]" "VA_PART1 va" q1] vpath_props(4) [of va] 1(3) n1(1) unfolding append_Cons append_Nil by blast
  have g2: "grows (1 + 1) p s s2" using grows_trans [OF 1(2) 2(2)] .
  then have n2: "nodes (km s2) \<noteq> []" "vm_ok p s2" using pg by (auto simp: grows_def)
  obtain q3 s3 where 3: "next_table (q2 + 8 * VA_PART2 va) True s2 = Inr (Some q3, s3)" "grows 1 p s2 s3"
      "walk (mem s3) p (vpath va) = Some q3"
    using next_table_grows [OF n2(2), of "[VA_PART0 va, VA_PART1 va]" "VA_PART2 va" q2] vpath_props(1) [of va] 2(3) n2(1)
    unfolding append_Cons append_Nil vpath_def by blast
  have "grows 3 p s s3" using grows_trans [OF g2 3(2)] by (simp add: numeral_eq_Suc)
  then show ?thesis using 1(1) 2(1) 3 pd by (simp add: get_pte_def)
qed

text \<open>Either three pages are free or the tables of the address exist.\<close>

definition can_map :: "nat \<Rightarrow> 64 word \<Rightarrow> vmem \<Rightarrow> bool" where
  "can_map p va s \<longleftrightarrow> 3 \<le> length (nodes (km s)) \<or> walk (mem s) p (vpath va) \<noteq> None"

lemma get_pte_alloc:
  assumes ok: "vm_ok p s" and pd: "pt pd = Some p" and pg: "can_map p va s"
  shows "\<exists>q s'. get_pte pd va True s = Inr (Some (q + 8 * VA_PART3 va), pd, s') \<and> grows 3 p s s' \<and> walk (mem s') p (vpath va) = Some q"
proof (cases "walk (mem s) p (vpath va)")
  case None
  then show ?thesis using get_pte_build [OF ok pd] pg by (simp add: can_map_def)
next
  case (Some q)
  then show ?thesis using get_pte_present [OF pd Some] grows_refl [OF ok] by blast
qed

lemma get_pte_lookup:
  assumes "pt pd = Some p"
  shows "get_pte pd va False s = Inr (map_option (\<lambda>q. q + 8 * VA_PART3 va) (walk (mem s) p (vpath va)), pd, s)"
  using assms by (simp add: get_pte_def next_table_def vpath_def Let_def)

text \<open>The entry of a virtual address, 0 when its table does not exist.\<close>

definition entry_at :: "pgdir \<Rightarrow> 64 word \<Rightarrow> vmem \<Rightarrow> 64 word" where
  "entry_at pd va s = (case get_pte pd va False s of Inr (Some a, _, _) \<Rightarrow> rd64 (mem s) a | _ \<Rightarrow> 0)"

lemma entry_at_leaf: "pt pd = Some p \<Longrightarrow> entry_at pd va s = leaf (mem s) p (vpath va) (VA_PART3 va)"
  by (simp add: entry_at_def get_pte_lookup leaf_def split: option.split)

lemma walk_leaf:
  assumes ok: "tables_ok m p F" and q: "walk m p is = Some q" "is \<in> paths" "length is = 3" "l < 512" and "js \<in> paths"
  shows "walk (wr64 m (q + 8 * l) v) p js = walk m p js"
  using assms(6)
proof (induction js rule: rev_induct)
  case Nil
  then show ?case by simp
next
  case (snoc j js)
  note js = pathsD [OF snoc.prems]
  show ?case
  proof (cases "walk m p js")
    case None
    then show ?thesis using snoc js by (simp add: walk_snoc)
  next
    case (Some r)
    have "js \<noteq> is" using snoc.prems q(3) by (auto simp: paths_def)
    then have "r \<noteq> q" using tables_okD(3) [OF ok q(2,1)] js Some by blast
    then have "rd64 (wr64 m (q + 8 * l) v) (r + 8 * j) = rd64 m (r + 8 * j)"
      using slot_apart [of q r l j] tables_okD(1) [OF ok] q Some js by (intro rd64_wr64_other) auto
    then show ?thesis using snoc js Some by (simp add: walk_snoc)
  qed
qed

lemma leaf_write:
  assumes ok: "tables_ok m p F" and q: "walk m p is = Some q" "is \<in> paths" "length is = 3" "l < 512"
    and js: "js \<in> paths" "length js = 3" "k < 512"
  shows "leaf (wr64 m (q + 8 * l) v) p js k = (if js = is \<and> k = l then v else leaf m p js k)"
proof (cases "walk m p js")
  case None
  then have "js \<noteq> is" using q(1) by fastforce
  then show ?thesis using walk_leaf [OF ok q js(1), of v] None by (simp add: leaf_def)
next
  case (Some r)
  note w = walk_leaf [OF ok q js(1), of v]
  note r_ok = tables_okD(1) [OF ok js(1) Some] and q_ok = tables_okD(1) [OF ok q(2,1)]
  have e: "js = is \<longleftrightarrow> r = q" using tables_okD(3) [OF ok q(2,1)] js(1) Some q(1) by (metis option.inject)
  show ?thesis
  proof (cases "r = q \<and> k = l")
    case True
    then show ?thesis using e w Some by (simp add: leaf_def)
  next
    case False
    then have "rd64 (wr64 m (q + 8 * l) v) (r + 8 * k) = rd64 m (r + 8 * k)"
      using slot_apart [OF q_ok r_ok q(4) js(3)] by (intro rd64_wr64_other) blast
    then show ?thesis using e False w Some by (auto simp: leaf_def)
  qed
qed

lemma tables_ok_cong:
  assumes "tables_ok m p F" and "\<And>js. js \<in> paths \<Longrightarrow> walk m' p js = walk m p js"
  shows "tables_ok m' p F"
  using assms by (auto simp: tables_ok_def)

definition vpn :: "64 word \<Rightarrow> 64 word" where
  "vpn va = va AND 0xFFFFFFFFF000"

lemma vpn_parts:
  "vpn va = push_bit 39 (word_of_nat (VA_PART0 va)) OR push_bit 30 (word_of_nat (VA_PART1 va))
     OR push_bit 21 (word_of_nat (VA_PART2 va)) OR push_bit 12 (word_of_nat (VA_PART3 va))"
proof -
  have m: "(0xFFFFFFFFF000 :: 64 word) = push_bit 12 (mask 36)" by (simp add: push_bit_eq_mult mask_eq_exp_minus_1)
  have "vpn va = push_bit 39 (drop_bit 39 (va AND push_bit 39 (mask 9))) OR push_bit 30 (drop_bit 30 (va AND push_bit 30 (mask 9)))
     OR push_bit 21 (drop_bit 21 (va AND push_bit 21 (mask 9))) OR push_bit 12 (drop_bit 12 (va AND push_bit 12 (mask 9)))"
    unfolding vpn_def m
  proof (rule bit_eqI)
    fix n :: nat
    consider "n < 12" | "12 \<le> n" "n < 21" | "21 \<le> n" "n < 30" | "30 \<le> n" "n < 39" | "39 \<le> n" "n < 48" | "48 \<le> n" by linarith
    then show "bit (va AND push_bit 12 (mask 36)) n =
       bit (push_bit 39 (drop_bit 39 (va AND push_bit 39 (mask 9))) OR push_bit 30 (drop_bit 30 (va AND push_bit 30 (mask 9)))
         OR push_bit 21 (drop_bit 21 (va AND push_bit 21 (mask 9))) OR push_bit 12 (drop_bit 12 (va AND push_bit 12 (mask 9)))) n"
      unfolding bit_or_iff bit_push_bit_iff bit_drop_bit_eq bit_and_iff bit_mask_iff comp_def by cases auto
  qed
  then show ?thesis by (simp only: VA_PART0_def VA_PART1_def VA_PART2_def VA_PART3_def va_masks of_nat_unat ucast_id)
qed

lemma vpn_cong: "vpath a = vpath b \<Longrightarrow> VA_PART3 a = VA_PART3 b \<Longrightarrow> vpn a = vpn b"
  by (simp add: vpn_parts vpath_def)

lemma vmmap_spec:
  assumes pd: "pt pd = Some p" and ok: "vm_ok p s" and pg: "can_map p va s"
    and lk: "\<not> locked (ref_lock (pages_ref (km s) (ka div PAGE_SIZE)))" and ka: "\<forall>f\<in>set (nodes (km s)). f div PAGE_SIZE \<noteq> ka div PAGE_SIZE"
  shows "\<exists>s'. vmmap pd va ka flags s = Inr (pd, s') \<and> vm_ok p s'
    \<and> entry_at pd va s' = word_of_nat (PAGE_BASE ka) OR flags
    \<and> (\<forall>va'. vpn va' \<noteq> vpn va \<longrightarrow> entry_at pd va' s' = entry_at pd va' s)
    \<and> (\<forall>x. \<not> in_table p s' x \<longrightarrow> mem s' x = mem s x)
    \<and> ref (pages_ref (km s') (ka div PAGE_SIZE)) = increment_rc (ref (pages_ref (km s) (ka div PAGE_SIZE)))
    \<and> (\<forall>x. in_table p s' x \<longrightarrow> in_table p s x \<or> in_free s x) \<and> set (nodes (km s')) \<subseteq> set (nodes (km s))
    \<and> (\<forall>js\<in>paths. \<forall>q. walk (mem s) p js = Some q \<longrightarrow> walk (mem s') p js = Some q)
    \<and> length (nodes (km s)) \<le> length (nodes (km s')) + 3 \<and> \<not> locked (ref_lock (pages_ref (km s') (ka div PAGE_SIZE)))"
proof -
  obtain q t where t: "get_pte pd va True s = Inr (Some (q + 8 * VA_PART3 va), pd, t)" "grows 3 p s t" "walk (mem t) p (vpath va) = Some q"
    using get_pte_alloc [OF ok pd pg] by blast
  let ?n = "ka div PAGE_SIZE" and ?e = "word_of_nat (PAGE_BASE ka) OR flags"
  let ?m = "wr64 (mem t) (q + 8 * VA_PART3 va) ?e"
  let ?l = "\<lparr>locked = False\<rparr>"
  have tok: "tables_ok (mem t) p (set (nodes (km t)))" and tr: "pages_ref (km t) ?n = pages_ref (km s) ?n"
    using t(2) ka by (auto simp: grows_def vm_ok_def)
  have n: "PAGE_BASE ka div PAGE_SIZE = ?n" by (simp add: PAGE_BASE_def)
  define u where "u = t\<lparr>mem := ?m, km := set_page ?n (\<lambda>g. g\<lparr>ref := increment_rc (ref g),
    ref_lock := release_spinlock ((ref_lock (pages_ref (km s) ?n))\<lparr>locked := True\<rparr>)\<rparr>) (km t)\<rparr>"
  have v: "vmmap pd va ka flags s = Inr (pd, u)" using t(1) lk by (simp add: vmmap_def Let_def n tr u_def)
  note pr = vpath_props(1,2) and l = va_part_less(4)
  have w: "walk (mem u) p js = walk (mem t) p js" if "js \<in> paths" for js
    using walk_leaf [OF tok t(3) pr l that] by (simp add: u_def)
  have lf: "leaf (mem u) p (vpath a) (VA_PART3 a) = (if vpath a = vpath va \<and> VA_PART3 a = VA_PART3 va then ?e else leaf (mem s) p (vpath a) (VA_PART3 a))" for a
    using leaf_write [OF tok t(3) pr l [of va] pr l, where v = ?e] t(2) pr l by (simp add: u_def grows_def)
  have "vm_ok p u" using t(2) tables_ok_cong [OF tok w] by (simp add: vm_ok_def grows_def u_def set_page_def)
  moreover have "entry_at pd va u = ?e" by (simp add: entry_at_leaf [OF pd] lf)
  moreover have "entry_at pd va' u = entry_at pd va' s" if "vpn va' \<noteq> vpn va" for va'
    using that vpn_cong [of va' va] unfolding entry_at_leaf [OF pd] lf by metis
  moreover have "mem u x = mem s x" if x: "\<not> in_table p u x" for x
  proof -
    have "\<not> in_table p t x" using x w unfolding in_table_def by metis
    moreover have "\<not> (q \<le> x \<and> x < q + PAGE_SIZE)" using x w t(3) pr(1) unfolding in_table_def by metis
    ultimately show ?thesis using t(2) l [of va] by (auto simp: u_def wr64_def grows_def)
  qed
  moreover have "ref (pages_ref (km u) ?n) = increment_rc (ref (pages_ref (km s) ?n))" by (simp add: u_def set_page_def tr)
  moreover have "in_table p s x \<or> in_free s x" if "in_table p u x" for x
    using that w t(2) unfolding in_table_def [of p u] grows_def in_table_def [of p t] by metis
  moreover have "set (nodes (km u)) \<subseteq> set (nodes (km s))" using t(2) by (simp add: u_def set_page_def grows_def)
  moreover have "\<forall>js\<in>paths. \<forall>q. walk (mem s) p js = Some q \<longrightarrow> walk (mem u) p js = Some q" using w t(2) by (simp add: grows_def)
  moreover have "length (nodes (km s)) \<le> length (nodes (km u)) + 3" "\<not> locked (ref_lock (pages_ref (km u) ?n))"
    using t(2) by (simp_all add: u_def set_page_def grows_def release_spinlock_eq)
  ultimately show ?thesis using v by blast
qed

text \<open>
  C8: \<^verbatim>\<open>vmmap\<close> on a well-formed page directory with three free pages left succeeds, keeps the tree of tables well formed, makes
  the entry of the address hold the page with the given flags, changes the entry of no other page, writes no memory
  outside the tables and counts one more reference to the page.
\<close>

theorem vmmap_maps_one_page:
  assumes pd: "pt pd = Some p" and ok: "vm_ok p s" and pg: "3 \<le> length (nodes (km s))"
    and lk: "\<not> locked (ref_lock (pages_ref (km s) (ka div PAGE_SIZE)))" and ka: "\<forall>f\<in>set (nodes (km s)). f div PAGE_SIZE \<noteq> ka div PAGE_SIZE"
  shows "\<exists>s'. vmmap pd va ka flags s = Inr (pd, s') \<and> vm_ok p s'
    \<and> entry_at pd va s' = word_of_nat (PAGE_BASE ka) OR flags
    \<and> (\<forall>va'. vpn va' \<noteq> vpn va \<longrightarrow> entry_at pd va' s' = entry_at pd va' s)
    \<and> (\<forall>x. \<not> in_table p s' x \<longrightarrow> mem s' x = mem s x)
    \<and> ref (pages_ref (km s') (ka div PAGE_SIZE)) = increment_rc (ref (pages_ref (km s) (ka div PAGE_SIZE)))"
proof -
  have "can_map p va s" using pg by (simp add: can_map_def)
  from vmmap_spec [OF pd ok this lk ka] show ?thesis by blast
qed

lemma vm_ok_fresh:
  assumes "page_ok p" and "\<forall>i<512. rd64 (mem s) (p + 8 * i) = 0" and "\<forall>f\<in>set (nodes (km s)). page_ok f \<and> f \<noteq> p" and "distinct (nodes (km s))"
  shows "vm_ok p s"
proof -
  have "walk (mem s) p is = Some q \<longleftrightarrow> is = [] \<and> q = p" if "is \<in> paths" for "is" q
    using that assms(2) by (cases "is") (auto simp: paths_def)
  then show ?thesis using assms by (auto simp: vm_ok_def tables_ok_def)
qed

definition demo_vmem :: vmem where
  "demo_vmem = \<lparr>km = demo_kmem\<lparr>nodes := [0x40002000, 0x40003000, 0x40004000, 0x40005000, 0x40006000]\<rparr>, mem = (\<lambda>_. 0)\<rparr>"

definition demo_pgdir :: pgdir where
  "demo_pgdir = \<lparr>pt = Some 0x40001000, pgdir_lock = \<lparr>locked = False\<rparr>\<rparr>"

lemma demo_vmem_table:
  assumes "in_table 0x40001000 demo_vmem x"
  shows "0x40001000 \<le> x \<and> x < 0x40002000"
proof -
  have "walk (\<lambda>_. 0) 0x40001000 js = Some q \<Longrightarrow> q = 0x40001000" for js q by (cases js) (auto simp: rd64_def)
  then show ?thesis using assms by (fastforce simp: in_table_def demo_vmem_def)
qed

lemma demo_vmem_ok: "vm_ok 0x40001000 demo_vmem"
  by (rule vm_ok_fresh) (auto simp: demo_vmem_def page_ok_def rd64_def)

theorem vmmap_maps_one_page_witness:
  "\<exists>s'. vmmap demo_pgdir 0x8000 0x40009123 PTE_USER_DATA demo_vmem = Inr (demo_pgdir, s')
     \<and> entry_at demo_pgdir 0x8000 s' = 0x40009647 \<and> entry_at demo_pgdir 0x9000 s' = entry_at demo_pgdir 0x9000 demo_vmem"
proof -
  have "pt demo_pgdir = Some 0x40001000" by (simp add: demo_pgdir_def)
  from vmmap_maps_one_page [OF this demo_vmem_ok, where ka = "0x40009123" and va = "0x8000" and flags = PTE_USER_DATA]
  obtain s' where s': "vmmap demo_pgdir 0x8000 0x40009123 PTE_USER_DATA demo_vmem = Inr (demo_pgdir, s')"
      "entry_at demo_pgdir 0x8000 s' = word_of_nat (PAGE_BASE 0x40009123) OR PTE_USER_DATA"
      "\<forall>va'. vpn va' \<noteq> vpn 0x8000 \<longrightarrow> entry_at demo_pgdir va' s' = entry_at demo_pgdir va' demo_vmem"
    by (auto simp: demo_vmem_def demo_kmem_def)
  moreover have "(word_of_nat (PAGE_BASE 0x40009123) OR PTE_USER_DATA :: 64 word) = 0x40009647" by (simp add: PAGE_BASE_def)
  moreover have "vpn 0x9000 \<noteq> vpn 0x8000" by (simp add: vpn_def)
  ultimately show ?thesis by metis
qed

text \<open>
  C28: \<^verbatim>\<open>copyout\<close> of bytes that stay within one page: when the address has an entry with a page of mapped memory, exactly the bytes at the offset of
  the address in that page are replaced. When the entry is empty the kernel stops with a data abort: \<^verbatim>\<open>copyout\<close> builds the tables but allocates no page for
  the data, although its comment says that it does, and physical page 0, which the empty entry stands for, is not mapped.
\<close>

theorem copyout_needs_mapped_page:
  assumes "pt pd = Some p" and "vm_ok p s" and "3 \<le> length (nodes (km s))" and "bs \<noteq> []" and "unat va mod PAGE_SIZE + length bs \<le> PAGE_SIZE"
  shows "(kernel_mapped (PTE_ADDRESS (entry_at pd va s)) \<longrightarrow>
           copyout pd va bs s = Inr (pd, s\<lparr>mem := \<lambda>x. let a = PTE_ADDRESS (entry_at pd va s) + unat va mod PAGE_SIZE
                                                 in if a \<le> x \<and> x < a + length bs then bs ! (x - a) else mem s x\<rparr>))
       \<and> (entry_at pd va s = 0 \<longrightarrow> copyout pd va bs s = Inl Fault)"
proof (intro conjI impI)
  have n: "min (length bs) (PAGE_SIZE - unat va mod PAGE_SIZE) = length bs" using assms(5) by simp
  {
    assume m: "kernel_mapped (PTE_ADDRESS (entry_at pd va s))"
    then have "entry_at pd va s \<noteq> 0" by (auto simp: kernel_mapped_def PTE_ADDRESS_def)
    then obtain q where q: "walk (mem s) p (vpath va) = Some q" "entry_at pd va s = rd64 (mem s) (q + 8 * VA_PART3 va)"
      by (auto simp: entry_at_leaf [OF assms(1)] leaf_def split: option.splits)
    have "copyout pd va bs s = Inr (pd, s\<lparr>mem := store_bytes (PTE_ADDRESS (entry_at pd va s) + unat va mod PAGE_SIZE) bs (mem s)\<rparr>)"
      using assms(4) m get_pte_present [OF assms(1) q(1)] n
      by (subst copyout.simps) (simp add: q(2) Let_def copyout.simps [of _ _ "[]"] del: copyout.simps)
    then show "copyout pd va bs s = Inr (pd, s\<lparr>mem := \<lambda>x. let a = PTE_ADDRESS (entry_at pd va s) + unat va mod PAGE_SIZE
                                              in if a \<le> x \<and> x < a + length bs then bs ! (x - a) else mem s x\<rparr>)"
      by (simp add: store_bytes_def Let_def)
  }
  assume e: "entry_at pd va s = 0"
  obtain q t where t: "get_pte pd va True s = Inr (Some (q + 8 * VA_PART3 va), pd, t)" "grows 3 p s t" "walk (mem t) p (vpath va) = Some q"
    using get_pte_build [OF assms(2,1,3)] by blast
  have "entry_at pd va t = 0" using e t(2) vpath_props va_part_less(4) unfolding entry_at_leaf [OF assms(1)] grows_def by simp
  then have "rd64 (mem t) (q + 8 * VA_PART3 va) = 0" using t(3) by (simp add: entry_at_leaf [OF assms(1)] leaf_def)
  then show "copyout pd va bs s = Inl Fault"
    using assms(4) t(1) by (subst copyout.simps) (simp add: Let_def PTE_ADDRESS_def kernel_mapped_def del: copyout.simps)
qed

lemma demo_mapped:
  "\<exists>s. vm_ok 0x40001000 s \<and> length (nodes (km s)) \<ge> 3 \<and> entry_at demo_pgdir 0x8010 s = 0x40009647"
proof -
  let ?s = "demo_vmem\<lparr>km := (km demo_vmem)\<lparr>nodes := nodes (km demo_vmem) @ [0x40007000]\<rparr>\<rparr>"
  have p: "pt demo_pgdir = Some 0x40001000" by (simp add: demo_pgdir_def)
  have ok: "vm_ok 0x40001000 ?s" by (rule vm_ok_fresh) (auto simp: demo_vmem_def page_ok_def rd64_def)
  have "can_map 0x40001000 0x8010 ?s" by (simp add: can_map_def demo_vmem_def)
  from vmmap_spec [OF p ok this, where ka = "0x40009000" and flags = PTE_USER_DATA]
  obtain s' where s': "vm_ok 0x40001000 s'" "entry_at demo_pgdir 0x8010 s' = word_of_nat (PAGE_BASE 0x40009000) OR PTE_USER_DATA"
      "length (nodes (km ?s)) \<le> length (nodes (km s')) + 3"
    by (auto simp: demo_vmem_def demo_kmem_def)
  have "(word_of_nat (PAGE_BASE 0x40009000) OR PTE_USER_DATA :: 64 word) = 0x40009647" by (simp add: PAGE_BASE_def)
  then show ?thesis using s' by (intro exI [of _ s']) (simp add: demo_vmem_def)
qed

theorem copyout_needs_mapped_page_witness:
  "copyout demo_pgdir 0x8010 [1, 2, 3] demo_vmem = Inl Fault
     \<and> (\<exists>s s'. copyout demo_pgdir 0x8010 [1, 2, 3] s = Inr (demo_pgdir, s') \<and> mem s' 0x40009011 = 2 \<and> mem s' 0x40009013 = mem s 0x40009013)"
proof -
  have p: "pt demo_pgdir = Some 0x40001000" by (simp add: demo_pgdir_def)
  have e: "entry_at demo_pgdir 0x8010 demo_vmem = 0"
    by (simp add: entry_at_leaf [OF p] leaf_def demo_vmem_def vpath_def rd64_def)
  have l: "3 \<le> length (nodes (km demo_vmem))" by (simp add: demo_vmem_def)
  have o: "unat (0x8010 :: 64 word) mod PAGE_SIZE = 16" by simp
  obtain s where s: "vm_ok 0x40001000 s" "length (nodes (km s)) \<ge> 3" "entry_at demo_pgdir 0x8010 s = 0x40009647" using demo_mapped by blast
  have a: "PTE_ADDRESS 0x40009647 = 0x40009000" by (simp add: PTE_ADDRESS_def)
  have k: "kernel_mapped 0x40009000" by (simp add: kernel_mapped_def)
  have "copyout demo_pgdir 0x8010 [1, 2, 3] demo_vmem = Inl Fault"
    using copyout_needs_mapped_page [OF p demo_vmem_ok l, where va = "0x8010" and bs = "[1, 2, 3]"] e o by simp
  moreover have "copyout demo_pgdir 0x8010 [1, 2, 3] s = Inr (demo_pgdir, s\<lparr>mem := \<lambda>x. if 0x40009010 \<le> x \<and> x < 0x40009013 then [1, 2, 3] ! (x - 0x40009010) else mem s x\<rparr>)"
    using copyout_needs_mapped_page [OF p s(1,2), where va = "0x8010" and bs = "[1, 2, 3]"] o k by (simp add: s(3) a Let_def)
  ultimately show ?thesis by (intro conjI exI) (assumption, assumption, simp_all)
qed

end
