(* ===== verification/Paging.thy ===== *)
theory Paging
  imports Page_Table File_Table
begin

text \<open>
  Sections of an address space and page faults (\<^verbatim>\<open>kernel/paging.c\<close>, \<^verbatim>\<open>kernel/paging.h\<close>), with the parts of \<^verbatim>\<open>kernel/pt.c\<close> that use them.

  The list behind \<^verbatim>\<open>section_head\<close> is a sequence of sections (\<open>Linked_List\<close> shows that inserting at the head puts the section first); \<open>st_addr\<close> is the
  address of the section's memory from \<^verbatim>\<open>kalloc\<close>. \<^verbatim>\<open>kalloc\<close> does not clear what it returns: \<open>junk\<close> is the file pointer that
  happens to be in a fresh section. Section bounds are 64-bit words; the loops over pages of a section assume that its end is at least a page below
  \<open>2^64\<close>, where the address of the loop would wrap around. TLB invalidation and console output have no counterpart.
\<close>

abbreviation (input) ST_FILE :: "64 word" where "ST_FILE \<equiv> 1"
abbreviation (input) ST_SWAP :: "64 word" where "ST_SWAP \<equiv> 2"
abbreviation (input) ST_RO :: "64 word" where "ST_RO \<equiv> 4"
abbreviation (input) ST_HEAP :: "64 word" where "ST_HEAP \<equiv> 8"
abbreviation (input) ST_TEXT :: "64 word" where "ST_TEXT \<equiv> 5"
abbreviation (input) ST_DATA :: "64 word" where "ST_DATA \<equiv> 1"
abbreviation (input) ST_USER_STACK :: "64 word" where "ST_USER_STACK \<equiv> 16"
abbreviation (input) ST_MMAP_SHARED :: "64 word" where "ST_MMAP_SHARED \<equiv> 32"
abbreviation (input) ST_MMAP_PRIVATE :: "64 word" where "ST_MMAP_PRIVATE \<equiv> 64"

record section_t =
  st_addr :: nat
  flags :: "64 word"
  st_begin :: "64 word"
  st_end :: "64 word"
  st_sleeplock :: Semaphore
  fp :: "nat option"
  st_offset :: nat
  st_length :: nat
  st_prot :: nat

text \<open>\<^verbatim>\<open>sizeof(struct section)\<close>.\<close>

abbreviation (input) SECTION_SIZE :: nat where "SECTION_SIZE \<equiv> 96"

record mm =
  pd :: pgdir
  sections :: "section_t list"

record sys =
  vm :: vmem
  fsys :: fstate

definition on_vm :: "(vmem \<Rightarrow> ('a \<times> vmem) res) \<Rightarrow> sys \<Rightarrow> ('a \<times> sys) res" where
  "on_vm f s = rbind (f (vm s)) (\<lambda>(x, v). Inr (x, s\<lparr>vm := v\<rparr>))"

definition on_fs :: "(fstate \<Rightarrow> fstate res) \<Rightarrow> sys \<Rightarrow> sys res" where
  "on_fs f s = rbind (f (fsys s)) (\<lambda>x. Inr (s\<lparr>fsys := x\<rparr>))"

definition alloc_page :: "vmem \<Rightarrow> (nat \<times> vmem) res" where
  "alloc_page s = rbind (kalloc_page (km s)) (\<lambda>(p, k). Inr (p, s\<lparr>km := k\<rparr>))"

definition has_flag :: "64 word \<Rightarrow> 64 word \<Rightarrow> bool" where
  "has_flag f w \<longleftrightarrow> w AND f \<noteq> 0"

definition page_seq :: "64 word \<Rightarrow> 64 word \<Rightarrow> 64 word list" where
  "page_seq b e = map (\<lambda>k. b + word_of_nat (k * PAGE_SIZE)) [0..<(unat e - unat b + (PAGE_SIZE - 1)) div PAGE_SIZE]"

definition word_page_base :: "64 word \<Rightarrow> 64 word" where
  "word_page_base a = a AND NOT (mask 12)"

section \<open>Swapping\<close>

fun read_page_blocks :: "nat list \<Rightarrow> nat \<Rightarrow> nat \<Rightarrow> sys \<Rightarrow> sys res" where
  "read_page_blocks [] ka bno s = Inr s"
| "read_page_blocks (i # is) ka bno s =
     (let b = (bno + i) mod 2 ^ 32
      in rbind (fs_acquire b (it (fsys s))) (\<lambda>t.
         rbind (fs_data b t) (\<lambda>d.
         rbind (fs_release b t) (\<lambda>t.
         read_page_blocks is ka bno (s\<lparr>fsys := (fsys s)\<lparr>it := t\<rparr>, vm := (vm s)\<lparr>mem := store_bytes (ka + i * BLOCK_SIZE) d (mem (vm s))\<rparr>\<rparr>)))))"

definition read_page_from_disk :: "nat \<Rightarrow> nat \<Rightarrow> sys \<Rightarrow> sys res" where
  "read_page_from_disk ka bno = read_page_blocks [0..<8] ka bno"

definition read_device_page :: "nat \<Rightarrow> nat \<Rightarrow> sys \<Rightarrow> sys" where
  "read_device_page bno ka s =
     (let d = concat (map (\<lambda>i. disk (bc (it (fsys s))) (bno + i)) [0..<8])
      in s\<lparr>vm := (vm s)\<lparr>mem := store_bytes ka d (mem (vm s))\<rparr>\<rparr>)"

fun swap_in_pages :: "64 word list \<Rightarrow> pgdir \<Rightarrow> sys \<Rightarrow> (pgdir \<times> sys) res" where
  "swap_in_pages [] d s = Inr (d, s)"
| "swap_in_pages (a # as) d s =
     rbind (get_pte d a False (vm s)) (\<lambda>(e, d, v).
     case e of
       None \<Rightarrow> swap_in_pages as d (s\<lparr>vm := v\<rparr>)
     | Some e \<Rightarrow>
         if rd64 (mem v) e = 0 then swap_in_pages as d (s\<lparr>vm := v\<rparr>)
         else let bno = unat (rd64 (mem v) e) div PAGE_SIZE mod 2 ^ 32
              in rbind (alloc_page v) (\<lambda>(ka, v).
                 rbind (on_vm (vmmap d a ka PTE_USER_DATA) (read_device_page bno ka (s\<lparr>vm := v\<rparr>))) (\<lambda>(d, s).
                 swap_in_pages as d s)))"

definition swap_in :: "pgdir \<Rightarrow> section_t \<Rightarrow> sys \<Rightarrow> (pgdir \<times> section_t \<times> sys) res" where
  "swap_in d st s =
     rassert (has_flag ST_SWAP (flags st))
       (rbind (sem_wait (st_sleeplock st)) (\<lambda>l.
        rbind (swap_in_pages (page_seq (st_begin st) (st_end st)) d s) (\<lambda>(d, s).
        rbind (sem_post l) (\<lambda>l.
        Inr (d, st\<lparr>st_sleeplock := l, flags := flags st AND NOT ST_SWAP\<rparr>, s)))))"

definition swap_in_if :: "pgdir \<Rightarrow> section_t \<Rightarrow> sys \<Rightarrow> (pgdir \<times> section_t \<times> sys) res" where
  "swap_in_if d st s = (if has_flag ST_SWAP (flags st) then swap_in d st s else Inr (d, st, s))"

section \<open>Sections\<close>

definition heap_alloc :: "nat \<Rightarrow> sys \<Rightarrow> (nat \<times> sys) res" where
  "heap_alloc sz s = rbind (kalloc sz (km (vm s))) (\<lambda>(a, k). Inr (a, s\<lparr>vm := (vm s)\<lparr>km := k\<rparr>\<rparr>))"

definition heap_free :: "nat \<Rightarrow> sys \<Rightarrow> sys res" where
  "heap_free a s = rbind (kfree a (km (vm s))) (\<lambda>k. Inr (s\<lparr>vm := (vm s)\<lparr>km := k\<rparr>\<rparr>))"

definition init_sections :: "section_t \<Rightarrow> section_t list \<Rightarrow> sys \<Rightarrow> (section_t list \<times> sys) res" where
  "init_sections junk sts s =
     rbind (heap_alloc SECTION_SIZE s) (\<lambda>(a, s).
     Inr (junk\<lparr>st_addr := a, st_begin := 0, st_end := 0, flags := ST_HEAP, st_sleeplock := init_sem 1\<rparr> # sts, s))"

definition init_mm :: "section_t \<Rightarrow> mm \<Rightarrow> sys \<Rightarrow> (mm \<times> sys) res" where
  "init_mm junk m s =
     rbind (on_vm (init_pgdir (pd m)) s) (\<lambda>(d, s).
     rbind (init_sections junk [] s) (\<lambda>(sts, s). Inr (\<lparr>pd = d, sections = sts\<rparr>, s)))"

fun free_section_pages :: "64 word list \<Rightarrow> pgdir \<Rightarrow> sys \<Rightarrow> (pgdir \<times> sys) res" where
  "free_section_pages [] d s = Inr (d, s)"
| "free_section_pages (a # as) d s =
     rbind (on_vm (\<lambda>v. rbind (get_pte d a False v) (\<lambda>(e, d, v). Inr ((e, d), v))) s) (\<lambda>((e, d), s).
     case e of
       None \<Rightarrow> free_section_pages as d s
     | Some e \<Rightarrow>
         let pte = rd64 (mem (vm s)) e
         in if pte_valid pte
            then rbind (free_page (PTE_ADDRESS pte) (vm s)) (\<lambda>v. free_section_pages as d (s\<lparr>vm := v\<rparr>))
            else free_section_pages as d s)"

fun free_sections :: "pgdir \<Rightarrow> section_t list \<Rightarrow> sys \<Rightarrow> (pgdir \<times> sys) res" where
  "free_sections d [] s = Inr (d, s)"
| "free_sections d (st # sts) s =
     rbind (swap_in_if d st s) (\<lambda>(d, st, s).
     rbind (free_section_pages (page_seq (word_page_base (st_begin st)) (st_end st)) d s) (\<lambda>(d, s).
     rbind (case fp st of None \<Rightarrow> Inr s | Some f \<Rightarrow> on_fs (file_close f) s) (\<lambda>s.
     rbind (heap_free (st_addr st) s) (\<lambda>s.
     free_sections d sts s))))"

definition free_pgdir :: "mm \<Rightarrow> sys \<Rightarrow> (mm \<times> sys) res" where
  "free_pgdir m s =
     (if pt (pd m) = None then Inr (m, s)
      else rbind (free_sections (pd m) (sections m) s) (\<lambda>(d, s).
           rbind (on_vm (free_pgdir_tables d) s) (\<lambda>(d, s).
           Inr (\<lparr>pd = d, sections = []\<rparr>, s))))"

text \<open>\<^verbatim>\<open>_for_in_list\<close> with a \<^verbatim>\<open>break\<close>: the first section that satisfies the test, otherwise the last one of the list.\<close>

fun pick_section :: "(section_t \<Rightarrow> bool) \<Rightarrow> section_t list \<Rightarrow> nat option" where
  "pick_section P [] = None"
| "pick_section P (st # sts) = (if P st \<or> sts = [] then Some 0 else map_option Suc (pick_section P sts))"

fun sbrk_free :: "nat list \<Rightarrow> 64 word \<Rightarrow> pgdir \<Rightarrow> vmem \<Rightarrow> (pgdir \<times> vmem) res" where
  "sbrk_free [] e d v = Inr (d, v)"
| "sbrk_free (i # is) e d v =
     rbind (get_pte d (e + word_of_nat (i * PAGE_SIZE)) False v) (\<lambda>(p, d, v).
     case p of
       None \<Rightarrow> sbrk_free is e d v
     | Some p \<Rightarrow>
         if pte_valid (rd64 (mem v) p)
         then rbind (free_page (PTE_ADDRESS (rd64 (mem v) p)) v) (\<lambda>v. sbrk_free is e d (v\<lparr>mem := wr64 (mem v) p 0\<rparr>))
         else sbrk_free is e d v)"

definition sbrk :: "int \<Rightarrow> mm \<Rightarrow> sys \<Rightarrow> (64 word \<times> mm \<times> sys) res" where
  "sbrk sz m s =
     (case pick_section (\<lambda>st. has_flag ST_HEAP (flags st)) (sections m) of
        None \<Rightarrow> Inl Panic
      | Some i \<Rightarrow>
          let st = sections m ! i;
              ret = st_end st;
              st' = st\<lparr>st_end := st_end st + word_of_int (sz * int PAGE_SIZE)\<rparr>
          in if sz \<ge> 0 then Inr (ret, m\<lparr>sections := (sections m)[i := st']\<rparr>, s)
             else rassert (word_of_int ((- sz) * int PAGE_SIZE) \<le> st_end st - st_begin st)
               (rbind (swap_in_if (pd m) st' s) (\<lambda>(d, st', s).
                rbind (on_vm (sbrk_free [0..<nat (- sz)] (st_end st') d) s) (\<lambda>(d, s).
                Inr (ret, m\<lparr>pd := d, sections := (sections m)[i := st']\<rparr>, s)))))"

definition copy_page :: "nat \<Rightarrow> nat \<Rightarrow> vmem \<Rightarrow> vmem" where
  "copy_page dst src v = v\<lparr>mem := store_bytes dst (map (mem v) [src..<src + PAGE_SIZE]) (mem v)\<rparr>"

text \<open>\<^verbatim>\<open>pgfault_handler\<close> for the faulting address \<open>addr\<close>; it always returns 0.\<close>

definition resolve_fault :: "64 word \<Rightarrow> pgdir \<Rightarrow> vmem \<Rightarrow> (pgdir \<times> vmem) res" where
  "resolve_fault addr d v =
     rbind (get_pte d addr True v) (\<lambda>(p, d, v).
     case p of None \<Rightarrow> Inl Fault | Some p \<Rightarrow>
     let pte = rd64 (mem v) p
     in rbind (if pte = 0 then
                 rbind (alloc_page v) (\<lambda>(new_page, v). vmmap d addr new_page PTE_USER_DATA v)
               else if has_flag PTE_RO (PTE_FLAGS pte) then
                 rbind (alloc_page v) (\<lambda>(new_page, v).
                 let old_page = PTE_ADDRESS (rd64 (mem v) p)
                 in rbind (free_page old_page (copy_page new_page old_page v)) (\<lambda>v.
                    vmmap d addr new_page PTE_USER_DATA v))
               else Inr (d, v)) (\<lambda>(d, v).
        if has_flag PTE_VALID (PTE_FLAGS (rd64 (mem v) p)) then Inr (d, v) else Inl Panic))"

definition pgfault_handler :: "64 word \<Rightarrow> mm \<Rightarrow> sys \<Rightarrow> (mm \<times> sys) res" where
  "pgfault_handler addr m s =
     (case pick_section (\<lambda>st. st_begin st \<le> addr \<and> addr < st_end st) (sections m) of
        None \<Rightarrow> Inl Panic
      | Some i \<Rightarrow>
          let st = sections m ! i
          in rassert (st_begin st \<le> addr \<and> addr < st_end st)
             (rbind (swap_in_if (pd m) st s) (\<lambda>(d, st, s).
              rbind (on_vm (resolve_fault addr d) s) (\<lambda>(d, s).
              Inr (m\<lparr>pd := d, sections := (sections m)[i := st]\<rparr>, s)))))"

fun copy_sections :: "section_t list \<Rightarrow> section_t list \<Rightarrow> sys \<Rightarrow> (section_t list \<times> sys) res" where
  "copy_sections [] to s = Inr (to, s)"
| "copy_sections (st # sts) to s =
     rbind (heap_alloc SECTION_SIZE s) (\<lambda>(a, s).
     rbind (case fp st of
              None \<Rightarrow> Inr (None, s)
            | Some f \<Rightarrow> rbind (file_dup f (fsys s)) (\<lambda>(f, x). Inr (Some f, s\<lparr>fsys := x\<rparr>))) (\<lambda>(f, s).
     copy_sections sts (st\<lparr>st_addr := a, fp := f\<rparr> # to) s))"

section \<open>Resolving a fault\<close>

lemma alloc_page_takes:
  assumes "nodes (km v) = f # fs"
  shows "\<exists>k. alloc_page v = Inr (f, v\<lparr>km := k\<rparr>) \<and> nodes k = fs \<and> \<not> locked (ref_lock (pages_ref k (f div PAGE_SIZE)))
    \<and> (\<forall>n. n \<noteq> f div PAGE_SIZE \<longrightarrow> pages_ref k n = pages_ref (km v) n)"
  using assms by (auto simp: alloc_page_def kalloc_page_def set_page_def init_spinlock_def Let_def)

lemma page_number_inj: "page_ok p \<Longrightarrow> page_ok q \<Longrightarrow> p div PAGE_SIZE = q div PAGE_SIZE \<Longrightarrow> p = q"
  unfolding page_ok_def by (metis dvd_div_mult_self)

lemma vm_ok_nodes:
  assumes "vm_ok p v" and "set ns \<subseteq> set (nodes (km v))" and "distinct ns" and "nodes k = ns"
  shows "vm_ok p (v\<lparr>km := k\<rparr>)"
  using assms by (auto simp: vm_ok_def tables_ok_def)

lemma vm_ok_pages: "vm_ok p v \<Longrightarrow> f \<in> set (nodes (km v)) \<Longrightarrow> page_ok f"
  by (simp add: vm_ok_def tables_ok_def)

lemma table_not_page:
  assumes "vm_ok p v" and "page_ok f" and "\<forall>js\<in>paths. walk (mem v) p js \<noteq> Some f" and "f \<le> x" and "x < f + PAGE_SIZE"
  shows "\<not> in_table p v x"
proof
  assume "in_table p v x"
  then obtain js q where q: "js \<in> paths" "walk (mem v) p js = Some q" "q \<le> x" "x < q + PAGE_SIZE" by (auto simp: in_table_def)
  then have "page_ok q" "q \<noteq> f" using assms(1,3) by (auto simp: vm_ok_def tables_ok_def)
  then show False using page_ok_apart [OF _ assms(2)] q(3,4) assms(4,5) by fastforce
qed

lemma free_not_table: "vm_ok p v \<Longrightarrow> f \<in> set (nodes (km v)) \<Longrightarrow> js \<in> paths \<Longrightarrow> walk (mem v) p js \<noteq> Some f"
  by (auto simp: vm_ok_def tables_ok_def)

lemma table_start: "js \<in> paths \<Longrightarrow> walk (mem v) p js = Some q \<Longrightarrow> in_table p v q"
  by (force simp: in_table_def)

lemma in_table_mem: "mem v = mem w \<Longrightarrow> in_table p v x = in_table p w x" by (simp add: in_table_def)

lemma walk_cong:
  assumes "\<And>js q i. js \<in> paths \<Longrightarrow> walk m p js = Some q \<Longrightarrow> i < 512 \<Longrightarrow> rd64 m' (q + 8 * i) = rd64 m (q + 8 * i)" and "is \<in> paths"
  shows "walk m' p is = walk m p is"
  using assms(2)
proof (induction "is" rule: rev_induct)
  case (snoc i "is")
  then show ?case using assms(1) pathsD [OF snoc.prems] by (auto simp: walk_snoc split: option.split)
qed simp

lemma rd64_in_table:
  assumes "\<forall>x. in_table p v x \<longrightarrow> m' x = mem v x" and "js \<in> paths" "walk (mem v) p js = Some q" "i < 512"
  shows "rd64 m' (q + 8 * i) = rd64 (mem v) (q + 8 * i)"
proof (rule rd64_cong)
  fix x
  assume "q + 8 * i \<le> x" "x < q + 8 * i + 8"
  then have "q \<le> x" "x < q + PAGE_SIZE" using assms(4) by simp_all
  then show "m' x = mem v x" using assms(1-3) unfolding in_table_def by blast
qed

lemma frame_walk:
  assumes "\<forall>x. in_table p v x \<longrightarrow> m' x = mem v x" and "is \<in> paths"
  shows "walk m' p is = walk (mem v) p is"
  using walk_cong [OF rd64_in_table [OF assms(1)] assms(2)] .

lemma frame_leaf:
  assumes "\<forall>x. in_table p v x \<longrightarrow> m' x = mem v x" and "is \<in> paths" and "l < 512"
  shows "leaf m' p is l = leaf (mem v) p is l"
  using frame_walk [OF assms(1,2)] rd64_in_table [OF assms(1,2) _ assms(3)] by (auto simp: leaf_def split: option.split)

lemma vm_ok_frame:
  assumes "vm_ok p v" and "\<forall>x. in_table p v x \<longrightarrow> m' x = mem v x"
  shows "vm_ok p (v\<lparr>mem := m'\<rparr>)"
  using assms(1) tables_ok_cong [OF _ frame_walk [OF assms(2)]] by (simp add: vm_ok_def)

lemma copy_page_bytes:
  assumes "i < PAGE_SIZE"
  shows "mem (copy_page dst src v) (dst + i) = mem v (src + i)"
  using assms by (simp add: copy_page_def store_bytes_def)

lemma copy_page_other: "x < dst \<or> dst + PAGE_SIZE \<le> x \<Longrightarrow> mem (copy_page dst src v) x = mem v x"
  by (auto simp: copy_page_def store_bytes_def)

lemma free_page_props:
  assumes "\<not> locked (ref_lock (pages_ref (km v) (p div PAGE_SIZE)))"
  shows "\<exists>k. free_page p v = Inr (v\<lparr>km := k\<rparr>) \<and> (nodes k = nodes (km v) \<or> nodes k = p # nodes (km v))
    \<and> (\<forall>n. n \<noteq> p div PAGE_SIZE \<longrightarrow> pages_ref k n = pages_ref (km v) n)"
  using assms by (auto simp: free_page_def kfree_page_def set_page_def Let_def)

lemma user_data_valid: "has_flag PTE_VALID (PTE_FLAGS (w OR PTE_USER_DATA))"
proof -
  have "bit ((PTE_FLAGS (w OR PTE_USER_DATA)) AND 1) 0" by (simp add: PTE_FLAGS_def bit_simps)
  then show ?thesis unfolding has_flag_def by (metis bit_0_eq bot_apply bot_bool_def)
qed

lemma bit_PTE_ADDRESS: "bit (PTE_ADDRESS e) n \<Longrightarrow> 12 \<le> n \<and> n < 48"
proof -
  assume "bit (PTE_ADDRESS e) n"
  then have b: "bit (e AND NOT (mask 12 OR push_bit 48 (mask 16))) n" unfolding PTE_ADDRESS_def address_mask bit_unsigned_iff by blast
  then have "n < 64" using bit_imp_le_length [of "e AND NOT (mask 12 OR push_bit 48 (mask 16))" n] by simp
  with b show "12 \<le> n \<and> n < 48"
    unfolding bit_and_iff bit_not_iff bit_or_iff bit_push_bit_iff bit_mask_iff by (simp add: possible_bit_def) linarith
qed

lemma page_ok_PTE_ADDRESS: "page_ok (PTE_ADDRESS e)"
proof -
  have "take_bit 12 (PTE_ADDRESS e) = 0"
    by (rule bit_eqI) (use bit_PTE_ADDRESS in \<open>force simp: bit_take_bit_iff\<close>)
  moreover have "take_bit 48 (PTE_ADDRESS e) = PTE_ADDRESS e"
    by (rule bit_eqI) (use bit_PTE_ADDRESS in \<open>auto simp: bit_take_bit_iff\<close>)
  then have "PTE_ADDRESS e < 2 ^ 48" by (metis take_bit_nat_less_exp)
  ultimately show ?thesis by (simp add: page_ok_def take_bit_eq_mod dvd_eq_mod_eq_0)
qed

lemma entry_at_present:
  assumes "pt d = Some p" and "walk (mem v) p (vpath va) = Some q"
  shows "entry_at d va v = rd64 (mem v) (q + 8 * VA_PART3 va)"
  using assms by (simp add: entry_at_leaf leaf_def)

lemma entry_at_grows: "pt d = Some p \<Longrightarrow> grows n p v w \<Longrightarrow> entry_at d va w = entry_at d va v"
  using vpath_props va_part_less(4) by (simp add: entry_at_leaf grows_def)

lemma resolve_fault_lazy:
  assumes d: "pt d = Some p" and ok: "vm_ok p v" and pg: "4 \<le> length (nodes (km v))" and e: "entry_at d addr v = 0"
  shows "\<exists>f v'. resolve_fault addr d v = Inr (d, v') \<and> f \<in> set (nodes (km v)) \<and> vm_ok p v'
    \<and> entry_at d addr v' = word_of_nat f OR PTE_USER_DATA
    \<and> (\<forall>va'. vpn va' \<noteq> vpn addr \<longrightarrow> entry_at d va' v' = entry_at d va' v)
    \<and> (\<forall>x. f \<le> x \<and> x < f + PAGE_SIZE \<longrightarrow> mem v' x = mem v x)"
proof -
  have "can_map p addr v" using pg by (simp add: can_map_def)
  then obtain q t where t: "get_pte d addr True v = Inr (Some (q + 8 * VA_PART3 addr), d, t)" "grows 3 p v t" "walk (mem t) p (vpath addr) = Some q"
    using get_pte_alloc [OF ok d] by blast
  have tok: "vm_ok p t" and "1 \<le> length (nodes (km t))" and sub: "set (nodes (km t)) \<subseteq> set (nodes (km v))"
    using t(2) pg by (auto simp: grows_def)
  then obtain f fs where fs: "nodes (km t) = f # fs" by (cases "nodes (km t)") auto
  obtain k where k: "alloc_page t = Inr (f, t\<lparr>km := k\<rparr>)" "nodes k = fs" "\<not> locked (ref_lock (pages_ref k (f div PAGE_SIZE)))"
    using alloc_page_takes [OF fs] by blast
  let ?t = "t\<lparr>km := k\<rparr>"
  have "distinct (f # fs)" using tok fs by (simp add: vm_ok_def)
  then have ok': "vm_ok p ?t" and nf: "f \<notin> set fs" using vm_ok_nodes [OF tok _ _ k(2)] fs by auto
  have fp: "page_ok f" "\<forall>g\<in>set fs. page_ok g" using vm_ok_pages [OF tok] fs by auto
  have "\<forall>g\<in>set (nodes (km ?t)). g div PAGE_SIZE \<noteq> f div PAGE_SIZE" using fp nf page_number_inj k(2) by auto
  moreover have "can_map p addr ?t" using t(3) by (simp add: can_map_def)
  moreover have lf: "\<not> locked (ref_lock (pages_ref (km ?t) (f div PAGE_SIZE)))" using k(3) by simp
  ultimately obtain u where u: "vmmap d addr f PTE_USER_DATA ?t = Inr (d, u)" "vm_ok p u"
      "entry_at d addr u = word_of_nat (PAGE_BASE f) OR PTE_USER_DATA"
      "\<forall>va'. vpn va' \<noteq> vpn addr \<longrightarrow> entry_at d va' u = entry_at d va' ?t" "\<forall>x. \<not> in_table p u x \<longrightarrow> mem u x = mem ?t x"
      "\<forall>x. in_table p u x \<longrightarrow> in_table p ?t x \<or> in_free ?t x" "\<forall>js\<in>paths. \<forall>q. walk (mem ?t) p js = Some q \<longrightarrow> walk (mem u) p js = Some q"
    using vmmap_spec [OF d ok' _ lf] by blast
  have b: "PAGE_BASE f = f" using fp(1) by (simp add: PAGE_BASE_def page_ok_def)
  have r0: "rd64 (mem t) (q + 8 * VA_PART3 addr) = 0" using e entry_at_present [OF d t(3)] entry_at_grows [OF d t(2)] by simp
  have "walk (mem u) p (vpath addr) = Some q" using u(7) t(3) vpath_props(1) by simp
  then have r1: "rd64 (mem u) (q + 8 * VA_PART3 addr) = word_of_nat f OR PTE_USER_DATA" using entry_at_present [OF d] u(3) b by simp
  have "resolve_fault addr d v = Inr (d, u)"
    using t(1) k(1) u(1) user_data_valid by (simp add: resolve_fault_def Let_def r0 r1)
  moreover have "mem u x = mem v x" if x: "f \<le> x" "x < f + PAGE_SIZE" for x
  proof -
    have nt: "\<not> in_table p t x" using table_not_page [OF tok fp(1) _ x] free_not_table [OF tok] fs by auto
    have "\<not> in_free ?t x"
    proof
      assume "in_free ?t x"
      then obtain g where g: "g \<in> set fs" "g \<le> x" "x < g + PAGE_SIZE" using k(2) by (auto simp: in_free_def)
      then show False using page_ok_apart [OF fp(1), of g] fp(2) nf x by fastforce
    qed
    then have "\<not> in_table p u x" using u(6) nt in_table_mem [of ?t t] by auto
    then show ?thesis using u(5) nt t(2) by (simp add: grows_def)
  qed
  moreover have "entry_at d va ?t = entry_at d va v" for va
    using entry_at_grows [OF d t(2)] by (simp add: entry_at_leaf [OF d])
  moreover have "f \<in> set (nodes (km v))" using fs sub by auto
  ultimately show ?thesis using u(2,3,4) unfolding b by metis
qed

lemma vm_ok_add_node:
  assumes "vm_ok p v" and "page_ok f" and "f \<notin> set (nodes (km v))" and "\<forall>js\<in>paths. walk (mem v) p js \<noteq> Some f"
    and "nodes k = nodes (km v) \<or> nodes k = f # nodes (km v)"
  shows "vm_ok p (v\<lparr>km := k\<rparr>)"
  using assms by (auto simp: vm_ok_def tables_ok_def)

lemma resolve_fault_cow:
  assumes d: "pt d = Some p" and ok: "vm_ok p v" and pg: "nodes (km v) \<noteq> []" and e: "entry_at d addr v \<noteq> 0"
    and ro: "has_flag PTE_RO (PTE_FLAGS (entry_at d addr v))" and old: "old = PTE_ADDRESS (entry_at d addr v)"
    and on: "old \<notin> set (nodes (km v))" "\<forall>js\<in>paths. walk (mem v) p js \<noteq> Some old"
    and lk: "\<not> locked (ref_lock (pages_ref (km v) (old div PAGE_SIZE)))"
  shows "\<exists>f v'. resolve_fault addr d v = Inr (d, v') \<and> f \<in> set (nodes (km v)) \<and> vm_ok p v'
    \<and> entry_at d addr v' = word_of_nat f OR PTE_USER_DATA
    \<and> (\<forall>va'. vpn va' \<noteq> vpn addr \<longrightarrow> entry_at d va' v' = entry_at d va' v)
    \<and> (\<forall>i<PAGE_SIZE. mem v' (f + i) = mem v (old + i))"
proof -
  obtain q where q: "walk (mem v) p (vpath addr) = Some q"
    using e by (cases "walk (mem v) p (vpath addr)") (auto simp: entry_at_leaf [OF d] leaf_def)
  note r0 = entry_at_present [OF d q]
  obtain f fs where fs: "nodes (km v) = f # fs" using pg by (cases "nodes (km v)") auto
  obtain k where k: "alloc_page v = Inr (f, v\<lparr>km := k\<rparr>)" "nodes k = fs" "\<not> locked (ref_lock (pages_ref k (f div PAGE_SIZE)))"
      "\<forall>n. n \<noteq> f div PAGE_SIZE \<longrightarrow> pages_ref k n = pages_ref (km v) n"
    using alloc_page_takes [OF fs] by blast
  have fp: "page_ok f" "\<forall>g\<in>set fs. page_ok g" and ft: "\<forall>js\<in>paths. walk (mem v) p js \<noteq> Some f"
    using vm_ok_pages [OF ok] free_not_table [OF ok] fs by auto
  have op: "page_ok old" unfolding old by (rule page_ok_PTE_ADDRESS)
  have fo: "f \<noteq> old" and nf: "f \<notin> set fs" "distinct fs" using on(1) fs ok by (auto simp: vm_ok_def)
  define w where "w = copy_page f old (v\<lparr>km := k\<rparr>)"
  have wm: "mem w x = mem v x" if "in_table p v x" for x
    using table_not_page [OF ok fp(1) ft, of x] that copy_page_other [of x f old] by (fastforce simp: w_def)
  have "vm_ok p (v\<lparr>km := k\<rparr>)" using vm_ok_nodes [OF ok _ nf(2) k(2)] fs by auto
  from vm_ok_frame [OF this, of "mem w"] have wok: "vm_ok p w"
    using wm in_table_mem [of "v\<lparr>km := k\<rparr>" v] by (simp add: w_def copy_page_def)
  have ww: "walk (mem w) p js = walk (mem v) p js" if "js \<in> paths" for js
    using frame_walk [of p v "mem w" js] wm that by blast
  have wl: "leaf (mem w) p js l = leaf (mem v) p js l" if "js \<in> paths" "l < 512" for js l
    using frame_leaf [of p v "mem w" js l] wm that by blast
  have wk: "km w = k" by (simp add: w_def copy_page_def)
  have "old div PAGE_SIZE \<noteq> f div PAGE_SIZE" using page_number_inj [OF op fp(1)] fo by blast
  then obtain k' where k': "free_page old w = Inr (w\<lparr>km := k'\<rparr>)" "nodes k' = fs \<or> nodes k' = old # fs"
      "pages_ref k' (f div PAGE_SIZE) = pages_ref k (f div PAGE_SIZE)"
    using free_page_props [of w old] lk k(2,4) unfolding wk by fastforce
  let ?t = "w\<lparr>km := k'\<rparr>"
  have ok': "vm_ok p ?t" using vm_ok_add_node [OF wok op] on ww k'(2) k(2) fs unfolding wk by auto
  have ng: "\<forall>g\<in>set (nodes (km ?t)). g div PAGE_SIZE \<noteq> f div PAGE_SIZE"
  proof
    fix g
    assume "g \<in> set (nodes (km ?t))"
    then have "page_ok g" "g \<noteq> f" using k'(2) fp op fo nf by auto
    then show "g div PAGE_SIZE \<noteq> f div PAGE_SIZE" using page_number_inj fp(1) by blast
  qed
  have wq: "walk (mem ?t) p (vpath addr) = Some q" using ww q vpath_props(1) by simp
  then have cm: "can_map p addr ?t" by (simp add: can_map_def)
  have lf: "\<not> locked (ref_lock (pages_ref (km ?t) (f div PAGE_SIZE)))" using k(3) k'(3) by simp
  obtain u where u: "vmmap d addr f PTE_USER_DATA ?t = Inr (d, u)" "vm_ok p u"
      "entry_at d addr u = word_of_nat (PAGE_BASE f) OR PTE_USER_DATA"
      "\<forall>va'. vpn va' \<noteq> vpn addr \<longrightarrow> entry_at d va' u = entry_at d va' ?t" "\<forall>x. \<not> in_table p u x \<longrightarrow> mem u x = mem ?t x"
      "\<forall>x. in_table p u x \<longrightarrow> in_table p ?t x \<or> in_free ?t x" "\<forall>js\<in>paths. \<forall>q. walk (mem ?t) p js = Some q \<longrightarrow> walk (mem u) p js = Some q"
    using vmmap_spec [OF d ok' cm lf ng] by blast
  have uq: "walk (mem u) p (vpath addr) = Some q" using u(7) wq vpath_props(1) by blast
  have b: "PAGE_BASE f = f" using fp(1) by (simp add: PAGE_BASE_def page_ok_def)
  have r1: "rd64 (mem u) (q + 8 * VA_PART3 addr) = word_of_nat f OR PTE_USER_DATA" using entry_at_present [OF d uq] u(3) b by simp
  have mk: "mem (v\<lparr>km := k\<rparr>) = mem v" by simp
  have "resolve_fault addr d v = Inr (d, u)"
    by (simp only: resolve_fault_def get_pte_present [OF d q] rbind_Inr prod.case option.case Let_def e ro if_False if_True k(1) mk
      old [symmetric] w_def [symmetric] k'(1) u(1) r1 user_data_valid flip: r0)
  moreover have "mem u (f + i) = mem v (old + i)" if i: "i < PAGE_SIZE" for i
  proof -
    have "\<not> in_table p ?t (f + i)" using table_not_page [OF ok' fp(1)] ft ww i by simp
    moreover have "\<not> in_free ?t (f + i)"
    proof
      assume "in_free ?t (f + i)"
      then obtain g where g': "g \<in> set (nodes k')" and g: "g \<le> f + i" "f + i < g + PAGE_SIZE" by (auto simp: in_free_def)
      have "g \<in> set fs \<or> g = old" using g' k'(2) by auto
      then show False using page_ok_apart [OF fp(1), of g] fp(2) op nf fo g i by fastforce
    qed
    ultimately have "mem u (f + i) = mem w (f + i)" using u(5,6) by auto
    then show ?thesis using copy_page_bytes [OF i, of f old "v\<lparr>km := k\<rparr>"] by (simp add: w_def)
  qed
  moreover have "entry_at d va ?t = entry_at d va v" for va
    using wl vpath_props(1) va_part_less(4) by (simp add: entry_at_leaf [OF d])
  moreover have "f \<in> set (nodes (km v))" using fs by auto
  ultimately show ?thesis using u(2,3,4) unfolding b by metis
qed

lemma pgfault_handler_resolves:
  assumes "pick_section (\<lambda>st. st_begin st \<le> addr \<and> addr < st_end st) (sections m) = Some i"
    and "st_begin (sections m ! i) \<le> addr" and "addr < st_end (sections m ! i)" and "\<not> has_flag ST_SWAP (flags (sections m ! i))"
    and "resolve_fault addr (pd m) (vm s) = Inr (pd m, v')"
  shows "pgfault_handler addr m s = Inr (m, s\<lparr>vm := v'\<rparr>)"
  using assms by (simp add: pgfault_handler_def Let_def swap_in_if_def on_vm_def)

lemma pick_section_find:
  "\<exists>st\<in>set sts. P st \<Longrightarrow> \<exists>i. pick_section P sts = Some i \<and> i < length sts \<and> P (sts ! i)"
  by (induction sts) (auto split: if_splits, (metis (no_types, lifting) Suc_less_eq nth_Cons_Suc option.map_disc_iff option.map_sel option.sel)?)

text \<open>The address lies in some section and no section is swapped out.\<close>

definition in_sections :: "64 word \<Rightarrow> mm \<Rightarrow> bool" where
  "in_sections addr m \<longleftrightarrow> (\<exists>st\<in>set (sections m). st_begin st \<le> addr \<and> addr < st_end st) \<and> (\<forall>st\<in>set (sections m). \<not> has_flag ST_SWAP (flags st))"

lemma pgfault_in_sections:
  assumes "in_sections addr m" and "resolve_fault addr (pd m) (vm s) = Inr (pd m, v')"
  shows "pgfault_handler addr m s = Inr (m, s\<lparr>vm := v'\<rparr>)"
proof -
  obtain i where "pick_section (\<lambda>st. st_begin st \<le> addr \<and> addr < st_end st) (sections m) = Some i" "i < length (sections m)"
    "st_begin (sections m ! i) \<le> addr \<and> addr < st_end (sections m ! i)"
    using assms(1) pick_section_find [of "sections m" "\<lambda>st. st_begin st \<le> addr \<and> addr < st_end st"] by (auto simp: in_sections_def)
  then show ?thesis using pgfault_handler_resolves [of addr m i s v'] assms by (auto simp: in_sections_def)
qed

text \<open>
  C26: a fault on an address of a section whose page has never been mapped: the handler succeeds, maps a page that was free with
  user access and changes no other mapping. The page is not cleared: the user reads what its previous owner left in it.
\<close>

theorem pgfault_lazy_allocation:
  assumes "in_sections addr m" and "pt (pd m) = Some p" and "vm_ok p (vm s)" and "4 \<le> length (nodes (km (vm s)))"
    and "entry_at (pd m) addr (vm s) = 0"
  shows "\<exists>f v'. pgfault_handler addr m s = Inr (m, s\<lparr>vm := v'\<rparr>) \<and> f \<in> set (nodes (km (vm s))) \<and> vm_ok p v'
    \<and> entry_at (pd m) addr v' = word_of_nat f OR PTE_USER_DATA
    \<and> (\<forall>va'. vpn va' \<noteq> vpn addr \<longrightarrow> entry_at (pd m) va' v' = entry_at (pd m) va' (vm s))
    \<and> (\<forall>x. f \<le> x \<and> x < f + PAGE_SIZE \<longrightarrow> mem v' x = mem (vm s) x)"
  using resolve_fault_lazy [OF assms(2-5)] pgfault_in_sections [OF assms(1)] by blast

definition demo_section :: section_t where
  "demo_section = \<lparr>st_addr = 0, flags = ST_HEAP, st_begin = 0x8000, st_end = 0xA000, st_sleeplock = init_sem 1, fp = None, st_offset = 0,
     st_length = 0, st_prot = 0\<rparr>"

definition demo_mm :: mm where
  "demo_mm = \<lparr>pd = demo_pgdir, sections = [demo_section]\<rparr>"

lemma demo_mm_in: "in_sections 0x8123 demo_mm" "pt (pd demo_mm) = Some 0x40001000"
  by (simp_all add: in_sections_def demo_mm_def demo_section_def demo_pgdir_def has_flag_def)

theorem pgfault_lazy_allocation_witness:
  "\<exists>f v'. pgfault_handler 0x8123 demo_mm \<lparr>vm = demo_vmem, fsys = demo_files\<rparr> = Inr (demo_mm, \<lparr>vm = v', fsys = demo_files\<rparr>)
     \<and> entry_at demo_pgdir 0x8123 v' = word_of_nat f OR PTE_USER_DATA"
proof -
  let ?s = "\<lparr>vm = demo_vmem, fsys = demo_files\<rparr>"
  have 1: "vm_ok 0x40001000 (vm ?s)" using demo_vmem_ok by simp
  have 2: "4 \<le> length (nodes (km (vm ?s)))" by (simp add: demo_vmem_def)
  have 3: "entry_at (pd demo_mm) 0x8123 (vm ?s) = 0"
    by (simp add: entry_at_leaf [OF demo_mm_in(2)] leaf_def demo_vmem_def vpath_def rd64_def)
  show ?thesis using pgfault_lazy_allocation [OF demo_mm_in 1 2 3] by (auto simp: demo_mm_def)
qed

text \<open>
  C9: a fault on a read-only page of a section (copy on write): the handler succeeds, gives the address a fresh writable page with the same
  contents, changes no other mapping and drops one reference to the old page. The old page must be neither free nor a table.
\<close>

theorem pgfault_copy_on_write:
  assumes "in_sections addr m" and "pt (pd m) = Some p" and "vm_ok p (vm s)" and "nodes (km (vm s)) \<noteq> []"
    and "entry_at (pd m) addr (vm s) \<noteq> 0" and "has_flag PTE_RO (PTE_FLAGS (entry_at (pd m) addr (vm s)))"
    and "old = PTE_ADDRESS (entry_at (pd m) addr (vm s))" and "old \<notin> set (nodes (km (vm s)))"
    and "\<forall>js\<in>paths. walk (mem (vm s)) p js \<noteq> Some old" and "\<not> locked (ref_lock (pages_ref (km (vm s)) (old div PAGE_SIZE)))"
  shows "\<exists>f v'. pgfault_handler addr m s = Inr (m, s\<lparr>vm := v'\<rparr>) \<and> f \<in> set (nodes (km (vm s))) \<and> vm_ok p v'
    \<and> entry_at (pd m) addr v' = word_of_nat f OR PTE_USER_DATA
    \<and> (\<forall>va'. vpn va' \<noteq> vpn addr \<longrightarrow> entry_at (pd m) va' v' = entry_at (pd m) va' (vm s))
    \<and> (\<forall>i<PAGE_SIZE. mem v' (f + i) = mem (vm s) (old + i))"
  using resolve_fault_cow [OF assms(2-10)] pgfault_in_sections [OF assms(1)] by blast

theorem pgfault_copy_on_write_witness:
  "\<exists>v f v'. vmmap demo_pgdir 0x8000 0x40009000 (PTE_USER_DATA OR PTE_RO) demo_vmem = Inr (demo_pgdir, v)
     \<and> pgfault_handler 0x8123 demo_mm \<lparr>vm = v, fsys = demo_files\<rparr> = Inr (demo_mm, \<lparr>vm = v', fsys = demo_files\<rparr>)
     \<and> entry_at demo_pgdir 0x8123 v' = word_of_nat f OR PTE_USER_DATA \<and> (\<forall>i<PAGE_SIZE. mem v' (f + i) = mem v (0x40009000 + i))"
proof -
  let ?e = "word_of_nat 0x40009000 OR (PTE_USER_DATA OR PTE_RO) :: 64 word"
  have lk: "\<not> locked (ref_lock (pages_ref (km demo_vmem) n))" for n by (simp add: demo_vmem_def demo_kmem_def)
  have pg: "can_map 0x40001000 0x8000 demo_vmem" by (simp add: can_map_def demo_vmem_def)
  have ka: "\<forall>f\<in>set (nodes (km demo_vmem)). f div PAGE_SIZE \<noteq> 0x40009000 div PAGE_SIZE" by (simp add: demo_vmem_def)
  have pd: "pt demo_pgdir = Some 0x40001000" by (simp add: demo_pgdir_def)
  obtain v where v: "vmmap demo_pgdir 0x8000 0x40009000 (PTE_USER_DATA OR PTE_RO) demo_vmem = Inr (demo_pgdir, v)" "vm_ok 0x40001000 v"
      "entry_at demo_pgdir 0x8000 v = word_of_nat (PAGE_BASE 0x40009000) OR (PTE_USER_DATA OR PTE_RO)"
      "\<forall>x. in_table 0x40001000 v x \<longrightarrow> in_table 0x40001000 demo_vmem x \<or> in_free demo_vmem x" "set (nodes (km v)) \<subseteq> set (nodes (km demo_vmem))"
      "length (nodes (km demo_vmem)) \<le> length (nodes (km v)) + 3" "\<not> locked (ref_lock (pages_ref (km v) (0x40009000 div PAGE_SIZE)))"
    using vmmap_spec [OF pd demo_vmem_ok pg lk ka] by blast
  let ?s = "\<lparr>vm = v, fsys = demo_files\<rparr>"
  have ok: "vm_ok 0x40001000 (vm ?s)" using v(2) by simp
  have ne: "nodes (km (vm ?s)) \<noteq> []" using v(6) by (auto simp: demo_vmem_def)
  have "vpath 0x8123 = vpath 0x8000" "VA_PART3 0x8123 = VA_PART3 0x8000"
    by (simp_all add: vpath_def VA_PART0_def VA_PART1_def VA_PART2_def VA_PART3_def)
  then have "entry_at demo_pgdir 0x8123 v = entry_at demo_pgdir 0x8000 v" by (simp only: entry_at_leaf [OF pd])
  then have e: "entry_at (pd demo_mm) 0x8123 (vm ?s) = 0x400096C7" using v(3) by (simp add: demo_mm_def PAGE_BASE_def)
  have e0: "entry_at (pd demo_mm) 0x8123 (vm ?s) \<noteq> 0" unfolding e by simp
  have ro: "has_flag PTE_RO (PTE_FLAGS (entry_at (pd demo_mm) 0x8123 (vm ?s)))" unfolding e by (simp add: has_flag_def PTE_FLAGS_def)
  have old: "0x40009000 = PTE_ADDRESS (entry_at (pd demo_mm) 0x8123 (vm ?s))" unfolding e by (simp add: PTE_ADDRESS_def)
  have on: "0x40009000 \<notin> set (nodes (km (vm ?s)))" using v(5) by (auto simp: demo_vmem_def)
  have "\<not> in_free demo_vmem 0x40009000" by (simp add: in_free_def demo_vmem_def)
  then have "\<not> in_table 0x40001000 v 0x40009000" using v(4) demo_vmem_table [of "0x40009000"] by auto
  then have ot: "\<forall>js\<in>paths. walk (mem (vm ?s)) 0x40001000 js \<noteq> Some 0x40009000" using table_start by auto
  have lo: "\<not> locked (ref_lock (pages_ref (km (vm ?s)) (0x40009000 div PAGE_SIZE)))" using v(7) by simp
  show ?thesis using v(1) pgfault_copy_on_write [OF demo_mm_in ok ne e0 ro old on ot lo] by (auto simp: demo_mm_def)
qed

end
