(* ===== verification/Rbtree.thy ===== *)
theory Rbtree
  imports Prelude
begin

text \<open>
  Red-black trees (\<^verbatim>\<open>common/rbtree.c\<close>, \<^verbatim>\<open>common/rbtree.h\<close>).

  A node is its address; \<^verbatim>\<open>__rb_parent_color\<close>, which packs the address of the parent with the colour in its lowest bit, is the pair of fields
  \<open>rb_par\<close> and \<open>rb_black\<close> (addresses are multiples of 8). \<^verbatim>\<open>rb_red_parent\<close>, which takes the whole word as the parent's address, is only applied to
  red nodes, where it is the parent. Following a null pointer is a \<open>Fault\<close>. The insertion and deletion loops have two branches that are each
  other's mirror image; here they are one definition with the side as an argument, \<open>True\<close> for the branch written first. The
  loops are partial functions, \<open>None\<close> when they run forever on a cyclic heap.
\<close>

record rbnode =
  rb_par :: nat
  rb_black :: bool
  rb_left :: nat
  rb_right :: nat

record rbtree =
  heap :: "nat \<Rightarrow> rbnode"
  root :: nat

section \<open>Accessors\<close>

definition upd :: "nat \<Rightarrow> (rbnode \<Rightarrow> rbnode) \<Rightarrow> rbtree \<Rightarrow> rbtree" where
  "upd p f s = s\<lparr>heap := (heap s)(p := f (heap s p))\<rparr>"

definition is_red :: "rbtree \<Rightarrow> nat \<Rightarrow> bool" where
  "is_red s p \<longleftrightarrow> \<not> rb_black (heap s p)"

definition rb_set_black :: "nat \<Rightarrow> rbtree \<Rightarrow> rbtree" where
  "rb_set_black p = upd p (\<lambda>n. n\<lparr>rb_black := True\<rparr>)"

definition rb_set_parent :: "nat \<Rightarrow> nat \<Rightarrow> rbtree \<Rightarrow> rbtree" where
  "rb_set_parent p q = upd p (\<lambda>n. n\<lparr>rb_par := q\<rparr>)"

definition rb_set_parent_color :: "nat \<Rightarrow> nat \<Rightarrow> bool \<Rightarrow> rbtree \<Rightarrow> rbtree" where
  "rb_set_parent_color p q c = upd p (\<lambda>n. n\<lparr>rb_par := q, rb_black := c\<rparr>)"

definition set_parent_color_if :: "nat \<Rightarrow> nat \<Rightarrow> bool \<Rightarrow> rbtree \<Rightarrow> rbtree" where
  "set_parent_color_if p q c s = (if p \<noteq> 0 then rb_set_parent_color p q c s else s)"

text \<open>The child on a side, \<open>True\<close> for left.\<close>

definition child :: "bool \<Rightarrow> rbnode \<Rightarrow> nat" where
  "child d n = (if d then rb_left n else rb_right n)"

definition set_child :: "bool \<Rightarrow> nat \<Rightarrow> rbnode \<Rightarrow> rbnode" where
  "set_child d x n = (if d then n\<lparr>rb_left := x\<rparr> else n\<lparr>rb_right := x\<rparr>)"

definition rb_change_child :: "nat \<Rightarrow> nat \<Rightarrow> nat \<Rightarrow> rbtree \<Rightarrow> rbtree" where
  "rb_change_child old new parent s =
     (if parent \<noteq> 0
      then if rb_left (heap s parent) = old then upd parent (\<lambda>n. n\<lparr>rb_left := new\<rparr>) s
           else upd parent (\<lambda>n. n\<lparr>rb_right := new\<rparr>) s
      else s\<lparr>root := new\<rparr>)"

definition rb_rotate_set_parents :: "nat \<Rightarrow> nat \<Rightarrow> bool \<Rightarrow> rbtree \<Rightarrow> rbtree" where
  "rb_rotate_set_parents old new color s =
     (let parent = rb_par (heap s old);
          s = rb_set_parent_color new (rb_par (heap s old)) (rb_black (heap s old)) s;
          s = rb_set_parent_color old new color s
      in rb_change_child old new parent s)"

section \<open>Insertion\<close>

text \<open>Cases 2 and 3: the parent is the child of \<open>gparent\<close> on side \<open>d\<close> and the uncle is black.\<close>

definition rb_insert_rotate :: "bool \<Rightarrow> nat \<Rightarrow> nat \<Rightarrow> nat \<Rightarrow> rbtree \<Rightarrow> rbtree" where
  "rb_insert_rotate d node parent gparent s =
     (let tmp = child (\<not> d) (heap s parent);
          (parent, tmp, s) =
            (if node = tmp
             then let tmp = child d (heap s node);
                      s = upd parent (set_child (\<not> d) tmp) s;
                      s = set_parent_color_if tmp parent True s;
                      s = upd node (set_child d parent) s;
                      s = rb_set_parent_color parent node False s
                  in (node, child (\<not> d) (heap s node), s)
             else (parent, tmp, s));
          s = upd gparent (set_child d tmp) s;
          s = set_parent_color_if tmp gparent True s;
          s = upd parent (set_child (\<not> d) gparent) s
      in rb_rotate_set_parents gparent parent False s)"

text \<open>Case 1: the uncle \<open>tmp\<close> is red.\<close>

definition rb_insert_recolor :: "nat \<Rightarrow> nat \<Rightarrow> nat \<Rightarrow> rbtree \<Rightarrow> rbtree" where
  "rb_insert_recolor tmp parent gparent s =
     (let s = rb_set_parent_color tmp gparent True s;
          s = rb_set_parent_color parent gparent True s
      in rb_set_parent_color gparent (rb_par (heap s gparent)) False s)"

partial_function (option) rb_insert_loop :: "nat \<Rightarrow> nat \<Rightarrow> rbtree \<Rightarrow> rbtree res option" where
  "rb_insert_loop node parent s =
     (if parent = 0 then Some (Inr ((rb_set_parent_color node 0 True s)\<lparr>root := node\<rparr>))
      else if rb_black (heap s parent) then Some (Inr s)
      else let gparent = rb_par (heap s parent)
           in if gparent = 0 then Some (Inl Fault)
              else let d = (parent \<noteq> rb_right (heap s gparent));
                       tmp = child (\<not> d) (heap s gparent)
                   in if tmp \<noteq> 0 \<and> is_red s tmp
                      then let s = rb_insert_recolor tmp parent gparent s
                           in rb_insert_loop gparent (rb_par (heap s gparent)) s
                      else Some (Inr (rb_insert_rotate d node parent gparent s)))"

definition rb_insert_fix :: "nat \<Rightarrow> rbtree \<Rightarrow> rbtree res option" where
  "rb_insert_fix node s = rb_insert_loop node (rb_par (heap s node)) s"

text \<open>The search of \<^verbatim>\<open>_rb_insert\<close> from \<open>nw\<close>; it links the new node below the last node visited. \<open>None\<close> inside is the return value \<open>-1\<close>.\<close>

partial_function (option) rb_descend :: "(nat \<Rightarrow> nat \<Rightarrow> bool) \<Rightarrow> nat \<Rightarrow> nat \<Rightarrow> rbtree \<Rightarrow> rbtree option option" where
  "rb_descend cmp node nw s =
     (if nw = 0 then Some (Some s)
      else if cmp node nw
        then (let c = rb_left (heap s nw)
              in if c = 0
                 then Some (Some (upd node (\<lambda>n. n\<lparr>rb_par := nw, rb_black := False\<rparr>) (upd nw (\<lambda>n. n\<lparr>rb_left := node\<rparr>) s)))
                 else rb_descend cmp node c s)
      else if cmp nw node
        then (let c = rb_right (heap s nw)
              in if c = 0
                 then Some (Some (upd node (\<lambda>n. n\<lparr>rb_par := nw, rb_black := False\<rparr>) (upd nw (\<lambda>n. n\<lparr>rb_right := node\<rparr>) s)))
                 else rb_descend cmp node c s)
      else Some None)"

definition rb_insert :: "nat \<Rightarrow> (nat \<Rightarrow> nat \<Rightarrow> bool) \<Rightarrow> rbtree \<Rightarrow> (int \<times> rbtree) res option" where
  "rb_insert node cmp s =
     (let nw = root s;
          s = upd node (\<lambda>n. \<lparr>rb_par = 0, rb_black = False, rb_left = 0, rb_right = 0\<rparr>) s
      in case rb_descend cmp node nw s of
           None \<Rightarrow> None
         | Some None \<Rightarrow> Some (Inr (-1, s))
         | Some (Some s) \<Rightarrow> map_option (map_sum id (Pair 0)) (rb_insert_fix node s))"

section \<open>Deletion\<close>

text \<open>The \<^verbatim>\<open>do\<close> loop that finds the successor: it returns the successor and its parent.\<close>

partial_function (option) rb_successor :: "nat \<Rightarrow> nat \<Rightarrow> nat \<Rightarrow> rbtree \<Rightarrow> (nat \<times> nat) option" where
  "rb_successor successor tmp parent s =
     (let parent = successor; successor = tmp; tmp = rb_left (heap s tmp)
      in if tmp \<noteq> 0 then rb_successor successor tmp parent s else Some (successor, parent))"

text \<open>\<^verbatim>\<open>__rb_erase\<close>: the node to rebalance from, 0 for none.\<close>

definition rb_unlink :: "nat \<Rightarrow> rbtree \<Rightarrow> (nat \<times> rbtree) option" where
  "rb_unlink node s =
     (let chd = rb_right (heap s node); tmp = rb_left (heap s node)
      in if tmp = 0 then
           let pc = heap s node; parent = rb_par pc;
               s = rb_change_child node chd parent s
           in if chd \<noteq> 0 then Some (0, rb_set_parent_color chd (rb_par pc) (rb_black pc) s)
              else Some (if rb_black pc then parent else 0, s)
         else if chd = 0 then
           let pc = heap s node; parent = rb_par pc;
               s = rb_set_parent_color tmp (rb_par pc) (rb_black pc) s
           in Some (0, rb_change_child node tmp parent s)
         else
           map_option (\<lambda>(successor, parent, child2, s).
             let tmp = rb_left (heap s node);
                 s = upd successor (\<lambda>n. n\<lparr>rb_left := tmp\<rparr>) s;
                 s = rb_set_parent tmp successor s;
                 pc = heap s node;
                 s = rb_change_child node successor (rb_par pc) s
             in if child2 \<noteq> 0
                then (0, rb_set_parent_color child2 parent True (rb_set_parent_color successor (rb_par pc) (rb_black pc) s))
                else let pc2 = heap s successor
                     in (if rb_black pc2 then parent else 0, rb_set_parent_color successor (rb_par pc) (rb_black pc) s))
           (let tmp = rb_left (heap s chd)
            in if tmp = 0 then Some (chd, chd, rb_right (heap s chd), s)
               else map_option (\<lambda>(successor, parent).
                 let child2 = rb_right (heap s successor);
                     s = upd parent (\<lambda>n. n\<lparr>rb_left := child2\<rparr>) s;
                     s = upd successor (\<lambda>n. n\<lparr>rb_right := chd\<rparr>) s;
                     s = rb_set_parent chd successor s
                 in (successor, parent, child2, s)) (rb_successor chd tmp 0 s)))"

text \<open>The final rotation of both branches of \<^verbatim>\<open>__rb_erase_fix\<close>, and its case 3; the sibling is on side \<open>d\<close>'s other side.\<close>

definition rb_erase_rotate :: "bool \<Rightarrow> nat \<Rightarrow> nat \<Rightarrow> nat \<Rightarrow> rbtree \<Rightarrow> rbtree" where
  "rb_erase_rotate d parent sibling tmp1 s =
     (let tmp2 = child d (heap s sibling);
          s = upd parent (set_child (\<not> d) tmp2) s;
          s = (if tmp2 \<noteq> 0 then rb_set_parent tmp2 parent s else s);
          s = upd sibling (set_child d parent) s;
          s = rb_set_parent_color tmp1 sibling True s
      in rb_rotate_set_parents parent sibling True s)"

definition rb_erase_case3 :: "bool \<Rightarrow> nat \<Rightarrow> nat \<Rightarrow> nat \<Rightarrow> rbtree \<Rightarrow> rbtree" where
  "rb_erase_case3 d parent sibling tmp2 s =
     (let tmp1 = child (\<not> d) (heap s tmp2);
          s = upd sibling (set_child d tmp1) s;
          s = set_parent_color_if tmp1 sibling True s;
          s = upd tmp2 (set_child (\<not> d) sibling) s
      in upd parent (set_child (\<not> d) tmp2) s)"

definition rb_erase_case1 :: "bool \<Rightarrow> nat \<Rightarrow> nat \<Rightarrow> rbtree \<Rightarrow> (nat \<times> rbtree) res" where
  "rb_erase_case1 d parent sibling s =
     (let tmp1 = child d (heap s sibling);
          s = upd parent (set_child (\<not> d) tmp1) s
      in if tmp1 = 0 then Inl Fault
         else let s = rb_set_parent_color tmp1 parent True s;
                  s = upd sibling (set_child d parent) s
              in Inr (tmp1, rb_rotate_set_parents parent sibling False s))"

partial_function (option) rb_erase_loop :: "nat \<Rightarrow> nat \<Rightarrow> rbtree \<Rightarrow> rbtree res option" where
  "rb_erase_loop node parent s =
     (let d = (node \<noteq> rb_right (heap s parent));
          sibling = child (\<not> d) (heap s parent)
      in if sibling = 0 then Some (Inl Fault)
         else case (if is_red s sibling then rb_erase_case1 d parent sibling s else Inr (sibling, s)) of
           Inl e \<Rightarrow> Some (Inl e)
         | Inr (sibling, s) \<Rightarrow>
             let tmp1 = child (\<not> d) (heap s sibling)
             in if tmp1 = 0 \<or> \<not> is_red s tmp1
                then let tmp2 = child d (heap s sibling)
                     in if tmp2 = 0 \<or> \<not> is_red s tmp2
                        then let s = rb_set_parent_color sibling parent False s
                             in if is_red s parent then Some (Inr (rb_set_black parent s))
                                else if rb_par (heap s parent) \<noteq> 0 then rb_erase_loop parent (rb_par (heap s parent)) s
                                else Some (Inr s)
                        else Some (Inr (rb_erase_rotate d parent tmp2 sibling (rb_erase_case3 d parent sibling tmp2 s)))
                else Some (Inr (rb_erase_rotate d parent sibling tmp1 s)))"

definition rb_erase :: "nat \<Rightarrow> rbtree \<Rightarrow> rbtree res option" where
  "rb_erase node s =
     (case rb_unlink node s of
        None \<Rightarrow> None
      | Some (rebalance, s) \<Rightarrow> if rebalance \<noteq> 0 then rb_erase_loop 0 rebalance s else Some (Inr s))"

section \<open>Queries\<close>

partial_function (option) rb_lookup_from :: "(nat \<Rightarrow> nat \<Rightarrow> bool) \<Rightarrow> nat \<Rightarrow> nat \<Rightarrow> rbtree \<Rightarrow> nat option" where
  "rb_lookup_from cmp node nw s =
     (if nw = 0 then Some 0
      else if cmp node nw then rb_lookup_from cmp node (rb_left (heap s nw)) s
      else if cmp nw node then rb_lookup_from cmp node (rb_right (heap s nw)) s
      else Some nw)"

definition rb_lookup :: "nat \<Rightarrow> (nat \<Rightarrow> nat \<Rightarrow> bool) \<Rightarrow> rbtree \<Rightarrow> nat option" where
  "rb_lookup node cmp s = rb_lookup_from cmp node (root s) s"

partial_function (option) rb_leftmost :: "nat \<Rightarrow> rbtree \<Rightarrow> nat option" where
  "rb_leftmost n s = (if rb_left (heap s n) \<noteq> 0 then rb_leftmost (rb_left (heap s n)) s else Some n)"

definition rb_first :: "rbtree \<Rightarrow> nat option" where
  "rb_first s = (if root s = 0 then Some 0 else rb_leftmost (root s) s)"

section \<open>Trees in the heap\<close>

datatype rbt = Lf | Nd rbt nat bool rbt

primrec nodes_of :: "rbt \<Rightarrow> nat list" where
  "nodes_of Lf = []"
| "nodes_of (Nd l a c r) = nodes_of l @ a # nodes_of r"

primrec rep :: "(nat \<Rightarrow> rbnode) \<Rightarrow> nat \<Rightarrow> nat \<Rightarrow> rbt \<Rightarrow> bool" where
  "rep h q p Lf \<longleftrightarrow> p = 0"
| "rep h q p (Nd l a c r) \<longleftrightarrow> p = a \<and> a \<noteq> 0 \<and> rb_par (h a) = q \<and> rb_black (h a) = c \<and> rep h a (rb_left (h a)) l \<and> rep h a (rb_right (h a)) r"

definition rb_rep :: "rbtree \<Rightarrow> rbt \<Rightarrow> bool" where
  "rb_rep s t \<longleftrightarrow> rep (heap s) 0 (root s) t \<and> distinct (nodes_of t)"

text \<open>A node with the subtree of side \<open>d\<close> first, and a path to the root: each frame has the side of the hole, the node, its colour and the other subtree.\<close>

definition mk :: "bool \<Rightarrow> nat \<Rightarrow> bool \<Rightarrow> rbt \<Rightarrow> rbt \<Rightarrow> rbt" where
  "mk d a c t u = (if d then Nd t a c u else Nd u a c t)"

datatype frame = Fr bool nat bool rbt

fun cpar :: "frame list \<Rightarrow> nat" where
  "cpar [] = 0"
| "cpar (Fr d a c u # ctx) = a"

fun ctx_nodes :: "frame list \<Rightarrow> nat list" where
  "ctx_nodes [] = []"
| "ctx_nodes (Fr d a c u # ctx) = a # nodes_of u @ ctx_nodes ctx"

fun repz :: "(nat \<Rightarrow> rbnode) \<Rightarrow> nat \<Rightarrow> nat \<Rightarrow> frame list \<Rightarrow> bool" where
  "repz h rt p [] \<longleftrightarrow> rt = p"
| "repz h rt p (Fr d a c u # ctx) \<longleftrightarrow> a \<noteq> 0 \<and> child d (h a) = p \<and> rb_black (h a) = c \<and> rb_par (h a) = cpar ctx
     \<and> rep h a (child (\<not> d) (h a)) u \<and> repz h rt a ctx"

fun plug :: "frame list \<Rightarrow> rbt \<Rightarrow> rbt" where
  "plug [] t = t"
| "plug (Fr d a c u # ctx) t = plug ctx (mk d a c t u)"

definition zrep :: "rbtree \<Rightarrow> nat \<Rightarrow> rbt \<Rightarrow> frame list \<Rightarrow> bool" where
  "zrep s p t ctx \<longleftrightarrow> rep (heap s) (cpar ctx) p t \<and> repz (heap s) (root s) p ctx \<and> distinct (nodes_of t @ ctx_nodes ctx)"

lemma rep_upd [simp]: "a \<notin> set (nodes_of t) \<Longrightarrow> rep (h(a := x)) q p t = rep h q p t"
  by (induction t arbitrary: q p) auto

lemma repz_upd [simp]: "a \<notin> set (ctx_nodes ctx) \<Longrightarrow> repz (h(a := x)) rt p ctx = repz h rt p ctx"
  by (induction ctx arbitrary: p rule: ctx_nodes.induct) auto

lemma rep_mk: "rep h q p (mk d a c t u) \<longleftrightarrow> p = a \<and> a \<noteq> 0 \<and> rb_par (h a) = q \<and> rb_black (h a) = c
    \<and> rep h a (child d (h a)) t \<and> rep h a (child (\<not> d) (h a)) u"
  by (auto simp: mk_def child_def)

lemma set_nodes_mk [simp]: "set (nodes_of (mk d a c t u)) = insert a (set (nodes_of t) \<union> set (nodes_of u))"
  by (auto simp: mk_def)

lemma distinct_mk [simp]: "distinct (nodes_of (mk d a c t u)) \<longleftrightarrow>
    a \<notin> set (nodes_of t) \<and> a \<notin> set (nodes_of u) \<and> distinct (nodes_of t) \<and> distinct (nodes_of u) \<and> set (nodes_of t) \<inter> set (nodes_of u) = {}"
  by (auto simp: mk_def)

lemma rep_nz: "rep h q p t \<Longrightarrow> 0 \<notin> set (nodes_of t)"
  by (induction t arbitrary: q p) auto

lemma repz_nz: "repz h rt p ctx \<Longrightarrow> 0 \<notin> set (ctx_nodes ctx)"
  by (induction ctx arbitrary: p rule: ctx_nodes.induct) (auto dest: rep_nz)

lemma rep_root: "rep h q p t \<Longrightarrow> (p = 0 \<longleftrightarrow> t = Lf) \<and> (p \<noteq> 0 \<longrightarrow> p \<in> set (nodes_of t))"
  by (cases t) auto

lemma zrep_cons: "zrep s p t (Fr d a c u # ctx) \<longleftrightarrow> zrep s a (mk d a c t u) ctx \<and> child d (heap s a) = p"
  by (auto simp: zrep_def rep_mk)

lemma zrep_plug: "zrep s p t ctx \<Longrightarrow> rb_rep s (plug ctx t)"
proof (induction ctx arbitrary: p t rule: ctx_nodes.induct)
  case 1
  then show ?case by (simp add: zrep_def rb_rep_def)
next
  case (2 d a c u ctx)
  then show ?case using zrep_cons by auto
qed

lemma nodes_plug: "\<exists>xs ys. \<forall>t. nodes_of (plug ctx t) = xs @ nodes_of t @ ys"
proof (induction ctx rule: ctx_nodes.induct)
  case 1
  then show ?case by (auto intro: exI [of _ "[]"])
next
  case (2 d a c u ctx)
  then obtain xs ys where "\<forall>t. nodes_of (plug ctx t) = xs @ nodes_of t @ ys" by blast
  then show ?case
    by (cases d) (auto simp: mk_def intro: exI [of _ xs] exI [of _ "a # nodes_of u @ ys"], metis append.assoc append_Cons append_Nil)
qed

section \<open>Insertion on trees\<close>

fun paint :: "bool \<Rightarrow> rbt \<Rightarrow> rbt" where
  "paint c Lf = Lf"
| "paint c (Nd l a _ r) = Nd l a c r"

fun red :: "rbt \<Rightarrow> bool" where
  "red Lf = False"
| "red (Nd l a c r) = (\<not> c)"

text \<open>The children of a node on a given side and on the other.\<close>

fun sub :: "bool \<Rightarrow> rbt \<Rightarrow> rbt" where
  "sub d Lf = Lf"
| "sub d (Nd l a c r) = (if d then l else r)"

fun topn :: "rbt \<Rightarrow> nat" where
  "topn Lf = 0"
| "topn (Nd l a c r) = a"

fun fixup :: "rbt \<Rightarrow> frame list \<Rightarrow> rbt option" where
  "fixup t [] = Some (paint True t)"
| "fixup t (Fr e p True u # ctx) = Some (plug (Fr e p True u # ctx) t)"
| "fixup t [Fr e p False u] = None"
| "fixup t (Fr e p False s # Fr d g gc u # ctx) =
     (if red u then fixup (mk d g False (mk e p True t s) (paint True u)) ctx
      else if e = d then Some (plug ctx (mk d p gc t (mk d g False (paint True s) u)))
      else Some (plug ctx (mk d (topn t) gc (mk d p False s (paint True (sub d t))) (mk d g False (paint True (sub (\<not> d) t)) u))))"

section \<open>The insertion loop on the heap\<close>

lemma change_child_rep:
  assumes "q \<notin> set (nodes_of t)"
  shows "rep (heap (rb_change_child old new q s)) r p t = rep (heap s) r p t"
  using assms by (simp add: rb_change_child_def upd_def)

lemma change_child_repz:
  assumes "repz (heap s) (root s) old ctx" and "old \<noteq> 0" and "old \<notin> set (ctx_nodes ctx)" and "distinct (ctx_nodes ctx)"
  shows "repz (heap (rb_change_child old new (cpar ctx) s)) (root (rb_change_child old new (cpar ctx) s)) new ctx"
proof (cases ctx)
  case Nil
  then show ?thesis by (simp add: rb_change_child_def)
next
  case (Cons f ctx')
  obtain d a c u where f: "f = Fr d a c u" by (cases f) auto
  have "rb_left (heap s a) = old \<longleftrightarrow> d"
    using assms(1-3) rep_root [of "heap s" a "rb_left (heap s a)" u] unfolding Cons f by (cases d) (auto simp: child_def)
  then show ?thesis using assms unfolding Cons f by (cases d) (auto simp: rb_change_child_def upd_def child_def)
qed

lemma cpar_in: "ctx \<noteq> [] \<Longrightarrow> cpar ctx \<in> set (ctx_nodes ctx)"
  by (cases ctx rule: ctx_nodes.cases) auto

lemma rotate_finish:
  assumes z: "repz (heap s) (root s) g ctx" and g: "g \<noteq> 0" "g \<in> set (nodes_of T)" and x: "g \<noteq> x" "x \<in> set (nodes_of T)"
    and par: "rb_par (heap s g) = cpar ctx" and d: "distinct (nodes_of T @ ctx_nodes ctx)"
    and r: "rep ((heap s)(x := (heap s x)\<lparr>rb_par := cpar ctx, rb_black := rb_black (heap s g)\<rparr>, g := (heap s g)\<lparr>rb_par := x, rb_black := c\<rparr>)) (cpar ctx) x T"
  shows "zrep (rb_rotate_set_parents g x c s) x T ctx"
proof -
  let ?h = "(heap s)(x := (heap s x)\<lparr>rb_par := cpar ctx, rb_black := rb_black (heap s g)\<rparr>, g := (heap s g)\<lparr>rb_par := x, rb_black := c\<rparr>)"
  let ?t = "s\<lparr>heap := ?h\<rparr>"
  have e: "rb_rotate_set_parents g x c s = rb_change_child g x (cpar ctx) ?t"
    using x(1) by (simp add: rb_rotate_set_parents_def rb_set_parent_color_def upd_def Let_def par)
  have nin: "x \<notin> set (ctx_nodes ctx)" "g \<notin> set (ctx_nodes ctx)" using d g x by auto
  then have "repz (heap ?t) (root ?t) g ctx" using z by simp
  moreover have "cpar ctx \<notin> set (nodes_of T)"
    using cpar_in [of ctx] d rep_nz [OF r] by (cases "ctx = []") auto
  ultimately show ?thesis using change_child_repz [of ?t g ctx x] change_child_rep [of "cpar ctx" T g x ?t] nin d r g(1)
    by (auto simp: zrep_def e)
qed

lemma recolor_rep:
  assumes "zrep s n t (Fr e p False b # Fr d g gc u # ctx)" and "red u"
  shows "zrep (rb_insert_recolor (topn u) p g s) g (mk d g False (mk e p True t b) (paint True u)) ctx"
proof -
  obtain ul a ur where u: "u = Nd ul a False ur" using assms(2) by (cases u) auto
  show ?thesis
    using assms(1) unfolding u zrep_def
    by (auto simp: rb_insert_recolor_def rb_set_parent_color_def upd_def rep_mk child_def Let_def split: if_splits)
qed

text \<open>Giving the tree at a pointer a new parent and colour.\<close>

definition hset :: "nat \<Rightarrow> nat \<Rightarrow> bool \<Rightarrow> (nat \<Rightarrow> rbnode) \<Rightarrow> nat \<Rightarrow> rbnode" where
  "hset p q c h = (if p \<noteq> 0 then h(p := (h p)\<lparr>rb_par := q, rb_black := c\<rparr>) else h)"

lemma set_parent_color_if_heap: "set_parent_color_if p q c s = s\<lparr>heap := hset p q c (heap s)\<rparr>"
  by (simp add: set_parent_color_if_def rb_set_parent_color_def upd_def hset_def)

lemma hset_other [simp]: "a \<noteq> p \<Longrightarrow> hset p q c h a = h a" by (simp add: hset_def)

lemma child_hset [simp]: "child d (hset p q c h a) = child d (h a)" by (simp add: hset_def child_def)

lemma rep_hset [simp]: "p \<notin> set (nodes_of t) \<Longrightarrow> rep (hset p q c h) r x t = rep h r x t"
  by (simp add: hset_def)

lemma repz_hset [simp]: "p \<notin> set (ctx_nodes ctx) \<Longrightarrow> repz (hset p q c h) rt x ctx = repz h rt x ctx"
  by (simp add: hset_def)

lemma rep_hset_same: "rep h r p t \<Longrightarrow> distinct (nodes_of t) \<Longrightarrow> rep (hset p q c h) q p (paint c t)"
  by (cases t) (auto simp: hset_def)

lemma set_nodes_paint [simp]: "nodes_of (paint c t) = nodes_of t" by (cases t) auto

lemma child_set_child [simp]: "child d (set_child d x n) = x" "child (\<not> d) (set_child d x n) = child (\<not> d) n"
    "child d (set_child (\<not> d) x n) = child d n"
  by (simp_all add: child_def set_child_def)

lemma fields_set_child [simp]: "rb_par (set_child d x n) = rb_par n" "rb_black (set_child d x n) = rb_black n"
  by (simp_all add: set_child_def)

lemma set_child_funs: "set_child True x = rb_left_update (\<lambda>_. x)" "set_child False x = rb_right_update (\<lambda>_. x)"
  by (simp_all add: fun_eq_iff set_child_def)

lemma child_fields [simp]: "child d (n\<lparr>rb_par := q\<rparr>) = child d n" "child d (n\<lparr>rb_black := c\<rparr>) = child d n"
    "child d (n\<lparr>rb_par := q, rb_black := c\<rparr>) = child d n"
  by (simp_all add: child_def)

lemma rep_outside: "rep h q p t \<Longrightarrow> set (nodes_of t) \<inter> A = {} \<Longrightarrow> 0 \<notin> A \<Longrightarrow> p \<notin> A"
  using rep_root [of h q p t] by auto

lemma rotate_outer_rep:
  assumes z: "zrep s n t (Fr d p False b # Fr d g gc u # ctx)" and t: "t \<noteq> Lf"
  shows "zrep (rb_insert_rotate d n p g s) p (mk d p gc t (mk d g False (paint True b) u)) ctx"
proof -
  let ?b = "child (\<not> d) (heap s p)"
  have r: "rep (heap s) p n t" "rep (heap s) p ?b b" "rep (heap s) g (child (\<not> d) (heap s g)) u" "repz (heap s) (root s) g ctx"
    and f: "child d (heap s p) = n" "rb_par (heap s p) = g" "child d (heap s g) = p" "rb_par (heap s g) = cpar ctx" "rb_black (heap s g) = gc"
      "p \<noteq> 0" "g \<noteq> 0" "p \<noteq> g"
    and dis: "distinct (nodes_of t @ p # nodes_of b @ g # nodes_of u @ ctx_nodes ctx)"
    using z by (auto simp: zrep_def)
  have nz: "0 \<notin> set (nodes_of t @ p # g # nodes_of u @ ctx_nodes ctx)" using rep_nz [OF r(1)] rep_nz [OF r(3)] repz_nz [OF r(4)] f by auto
  have nb: "?b \<notin> set (nodes_of t @ p # g # nodes_of u @ ctx_nodes ctx)" by (rule rep_outside [OF r(2) _ nz]) (use dis in auto)
  then have nb': "?b \<notin> set (nodes_of t)" "?b \<noteq> p" "p \<noteq> ?b" "?b \<noteq> g" "g \<noteq> ?b" "?b \<notin> set (nodes_of u)" "?b \<notin> set (ctx_nodes ctx)" by auto
  have ne: "n \<noteq> ?b" using rep_root [OF r(1)] t nb'(1) by auto
  define s1 where "s1 = upd p (set_child (\<not> d) g) (set_parent_color_if ?b g True (upd g (set_child d ?b) s))"
  have h1: "heap s1 = (hset ?b g True ((heap s)(g := set_child d ?b (heap s g))))(p := set_child (\<not> d) g (heap s p))" "root s1 = root s"
    using nb' f(8) by (auto simp: s1_def upd_def set_parent_color_if_heap)
  have rb: "rep (hset ?b g True ((heap s)(g := set_child d ?b (heap s g)))) g ?b (paint True b)"
    by (rule rep_hset_same) (use r(2) dis in auto)
  have "rb_insert_rotate d n p g s = rb_rotate_set_parents g p False s1"
    using ne by (simp add: rb_insert_rotate_def Let_def s1_def)
  moreover have "zrep (rb_rotate_set_parents g p False s1) p (mk d p gc t (mk d g False (paint True b) u)) ctx"
  proof (rule rotate_finish)
    show "repz (heap s1) (root s1) g ctx" using r(4) dis nb' by (simp add: h1)
    show "rb_par (heap s1 g) = cpar ctx" using f nb' by (simp add: h1)
    show "distinct (nodes_of (mk d p gc t (mk d g False (paint True b) u)) @ ctx_nodes ctx)" using dis by auto
    show "rep ((heap s1)(p := (heap s1 p)\<lparr>rb_par := cpar ctx, rb_black := rb_black (heap s1 g)\<rparr>, g := (heap s1 g)\<lparr>rb_par := p, rb_black := False\<rparr>))
        (cpar ctx) p (mk d p gc t (mk d g False (paint True b) u))"
      using r(1,3) f dis nb' rb by (simp add: rep_mk h1)
  qed (use f in auto)
  ultimately show ?thesis by simp
qed

lemma rotate_inner_rep:
  assumes z: "zrep s n t (Fr (\<not> d) p False b # Fr d g gc u # ctx)" and t: "t = mk d n False t1 t2"
  shows "zrep (rb_insert_rotate d n p g s) n (mk d n gc (mk d p False b (paint True t1)) (mk d g False (paint True t2) u)) ctx"
proof -
  let ?h = "heap s" and ?c1 = "child d (heap s n)" and ?c2 = "child (\<not> d) (heap s n)"
  have r: "rep ?h n ?c1 t1" "rep ?h n ?c2 t2" "rep ?h p (child d (?h p)) b" "rep ?h g (child (\<not> d) (?h g)) u" "repz ?h (root s) g ctx"
    and f: "child (\<not> d) (?h p) = n" "rb_par (?h p) = g" "child d (?h g) = p" "rb_par (?h g) = cpar ctx" "rb_black (?h g) = gc" "rb_par (?h n) = p"
      "p \<noteq> 0" "g \<noteq> 0" "n \<noteq> 0"
    and dis: "distinct (n # nodes_of t1 @ nodes_of t2 @ p # nodes_of b @ g # nodes_of u @ ctx_nodes ctx)"
    using z by (auto simp: zrep_def t rep_mk)
  have pg: "p \<noteq> g" "n \<noteq> p" "n \<noteq> g" using dis by auto
  have nz: "0 \<notin> set (nodes_of b @ p # g # n # nodes_of u @ ctx_nodes ctx)"
    using rep_nz [OF r(3)] rep_nz [OF r(4)] repz_nz [OF r(5)] f by auto
  have "?c1 \<notin> set (nodes_of b @ p # g # n # nodes_of u @ ctx_nodes ctx) \<union> set (nodes_of t2)"
    by (rule rep_outside [OF r(1)]) (use dis nz rep_nz [OF r(2)] in auto)
  then have n1: "?c1 \<notin> set (nodes_of b)" "?c1 \<noteq> p" "?c1 \<noteq> g" "?c1 \<noteq> n" "?c1 \<notin> set (nodes_of u)" "?c1 \<notin> set (ctx_nodes ctx)"
    "?c1 \<notin> set (nodes_of t2)" by auto
  have "?c2 \<notin> set (nodes_of b @ p # g # n # nodes_of u @ ctx_nodes ctx) \<union> set (nodes_of t1)"
    by (rule rep_outside [OF r(2)]) (use dis nz rep_nz [OF r(1)] in auto)
  then have n2: "?c2 \<notin> set (nodes_of b)" "?c2 \<noteq> p" "?c2 \<noteq> g" "?c2 \<noteq> n" "?c2 \<notin> set (nodes_of u)" "?c2 \<notin> set (ctx_nodes ctx)"
    "?c2 \<notin> set (nodes_of t1)" by auto
  define s1 where "s1 = rb_set_parent_color p n False (upd n (set_child d p) (set_parent_color_if ?c1 p True (upd p (set_child (\<not> d) ?c1) s)))"
  define s2 where "s2 = upd n (set_child (\<not> d) g) (set_parent_color_if ?c2 g True (upd g (set_child d ?c2) s1))"
  let ?np = "(set_child (\<not> d) ?c1 (?h p))\<lparr>rb_par := n, rb_black := False\<rparr>"
  let ?h1 = "(hset ?c1 p True (?h(p := set_child (\<not> d) ?c1 (?h p))))(n := set_child d p (?h n), p := ?np)"
  have h1: "heap s1 = ?h1" "root s1 = root s"
    using n1 pg by (auto simp: s1_def upd_def set_parent_color_if_heap rb_set_parent_color_def)
  let ?h2 = "(hset ?c2 g True (?h1(g := set_child d ?c2 (?h g))))(n := set_child (\<not> d) g (set_child d p (?h n)))"
  have h2: "heap s2 = ?h2" "root s2 = root s"
    using n1 n2 pg by (simp_all add: s2_def upd_def set_parent_color_if_heap h1)
  have r1: "rep (hset ?c1 p True (?h(p := set_child (\<not> d) ?c1 (?h p)))) p ?c1 (paint True t1)"
    by (rule rep_hset_same) (use r(1) dis in auto)
  have r2: "rep (hset ?c2 g True (?h1(g := set_child d ?c2 (?h g)))) g ?c2 (paint True t2)"
    by (rule rep_hset_same) (use r(2) dis n1 in auto)
  have "child (\<not> d) (heap s1 n) = ?c2" using pg by (simp add: h1)
  then have "rb_insert_rotate d n p g s = rb_rotate_set_parents g n False s2"
    using f(1) by (simp add: rb_insert_rotate_def Let_def s2_def s1_def)
  moreover have "zrep (rb_rotate_set_parents g n False s2) n (mk d n gc (mk d p False b (paint True t1)) (mk d g False (paint True t2) u)) ctx"
  proof (rule rotate_finish)
    show "repz (heap s2) (root s2) g ctx" using r(5) dis n1 n2 by (simp add: h2)
    show "rb_par (heap s2 g) = cpar ctx" using f n1 n2 pg by (simp add: h2)
    show "distinct (nodes_of (mk d n gc (mk d p False b (paint True t1)) (mk d g False (paint True t2) u)) @ ctx_nodes ctx)" using dis by auto
    show "rep ((heap s2)(n := (heap s2 n)\<lparr>rb_par := cpar ctx, rb_black := rb_black (heap s2 g)\<rparr>, g := (heap s2 g)\<lparr>rb_par := n, rb_black := False\<rparr>))
        (cpar ctx) n (mk d n gc (mk d p False b (paint True t1)) (mk d g False (paint True t2) u))"
      using r(3,4) f dis n1 n2 pg r1 r2 by (simp add: rep_mk h2)
  qed (use f pg in auto)
  ultimately show ?thesis by simp
qed

lemma rep_top: "rep h q p t \<Longrightarrow> topn t = p \<and> (p \<noteq> 0 \<longrightarrow> rb_black (h p) = (\<not> red t))"
  by (cases t) auto

lemma side_of_parent:
  assumes "zrep s n t (Fr d p c b # ctx)" and "t \<noteq> Lf"
  shows "(n \<noteq> rb_right (heap s p)) = d"
  using assms rep_root [of "heap s" p n t] rep_root [of "heap s" p "rb_right (heap s p)" b] by (cases d) (auto simp: zrep_def child_def)

lemma red_mk: "red t \<Longrightarrow> t = mk d (topn t) False (sub d t) (sub (\<not> d) t)"
  by (cases t) (auto simp: mk_def)

lemma insert_loop_rep:
  assumes "zrep s n t ctx" and "red t" and "fixup t ctx = Some t'"
  shows "\<exists>s'. rb_insert_loop n (cpar ctx) s = Some (Inr s') \<and> rb_rep s' t'"
  using assms
proof (induction t ctx arbitrary: s n rule: fixup.induct)
  case (1 t)
  then show ?case
    by (subst rb_insert_loop.simps, cases t) (auto simp: zrep_def rb_rep_def rb_set_parent_color_def upd_def)
next
  case (2 t e p u ctx)
  then show ?case using zrep_plug [OF 2(1)] by (subst rb_insert_loop.simps) (auto simp: zrep_def)
next
  case (3 t e p u)
  then show ?case by simp
next
  case (4 t e p b d g gc u ctx)
  note z = 4(2)
  have tl: "t \<noteq> Lf" using 4(3) by auto
  have z2: "zrep s p (mk e p False t b) (Fr d g gc u # ctx)" using z zrep_cons by blast
  have dd: "(p \<noteq> rb_right (heap s g)) = d" by (rule side_of_parent [OF z2]) (simp add: mk_def)
  have f: "p \<noteq> 0" "\<not> rb_black (heap s p)" "rb_par (heap s p) = g" "g \<noteq> 0" and ru: "rep (heap s) g (child (\<not> d) (heap s g)) u"
    using z by (auto simp: zrep_def)
  have uncle: "child (\<not> d) (heap s g) = topn u" "topn u \<noteq> 0 \<and> is_red s (topn u) \<longleftrightarrow> red u"
    using rep_top [OF ru] rep_root [OF ru] by (auto simp: is_red_def)
  have step: "rb_insert_loop n p s = (if red u then let s = rb_insert_recolor (topn u) p g s in rb_insert_loop g (rb_par (heap s g)) s
      else Some (Inr (rb_insert_rotate d n p g s)))"
    using f uncle(2) by (subst rb_insert_loop.simps) (auto simp: Let_def dd uncle(1))
  show ?case
  proof (cases "red u")
    case True
    let ?s = "rb_insert_recolor (topn u) p g s" and ?t = "mk d g False (mk e p True t b) (paint True u)"
    have zr: "zrep ?s g ?t ctx" by (rule recolor_rep [OF z True])
    then have "rb_par (heap ?s g) = cpar ctx" by (auto simp: zrep_def rep_mk)
    moreover have "red ?t" by (simp add: mk_def)
    ultimately show ?thesis using 4(1) [OF True zr] 4(4) True step by (simp add: Let_def)
  next
    case False
    show ?thesis
    proof (cases "e = d")
      case True
      then show ?thesis using rotate_outer_rep [OF z [unfolded True] tl] zrep_plug 4(4) False step by fastforce
    next
      case ed: False
      then have e: "e = (\<not> d)" by auto
      have "topn t = n" using z rep_top by (auto simp: zrep_def)
      then have "t = mk d n False (sub d t) (sub (\<not> d) t)" using red_mk [OF 4(3), of d] by simp
      from rotate_inner_rep [OF z [unfolded e] this] zrep_plug
      show ?thesis using 4(4) False ed step \<open>topn t = n\<close> by fastforce
    qed
  qed
qed

section \<open>Red-black invariants\<close>

primrec bheight :: "rbt \<Rightarrow> nat" where
  "bheight Lf = 0"
| "bheight (Nd l a c r) = bheight l + (if c then 1 else 0)"

primrec invh :: "rbt \<Rightarrow> bool" where
  "invh Lf = True"
| "invh (Nd l a c r) = (invh l \<and> invh r \<and> bheight l = bheight r)"

primrec invc :: "rbt \<Rightarrow> bool" where
  "invc Lf = True"
| "invc (Nd l a c r) = (invc l \<and> invc r \<and> (c \<or> \<not> red l \<and> \<not> red r))"

definition rbt_ok :: "rbt \<Rightarrow> bool" where
  "rbt_ok t \<longleftrightarrow> invh t \<and> invc t \<and> \<not> red t"

text \<open>A path into which a tree of black height \<open>n\<close> fits, with a red root or (\<open>c\<close>) only with a black one.\<close>

fun ctx_ok :: "nat \<Rightarrow> bool \<Rightarrow> frame list \<Rightarrow> bool" where
  "ctx_ok n c [] = c"
| "ctx_ok n c (Fr d a ac u # ctx) \<longleftrightarrow> invh u \<and> invc u \<and> bheight u = n \<and> (ac \<or> c \<and> \<not> red u) \<and> ctx_ok (if ac then n + 1 else n) ac ctx"

lemma mk_props [simp]:
  "invh (mk d a c t u) \<longleftrightarrow> invh t \<and> invh u \<and> bheight t = bheight u"
  "invc (mk d a c t u) \<longleftrightarrow> invc t \<and> invc u \<and> (c \<or> \<not> red t \<and> \<not> red u)"
  "red (mk d a c t u) = (\<not> c)"
  by (auto simp: mk_def)

lemma bheight_mk: "bheight t = bheight u \<Longrightarrow> bheight (mk d a c t u) = bheight t + (if c then 1 else 0)"
  by (auto simp: mk_def)

lemma ctx_ok_plug: "invh t \<Longrightarrow> invc t \<Longrightarrow> ctx_ok (bheight t) (\<not> red t) ctx \<longleftrightarrow> rbt_ok (plug ctx t)"
proof (induction ctx arbitrary: t rule: ctx_nodes.induct)
  case 1
  then show ?case by (simp add: rbt_ok_def)
next
  case (2 d a c u ctx)
  show ?case
  proof (cases "invh (mk d a c t u) \<and> invc (mk d a c t u)")
    case True
    then have "rbt_ok (plug ctx (mk d a c t u)) \<longleftrightarrow> ctx_ok (bheight (mk d a c t u)) c ctx" using 2(1) [of "mk d a c t u"] by auto
    then show ?thesis using True by (auto simp: bheight_mk)
  next
    case False
    have "\<not> rbt_ok (plug ctx t')" if "\<not> (invh t' \<and> invc t')" for ctx t'
      using that by (induction ctx arbitrary: t' rule: ctx_nodes.induct) (auto simp: rbt_ok_def)
    then show ?thesis using False 2(2,3) by auto
  qed
qed

lemma paint_black [simp]: "\<not> red t \<Longrightarrow> paint True t = t" by (cases t) auto

lemma paint_props [simp]: "invh (paint c t) = invh t" "red (paint True t) = False" "invc t \<Longrightarrow> invc (paint True t)"
  by (cases t; simp)+

lemma bheight_paint: "red t \<Longrightarrow> bheight (paint True t) = bheight t + 1" by (cases t) auto

lemma nodes_plug_cong: "nodes_of t = nodes_of t' \<Longrightarrow> nodes_of (plug ctx t) = nodes_of (plug ctx t')"
  using nodes_plug [of ctx] by auto

lemma fixup_ok:
  assumes "ctx_ok (bheight t) True ctx" and "red t" and "invh t" and "invc t"
  shows "\<exists>t'. fixup t ctx = Some t' \<and> rbt_ok t' \<and> nodes_of t' = nodes_of (plug ctx t)"
  using assms
proof (induction t ctx rule: fixup.induct)
  case (1 t)
  then show ?case by (simp add: rbt_ok_def)
next
  case (2 t e p u ctx)
  have "rbt_ok (plug ctx (mk e p True t u))"
    using 2 ctx_ok_plug [of "mk e p True t u" ctx] by (auto simp: bheight_mk)
  then show ?case by simp
next
  case (3 t e p u)
  then show ?case by simp
next
  case (4 t e p b d g gc u ctx)
  have c: "gc" "invh b" "invc b" "bheight b = bheight t" "\<not> red b" "invh u" "invc u" "bheight u = bheight t" "ctx_ok (bheight t + 1) True ctx"
    using 4(2) by auto
  have sub: "invh (sub x t)" "invc (sub x t)" "\<not> red (sub x t)" "bheight (sub x t) = bheight t" for x
    using 4(3-5) by (cases t; auto)+
  show ?case
  proof (cases "red u")
    case True
    let ?t = "mk d g False (mk e p True t b) (paint True u)"
    have bh: "bheight ?t = bheight t + 1" using True c by (simp add: bheight_mk bheight_paint)
    have "\<exists>t'. fixup ?t ctx = Some t' \<and> rbt_ok t' \<and> nodes_of t' = nodes_of (plug ctx ?t)"
      by (rule 4(1) [OF True]) (use c bh True 4(4,5) in \<open>auto simp: bheight_mk bheight_paint\<close>)
    moreover have "nodes_of (plug ctx ?t) = nodes_of (plug (Fr e p False b # Fr d g gc u # ctx) t)"
      by (auto intro!: nodes_plug_cong simp: mk_def)
    ultimately show ?thesis using True by auto
  next
    case False
    show ?thesis
    proof (cases "e = d")
      case True
      let ?t = "mk d p gc t (mk d g False b u)"
      have "rbt_ok (plug ctx ?t)" using ctx_ok_plug [of ?t ctx] c 4(4,5) False by (simp add: bheight_mk)
      moreover have "nodes_of (plug ctx ?t) = nodes_of (plug (Fr e p False b # Fr d g gc u # ctx) t)"
        using True by (auto intro!: nodes_plug_cong simp: mk_def)
      ultimately show ?thesis using False True c(5) by auto
    next
      case ed: False
      let ?t = "mk d (topn t) gc (mk d p False b (sub d t)) (mk d g False (sub (\<not> d) t) u)"
      have "rbt_ok (plug ctx ?t)" using ctx_ok_plug [of ?t ctx] c sub False by (simp add: bheight_mk)
      moreover have "nodes_of (plug ctx ?t) = nodes_of (plug (Fr e p False b # Fr d g gc u # ctx) t)"
        using ed 4(3) by (cases t) (auto intro!: nodes_plug_cong simp: mk_def)
      ultimately show ?thesis using False ed sub by auto
    qed
  qed
qed

section \<open>Insertion\<close>

text \<open>The path to the place of a new node, \<open>None\<close> when an equal node is met.\<close>

primrec locate :: "(nat \<Rightarrow> nat \<Rightarrow> bool) \<Rightarrow> nat \<Rightarrow> rbt \<Rightarrow> frame list \<Rightarrow> frame list option" where
  "locate cmp node Lf ctx = Some ctx"
| "locate cmp node (Nd l a c r) ctx =
     (if cmp node a then locate cmp node l (Fr True a c r # ctx)
      else if cmp a node then locate cmp node r (Fr False a c l # ctx) else None)"

definition fresh_node :: "nat \<Rightarrow> rbtree \<Rightarrow> bool" where
  "fresh_node node s \<longleftrightarrow> node \<noteq> 0 \<and> rb_left (heap s node) = 0 \<and> rb_right (heap s node) = 0"

lemma descend_rep:
  assumes "zrep s p t ctx" and "t \<noteq> Lf" and "node \<notin> set (nodes_of t @ ctx_nodes ctx)" and "fresh_node node s"
  shows "(locate cmp node t ctx = None \<longrightarrow> rb_descend cmp node p s = Some None)
    \<and> (\<forall>ctx'. locate cmp node t ctx = Some ctx' \<longrightarrow>
        (\<exists>s'. rb_descend cmp node p s = Some (Some s') \<and> zrep s' node (Nd Lf node False Lf) ctx'))"
  using assms
proof (induction t arbitrary: p ctx)
  case Lf
  then show ?case by simp
next
  case (Nd l a c r)
  have p: "p = a" "a \<noteq> 0" using Nd.prems(1) by (auto simp: zrep_def)
  have zl: "zrep s (rb_left (heap s a)) l (Fr True a c r # ctx)" and zr: "zrep s (rb_right (heap s a)) r (Fr False a c l # ctx)"
    using Nd.prems(1) by (auto simp: zrep_def child_def)
  have ll: "rb_left (heap s a) = 0 \<longleftrightarrow> l = Lf" and rr: "rb_right (heap s a) = 0 \<longleftrightarrow> r = Lf"
    using zl zr rep_root by (auto simp: zrep_def)
  have nin: "node \<notin> set (nodes_of l @ ctx_nodes (Fr True a c r # ctx))" "node \<notin> set (nodes_of r @ ctx_nodes (Fr False a c l # ctx))"
    using Nd.prems(3) by auto
  note ihl = Nd.IH(1) [OF zl _ nin(1) Nd.prems(4)] and ihr = Nd.IH(2) [OF zr _ nin(2) Nd.prems(4)]
  have link: "zrep (upd node (\<lambda>n. n\<lparr>rb_par := a, rb_black := False\<rparr>) (upd a (set_child d node) s)) node (Nd Lf node False Lf) (Fr d a c u # ctx)"
    if "zrep s 0 Lf (Fr d a c u # ctx)" "node \<notin> set (ctx_nodes (Fr d a c u # ctx))" for d u
    using that Nd.prems(4) by (auto simp: zrep_def upd_def fresh_node_def)
  show ?case
  proof (cases "cmp node a")
    case True
    show ?thesis
    proof (cases "l = Lf")
      case l: True
      then show ?thesis using True p ll link [of True r] zl nin(1)
        by (subst (1 2) rb_descend.simps) (auto simp: Let_def set_child_funs)
    next
      case False
      then have "rb_descend cmp node p s = rb_descend cmp node (rb_left (heap s a)) s"
        using True p ll by (subst rb_descend.simps) (simp add: Let_def)
      then show ?thesis using ihl [OF False] True by simp
    qed
  next
    case nl: False
    show ?thesis
    proof (cases "cmp a node")
      case True
      show ?thesis
      proof (cases "r = Lf")
        case r: True
        then show ?thesis using True nl p rr link [of False l] zr nin(2)
          by (subst (1 2) rb_descend.simps) (auto simp: Let_def set_child_funs)
      next
        case False
        then have "rb_descend cmp node p s = rb_descend cmp node (rb_right (heap s a)) s"
          using True nl p rr by (subst rb_descend.simps) (simp add: Let_def)
        then show ?thesis using ihr [OF False] True nl by simp
      qed
    next
      case False
      then show ?thesis using nl p by (subst rb_descend.simps) simp
    qed
  qed
qed

text \<open>\<open>cmp\<close> orders \<open>A\<close> strictly and linearly.\<close>

definition order_on :: "(nat \<Rightarrow> nat \<Rightarrow> bool) \<Rightarrow> nat set \<Rightarrow> bool" where
  "order_on cmp A \<longleftrightarrow> (\<forall>x\<in>A. \<not> cmp x x) \<and> (\<forall>x\<in>A. \<forall>y\<in>A. \<forall>z\<in>A. cmp x y \<longrightarrow> cmp y z \<longrightarrow> cmp x z)
     \<and> (\<forall>x\<in>A. \<forall>y\<in>A. x \<noteq> y \<longrightarrow> cmp x y \<or> cmp y x)"

lemma order_on_mono: "order_on cmp A \<Longrightarrow> B \<subseteq> A \<Longrightarrow> order_on cmp B"
  unfolding order_on_def by (meson subsetD)

lemma order_on_trans: "order_on cmp A \<Longrightarrow> x \<in> A \<Longrightarrow> y \<in> A \<Longrightarrow> z \<in> A \<Longrightarrow> cmp x y \<Longrightarrow> cmp y z \<Longrightarrow> cmp x z"
  unfolding order_on_def by blast

lemma order_on_total: "order_on cmp A \<Longrightarrow> x \<in> A \<Longrightarrow> y \<in> A \<Longrightarrow> x \<noteq> y \<Longrightarrow> cmp x y \<or> cmp y x"
  unfolding order_on_def by blast

text \<open>The path \<open>ctx'\<close> extends \<open>ctx\<close> and has the nodes \<open>xs\<close> left and \<open>ys\<close> right of its hole below \<open>ctx\<close>.\<close>

definition ctx_split :: "frame list \<Rightarrow> frame list \<Rightarrow> nat list \<Rightarrow> nat list \<Rightarrow> bool" where
  "ctx_split ctx' ctx xs ys \<longleftrightarrow> (\<forall>u. \<exists>w. plug ctx' u = plug ctx w \<and> nodes_of w = xs @ nodes_of u @ ys)"

lemma ctx_split_left:
  assumes "ctx_split ctx' (Fr True a c r # ctx) xs ys"
  shows "ctx_split ctx' ctx xs (ys @ a # nodes_of r)"
  unfolding ctx_split_def
proof
  fix u
  obtain w where "plug ctx' u = plug (Fr True a c r # ctx) w" "nodes_of w = xs @ nodes_of u @ ys" using assms unfolding ctx_split_def by blast
  then show "\<exists>w. plug ctx' u = plug ctx w \<and> nodes_of w = xs @ nodes_of u @ ys @ a # nodes_of r"
    by (intro exI [of _ "Nd w a c r"]) (simp add: mk_def)
qed

lemma ctx_split_right:
  assumes "ctx_split ctx' (Fr False a c l # ctx) xs ys"
  shows "ctx_split ctx' ctx (nodes_of l @ a # xs) ys"
  unfolding ctx_split_def
proof
  fix u
  obtain w where "plug ctx' u = plug (Fr False a c l # ctx) w" "nodes_of w = xs @ nodes_of u @ ys" using assms unfolding ctx_split_def by blast
  then show "\<exists>w. plug ctx' u = plug ctx w \<and> nodes_of w = (nodes_of l @ a # xs) @ nodes_of u @ ys"
    by (intro exI [of _ "Nd l a c w"]) (simp add: mk_def)
qed

lemma locate_sorted:
  assumes "sorted_wrt cmp (nodes_of t)" and "order_on cmp (insert node (set (nodes_of t)))" and "node \<notin> set (nodes_of t)"
  shows "\<exists>ctx' xs ys. locate cmp node t ctx = Some ctx' \<and> nodes_of t = xs @ ys \<and> (\<forall>x\<in>set xs. cmp x node) \<and> (\<forall>y\<in>set ys. cmp node y)
    \<and> plug ctx' Lf = plug ctx t \<and> ctx_split ctx' ctx xs ys"
  using assms
proof (induction t arbitrary: ctx)
  case Lf
  then show ?case by (auto simp: ctx_split_def)
next
  case (Nd l a c r)
  have ord: "order_on cmp (insert node (set (nodes_of l)))" "order_on cmp (insert node (set (nodes_of r)))"
    by (rule order_on_mono [OF Nd.prems(2)], simp, blast)+
  have so: "sorted_wrt cmp (nodes_of l)" "sorted_wrt cmp (nodes_of r)" "\<forall>x\<in>set (nodes_of l). cmp x a" "\<forall>y\<in>set (nodes_of r). cmp a y"
    using Nd.prems(1) by (auto simp: sorted_wrt_append)
  have nin: "node \<notin> set (nodes_of l)" "node \<notin> set (nodes_of r)" "node \<noteq> a" using Nd.prems(3) by auto
  show ?case
  proof (cases "cmp node a")
    case True
    obtain ctx' xs ys where h: "locate cmp node l (Fr True a c r # ctx) = Some ctx'" "nodes_of l = xs @ ys" "\<forall>x\<in>set xs. cmp x node"
        "\<forall>y\<in>set ys. cmp node y" "plug ctx' Lf = plug (Fr True a c r # ctx) l" "ctx_split ctx' (Fr True a c r # ctx) xs ys"
      using Nd.IH(1) [OF so(1) ord(1) nin(1), of "Fr True a c r # ctx"] by blast
    have "\<forall>y\<in>set (nodes_of r). cmp node y" using True so(4) order_on_trans [OF Nd.prems(2), of node a] by simp
    then have "\<forall>y\<in>set (ys @ a # nodes_of r). cmp node y" using h(4) True by auto
    moreover have "locate cmp node (Nd l a c r) ctx = Some ctx'" using True h(1) by simp
    moreover have "nodes_of (Nd l a c r) = xs @ (ys @ a # nodes_of r)" using h(2) by simp
    moreover have "plug ctx' Lf = plug ctx (Nd l a c r)" using h(5) by (simp add: mk_def)
    ultimately show ?thesis using h(3) ctx_split_left [OF h(6)] by blast
  next
    case False
    then have an: "cmp a node" using order_on_total [OF Nd.prems(2), of a node] nin(3) by auto
    obtain ctx' xs ys where h: "locate cmp node r (Fr False a c l # ctx) = Some ctx'" "nodes_of r = xs @ ys" "\<forall>x\<in>set xs. cmp x node"
        "\<forall>y\<in>set ys. cmp node y" "plug ctx' Lf = plug (Fr False a c l # ctx) r" "ctx_split ctx' (Fr False a c l # ctx) xs ys"
      using Nd.IH(2) [OF so(2) ord(2) nin(2), of "Fr False a c l # ctx"] by blast
    have "\<forall>x\<in>set (nodes_of l). cmp x node" using an so(3) order_on_trans [OF Nd.prems(2), of _ a node] by simp
    then have "\<forall>x\<in>set (nodes_of l @ a # xs). cmp x node" using h(3) an by auto
    moreover have "locate cmp node (Nd l a c r) ctx = Some ctx'" using False an h(1) by simp
    moreover have "nodes_of (Nd l a c r) = (nodes_of l @ a # xs) @ ys" using h(2) by simp
    moreover have "plug ctx' Lf = plug ctx (Nd l a c r)" using h(5) by (simp add: mk_def)
    ultimately show ?thesis using h(4) ctx_split_right [OF h(6)] by blast
  qed
qed

lemma fresh_root_rep:
  assumes "rb_rep s t" and "node \<notin> set (nodes_of t)"
  shows "zrep (upd node f s) (root s) t []"
  using assms by (simp add: zrep_def rb_rep_def upd_def)

lemma rb_insert_spec:
  assumes rep: "rb_rep s t" and ok: "rbt_ok t" and so: "sorted_wrt cmp (nodes_of t)" and new: "node \<notin> set (nodes_of t)" "node \<noteq> 0"
    and ord: "order_on cmp (insert node (set (nodes_of t)))"
  shows "\<exists>s' t'. rb_insert node cmp s = Some (Inr (0, s')) \<and> rb_rep s' t' \<and> rbt_ok t' \<and> sorted_wrt cmp (nodes_of t')
    \<and> set (nodes_of t') = insert node (set (nodes_of t))"
proof -
  let ?s = "upd node (\<lambda>n. \<lparr>rb_par = 0, rb_black = False, rb_left = 0, rb_right = 0\<rparr>) s"
  have fr: "fresh_node node ?s" "rb_par (heap ?s node) = 0" "root ?s = root s" using new(2) by (simp_all add: fresh_node_def upd_def)
  show ?thesis
  proof (cases "t = Lf")
    case True
    then have "root s = 0" using rep by (simp add: rb_rep_def)
    then have "rb_insert node cmp s = Some (Inr (0, (rb_set_parent_color node 0 True ?s)\<lparr>root := node\<rparr>))"
      using fr by (simp add: rb_insert_def Let_def rb_descend.simps [of _ _ 0] rb_insert_fix_def rb_insert_loop.simps [of _ 0])
    moreover have "rb_rep ((rb_set_parent_color node 0 True ?s)\<lparr>root := node\<rparr>) (Nd Lf node True Lf)"
      using new(2) by (simp add: rb_rep_def rb_set_parent_color_def upd_def)
    ultimately show ?thesis using True by (intro exI [of _ "Nd Lf node True Lf"] exI) (auto simp: rbt_ok_def)
  next
    case False
    let ?t = "Nd Lf node False Lf"
    obtain ctx xs ys where l: "locate cmp node t [] = Some ctx" "nodes_of t = xs @ ys" "\<forall>x\<in>set xs. cmp x node" "\<forall>y\<in>set ys. cmp node y"
        "plug ctx Lf = t" "nodes_of (plug ctx ?t) = xs @ node # ys"
    proof -
      obtain ctx xs ys where h: "locate cmp node t [] = Some ctx" "nodes_of t = xs @ ys" "\<forall>x\<in>set xs. cmp x node" "\<forall>y\<in>set ys. cmp node y"
          "plug ctx Lf = plug [] t" "ctx_split ctx [] xs ys" using locate_sorted [OF so ord new(1)] by blast
      obtain w where "plug ctx ?t = plug [] w" "nodes_of w = xs @ nodes_of ?t @ ys" using h(6) unfolding ctx_split_def by blast
      then show thesis using that [OF h(1-4)] h(5) by simp
    qed
    have "node \<notin> set (nodes_of t @ ctx_nodes [])" using new by simp
    from descend_rep [OF fresh_root_rep [OF rep new(1)] False this fr(1)] l(1)
    obtain s' where s': "rb_descend cmp node (root s) ?s = Some (Some s')" "zrep s' node ?t ctx" by blast
    have "rbt_ok (plug ctx Lf)" using ok l(5) by simp
    then have "ctx_ok (bheight ?t) True ctx" using ctx_ok_plug [of Lf ctx] by simp
    then obtain t' where t': "fixup ?t ctx = Some t'" "rbt_ok t'" "nodes_of t' = xs @ node # ys"
      using fixup_ok [of ?t ctx] l(6) by auto
    have "rb_par (heap s' node) = cpar ctx" using s'(2) by (simp add: zrep_def)
    moreover obtain s'' where "rb_insert_loop node (cpar ctx) s' = Some (Inr s'')" "rb_rep s'' t'"
      using insert_loop_rep [OF s'(2) _ t'(1)] by auto
    ultimately have "rb_insert node cmp s = Some (Inr (0, s''))" "rb_rep s'' t'"
      using s'(1) by (simp_all add: rb_insert_def Let_def rb_insert_fix_def)
    moreover have "sorted_wrt cmp (nodes_of t')"
      using so l(2-4) t'(3) ord by (auto simp: sorted_wrt_append)
    ultimately show ?thesis using t'(2,3) l(2) by (intro exI [of _ s''] exI [of _ t']) auto
  qed
qed

lemma rb_first_spec:
  assumes "rb_rep s t"
  shows "rb_first s = Some (if t = Lf then 0 else hd (nodes_of t))"
proof -
  have "t \<noteq> Lf \<Longrightarrow> rep (heap s) q p t \<Longrightarrow> rb_leftmost p s = Some (hd (nodes_of t))" for q p
  proof (induction t arbitrary: q p)
    case (Nd l a c r)
    have "nodes_of l = [] \<longleftrightarrow> l = Lf" by (cases l) auto
    then show ?case using Nd rep_root [of "heap s" a "rb_left (heap s a)" l] by (subst rb_leftmost.simps) (auto simp: hd_append)
  qed simp
  then show ?thesis using assms rep_root [of "heap s" 0 "root s" t] by (auto simp: rb_first_def rb_rep_def)
qed

text \<open>
  C7: inserting a new node into a heap that holds a red-black search tree ends and returns 0, and the heap then holds a red-black search
  tree of the old nodes and the new one: every path has as many black nodes, no red node has a red child, the root is black, the
  parent links are right and the order of \<open>cmp\<close> is kept. \<^verbatim>\<open>_rb_first\<close> then returns the least node.
\<close>

theorem rb_insert_correct:
  assumes "rb_rep s t" and "rbt_ok t" and "sorted_wrt cmp (nodes_of t)" and "node \<notin> set (nodes_of t)" and "node \<noteq> 0"
    and "order_on cmp (insert node (set (nodes_of t)))"
  shows "\<exists>s' t'. rb_insert node cmp s = Some (Inr (0, s')) \<and> rb_rep s' t' \<and> rbt_ok t' \<and> sorted_wrt cmp (nodes_of t')
    \<and> set (nodes_of t') = insert node (set (nodes_of t)) \<and> rb_first s' = Some (hd (nodes_of t'))"
proof -
  obtain s' t' where *: "rb_insert node cmp s = Some (Inr (0, s'))" "rb_rep s' t'" "rbt_ok t'" "sorted_wrt cmp (nodes_of t')"
    "set (nodes_of t') = insert node (set (nodes_of t))" using rb_insert_spec [OF assms] by blast
  then have "t' \<noteq> Lf" by auto
  then show ?thesis using * rb_first_spec [OF *(2)] by auto
qed

definition demo_rbtree :: rbtree where
  "demo_rbtree = \<lparr>heap = (\<lambda>_. \<lparr>rb_par = 0, rb_black = True, rb_left = 0, rb_right = 0\<rparr>), root = 16\<rparr>"

theorem rb_insert_correct_witness:
  "\<exists>s' t'. rb_insert 8 (<) demo_rbtree = Some (Inr (0, s')) \<and> rb_rep s' t' \<and> rbt_ok t' \<and> set (nodes_of t') = {8, 16} \<and> rb_first s' = Some (hd (nodes_of t'))"
proof -
  have "rb_rep demo_rbtree (Nd Lf 16 True Lf)" by (simp add: rb_rep_def demo_rbtree_def)
  moreover have "rbt_ok (Nd Lf 16 True Lf)" by (simp add: rbt_ok_def)
  moreover have "order_on (<) (insert 8 (set (nodes_of (Nd Lf 16 True Lf))))" by (auto simp: order_on_def)
  ultimately show ?thesis using rb_insert_correct [of demo_rbtree "Nd Lf 16 True Lf" "(<)" 8] by auto
qed

text \<open>
  Looking up a node in a search tree ends and finds the node that neither precedes nor follows it in the order, or returns
  null when there is none.
\<close>

theorem rb_lookup_correct:
  assumes "rb_rep s t" and "sorted_wrt cmp (nodes_of t)" and "order_on cmp (insert node (set (nodes_of t)))"
  shows "rb_lookup node cmp s = Some (if node \<in> set (nodes_of t) then node else 0)"
proof -
  have "rb_lookup_from cmp node p s = Some (if node \<in> set (nodes_of u) then node else 0)"
    if "rep (heap s) q p u" "sorted_wrt cmp (nodes_of u)" "set (nodes_of u) \<subseteq> set (nodes_of t)" for u p q
    using that
  proof (induction u arbitrary: p q)
    case Lf
    then show ?case by (subst rb_lookup_from.simps) simp
  next
    case (Nd l a c r)
    have irr: "\<not> cmp x x" if "x \<in> insert node (set (nodes_of t))" for x using assms(3) that unfolding order_on_def by blast
    have so: "\<forall>x\<in>set (nodes_of l). cmp x a" "\<forall>y\<in>set (nodes_of r). cmp a y" using Nd.prems(2) by (auto simp: sorted_wrt_append)
    have lt: "node \<notin> set (nodes_of r)" "node \<noteq> a" if "cmp node a"
      using that so(2) irr order_on_trans [OF assms(3), of node a node] Nd.prems(3) by auto
    have gt: "node \<notin> set (nodes_of l)" "node \<noteq> a" if "cmp a node"
      using that so(1) irr order_on_trans [OF assms(3), of node a node] order_on_trans [OF assms(3), of a node a] Nd.prems(3) by auto
    have eq: "node = a" if "\<not> cmp node a" "\<not> cmp a node"
      using that order_on_total [OF assms(3), of node a] Nd.prems(3) by auto
    have "rb_lookup_from cmp node (rb_left (heap s a)) s = Some (if node \<in> set (nodes_of l) then node else 0)"
      by (rule Nd.IH(1)) (use Nd.prems in \<open>auto simp: sorted_wrt_append\<close>)
    moreover have "rb_lookup_from cmp node (rb_right (heap s a)) s = Some (if node \<in> set (nodes_of r) then node else 0)"
      by (rule Nd.IH(2)) (use Nd.prems in \<open>auto simp: sorted_wrt_append\<close>)
    ultimately show ?case using Nd.prems(1) lt gt eq by (subst rb_lookup_from.simps) auto
  qed
  then show ?thesis using assms(1,2) by (auto simp: rb_lookup_def rb_rep_def)
qed

theorem rb_lookup_correct_witness: "rb_lookup 16 (<) demo_rbtree = Some 16 \<and> rb_lookup 8 (<) demo_rbtree = Some 0"
proof -
  have r: "rb_rep demo_rbtree (Nd Lf 16 True Lf)" by (simp add: rb_rep_def demo_rbtree_def)
  have o: "order_on (<) (insert k (set (nodes_of (Nd Lf 16 True Lf))))" for k by (auto simp: order_on_def)
  show ?thesis using rb_lookup_correct [OF r _ o, of 16] rb_lookup_correct [OF r _ o, of 8] by simp
qed

end
