(* ===== verification/Timers.thy ===== *)
theory Timers
  imports Rbtree
begin

text \<open>
  Timers of a CPU (\<^verbatim>\<open>kernel/cpu.c\<close>, \<^verbatim>\<open>kernel/cpu.h\<close>) and the clock they program (\<^verbatim>\<open>driver/clock.c\<close>).

  A timer is its address, which is also the address of the tree node embedded in it. One CPU is modelled, so \<^verbatim>\<open>cpus[cpuid()]\<close> is the
  state. \<open>now\<close> is a value that \<^verbatim>\<open>get_timestamp_ms()\<close> returns, one argument for each of its calls, and \<open>freq\<close> the clock frequency, both read from the hardware;
  \<open>countdown\<close> is the value last written to the timer register, in clock ticks. Handlers are function pointers: \<open>call\<close> runs the handler of a timer.
  \<open>None\<close> is a call that never returns.
\<close>

record timer =
  triggered :: bool
  elapse :: "32 word"
  tkey :: "64 word"
  thandler :: nat
  tdata :: "64 word"

record cpu =
  online :: bool
  ctimer :: rbtree
  timers :: "nat \<Rightarrow> timer"
  countdown :: nat
  clock_handler :: bool

section \<open>The clock\<close>

definition get_timestamp_ms :: "nat \<Rightarrow> nat \<Rightarrow> nat" where
  "get_timestamp_ms ts freq = ts * 1000 mod 2 ^ 64 div freq"

definition reset_clock :: "nat \<Rightarrow> nat \<Rightarrow> cpu \<Rightarrow> cpu res" where
  "reset_clock freq interval_ms s =
     (let interval_clk = interval_ms * freq mod 2 ^ 64 div 1000
      in rassert (interval_clk \<le> 0x7fffffff) (Inr (s\<lparr>countdown := interval_clk\<rparr>)))"

definition set_clock_handler :: "cpu \<Rightarrow> cpu" where
  "set_clock_handler s = s\<lparr>clock_handler := True\<rparr>"

definition invoke_clock_handler :: "(cpu \<Rightarrow> cpu res option) \<Rightarrow> cpu \<Rightarrow> cpu res option" where
  "invoke_clock_handler handler s = (if \<not> clock_handler s then Some (Inl Panic) else handler s)"

section \<open>Setting and cancelling timers\<close>

definition timer_cmp :: "(nat \<Rightarrow> timer) \<Rightarrow> nat \<Rightarrow> nat \<Rightarrow> bool" where
  "timer_cmp ts l r =
     (let d = sint (tkey (ts l) - tkey (ts r))
      in if d < 0 then True else if d = 0 then l < r else False)"

definition timer_set_clock :: "nat \<Rightarrow> 64 word \<Rightarrow> cpu \<Rightarrow> cpu res option" where
  "timer_set_clock freq now s =
     (case rb_first (ctimer s) of
        None \<Rightarrow> None
      | Some node \<Rightarrow>
          if node = 0 then Some (reset_clock freq 10 s)
          else let t1 = tkey (timers s node)
               in if t1 \<le> now then Some (reset_clock freq 0 s) else Some (reset_clock freq (unat (t1 - now)) s))"

definition set_timer :: "nat \<Rightarrow> (timer \<Rightarrow> timer) \<Rightarrow> cpu \<Rightarrow> cpu" where
  "set_timer t f s = s\<lparr>timers := (timers s)(t := f (timers s t))\<rparr>"

text \<open>\<^verbatim>\<open>elapse\<close> is an \<^verbatim>\<open>int\<close>: it is sign-extended before the addition. The clock is read twice, for the deadline (\<open>now\<close>) and when the interrupt is
  programmed (\<open>now'\<close>).\<close>

definition set_cpu_timer :: "nat \<Rightarrow> 64 word \<Rightarrow> 64 word \<Rightarrow> nat \<Rightarrow> cpu \<Rightarrow> cpu res option" where
  "set_cpu_timer freq now now' t s =
     (let s = set_timer t (\<lambda>x. x\<lparr>triggered := False, tkey := now + scast (elapse x)\<rparr>) s
      in case rb_insert t (timer_cmp (timers s)) (ctimer s) of
           None \<Rightarrow> None
         | Some (Inl e) \<Rightarrow> Some (Inl e)
         | Some (Inr (r, tree)) \<Rightarrow>
             if r = 0 then timer_set_clock freq now' (s\<lparr>ctimer := tree\<rparr>) else Some (Inl Panic))"

definition cancel_cpu_timer :: "nat \<Rightarrow> 64 word \<Rightarrow> nat \<Rightarrow> cpu \<Rightarrow> cpu res option" where
  "cancel_cpu_timer freq now t s =
     (if triggered (timers s t) then Some (Inl Panic)
      else case rb_erase t (ctimer s) of
           None \<Rightarrow> None
         | Some (Inl e) \<Rightarrow> Some (Inl e)
         | Some (Inr tree) \<Rightarrow> timer_set_clock freq now (s\<lparr>ctimer := tree\<rparr>))"

section \<open>Firing timers\<close>

text \<open>The loop of \<^verbatim>\<open>timer_clock_handler\<close>, for at most \<open>n\<close> timers; \<open>None\<close> also when more would fire. \<open>clk n\<close> are the two times that the iteration with \<open>n\<close> more to come reads, in its test and when the clock is programmed.\<close>

fun fire_timers :: "nat \<Rightarrow> (nat \<Rightarrow> cpu \<Rightarrow> cpu res option) \<Rightarrow> nat \<Rightarrow> (nat \<Rightarrow> 64 word \<times> 64 word) \<Rightarrow> cpu \<Rightarrow> cpu res option" where
  "fire_timers 0 call freq clk s = None"
| "fire_timers (Suc n) call freq clk s =
     (case rb_first (ctimer s) of
        None \<Rightarrow> None
      | Some node \<Rightarrow>
          if node = 0 then Some (Inr s)
          else if fst (clk n) < tkey (timers s node) then Some (Inr s)
          else case cancel_cpu_timer freq (snd (clk n)) node s of
                 None \<Rightarrow> None
               | Some (Inl e) \<Rightarrow> Some (Inl e)
               | Some (Inr s) \<Rightarrow>
                   (case call node (set_timer node (\<lambda>x. x\<lparr>triggered := True\<rparr>) s) of
                      None \<Rightarrow> None
                    | Some (Inl e) \<Rightarrow> Some (Inl e)
                    | Some (Inr s) \<Rightarrow> fire_timers n call freq clk s))"

definition timer_clock_handler :: "nat \<Rightarrow> (nat \<Rightarrow> cpu \<Rightarrow> cpu res option) \<Rightarrow> nat \<Rightarrow> (nat \<Rightarrow> 64 word \<times> 64 word) \<Rightarrow> cpu \<Rightarrow> cpu res option" where
  "timer_clock_handler n call freq clk s =
     (case reset_clock freq 10 s of Inl e \<Rightarrow> Some (Inl e) | Inr s \<Rightarrow> fire_timers n call freq clk s)"

definition init_clock_handler :: "cpu \<Rightarrow> cpu" where
  "init_clock_handler s = set_clock_handler s"

text \<open>\<open>h\<close> is the address of \<^verbatim>\<open>hello_timer[cpuid()]\<close>.\<close>

definition hello :: "nat \<Rightarrow> 64 word \<Rightarrow> 64 word \<Rightarrow> nat \<Rightarrow> nat \<Rightarrow> cpu \<Rightarrow> cpu res option" where
  "hello freq now now' h t s = set_cpu_timer freq now now' h (set_timer t (\<lambda>x. x\<lparr>tdata := tdata x + 1\<rparr>) s)"

text \<open>\<^verbatim>\<open>set_cpu_on\<close> and \<^verbatim>\<open>set_cpu_off\<close>; \<open>trap\<close> says whether traps were enabled. Setting up the exception vector has no counterpart.\<close>

definition set_cpu_on :: "bool \<Rightarrow> nat \<Rightarrow> 64 word \<Rightarrow> 64 word \<Rightarrow> nat \<Rightarrow> cpu \<Rightarrow> cpu res option" where
  "set_cpu_on trap freq now now' h s =
     (if trap then Some (Inl Panic)
      else case reset_clock freq 10 s of
             Inl e \<Rightarrow> Some (Inl e)
           | Inr s \<Rightarrow>
               let s = s\<lparr>online := True\<rparr>;
                   s = set_timer h (\<lambda>x. x\<lparr>elapse := 5000, thandler := 0\<rparr>) s
               in set_cpu_timer freq now now' h s)"

definition set_cpu_off :: "bool \<Rightarrow> cpu \<Rightarrow> cpu res" where
  "set_cpu_off trap s = (if \<not> trap then Inl Panic else Inr (s\<lparr>online := False\<rparr>))"

section \<open>The order of timers\<close>

lemma ticks_bounds:
  fixes x :: nat
  assumes "x < 2 ^ 31 * 1000"
  shows "x mod 2 ^ 64 = x" "x div 1000 \<le> 0x7fffffff"
proof -
  have "x < 2 ^ 64" by (rule less_trans [OF assms]) simp
  then show "x mod 2 ^ 64 = x" by (rule mod_less)
  have "x div 1000 < 2 ^ 31" using assms by (rule less_mult_imp_div_less)
  then show "x div 1000 \<le> 0x7fffffff" by simp
qed

lemma sint_small:
  fixes w :: "64 word"
  assumes "unat w < 2 ^ 63"
  shows "sint w = int (unat w)" "int (unat w) < 2 ^ 63"
proof -
  show l: "int (unat w) < 2 ^ 63" using assms by (metis of_nat_less_numeral_power_cancel_iff)
  have "sint w = signed_take_bit 63 (uint w)" using sint_uint [of w] by simp
  also have "\<dots> = uint w"
  proof (rule signed_take_bit_int_eq_self)
    show "- (2 ^ 63) \<le> uint w" by (rule order_trans [of _ 0]) simp_all
    show "uint w < 2 ^ 63" using l by (simp only: uint_nat)
  qed
  finally show "sint w = int (unat w)" by (simp only: uint_nat)
qed

lemma sint_diff_order:
  fixes a b :: "64 word"
  assumes "unat a < 2 ^ 63" and "unat b < 2 ^ 63"
  shows "sint (a - b) < 0 \<longleftrightarrow> unat a < unat b" "sint (a - b) = 0 \<longleftrightarrow> unat a = unat b"
proof -
  note s = sint_small [OF assms(1)] sint_small [OF assms(2)]
  have "signed_take_bit 63 (int (unat a) - int (unat b)) = int (unat a) - int (unat b)"
  proof (rule signed_take_bit_int_eq_self)
    show "int (unat a) - int (unat b) < 2 ^ 63" by (rule le_less_trans [OF _ s(2)]) simp
    have "- (2 ^ 63) \<le> - int (unat b)" using s(4) by (simp only: neg_le_iff_le less_imp_le)
    then show "- (2 ^ 63) \<le> int (unat a) - int (unat b)" by (rule order_trans) simp
  qed
  then have "sint (a - b) = int (unat a) - int (unat b)" using sint_word_ariths(2) [of a b] unfolding s(1,3) by simp
  then show "sint (a - b) < 0 \<longleftrightarrow> unat a < unat b" "sint (a - b) = 0 \<longleftrightarrow> unat a = unat b" by linarith+
qed

lemma timer_cmp_lex:
  assumes "unat (tkey (ts l)) < 2 ^ 63" and "unat (tkey (ts r)) < 2 ^ 63"
  shows "timer_cmp ts l r \<longleftrightarrow> unat (tkey (ts l)) < unat (tkey (ts r)) \<or> unat (tkey (ts l)) = unat (tkey (ts r)) \<and> l < r"
  using sint_diff_order [OF assms] by (auto simp: timer_cmp_def Let_def)

lemma timer_order:
  assumes "\<forall>t\<in>A. unat (tkey (ts t)) < 2 ^ 63"
  shows "order_on (timer_cmp ts) A"
  unfolding order_on_def
proof (intro conjI ballI impI)
  have lex: "timer_cmp ts l r \<longleftrightarrow> unat (tkey (ts l)) < unat (tkey (ts r)) \<or> unat (tkey (ts l)) = unat (tkey (ts r)) \<and> l < r"
    if "l \<in> A" "r \<in> A" for l r by (rule timer_cmp_lex) (use assms that in blast)+
  show "\<not> timer_cmp ts x x" if "x \<in> A" for x using lex [OF that that] by simp
  show "timer_cmp ts x z" if "x \<in> A" "y \<in> A" "z \<in> A" "timer_cmp ts x y" "timer_cmp ts y z" for x y z
    using that(4,5) unfolding lex [OF that(1,2)] lex [OF that(2,3)] lex [OF that(1,3)] by linarith
  show "timer_cmp ts x y \<or> timer_cmp ts y x" if "x \<in> A" "y \<in> A" "x \<noteq> y" for x y
    using that(3) unfolding lex [OF that(1,2)] lex [OF that(2,1)] by linarith
qed

text \<open>The timers of the tree \<open>t\<close> are set: ordered by deadline, none has fired, deadlines are below \<open>2^63\<close> milliseconds.\<close>

definition timers_ok :: "cpu \<Rightarrow> rbt \<Rightarrow> bool" where
  "timers_ok s t \<longleftrightarrow> rb_rep (ctimer s) t \<and> rbt_ok t \<and> sorted_wrt (timer_cmp (timers s)) (nodes_of t)
     \<and> (\<forall>x\<in>set (nodes_of t). \<not> triggered (timers s x) \<and> unat (tkey (timers s x)) < 2 ^ 63)"

lemma sorted_wrt_cong: "(\<And>x y. x \<in> set xs \<Longrightarrow> y \<in> set xs \<Longrightarrow> P x y = Q x y) \<Longrightarrow> sorted_wrt P xs = sorted_wrt Q xs"
  by (induction xs) auto

lemma hd_deadline:
  assumes "timers_ok s t" and "x \<in> set (nodes_of t)"
  shows "unat (tkey (timers s (hd (nodes_of t)))) \<le> unat (tkey (timers s x))"
proof (cases "nodes_of t")
  case (Cons a as)
  then show ?thesis using assms timer_cmp_lex [of "timers s" a x] by (auto simp: timers_ok_def)
qed (use assms in simp)

lemma set_cpu_timer_spec:
  assumes "timers_ok s t" and "a \<notin> set (nodes_of t)" and "a \<noteq> 0" and "unat (now + scast (elapse (timers s a)) :: 64 word) < 2 ^ 63"
    and "\<forall>k\<in>insert (now + scast (elapse (timers s a))) ((\<lambda>x. tkey (timers s x)) ` set (nodes_of t)). now' < k \<longrightarrow> unat (k - now') * freq < 2 ^ 31 * 1000"
  shows "\<exists>s' t' m. set_cpu_timer freq now now' a s = Some (Inr s') \<and> timers_ok s' t' \<and> set (nodes_of t') = insert a (set (nodes_of t))
    \<and> tkey (timers s' a) = now + scast (elapse (timers s a))
    \<and> m \<in> set (nodes_of t') \<and> (\<forall>x\<in>set (nodes_of t'). unat (tkey (timers s' m)) \<le> unat (tkey (timers s' x)))
    \<and> countdown s' = (if tkey (timers s' m) \<le> now' then 0 else unat (tkey (timers s' m) - now') * freq div 1000)"
proof -
  let ?k = "now + scast (elapse (timers s a)) :: 64 word"
  define u where "u = set_timer a (\<lambda>x. x\<lparr>triggered := False, tkey := ?k\<rparr>) s"
  have ud: "set_timer a (\<lambda>x. x\<lparr>triggered := False, tkey := now + scast (elapse x)\<rparr>) s = u" by (simp add: u_def set_timer_def)
  have uk: "tkey (timers u x) = (if x = a then ?k else tkey (timers s x))" "ctimer u = ctimer s" for x by (simp_all add: u_def set_timer_def)
  have same: "timer_cmp (timers u) x y = timer_cmp (timers s) x y" if "x \<in> set (nodes_of t)" "y \<in> set (nodes_of t)" for x y
    using that assms(2) uk(1) by (auto simp: timer_cmp_def)
  have o: "order_on (timer_cmp (timers u)) (insert a (set (nodes_of t)))"
    by (rule timer_order) (use assms(1,4) uk(1) in \<open>auto simp: timers_ok_def\<close>)
  have so: "sorted_wrt (timer_cmp (timers u)) (nodes_of t)"
    using assms(1) sorted_wrt_cong [of "nodes_of t" "timer_cmp (timers u)" "timer_cmp (timers s)"] same unfolding timers_ok_def by blast
  have rr: "rb_rep (ctimer u) t" "rbt_ok t" using assms(1) uk(2) by (auto simp: timers_ok_def)
  obtain tree t' where t': "rb_insert a (timer_cmp (timers u)) (ctimer u) = Some (Inr (0, tree))" "rb_rep tree t'" "rbt_ok t'"
      "sorted_wrt (timer_cmp (timers u)) (nodes_of t')" "set (nodes_of t') = insert a (set (nodes_of t))"
    using rb_insert_spec [OF rr so assms(2,3) o] by blast
  let ?v = "u\<lparr>ctimer := tree\<rparr>" and ?m = "hd (nodes_of t')"
  have tr: "triggered (timers u x) = (x \<noteq> a \<and> triggered (timers s x))" for x by (simp add: u_def set_timer_def)
  have ok: "timers_ok ?v t'" unfolding timers_ok_def
  proof (intro conjI ballI)
    fix x
    assume "x \<in> set (nodes_of t')"
    then have "x = a \<or> x \<in> set (nodes_of t)" using t'(5) by blast
    then show "\<not> triggered (timers ?v x)" "unat (tkey (timers ?v x)) < 2 ^ 63"
      using assms(1,4) uk(1) [of x] tr [of x] unfolding timers_ok_def by (auto simp del: power_numeral)
  qed (use t' in simp_all)
  have nn: "nodes_of t' \<noteq> []" using t'(5) by (metis empty_iff empty_set insertI1)
  then have ne: "t' \<noteq> Lf" "?m \<in> set (nodes_of t')" by (metis nodes_of.simps(1), rule hd_in_set)
  have "0 \<notin> set (nodes_of t')" using rep_nz t'(2) unfolding rb_rep_def by blast
  then have m0: "?m \<noteq> 0" using ne(2) by metis
  let ?t1 = "tkey (timers u ?m)"
  have "?t1 \<in> insert ?k ((\<lambda>x. tkey (timers s x)) ` set (nodes_of t))" using ne(2) uk(1) [of ?m] unfolding t'(5) by (cases "?m = a") simp_all
  then have b: "now' < ?t1 \<Longrightarrow> unat (?t1 - now') * freq < 2 ^ 31 * 1000" using assms(5) by blast
  have "timer_set_clock freq now' ?v = Some (Inr (?v\<lparr>countdown := if ?t1 \<le> now' then 0 else unat (?t1 - now') * freq div 1000\<rparr>))"
  proof -
    have rc: "reset_clock freq (unat (?t1 - now')) ?v = Inr (?v\<lparr>countdown := unat (?t1 - now') * freq div 1000\<rparr>)" if "now' < ?t1"
      unfolding reset_clock_def Let_def ticks_bounds(1) [OF b [OF that]] using ticks_bounds(2) [OF b [OF that]] by simp
    have r0: "reset_clock freq 0 ?v = Inr (?v\<lparr>countdown := 0\<rparr>)" by (simp add: reset_clock_def)
    have "rb_first (ctimer ?v) = Some ?m" "tkey (timers ?v ?m) = ?t1" using rb_first_spec [OF t'(2)] ne(1) by simp_all
    then show ?thesis using m0 rc r0 by (cases "?t1 \<le> now'") (simp_all add: timer_set_clock_def Let_def not_le)
  qed
  then have r: "set_cpu_timer freq now now' a s = Some (Inr (?v\<lparr>countdown := if ?t1 \<le> now' then 0 else unat (?t1 - now') * freq div 1000\<rparr>))"
    using t'(1) by (simp add: set_cpu_timer_def Let_def ud)
  have d: "\<forall>x\<in>set (nodes_of t'). unat (tkey (timers u ?m)) \<le> unat (tkey (timers u x))" using hd_deadline [OF ok] by simp
  let ?s' = "?v\<lparr>countdown := if ?t1 \<le> now' then 0 else unat (?t1 - now') * freq div 1000\<rparr>"
  have ok': "timers_ok ?s' t'" using ok by (simp add: timers_ok_def)
  have "tkey (timers ?s' a) = ?k" "countdown ?s' = (if tkey (timers ?s' ?m) \<le> now' then 0 else unat (tkey (timers ?s' ?m) - now') * freq div 1000)"
    using uk(1) [of a] by simp_all
  moreover have "\<forall>x\<in>set (nodes_of t'). unat (tkey (timers ?s' ?m)) \<le> unat (tkey (timers ?s' x))" using d by simp
  ultimately show ?thesis using r ok' t'(5) ne(2) by blast
qed

text \<open>
  C27: arming a timer that is not armed keeps the timers of the CPU ordered and adds exactly this one, with the deadline counted from the first reading of the clock, and leaves the
  clock programmed for the earliest deadline of all armed timers: the interrupt comes at once when that deadline has passed at the second reading, and otherwise when the time to it has
  passed. Deadlines are below \<open>2^63\<close> milliseconds, and those in the future are less than \<open>2^31\<close> clock ticks away, which \<^verbatim>\<open>reset_clock\<close> asserts.
\<close>

theorem set_cpu_timer_programs_clock:
  assumes "timers_ok s t" and "a \<notin> set (nodes_of t)" and "a \<noteq> 0" and "unat (now + scast (elapse (timers s a)) :: 64 word) < 2 ^ 63"
    and "\<forall>k\<in>insert (now + scast (elapse (timers s a))) ((\<lambda>x. tkey (timers s x)) ` set (nodes_of t)). now' < k \<longrightarrow> unat (k - now') * freq < 2 ^ 31 * 1000"
  shows "\<exists>s' t' m. set_cpu_timer freq now now' a s = Some (Inr s') \<and> timers_ok s' t' \<and> set (nodes_of t') = insert a (set (nodes_of t))
    \<and> tkey (timers s' a) = now + scast (elapse (timers s a))
    \<and> m \<in> set (nodes_of t') \<and> (\<forall>x\<in>set (nodes_of t'). unat (tkey (timers s' m)) \<le> unat (tkey (timers s' x)))
    \<and> countdown s' = (if tkey (timers s' m) \<le> now' then 0 else unat (tkey (timers s' m) - now') * freq div 1000)"
  by (rule set_cpu_timer_spec [OF assms])

definition demo_cpu :: cpu where
  "demo_cpu = \<lparr>online = True, ctimer = \<lparr>heap = (\<lambda>_. \<lparr>rb_par = 0, rb_black = True, rb_left = 0, rb_right = 0\<rparr>), root = 0\<rparr>,
     timers = (\<lambda>_. \<lparr>triggered = True, elapse = 8, tkey = 0, thandler = 0, tdata = 0\<rparr>), countdown = 0, clock_handler = True\<rparr>"

theorem set_cpu_timer_programs_clock_witness:
  "\<exists>s1 s2 t2. set_cpu_timer 62500000 100 102 64 demo_cpu = Some (Inr s1) \<and> countdown s1 = 375000
     \<and> set_cpu_timer 62500000 200 300 128 s1 = Some (Inr s2) \<and> timers_ok s2 t2 \<and> set (nodes_of t2) = {64, 128} \<and> countdown s2 = 0"
proof -
  have ok: "timers_ok demo_cpu Lf" by (simp add: timers_ok_def demo_cpu_def rb_rep_def rbt_ok_def)
  have e: "scast (elapse (timers demo_cpu 64)) = (8 :: 64 word)" by (simp add: demo_cpu_def)
  obtain s1 t1 m where 1: "set_cpu_timer 62500000 100 102 64 demo_cpu = Some (Inr s1)" "timers_ok s1 t1" "set (nodes_of t1) = {64}"
      "tkey (timers s1 64) = 108" "m \<in> set (nodes_of t1)"
      "countdown s1 = (if tkey (timers s1 m) \<le> 102 then 0 else unat (tkey (timers s1 m) - 102) * 62500000 div 1000)"
    using set_cpu_timer_programs_clock [OF ok, of 64 100 102 62500000] by (auto simp: e)
  have e1: "elapse (timers s1 128) = 8"
    using 1(1) by (auto simp: set_cpu_timer_def set_timer_def timer_set_clock_def reset_clock_def demo_cpu_def Let_def split: option.splits sum.splits if_splits prod.splits)
  then have e1: "scast (elapse (timers s1 128)) = (8 :: 64 word)" by simp
  obtain s2 t2 m2 where 2: "set_cpu_timer 62500000 200 300 128 s1 = Some (Inr s2)" "timers_ok s2 t2" "set (nodes_of t2) = {128, 64}"
      "tkey (timers s2 128) = 208" "m2 \<in> set (nodes_of t2)" "\<forall>x\<in>set (nodes_of t2). unat (tkey (timers s2 m2)) \<le> unat (tkey (timers s2 x))"
      "countdown s2 = (if tkey (timers s2 m2) \<le> 300 then 0 else unat (tkey (timers s2 m2) - 300) * 62500000 div 1000)"
    using set_cpu_timer_programs_clock [OF 1(2), of 128 200 300 62500000] unfolding 1(3) e1 by (auto simp: 1(4))
  have "unat (tkey (timers s2 m2)) \<le> unat (208 :: 64 word)" using 2(3,4,6) by (metis insertI1)
  then have "tkey (timers s2 m2) \<le> 300" unfolding word_le_nat_alt by simp
  then have "countdown s2 = 0" using 2(7) by simp
  moreover have "countdown s1 = 375000" using 1(3-6) by simp
  moreover have "set (nodes_of t2) = {64, 128}" using 2(3) by blast
  ultimately show ?thesis using 1(1) 2(1,2) by blast
qed

end
