(* ===== verification/Shell.thy ===== *)
theory Shell
  imports Prelude
begin

text \<open>
  The shell (\<^verbatim>\<open>user/sh/main.c\<close>): tokens, the recursive descent parser, termination of the counted strings and execution.

  The line is the character array \<^verbatim>\<open>buf\<close>, a pointer into it is an index, and \<^verbatim>\<open>es\<close> is the index of its terminating NUL. A \<open>cmd\<close> is the tree
  the parser allocates; as in the C structures its words are pairs of pointers, the start and the end of the word in the line. The parser state is the
  pointer \<^verbatim>\<open>*ps\<close> and the number of bytes \<^verbatim>\<open>malloc1\<close> has handed out. \<^verbatim>\<open>exit(1)\<close> after a message is \<open>Sh_panic\<close>. The parser runs on fuel, one unit for each
  call or loop round; \<open>Sh_fuel\<close> is running out of it, and \<open>parsecmd\<close> supplies enough for every line.
  Execution is a tree of system calls whose continuations receive the result of the call.
\<close>

datatype cmd =
    EXEC "(nat \<times> nat) list"
  | REDIR cmd nat nat int int
  | PIPE cmd cmd
  | LIST cmd cmd
  | BACK cmd

datatype sh_error = Sh_panic string | Sh_fuel

type_synonym 'a sh = "sh_error + 'a"
type_synonym pst = "nat \<times> nat"

abbreviation NUL :: char where "NUL \<equiv> CHR 0x00"

definition sbind :: "'a sh \<Rightarrow> ('a \<Rightarrow> 'b sh) \<Rightarrow> 'b sh" where
  "sbind m f = (case m of Inl e \<Rightarrow> Inl e | Inr x \<Rightarrow> f x)"

definition MAXARGS :: nat where "MAXARGS = 10"
definition MAXN :: nat where "MAXN = 10000"
definition O_RDONLY :: int where "O_RDONLY = 0"
definition O_WRONLY_O_CREAT :: int where "O_WRONLY_O_CREAT = 65"

section \<open>Allocation and constructors\<close>

definition malloc1 :: "nat \<Rightarrow> nat \<Rightarrow> nat sh" where
  "malloc1 sz i = (if i + sz > MAXN then Inl (Sh_panic ''malloc1: memory used out'') else Inr (i + sz))"

definition execcmd :: "nat \<Rightarrow> (cmd \<times> nat) sh" where
  "execcmd i = sbind (malloc1 168 i) (\<lambda>i. Inr (EXEC [], i))"

definition redircmd :: "cmd \<Rightarrow> nat \<Rightarrow> nat \<Rightarrow> int \<Rightarrow> int \<Rightarrow> nat \<Rightarrow> (cmd \<times> nat) sh" where
  "redircmd subcmd file efile mode fd i = sbind (malloc1 40 i) (\<lambda>i. Inr (REDIR subcmd file efile mode fd, i))"

definition pipecmd :: "cmd \<Rightarrow> cmd \<Rightarrow> nat \<Rightarrow> (cmd \<times> nat) sh" where
  "pipecmd left right i = sbind (malloc1 24 i) (\<lambda>i. Inr (PIPE left right, i))"

definition listcmd :: "cmd \<Rightarrow> cmd \<Rightarrow> nat \<Rightarrow> (cmd \<times> nat) sh" where
  "listcmd left right i = sbind (malloc1 24 i) (\<lambda>i. Inr (LIST left right, i))"

definition backcmd :: "cmd \<Rightarrow> nat \<Rightarrow> (cmd \<times> nat) sh" where
  "backcmd subcmd i = sbind (malloc1 16 i) (\<lambda>i. Inr (BACK subcmd, i))"

section \<open>Tokens\<close>

definition whitespace :: string where
  "whitespace = [CHR '' '', CHR 0x09, CHR 0x0D, CHR 0x0A, CHR 0x0B]"

definition symbols :: string where
  "symbols = ''<|>&;()''"

text \<open>\<^verbatim>\<open>strchr\<close> also finds the terminating NUL of the set it searches.\<close>

definition strchr :: "string \<Rightarrow> char \<Rightarrow> bool" where
  "strchr toks c \<longleftrightarrow> c \<in> set toks \<or> c = NUL"

definition char_at :: "string \<Rightarrow> nat \<Rightarrow> char" where
  "char_at buf s = (if s < length buf then buf ! s else NUL)"

definition str_len :: "string \<Rightarrow> nat" where
  "str_len buf = length (takeWhile (\<lambda>c. c \<noteq> NUL) buf)"

definition cstr_at :: "string \<Rightarrow> nat \<Rightarrow> string" where
  "cstr_at buf q = takeWhile (\<lambda>c. c \<noteq> NUL) (drop q buf)"

function skip_ws :: "string \<Rightarrow> nat \<Rightarrow> nat \<Rightarrow> nat" where
  "skip_ws buf es s = (if s < es \<and> strchr whitespace (char_at buf s) then skip_ws buf es (Suc s) else s)"
  by pat_completeness auto
termination by (relation "measure (\<lambda>(buf, es, s). es - s)") auto

definition word_char :: "char \<Rightarrow> bool" where
  "word_char c \<longleftrightarrow> \<not> strchr whitespace c \<and> \<not> strchr symbols c"

function word_end :: "string \<Rightarrow> nat \<Rightarrow> nat \<Rightarrow> nat" where
  "word_end buf es s = (if s < es \<and> word_char (char_at buf s) then word_end buf es (Suc s) else s)"
  by pat_completeness auto
termination by (relation "measure (\<lambda>(buf, es, s). es - s)") auto

declare skip_ws.simps [simp del] word_end.simps [simp del]

definition scan_token :: "string \<Rightarrow> nat \<Rightarrow> nat \<Rightarrow> char \<times> nat" where
  "scan_token buf es s =
     (let c = char_at buf s in
      if c = NUL then (c, s)
      else if c \<in> set ''|();&<'' then (c, Suc s)
      else if c = CHR ''>'' then
        (if char_at buf (Suc s) = CHR ''>'' then (CHR ''+'', Suc (Suc s)) else (c, Suc s))
      else (CHR ''a'', word_end buf es s))"

definition gettoken :: "string \<Rightarrow> nat \<Rightarrow> nat \<Rightarrow> char \<times> nat \<times> nat \<times> nat" where
  "gettoken buf es ps =
     (let q = skip_ws buf es ps; (ret, eq) = scan_token buf es q
      in (ret, q, eq, skip_ws buf es eq))"

definition peek :: "string \<Rightarrow> nat \<Rightarrow> nat \<Rightarrow> string \<Rightarrow> bool \<times> nat" where
  "peek buf es ps toks =
     (let s = skip_ws buf es ps in (char_at buf s \<noteq> NUL \<and> strchr toks (char_at buf s), s))"

section \<open>Parsing\<close>

fun parseredirs :: "nat \<Rightarrow> string \<Rightarrow> nat \<Rightarrow> cmd \<Rightarrow> pst \<Rightarrow> (cmd \<times> pst) sh" where
  "parseredirs 0 buf es cmd st = Inl Sh_fuel"
| "parseredirs (Suc n) buf es cmd (s, i) =
     (let (more, s) = peek buf es s ''<>'' in
      if \<not> more then Inr (cmd, s, i)
      else let (tok, _, _, s) = gettoken buf es s; (a, q, eq, s) = gettoken buf es s in
        if a \<noteq> CHR ''a'' then Inl (Sh_panic ''missing file for redirection'')
        else sbind (if tok = CHR ''<'' then redircmd cmd q eq O_RDONLY 0 i
                    else redircmd cmd q eq O_WRONLY_O_CREAT 1 i)
               (\<lambda>(cmd, i). parseredirs n buf es cmd (s, i)))"

text \<open>\<^verbatim>\<open>parseexec\<close> keeps a pointer to the \<^verbatim>\<open>execcmd\<close> at the bottom of the redirections it builds and stores the words there.\<close>

fun add_arg :: "nat \<Rightarrow> nat \<Rightarrow> cmd \<Rightarrow> cmd" where
  "add_arg q eq (EXEC args) = EXEC (args @ [(q, eq)])"
| "add_arg q eq (REDIR c f ef mode fd) = REDIR (add_arg q eq c) f ef mode fd"
| "add_arg q eq c = c"

fun parseargs :: "nat \<Rightarrow> string \<Rightarrow> nat \<Rightarrow> cmd \<Rightarrow> nat \<Rightarrow> pst \<Rightarrow> (cmd \<times> pst) sh" where
  "parseargs 0 buf es ret argc st = Inl Sh_fuel"
| "parseargs (Suc n) buf es ret argc (s, i) =
     (let (stop, s) = peek buf es s ''|)&;'' in
      if stop then Inr (ret, s, i)
      else let (tok, q, eq, s) = gettoken buf es s in
        if tok = NUL then Inr (ret, s, i)
        else if tok \<noteq> CHR ''a'' then Inl (Sh_panic ''syntax'')
        else if Suc argc \<ge> MAXARGS then Inl (Sh_panic ''too many args'')
        else sbind (parseredirs n buf es (add_arg q eq ret) (s, i))
               (\<lambda>(ret, st). parseargs n buf es ret (Suc argc) st))"

fun parsebacks :: "nat \<Rightarrow> string \<Rightarrow> nat \<Rightarrow> cmd \<Rightarrow> pst \<Rightarrow> (cmd \<times> pst) sh" where
  "parsebacks 0 buf es cmd st = Inl Sh_fuel"
| "parsebacks (Suc n) buf es cmd (s, i) =
     (let (more, s) = peek buf es s ''&'' in
      if \<not> more then Inr (cmd, s, i)
      else let (_, _, _, s) = gettoken buf es s
           in sbind (backcmd cmd i) (\<lambda>(cmd, i). parsebacks n buf es cmd (s, i)))"

function (sequential) parseline :: "nat \<Rightarrow> string \<Rightarrow> nat \<Rightarrow> pst \<Rightarrow> (cmd \<times> pst) sh"
  and parsepipe :: "nat \<Rightarrow> string \<Rightarrow> nat \<Rightarrow> pst \<Rightarrow> (cmd \<times> pst) sh"
  and parseexec :: "nat \<Rightarrow> string \<Rightarrow> nat \<Rightarrow> pst \<Rightarrow> (cmd \<times> pst) sh"
  and parseblock :: "nat \<Rightarrow> string \<Rightarrow> nat \<Rightarrow> pst \<Rightarrow> (cmd \<times> pst) sh" where
  "parseline 0 buf es st = Inl Sh_fuel"
| "parseline (Suc n) buf es st =
     sbind (parsepipe n buf es st) (\<lambda>(cmd, st).
     sbind (parsebacks n buf es cmd st) (\<lambda>(cmd, s, i).
       let (more, s) = peek buf es s '';'' in
       if \<not> more then Inr (cmd, s, i)
       else let (_, _, _, s) = gettoken buf es s in
         sbind (parseline n buf es (s, i)) (\<lambda>(right, s, i).
         sbind (listcmd cmd right i) (\<lambda>(cmd, i). Inr (cmd, s, i)))))"
| "parsepipe 0 buf es st = Inl Sh_fuel"
| "parsepipe (Suc n) buf es st =
     sbind (parseexec n buf es st) (\<lambda>(cmd, s, i).
       let (more, s) = peek buf es s ''|'' in
       if \<not> more then Inr (cmd, s, i)
       else let (_, _, _, s) = gettoken buf es s in
         sbind (parsepipe n buf es (s, i)) (\<lambda>(right, s, i).
         sbind (pipecmd cmd right i) (\<lambda>(cmd, i). Inr (cmd, s, i))))"
| "parseexec 0 buf es st = Inl Sh_fuel"
| "parseexec (Suc n) buf es (s, i) =
     (let (block, s) = peek buf es s ''('' in
      if block then parseblock n buf es (s, i)
      else sbind (execcmd i) (\<lambda>(ret, i).
           sbind (parseredirs n buf es ret (s, i)) (\<lambda>(ret, st).
             parseargs n buf es ret 0 st)))"
| "parseblock 0 buf es st = Inl Sh_fuel"
| "parseblock (Suc n) buf es (s, i) =
     (let (open_p, s) = peek buf es s ''('' in
      if \<not> open_p then Inl (Sh_panic ''parseblock'')
      else let (_, _, _, s) = gettoken buf es s in
        sbind (parseline n buf es (s, i)) (\<lambda>(cmd, s, i).
          let (close_p, s) = peek buf es s '')'' in
          if \<not> close_p then Inl (Sh_panic ''syntax - missing )'')
          else let (_, _, _, s) = gettoken buf es s
               in parseredirs n buf es cmd (s, i)))"
  by pat_completeness auto
termination
  by (relation "measure (case_sum (case_sum fst fst) (case_sum fst fst))") auto

definition terminate_words :: "(nat \<times> nat) list \<Rightarrow> string \<Rightarrow> string" where
  "terminate_words args buf = fold (\<lambda>(q, eq) b. b[eq := NUL]) args buf"

fun nulterminate :: "cmd \<Rightarrow> string \<Rightarrow> string" where
  "nulterminate (EXEC args) buf = terminate_words args buf"
| "nulterminate (REDIR c file efile mode fd) buf = (nulterminate c buf)[efile := NUL]"
| "nulterminate (PIPE l r) buf = nulterminate r (nulterminate l buf)"
| "nulterminate (LIST l r) buf = nulterminate r (nulterminate l buf)"
| "nulterminate (BACK c) buf = nulterminate c buf"

definition parse_fuel :: "nat \<Rightarrow> nat" where
  "parse_fuel es = 4 * es + 4"

definition parsecmd :: "string \<Rightarrow> nat \<Rightarrow> (cmd \<times> string \<times> nat) sh" where
  "parsecmd buf i =
     (let es = str_len buf in
      sbind (parseline (parse_fuel es) buf es (0, i)) (\<lambda>(cmd, s, i).
        let (_, s) = peek buf es s [] in
        if s \<noteq> es then Inl (Sh_panic ''syntax'')
        else Inr (cmd, nulterminate cmd buf, i)))"

section \<open>Execution\<close>

datatype prog =
    Exit_p int
  | Exec_p string "string list" prog
  | Open_p string int "int \<Rightarrow> prog"
  | Close_p int prog
  | Dup_p int prog
  | Pipe_p "(int \<times> int) option \<Rightarrow> prog"
  | Fork_p "int \<Rightarrow> prog"
  | Wait_p prog
  | Chdir_p string "int \<Rightarrow> prog"
  | Print_p string prog

definition sh_PANIC :: "string \<Rightarrow> prog" where
  "sh_PANIC s = Print_p (s @ [CHR 0x0A]) (Exit_p 1)"

definition fork1 :: "(int \<Rightarrow> prog) \<Rightarrow> prog" where
  "fork1 k = Fork_p (\<lambda>pid. if pid = - 1 then sh_PANIC ''fork'' else k pid)"

fun runcmd :: "string \<Rightarrow> cmd \<Rightarrow> prog" where
  "runcmd buf (EXEC args) =
     (case args of
        [] \<Rightarrow> Exit_p 0
      | (q, _) # _ \<Rightarrow>
          Exec_p (cstr_at buf q) (map (\<lambda>(q, _). cstr_at buf q) args)
            (Print_p (''exec '' @ cstr_at buf q @ '' failed'' @ [CHR 0x0A]) (Exit_p 0)))"
| "runcmd buf (REDIR c file efile mode fd) =
     Close_p fd (Open_p (cstr_at buf file) mode (\<lambda>r.
       if r < 0 then Print_p (''open '' @ cstr_at buf file @ '' failed'' @ [CHR 0x0A]) (Exit_p 1)
       else runcmd buf c))"
| "runcmd buf (LIST l r) =
     fork1 (\<lambda>pid. if pid = 0 then runcmd buf l else Wait_p (runcmd buf r))"
| "runcmd buf (PIPE l r) =
     Pipe_p (\<lambda>p. case p of
        None \<Rightarrow> sh_PANIC ''pipe''
      | Some (p0, p1) \<Rightarrow>
          fork1 (\<lambda>pid.
            if pid = 0 then Close_p 1 (Dup_p p1 (Close_p p0 (Close_p p1 (runcmd buf l))))
            else fork1 (\<lambda>pid.
              if pid = 0 then Close_p 0 (Dup_p p0 (Close_p p0 (Close_p p1 (runcmd buf r))))
              else Close_p p0 (Close_p p1 (Wait_p (Wait_p (Exit_p 0)))))))"
| "runcmd buf (BACK c) =
     fork1 (\<lambda>pid. if pid = 0 then runcmd buf c else Exit_p 0)"

definition fgets :: "nat \<Rightarrow> string \<Rightarrow> string \<times> string" where
  "fgets n inp =
     (let chunk = take (n - 1) inp; before = takeWhile (\<lambda>c. c \<noteq> CHR 0x0A) chunk;
          line = (if length before < length chunk then before @ [CHR 0x0A] else chunk)
      in (line, drop (length line) inp))"

text \<open>\<^verbatim>\<open>getcmd\<close> returns the line buffer, filled with zeros behind the line, and the rest of the input; no line is left when the buffer is empty.\<close>

definition getcmd :: "nat \<Rightarrow> string \<Rightarrow> (string \<times> string) option" where
  "getcmd nbuf inp =
     (let (line, rest) = fgets nbuf inp; buf = line @ replicate (nbuf - length line) NUL
      in if char_at buf 0 = NUL then None else Some (buf, rest))"

lemma fgets_rest: "fgets n inp = (line, rest) \<Longrightarrow> rest = drop (length line) inp \<and> (1 < n \<and> inp \<noteq> [] \<longrightarrow> line \<noteq> [])"
  by (cases "n - 1"; cases inp) (auto simp: fgets_def Let_def split: if_splits)

lemma getcmd_shorter:
  assumes "getcmd 100 inp = Some (buf, rest)"
  shows "length rest < length inp"
proof -
  obtain line where f: "fgets 100 inp = (line, rest)"
    and nz: "char_at (line @ replicate (100 - length line) NUL) 0 \<noteq> NUL"
    using assms by (auto simp: getcmd_def Let_def split: prod.splits if_splits)
  have "inp \<noteq> []"
  proof
    assume "inp = []"
    then have "line = []" using f by (simp add: fgets_def Let_def)
    then show False using nz by (simp add: char_at_def)
  qed
  with fgets_rest [OF f] show ?thesis by simp
qed

definition msg_of :: "sh_error \<Rightarrow> string" where
  "msg_of e = (case e of Sh_panic s \<Rightarrow> s | Sh_fuel \<Rightarrow> [])"

function main_loop :: "string \<Rightarrow> prog" where
  "main_loop inp = Print_p ''$ ''
     (case getcmd 100 inp of
        None \<Rightarrow> Print_p ''sh end---------------'' (Exit_p 0)
      | Some (buf, rest) \<Rightarrow>
          if char_at buf 0 = CHR ''c'' \<and> char_at buf 1 = CHR ''d'' \<and> char_at buf 2 = CHR '' '' then
            let buf = buf[str_len buf - 1 := NUL] in
            Chdir_p (cstr_at buf 3) (\<lambda>r.
              if r < 0 then Print_p (''cannot cd '' @ cstr_at buf 3) (main_loop rest) else main_loop rest)
          else fork1 (\<lambda>pid.
            if pid = 0 then
              (case parsecmd buf 0 of
                 Inl e \<Rightarrow> sh_PANIC (msg_of e)
               | Inr (cmd, buf, _) \<Rightarrow> runcmd buf cmd)
            else Wait_p (main_loop rest)))"
  by pat_completeness auto
termination
  by (relation "measure length") (auto dest: getcmd_shorter)

declare main_loop.simps [simp del]

section \<open>The parser stays in the line, ends, and delimits words\<close>

definition line_ok :: "string \<Rightarrow> nat \<Rightarrow> bool" where
  "line_ok buf es \<longleftrightarrow> es < length buf \<and> buf ! es = NUL \<and> (\<forall>k<es. buf ! k \<noteq> NUL)"

definition word_at :: "string \<Rightarrow> nat \<Rightarrow> nat \<times> nat \<Rightarrow> bool" where
  "word_at buf es w \<longleftrightarrow>
     fst w < snd w \<and> snd w \<le> es \<and> (\<forall>k. fst w \<le> k \<and> k < snd w \<longrightarrow> word_char (buf ! k)) \<and> \<not> word_char (buf ! snd w)"

fun words_of :: "cmd \<Rightarrow> (nat \<times> nat) list" where
  "words_of (EXEC args) = args"
| "words_of (REDIR c file efile mode fd) = words_of c @ [(file, efile)]"
| "words_of (PIPE l r) = words_of l @ words_of r"
| "words_of (LIST l r) = words_of l @ words_of r"
| "words_of (BACK c) = words_of c"

lemma str_len_ok:
  assumes "NUL \<in> set buf"
  shows "line_ok buf (str_len buf)"
proof -
  let ?P = "\<lambda>c. c \<noteq> NUL"
  have less: "str_len buf < length buf"
    using assms unfolding str_len_def
    by (metis (mono_tags, lifting) length_takeWhile_le order_le_imp_less_or_eq set_takeWhileD takeWhile_eq_take take_all_iff order_refl)
  moreover have "\<not> ?P (buf ! str_len buf)"
    unfolding str_len_def by (rule nth_length_takeWhile) (use less in \<open>simp add: str_len_def\<close>)
  moreover have "buf ! k \<noteq> NUL" if "k < str_len buf" for k
    using that unfolding str_len_def by (metis (mono_tags, lifting) nth_mem set_takeWhileD takeWhile_nth)
  ultimately show ?thesis by (simp add: line_ok_def)
qed

lemma char_at_line: "line_ok buf es \<Longrightarrow> s \<le> es \<Longrightarrow> char_at buf s = buf ! s"
  by (simp add: char_at_def line_ok_def)

lemma nonnul_inside:
  assumes "line_ok buf es" "s \<le> es"
  shows "char_at buf s \<noteq> NUL \<longleftrightarrow> s < es"
  using assms by (auto simp: char_at_def line_ok_def le_less)

lemma skip_ws_bounds: "s \<le> es \<Longrightarrow> s \<le> skip_ws buf es s \<and> skip_ws buf es s \<le> es"
  by (induction buf es s rule: skip_ws.induct) (subst (1 2) skip_ws.simps, auto)

lemma skip_ws_stops: "skip_ws buf es s < es \<Longrightarrow> \<not> strchr whitespace (char_at buf (skip_ws buf es s))"
  by (induction buf es s rule: skip_ws.induct) (subst (asm) (2) skip_ws.simps, subst skip_ws.simps, auto split: if_splits)

lemma word_end_spec:
  "s \<le> es \<Longrightarrow> s \<le> word_end buf es s \<and> word_end buf es s \<le> es
     \<and> (\<forall>k. s \<le> k \<and> k < word_end buf es s \<longrightarrow> word_char (char_at buf k))
     \<and> (word_end buf es s < es \<longrightarrow> \<not> word_char (char_at buf (word_end buf es s)))"
proof (induction buf es s rule: word_end.induct)
  case (1 buf es s)
  show ?case
  proof (cases "s < es \<and> word_char (char_at buf s)")
    case True
    then have "word_end buf es s = word_end buf es (Suc s)" by (subst word_end.simps) simp
    moreover have "Suc s \<le> es" using True by simp
    ultimately show ?thesis using "1.IH" [OF True] True
      by (metis Suc_leD not_less_eq_eq le_antisym)
  next
    case False
    then have "word_end buf es s = s" by (subst word_end.simps) auto
    with 1 False show ?thesis by auto
  qed
qed

lemma not_word_char_NUL [simp]: "\<not> word_char NUL"
  by (simp add: word_char_def strchr_def)

text \<open>What a token is: at the end of the line nothing, otherwise at least one character, and a maximal word when the token is \<^verbatim>\<open>'a'\<close>.\<close>

lemma scan_token_spec:
  assumes ok: "line_ok buf es" and le: "s \<le> es" and ws: "s < es \<Longrightarrow> \<not> strchr whitespace (char_at buf s)"
    and sc: "scan_token buf es s = (ret, eq)"
  shows "s \<le> eq \<and> eq \<le> es \<and> (ret = NUL \<longleftrightarrow> s = es) \<and> (s < es \<longrightarrow> s < eq) \<and> (ret = CHR ''a'' \<longrightarrow> word_at buf es (s, eq))"
proof (cases "s = es")
  case True
  then have "char_at buf s = NUL" using nonnul_inside [OF ok le] by simp
  then show ?thesis using sc True by (auto simp: scan_token_def)
next
  case False
  then have lt: "s < es" using le by simp
  have nn: "char_at buf s \<noteq> NUL" using nonnul_inside [OF ok le] lt by simp
  consider (sym) "char_at buf s \<in> set ''|();&<''" | (gt) "char_at buf s = CHR ''>''"
    | (word) "char_at buf s \<notin> set ''|();&<''" "char_at buf s \<noteq> CHR ''>''" by blast
  then show ?thesis
  proof cases
    case sym
    then have "ret = char_at buf s" "eq = Suc s" using sc nn by (auto simp: scan_token_def Let_def)
    moreover have "char_at buf s \<noteq> CHR ''a''" using sym by auto
    ultimately show ?thesis using lt nn by simp
  next
    case gt
    have "Suc s \<le> es" using lt by simp
    from nonnul_inside [OF ok this] have "char_at buf (Suc s) = CHR ''>'' \<Longrightarrow> Suc s < es" by auto
    then show ?thesis using sc gt lt by (auto simp: scan_token_def Let_def split: if_splits)
  next
    case word
    then have e: "ret = CHR ''a''" "eq = word_end buf es s" using sc nn by (auto simp: scan_token_def Let_def)
    have "word_char (char_at buf s)"
      using word nn ws [OF lt] by (auto simp: word_char_def strchr_def symbols_def)
    then have "word_end buf es s = word_end buf es (Suc s)" using lt by (subst word_end.simps) simp
    then have "s < word_end buf es s" using word_end_spec [of "Suc s" es buf] lt by simp
    moreover have w: "word_end buf es s \<le> es" using word_end_spec [of s es buf] le by simp
    moreover have "word_char (buf ! k)" if "s \<le> k" "k < word_end buf es s" for k
      using word_end_spec [of s es buf] le that w char_at_line [OF ok, of k] by auto
    moreover have "\<not> word_char (buf ! word_end buf es s)"
      using word_end_spec [of s es buf] le w char_at_line [OF ok w] ok by (auto simp: line_ok_def le_less)
    ultimately show ?thesis using e lt by (simp add: word_at_def)
  qed
qed

lemma gettoken_spec:
  assumes ok: "line_ok buf es" and le: "ps \<le> es" and g: "gettoken buf es ps = (ret, q, eq, s)"
  shows "ps \<le> s" "s \<le> es" "ret = CHR ''a'' \<Longrightarrow> word_at buf es (q, eq)" "ret \<noteq> NUL \<Longrightarrow> ps < s"
proof -
  have q: "q = skip_ws buf es ps" and sc: "scan_token buf es q = (ret, eq)" and s: "s = skip_ws buf es eq"
    using g by (auto simp: gettoken_def Let_def split: prod.splits)
  have q1: "ps \<le> q" "q \<le> es" using skip_ws_bounds [OF le] q by auto
  have ws: "q < es \<Longrightarrow> \<not> strchr whitespace (char_at buf q)" using skip_ws_stops q by blast
  from scan_token_spec [OF ok q1(2) ws sc]
  have sp: "q \<le> eq" "eq \<le> es" "ret = NUL \<longleftrightarrow> q = es" "q < es \<longrightarrow> q < eq" "ret = CHR ''a'' \<longrightarrow> word_at buf es (q, eq)" by auto
  have s1: "eq \<le> s" "s \<le> es" using skip_ws_bounds [OF sp(2)] s by auto
  show "ps \<le> s" "s \<le> es" "ret = CHR ''a'' \<Longrightarrow> word_at buf es (q, eq)" using q1 sp s1 by auto
  show "ps < s" if "ret \<noteq> NUL" using that q1 sp s1 by auto
qed

lemma peek_spec:
  assumes ok: "line_ok buf es" and le: "ps \<le> es" and p: "peek buf es ps toks = (r, s)"
  shows "ps \<le> s" "s \<le> es" "r \<Longrightarrow> s < es"
  using skip_ws_bounds [OF le, of buf] nonnul_inside [OF ok, of s] p by (auto simp: peek_def Let_def)

text \<open>Where a token character was seen, \<^verbatim>\<open>gettoken\<close> advances.\<close>

lemma gettoken_advances:
  assumes ok: "line_ok buf es" and lt: "s < es" and ws: "\<not> strchr whitespace (char_at buf s)"
    and g: "gettoken buf es s = (ret, q, eq, s')"
  shows "s < s'"
proof -
  have q: "q = s" using g ws by (auto simp: gettoken_def Let_def skip_ws.simps [of buf es s] split: prod.splits)
  have "scan_token buf es s = (ret, eq)" using g q by (auto simp: gettoken_def Let_def split: prod.splits)
  from scan_token_spec [OF ok _ _ this] ws lt have "s < eq" "eq \<le> es" by auto
  moreover have "s' = skip_ws buf es eq" using g by (auto simp: gettoken_def Let_def split: prod.splits)
  ultimately show ?thesis using skip_ws_bounds [of eq es buf] by simp
qed

lemma peek_token_advances:
  assumes ok: "line_ok buf es" and le: "ps \<le> es" and p: "peek buf es ps toks = (True, s)"
    and g: "gettoken buf es s = (ret, q, eq, s')"
  shows "ps < s'" "s' \<le> es"
proof -
  have s: "s = skip_ws buf es ps" using p by (simp add: peek_def Let_def)
  have "s < es" "ps \<le> s" using peek_spec [OF ok le p] by auto
  with gettoken_advances [OF ok _ _ g] skip_ws_stops s show "ps < s'" by fastforce
  show "s' \<le> es" using gettoken_spec(2) [OF ok _ g] \<open>s < es\<close> by simp
qed

text \<open>Redirections name standard input or output.\<close>

fun redirs_ok :: "cmd \<Rightarrow> bool" where
  "redirs_ok (EXEC args) = True"
| "redirs_ok (REDIR c f ef mode fd) = ((fd = 0 \<or> fd = 1) \<and> redirs_ok c)"
| "redirs_ok (PIPE l r) = (redirs_ok l \<and> redirs_ok r)"
| "redirs_ok (LIST l r) = (redirs_ok l \<and> redirs_ok r)"
| "redirs_ok (BACK c) = redirs_ok c"

text \<open>A parser started at \<open>s\<close> does not run out of fuel, and the command it returns stands between \<open>s\<close> and the pointer it leaves.\<close>

definition words_ok :: "string \<Rightarrow> nat \<Rightarrow> cmd \<Rightarrow> bool" where
  "words_ok buf es c \<longleftrightarrow> (\<forall>w \<in> set (words_of c). word_at buf es w) \<and> redirs_ok c"

definition parses :: "string \<Rightarrow> nat \<Rightarrow> nat \<Rightarrow> (cmd \<times> pst) sh \<Rightarrow> bool" where
  "parses buf es s r \<longleftrightarrow>
     (case r of Inl e \<Rightarrow> e \<noteq> Sh_fuel | Inr (c, s', i) \<Rightarrow> s \<le> s' \<and> s' \<le> es \<and> words_ok buf es c)"

lemma words_ok_simps [simp]:
  "words_ok buf es (EXEC [])"
  "words_ok buf es (REDIR c f ef mode fd) \<longleftrightarrow> words_ok buf es c \<and> word_at buf es (f, ef) \<and> (fd = 0 \<or> fd = 1)"
  "words_ok buf es (PIPE l r) \<longleftrightarrow> words_ok buf es l \<and> words_ok buf es r"
  "words_ok buf es (LIST l r) \<longleftrightarrow> words_ok buf es l \<and> words_ok buf es r"
  "words_ok buf es (BACK c) \<longleftrightarrow> words_ok buf es c"
  by (auto simp: words_ok_def)

lemma words_ok_add_arg: "words_ok buf es c \<Longrightarrow> word_at buf es (q, eq) \<Longrightarrow> words_ok buf es (add_arg q eq c)"
  by (induction q eq c rule: add_arg.induct) (auto simp: words_ok_def)

lemma parses_simps [simp]:
  "parses buf es s (Inr (c, s', i)) \<longleftrightarrow> s \<le> s' \<and> s' \<le> es \<and> words_ok buf es c"
  "parses buf es s (Inl (Sh_panic m))"
  by (auto simp: parses_def)

lemma parses_bind:
  assumes "parses buf es s0 m" "s \<le> s0"
    and "\<And>c s' i. s0 \<le> s' \<Longrightarrow> s' \<le> es \<Longrightarrow> words_ok buf es c \<Longrightarrow> parses buf es s (f (c, s', i))"
  shows "parses buf es s (sbind m f)"
proof (cases m)
  case (Inr r)
  then obtain c s' i where "m = Inr (c, s', i)" by (cases r) auto
  with assms show ?thesis by (simp add: sbind_def)
qed (use assms in \<open>simp add: parses_def sbind_def\<close>)

lemma parses_weaken: "parses buf es s0 m \<Longrightarrow> s \<le> s0 \<Longrightarrow> parses buf es s m"
  by (auto simp: parses_def split: sum.splits prod.splits)

lemma parses_exec: "(\<And>i'. parses buf es s (f (EXEC [], i'))) \<Longrightarrow> parses buf es s (sbind (execcmd i) f)"
  by (auto simp: sbind_def execcmd_def malloc1_def)

lemma parses_redir:
  "(\<And>i'. parses buf es s (f (REDIR c q eq mode fd, i'))) \<Longrightarrow> parses buf es s (sbind (redircmd c q eq mode fd i) f)"
  by (auto simp: sbind_def redircmd_def malloc1_def)

lemma parses_pipe: "(\<And>i'. parses buf es s (f (PIPE l r, i'))) \<Longrightarrow> parses buf es s (sbind (pipecmd l r i) f)"
  by (auto simp: sbind_def pipecmd_def malloc1_def)

lemma parses_list: "(\<And>i'. parses buf es s (f (LIST l r, i'))) \<Longrightarrow> parses buf es s (sbind (listcmd l r i) f)"
  by (auto simp: sbind_def listcmd_def malloc1_def)

lemma parses_back: "(\<And>i'. parses buf es s (f (BACK c, i'))) \<Longrightarrow> parses buf es s (sbind (backcmd c i) f)"
  by (auto simp: sbind_def backcmd_def malloc1_def)

lemma parseredirs_parses:
  assumes ok: "line_ok buf es"
  shows "s \<le> es \<Longrightarrow> es - s < n \<Longrightarrow> words_ok buf es c \<Longrightarrow> parses buf es s (parseredirs n buf es c (s, i))"
proof (induction n arbitrary: s c i)
  case (Suc n)
  obtain more s1 where p: "peek buf es s ''<>'' = (more, s1)" by fastforce
  obtain tok q1 eq1 s2 where g1: "gettoken buf es s1 = (tok, q1, eq1, s2)" by (metis prod_cases4)
  obtain a q eq s3 where g2: "gettoken buf es s2 = (a, q, eq, s3)" by (metis prod_cases4)
  note ps = peek_spec [OF ok Suc.prems(1) p]
  show ?case
  proof (cases "more \<and> a = CHR ''a''")
    case True
    then have adv: "s < s2" "s2 \<le> es" using peek_token_advances [OF ok Suc.prems(1) _ g1] p by auto
    from gettoken_spec [OF ok adv(2) g2] True
    have g: "s2 \<le> s3" "s3 \<le> es" "word_at buf es (q, eq)" by auto
    have "parses buf es s (parseredirs n buf es (REDIR c q eq m fd) (s3, i'))" if "fd = 0 \<or> fd = 1" for m fd i'
      by (rule parses_weaken, rule Suc.IH) (use g adv Suc.prems that in auto)
    then have "parses buf es s (sbind (redircmd c q eq m fd i) (\<lambda>(cmd, i). parseredirs n buf es cmd (s3, i)))" if "fd = 0 \<or> fd = 1" for m fd
      using that by (auto intro: parses_redir)
    then show ?thesis using True by (simp add: p g1 g2)
  qed (use ps Suc.prems in \<open>auto simp: p g1 g2\<close>)
qed simp

lemma parseargs_parses:
  assumes ok: "line_ok buf es"
  shows "s \<le> es \<Longrightarrow> es - s < n \<Longrightarrow> words_ok buf es c \<Longrightarrow> parses buf es s (parseargs n buf es c argc (s, i))"
proof (induction n arbitrary: s c i argc)
  case (Suc n)
  obtain stop s1 where p: "peek buf es s ''|)&;'' = (stop, s1)" by fastforce
  obtain tok q eq s2 where g: "gettoken buf es s1 = (tok, q, eq, s2)" by (metis prod_cases4)
  note ps = peek_spec [OF ok Suc.prems(1) p]
  note gs = gettoken_spec [OF ok ps(2) g]
  show ?case
  proof (cases "\<not> stop \<and> tok = CHR ''a'' \<and> Suc argc < MAXARGS")
    case True
    have w: "words_ok buf es (add_arg q eq c)" using words_ok_add_arg Suc.prems(3) gs(3) True by blast
    have adv: "s < s2" using gs(4) ps(1) True by simp
    have "parses buf es s (sbind (parseredirs n buf es (add_arg q eq c) (s2, i))
            (\<lambda>(ret, st). parseargs n buf es ret (Suc argc) st))"
    proof (rule parses_bind [of _ _ s2])
      show "parses buf es s2 (parseredirs n buf es (add_arg q eq c) (s2, i))"
        by (rule parseredirs_parses [OF ok gs(2) _ w]) (use adv gs(2) Suc.prems in simp)
    next
      fix c' s' i' assume "s2 \<le> s'" "s' \<le> es" "words_ok buf es c'"
      then have "parses buf es s' (parseargs n buf es c' (Suc argc) (s', i'))"
        using adv Suc.prems by (intro Suc.IH) auto
      then show "parses buf es s ((\<lambda>(ret, st). parseargs n buf es ret (Suc argc) st) (c', s', i'))"
        using parses_weaken \<open>s2 \<le> s'\<close> adv by fastforce
    qed (use adv in simp)
    then show ?thesis using True by (simp add: p g)
  qed (use ps gs Suc.prems in \<open>auto simp: p g\<close>)
qed simp

lemma parsebacks_parses:
  assumes ok: "line_ok buf es"
  shows "s \<le> es \<Longrightarrow> es - s < n \<Longrightarrow> words_ok buf es c \<Longrightarrow> parses buf es s (parsebacks n buf es c (s, i))"
proof (induction n arbitrary: s c i)
  case (Suc n)
  obtain more s1 where p: "peek buf es s ''&'' = (more, s1)" by fastforce
  obtain tok q eq s2 where g: "gettoken buf es s1 = (tok, q, eq, s2)" by (metis prod_cases4)
  note ps = peek_spec [OF ok Suc.prems(1) p]
  show ?case
  proof (cases more)
    case True
    then have adv: "s < s2" "s2 \<le> es" using peek_token_advances [OF ok Suc.prems(1) _ g] p by auto
    have "parses buf es s (parsebacks n buf es (BACK c) (s2, i'))" for i'
      by (rule parses_weaken, rule Suc.IH) (use adv Suc.prems in auto)
    then show ?thesis using True by (auto simp: p g intro: parses_back)
  qed (use ps Suc.prems in \<open>auto simp: p g\<close>)
qed simp

definition grammar_parses :: "nat \<Rightarrow> string \<Rightarrow> nat \<Rightarrow> bool" where
  "grammar_parses n buf es \<longleftrightarrow> (\<forall>s i. s \<le> es \<longrightarrow>
     (4 * (es - s) + 4 \<le> n \<longrightarrow> parses buf es s (parseline n buf es (s, i)))
   \<and> (4 * (es - s) + 3 \<le> n \<longrightarrow> parses buf es s (parsepipe n buf es (s, i)))
   \<and> (4 * (es - s) + 2 \<le> n \<longrightarrow> parses buf es s (parseexec n buf es (s, i)))
   \<and> (4 * (es - s) + 1 \<le> n \<longrightarrow> parses buf es s (parseblock n buf es (s, i))))"

lemma parseblock_step:
  assumes ok: "line_ok buf es" and IH: "grammar_parses n buf es" and le: "s \<le> es" and n: "4 * (es - s) \<le> n"
  shows "parses buf es s (parseblock (Suc n) buf es (s, i))"
proof -
  obtain r s1 where p: "peek buf es s ''('' = (r, s1)" by fastforce
  obtain tok q eq s2 where g: "gettoken buf es s1 = (tok, q, eq, s2)" by (metis prod_cases4)
  show ?thesis
  proof (cases r)
    case True
    then have adv: "s < s2" "s2 \<le> es" using peek_token_advances [OF ok le _ g] p by auto
    have line: "parses buf es s2 (parseline n buf es (s2, i))"
      using IH adv n by (simp add: grammar_parses_def)
    have "parses buf es s (let (close_p, s) = peek buf es s' '')'' in
          if \<not> close_p then Inl (Sh_panic ''syntax - missing )'')
          else let (_, _, _, s) = gettoken buf es s in parseredirs n buf es c (s, i'))"
      if s': "s2 \<le> s'" "s' \<le> es" "words_ok buf es c" for c s' i'
    proof -
      obtain r' s3 where p': "peek buf es s' '')'' = (r', s3)" by fastforce
      obtain tok' q' eq' s4 where g': "gettoken buf es s3 = (tok', q', eq', s4)" by (metis prod_cases4)
      show ?thesis
      proof (cases r')
        case True
        then have "s' < s4" "s4 \<le> es" using peek_token_advances [OF ok s'(2) _ g'] p' by auto
        moreover from this have "parses buf es s4 (parseredirs n buf es c (s4, i'))"
          using s' adv n by (intro parseredirs_parses [OF ok]) auto
        ultimately have "parses buf es s (parseredirs n buf es c (s4, i'))"
          using s' adv by (auto elim: parses_weaken)
        with True show ?thesis by (simp add: p' g')
      qed (simp add: p' g')
    qed
    then have "parses buf es s (sbind (parseline n buf es (s2, i)) (\<lambda>(cmd, s, i).
          let (close_p, s) = peek buf es s '')'' in
          if \<not> close_p then Inl (Sh_panic ''syntax - missing )'')
          else let (_, _, _, s) = gettoken buf es s in parseredirs n buf es cmd (s, i)))"
      using adv by (intro parses_bind [OF line]) auto
    then show ?thesis using True by (simp add: p g)
  qed (simp add: p g)
qed

lemma parseexec_step:
  assumes ok: "line_ok buf es" and IH: "grammar_parses n buf es" and le: "s \<le> es" and n: "4 * (es - s) + 1 \<le> n"
  shows "parses buf es s (parseexec (Suc n) buf es (s, i))"
proof -
  obtain r s1 where p: "peek buf es s ''('' = (r, s1)" by fastforce
  note ps = peek_spec [OF ok le p]
  have "4 * (es - s1) + 1 \<le> n" "es - s1 < n" using ps(1) n by linarith+
  then have block: "parses buf es s1 (parseblock n buf es (s1, i))"
    and redirs: "parses buf es s1 (parseredirs n buf es (EXEC []) (s1, i'))" for i'
    using IH ps(2) parseredirs_parses [OF ok] by (simp_all add: grammar_parses_def)
  have args: "parses buf es s ((\<lambda>(ret, st). parseargs n buf es ret 0 st) (c, s', i2))"
    if "s1 \<le> s'" "s' \<le> es" "words_ok buf es c" for c s' i2
  proof -
    have "es - s' < n" using that ps(1) n by linarith
    from parseargs_parses [OF ok that(2) this that(3)] show ?thesis
      using parses_weaken that(1) ps(1) by (metis case_prod_conv order_trans)
  qed
  have "parses buf es s (sbind (parseredirs n buf es (EXEC []) (s1, i')) (\<lambda>(ret, st). parseargs n buf es ret 0 st))" for i'
    by (rule parses_bind [OF redirs ps(1)]) (rule args)
  then have "parses buf es s (sbind (execcmd i) (\<lambda>(ret, i). sbind (parseredirs n buf es ret (s1, i)) (\<lambda>(ret, st). parseargs n buf es ret 0 st)))"
    by (intro parses_exec) simp
  then show ?thesis using parses_weaken [OF block ps(1)] by (simp add: p)
qed

lemma parsepipe_step:
  assumes ok: "line_ok buf es" and IH: "grammar_parses n buf es" and le: "s \<le> es" and n: "4 * (es - s) + 2 \<le> n"
  shows "parses buf es s (parsepipe (Suc n) buf es (s, i))"
proof -
  have exec: "parses buf es s (parseexec n buf es (s, i))" using IH le n by (simp add: grammar_parses_def)
  have "parses buf es s (let (more, s) = peek buf es s' ''|'' in
       if \<not> more then Inr (c, s, i')
       else let (_, _, _, s) = gettoken buf es s in
         sbind (parsepipe n buf es (s, i')) (\<lambda>(right, s, i).
         sbind (pipecmd c right i) (\<lambda>(cmd, i). Inr (cmd, s, i))))"
    if s': "s \<le> s'" "s' \<le> es" "words_ok buf es c" for c s' i'
  proof -
    obtain r s3 where p: "peek buf es s' ''|'' = (r, s3)" by fastforce
    obtain tok q eq s4 where g: "gettoken buf es s3 = (tok, q, eq, s4)" by (metis prod_cases4)
    note ps = peek_spec [OF ok s'(2) p]
    show ?thesis
    proof (cases r)
      case True
      then have adv: "s' < s4" "s4 \<le> es" using peek_token_advances [OF ok s'(2) _ g] p by auto
      then have "parses buf es s4 (parsepipe n buf es (s4, i'))" using IH s' n by (simp add: grammar_parses_def)
      then have "parses buf es s (sbind (parsepipe n buf es (s4, i')) (\<lambda>(right, s, i).
         sbind (pipecmd c right i) (\<lambda>(cmd, i). Inr (cmd, s, i))))"
        using adv s' by (elim parses_bind) (auto intro!: parses_pipe)
      with True show ?thesis by (simp add: p g)
    qed (use ps s' in \<open>simp add: p g\<close>)
  qed
  then have "parses buf es s (sbind (parseexec n buf es (s, i)) (\<lambda>(c, s', i').
       let (more, s) = peek buf es s' ''|'' in
       if \<not> more then Inr (c, s, i')
       else let (_, _, _, s) = gettoken buf es s in
         sbind (parsepipe n buf es (s, i')) (\<lambda>(right, s, i).
         sbind (pipecmd c right i) (\<lambda>(cmd, i). Inr (cmd, s, i)))))"
    by (intro parses_bind [OF exec]) auto
  then show ?thesis by simp
qed

lemma parseline_step:
  assumes ok: "line_ok buf es" and IH: "grammar_parses n buf es" and le: "s \<le> es" and n: "4 * (es - s) + 3 \<le> n"
  shows "parses buf es s (parseline (Suc n) buf es (s, i))"
proof -
  have pipe: "parses buf es s (parsepipe n buf es (s, i))" using IH le n by (simp add: grammar_parses_def)
  have rest: "parses buf es s (let (more, s) = peek buf es s' '';'' in
       if \<not> more then Inr (c, s, i')
       else let (_, _, _, s) = gettoken buf es s in
         sbind (parseline n buf es (s, i')) (\<lambda>(right, s, i).
         sbind (listcmd c right i) (\<lambda>(cmd, i). Inr (cmd, s, i))))"
    if s': "s \<le> s'" "s' \<le> es" "words_ok buf es c" for c s' i'
  proof -
    obtain r s3 where p: "peek buf es s' '';'' = (r, s3)" by fastforce
    obtain tok q eq s4 where g: "gettoken buf es s3 = (tok, q, eq, s4)" by (metis prod_cases4)
    note ps = peek_spec [OF ok s'(2) p]
    show ?thesis
    proof (cases r)
      case True
      then have adv: "s' < s4" "s4 \<le> es" using peek_token_advances [OF ok s'(2) _ g] p by auto
      then have "parses buf es s4 (parseline n buf es (s4, i'))" using IH s' n by (simp add: grammar_parses_def)
      then have "parses buf es s (sbind (parseline n buf es (s4, i')) (\<lambda>(right, s, i).
         sbind (listcmd c right i) (\<lambda>(cmd, i). Inr (cmd, s, i))))"
        using adv s' by (elim parses_bind) (auto intro!: parses_list)
      with True show ?thesis by (simp add: p g)
    qed (use ps s' in \<open>simp add: p g\<close>)
  qed
  have backs: "parses buf es s' (parsebacks n buf es c (s', i'))"
    if "s \<le> s'" "s' \<le> es" "words_ok buf es c" for c s' i'
    using that n by (intro parsebacks_parses [OF ok]) auto
  show ?thesis
    unfolding parseline.simps
  proof (rule parses_bind [OF pipe order_refl], unfold prod.case)
    fix c s' i' assume *: "s \<le> s'" "s' \<le> es" "words_ok buf es c"
    show "parses buf es s (sbind (parsebacks n buf es c (s', i')) (\<lambda>(cmd, s, i).
       let (more, s) = peek buf es s '';'' in
       if \<not> more then Inr (cmd, s, i)
       else let (_, _, _, s) = gettoken buf es s in
         sbind (parseline n buf es (s, i)) (\<lambda>(right, s, i).
         sbind (listcmd cmd right i) (\<lambda>(cmd, i). Inr (cmd, s, i)))))"
      by (rule parses_bind [OF backs [OF *] *(1)], unfold prod.case, rule rest) (use *(1) in auto)
  qed
qed

lemma grammar_terminates:
  assumes ok: "line_ok buf es"
  shows "grammar_parses n buf es"
proof (induction n)
  case (Suc n)
  then show ?case
    unfolding grammar_parses_def [of "Suc n"]
    using parseline_step [OF ok Suc] parsepipe_step [OF ok Suc] parseexec_step [OF ok Suc] parseblock_step [OF ok Suc]
    by (auto simp del: parseline.simps parsepipe.simps parseexec.simps parseblock.simps)
qed (simp add: grammar_parses_def)

lemma length_terminate_words [simp]: "length (terminate_words ws buf) = length buf"
  unfolding terminate_words_def by (induction ws arbitrary: buf) auto

lemma terminate_words_append: "terminate_words (xs @ ys) buf = terminate_words ys (terminate_words xs buf)"
  by (simp add: terminate_words_def)

lemma nulterminate_words: "nulterminate c buf = terminate_words (words_of c) buf"
  by (induction c arbitrary: buf) (simp_all add: terminate_words_append, simp add: terminate_words_def)

lemma nth_terminate_words:
  "k < length buf \<Longrightarrow> terminate_words ws buf ! k = (if k \<in> snd ` set ws then NUL else buf ! k)"
proof (induction ws arbitrary: buf)
  case (Cons w ws)
  then have "terminate_words (w # ws) buf ! k = terminate_words ws (buf[snd w := NUL]) ! k"
    by (simp add: terminate_words_def split: prod.splits)
  also have "\<dots> = (if k \<in> snd ` set ws then NUL else buf[snd w := NUL] ! k)" using Cons by simp
  finally show ?case using Cons.prems by (auto simp: nth_list_update)
qed (simp add: terminate_words_def)

lemma cstr_at_eq:
  assumes "q \<le> e" "e < length b" "b ! e = NUL" "\<And>k. q \<le> k \<Longrightarrow> k < e \<Longrightarrow> b ! k \<noteq> NUL"
  shows "cstr_at b q = slice q (e - q) b"
proof -
  have "drop q b = slice q (e - q) b @ drop e b"
    using assms(1) by (metis append_take_drop_id drop_drop le_add_diff_inverse2 slice_def)
  moreover have "drop e b = NUL # drop (Suc e) b"
    using assms(2,3) by (metis Cons_nth_drop_Suc)
  moreover have "\<forall>c \<in> set (slice q (e - q) b). c \<noteq> NUL"
    using assms(2,4) by (auto simp: in_set_conv_nth nth_slice)
  ultimately show ?thesis by (simp add: cstr_at_def takeWhile_append2)
qed

lemma parsecmd_result:
  assumes nul: "NUL \<in> set buf"
  shows "parsecmd buf i \<noteq> Inl Sh_fuel"
    and "parsecmd buf i = Inr (c, buf', i') \<Longrightarrow> words_ok buf (str_len buf) c \<and> buf' = nulterminate c buf"
proof -
  let ?es = "str_len buf"
  have "parses buf ?es 0 (parseline (parse_fuel ?es) buf ?es (0, i))"
    using grammar_terminates [OF str_len_ok [OF nul]] by (simp add: grammar_parses_def parse_fuel_def)
  then show "parsecmd buf i \<noteq> Inl Sh_fuel"
    and "parsecmd buf i = Inr (c, buf', i') \<Longrightarrow> words_ok buf ?es c \<and> buf' = nulterminate c buf"
    by (auto simp: parsecmd_def sbind_def parses_def Let_def split: sum.splits prod.splits if_splits)
qed

text \<open>C29: The parser returns on every line: for a buffer holding a string, \<^verbatim>\<open>parsecmd\<close> yields a command or a syntax error, and its
  recursion and loops never use more than \<open>4 * strlen + 4\<close> calls.\<close>

theorem parsecmd_terminates:
  assumes "NUL \<in> set buf"
  shows "(\<exists>c buf' i'. parsecmd buf i = Inr (c, buf', i')) \<or> (\<exists>m. parsecmd buf i = Inl (Sh_panic m))"
  using parsecmd_result(1) [OF assms, of i]
  by (cases "parsecmd buf i") (auto, metis sh_error.exhaust)

theorem parsecmd_terminates_witness:
  "NUL \<in> set [CHR ''('', NUL] \<and>
   ((\<exists>c buf' i'. parsecmd [CHR ''('', NUL] 0 = Inr (c, buf', i')) \<or> (\<exists>m. parsecmd [CHR ''('', NUL] 0 = Inl (Sh_panic m)))"
  using parsecmd_terminates [of "[CHR ''('', NUL]" 0] by simp

lemma parsed_words:
  assumes nul: "NUL \<in> set buf" and p: "parsecmd buf i = Inr (c, buf', i')"
  shows "\<forall>(q, eq) \<in> set (words_of c).
           q < eq \<and> eq < length buf \<and> cstr_at buf' q = slice q (eq - q) buf \<and> list_all word_char (cstr_at buf' q)"
proof (clarify)
  fix q eq assume w: "(q, eq) \<in> set (words_of c)"
  let ?es = "str_len buf"
  have ok: "line_ok buf ?es" by (rule str_len_ok [OF nul])
  have ws: "words_ok buf ?es c" and b': "buf' = terminate_words (words_of c) buf"
    using parsecmd_result(2) [OF nul p] by (simp_all add: nulterminate_words)
  have at: "word_at buf ?es (q, eq)" using ws w by (auto simp: words_ok_def)
  then have lt: "q < eq" "eq < length buf" using ok by (auto simp: word_at_def line_ok_def)
  have wc: "word_char (buf ! k)" if "q \<le> k" "k < eq" for k using at that by (simp add: word_at_def)
  have keep: "buf' ! k = buf ! k" if "q \<le> k" "k < eq" for k
  proof -
    have "k \<notin> snd ` set (words_of c)"
      using ws wc [OF that] by (auto simp: words_ok_def word_at_def)
    then show ?thesis using nth_terminate_words [of k buf] that lt b' by simp
  qed
  have "buf' ! eq = NUL" using nth_terminate_words [OF lt(2)] w b' by (force simp: image_iff)
  moreover have "buf' ! k \<noteq> NUL" if "q \<le> k" "k < eq" for k using keep wc that by fastforce
  ultimately have c: "cstr_at buf' q = slice q (eq - q) buf'" using lt b' by (intro cstr_at_eq) auto
  moreover have "slice q (eq - q) buf' = slice q (eq - q) buf"
    using keep lt b' by (intro nth_equalityI) (auto simp: nth_slice)
  moreover have "list_all word_char (slice q (eq - q) buf)"
    using wc lt by (auto simp: list_all_length nth_slice)
  ultimately show "q < eq \<and> eq < length buf \<and> cstr_at buf' q = slice q (eq - q) buf \<and> list_all word_char (cstr_at buf' q)"
    using lt by simp
qed

text \<open>C30: After a successful parse every argument and file name of the command is, read as a C string from the terminated buffer, exactly the
  word of the input line it was parsed from; the terminators are written inside the buffer and no terminator cuts another word.\<close>

theorem parsecmd_words:
  assumes nul: "NUL \<in> set buf" and p: "parsecmd buf i = Inr (c, buf', i')"
  shows "\<forall>(q, eq) \<in> set (words_of c).
           q < eq \<and> eq < length buf \<and> cstr_at buf' q = slice q (eq - q) buf \<and> list_all word_char (cstr_at buf' q)"
  by (rule parsed_words [OF assms])

definition demo_line :: string where
  "demo_line = ''ls >f'' @ [NUL]"

lemma demo_line_parse:
  "NUL \<in> set demo_line"
  "parsecmd demo_line 0 = Inr (REDIR (EXEC [(0, 2)]) 4 5 65 1, ''ls'' @ [NUL, CHR ''>'', CHR ''f'', NUL], 208)"
  by code_simp+

theorem parsecmd_words_witness:
  "parsecmd demo_line 0 = Inr (REDIR (EXEC [(0, 2)]) 4 5 65 1, ''ls'' @ [NUL, CHR ''>'', CHR ''f'', NUL], 208) \<and>
   cstr_at (''ls'' @ [NUL, CHR ''>'', CHR ''f'', NUL]) 0 = slice 0 2 demo_line \<and>
   cstr_at (''ls'' @ [NUL, CHR ''>'', CHR ''f'', NUL]) 4 = slice 4 1 demo_line"
  using parsecmd_words [OF demo_line_parse] demo_line_parse(2) by simp

section \<open>What a command line runs\<close>

datatype fobj = Std nat | Fobj string int | PipeR "nat list" | PipeW "nat list"

type_synonym fdt = "fobj option list"

text \<open>Descriptors of a process: \<open>lowest\<close> is the slot every allocation takes.\<close>

definition lowest :: "fdt \<Rightarrow> nat option" where
  "lowest fds = find (\<lambda>i. fds ! i = None) [0..<length fds]"

definition put_fd :: "fobj option \<Rightarrow> fdt \<Rightarrow> int \<times> fdt" where
  "put_fd ob fds = (case lowest fds of None \<Rightarrow> (- 1, fds) | Some i \<Rightarrow> (int i, fds[i := ob]))"

text \<open>
  What the processes do that a program starts, when every system call succeeds: a process ends with a code, turns into another program, forks a child before it goes on, or waits for a child
  before it goes on. The descriptors it has at that point are part of the tree. \<open>pa\<close> names the process; a pipe carries the name of the process that made it.
\<close>

datatype ptree =
    Ends int fdt
  | Runs string "string list" fdt
  | Forks ptree ptree
  | Waits fdt ptree

primrec ptree_of :: "prog \<Rightarrow> nat list \<Rightarrow> fdt \<Rightarrow> ptree" where
  "ptree_of (Exit_p n) pa fds = Ends n fds"
| "ptree_of (Exec_p path argv p) pa fds = Runs path argv fds"
| "ptree_of (Open_p f m k) pa fds = (case put_fd (Some (Fobj f m)) fds of (r, fds) \<Rightarrow> ptree_of (k r) pa fds)"
| "ptree_of (Close_p fd p) pa fds = ptree_of p pa (fds[nat fd := None])"
| "ptree_of (Dup_p fd p) pa fds = ptree_of p pa (snd (put_fd (fds ! nat fd) fds))"
| "ptree_of (Pipe_p k) pa fds =
     (case put_fd (Some (PipeR pa)) fds of (r, fds) \<Rightarrow>
      case put_fd (Some (PipeW pa)) fds of (w, fds) \<Rightarrow> ptree_of (k (Some (r, w))) pa fds)"
| "ptree_of (Fork_p k) pa fds = Forks (ptree_of (k 0) (0 # pa) fds) (ptree_of (k 1) (1 # pa) fds)"
| "ptree_of (Wait_p p) pa fds = Waits fds (ptree_of p pa fds)"
| "ptree_of (Chdir_p d k) pa fds = ptree_of (k 0) pa fds"
| "ptree_of (Print_p s p) pa fds = ptree_of p pa fds"

text \<open>
  The meaning of a command line, over the words of the line: which programs run, where their standard input and output go, and who waits for whom. The first word of a simple command is
  the program, and no words do nothing. A redirection replaces one descriptor. A pipeline runs both sides, joined by one pipe, and waits for both; neither the waiting shell nor the two
  commands have any other end of the pipe. A list runs the left side and waits before it goes on with the right side; a command in the background is not waited for.
\<close>

definition word_text :: "string \<Rightarrow> nat \<times> nat \<Rightarrow> string" where
  "word_text line w = slice (fst w) (snd w - fst w) line"

fun meaning :: "string \<Rightarrow> cmd \<Rightarrow> nat list \<Rightarrow> fdt \<Rightarrow> ptree" where
  "meaning line (EXEC args) pa fds = (if args = [] then Ends 0 fds else Runs (word_text line (hd args)) (map (word_text line) args) fds)"
| "meaning line (REDIR c f ef mode fd) pa fds = meaning line c pa (fds[nat fd := Some (Fobj (word_text line (f, ef)) mode)])"
| "meaning line (PIPE l r) pa fds =
     Forks (meaning line l (0 # pa) (fds[1 := Some (PipeW pa)]))
       (Forks (meaning line r (0 # 1 # pa) (fds[0 := Some (PipeR pa)])) (Waits fds (Waits fds (Ends 0 fds))))"
| "meaning line (LIST l r) pa fds = Forks (meaning line l (0 # pa) fds) (Waits fds (meaning line r (1 # pa) fds))"
| "meaning line (BACK c) pa fds = Forks (meaning line c (0 # pa) fds) (Ends 0 fds)"

text \<open>Standard input, output and error are open and two slots are free.\<close>

definition free_fds :: "fdt \<Rightarrow> nat list" where
  "free_fds fds = filter (\<lambda>i. fds ! i = None) [0..<length fds]"

definition std_open :: "fdt \<Rightarrow> bool" where
  "std_open fds \<longleftrightarrow> 3 \<le> length fds \<and> fds ! 0 \<noteq> None \<and> fds ! 1 \<noteq> None \<and> fds ! 2 \<noteq> None
     \<and> 2 \<le> length (free_fds fds)"

lemma lowestI:
  assumes "i < length fds" "fds ! i = None" "\<And>j. j < i \<Longrightarrow> fds ! j \<noteq> None"
  shows "lowest fds = Some i"
proof -
  have "[0..<length fds] = [0..<i] @ i # [Suc i..<length fds]"
    using assms(1) by (metis le_add_diff_inverse less_imp_le_nat upt_add_eq_append upt_conv_Cons zero_le)
  moreover have "find (\<lambda>i. fds ! i = None) [0..<i] = None" using assms(3) by (auto simp: find_None_iff)
  moreover have "find P (xs @ ys) = (case find P xs of None \<Rightarrow> find P ys | Some x \<Rightarrow> Some x)" for P and xs ys :: "nat list"
    by (induction xs) auto
  ultimately show ?thesis using assms(2) by (simp add: lowest_def)
qed

lemma put_fd_lowest: "lowest fds = Some i \<Longrightarrow> put_fd ob fds = (int i, fds[i := ob])"
  by (simp add: put_fd_def)

lemma two_free:
  assumes "std_open fds"
  obtains r w where "3 \<le> r" "r < w" "w < length fds" "fds ! r = None" "fds ! w = None"
    "lowest fds = Some r" "\<And>x. lowest (fds[r := Some x]) = Some w"
proof -
  from assms obtain r w rest where f: "free_fds fds = r # w # rest"
    by (auto simp: std_open_def numeral_2_eq_2 Suc_le_length_iff)
  have srt: "sorted_wrt (<) (free_fds fds)" by (simp add: free_fds_def sorted_wrt_filter)
  have mem: "k \<in> set (free_fds fds) \<longleftrightarrow> k < length fds \<and> fds ! k = None" for k by (auto simp: free_fds_def)
  have rw: "r < w" and r: "r < length fds" "fds ! r = None" and w: "w < length fds" "fds ! w = None"
    using srt f mem [of r] mem [of w] by auto
  have below: "fds ! j \<noteq> None" if "j < r" for j using mem [of j] srt f that r by auto
  have between: "fds ! j \<noteq> None" if "j < w" "j \<noteq> r" for j
    using mem [of j] srt f that w by auto
  have "3 \<le> r"
  proof (rule ccontr)
    assume "\<not> 3 \<le> r"
    then have "r = 0 \<or> r = 1 \<or> r = 2" by linarith
    then show False using assms r by (auto simp: std_open_def)
  qed
  moreover have "lowest fds = Some r" using r below by (intro lowestI) auto
  moreover have "lowest (fds[r := Some x]) = Some w" for x
    using w rw between by (intro lowestI) (auto simp: nth_list_update)
  ultimately show ?thesis using that rw w r by blast
qed

lemma std_open_update:
  assumes "std_open fds" "i < 3"
  shows "std_open (fds[i := Some x])"
proof -
  have "i < length fds" "fds ! i \<noteq> None"
    using assms by (auto simp: std_open_def less_Suc_eq numeral_3_eq_3 numeral_2_eq_2)
  then have "free_fds (fds[i := Some x]) = free_fds fds"
    unfolding free_fds_def by (intro filter_cong) (auto simp: nth_list_update)
  then show ?thesis using assms by (auto simp: std_open_def nth_list_update)
qed

lemma close_then_take:
  assumes "std_open fds" "fd < 2"
  shows "lowest (fds[fd := None]) = Some fd"
proof (rule lowestI)
  have len: "3 \<le> length fds" using assms by (simp add: std_open_def)
  with assms(2) show "fd < length (fds[fd := None])" "fds[fd := None] ! fd = None" by simp_all
  show "fds[fd := None] ! j \<noteq> None" if "j < fd" for j
    using that assms len by (auto simp: std_open_def less_2_cases_iff)
qed

lemma runcmd_ptree:
  assumes "std_open fds" "redirs_ok c" "\<forall>w\<in>set (words_of c). cstr_at buf (fst w) = word_text line w"
  shows "ptree_of (runcmd buf c) pa fds = meaning line c pa fds"
  using assms
proof (induction c arbitrary: pa fds)
  case (EXEC args)
  have "map (\<lambda>(q, _). cstr_at buf q) args = map (word_text line) args" using EXEC.prems(3) by auto
  then show ?case using EXEC.prems(3) by (cases args) auto
next
  case (REDIR c f ef mode fd)
  then have fd: "nat fd < 2" by auto
  have w: "cstr_at buf f = word_text line (f, ef)" using REDIR.prems(3) by auto
  have "ptree_of (runcmd buf c) pa (fds[nat fd := Some (Fobj (cstr_at buf f) mode)])
      = meaning line c pa (fds[nat fd := Some (Fobj (cstr_at buf f) mode)])"
    using REDIR fd by (intro REDIR.IH std_open_update) auto
  then show ?case by (simp add: put_fd_lowest [OF close_then_take [OF REDIR.prems(1) fd]] w)
next
  case (LIST l r)
  then show ?case by (simp add: fork1_def)
next
  case (BACK c)
  then show ?case by (simp add: fork1_def)
next
  case (PIPE l r)
  from two_free [OF PIPE.prems(1)] obtain p0 p1
    where p: "3 \<le> p0" "p0 < p1" "p1 < length fds" "fds ! p0 = None" "fds ! p1 = None"
      and l0: "lowest fds = Some p0" and l1: "\<And>x. lowest (fds[p0 := Some x]) = Some p1" by metis
  let ?fds = "fds[p0 := Some (PipeR pa), p1 := Some (PipeW pa)]"
  have open01: "fds ! 0 \<noteq> None" "fds ! 1 \<noteq> None" using PIPE.prems by (auto simp: std_open_def)
  have low: "lowest (?fds[1 := None]) = Some 1" "lowest (?fds[0 := None]) = Some 0"
    using p open01 by (auto intro!: lowestI simp: nth_list_update) (metis gr_implies_not0 length_greater_0_conv length_list_update list.size(3) nth_list_update_eq)
  have left: "?fds[1 := None, 1 := Some (PipeW pa), p0 := None, p1 := None] = fds[1 := Some (PipeW pa)]"
    and right: "?fds[0 := None, 0 := Some (PipeR pa), p0 := None, p1 := None] = fds[0 := Some (PipeR pa)]"
    and own: "?fds[p0 := None, p1 := None] = fds"
    using p by (auto intro!: nth_equalityI simp: nth_list_update nth_list_update' )
  have dup: "?fds[1 := None] ! p1 = Some (PipeW pa)" "?fds[0 := None] ! p0 = Some (PipeR pa)"
    using p by (auto simp: nth_list_update)
  have "ptree_of (runcmd buf l) (0 # pa) (fds[1 := Some (PipeW pa)]) = meaning line l (0 # pa) (fds[1 := Some (PipeW pa)])"
    "ptree_of (runcmd buf r) (0 # 1 # pa) (fds[0 := Some (PipeR pa)]) = meaning line r (0 # 1 # pa) (fds[0 := Some (PipeR pa)])"
    using PIPE.prems by (auto intro!: PIPE.IH std_open_update)
  then show ?case
    by (simp add: fork1_def put_fd_lowest [OF l0] put_fd_lowest [OF l1] put_fd_lowest [OF low(1) [unfolded One_nat_def]] put_fd_lowest [OF low(2)]
        dup [unfolded One_nat_def] left [unfolded One_nat_def] right own del: list_update_overwrite nth_list_update)
qed

text \<open>C31: Running a parsed line does what the line means. For a line that \<^verbatim>\<open>parsecmd\<close> accepts, with all system calls succeeding, the processes that \<^verbatim>\<open>runcmd\<close> starts are exactly
  those of the line's commands, each executing the program of its first word with its words as arguments, with the descriptors the line gives it: redirected files on the named descriptor, the two
  ends of one pipe as output of the left and input of the right command, and no other pipe end left open in any of them. The shell waits for both sides of a pipeline, without keeping an end
  of the pipe, waits for the left side of a list before it goes on, and does not wait for a background command.\<close>

theorem runcmd_meaning:
  assumes "NUL \<in> set line" and "parsecmd line i = Inr (c, buf, i')" and "std_open fds"
  shows "ptree_of (runcmd buf c) pa fds = meaning line c pa fds"
proof (rule runcmd_ptree [OF assms(3)])
  show "redirs_ok c" using parsecmd_result(2) [OF assms(1,2)] by (simp add: words_ok_def)
  show "\<forall>w\<in>set (words_of c). cstr_at buf (fst w) = word_text line w" using parsed_words [OF assms(1,2)] by (auto simp: word_text_def)
qed

definition demo_fds :: fdt where
  "demo_fds = [Some (Std 0), Some (Std 1), Some (Std 2), None, None]"

definition demo_pipe :: string where
  "demo_pipe = ''a x|b>f'' @ [NUL]"

lemma demo_pipe_parse:
  "NUL \<in> set demo_pipe"
  "parsecmd demo_pipe 0 = Inr (PIPE (EXEC [(0, 1), (2, 3)]) (REDIR (EXEC [(4, 5)]) 6 7 65 1), [CHR ''a'', NUL, CHR ''x'', NUL, CHR ''b'', NUL, CHR ''f'', NUL], 400)"
  by code_simp+

theorem runcmd_meaning_witness:
  "ptree_of (runcmd [CHR ''a'', NUL, CHR ''x'', NUL, CHR ''b'', NUL, CHR ''f'', NUL] (PIPE (EXEC [(0, 1), (2, 3)]) (REDIR (EXEC [(4, 5)]) 6 7 65 1))) [] demo_fds
     = Forks (Runs ''a'' [''a'', ''x''] [Some (Std 0), Some (PipeW []), Some (Std 2), None, None])
         (Forks (Runs ''b'' [''b''] [Some (PipeR []), Some (Fobj ''f'' 65), Some (Std 2), None, None]) (Waits demo_fds (Waits demo_fds (Ends 0 demo_fds))))"
proof -
  have o: "std_open demo_fds" by (simp add: std_open_def demo_fds_def free_fds_def upt_rec)
  show ?thesis
    unfolding runcmd_meaning [OF demo_pipe_parse o] by (simp add: demo_fds_def word_text_def slice_def demo_pipe_def)
qed

end
