(* ===== verification/Sched.thy ===== *)
theory Sched
  imports Timers Paging
begin

text \<open>
  Processes and the scheduler (\<^verbatim>\<open>kernel/proc.h\<close>, \<^verbatim>\<open>kernel/sched.c\<close>).

  A process is its address; \<open>procs\<close> gives the structure at an address. The user and kernel contexts a process points to are fields of the record. The
  run queue is the sequence of processes linked behind the list head \<^verbatim>\<open>rq\<close>; \<^verbatim>\<open>_insert_into_list(&rq, ..)\<close> puts a node in front.
  What the running CPU reads from the hardware is an \<open>env\<close>: its number, the clock frequency, the time, and the address of its scheduler timer.
  A call that never returns is \<open>Blocked\<close>. After \<^verbatim>\<open>swtch\<close> the rest of \<^verbatim>\<open>sched\<close> (releasing the lock) is run by the process switched to.
\<close>

datatype procstate = UNUSED | RUNNABLE | RUNNING | SLEEPING | DEEPSLEEPING | ZOMBIE

record UserContext =
  uq0 :: "64 word list"
  spsr :: "64 word"
  elr :: "64 word"
  usp :: "64 word"
  tpidr0 :: "64 word"
  ux :: "64 word list"

record KernelContext =
  lr :: nat
  kx0 :: nat
  kx1 :: nat
  kx :: "64 word list"

record Proc =
  killed :: bool
  idle :: bool
  pid :: int
  exitcode :: int
  pstate :: procstate
  childexit :: Semaphore
  children :: "nat list"
  parent :: "nat option"
  ppgdir :: mm
  kstack :: nat
  ucontext :: UserContext
  kcontext :: KernelContext
  timeload :: int
  poftable :: oftable
  cwd :: "nat option"

record kern =
  procs :: "nat \<Rightarrow> Proc"
  rq :: "nat list"
  schedulerlock :: SpinLock
  processlock :: SpinLock
  max_pid :: int
  this :: "nat \<Rightarrow> nat"
  idles :: "nat \<Rightarrow> nat"
  kcpus :: "nat \<Rightarrow> cpu"
  ttbr0 :: "nat \<Rightarrow> nat option"
  kwaits :: waits
  ksys :: sys

record env =
  cpuid :: nat
  efreq :: nat
  enow :: "nat \<Rightarrow> 64 word"
  sched_timer :: nat

definition NCPU :: nat where "NCPU = 4"

definition set_proc :: "nat \<Rightarrow> (Proc \<Rightarrow> Proc) \<Rightarrow> kern \<Rightarrow> kern" where
  "set_proc p f s = s\<lparr>procs := (procs s)(p := f (procs s p))\<rparr>"

definition returns :: "'a res option \<Rightarrow> 'a res" where
  "returns r = (case r of None \<Rightarrow> Inl Blocked | Some x \<Rightarrow> x)"

definition thisproc :: "env \<Rightarrow> kern \<Rightarrow> nat" where
  "thisproc e s = this s (cpuid e)"

section \<open>Locks and states\<close>

definition acquire_sched_lock :: "kern \<Rightarrow> kern res" where
  "acquire_sched_lock s = rbind (acquire_spinlock (schedulerlock s)) (\<lambda>l. Inr (s\<lparr>schedulerlock := l\<rparr>))"

lemma acquire_sched_lock_simps [simp]:
  "\<not> locked (schedulerlock s) \<Longrightarrow> acquire_sched_lock s = Inr (s\<lparr>schedulerlock := (schedulerlock s)\<lparr>locked := True\<rparr>\<rparr>)"
  "locked (schedulerlock s) \<Longrightarrow> acquire_sched_lock s = Inl Blocked"
  by (simp_all add: acquire_sched_lock_def)

definition release_sched_lock :: "kern \<Rightarrow> kern" where
  "release_sched_lock s = s\<lparr>schedulerlock := release_spinlock (schedulerlock s)\<rparr>"

definition is_zombie :: "nat \<Rightarrow> kern \<Rightarrow> (bool \<times> kern) res" where
  "is_zombie p s = rbind (acquire_sched_lock s) (\<lambda>s.
     let r = (pstate (procs s p) = ZOMBIE) in Inr (r, release_sched_lock s))"

definition is_unused :: "nat \<Rightarrow> kern \<Rightarrow> (bool \<times> kern) res" where
  "is_unused p s = rbind (acquire_sched_lock s) (\<lambda>s.
     let r = (pstate (procs s p) = UNUSED) in Inr (r, release_sched_lock s))"

definition activate_proc :: "bool \<Rightarrow> nat \<Rightarrow> kern \<Rightarrow> (bool \<times> kern) res" where
  "activate_proc onalert p s = rbind (acquire_sched_lock s) (\<lambda>s.
     let st = pstate (procs s p) in
     if st = RUNNING \<or> st = RUNNABLE \<or> st = ZOMBIE \<or> (st = DEEPSLEEPING \<and> onalert)
     then Inr (False, release_sched_lock s)
     else let s = (if st = SLEEPING \<or> st = UNUSED \<or> (st = DEEPSLEEPING \<and> \<not> onalert)
                   then (set_proc p (\<lambda>x. x\<lparr>pstate := RUNNABLE\<rparr>) s)\<lparr>rq := p # rq s\<rparr> else s)
          in Inr (True, release_sched_lock s))"

section \<open>The scheduler\<close>

definition update_this_state :: "env \<Rightarrow> procstate \<Rightarrow> kern \<Rightarrow> kern" where
  "update_this_state e new_state s =
     (let p = thisproc e s; origin_state = pstate (procs s p);
          s = set_proc p (\<lambda>x. x\<lparr>pstate := new_state\<rparr>) s in
      if pid (procs s p) = - 1 then s
      else let s = (if (origin_state = RUNNABLE \<or> origin_state = RUNNING) \<and> new_state \<noteq> RUNNING \<and> new_state \<noteq> RUNNABLE
                    then s\<lparr>rq := remove1 p (rq s)\<rparr> else s)
           in if origin_state \<noteq> RUNNABLE \<and> origin_state \<noteq> RUNNING \<and> (new_state = RUNNABLE \<or> new_state = RUNNING)
              then s\<lparr>rq := p # rq s\<rparr> else s)"

fun select_proc :: "(nat \<Rightarrow> Proc) \<Rightarrow> nat list \<Rightarrow> nat option \<Rightarrow> int \<Rightarrow> nat option" where
  "select_proc ps [] selected min_load = selected"
| "select_proc ps (p # q) selected min_load =
     (if pstate (ps p) = RUNNABLE \<and> timeload (ps p) < min_load
      then select_proc ps q (Some p) (timeload (ps p))
      else select_proc ps q selected min_load)"

definition pick_next :: "env \<Rightarrow> kern \<Rightarrow> nat \<times> kern" where
  "pick_next e s =
     (case select_proc (procs s) (rq s) None 1000000 of
        Some p \<Rightarrow> (p, set_proc p (\<lambda>x. x\<lparr>timeload := timeload x + 1\<rparr>) s)
      | None \<Rightarrow> (idles s (cpuid e), s))"

definition update_this_proc :: "env \<Rightarrow> nat \<Rightarrow> kern \<Rightarrow> kern res" where
  "update_this_proc e p s =
     (let c = cpuid e; t = sched_timer e; s = s\<lparr>this := (this s)(c := p)\<rparr>; cp = kcpus s c
      in rbind (if triggered (timers cp t) then Inr cp else returns (cancel_cpu_timer (efreq e) (enow e 0) t cp)) (\<lambda>cp.
         rbind (returns (set_cpu_timer (efreq e) (enow e 1) (enow e 2) t cp)) (\<lambda>cp.
         Inr (s\<lparr>kcpus := (kcpus s)(c := cp)\<rparr>))))"

text \<open>The translation base of the CPU; \<open>None\<close> is the invalid table.\<close>

definition attach_pgdir :: "env \<Rightarrow> pgdir \<Rightarrow> kern \<Rightarrow> kern" where
  "attach_pgdir e d s = s\<lparr>ttbr0 := (ttbr0 s)(cpuid e := pt d)\<rparr>"

definition sched :: "env \<Rightarrow> procstate \<Rightarrow> kern \<Rightarrow> kern res" where
  "sched e new_state s =
     (let p = thisproc e s in
      rassert (pstate (procs s p) = RUNNING)
        (if killed (procs s p) \<and> new_state \<noteq> ZOMBIE then Inr (release_sched_lock s)
         else let s = update_this_state e new_state s;
                  (next, s) = pick_next e s
              in rbind (update_this_proc e next s) (\<lambda>s.
                 rassert (pstate (procs s next) = RUNNABLE)
                   (let s = set_proc next (\<lambda>x. x\<lparr>pstate := RUNNING\<rparr>) s;
                        s = (if next \<noteq> p then attach_pgdir e (pd (ppgdir (procs s next))) s else s)
                    in Inr (release_sched_lock s)))))"

text \<open>\<^verbatim>\<open>yield()\<close>.\<close>

definition yield :: "env \<Rightarrow> kern \<Rightarrow> kern res" where
  "yield e s = rbind (acquire_sched_lock s) (sched e RUNNABLE)"

definition sched_timer_handler :: "env \<Rightarrow> nat \<Rightarrow> kern \<Rightarrow> kern res" where
  "sched_timer_handler e t s =
     (let c = cpuid e; s = s\<lparr>kcpus := (kcpus s)(c := set_timer t (\<lambda>x. x\<lparr>elapse := 8\<rparr>) (kcpus s c))\<rparr>
      in rbind (acquire_sched_lock s) (sched e RUNNABLE))"

text \<open>\<open>proc_entry\<close> is where a new process starts, still holding the lock of the \<^verbatim>\<open>sched\<close> that switched to it; it continues at \<open>ent\<close> with the argument.\<close>

definition proc_entry :: "nat \<Rightarrow> nat \<Rightarrow> kern \<Rightarrow> (nat \<times> nat) \<times> kern" where
  "proc_entry ent arg s = ((ent, arg), release_sched_lock s)"

text \<open>\<^verbatim>\<open>sizeof(Proc)\<close>. \<open>timer_of\<close> gives the address of each \<^verbatim>\<open>sched_timer[i]\<close>; \<open>HANDLER\<close> stands for \<^verbatim>\<open>sched_timer_handler\<close> as a handler number.\<close>

definition PROC_SIZE :: nat where "PROC_SIZE = 1208"
definition HANDLER :: nat where "HANDLER = 1"

definition init_sched_timer :: "(nat \<Rightarrow> nat) \<Rightarrow> nat \<Rightarrow> kern \<Rightarrow> kern" where
  "init_sched_timer timer_of i s =
     s\<lparr>kcpus := (kcpus s)(i := set_timer (timer_of i) (\<lambda>x. x\<lparr>triggered := True, elapse := 8, thandler := HANDLER\<rparr>) (kcpus s i))\<rparr>"

fun init_idle :: "nat list \<Rightarrow> kern \<Rightarrow> kern res" where
  "init_idle [] s = Inr s"
| "init_idle (i # is) s =
     rbind (heap_alloc PROC_SIZE (ksys s)) (\<lambda>(p, y).
       let s = set_proc p (\<lambda>x. x\<lparr>idle := True, pstate := RUNNING, pid := - 1\<rparr>) (s\<lparr>ksys := y\<rparr>)
       in init_idle is (s\<lparr>this := (this s)(i := p), idles := (idles s)(i := p)\<rparr>))"

definition init_sched :: "(nat \<Rightarrow> nat) \<Rightarrow> kern \<Rightarrow> kern res" where
  "init_sched timer_of s =
     (let s = s\<lparr>rq := [], schedulerlock := init_spinlock (schedulerlock s)\<rparr>
      in init_idle [0..<NCPU] (fold (init_sched_timer timer_of) [0..<NCPU] s))"

section \<open>Which process is chosen\<close>

lemma select_proc_spec:
  assumes "\<And>p. selected = Some p \<Longrightarrow> timeload (ps p) = min_load"
  shows "case select_proc ps q selected min_load of
           None \<Rightarrow> selected = None \<and> (\<forall>r\<in>set q. pstate (ps r) = RUNNABLE \<longrightarrow> min_load \<le> timeload (ps r))
         | Some p \<Rightarrow> (selected = Some p \<or> p \<in> set q \<and> pstate (ps p) = RUNNABLE \<and> timeload (ps p) < min_load)
             \<and> (\<forall>r\<in>set q. pstate (ps r) = RUNNABLE \<longrightarrow> timeload (ps p) \<le> timeload (ps r)) \<and> timeload (ps p) \<le> min_load"
  using assms
proof (induction q arbitrary: selected min_load)
  case (Cons r q)
  show ?case
  proof (cases "pstate (ps r) = RUNNABLE \<and> timeload (ps r) < min_load")
    case True
    have "case select_proc ps q (Some r) (timeload (ps r)) of
           None \<Rightarrow> Some r = None \<and> (\<forall>x\<in>set q. pstate (ps x) = RUNNABLE \<longrightarrow> timeload (ps r) \<le> timeload (ps x))
         | Some p \<Rightarrow> (Some r = Some p \<or> p \<in> set q \<and> pstate (ps p) = RUNNABLE \<and> timeload (ps p) < timeload (ps r))
             \<and> (\<forall>x\<in>set q. pstate (ps x) = RUNNABLE \<longrightarrow> timeload (ps p) \<le> timeload (ps x)) \<and> timeload (ps p) \<le> timeload (ps r)"
      by (rule Cons.IH) simp
    then show ?thesis using True by (auto split: option.splits)
  next
    case False
    have "case select_proc ps q selected min_load of
           None \<Rightarrow> selected = None \<and> (\<forall>x\<in>set q. pstate (ps x) = RUNNABLE \<longrightarrow> min_load \<le> timeload (ps x))
         | Some p \<Rightarrow> (selected = Some p \<or> p \<in> set q \<and> pstate (ps p) = RUNNABLE \<and> timeload (ps p) < min_load)
             \<and> (\<forall>x\<in>set q. pstate (ps x) = RUNNABLE \<longrightarrow> timeload (ps p) \<le> timeload (ps x)) \<and> timeload (ps p) \<le> min_load"
      by (rule Cons.IH) (rule Cons.prems)
    then show ?thesis using False by (auto split: option.splits)
  qed
qed (auto split: option.splits)

lemma pick_next_cases:
  obtains (queued) p where "pick_next e s = (p, set_proc p (\<lambda>x. x\<lparr>timeload := timeload x + 1\<rparr>) s)" "p \<in> set (rq s)"
      "pstate (procs s p) = RUNNABLE" "timeload (procs s p) < 1000000"
      "\<forall>r\<in>set (rq s). pstate (procs s r) = RUNNABLE \<longrightarrow> timeload (procs s p) \<le> timeload (procs s r)"
  | (idle) "pick_next e s = (idles s (cpuid e), s)"
      "\<forall>r\<in>set (rq s). pstate (procs s r) = RUNNABLE \<longrightarrow> 1000000 \<le> timeload (procs s r)"
  using select_proc_spec [of None "procs s" 1000000 "rq s"]
  by (cases "select_proc (procs s) (rq s) None 1000000") (auto simp: pick_next_def)

section \<open>The invariant of the scheduler\<close>

text \<open>
  The run queue holds each runnable or running process once and nothing else, idle processes excepted; every CPU runs one process, no two
  CPUs the same, and a running process is run by a CPU. The idle process of a CPU is running there or ready.
\<close>

definition on_cpu :: "nat \<Rightarrow> bool" where
  "on_cpu c \<longleftrightarrow> c < NCPU"

definition ready :: "Proc \<Rightarrow> bool" where
  "ready p \<longleftrightarrow> pstate p = RUNNABLE \<or> pstate p = RUNNING"

definition sched_ok :: "kern \<Rightarrow> bool" where
  "sched_ok s \<longleftrightarrow>
     distinct (rq s)
   \<and> (\<forall>p. p \<in> set (rq s) \<longleftrightarrow> ready (procs s p) \<and> pid (procs s p) \<noteq> - 1)
   \<and> (\<forall>c. on_cpu c \<longrightarrow> pstate (procs s (this s c)) = RUNNING)
   \<and> (\<forall>c d. on_cpu c \<longrightarrow> on_cpu d \<longrightarrow> this s c = this s d \<longrightarrow> c = d)
   \<and> (\<forall>p. pstate (procs s p) = RUNNING \<longrightarrow> (\<exists>c. on_cpu c \<and> this s c = p))
   \<and> (\<forall>c. on_cpu c \<longrightarrow> pid (procs s (idles s c)) = - 1 \<and> ready (procs s (idles s c)))
   \<and> (\<forall>c d. on_cpu c \<longrightarrow> on_cpu d \<longrightarrow> this s c = idles s d \<longrightarrow> c = d)
   \<and> (\<forall>c. on_cpu c \<longrightarrow> pid (procs s (this s c)) = - 1 \<longrightarrow> this s c = idles s c)
   \<and> (\<forall>c d. on_cpu c \<longrightarrow> on_cpu d \<longrightarrow> idles s c = idles s d \<longrightarrow> c = d)"

lemmas sched_parts = thisproc_def set_proc_def release_sched_lock_def attach_pgdir_def

lemma sched_okD:
  assumes "sched_ok s"
  shows "distinct (rq s)" "p \<in> set (rq s) \<longleftrightarrow> ready (procs s p) \<and> pid (procs s p) \<noteq> - 1"
    "on_cpu c \<Longrightarrow> pstate (procs s (this s c)) = RUNNING"
    "on_cpu c \<Longrightarrow> on_cpu d \<Longrightarrow> this s c = this s d \<Longrightarrow> c = d"
    "pstate (procs s p) = RUNNING \<Longrightarrow> \<exists>c. on_cpu c \<and> this s c = p"
    "on_cpu c \<Longrightarrow> pid (procs s (idles s c)) = - 1" "on_cpu c \<Longrightarrow> ready (procs s (idles s c))"
    "on_cpu c \<Longrightarrow> on_cpu d \<Longrightarrow> this s c = idles s d \<Longrightarrow> c = d"
    "on_cpu c \<Longrightarrow> pid (procs s (this s c)) = - 1 \<Longrightarrow> this s c = idles s c"
    "on_cpu c \<Longrightarrow> on_cpu d \<Longrightarrow> idles s c = idles s d \<Longrightarrow> c = d"
  using assms unfolding sched_ok_def by blast+

lemma sched_okI:
  assumes "distinct (rq s)" "\<And>p. p \<in> set (rq s) \<longleftrightarrow> ready (procs s p) \<and> pid (procs s p) \<noteq> - 1"
    "\<And>c. on_cpu c \<Longrightarrow> pstate (procs s (this s c)) = RUNNING"
    "\<And>c d. on_cpu c \<Longrightarrow> on_cpu d \<Longrightarrow> this s c = this s d \<Longrightarrow> c = d"
    "\<And>p. pstate (procs s p) = RUNNING \<Longrightarrow> \<exists>c. on_cpu c \<and> this s c = p"
    "\<And>c. on_cpu c \<Longrightarrow> pid (procs s (idles s c)) = - 1" "\<And>c. on_cpu c \<Longrightarrow> ready (procs s (idles s c))"
    "\<And>c d. on_cpu c \<Longrightarrow> on_cpu d \<Longrightarrow> this s c = idles s d \<Longrightarrow> c = d"
    "\<And>c. on_cpu c \<Longrightarrow> pid (procs s (this s c)) = - 1 \<Longrightarrow> this s c = idles s c"
    "\<And>c d. on_cpu c \<Longrightarrow> on_cpu d \<Longrightarrow> idles s c = idles s d \<Longrightarrow> c = d"
  shows "sched_ok s"
  using assms unfolding sched_ok_def by blast

text \<open>The invariant is about these fields only.\<close>

lemma sched_ok_cong:
  assumes "procs s' = procs s" "rq s' = rq s" "this s' = this s" "idles s' = idles s"
  shows "sched_ok s' = sched_ok s"
  using assms by (simp add: sched_ok_def)

text \<open>Waking a process that is neither queued nor running: it joins the queue.\<close>

lemma sched_ok_enqueue:
  assumes ok: "sched_ok s" and nr: "\<not> ready (procs s p)" and np: "pid (procs s p) \<noteq> - 1"
  shows "sched_ok ((set_proc p (\<lambda>x. x\<lparr>pstate := RUNNABLE\<rparr>) s)\<lparr>rq := p # rq s\<rparr>)"
proof (rule sched_okI)
  note D = sched_okD [OF ok]
  have out: "p \<notin> set (rq s)" using D(2) [of p] nr by simp
  have nidle: "p \<noteq> idles s c" if "on_cpu c" for c using D(6) [OF that] np by auto
  have nthis: "p \<noteq> this s c" if "on_cpu c" for c using D(3) [OF that] nr by (auto simp: ready_def)
  let ?s = "(set_proc p (\<lambda>x. x\<lparr>pstate := RUNNABLE\<rparr>) s)\<lparr>rq := p # rq s\<rparr>"
  show "distinct (rq ?s)" using D(1) out by simp
  show "q \<in> set (rq ?s) \<longleftrightarrow> ready (procs ?s q) \<and> pid (procs ?s q) \<noteq> - 1" for q
    using D(2) [of q] np by (auto simp: set_proc_def ready_def)
  show "pstate (procs ?s (this ?s c)) = RUNNING" if "on_cpu c" for c
    using D(3) [OF that] nthis [OF that] by (simp add: set_proc_def)
  show "c = d" if "on_cpu c" "on_cpu d" "this ?s c = this ?s d" for c d
    using D(4) [of c d] that by (simp add: set_proc_def)
  show "\<exists>c. on_cpu c \<and> this ?s c = q" if "pstate (procs ?s q) = RUNNING" for q
    using D(5) [of q] that by (simp add: set_proc_def split: if_splits)
  show "pid (procs ?s (idles ?s c)) = - 1" "ready (procs ?s (idles ?s c))" if "on_cpu c" for c
    using D(6,7) [OF that] nidle [OF that] by (simp_all add: set_proc_def)
  show "c = d" if "on_cpu c" "on_cpu d" "this ?s c = idles ?s d" for c d
    using D(8) [of c d] that by (simp add: set_proc_def)
  show "this ?s c = idles ?s c" if "on_cpu c" "pid (procs ?s (this ?s c)) = - 1" for c
    using D(9) [of c] that nthis by (simp add: set_proc_def split: if_splits)
  show "c = d" if "on_cpu c" "on_cpu d" "idles ?s c = idles ?s d" for c d
    using D(10) [of c d] that by (simp add: set_proc_def)
qed

lemma activate_proc_ok:
  assumes ok: "sched_ok s" and np: "pid (procs s p) \<noteq> - 1" and act: "activate_proc onalert p s = Inr (r, s')"
  shows "sched_ok s'"
proof -
  have free: "\<not> locked (schedulerlock s)" using act by (cases "locked (schedulerlock s)") (auto simp: activate_proc_def)
  show ?thesis
  proof (cases "ready (procs s p) \<or> pstate (procs s p) = ZOMBIE \<or> (pstate (procs s p) = DEEPSLEEPING \<and> onalert)")
    case True
    then have "procs s' = procs s \<and> rq s' = rq s \<and> this s' = this s \<and> idles s' = idles s"
      using act free by (auto simp: activate_proc_def release_sched_lock_def ready_def Let_def split: if_splits)
    then show ?thesis using ok sched_ok_cong by blast
  next
    case False
    let ?t = "(set_proc p (\<lambda>x. x\<lparr>pstate := RUNNABLE\<rparr>) s)\<lparr>rq := p # rq s\<rparr>"
    have "pstate (procs s p) = SLEEPING \<or> pstate (procs s p) = UNUSED \<or> pstate (procs s p) = DEEPSLEEPING \<and> \<not> onalert"
      using False by (cases "pstate (procs s p)") (auto simp: ready_def)
    then have "procs s' = procs ?t \<and> rq s' = rq ?t \<and> this s' = this ?t \<and> idles s' = idles ?t"
      using act False free
      by (auto simp: activate_proc_def release_sched_lock_def set_proc_def ready_def Let_def split: if_splits)
    then show ?thesis using sched_ok_enqueue [OF ok _ np] False sched_ok_cong by blast
  qed
qed

text \<open>Process \<open>p\<close> leaves CPU \<open>c\<close> in state \<open>new\<close> and \<open>n\<close> takes over.\<close>

lemma sched_ok_switch:
  assumes ok: "sched_ok s" and c: "on_cpu c" and p: "p = this s c"
    and new: "new \<noteq> RUNNING" "pid (procs s p) = - 1 \<longrightarrow> new = RUNNABLE"
    and pids: "\<And>q. pid (procs s' q) = pid (procs s q)"
    and states: "\<And>q. pstate (procs s' q) = (if q = n then RUNNING else if q = p then new else pstate (procs s q))"
    and rq': "rq s' = (if pid (procs s p) \<noteq> - 1 \<and> new \<noteq> RUNNABLE then remove1 p (rq s) else rq s)"
    and this': "this s' = (this s)(c := n)" and idles': "idles s' = idles s"
    and n: "(n \<in> set (rq s') \<and> (if n = p then new else pstate (procs s n)) = RUNNABLE) \<or> n = idles s c"
  shows "sched_ok s'"
proof (rule sched_okI)
  note D = sched_okD [OF ok]
  have pr: "pstate (procs s p) = RUNNING" using D(3) c p by simp
  have mem: "q \<in> set (rq s') \<longleftrightarrow> q \<in> set (rq s) \<and> (q = p \<longrightarrow> new = RUNNABLE)" for q
    using D(1) D(2) [of p] pr rq' by (auto simp: ready_def)
  have npid: "pid (procs s n) \<noteq> - 1 \<or> n = idles s c" using n mem D(2) [of n] by blast
  have nother: "n \<noteq> this s d" if "on_cpu d" "d \<noteq> c" for d
    using n D(3) [OF that(1)] D(4) [OF that(1) c] D(8) [OF that(1) c] that p by (auto split: if_splits)
  show "distinct (rq s')" using D(1) rq' by simp
  show "q \<in> set (rq s') \<longleftrightarrow> ready (procs s' q) \<and> pid (procs s' q) \<noteq> - 1" for q
  proof (cases "q = n")
    case True
    then show ?thesis using n mem [of n] D(2) [of n] D(6) [OF c] states [of n] pids [of n] by (auto simp: ready_def)
  next
    case False
    then show ?thesis using mem [of q] D(2) [of q] pr new states [of q] pids [of q] by (auto simp: ready_def)
  qed
  show "pstate (procs s' (this s' d)) = RUNNING" if "on_cpu d" for d
    using D(3) [OF that] D(4) [OF that c] p states this' by (cases "d = c") auto
  show "d = d'" if "on_cpu d" "on_cpu d'" "this s' d = this s' d'" for d d'
    using D(4) [OF that(1,2)] nother [of d] nother [of d'] that this' by (auto split: if_splits)
  show "\<exists>d. on_cpu d \<and> this s' d = q" if "pstate (procs s' q) = RUNNING" for q
  proof (cases "q = n")
    case False
    then have "pstate (procs s q) = RUNNING" "q \<noteq> p" using that states [of q] new by (auto split: if_splits)
    then obtain d where "on_cpu d" "this s d = q" using D(5) by blast
    then show ?thesis using this' p \<open>q \<noteq> p\<close> by (intro exI [of _ d]) auto
  qed (use c this' in auto)
  show "pid (procs s' (idles s' d)) = - 1" if "on_cpu d" for d using D(6) [OF that] pids idles' by simp
  show "ready (procs s' (idles s' d))" if "on_cpu d" for d
    using D(6,7) [OF that] new states [of "idles s d"] idles' by (auto simp: ready_def split: if_splits)
  show "d = d'" if "on_cpu d" "on_cpu d'" "this s' d = idles s' d'" for d d'
    using D(8) [OF that(1,2)] D(10) [OF c that(2)] D(6) [OF that(2)] npid that this' idles' by (auto split: if_splits)
  show "this s' d = idles s' d" if "on_cpu d" "pid (procs s' (this s' d)) = - 1" for d
    using D(9) [OF that(1)] npid pids that this' idles' by (auto split: if_splits)
  show "d = d'" if "on_cpu d" "on_cpu d'" "idles s' d = idles s' d'" for d d'
    using D(10) [OF that(1,2)] that idles' by simp
qed

lemma update_this_state_running:
  assumes "pstate (procs s (thisproc e s)) = RUNNING" "new \<noteq> RUNNING"
  shows "update_this_state e new s =
    (set_proc (thisproc e s) (\<lambda>x. x\<lparr>pstate := new\<rparr>) s)
      \<lparr>rq := (if pid (procs s (thisproc e s)) \<noteq> - 1 \<and> new \<noteq> RUNNABLE then remove1 (thisproc e s) (rq s) else rq s)\<rparr>"
  using assms by (auto simp: update_this_state_def set_proc_def Let_def)

lemma update_this_proc_frame:
  assumes "update_this_proc e p s = Inr s'"
  shows "procs s' = procs s" "rq s' = rq s" "idles s' = idles s" "this s' = (this s)(cpuid e := p)"
    "schedulerlock s' = schedulerlock s"
  using assms by (auto simp: update_this_proc_def Let_def rbind_eq_Inr_conv)

text \<open>What \<^verbatim>\<open>sched\<close> does to the states, for a process that really leaves the CPU.\<close>

lemma sched_effect:
  assumes ok: "sched_ok s" and c: "on_cpu (cpuid e)" and p: "p = thisproc e s"
    and new: "new \<noteq> RUNNING" "pid (procs s p) = - 1 \<longrightarrow> new = RUNNABLE"
    and go: "\<not> (killed (procs s p) \<and> new \<noteq> ZOMBIE)"
    and sc: "sched e new s = Inr s'"
  obtains s1 n where
    "s1 = (set_proc p (\<lambda>x. x\<lparr>pstate := new\<rparr>) s)\<lparr>rq := (if pid (procs s p) \<noteq> - 1 \<and> new \<noteq> RUNNABLE then remove1 p (rq s) else rq s)\<rparr>"
    "n = fst (pick_next e s1)" "this s' = (this s)(cpuid e := n)" "rq s' = rq s1" "idles s' = idles s"
    "pstate (procs s1 n) = RUNNABLE"
    "\<forall>q. pid (procs s' q) = pid (procs s q)"
    "\<forall>q. pstate (procs s' q) = (if q = n then RUNNING else if q = p then new else pstate (procs s q))"
    "\<not> locked (schedulerlock s')"
proof -
  define s1 where s1: "s1 = (set_proc p (\<lambda>x. x\<lparr>pstate := new\<rparr>) s)\<lparr>rq := (if pid (procs s p) \<noteq> - 1 \<and> new \<noteq> RUNNABLE then remove1 p (rq s) else rq s)\<rparr>"
  obtain n s2 where n: "pick_next e s1 = (n, s2)" by fastforce
  have pr: "pstate (procs s p) = RUNNING" using sched_okD(3) [OF ok c] p by (simp add: thisproc_def)
  have u: "update_this_state e new s = s1" using update_this_state_running [of s e new] pr new(1) p s1 by simp
  have fr: "pid (procs s2 q) = pid (procs s1 q)" "pstate (procs s2 q) = pstate (procs s1 q)" "rq s2 = rq s1" "idles s2 = idles s1" "this s2 = this s1" for q
    using n by (auto simp: pick_next_def set_proc_def split: option.splits)
  have go': "(killed (procs s p) \<and> new \<noteq> ZOMBIE) = False" using go by blast
  have "rbind (update_this_proc e n s2) (\<lambda>s. rassert (pstate (procs s n) = RUNNABLE)
      (let s = set_proc n (\<lambda>x. x\<lparr>pstate := RUNNING\<rparr>) s;
           s = (if n \<noteq> p then attach_pgdir e (pd (ppgdir (procs s n))) s else s) in Inr (release_sched_lock s))) = Inr s'"
    using sc unfolding sched_def Let_def p [symmetric] go' if_False u n prod.case pr simp_thms rassert_simps .
  then obtain s3 where s3: "update_this_proc e n s2 = Inr s3" and rn: "pstate (procs s3 n) = RUNNABLE"
    and s': "s' = release_sched_lock (if n \<noteq> p then attach_pgdir e (pd (ppgdir (procs (set_proc n (\<lambda>x. x\<lparr>pstate := RUNNING\<rparr>) s3) n))) (set_proc n (\<lambda>x. x\<lparr>pstate := RUNNING\<rparr>) s3)
               else set_proc n (\<lambda>x. x\<lparr>pstate := RUNNING\<rparr>) s3)"
    by (auto simp: Let_def rbind_eq_Inr_conv)
  note f3 = update_this_proc_frame [OF s3]
  have "procs s' = procs (set_proc n (\<lambda>x. x\<lparr>pstate := RUNNING\<rparr>) s3)" "rq s' = rq s3" "this s' = this s3" "idles s' = idles s3" "\<not> locked (schedulerlock s')"
    using s' by (auto simp: sched_parts release_spinlock_eq)
  note s'_fields = this
  show ?thesis
  proof (rule that [OF s1])
    show "n = fst (pick_next e s1)" "this s' = (this s)(cpuid e := n)" "rq s' = rq s1" "idles s' = idles s" "\<not> locked (schedulerlock s')"
      "pstate (procs s1 n) = RUNNABLE"
      using n s'_fields f3 fr rn by (simp_all add: s1 set_proc_def)
    show "\<forall>q. pid (procs s' q) = pid (procs s q)"
      "\<forall>q. pstate (procs s' q) = (if q = n then RUNNING else if q = p then new else pstate (procs s q))"
      using s'_fields(1) f3(1) fr(1,2) by (simp_all add: s1 set_proc_def)
  qed
qed

lemma sched_preserves_ok:
  assumes ok: "sched_ok s" and c: "on_cpu (cpuid e)" and new: "new \<noteq> RUNNING" "pid (procs s (thisproc e s)) = - 1 \<longrightarrow> new = RUNNABLE"
    and sc: "sched e new s = Inr s'"
  shows "sched_ok s'"
proof (cases "killed (procs s (thisproc e s)) \<and> new \<noteq> ZOMBIE")
  case True
  then have "s' = release_sched_lock s" using sc sched_okD(3) [OF ok c] by (simp add: sched_def thisproc_def Let_def)
  then show ?thesis using ok by (simp add: sched_ok_def release_sched_lock_def)
next
  case False
  obtain s1 n where *: "s1 = (set_proc (thisproc e s) (\<lambda>x. x\<lparr>pstate := new\<rparr>) s)\<lparr>rq := (if pid (procs s (thisproc e s)) \<noteq> - 1 \<and> new \<noteq> RUNNABLE then remove1 (thisproc e s) (rq s) else rq s)\<rparr>"
    "n = fst (pick_next e s1)" "this s' = (this s)(cpuid e := n)" "rq s' = rq s1" "idles s' = idles s"
    "pstate (procs s1 n) = RUNNABLE"
    "\<forall>q. pid (procs s' q) = pid (procs s q)"
    "\<forall>q. pstate (procs s' q) = (if q = n then RUNNING else if q = thisproc e s then new else pstate (procs s q))"
    "\<not> locked (schedulerlock s')"
    by (rule sched_effect [OF ok c refl new False sc])
  have n: "(n \<in> set (rq s') \<and> (if n = thisproc e s then new else pstate (procs s n)) = RUNNABLE) \<or> n = idles s (cpuid e)"
  proof (cases rule: pick_next_cases [of e s1])
    case (queued q)
    then show ?thesis using *(2,4,6) by (simp add: *(1) set_proc_def split: if_splits)
  next
    case idle
    then show ?thesis using *(2) by (simp add: *(1) set_proc_def)
  qed
  show ?thesis
    by (rule sched_ok_switch [OF ok c _ new _ _ _ *(3,5) n]) (simp_all add: thisproc_def *(4,7,8), simp add: *(1) thisproc_def)
qed

text \<open>Runs of the scheduler: any CPU reschedules its process, or a process is woken or alerted, or marked killed.\<close>

inductive sched_step :: "kern \<Rightarrow> kern \<Rightarrow> bool" where
  wake: "pid (procs s p) \<noteq> - 1 \<Longrightarrow> activate_proc onalert p s = Inr (r, s') \<Longrightarrow> sched_step s s'"
| switch: "on_cpu (cpuid e) \<Longrightarrow> new \<noteq> RUNNING \<Longrightarrow> (pid (procs s (thisproc e s)) = - 1 \<longrightarrow> new = RUNNABLE) \<Longrightarrow>
    rbind (acquire_sched_lock s) (sched e new) = Inr s' \<Longrightarrow> sched_step s s'"
| mark: "sched_step s (set_proc p (\<lambda>x. x\<lparr>killed := True\<rparr>) s)"

lemma sched_ok_lock [simp]: "sched_ok (s\<lparr>schedulerlock := l\<rparr>) = sched_ok s"
  by (simp add: sched_ok_def)

lemma sched_ok_killed [simp]: "sched_ok (set_proc p (\<lambda>x. x\<lparr>killed := b\<rparr>) s) = sched_ok s"
proof -
  have "pstate (procs (set_proc p (\<lambda>x. x\<lparr>killed := b\<rparr>) s) q) = pstate (procs s q)"
    "pid (procs (set_proc p (\<lambda>x. x\<lparr>killed := b\<rparr>) s) q) = pid (procs s q)" for q by (auto simp: set_proc_def)
  moreover have "rq (set_proc p (\<lambda>x. x\<lparr>killed := b\<rparr>) s) = rq s" "this (set_proc p (\<lambda>x. x\<lparr>killed := b\<rparr>) s) = this s"
    "idles (set_proc p (\<lambda>x. x\<lparr>killed := b\<rparr>) s) = idles s" by (simp_all add: set_proc_def)
  ultimately show ?thesis by (simp add: sched_ok_def ready_def)
qed

lemma sched_step_ok: "sched_step s s' \<Longrightarrow> sched_ok s \<Longrightarrow> sched_ok s'"
proof (induction rule: sched_step.induct)
  case (switch e new s s')
  let ?t = "s\<lparr>schedulerlock := (schedulerlock s)\<lparr>locked := True\<rparr>\<rparr>"
  have "\<not> locked (schedulerlock s)" using switch(4) by (cases "locked (schedulerlock s)") auto
  then have "sched e new ?t = Inr s'" using switch(4) by simp
  then show ?case using switch sched_preserves_ok [of ?t e new s'] by (simp add: thisproc_def)
qed (auto intro: activate_proc_ok)

text \<open>C32: The scheduler's invariant. Whatever sequence of wake-ups, alerts, kills and rescheduling the CPUs perform, the run queue
  holds every runnable or running process exactly once, every CPU runs exactly one process, which is in state RUNNING, and no process
  runs on two CPUs.\<close>

theorem scheduler_invariant:
  assumes "sched_ok s" "sched_step\<^sup>*\<^sup>* s s'"
  shows "sched_ok s' \<and> distinct (rq s') \<and> (\<forall>c < NCPU. \<forall>d < NCPU. this s' c = this s' d \<longrightarrow> c = d)"
proof -
  have "sched_ok s'" using assms(2,1) by (induction rule: rtranclp_induct) (auto intro: sched_step_ok)
  then show ?thesis using sched_okD(1,4) by (auto simp: on_cpu_def)
qed

lemma sched_picks_spec:
  assumes ok: "sched_ok s" and c: "cpuid e < NCPU" and p: "p = thisproc e s"
    and new: "new \<noteq> RUNNING" "pid (procs s p) = - 1 \<longrightarrow> new = RUNNABLE" and go: "\<not> (killed (procs s p) \<and> new \<noteq> ZOMBIE)"
    and sc: "sched e new s = Inr s'"
  shows "pstate (procs s' (thisproc e s')) = RUNNING"
    "thisproc e s' \<noteq> p \<longrightarrow> pstate (procs s' p) = new"
    "\<forall>q \<in> set (rq s'). q \<noteq> thisproc e s' \<longrightarrow> pstate (procs s' q) = RUNNABLE \<longrightarrow> thisproc e s' \<noteq> idles s (cpuid e) \<longrightarrow>
       timeload (procs s (thisproc e s')) \<le> timeload (procs s q)"
    "thisproc e s' = idles s (cpuid e) \<longrightarrow> (\<forall>q \<in> set (rq s'). pstate (procs s' q) = RUNNABLE \<longrightarrow> 1000000 \<le> timeload (procs s q))"
proof -
  have oc: "on_cpu (cpuid e)" using c by (simp add: on_cpu_def)
  obtain s1 n where *: "s1 = (set_proc p (\<lambda>x. x\<lparr>pstate := new\<rparr>) s)\<lparr>rq := (if pid (procs s p) \<noteq> - 1 \<and> new \<noteq> RUNNABLE then remove1 p (rq s) else rq s)\<rparr>"
    "n = fst (pick_next e s1)" "this s' = (this s)(cpuid e := n)" "rq s' = rq s1" "idles s' = idles s"
    "pstate (procs s1 n) = RUNNABLE"
    "\<forall>q. pid (procs s' q) = pid (procs s q)"
    "\<forall>q. pstate (procs s' q) = (if q = n then RUNNING else if q = p then new else pstate (procs s q))"
    "\<not> locked (schedulerlock s')"
    by (rule sched_effect [OF ok oc p new go sc])
  have tn: "thisproc e s' = n" using *(3) by (simp add: thisproc_def)
  have load: "timeload (procs s1 q) = timeload (procs s q)" for q by (simp add: *(1) set_proc_def)
  have st: "q \<noteq> n \<Longrightarrow> pstate (procs s' q) = pstate (procs s1 q)" for q by (simp add: *(1,8) set_proc_def)
  show "pstate (procs s' (thisproc e s')) = RUNNING" "thisproc e s' \<noteq> p \<longrightarrow> pstate (procs s' p) = new" by (simp_all add: tn *(8))
  show "\<forall>q \<in> set (rq s'). q \<noteq> thisproc e s' \<longrightarrow> pstate (procs s' q) = RUNNABLE \<longrightarrow> thisproc e s' \<noteq> idles s (cpuid e) \<longrightarrow>
       timeload (procs s (thisproc e s')) \<le> timeload (procs s q)"
  proof (cases rule: pick_next_cases [of e s1])
    case (queued q)
    then show ?thesis using *(2,4) tn load st by auto
  next
    case idle
    then show ?thesis using *(2) tn by (simp add: *(1) set_proc_def)
  qed
  show "thisproc e s' = idles s (cpuid e) \<longrightarrow> (\<forall>q \<in> set (rq s'). pstate (procs s' q) = RUNNABLE \<longrightarrow> 1000000 \<le> timeload (procs s q))"
  proof (cases rule: pick_next_cases [of e s1])
    case (queued q)
    have "q \<in> set (rq s)" using queued(2) by (auto simp: *(1) split: if_splits dest: subsetD [OF set_remove1_subset])
    then have "q \<noteq> idles s (cpuid e)" using sched_okD(2) [OF ok, of q] sched_okD(6) [OF ok oc] by auto
    then show ?thesis using queued(1) *(2) tn by simp
  next
    case idle
    have "pstate (procs s' q) = RUNNABLE \<Longrightarrow> pstate (procs s1 q) = RUNNABLE" for q
      using st [of q] *(8) by (cases "q = n") auto
    then show ?thesis using idle(2) *(4) load by simp
  qed
qed

text \<open>C33: The process \<^verbatim>\<open>sched\<close> switches to has, among all runnable processes of the queue, the least load, which it increases; the process
  that left is in its new state, and the CPU idles only when no runnable process has a load below 1000000.\<close>

theorem sched_picks_least_load:
  assumes "sched_ok s" "cpuid e < NCPU" "p = thisproc e s"
    and "new \<noteq> RUNNING" "pid (procs s p) = - 1 \<longrightarrow> new = RUNNABLE" "\<not> (killed (procs s p) \<and> new \<noteq> ZOMBIE)"
    and "sched e new s = Inr s'"
  shows "pstate (procs s' (thisproc e s')) = RUNNING \<and> (thisproc e s' \<noteq> p \<longrightarrow> pstate (procs s' p) = new)
    \<and> (\<forall>q \<in> set (rq s'). q \<noteq> thisproc e s' \<longrightarrow> pstate (procs s' q) = RUNNABLE \<longrightarrow> thisproc e s' \<noteq> idles s (cpuid e) \<longrightarrow>
         timeload (procs s (thisproc e s')) \<le> timeload (procs s q))
    \<and> (thisproc e s' = idles s (cpuid e) \<longrightarrow> (\<forall>q \<in> set (rq s'). pstate (procs s' q) = RUNNABLE \<longrightarrow> 1000000 \<le> timeload (procs s q)))"
  using sched_picks_spec [OF assms] by blast

text \<open>A process whose load has reached the limit of \<^verbatim>\<open>pick_next\<close>.\<close>

lemma sched_timeload:
  assumes "sched e new s = Inr s'" and "1000000 \<le> timeload (procs s p)"
  shows "timeload (procs s' p) = timeload (procs s p)"
proof (cases "killed (procs s (thisproc e s)) \<and> new \<noteq> ZOMBIE")
  case True
  then show ?thesis using assms by (auto simp: sched_def Let_def release_sched_lock_def rassert_def split: if_splits)
next
  case False
  let ?s1 = "update_this_state e new s"
  have l: "timeload (procs ?s1 p) = timeload (procs s p)" by (simp add: update_this_state_def set_proc_def Let_def)
  obtain n s2 where n: "pick_next e ?s1 = (n, s2)" by fastforce
  have "timeload (procs s2 p) = timeload (procs ?s1 p)"
    by (cases rule: pick_next_cases [of e ?s1]) (use n l assms(2) in \<open>auto simp: set_proc_def\<close>)
  moreover obtain s3 where "update_this_proc e n s2 = Inr s3" "procs s' = procs (set_proc n (\<lambda>x. x\<lparr>pstate := RUNNING\<rparr>) s3)"
    using assms(1) False n by (auto simp: sched_def Let_def rassert_def rbind_eq_Inr_conv sched_parts split: if_splits)
  ultimately show ?thesis using l update_this_proc_frame(1) [of e n s2 s3] by (auto simp: set_proc_def)
qed

lemma sched_not_picked:
  assumes ok: "sched_ok s" and c: "on_cpu (cpuid e)" and new: "new \<noteq> RUNNING" "pid (procs s (thisproc e s)) = - 1 \<longrightarrow> new = RUNNABLE"
    and sc: "sched e new s = Inr s'" and p: "pid (procs s p) \<noteq> - 1" "1000000 \<le> timeload (procs s p)" "pstate (procs s p) \<noteq> RUNNING"
  shows "pid (procs s' p) \<noteq> - 1 \<and> pstate (procs s' p) \<noteq> RUNNING"
proof (cases "killed (procs s (thisproc e s)) \<and> new \<noteq> ZOMBIE")
  case True
  then have "s' = release_sched_lock s" using sc sched_okD(3) [OF ok c] by (simp add: sched_def thisproc_def Let_def)
  then show ?thesis using p by (simp add: release_sched_lock_def)
next
  case False
  obtain s1 n where *: "s1 = (set_proc (thisproc e s) (\<lambda>x. x\<lparr>pstate := new\<rparr>) s)\<lparr>rq := (if pid (procs s (thisproc e s)) \<noteq> - 1 \<and> new \<noteq> RUNNABLE then remove1 (thisproc e s) (rq s) else rq s)\<rparr>"
    "n = fst (pick_next e s1)" "this s' = (this s)(cpuid e := n)" "rq s' = rq s1" "idles s' = idles s"
    "pstate (procs s1 n) = RUNNABLE"
    "\<forall>q. pid (procs s' q) = pid (procs s q)"
    "\<forall>q. pstate (procs s' q) = (if q = n then RUNNING else if q = thisproc e s then new else pstate (procs s q))"
    "\<not> locked (schedulerlock s')"
    by (rule sched_effect [OF ok c refl new False sc])
  have l: "timeload (procs s1 p) = timeload (procs s p)" "idles s1 = idles s" by (simp_all add: *(1) set_proc_def)
  have "n \<noteq> p"
    by (cases rule: pick_next_cases [of e s1]) (use *(2) l p sched_okD(6) [OF ok c] in auto)
  then show ?thesis using p new(1) *(7,8) by auto
qed

lemma sched_step_starved:
  assumes "sched_step s s'" "sched_ok s" "pid (procs s p) \<noteq> - 1" "1000000 \<le> timeload (procs s p)" "pstate (procs s p) \<noteq> RUNNING"
  shows "pid (procs s' p) \<noteq> - 1 \<and> timeload (procs s' p) = timeload (procs s p) \<and> pstate (procs s' p) \<noteq> RUNNING"
  using assms
proof (induction rule: sched_step.induct)
  case (wake s q onalert r s')
  then have "\<not> locked (schedulerlock s)" by (cases "locked (schedulerlock s)") (auto simp: activate_proc_def)
  then show ?case using wake by (auto simp: activate_proc_def release_sched_lock_def set_proc_def Let_def split: if_splits)
next
  case (switch e new s s')
  let ?t = "s\<lparr>schedulerlock := (schedulerlock s)\<lparr>locked := True\<rparr>\<rparr>"
  have "\<not> locked (schedulerlock s)" using switch(4) by (cases "locked (schedulerlock s)") auto
  then have "sched e new ?t = Inr s'" using switch(4) by simp
  then show ?case using switch sched_not_picked [of ?t e new s' p] sched_timeload [of e new ?t s' p] by (simp add: thisproc_def)
qed (auto simp: set_proc_def)

definition demo_proc :: "int \<Rightarrow> procstate \<Rightarrow> int \<Rightarrow> Proc" where
  "demo_proc n st load = \<lparr>killed = False, idle = (n = - 1), pid = n, exitcode = 0, pstate = st, childexit = init_sem 0, children = [], parent = None,
     ppgdir = demo_mm, kstack = 0, ucontext = \<lparr>uq0 = [], spsr = 0, elr = 0, usp = 0, tpidr0 = 0, ux = []\<rparr>,
     kcontext = \<lparr>lr = 0, kx0 = 0, kx1 = 0, kx = []\<rparr>, timeload = load, poftable = \<lparr>openfilelist = [], of_num = 0\<rparr>, cwd = None\<rparr>"

definition demo_procs :: "int \<Rightarrow> nat \<Rightarrow> Proc" where
  "demo_procs load p =
     (if p = 1 then demo_proc 1 RUNNING load else if p = 2 then demo_proc 2 RUNNABLE load
      else if p = 10 then demo_proc (- 1) RUNNABLE 0 else if p = 11 \<or> p = 12 \<or> p = 13 then demo_proc (- 1) RUNNING 0
      else demo_proc 0 UNUSED 0)"

text \<open>Process 1 runs on CPU 0, process 2 waits, the other CPUs idle.\<close>

definition demo_kern :: "int \<Rightarrow> kern" where
  "demo_kern load = \<lparr>procs = demo_procs load, rq = [2, 1], schedulerlock = \<lparr>locked = False\<rparr>, processlock = \<lparr>locked = False\<rparr>, max_pid = 2,
     this = (\<lambda>c. if c = 0 then 1 else 10 + c), idles = (\<lambda>c. 10 + c), kcpus = (\<lambda>_. demo_cpu), ttbr0 = (\<lambda>_. None),
     kwaits = no_waits, ksys = \<lparr>vm = demo_vmem, fsys = demo_files\<rparr>\<rparr>"

definition demo_env :: env where
  "demo_env = \<lparr>cpuid = 0, efreq = 62500000, enow = (\<lambda>_. 100), sched_timer = 64\<rparr>"

lemma on_cpu_cases: "on_cpu c \<longleftrightarrow> c = 0 \<or> c = 1 \<or> c = 2 \<or> c = 3"
  by (auto simp: on_cpu_def NCPU_def)

lemma demo_kern_fields:
  "procs (demo_kern load) = demo_procs load" "rq (demo_kern load) = [2, 1]" "this (demo_kern load) c = (if c = 0 then 1 else 10 + c)"
  "idles (demo_kern load) c = 10 + c" "schedulerlock (demo_kern load) = \<lparr>locked = False\<rparr>" "kcpus (demo_kern load) = (\<lambda>_. demo_cpu)"
  by (simp_all add: demo_kern_def)

lemma demo_proc_fields:
  "pid (demo_proc n st load) = n" "pstate (demo_proc n st load) = st" "killed (demo_proc n st load) = False" "timeload (demo_proc n st load) = load"
  by (simp_all add: demo_proc_def)

lemma demo_procs_cases:
  "pstate (demo_procs load p) = (if p = 2 \<or> p = 10 then RUNNABLE else if p = 1 \<or> p = 11 \<or> p = 12 \<or> p = 13 then RUNNING else UNUSED)"
  "pid (demo_procs load p) = (if p = 1 then 1 else if p = 2 then 2 else if p = 10 \<or> p = 11 \<or> p = 12 \<or> p = 13 then - 1 else 0)"
  by (simp_all add: demo_procs_def demo_proc_fields)

lemma demo_kern_ok: "sched_ok (demo_kern load)"
proof (rule sched_okI, unfold demo_kern_fields)
  show "p \<in> set [2, 1] \<longleftrightarrow> ready (demo_procs load p) \<and> pid (demo_procs load p) \<noteq> - 1" for p :: nat
    by (simp add: ready_def demo_procs_cases)
  show "\<exists>c. on_cpu c \<and> (if c = 0 then 1 else 10 + c) = p" if "pstate (demo_procs load p) = RUNNING" for p
  proof -
    have "p = 1 \<or> p = 11 \<or> p = 12 \<or> p = 13" using that by (simp add: demo_procs_cases split: if_splits)
    then show ?thesis unfolding on_cpu_cases by (elim disjE) (rule exI [of _ 0], simp, rule exI [of _ 1], simp, rule exI [of _ 2], simp, rule exI [of _ 3], simp)
  qed
  show "pstate (demo_procs load (if c = 0 then 1 else 10 + c)) = RUNNING" if "on_cpu c" for c
    using that unfolding on_cpu_cases by (elim disjE) (simp_all add: demo_procs_cases)
  show "pid (demo_procs load (10 + c)) = - 1" if "on_cpu c" for c
    using that unfolding on_cpu_cases by (elim disjE) (simp_all add: demo_procs_cases)
  show "ready (demo_procs load (10 + c))" if "on_cpu c" for c
    using that unfolding on_cpu_cases by (elim disjE) (simp_all add: demo_procs_cases ready_def)
qed (auto simp: demo_procs_cases split: if_splits)

lemma demo_timer: "\<exists>cp. set_cpu_timer 62500000 100 100 64 demo_cpu = Some (Inr cp)"
proof -
  have ok: "timers_ok demo_cpu Lf" by (simp add: timers_ok_def demo_cpu_def rb_rep_def rbt_ok_def)
  have e: "scast (elapse (timers demo_cpu 64)) = (8 :: 64 word)" by (simp add: demo_cpu_def)
  show ?thesis using set_cpu_timer_spec [OF ok, of 64 100 100 62500000] by (auto simp: e)
qed

lemma demo_sched:
  assumes "n = (if load < 1000000 then 2 else 10)"
  shows "\<exists>s'. sched demo_env SLEEPING (demo_kern load) = Inr s' \<and> thisproc demo_env s' = n"
proof -
  obtain cp where cp: "set_cpu_timer 62500000 100 100 64 demo_cpu = Some (Inr cp)" using demo_timer by blast
  have t: "triggered (timers demo_cpu 64)" by (simp add: demo_cpu_def)
  show ?thesis
    using assms cp t
    by (auto simp: sched_def update_this_state_def pick_next_def update_this_proc_def demo_kern_def demo_env_def demo_procs_def demo_proc_def
        sched_parts Let_def returns_def)
qed

lemma demo_step:
  assumes "n = (if load < 1000000 then 2 else 10)"
  shows "\<exists>s'. sched_step (demo_kern load) s' \<and> thisproc demo_env s' = n"
proof -
  let ?t = "(demo_kern load)\<lparr>schedulerlock := (schedulerlock (demo_kern load))\<lparr>locked := True\<rparr>\<rparr>"
  obtain cp where cp: "set_cpu_timer 62500000 100 100 64 demo_cpu = Some (Inr cp)" using demo_timer by blast
  have t: "triggered (timers demo_cpu 64)" by (simp add: demo_cpu_def)
  have "\<exists>s'. sched demo_env SLEEPING ?t = Inr s' \<and> thisproc demo_env s' = n"
    using assms cp t
    by (auto simp: sched_def update_this_state_def pick_next_def update_this_proc_def demo_kern_def demo_env_def demo_procs_def demo_proc_def
        sched_parts Let_def returns_def)
  then obtain s' where s': "sched demo_env SLEEPING ?t = Inr s'" "thisproc demo_env s' = n" by blast
  have "\<not> locked (schedulerlock (demo_kern load))" by (simp add: demo_kern_def)
  then have "rbind (acquire_sched_lock (demo_kern load)) (sched demo_env SLEEPING) = Inr s'" using s'(1) by simp
  moreover have "pid (procs (demo_kern load) (thisproc demo_env (demo_kern load))) \<noteq> - 1" "on_cpu (cpuid demo_env)"
    by (simp_all add: demo_kern_def demo_procs_def demo_proc_def demo_env_def on_cpu_cases thisproc_def)
  ultimately have "sched_step (demo_kern load) s'" by (intro sched_step.switch [of demo_env SLEEPING]) auto
  then show ?thesis using s'(2) by blast
qed

theorem scheduler_invariant_witness:
  "\<exists>s'. sched_step\<^sup>*\<^sup>* (demo_kern 0) s' \<and> thisproc demo_env s' = 2 \<and> sched_ok s' \<and> distinct (rq s') \<and> (\<forall>c < NCPU. \<forall>d < NCPU. this s' c = this s' d \<longrightarrow> c = d)"
proof -
  obtain s' where s': "sched_step (demo_kern 0) s'" "thisproc demo_env s' = 2" using demo_step [of 2 0] by auto
  then show ?thesis using scheduler_invariant [OF demo_kern_ok, of 0 s'] by auto
qed

theorem sched_picks_least_load_witness:
  "\<exists>s'. sched demo_env SLEEPING (demo_kern 0) = Inr s' \<and> thisproc demo_env s' = 2 \<and> pstate (procs s' 2) = RUNNING \<and> pstate (procs s' 1) = SLEEPING"
proof -
  obtain s' where s': "sched demo_env SLEEPING (demo_kern 0) = Inr s'" "thisproc demo_env s' = 2" using demo_sched [of 2 0] by auto
  have t: "1 = thisproc demo_env (demo_kern 0)" "cpuid demo_env < NCPU" "\<not> killed (procs (demo_kern 0) 1)" "pid (procs (demo_kern 0) 1) \<noteq> - 1"
    by (simp_all add: demo_kern_def demo_env_def thisproc_def demo_procs_def demo_proc_def NCPU_def)
  show ?thesis using sched_picks_least_load [OF demo_kern_ok t(2,1) _ _ _ s'(1)] s' t by auto
qed

text \<open>C34: A process whose load has reached 1000000 is starved. Once such a process is off the CPU, whatever sequence of wake-ups, alerts, kills and rescheduling
  on any CPU follows, and however idle the machine is, no CPU runs it: its load stays at the limit, which \<^verbatim>\<open>pick_next\<close> compares with, for ever.\<close>

theorem sched_starves:
  assumes "sched_ok s" "pid (procs s p) \<noteq> - 1" "1000000 \<le> timeload (procs s p)" "pstate (procs s p) \<noteq> RUNNING" "sched_step\<^sup>*\<^sup>* s s'"
  shows "timeload (procs s' p) = timeload (procs s p) \<and> pstate (procs s' p) \<noteq> RUNNING \<and> (\<forall>c < NCPU. this s' c \<noteq> p)"
proof -
  have "sched_ok s' \<and> pid (procs s' p) \<noteq> - 1 \<and> timeload (procs s' p) = timeload (procs s p) \<and> pstate (procs s' p) \<noteq> RUNNING" using assms(5)
  proof (induction rule: rtranclp_induct)
    case (step t u)
    then show ?case using sched_step_starved [OF step(2), of p] sched_step_ok [OF step(2)] assms(3) by auto
  qed (use assms in simp)
  then show ?thesis using sched_okD(3) [of s'] by (auto simp: on_cpu_def)
qed

theorem sched_starves_witness:
  "\<exists>s'. sched_step\<^sup>*\<^sup>* (demo_kern 1000000) s' \<and> pstate (procs (demo_kern 1000000) 2) = RUNNABLE
     \<and> thisproc demo_env s' = 10 \<and> pstate (procs s' 2) \<noteq> RUNNING \<and> (\<forall>c < NCPU. this s' c \<noteq> 2)"
proof -
  obtain s' where s': "sched_step (demo_kern 1000000) s'" "thisproc demo_env s' = 10" using demo_step [of 10 1000000] by auto
  have "timeload (procs s' 2) = timeload (procs (demo_kern 1000000) 2) \<and> pstate (procs s' 2) \<noteq> RUNNING \<and> (\<forall>c < NCPU. this s' c \<noteq> 2)"
    by (rule sched_starves [OF demo_kern_ok]) (use s'(1) in \<open>auto simp: demo_kern_fields demo_procs_def demo_proc_fields\<close>)
  then show ?thesis using s' by (intro exI [of _ s']) (auto simp: demo_kern_fields demo_procs_cases)
qed

end
