(* ===== verification/Process.thy ===== *)
theory Process
  imports Sched
begin

text \<open>
  Process management (\<^verbatim>\<open>kernel/proc.c\<close>): creation, the process tree, exit, wait, kill and fork.

  \<open>ROOT_PROC\<close> is the address of the static \<^verbatim>\<open>root_proc\<close>, and \<open>PROC_ENTRY\<close>, \<open>TRAP_RETURN\<close> and \<open>KERNEL_ENTRY\<close> stand for code addresses.
  The children of a process are the sequence behind its list head. \<open>junk\<close> is what the heap block of a new section holds before it is initialised.
  \<^verbatim>\<open>wait\<close> is split where it sleeps: \<open>wait_enter\<close> runs until it returns or has switched away, \<open>wait_resume\<close> continues once the caller is scheduled again.
\<close>

definition ROOT_PROC :: nat where "ROOT_PROC = 1"
definition PROC_ENTRY :: nat where "PROC_ENTRY = 2"
definition TRAP_RETURN :: nat where "TRAP_RETURN = 3"
definition KERNEL_ENTRY :: nat where "KERNEL_ENTRY = 4"

text \<open>\<^verbatim>\<open>sizeof(WaitData)\<close>.\<close>

definition WAIT_SIZE :: nat where "WAIT_SIZE = 32"

section \<open>Shared steps\<close>

definition acquire_proc_lock :: "kern \<Rightarrow> kern res" where
  "acquire_proc_lock s = rbind (acquire_spinlock (processlock s)) (\<lambda>l. Inr (s\<lparr>processlock := l\<rparr>))"

definition release_proc_lock :: "kern \<Rightarrow> kern" where
  "release_proc_lock s = s\<lparr>processlock := release_spinlock (processlock s)\<rparr>"

definition on_sys :: "(sys \<Rightarrow> ('a \<times> sys) res) \<Rightarrow> kern \<Rightarrow> ('a \<times> kern) res" where
  "on_sys f s = rbind (f (ksys s)) (\<lambda>(x, y). Inr (x, s\<lparr>ksys := y\<rparr>))"

definition on_files :: "(fstate \<Rightarrow> fstate res) \<Rightarrow> kern \<Rightarrow> kern res" where
  "on_files f s = rbind (on_fs f (ksys s)) (\<lambda>y. Inr (s\<lparr>ksys := y\<rparr>))"

fun activate_all :: "nat list \<Rightarrow> kern \<Rightarrow> kern res" where
  "activate_all [] s = Inr s"
| "activate_all (p # ps) s = rbind (activate_proc False p s) (\<lambda>(_, s). activate_all ps s)"

text \<open>\<^verbatim>\<open>post_sem(&p->childexit)\<close>.\<close>

definition post_childexit :: "nat \<Rightarrow> kern \<Rightarrow> kern res" where
  "post_childexit p s =
     rbind (post_sem (childexit (procs s p), kwaits s)) (\<lambda>((sem, wd), ps).
     activate_all ps ((set_proc p (\<lambda>x. x\<lparr>childexit := sem\<rparr>) s)\<lparr>kwaits := wd\<rparr>))"

section \<open>Creation\<close>

definition zero_ucontext :: UserContext where
  "zero_ucontext = \<lparr>uq0 = [0, 0], spsr = 0, elr = 0, usp = 0, tpidr0 = 0, ux = replicate 32 0\<rparr>"

definition zero_kcontext :: KernelContext where
  "zero_kcontext = \<lparr>lr = 0, kx0 = 0, kx1 = 0, kx = replicate 11 0\<rparr>"

definition new_proc :: "int \<Rightarrow> nat \<Rightarrow> mm \<Rightarrow> Proc" where
  "new_proc n stack m = \<lparr>killed = False, idle = False, pid = n, exitcode = 0, pstate = UNUSED, childexit = init_sem 0, children = [], parent = None,
     ppgdir = m, kstack = stack, ucontext = zero_ucontext, kcontext = zero_kcontext, timeload = 0,
     poftable = \<lparr>openfilelist = replicate NOPENFILE None, of_num = 0\<rparr>, cwd = None\<rparr>"

definition zero_mm :: mm where
  "zero_mm = \<lparr>pd = \<lparr>pt = None, pgdir_lock = \<lparr>locked = False\<rparr>\<rparr>, sections = []\<rparr>"

definition alloc_kstack :: "sys \<Rightarrow> (nat \<times> sys) res" where
  "alloc_kstack s = on_vm (\<lambda>v. rbind (alloc_page v) (\<lambda>(p, v). Inr (p, v\<lparr>mem := memset_page (mem v) p\<rparr>))) s"

definition init_proc :: "section_t \<Rightarrow> nat \<Rightarrow> kern \<Rightarrow> kern res" where
  "init_proc junk p s =
     rbind (acquire_proc_lock s) (\<lambda>s.
       let s = s\<lparr>max_pid := max_pid s + 1\<rparr> in
       rbind (on_sys alloc_kstack s) (\<lambda>(stack, s).
       rbind (on_sys (init_mm junk zero_mm) s) (\<lambda>(m, s).
       Inr (release_proc_lock (set_proc p (\<lambda>_. new_proc (max_pid s) stack m) s)))))"

definition create_proc :: "section_t \<Rightarrow> kern \<Rightarrow> (nat \<times> kern) res" where
  "create_proc junk s = rbind (on_sys (heap_alloc PROC_SIZE) s) (\<lambda>(p, s). rbind (init_proc junk p s) (\<lambda>s. Inr (p, s)))"

definition link_child :: "nat \<Rightarrow> nat \<Rightarrow> kern \<Rightarrow> kern" where
  "link_child q p s = set_proc q (\<lambda>x. x\<lparr>children := p # children x\<rparr>) (set_proc p (\<lambda>x. x\<lparr>parent := Some q\<rparr>) s)"

definition set_parent_to_this :: "env \<Rightarrow> nat \<Rightarrow> kern \<Rightarrow> kern res" where
  "set_parent_to_this e p s =
     rbind (acquire_proc_lock s) (\<lambda>s.
     rassert (parent (procs s p) = None) (Inr (release_proc_lock (link_child (thisproc e s) p s))))"

definition start_proc :: "nat \<Rightarrow> nat \<Rightarrow> nat \<Rightarrow> kern \<Rightarrow> (int \<times> kern) res" where
  "start_proc p ent arg s =
     rbind (acquire_proc_lock s) (\<lambda>s.
       let s = (if parent (procs s p) = None then link_child ROOT_PROC p s else s);
           s = set_proc p (\<lambda>x. x\<lparr>kcontext := (kcontext x)\<lparr>lr := PROC_ENTRY, kx0 := ent, kx1 := arg\<rparr>\<rparr>) s in
       rbind (activate_proc False p s) (\<lambda>(_, s). Inr (pid (procs s p), release_proc_lock s)))"

definition init_kproc :: "section_t \<Rightarrow> kern \<Rightarrow> kern res" where
  "init_kproc junk s =
     (let s = s\<lparr>processlock := init_spinlock (processlock s)\<rparr> in
      rbind (init_proc junk ROOT_PROC s) (\<lambda>s.
      let s = set_proc ROOT_PROC (\<lambda>x. x\<lparr>parent := Some ROOT_PROC\<rparr>) s in
      rbind (start_proc ROOT_PROC KERNEL_ENTRY 123456 s) (\<lambda>(_, s). Inr s)))"

section \<open>Waiting for children\<close>

definition reap :: "env \<Rightarrow> nat \<Rightarrow> kern \<Rightarrow> ((int \<times> int option) \<times> kern) res" where
  "reap e z s =
     (let code = exitcode (procs s z); zombieid = pid (procs s z) in
      rbind (acquire_sched_lock (release_sched_lock s)) (\<lambda>s.
        let s = set_proc (thisproc e s) (\<lambda>x. x\<lparr>children := remove1 z (children x)\<rparr>) s;
            s = s\<lparr>rq := remove1 z (rq s)\<rparr> in
        rbind (on_sys (on_vm (\<lambda>v. rbind (kfree_page (kstack (procs s z)) (km v)) (\<lambda>k. Inr ((), v\<lparr>km := k\<rparr>)))) s) (\<lambda>(_, s).
        rbind (on_sys (\<lambda>y. rbind (heap_free z y) (\<lambda>y. Inr ((), y))) s) (\<lambda>(_, s).
        Inr ((zombieid, Some code), s)))))"

text \<open>The result is the pid, or -1, and the exit code if it was stored.\<close>

definition wait_reap :: "env \<Rightarrow> kern \<Rightarrow> ((int \<times> int option) \<times> kern) res" where
  "wait_reap e s =
     rbind (acquire_proc_lock s) (\<lambda>s.
     rbind (acquire_sched_lock s) (\<lambda>s.
     rbind (case find (\<lambda>p. pstate (procs s p) = ZOMBIE) (children (procs s (thisproc e s))) of
              None \<Rightarrow> Inr ((- 1, None), s)
            | Some z \<Rightarrow> reap e z s) (\<lambda>(r, s).
     Inr (r, release_proc_lock (release_sched_lock s)))))"

datatype wait_result = Returned int "int option" | Sleeps nat

definition wait_enter :: "env \<Rightarrow> kern \<Rightarrow> (wait_result \<times> kern) res" where
  "wait_enter e s =
     rbind (acquire_proc_lock s) (\<lambda>s.
       let p = thisproc e s; s' = release_proc_lock s in
       if children (procs s p) = [] then Inr (Returned (- 1) None, s')
       else rbind (lock_sem (childexit (procs s' p))) (\<lambda>sem.
         if sval sem - 1 \<ge> 0 then
           case wait_sem_enter 0 p (sem, kwaits s') of ((sem, wd), _) \<Rightarrow>
           rbind (wait_reap e ((set_proc p (\<lambda>x. x\<lparr>childexit := sem\<rparr>) s')\<lparr>kwaits := wd\<rparr>)) (\<lambda>((r, code), s). Inr (Returned r code, s))
         else
           rbind (on_sys (heap_alloc WAIT_SIZE) s') (\<lambda>(w, s).
           case wait_sem_enter w p (sem, kwaits s) of ((sem, wd), _) \<Rightarrow>
           rbind (acquire_sched_lock ((set_proc p (\<lambda>x. x\<lparr>childexit := sem\<rparr>) s)\<lparr>kwaits := wd\<rparr>)) (\<lambda>s.
           rbind (sched e SLEEPING s) (\<lambda>s. Inr (Sleeps w, s))))))"

definition wait_resume :: "env \<Rightarrow> nat \<Rightarrow> kern \<Rightarrow> ((int \<times> int option) \<times> kern) res" where
  "wait_resume e w s =
     (let p = thisproc e s in
      rbind (wait_sem_resume w (childexit (procs s p), kwaits s)) (\<lambda>((sem, wd), ok).
        let s = (set_proc p (\<lambda>x. x\<lparr>childexit := sem\<rparr>) s)\<lparr>kwaits := wd\<rparr> in
        rbind (on_sys (\<lambda>y. rbind (heap_free w y) (\<lambda>y. Inr ((), y))) s) (\<lambda>(_, s).
        if \<not> ok then Inr ((- 1, None), s) else wait_reap e s)))"

section \<open>Exit\<close>

fun adopt_children :: "nat list \<Rightarrow> kern \<Rightarrow> kern res" where
  "adopt_children [] s = Inr s"
| "adopt_children (c # cs) s =
     (let s = set_proc c (\<lambda>x. x\<lparr>parent := Some ROOT_PROC\<rparr>) s in
      if pstate (procs s c) = ZOMBIE then
        rbind (post_childexit ROOT_PROC (release_sched_lock s)) (\<lambda>s.
        rbind (acquire_sched_lock s) (\<lambda>s. adopt_children cs s))
      else adopt_children cs s)"

definition merge_children :: "nat \<Rightarrow> kern \<Rightarrow> kern" where
  "merge_children p s =
     (let cs = children (procs s p) in
      if cs \<noteq> [] then set_proc p (\<lambda>x. x\<lparr>children := []\<rparr>) (set_proc ROOT_PROC (\<lambda>x. x\<lparr>children := cs @ children x\<rparr>) s) else s)"

fun close_files :: "nat list \<Rightarrow> nat \<Rightarrow> kern \<Rightarrow> kern res" where
  "close_files [] p s = Inr s"
| "close_files (i # is) p s =
     (case openfilelist (poftable (procs s p)) ! i of
        None \<Rightarrow> close_files is p s
      | Some f \<Rightarrow>
          rbind (on_files (file_close f) s) (\<lambda>s.
          close_files is p (set_proc p (\<lambda>x. x\<lparr>poftable := (poftable x)\<lparr>openfilelist := (openfilelist (poftable x))[i := None]\<rparr>\<rparr>) s)))"

definition free_proc_pgdir :: "nat \<Rightarrow> kern \<Rightarrow> kern res" where
  "free_proc_pgdir p s =
     rbind (on_sys (free_pgdir (ppgdir (procs s p))) s) (\<lambda>(m, s). Inr (set_proc p (\<lambda>x. x\<lparr>ppgdir := m\<rparr>) s))"

definition exit_finish :: "env \<Rightarrow> nat \<Rightarrow> kern \<Rightarrow> kern res" where
  "exit_finish e p s =
     rbind (close_files [0..<NOPENFILE] p s) (\<lambda>s.
     rbind (acquire_proc_lock (release_proc_lock (release_sched_lock s))) (\<lambda>s.
     rbind (acquire_sched_lock s) (\<lambda>s.
     rbind (free_proc_pgdir p s) (\<lambda>s.
     case parent (procs s p) of None \<Rightarrow> Inl Fault | Some q \<Rightarrow>
     rbind (post_childexit q (release_sched_lock s)) (\<lambda>s.
     rbind (acquire_sched_lock s) (\<lambda>s.
     sched e ZOMBIE (release_proc_lock s)))))))"

text \<open>\<^verbatim>\<open>exit\<close> up to the switch to another process; control never comes back to the caller.\<close>

definition proc_exit :: "env \<Rightarrow> int \<Rightarrow> kern \<Rightarrow> kern res" where
  "proc_exit e code s =
     (let p = thisproc e s in
      rassert (p \<noteq> ROOT_PROC \<and> pid (procs s p) \<noteq> - 1)
        (rbind (acquire_proc_lock s) (\<lambda>s.
         rbind (acquire_sched_lock s) (\<lambda>s.
         let s = set_proc p (\<lambda>x. x\<lparr>exitcode := code\<rparr>) s in
         rbind (adopt_children (children (procs s p)) s) (\<lambda>s.
         exit_finish e p (merge_children p s))))))"

section \<open>Kill\<close>

text \<open>The search of the process tree, to depth \<open>n\<close>.\<close>

function (sequential) find_proc :: "nat \<Rightarrow> int \<Rightarrow> nat \<Rightarrow> kern \<Rightarrow> (nat option \<times> kern) res"
  and find_children :: "nat \<Rightarrow> int \<Rightarrow> nat list \<Rightarrow> kern \<Rightarrow> (nat option \<times> kern) res" where
  "find_proc 0 n p s = Inl Blocked"
| "find_proc (Suc d) n p s =
     rbind (if pid (procs s p) = n then rbind (is_unused p s) (\<lambda>(u, s). Inr (\<not> u, s)) else Inr (False, s)) (\<lambda>(found, s).
     if found then Inr (Some p, s) else find_children d n (children (procs s p)) s)"
| "find_children d n [] s = Inr (None, s)"
| "find_children d n (c # cs) s =
     rbind (find_proc d n c s) (\<lambda>(r, s). case r of Some q \<Rightarrow> Inr (Some q, s) | None \<Rightarrow> find_children d n cs s)"
  by pat_completeness auto
termination
  by (relation "inv_image (less_than <*lex*> less_than) (\<lambda>x. case x of Inl (d, _, _, _) \<Rightarrow> (2 * d, 0) | Inr (d, _, cs, _) \<Rightarrow> (2 * d + 1, length cs))") auto

definition kill :: "int \<Rightarrow> kern \<Rightarrow> (int \<times> kern) res" where
  "kill n s =
     rbind (acquire_proc_lock s) (\<lambda>s.
     rbind (find_proc (nat (max_pid s) + 1) n ROOT_PROC s) (\<lambda>(r, s).
       let s = release_proc_lock s in
       case r of
         Some p \<Rightarrow>
           rbind (acquire_proc_lock s) (\<lambda>s.
           rbind (activate_proc True p (set_proc p (\<lambda>x. x\<lparr>killed := True\<rparr>) s)) (\<lambda>(_, s).
           Inr (0, release_proc_lock s)))
       | None \<Rightarrow> Inr (- 1, s)))"

section \<open>Fork\<close>

fun dup_files :: "nat list \<Rightarrow> nat \<Rightarrow> nat \<Rightarrow> kern \<Rightarrow> kern res" where
  "dup_files [] this_proc chp s = Inr s"
| "dup_files (i # is) this_proc chp s =
     (case openfilelist (poftable (procs s this_proc)) ! i of
        None \<Rightarrow> dup_files is this_proc chp s
      | Some f \<Rightarrow>
          rbind (file_dup f (fsys (ksys s))) (\<lambda>(f, x).
            let s = s\<lparr>ksys := (ksys s)\<lparr>fsys := x\<rparr>\<rparr>
            in dup_files is this_proc chp
                 (set_proc chp (\<lambda>y. y\<lparr>poftable := (poftable y)\<lparr>openfilelist := (openfilelist (poftable y))[i := Some f]\<rparr>\<rparr>) s)))"

fun copy_pages :: "64 word list \<Rightarrow> pgdir \<Rightarrow> pgdir \<Rightarrow> vmem \<Rightarrow> ((pgdir \<times> pgdir) \<times> vmem) res" where
  "copy_pages [] old new v = Inr ((old, new), v)"
| "copy_pages (va # vas) old new v =
     rbind (get_pte old va False v) (\<lambda>(e, old, v).
     case e of
       None \<Rightarrow> copy_pages vas old new v
     | Some a \<Rightarrow>
         let pte = rd64 (mem v) a in
         if \<not> pte_valid pte then copy_pages vas old new v
         else rbind (alloc_page v) (\<lambda>(new_page, v).
              rbind (vmmap new va new_page (PTE_FLAGS pte) v) (\<lambda>(new, v).
              rbind (copyout new va (map (mem v) [PTE_ADDRESS pte..<PTE_ADDRESS pte + PAGE_SIZE]) v) (\<lambda>(new, v).
              copy_pages vas old new v))))"

fun copy_memory :: "section_t list \<Rightarrow> pgdir \<Rightarrow> pgdir \<Rightarrow> vmem \<Rightarrow> ((pgdir \<times> pgdir) \<times> vmem) res" where
  "copy_memory [] old new v = Inr ((old, new), v)"
| "copy_memory (st # sts) old new v =
     rbind (copy_pages (page_seq (word_page_base (st_begin st)) (st_end st)) old new v) (\<lambda>((old, new), v).
     copy_memory sts old new v)"

definition copy_space :: "nat \<Rightarrow> nat \<Rightarrow> kern \<Rightarrow> kern res" where
  "copy_space this_proc chp s =
     (let m = ppgdir (procs s this_proc); n = ppgdir (procs s chp) in
      rbind (on_sys (on_vm (copy_memory (sections m) (pd m) (pd n))) s) (\<lambda>((old, new), s).
      rbind (on_sys (copy_sections (sections m) (sections n)) s) (\<lambda>(sts, s).
      Inr (set_proc chp (\<lambda>x. x\<lparr>ppgdir := \<lparr>pd = new, sections = sts\<rparr>\<rparr>)
             (set_proc this_proc (\<lambda>x. x\<lparr>ppgdir := m\<lparr>pd := old\<rparr>\<rparr>) s)))))"

definition fork :: "section_t \<Rightarrow> env \<Rightarrow> kern \<Rightarrow> (int \<times> kern) res" where
  "fork junk e s =
     rbind (create_proc junk s) (\<lambda>(chp, s).
       let p = thisproc e s in
       rbind (set_parent_to_this e chp s) (\<lambda>s.
         let s = set_proc chp (\<lambda>x. x\<lparr>ucontext := (ucontext (procs s p))\<lparr>ux := (ux (ucontext (procs s p)))[0 := 0]\<rparr>\<rparr>) s in
         case cwd (procs s p) of None \<Rightarrow> Inl Fault | Some d \<Rightarrow>
         rbind (inode_share d (it (fsys (ksys s)))) (\<lambda>(d, t).
           let s = set_proc chp (\<lambda>x. x\<lparr>cwd := Some d\<rparr>) (s\<lparr>ksys := (ksys s)\<lparr>fsys := (fsys (ksys s))\<lparr>it := t\<rparr>\<rparr>\<rparr>) in
           rbind (dup_files [0..<NOPENFILE] p chp s) (\<lambda>s.
           rbind (copy_space p chp s) (\<lambda>s.
           rbind (start_proc chp TRAP_RETURN 0 s) (\<lambda>(_, s).
           Inr (pid (procs s chp), s)))))))"

section \<open>The process tree\<close>

text \<open>The links of the tree and the exit codes; most steps leave them alone.\<close>

definition links :: "kern \<Rightarrow> nat \<Rightarrow> nat option \<times> nat list \<times> int \<times> int" where
  "links s p = (parent (procs s p), children (procs s p), exitcode (procs s p), pid (procs s p))"

definition same_links :: "kern \<Rightarrow> kern \<Rightarrow> bool" where
  "same_links s s' \<longleftrightarrow> links s' = links s \<and> this s' = this s"

lemma same_links_refl [simp]: "same_links s s"
  by (simp add: same_links_def)

lemma same_links_trans [trans]: "same_links s t \<Longrightarrow> same_links t u \<Longrightarrow> same_links s u"
  by (simp add: same_links_def)

lemma links_set_proc [simp]:
  assumes "\<And>x. parent (f x) = parent x" "\<And>x. children (f x) = children x" "\<And>x. exitcode (f x) = exitcode x" "\<And>x. pid (f x) = pid x"
  shows "links (set_proc p f s) = links s"
  using assms by (intro ext) (simp add: links_def set_proc_def)

lemma links_update [simp]:
  "links (s\<lparr>rq := q\<rparr>) = links s" "links (s\<lparr>schedulerlock := l\<rparr>) = links s" "links (s\<lparr>processlock := l\<rparr>) = links s"
  "links (s\<lparr>ksys := y\<rparr>) = links s" "links (s\<lparr>kwaits := w\<rparr>) = links s" "links (s\<lparr>this := t\<rparr>) = links s" "links (s\<lparr>kcpus := k\<rparr>) = links s"
  "links (s\<lparr>ttbr0 := t'\<rparr>) = links s"
  by (simp_all add: links_def fun_eq_iff)

lemma this_set_proc [simp]: "this (set_proc p f s) = this s"
  by (simp add: set_proc_def)

lemma locks_same:
  "acquire_sched_lock s = Inr s' \<Longrightarrow> same_links s s'" "acquire_proc_lock s = Inr s' \<Longrightarrow> same_links s s'"
  "same_links s (release_sched_lock s)" "same_links s (release_proc_lock s)"
  by (auto simp: same_links_def acquire_sched_lock_def acquire_proc_lock_def release_sched_lock_def release_proc_lock_def rbind_eq_Inr_conv)

lemma activate_proc_same: "activate_proc al p s = Inr (r, s') \<Longrightarrow> same_links s s'"
  by (cases "locked (schedulerlock s)") (auto simp: activate_proc_def same_links_def release_sched_lock_def Let_def split: if_splits)

lemma activate_all_same: "activate_all ps s = Inr s' \<Longrightarrow> same_links s s'"
  by (induction ps arbitrary: s) (auto simp: rbind_eq_Inr_conv dest: activate_proc_same intro: same_links_trans)

lemma post_childexit_same:
  assumes "post_childexit p s = Inr s'"
  shows "same_links s s'"
proof -
  from assms obtain sem wd ps where "activate_all ps ((set_proc p (\<lambda>x. x\<lparr>childexit := sem\<rparr>) s)\<lparr>kwaits := wd\<rparr>) = Inr s'"
    by (auto simp: post_childexit_def rbind_eq_Inr_conv)
  from activate_all_same [OF this] show ?thesis by (simp add: same_links_def)
qed

lemma on_sys_same: "on_sys f s = Inr (x, s') \<Longrightarrow> same_links s s'"
  by (auto simp: on_sys_def same_links_def rbind_eq_Inr_conv)

lemma on_files_same: "on_files f s = Inr s' \<Longrightarrow> same_links s s'"
  by (auto simp: on_files_def same_links_def rbind_eq_Inr_conv)

lemma close_files_same: "close_files is p s = Inr s' \<Longrightarrow> same_links s s'"
proof (induction "is" p s rule: close_files.induct)
  case (2 i "is" p s)
  show ?case
  proof (cases "openfilelist (poftable (procs s p)) ! i")
    case None
    then show ?thesis using 2 by simp
  next
    case (Some f)
    then obtain t where t: "on_files (file_close f) s = Inr t"
      "close_files is p (set_proc p (\<lambda>x. x\<lparr>poftable := (poftable x)\<lparr>openfilelist := (openfilelist (poftable x))[i := None]\<rparr>\<rparr>) t) = Inr s'"
      using "2.prems" by (auto simp: rbind_eq_Inr_conv)
    have "same_links (set_proc p (\<lambda>x. x\<lparr>poftable := (poftable x)\<lparr>openfilelist := (openfilelist (poftable x))[i := None]\<rparr>\<rparr>) t) s'"
      by (rule "2.IH"(2) [OF Some t])
    then show ?thesis using on_files_same [OF t(1)] by (simp add: same_links_def)
  qed
qed simp

lemma free_proc_pgdir_same: "free_proc_pgdir p s = Inr s' \<Longrightarrow> same_links s s'"
  by (auto simp: free_proc_pgdir_def rbind_eq_Inr_conv same_links_def dest!: on_sys_same)

lemma sched_leaves:
  assumes "sched e new s = Inr s'" and "new \<noteq> RUNNING" "new \<noteq> RUNNABLE" and "\<not> (killed (procs s (thisproc e s)) \<and> new \<noteq> ZOMBIE)"
  shows "links s' = links s" "pstate (procs s' (thisproc e s)) = new" "childexit (procs s' q) = childexit (procs s q)"
proof -
  let ?p = "thisproc e s"
  have k: "(killed (procs s ?p) \<and> new \<noteq> ZOMBIE) = False" using assms(4) by simp
  obtain n s2 where n: "pick_next e (update_this_state e new s) = (n, s2)" by fastforce
  have "rbind (update_this_proc e n s2) (\<lambda>s. rassert (pstate (procs s n) = RUNNABLE)
      (let s = set_proc n (\<lambda>x. x\<lparr>pstate := RUNNING\<rparr>) s;
           s = (if n \<noteq> ?p then attach_pgdir e (pd (ppgdir (procs s n))) s else s) in Inr (release_sched_lock s))) = Inr s'"
    using assms(1) unfolding sched_def Let_def k if_False n prod.case by simp
  then obtain s3 where s3: "update_this_proc e n s2 = Inr s3" "pstate (procs s3 n) = RUNNABLE"
    and s': "procs s' = procs (set_proc n (\<lambda>x. x\<lparr>pstate := RUNNING\<rparr>) s3)"
    by (auto simp: rbind_eq_Inr_conv Let_def attach_pgdir_def release_sched_lock_def)
  have p2: "procs s3 = procs s2" using update_this_proc_frame(1) [OF s3(1)] .
  have u: "links (update_this_state e new s) = links s" "pstate (procs (update_this_state e new s) ?p) = new"
    by (auto simp: update_this_state_def Let_def) (simp_all add: set_proc_def)
  have l2: "links s2 = links (update_this_state e new s)" "pstate (procs s2 ?p) = new"
    using n u(2) by (auto simp: pick_next_def split: option.splits, auto simp: set_proc_def)
  have "links s' = links (set_proc n (\<lambda>x. x\<lparr>pstate := RUNNING\<rparr>) s3)" unfolding links_def s' ..
  also have "\<dots> = links s2" using p2 by (simp add: links_def fun_eq_iff)
  finally show "links s' = links s" using l2 u by simp
  have "n \<noteq> ?p" using s3(2) l2(2) p2 assms(3) by auto
  then show "pstate (procs s' ?p) = new" using s' l2(2) p2 by (simp add: set_proc_def)
  have "childexit (procs (update_this_state e new s) q) = childexit (procs s q)" by (simp add: update_this_state_def set_proc_def Let_def)
  then have "childexit (procs s2 q) = childexit (procs s q)" using n by (auto simp: pick_next_def set_proc_def split: option.splits)
  then show "childexit (procs s' q) = childexit (procs s q)" using s' p2 by (auto simp: set_proc_def)
qed

lemma sched_zombie:
  assumes "sched e ZOMBIE s = Inr s'"
  shows "links s' = links s" "pstate (procs s' (thisproc e s)) = ZOMBIE"
  using sched_leaves [OF assms] by simp_all

lemma adopt_children_links:
  assumes "adopt_children cs s = Inr s'"
  shows "links s' = (\<lambda>p. if p \<in> set cs then (Some ROOT_PROC, snd (links s p)) else links s p) \<and> this s' = this s"
  using assms
proof (induction cs arbitrary: s)
  case (Cons c cs)
  let ?s = "set_proc c (\<lambda>x. x\<lparr>parent := Some ROOT_PROC\<rparr>) s"
  have l: "links ?s = (links s)(c := (Some ROOT_PROC, snd (links s c)))" by (auto simp: links_def set_proc_def)
  obtain t where t: "same_links ?s t" "adopt_children cs t = Inr s'"
  proof (cases "pstate (procs ?s c) = ZOMBIE")
    case True
    then obtain a b where "post_childexit ROOT_PROC (release_sched_lock ?s) = Inr a" "acquire_sched_lock a = Inr b" "adopt_children cs b = Inr s'"
      using Cons.prems by (auto simp: rbind_eq_Inr_conv Let_def)
    then show ?thesis using that locks_same post_childexit_same same_links_trans by meson
  next
    case False
    then show ?thesis using Cons.prems that [of ?s] by (simp add: Let_def)
  qed
  from Cons.IH [OF t(2)] t(1) l show ?case by (auto simp: same_links_def fun_eq_iff)
qed simp

lemma merge_children_links:
  assumes "p \<noteq> ROOT_PROC"
  shows "links (merge_children p s) q =
     (parent (procs s q),
      (if q = p then [] else if q = ROOT_PROC then children (procs s p) @ children (procs s ROOT_PROC) else children (procs s q)),
      exitcode (procs s q), pid (procs s q)) \<and> this (merge_children p s) = this s"
  using assms by (auto simp: merge_children_def links_def set_proc_def Let_def)

text \<open>The steps of \<^verbatim>\<open>exit\<close> after the children have been handed over do not touch the tree.\<close>

lemma exit_rest_links:
  assumes "exit_finish e p s = Inr s'" and "p = thisproc e s"
  shows "links s' = links s \<and> pstate (procs s' p) = ZOMBIE"
proof -
  from assms(1) [unfolded exit_finish_def] obtain a b c d q f g where
    "close_files [0..<NOPENFILE] p s = Inr a" "acquire_proc_lock (release_proc_lock (release_sched_lock a)) = Inr b" "acquire_sched_lock b = Inr c"
    "free_proc_pgdir p c = Inr d" "post_childexit q (release_sched_lock d) = Inr f" "acquire_sched_lock f = Inr g"
    and sc: "sched e ZOMBIE (release_proc_lock g) = Inr s'"
    by (auto simp: rbind_eq_Inr_conv split: option.splits)
  then have "same_links s a" "same_links a b" "same_links b c" "same_links c d" "same_links d f" "same_links f g" "same_links g (release_proc_lock g)"
    using close_files_same free_proc_pgdir_same locks_same post_childexit_same same_links_trans by meson+
  then have "same_links s (release_proc_lock g)" using same_links_trans by meson
  then show ?thesis using sched_zombie [OF sc] assms(2) by (simp add: same_links_def thisproc_def)
qed

text \<open>C35: When a process exits and the CPU has switched away, it is a zombie with the given exit code and no children; each of its children now has the
  root process as parent and is in front of the root's children, and the rest of the process tree is unchanged.\<close>

theorem exit_hands_over_children:
  assumes ex: "proc_exit e code s = Inr s'" and p: "p = thisproc e s"
  shows "pstate (procs s' p) = ZOMBIE \<and> exitcode (procs s' p) = code \<and> children (procs s' p) = []
    \<and> children (procs s' ROOT_PROC) = children (procs s p) @ children (procs s ROOT_PROC)
    \<and> (\<forall>c \<in> set (children (procs s p)). parent (procs s' c) = Some ROOT_PROC)
    \<and> (\<forall>q. q \<notin> set (children (procs s p)) \<longrightarrow> parent (procs s' q) = parent (procs s q))
    \<and> (\<forall>q. q \<noteq> p \<and> q \<noteq> ROOT_PROC \<longrightarrow> children (procs s' q) = children (procs s q))"
proof -
  have np: "p \<noteq> ROOT_PROC" using ex p by (simp add: proc_exit_def Let_def)
  from ex obtain a b c where a: "acquire_proc_lock s = Inr a" and b: "acquire_sched_lock a = Inr b"
    and c: "adopt_children (children (procs (set_proc p (\<lambda>x. x\<lparr>exitcode := code\<rparr>) b) p)) (set_proc p (\<lambda>x. x\<lparr>exitcode := code\<rparr>) b) = Inr c"
    and rest: "exit_finish e p (merge_children p c) = Inr s'"
    by (auto simp: proc_exit_def Let_def p rbind_eq_Inr_conv)
  have sb: "links b = links s" "this b = this s"
    using locks_same(1,2) a b unfolding same_links_def by metis+
  let ?b = "set_proc p (\<lambda>x. x\<lparr>exitcode := code\<rparr>) b"
  have lb: "links ?b q = (parent (procs s q), children (procs s q), if q = p then code else exitcode (procs s q), pid (procs s q))" for q
    using fun_cong [OF sb(1), of q] by (auto simp: links_def set_proc_def)
  have ch: "children (procs ?b p) = children (procs s p)" using lb [of p] by (simp add: links_def)
  have lc: "links c q = (if q \<in> set (children (procs s p)) then (Some ROOT_PROC, snd (links ?b q)) else links ?b q)" "this c = this s" for q
    using adopt_children_links [OF c] sb(2) by (simp_all add: ch)
  have m: "this (merge_children p c) = this c" using merge_children_links [OF np] by blast
  have "links s' = links (merge_children p c)" and z: "pstate (procs s' p) = ZOMBIE"
    using exit_rest_links [OF rest] p m lc(2) by (simp_all add: thisproc_def)
  then have ls: "links s' q = (parent (procs c q),
      (if q = p then [] else if q = ROOT_PROC then children (procs c p) @ children (procs c ROOT_PROC) else children (procs c q)),
      exitcode (procs c q), pid (procs c q))" for q
    using merge_children_links [OF np, of c q] by simp
  have cf: "parent (procs c q) = (if q \<in> set (children (procs s p)) then Some ROOT_PROC else parent (procs s q))"
    "children (procs c q) = children (procs s q)" "exitcode (procs c p) = code" for q
    using lc(1) [of q] lc(1) [of p] lb [of q] lb [of p] by (auto simp: links_def split: if_splits)
  have "parent (procs s' q) = parent (procs c q)" "children (procs s' q) =
      (if q = p then [] else if q = ROOT_PROC then children (procs c p) @ children (procs c ROOT_PROC) else children (procs c q))"
    "exitcode (procs s' q) = exitcode (procs c q)" for q
    using ls [of q] by (simp_all add: links_def)
  then show ?thesis using z cf np by simp
qed

definition exit_procs :: "nat \<Rightarrow> Proc" where
  "exit_procs p =
     (if p = 2 then (demo_proc 2 RUNNING 0)\<lparr>parent := Some 1, children := [3], ppgdir := zero_mm, poftable := \<lparr>openfilelist = replicate 128 None, of_num = 0\<rparr>\<rparr>
      else if p = 1 then (demo_proc 1 RUNNABLE 0)\<lparr>parent := Some 1, children := [2]\<rparr>
      else if p = 3 then (demo_proc 3 SLEEPING 0)\<lparr>parent := Some 2\<rparr>
      else demo_proc 0 UNUSED 0)"

definition exit_kern :: kern where
  "exit_kern = (demo_kern 0)\<lparr>procs := exit_procs, rq := [2, 1], this := (\<lambda>c. if c = 0 then 2 else 10 + c)\<rparr>"

lemma close_files_none:
  "\<forall>i \<in> set is. openfilelist (poftable (procs s p)) ! i = None \<Longrightarrow> close_files is p s = Inr s"
  by (induction "is") auto

lemma post_childexit_quiet:
  assumes "quiet_sem 0 (childexit (procs s p))"
  shows "\<exists>sem wd. post_childexit p s = Inr ((set_proc p (\<lambda>x. x\<lparr>childexit := sem\<rparr>) s)\<lparr>kwaits := wd\<rparr>)"
  using assms by (auto simp: post_childexit_def post_sem_def post_sem_locked_def quiet_sem_def lock_sem_def unlock_sem_def Let_def)

lemma set_proc_id: "f (procs s p) = procs s p \<Longrightarrow> set_proc p f s = s"
  by (simp add: set_proc_def)

lemma free_proc_pgdir_none:
  assumes "ppgdir (procs t p) = zero_mm"
  shows "free_proc_pgdir p t = Inr t"
proof -
  have "(procs t p)\<lparr>ppgdir := zero_mm\<rparr> = procs t p" using assms by (cases "procs t p") simp
  then have "set_proc p (\<lambda>x. x\<lparr>ppgdir := zero_mm\<rparr>) t = t" by (rule set_proc_id)
  moreover have "free_pgdir zero_mm y = Inr (zero_mm, y)" for y by (simp add: free_pgdir_def zero_mm_def)
  ultimately show ?thesis using assms by (simp add: free_proc_pgdir_def on_sys_def)
qed

lemma relock:
  assumes "processlock s = \<lparr>locked = True\<rparr>" "schedulerlock s = \<lparr>locked = True\<rparr>"
  shows "acquire_proc_lock (release_proc_lock (release_sched_lock s)) = Inr (s\<lparr>schedulerlock := \<lparr>locked = False\<rparr>\<rparr>)"
    "acquire_sched_lock (s\<lparr>schedulerlock := \<lparr>locked = False\<rparr>\<rparr>) = Inr s"
    "release_sched_lock s = s\<lparr>schedulerlock := \<lparr>locked = False\<rparr>\<rparr>"
    "acquire_proc_lock (release_proc_lock (s\<lparr>schedulerlock := \<lparr>locked = False\<rparr>\<rparr>)) = Inr (s\<lparr>schedulerlock := \<lparr>locked = False\<rparr>\<rparr>)"
  using assms by (cases s, simp add: acquire_proc_lock_def release_proc_lock_def release_sched_lock_def release_spinlock_eq)+

lemma sched_zombie_returns:
  assumes "pstate (procs u (thisproc e u)) = RUNNING" "rq u = [thisproc e u, n]" "pid (procs u (thisproc e u)) \<noteq> - 1" "n \<noteq> thisproc e u"
    "pstate (procs u n) = RUNNABLE" "timeload (procs u n) < 1000000" "triggered (timers (kcpus u (cpuid e)) (sched_timer e))"
    "set_cpu_timer (efreq e) (enow e 1) (enow e 2) (sched_timer e) (kcpus u (cpuid e)) = Some (Inr cp)"
  shows "\<exists>s'. sched e ZOMBIE u = Inr s'"
  using assms by (simp add: sched_def update_this_state_def pick_next_def update_this_proc_def sched_parts Let_def returns_def)

lemma exit_kern_returns: "\<exists>s'. proc_exit demo_env 7 exit_kern = Inr s'"
proof -
  let ?s1 = "set_proc 3 (\<lambda>x. x\<lparr>parent := Some ROOT_PROC\<rparr>) (set_proc 2 (\<lambda>x. x\<lparr>exitcode := 7\<rparr>)
    (exit_kern\<lparr>processlock := \<lparr>locked = True\<rparr>, schedulerlock := \<lparr>locked = True\<rparr>\<rparr>))"
  let ?s2 = "merge_children 2 ?s1"
  let ?s3 = "?s2\<lparr>schedulerlock := \<lparr>locked = False\<rparr>\<rparr>"
  have s2: "procs ?s2 2 = (demo_proc 2 RUNNING 0)\<lparr>parent := Some 1, children := [], ppgdir := zero_mm, exitcode := 7, poftable := \<lparr>openfilelist = replicate 128 None, of_num = 0\<rparr>\<rparr>"
    "procs ?s2 1 = (demo_proc 1 RUNNABLE 0)\<lparr>parent := Some 1, children := [3, 2]\<rparr>" "this ?s2 = this exit_kern" "idles ?s2 = idles exit_kern"
    "rq ?s2 = [2, 1]" "kcpus ?s2 = (\<lambda>_. demo_cpu)"
    by (simp_all add: merge_children_def set_proc_def exit_kern_def exit_procs_def demo_proc_def ROOT_PROC_def demo_kern_fields)
  have cl: "close_files [0..<NOPENFILE] 2 ?s2 = Inr ?s2"
    by (rule close_files_none) (simp add: s2)
  obtain sem wd where post: "post_childexit 1 ?s3 = Inr ((set_proc 1 (\<lambda>x. x\<lparr>childexit := sem\<rparr>) ?s3)\<lparr>kwaits := wd\<rparr>)"
    using post_childexit_quiet [of ?s3 1] s2(2) by (auto simp: demo_proc_def quiet_sem_def init_sem_def)
  let ?u = "(set_proc 1 (\<lambda>x. x\<lparr>childexit := sem\<rparr>) ?s3)\<lparr>kwaits := wd, schedulerlock := \<lparr>locked = True\<rparr>\<rparr>"
  obtain cp where cp: "set_cpu_timer 62500000 100 100 64 demo_cpu = Some (Inr cp)" using demo_timer by blast
  have u: "thisproc demo_env (release_proc_lock ?u) = 2" "procs (release_proc_lock ?u) 2 = procs ?s2 2" "rq (release_proc_lock ?u) = [2, 1]"
    "procs (release_proc_lock ?u) 1 = (procs ?s2 1)\<lparr>childexit := sem\<rparr>" "kcpus (release_proc_lock ?u) = (\<lambda>_. demo_cpu)"
    using s2(3,5,6) by (simp_all add: thisproc_def release_proc_lock_def demo_env_def exit_kern_def, simp_all add: set_proc_def)
  have "\<exists>s'. sched demo_env ZOMBIE (release_proc_lock ?u) = Inr s'"
    by (rule sched_zombie_returns [of _ _ 1 cp]) (unfold u s2, simp_all add: demo_proc_fields demo_env_def cp, simp add: demo_cpu_def)
  moreover have "exit_finish demo_env 2 ?s2 = sched demo_env ZOMBIE (release_proc_lock ?u)"
  proof -
    have l2: "processlock ?s2 = \<lparr>locked = True\<rparr>" "schedulerlock ?s2 = \<lparr>locked = True\<rparr>"
      by (simp_all add: merge_children_def set_proc_def Let_def)
    have "parent (procs ?s2 2) = Some 1" "ppgdir (procs ?s2 2) = zero_mm" by (simp_all add: s2(1))
    moreover have "acquire_sched_lock ((set_proc 1 (\<lambda>x. x\<lparr>childexit := sem\<rparr>) ?s3)\<lparr>kwaits := wd\<rparr>) = Inr ?u" by (simp add: set_proc_def)
    ultimately show ?thesis by (simp only: exit_finish_def cl rbind_Inr relock [OF l2] free_proc_pgdir_none option.case post)
  qed
  moreover have "proc_exit demo_env 7 exit_kern = exit_finish demo_env 2 ?s2"
  proof -
    have "thisproc demo_env exit_kern = 2" "2 \<noteq> ROOT_PROC" "pid (procs exit_kern 2) \<noteq> - 1" "children (procs exit_kern 2) = [3]"
      "pstate (procs exit_kern 3) = SLEEPING" "processlock exit_kern = \<lparr>locked = False\<rparr>" "schedulerlock exit_kern = \<lparr>locked = False\<rparr>"
      by (simp_all add: thisproc_def exit_kern_def demo_env_def exit_procs_def demo_proc_def ROOT_PROC_def demo_kern_def)
    then show ?thesis
      by (simp add: proc_exit_def acquire_proc_lock_def) (simp add: set_proc_def)
  qed
  ultimately show ?thesis by metis
qed

theorem exit_hands_over_children_witness:
  "\<exists>s'. proc_exit demo_env 7 exit_kern = Inr s' \<and> pstate (procs s' 2) = ZOMBIE \<and> exitcode (procs s' 2) = 7
     \<and> children (procs s' 1) = [3, 2] \<and> parent (procs s' 3) = Some 1"
proof -
  obtain s' where s': "proc_exit demo_env 7 exit_kern = Inr s'" using exit_kern_returns by blast
  have "2 = thisproc demo_env exit_kern" by (simp add: thisproc_def exit_kern_def demo_env_def)
  from exit_hands_over_children [OF s' this] s' show ?thesis
    by (simp add: exit_kern_def exit_procs_def demo_proc_def ROOT_PROC_def)
qed

section \<open>Wait\<close>

text \<open>
  The child \<open>z\<close>, which stands between \<open>as\<close> and \<open>bs\<close> among the children of \<open>p\<close>, has been collected: it is unlinked from its parent and from the run queue, its kernel
  stack is the first free page, its block is in the queue of free blocks of its size, no other process has changed and both locks are free.
\<close>

definition collected :: "nat \<Rightarrow> nat list \<Rightarrow> nat \<Rightarrow> nat list \<Rightarrow> kern \<Rightarrow> kern \<Rightarrow> bool" where
  "collected p as z bs s s' \<longleftrightarrow>
     (let k = km (vm (ksys s)); k' = km (vm (ksys s')) in
      children (procs s' p) = as @ bs \<and> rq s' = remove1 z (rq s) \<and> (\<forall>q. q \<noteq> p \<longrightarrow> procs s' q = procs s q)
      \<and> nodes k' = kstack (procs s z) # nodes k \<and> z - 8 \<in> set (free k' ! hdr k (z - 8))
      \<and> \<not> locked (processlock s') \<and> \<not> locked (schedulerlock s'))"

text \<open>The allocator can take back the block and the stack of \<open>z\<close>: the header holds the size and nobody else refers to the stack.\<close>

definition returnable :: "nat \<Rightarrow> kern \<Rightarrow> bool" where
  "returnable z s \<longleftrightarrow>
     (let k = km (vm (ksys s)); g = pages_ref k (kstack (procs s z) div PAGE_SIZE) in
      length (free k) = 256 \<and> hdr k (z - 8) < 256 \<and> \<not> locked (ref_lock g) \<and> (RefCount.count (ref g) = 0 \<or> RefCount.count (ref g) = 1))"

lemma kfree_page_last:
  assumes "\<not> locked (ref_lock (pages_ref k (a div PAGE_SIZE)))"
    and "RefCount.count (ref (pages_ref k (a div PAGE_SIZE))) = 0 \<or> RefCount.count (ref (pages_ref k (a div PAGE_SIZE))) = 1"
  shows "\<exists>k'. kfree_page a k = Inr k' \<and> nodes k' = a # nodes k \<and> free k' = free k \<and> hdr k' = hdr k"
  using assms by (auto simp: kfree_page_def set_page_def Let_def decrement_rc_def)

lemma heap_free_block:
  assumes "hdr (km (vm y)) (a - 8) < 256" and "length (free (km (vm y))) = 256"
  shows "\<exists>y'. heap_free a y = Inr y' \<and> a - 8 \<in> set (free (km (vm y')) ! hdr (km (vm y)) (a - 8)) \<and> nodes (km (vm y')) = nodes (km (vm y))
    \<and> hdr (km (vm y')) = hdr (km (vm y)) \<and> length (free (km (vm y'))) = 256 \<and> pages_ref (km (vm y')) = pages_ref (km (vm y))"
  using assms by (simp add: heap_free_def kfree_def push_free_def Let_def)

lemma reap_collects:
  assumes r: "returnable z s" and l: "processlock s = \<lparr>locked = True\<rparr>" "schedulerlock s = \<lparr>locked = True\<rparr>"
    and cs: "children (procs s (thisproc e s)) = as @ z # bs" "z \<notin> set as"
  shows "\<exists>t. reap e z s = Inr ((pid (procs s z), Some (exitcode (procs s z))), t)
    \<and> collected (thisproc e s) as z bs s (release_proc_lock (release_sched_lock t))"
proof -
  let ?p = "thisproc e s" and ?k = "km (vm (ksys s))"
  let ?u = "(set_proc ?p (\<lambda>x. x\<lparr>children := remove1 z (children x)\<rparr>) s)\<lparr>rq := remove1 z (rq s)\<rparr>"
  obtain k where k: "kfree_page (kstack (procs s z)) ?k = Inr k" "nodes k = kstack (procs s z) # nodes ?k" "free k = free ?k" "hdr k = hdr ?k"
    using kfree_page_last [of ?k "kstack (procs s z)"] r by (auto simp: returnable_def Let_def)
  let ?y = "(ksys s)\<lparr>vm := (vm (ksys s))\<lparr>km := k\<rparr>\<rparr>"
  obtain y where y: "heap_free z ?y = Inr y" "z - 8 \<in> set (free (km (vm y)) ! hdr ?k (z - 8))" "nodes (km (vm y)) = nodes k"
    using heap_free_block [of ?y z] k(3,4) r by (auto simp: returnable_def Let_def)
  have st: "kstack (procs (set_proc q (\<lambda>x. x\<lparr>children := remove1 z (children x)\<rparr>) u) z) = kstack (procs u z)" for q u by (simp add: set_proc_def)
  have ks: "ksys (set_proc q f u) = ksys u" "rq (set_proc q f u) = rq u" for q f u by (simp_all add: set_proc_def)
  have a: "acquire_sched_lock (release_sched_lock s) = Inr s" using l by (cases s) (simp add: release_sched_lock_def release_spinlock_eq)
  have "reap e z s = Inr ((pid (procs s z), Some (exitcode (procs s z))), ?u\<lparr>ksys := y\<rparr>)"
    by (simp add: reap_def Let_def a on_sys_def on_vm_def st ks k(1) y(1))
  moreover have "remove1 z (as @ z # bs) = as @ bs" using cs(2) by (simp add: remove1_append)
  then have "collected ?p as z bs s (release_proc_lock (release_sched_lock (?u\<lparr>ksys := y\<rparr>)))"
    using y(2,3) k(2) cs(1) by (simp add: collected_def Let_def release_proc_lock_def release_sched_lock_def release_spinlock_eq set_proc_def)
  ultimately show ?thesis by blast
qed

lemma find_first: "(\<forall>q\<in>set as. \<not> P q) \<Longrightarrow> P z \<Longrightarrow> find P (as @ z # bs) = Some z"
  by (induction as) auto

text \<open>The first zombie among the children of the caller.\<close>

definition first_zombie :: "nat \<Rightarrow> nat list \<Rightarrow> nat \<Rightarrow> nat list \<Rightarrow> kern \<Rightarrow> bool" where
  "first_zombie p as z bs s \<longleftrightarrow> children (procs s p) = as @ z # bs \<and> pstate (procs s z) = ZOMBIE \<and> (\<forall>q\<in>set as. pstate (procs s q) \<noteq> ZOMBIE)"

lemma wait_reap_collects:
  assumes r: "returnable z s" and l: "processlock s = \<lparr>locked = False\<rparr>" "schedulerlock s = \<lparr>locked = False\<rparr>" and z: "first_zombie (thisproc e s) as z bs s"
  shows "\<exists>s'. wait_reap e s = Inr ((pid (procs s z), Some (exitcode (procs s z))), s') \<and> collected (thisproc e s) as z bs s s'"
proof -
  let ?t = "s\<lparr>processlock := \<lparr>locked = True\<rparr>, schedulerlock := \<lparr>locked = True\<rparr>\<rparr>"
  have t: "thisproc e ?t = thisproc e s" "returnable z ?t" using r by (simp_all add: thisproc_def returnable_def)
  have "z \<notin> set as" using z by (auto simp: first_zombie_def)
  with reap_collects [OF t(2), of e as bs] obtain u where u: "reap e z ?t = Inr ((pid (procs s z), Some (exitcode (procs s z))), u)"
      "collected (thisproc e s) as z bs ?t (release_proc_lock (release_sched_lock u))"
    using z by (auto simp: t(1) first_zombie_def)
  have f: "find (\<lambda>p. pstate (procs ?t p) = ZOMBIE) (children (procs ?t (thisproc e ?t))) = Some z"
    using z find_first [of as "\<lambda>p. pstate (procs s p) = ZOMBIE" z bs] by (simp add: t(1) first_zombie_def)
  have "wait_reap e s = Inr ((pid (procs s z), Some (exitcode (procs s z))), release_proc_lock (release_sched_lock u))"
    using l f u(1) by (simp add: wait_reap_def acquire_proc_lock_def)
  moreover have "collected (thisproc e s) as z bs s (release_proc_lock (release_sched_lock u))" using u(2) by (simp add: collected_def)
  ultimately show ?thesis by blast
qed

text \<open>Taking the unit of the semaphore and freeing the wait data do not disturb the collection.\<close>

lemma wait_reap_after:
  assumes p: "p = thisproc e s" and l: "processlock s = \<lparr>locked = False\<rparr>" "schedulerlock s = \<lparr>locked = False\<rparr>"
    and z: "first_zombie p as z bs s" "returnable z s" and t: "t = (set_proc p (\<lambda>x. x\<lparr>childexit := sem\<rparr>) s)\<lparr>kwaits := wd, ksys := y\<rparr>"
    and y: "nodes (km (vm y)) = nodes (km (vm (ksys s)))" "hdr (km (vm y)) = hdr (km (vm (ksys s)))" "length (free (km (vm y))) = 256"
      "pages_ref (km (vm y)) = pages_ref (km (vm (ksys s)))"
  shows "\<exists>s'. wait_reap e t = Inr ((pid (procs s z), Some (exitcode (procs s z))), s') \<and> collected p as z bs s s'"
proof -
  have th: "thisproc e t = p" "processlock t = \<lparr>locked = False\<rparr>" "schedulerlock t = \<lparr>locked = False\<rparr>" "rq t = rq s" "ksys t = y"
    using l p by (simp_all add: t thisproc_def set_proc_def)
  have pr: "pid (procs t q) = pid (procs s q)" "exitcode (procs t q) = exitcode (procs s q)" "pstate (procs t q) = pstate (procs s q)"
    "kstack (procs t q) = kstack (procs s q)" "children (procs t q) = children (procs s q)" "q \<noteq> p \<Longrightarrow> procs t q = procs s q" for q
    by (simp_all add: t set_proc_def)
  have rt: "returnable z t" using z(2) y th(5) pr(4) by (simp add: returnable_def Let_def)
  have zt: "first_zombie (thisproc e t) as z bs t" using z(1) pr th(1) by (simp add: first_zombie_def)
  obtain s' where s': "wait_reap e t = Inr ((pid (procs s z), Some (exitcode (procs s z))), s')" "collected p as z bs t s'"
    using wait_reap_collects [OF rt th(2,3) zt] th(1) pr(1,2) by auto
  have "collected p as z bs s s'" using s'(2) y(1,2) th(4,5) pr(4,6) by (simp add: collected_def Let_def)
  then show ?thesis using s'(1) by blast
qed

lemma release_taken: "processlock s = \<lparr>locked = False\<rparr> \<Longrightarrow> release_proc_lock (s\<lparr>processlock := \<lparr>locked = True\<rparr>\<rparr>) = s"
  by (cases s) (simp add: release_proc_lock_def release_spinlock_eq)

lemma wait_enter_collects:
  assumes p: "p = thisproc e s" and l: "processlock s = \<lparr>locked = False\<rparr>" "schedulerlock s = \<lparr>locked = False\<rparr>" "\<not> locked (sem_lock (childexit (procs s p)))"
    and z: "first_zombie p as z bs s" "returnable z s" and v: "0 < sval (childexit (procs s p))"
  shows "\<exists>s'. wait_enter e s = Inr (Returned (pid (procs s z)) (Some (exitcode (procs s z))), s') \<and> collected p as z bs s s'"
proof -
  let ?sem = "(childexit (procs s p))\<lparr>sem_lock := (sem_lock (childexit (procs s p)))\<lparr>locked := True\<rparr>\<rparr>"
  let ?t = "(set_proc p (\<lambda>x. x\<lparr>childexit := unlock_sem (?sem\<lparr>sval := sval ?sem - 1\<rparr>)\<rparr>) s)\<lparr>kwaits := kwaits s\<rparr>"
  have ne: "children (procs s p) \<noteq> []" using z(1) by (simp add: first_zombie_def)
  have len: "length (free (km (vm (ksys s)))) = 256" using z(2) by (simp add: returnable_def Let_def)
  have "?t = (set_proc p (\<lambda>x. x\<lparr>childexit := unlock_sem (?sem\<lparr>sval := sval ?sem - 1\<rparr>)\<rparr>) s)\<lparr>kwaits := kwaits s, ksys := ksys s\<rparr>" by (simp add: set_proc_def)
  from wait_reap_after [OF p l(1,2) z this] len
  obtain s' where s': "wait_reap e ?t = Inr ((pid (procs s z), Some (exitcode (procs s z))), s')" "collected p as z bs s s'" by auto
  have th: "thisproc e (s\<lparr>processlock := \<lparr>locked = True\<rparr>\<rparr>) = p" using p by (simp add: thisproc_def)
  have "wait_enter e s = Inr (Returned (pid (procs s z)) (Some (exitcode (procs s z))), s')"
    using l ne v s'(1) by (simp add: wait_enter_def acquire_proc_lock_def th release_taken lock_sem_def wait_sem_enter_def Let_def)
  then show ?thesis using s'(2) by blast
qed

lemma wait_enter_sleeps:
  assumes p: "p = thisproc e s" and l: "processlock s = \<lparr>locked = False\<rparr>" "schedulerlock s = \<lparr>locked = False\<rparr>" "\<not> locked (sem_lock (childexit (procs s p)))"
    and c: "children (procs s p) \<noteq> []" and v: "sval (childexit (procs s p)) \<le> 0" and k: "\<not> killed (procs s p)" and w: "wait_enter e s = Inr (r, s')"
  shows "\<exists>w. r = Sleeps w \<and> pstate (procs s' p) = SLEEPING \<and> links s' = links s
    \<and> childexit (procs s' p) = (childexit (procs s p))\<lparr>sval := sval (childexit (procs s p)) - 1, sleeplist := w # sleeplist (childexit (procs s p))\<rparr>"
proof -
  let ?c = "childexit (procs s p)"
  have th: "thisproc e (s\<lparr>processlock := \<lparr>locked = True\<rparr>\<rparr>) = p" using p by (simp add: thisproc_def)
  have sl: "x\<lparr>locked := False\<rparr> = x" if "\<not> locked x" for x :: SpinLock using that by (cases x) simp
  obtain a y where a: "r = Sleeps a" and
    sc: "sched e SLEEPING ((set_proc p (\<lambda>x. x\<lparr>childexit := ?c\<lparr>sval := sval ?c - 1, sleeplist := a # sleeplist ?c\<rparr>\<rparr>) (s\<lparr>ksys := y\<rparr>))
        \<lparr>kwaits := (kwaits s)(a := \<lparr>up = False, wproc = p\<rparr>), schedulerlock := \<lparr>locked = True\<rparr>\<rparr>) = Inr s'" (is "sched e _ ?u = _")
    using w l c v
    by (cases ?c) (auto simp: sl wait_enter_def acquire_proc_lock_def th release_taken lock_sem_def wait_sem_enter_def Let_def on_sys_def rbind_eq_Inr_conv
        unlock_sem_def release_spinlock_eq set_proc_def)
  have u: "thisproc e ?u = p" "\<not> killed (procs ?u p)" "links ?u = links s"
    using p k by (simp_all add: thisproc_def set_proc_def, simp add: links_def fun_eq_iff)
  have "links s' = links s" "pstate (procs s' p) = SLEEPING" "childexit (procs s' p) = childexit (procs ?u p)"
    using sched_leaves [OF sc] u by simp_all
  then show ?thesis using a by (simp add: set_proc_def)
qed

lemma wait_resume_cases:
  assumes p: "p = thisproc e s" and l: "processlock s = \<lparr>locked = False\<rparr>" "schedulerlock s = \<lparr>locked = False\<rparr>" "\<not> locked (sem_lock (childexit (procs s p)))"
    and h: "hdr (km (vm (ksys s))) (w - 8) < 256" "length (free (km (vm (ksys s)))) = 256"
  shows "up (kwaits s w) \<Longrightarrow> first_zombie p as z bs s \<Longrightarrow> returnable z s \<Longrightarrow>
      \<exists>s'. wait_resume e w s = Inr ((pid (procs s z), Some (exitcode (procs s z))), s') \<and> collected p as z bs s s'"
    and "\<not> up (kwaits s w) \<Longrightarrow> sval (childexit (procs s p)) < 0 \<Longrightarrow>
      \<exists>s'. wait_resume e w s = Inr ((- 1, None), s') \<and> links s' = links s
        \<and> sval (childexit (procs s' p)) = sval (childexit (procs s p)) + 1 \<and> sleeplist (childexit (procs s' p)) = remove1 w (sleeplist (childexit (procs s p)))"
proof -
  obtain y where y: "heap_free w (ksys s) = Inr y" "nodes (km (vm y)) = nodes (km (vm (ksys s)))" "hdr (km (vm y)) = hdr (km (vm (ksys s)))"
      "length (free (km (vm y))) = 256" "pages_ref (km (vm y)) = pages_ref (km (vm (ksys s)))"
    using heap_free_block [OF h] by blast
  have f: "ksys (set_proc p f s) = ksys s" "kwaits (set_proc p f s) = kwaits s" for f by (simp_all add: set_proc_def)
  let ?sem = "(childexit (procs s p))\<lparr>sem_lock := (sem_lock (childexit (procs s p)))\<lparr>locked := True\<rparr>\<rparr>"
  show "up (kwaits s w) \<Longrightarrow> first_zombie p as z bs s \<Longrightarrow> returnable z s \<Longrightarrow>
      \<exists>s'. wait_resume e w s = Inr ((pid (procs s z), Some (exitcode (procs s z))), s') \<and> collected p as z bs s s'"
  proof -
    assume u: "up (kwaits s w)" and z: "first_zombie p as z bs s" "returnable z s"
    let ?t = "(set_proc p (\<lambda>x. x\<lparr>childexit := unlock_sem ?sem\<rparr>) s)\<lparr>kwaits := kwaits s, ksys := y\<rparr>"
    from wait_reap_after [OF p l(1,2) z refl y(2-)]
    obtain s' where s': "wait_reap e ?t = Inr ((pid (procs s z), Some (exitcode (procs s z))), s')" "collected p as z bs s s'" by blast
    have "wait_resume e w s = Inr ((pid (procs s z), Some (exitcode (procs s z))), s')"
      using l u y(1) s'(1) f by (simp add: wait_resume_def wait_sem_resume_def lock_sem_def p [symmetric] on_sys_def Let_def)
    then show ?thesis using s'(2) by blast
  qed
  show "\<exists>s'. wait_resume e w s = Inr ((- 1, None), s') \<and> links s' = links s
      \<and> sval (childexit (procs s' p)) = sval (childexit (procs s p)) + 1 \<and> sleeplist (childexit (procs s' p)) = remove1 w (sleeplist (childexit (procs s p)))"
    if "\<not> up (kwaits s w)" "sval (childexit (procs s p)) < 0"
    using l that y(1) f by (simp add: wait_resume_def wait_sem_resume_def lock_sem_def p [symmetric] on_sys_def Let_def) (simp add: set_proc_def unlock_sem_def)
qed

text \<open>C36: \<^verbatim>\<open>wait\<close>, with no lock of its own held on entry. Without children it returns -1 and changes nothing. With a child that has exited and been counted, and the first zombie among the
  children at any position, it returns that child's pid and exit code, unlinks the child, puts its kernel stack back on the queue of free pages and its block back on the queue of
  free blocks, and leaves every other process alone and both locks free. With children but no counted exit it goes to sleep, linked into the semaphore. When it wakes up because a child
  exited it collects the first zombie in the same way; when it wakes up because of an alert it returns -1, takes itself off the semaphore and leaves the tree as it is.\<close>

theorem wait_collects_zombie:
  assumes p: "p = thisproc e s" and l: "processlock s = \<lparr>locked = False\<rparr>" "schedulerlock s = \<lparr>locked = False\<rparr>" "\<not> locked (sem_lock (childexit (procs s p)))"
  shows "(children (procs s p) = [] \<longrightarrow> wait_enter e s = Inr (Returned (- 1) None, s))
    \<and> (0 < sval (childexit (procs s p)) \<and> first_zombie p as z bs s \<and> returnable z s \<longrightarrow>
        (\<exists>s'. wait_enter e s = Inr (Returned (pid (procs s z)) (Some (exitcode (procs s z))), s') \<and> collected p as z bs s s'))
    \<and> (children (procs s p) \<noteq> [] \<and> sval (childexit (procs s p)) \<le> 0 \<and> \<not> killed (procs s p) \<and> wait_enter e s = Inr (r, t) \<longrightarrow>
        (\<exists>w. r = Sleeps w \<and> pstate (procs t p) = SLEEPING \<and> links t = links s
           \<and> childexit (procs t p) = (childexit (procs s p))\<lparr>sval := sval (childexit (procs s p)) - 1, sleeplist := w # sleeplist (childexit (procs s p))\<rparr>))
    \<and> (hdr (km (vm (ksys s))) (w - 8) < 256 \<and> length (free (km (vm (ksys s)))) = 256 \<longrightarrow>
        (up (kwaits s w) \<and> first_zombie p as z bs s \<and> returnable z s \<longrightarrow>
          (\<exists>s'. wait_resume e w s = Inr ((pid (procs s z), Some (exitcode (procs s z))), s') \<and> collected p as z bs s s'))
        \<and> (\<not> up (kwaits s w) \<and> sval (childexit (procs s p)) < 0 \<longrightarrow>
          (\<exists>s'. wait_resume e w s = Inr ((- 1, None), s') \<and> links s' = links s
             \<and> sval (childexit (procs s' p)) = sval (childexit (procs s p)) + 1 \<and> sleeplist (childexit (procs s' p)) = remove1 w (sleeplist (childexit (procs s p))))))"
proof -
  have "thisproc e (s\<lparr>processlock := \<lparr>locked = True\<rparr>\<rparr>) = p" using p by (simp add: thisproc_def)
  then have "children (procs s p) = [] \<Longrightarrow> wait_enter e s = Inr (Returned (- 1) None, s)"
    using l(1) by (simp add: wait_enter_def acquire_proc_lock_def release_taken)
  then show ?thesis using wait_enter_collects [OF p l] wait_enter_sleeps [OF p l, of r t] wait_resume_cases [OF p l, of w] by blast
qed

definition zombie_kern :: kern where
  "zombie_kern = exit_kern\<lparr>procs := exit_procs(3 := (demo_proc 3 ZOMBIE 0)\<lparr>parent := Some 2, exitcode := 9, kstack := 0x40006000\<rparr>,
     2 := (exit_procs 2)\<lparr>children := [4, 3, 5], childexit := init_sem 1\<rparr>)\<rparr>"

theorem wait_collects_zombie_witness:
  "\<exists>s'. wait_enter demo_env zombie_kern = Inr (Returned 3 (Some 9), s') \<and> children (procs s' 2) = [4, 5] \<and> hd (nodes (km (vm (ksys s')))) = 0x40006000"
proof -
  have z: "2 = thisproc demo_env zombie_kern" "processlock zombie_kern = \<lparr>locked = False\<rparr>" "schedulerlock zombie_kern = \<lparr>locked = False\<rparr>"
    "childexit (procs zombie_kern 2) = init_sem 1" "kstack (procs zombie_kern 3) = 0x40006000"
    "pid (procs zombie_kern 3) = 3" "exitcode (procs zombie_kern 3) = 9" "km (vm (ksys zombie_kern)) = km demo_vmem"
    by (simp_all add: zombie_kern_def exit_kern_def exit_procs_def demo_proc_def thisproc_def demo_env_def demo_kern_def)
  have f: "first_zombie 2 [4] 3 [5] zombie_kern"
    by (simp add: first_zombie_def zombie_kern_def exit_kern_def exit_procs_def demo_proc_def)
  have r: "returnable 3 zombie_kern"
    by (simp add: returnable_def Let_def z demo_vmem_def demo_kmem_def)
  have "\<not> locked (sem_lock (childexit (procs zombie_kern 2)))" "0 < sval (childexit (procs zombie_kern 2))" by (simp_all add: z(4) init_sem_def)
  with wait_collects_zombie [OF z(1-3), of "[4]" 3 "[5]"] f r
  obtain s' where "wait_enter demo_env zombie_kern = Inr (Returned 3 (Some 9), s')" "collected 2 [4] 3 [5] zombie_kern s'" by (auto simp: z(6,7))
  then show ?thesis by (intro exI [of _ s']) (simp add: collected_def Let_def z(5))
qed

end
