(* ===== verification/Sysfile.thy ===== *)
theory Sysfile
  imports Process
begin

text \<open>
  System calls on files and mappings (\<^verbatim>\<open>kernel/sysfile.c\<close>) and the checks of user addresses (\<^verbatim>\<open>kernel/syscall.c\<close>).

  A system call runs in the current process: its state is the structure of that process and the rest of the system. Memory of the process is reached through
  its page table; an access to a page that is not mapped, or a store to a read-only one, enters the page fault handler and is repeated. A system call
  returns the value of \<^verbatim>\<open>x0\<close> as an integer. A path is the C string a user pointer refers to. \<open>alerted\<close> says that a read which has to wait is
  interrupted, \<open>enc_stat\<close> is the layout of the C library's \<^verbatim>\<open>struct stat\<close>, and \<open>pmem\<close> is where \<^verbatim>\<open>pipe_alloc\<close> gets the memory of its pipe.
\<close>

type_synonym ust = "Proc \<times> sys"

section \<open>User memory\<close>

definition KSPACE_MASK :: "64 word" where "KSPACE_MASK = 0xFFFF000000000000"

definition translate :: "bool \<Rightarrow> 64 word \<Rightarrow> ust \<Rightarrow> (nat option \<times> ust) res" where
  "translate write va = (\<lambda>(p, s).
     rbind (get_pte (pd (ppgdir p)) va False (vm s)) (\<lambda>(e, d, v).
       let p = p\<lparr>ppgdir := (ppgdir p)\<lparr>pd := d\<rparr>\<rparr>; s = s\<lparr>vm := v\<rparr> in
       case e of
         None \<Rightarrow> Inr (None, p, s)
       | Some a \<Rightarrow>
           let pte = rd64 (mem v) a in
           if pte_valid pte \<and> (write \<longrightarrow> \<not> has_flag PTE_RO pte)
           then Inr (Some (PTE_ADDRESS pte + unat va mod PAGE_SIZE), p, s) else Inr (None, p, s)))"

text \<open>An access that faults again after the handler has run would fault for ever.\<close>

definition uaddr :: "bool \<Rightarrow> 64 word \<Rightarrow> ust \<Rightarrow> (nat \<times> ust) res" where
  "uaddr write va st =
     (if KSPACE_MASK \<le> va then Inr (unat (va - KSPACE_MASK), st)
      else rbind (translate write va st) (\<lambda>(a, st).
        case a of
          Some a \<Rightarrow> Inr (a, st)
        | None \<Rightarrow>
            (case st of (p, s) \<Rightarrow>
              rbind (pgfault_handler va (ppgdir p) s) (\<lambda>(m, s).
              rbind (translate write va (p\<lparr>ppgdir := m\<rparr>, s)) (\<lambda>(a, st).
              case a of Some a \<Rightarrow> Inr (a, st) | None \<Rightarrow> Inl Blocked)))))"

definition user_load :: "64 word \<Rightarrow> ust \<Rightarrow> (byte \<times> ust) res" where
  "user_load va st = rbind (uaddr False va st) (\<lambda>(a, p, s). Inr (mem (vm s) a, p, s))"

definition user_store :: "64 word \<Rightarrow> byte \<Rightarrow> ust \<Rightarrow> ust res" where
  "user_store va b st = rbind (uaddr True va st) (\<lambda>(a, p, s). Inr (p, s\<lparr>vm := (vm s)\<lparr>mem := (mem (vm s))(a := b)\<rparr>\<rparr>))"

fun user_loads :: "nat \<Rightarrow> 64 word \<Rightarrow> ust \<Rightarrow> (byte list \<times> ust) res" where
  "user_loads 0 va st = Inr ([], st)"
| "user_loads (Suc n) va st = rbind (user_load va st) (\<lambda>(b, st). rbind (user_loads n (va + 1) st) (\<lambda>(bs, st). Inr (b # bs, st)))"

fun user_stores :: "64 word \<Rightarrow> byte list \<Rightarrow> ust \<Rightarrow> ust res" where
  "user_stores va [] st = Inr st"
| "user_stores va (b # bs) st = rbind (user_store va b st) (\<lambda>st. user_stores (va + 1) bs st)"

section \<open>Checks of user addresses\<close>

definition user_readable :: "64 word \<Rightarrow> 64 word \<Rightarrow> Proc \<Rightarrow> bool" where
  "user_readable start sz p \<longleftrightarrow>
     KSPACE_MASK \<le> start \<or> list_ex (\<lambda>st. st_begin st \<le> start \<and> start + sz < st_end st) (sections (ppgdir p))"

definition user_writeable :: "64 word \<Rightarrow> 64 word \<Rightarrow> Proc \<Rightarrow> bool" where
  "user_writeable start sz p \<longleftrightarrow>
     KSPACE_MASK \<le> start \<or>
     list_ex (\<lambda>st. \<not> has_flag ST_RO (flags st) \<and> st_begin st \<le> start \<and> start + sz < st_end st) (sections (ppgdir p))"

fun strlen_loop :: "nat \<Rightarrow> nat \<Rightarrow> 64 word \<Rightarrow> ust \<Rightarrow> (nat \<times> ust) res" where
  "strlen_loop 0 i str st = Inr (0, st)"
| "strlen_loop (Suc n) i str st =
     (if user_readable (str + word_of_nat i) 1 (fst st) then
        rbind (user_load (str + word_of_nat i) st) (\<lambda>(b, st).
        if b = 0 then Inr (i + 1, st) else strlen_loop n (i + 1) str st)
      else Inr (0, st))"

definition user_strlen :: "64 word \<Rightarrow> nat \<Rightarrow> ust \<Rightarrow> (nat \<times> ust) res" where
  "user_strlen str maxlen st = strlen_loop maxlen 0 str st"

text \<open>The guard \<^verbatim>\<open>if (!user_strlen(path, 256)) return -1\<close> and the string it accepts.\<close>

definition user_path :: "64 word \<Rightarrow> ust \<Rightarrow> (byte list option \<times> ust) res" where
  "user_path va st = rbind (user_strlen va 256 st) (\<lambda>(n, st).
     if n = 0 then Inr (None, st) else rbind (user_loads (n - 1) va st) (\<lambda>(bs, st). Inr (Some bs, st)))"

text \<open>\<^verbatim>\<open>syscall_entry\<close>: the table maps numbers to handlers, \<open>None\<close> being a null entry, which is jumped to.\<close>

definition NR_SYSCALL :: nat where "NR_SYSCALL = 512"

definition syscall_entry :: "(nat \<Rightarrow> (64 word list \<Rightarrow> ust \<Rightarrow> (64 word \<times> ust) res) option) \<Rightarrow> ust \<Rightarrow> ust res" where
  "syscall_entry tab = (\<lambda>(p, s).
     let x = ux (ucontext p); n = unat (x ! 8) in
     if NR_SYSCALL \<le> n then Inl Panic
     else case tab n of
            None \<Rightarrow> Inl Fault
          | Some f \<Rightarrow> rbind (f (take 6 x) (p, s)) (\<lambda>(r, p, s).
              Inr (p\<lparr>ucontext := (ucontext p)\<lparr>ux := (ux (ucontext p))[0 := r]\<rparr>\<rparr>, s)))"

section \<open>Descriptors\<close>

definition fd2file :: "int \<Rightarrow> Proc \<Rightarrow> nat option" where
  "fd2file fd p = (if fd < 0 \<or> fd \<ge> int NOPENFILE then None else openfilelist (poftable p) ! nat fd)"

definition set_fd :: "nat \<Rightarrow> nat option \<Rightarrow> Proc \<Rightarrow> Proc" where
  "set_fd i f p = p\<lparr>poftable := (poftable p)\<lparr>openfilelist := (openfilelist (poftable p))[i := f]\<rparr>\<rparr>"

definition fdalloc :: "nat \<Rightarrow> Proc \<Rightarrow> int \<times> Proc" where
  "fdalloc f p =
     (case find (\<lambda>i. openfilelist (poftable p) ! i = None) [0..<NOPENFILE] of
        Some i \<Rightarrow> (int i, set_fd i (Some f) p)
      | None \<Rightarrow> (- 1, p))"

definition with_fs :: "(fstate \<Rightarrow> ('a \<times> fstate) res) \<Rightarrow> ust \<Rightarrow> ('a \<times> ust) res" where
  "with_fs f = (\<lambda>(p, s). rbind (f (fsys s)) (\<lambda>(x, y). Inr (x, p, s\<lparr>fsys := y\<rparr>)))"

definition with_fs0 :: "(fstate \<Rightarrow> fstate res) \<Rightarrow> ust \<Rightarrow> ust res" where
  "with_fs0 f = (\<lambda>(p, s). rbind (f (fsys s)) (\<lambda>y. Inr (p, s\<lparr>fsys := y\<rparr>)))"

definition sys_ioctl :: "int \<Rightarrow> 64 word \<Rightarrow> ust \<Rightarrow> (int \<times> ust) res" where
  "sys_ioctl fd request st = rassert (request = 0x5413) (Inr (0, st))"

definition sys_dup :: "int \<Rightarrow> ust \<Rightarrow> (int \<times> ust) res" where
  "sys_dup fd = (\<lambda>(p, s).
     case fd2file fd p of
       None \<Rightarrow> Inr (- 1, p, s)
     | Some f \<Rightarrow>
         (case fdalloc f p of (new_fd, p) \<Rightarrow>
            if new_fd < 0 then Inr (- 1, p, s)
            else rbind (with_fs (file_dup f) (p, s)) (\<lambda>(_, st). Inr (new_fd, st))))"

text \<open>The result of \<^verbatim>\<open>file_read\<close> and \<^verbatim>\<open>file_write\<close> as a C value.\<close>

definition count_or_err :: "nat option \<Rightarrow> int" where
  "count_or_err r = (case r of None \<Rightarrow> - 1 | Some n \<Rightarrow> int n)"

definition sys_read :: "bool \<Rightarrow> int \<Rightarrow> 64 word \<Rightarrow> int \<Rightarrow> ust \<Rightarrow> (int \<times> ust) res" where
  "sys_read alerted fd buffer sz = (\<lambda>(p, s).
     case fd2file fd p of
       None \<Rightarrow> Inr (- 1, p, s)
     | Some f \<Rightarrow>
         if sz \<le> 0 then Inr (- 1, p, s)
         else if \<not> user_writeable buffer (word_of_int sz) p then Inr (- 1, p, s)
         else rbind (with_fs (file_read (killed p) alerted f (nat sz)) (p, s)) (\<lambda>(bs, st).
              case bs of
                None \<Rightarrow> Inr (- 1, st)
              | Some bs \<Rightarrow> rbind (user_stores buffer bs st) (\<lambda>st. Inr (int (length bs), st))))"

definition sys_write :: "int \<Rightarrow> 64 word \<Rightarrow> int \<Rightarrow> ust \<Rightarrow> (int \<times> ust) res" where
  "sys_write fd buffer sz = (\<lambda>(p, s).
     case fd2file fd p of
       None \<Rightarrow> Inr (- 1, p, s)
     | Some f \<Rightarrow>
         if sz \<le> 0 \<or> \<not> user_readable buffer (word_of_int sz) p then Inr (- 1, p, s)
         else rbind (user_loads (nat sz) buffer (p, s)) (\<lambda>(bs, p, s).
              rbind (with_fs (file_write (killed p) f bs) (p, s)) (\<lambda>(n, st). Inr (count_or_err n, st))))"

definition load_iovec :: "64 word \<Rightarrow> ust \<Rightarrow> ((64 word \<times> 64 word) \<times> ust) res" where
  "load_iovec a st = rbind (user_loads 16 a st) (\<lambda>(bs, st).
     Inr ((word_of_nat (le_dec (take 8 bs)), word_of_nat (le_dec (drop 8 bs))), st))"

fun writev_loop :: "nat \<Rightarrow> nat \<Rightarrow> 64 word \<Rightarrow> int \<Rightarrow> ust \<Rightarrow> (int \<times> ust) res" where
  "writev_loop 0 f iov tot st = Inr (tot, st)"
| "writev_loop (Suc n) f iov tot st =
     rbind (load_iovec iov st) (\<lambda>((base, len), st).
     if \<not> user_readable base len (fst st) then Inr (- 1, st)
     else rbind (user_loads (unat len) base st) (\<lambda>(bs, p, s).
          rbind (with_fs (file_write (killed p) f bs) (p, s)) (\<lambda>(r, st).
          writev_loop n f (iov + 16) (tot + count_or_err r) st)))"

definition sys_writev :: "int \<Rightarrow> 64 word \<Rightarrow> int \<Rightarrow> ust \<Rightarrow> (int \<times> ust) res" where
  "sys_writev fd iov iovcnt = (\<lambda>(p, s).
     case fd2file fd p of
       None \<Rightarrow> Inr (- 1, p, s)
     | Some f \<Rightarrow>
         if iovcnt \<le> 0 \<or> \<not> user_readable iov (word_of_int (16 * iovcnt)) p then Inr (- 1, p, s)
         else writev_loop (nat iovcnt) f iov 0 (p, s))"

text \<open>An unused descriptor is closed by passing a null pointer to \<^verbatim>\<open>file_close\<close>, which dereferences it.\<close>

definition sys_close :: "int \<Rightarrow> ust \<Rightarrow> (int \<times> ust) res" where
  "sys_close fd = (\<lambda>(p, s).
     if fd < 0 \<or> fd \<ge> int NOPENFILE then Inr (- 1, p, s)
     else let f = openfilelist (poftable p) ! nat fd; p = set_fd (nat fd) None p in
       case f of
         None \<Rightarrow> Inl Fault
       | Some f \<Rightarrow> rbind (with_fs0 (file_close f) (p, s)) (\<lambda>st. Inr (0, st)))"

definition STAT_SIZE :: "64 word" where "STAT_SIZE = 128"

text \<open>\<open>old\<close> is what the user's structure holds before the call; fields that are not set keep it.\<close>

definition sys_fstat :: "(stat \<Rightarrow> byte list) \<Rightarrow> stat \<Rightarrow> int \<Rightarrow> 64 word \<Rightarrow> ust \<Rightarrow> (int \<times> ust) res" where
  "sys_fstat enc_stat old fd sta = (\<lambda>(p, s).
     case fd2file fd p of
       None \<Rightarrow> Inr (- 1, p, s)
     | Some f \<Rightarrow>
         if \<not> user_writeable sta STAT_SIZE p then Inr (- 1, p, s)
         else rbind (with_fs (file_stat f old) (p, s)) (\<lambda>(r, st).
              case r of
                None \<Rightarrow> Inr (- 1, st)
              | Some x \<Rightarrow> rbind (user_stores sta (enc_stat x) st) (\<lambda>st. Inr (0, st))))"

section \<open>Names\<close>

definition AT_FDCWD :: int where "AT_FDCWD = - 100"

definition cwd_of :: "Proc \<Rightarrow> nat" where
  "cwd_of p = (case cwd p of None \<Rightarrow> 0 | Some d \<Rightarrow> d)"

definition with_it :: "(itree \<Rightarrow> ('a \<times> itree) res) \<Rightarrow> ust \<Rightarrow> ('a \<times> ust) res" where
  "with_it f = with_fs (\<lambda>y. rbind (f (it y)) (\<lambda>(x, t). Inr (x, y\<lparr>it := t\<rparr>)))"

definition with_it0 :: "(itree \<Rightarrow> itree res) \<Rightarrow> ust \<Rightarrow> ust res" where
  "with_it0 f = with_fs0 (on_itree f)"

definition cname :: "byte list \<Rightarrow> nat \<Rightarrow> byte" where
  "cname bs k = (if k < length bs then bs ! k else 0)"

text \<open>\<^verbatim>\<open>inodes.unlock(ip); inodes.put(&ctx, ip); bcache.end_op(&ctx); return r\<close>.\<close>

definition finish_op :: "int \<Rightarrow> ctx \<Rightarrow> nat \<Rightarrow> ust \<Rightarrow> (int \<times> ust) res" where
  "finish_op r ctx ip st =
     rbind (with_it0 (inode_unlock ip) st) (\<lambda>st.
     rbind (with_it (inode_put ctx ip) st) (\<lambda>(ctx, st).
     rbind (with_fs0 fs_end_op st) (\<lambda>st. Inr (r, st))))"

definition sys_newfstatat :: "(stat \<Rightarrow> byte list) \<Rightarrow> stat \<Rightarrow> int \<Rightarrow> 64 word \<Rightarrow> 64 word \<Rightarrow> int \<Rightarrow> ust \<Rightarrow> (int \<times> ust) res" where
  "sys_newfstatat enc_stat old dirfd patha sta flg st =
     rbind (user_path patha st) (\<lambda>(path, st).
     case path of None \<Rightarrow> Inr (- 1, st) | Some path \<Rightarrow>
     if \<not> user_writeable sta STAT_SIZE (fst st) then Inr (- 1, st)
     else if dirfd \<noteq> AT_FDCWD then Inr (- 1, st)
     else if flg \<noteq> 0 then Inr (- 1, st)
     else rbind (with_fs fs_begin_op st) (\<lambda>(ctx, st).
          rbind (with_it (\<lambda>t. rbind (namei (cwd_of (fst st)) path ctx t) (\<lambda>(ip, ctx, t). Inr ((ip, ctx), t))) st) (\<lambda>((ip, ctx), st).
          if ip = 0 then rbind (with_fs0 fs_end_op st) (\<lambda>st. Inr (- 1, st))
          else rbind (with_it (\<lambda>t. rbind (inode_lock ip t) (\<lambda>t. rbind (stati ip old t) (\<lambda>x. Inr (x, t)))) st) (\<lambda>(x, st).
               rbind (user_stores sta (enc_stat x) st) (\<lambda>st.
               finish_op 0 ctx ip st)))))"

fun entries_empty :: "nat \<Rightarrow> nat list \<Rightarrow> itree \<Rightarrow> (bool \<times> itree) res" where
  "entries_empty dp [] t = Inr (True, t)"
| "entries_empty dp (off # offs) t =
     rbind (inode_read False dp off 16 t) (\<lambda>(bs, t).
     case bs of
       None \<Rightarrow> Inl Panic
     | Some bs \<Rightarrow>
         if length bs \<noteq> 16 then Inl Panic
         else if inode_no (dec_DirEntry bs) \<noteq> 0 then Inr (False, t) else entries_empty dp offs t)"

definition isdirempty :: "nat \<Rightarrow> itree \<Rightarrow> (bool \<times> itree) res" where
  "isdirempty dp t = rbind (get_inode dp t) (\<lambda>i.
     entries_empty dp (map (\<lambda>k. 32 + 16 * k) [0..<(num_bytes (entry i) - 32 + 15) div 16]) t)"

definition dec_links :: "InodeEntry \<Rightarrow> InodeEntry" where
  "dec_links e = e\<lparr>num_links := (num_links e + U16 - 1) mod U16\<rparr>"

definition inc_links :: "InodeEntry \<Rightarrow> InodeEntry" where
  "inc_links e = e\<lparr>num_links := (num_links e + 1) mod U16\<rparr>"

text \<open>Taking the entry at \<open>off\<close> out of the locked directory \<open>dp\<close>; \<open>ip\<close> is the locked inode it names.\<close>

definition unlink_entry :: "ctx \<Rightarrow> nat \<Rightarrow> nat \<Rightarrow> nat \<Rightarrow> itree \<Rightarrow> (ctx \<times> itree) res" where
  "unlink_entry ctx dp ip off t =
     rbind (get_inode ip t) (\<lambda>i.
     rbind (inode_write ctx dp (replicate 16 0) off t) (\<lambda>(n, ctx, t).
     if n \<noteq> 16 then Inl Panic
     else rbind (if itype (entry i) = INODE_DIRECTORY
                 then inode_sync ctx dp True (set_entry dp dec_links t) else Inr (ctx, t)) (\<lambda>(ctx, t).
          rbind (inode_unlock dp t) (\<lambda>t.
          rbind (inode_put ctx dp t) (\<lambda>(ctx, t).
          inode_sync ctx ip True (set_entry ip dec_links t))))))"

definition sys_unlinkat :: "int \<Rightarrow> 64 word \<Rightarrow> int \<Rightarrow> ust \<Rightarrow> (int \<times> ust) res" where
  "sys_unlinkat fd patha flag st =
     rassert (fd = AT_FDCWD \<and> flag = 0)
     (rbind (user_path patha st) (\<lambda>(path, st).
      case path of None \<Rightarrow> Inr (- 1, st) | Some path \<Rightarrow>
      rbind (with_fs fs_begin_op st) (\<lambda>(ctx, st).
      rbind (with_it (\<lambda>t. rbind (nameiparent (cwd_of (fst st)) path (replicate FILE_NAME_MAX_LENGTH 0) ctx t)
               (\<lambda>(dp, nm, ctx, t). Inr ((dp, nm, ctx), t))) st) (\<lambda>((dp, nm, ctx), st).
      if dp = 0 then rbind (with_fs0 fs_end_op st) (\<lambda>st. Inr (- 1, st))
      else rbind (with_it0 (inode_lock dp) st) (\<lambda>st.
        if strncmp (cname nm) (cname [46]) FILE_NAME_MAX_LENGTH = 0 \<or> strncmp (cname nm) (cname [46, 46]) FILE_NAME_MAX_LENGTH = 0
        then finish_op (- 1) ctx dp st
        else rbind (with_it (\<lambda>t. rbind (inode_lookup dp (cname nm) t) (\<lambda>(inum, off, t). Inr ((inum, off), t))) st) (\<lambda>((inum, off), st).
          if inum = 0 then finish_op (- 1) ctx dp st
          else rbind (with_it (inode_get inum) st) (\<lambda>(ip, st).
               rbind (with_it (\<lambda>t. rbind (inode_lock ip t) (\<lambda>t. rbind (get_inode ip t) (\<lambda>i. Inr (i, t)))) st) (\<lambda>(i, st).
               rassert (1 \<le> num_links (entry i))
               (rbind (if itype (entry i) = INODE_DIRECTORY then with_it (isdirempty ip) st else Inr (True, st)) (\<lambda>(empty, st).
                if \<not> empty then
                  rbind (with_it0 (inode_unlock ip) st) (\<lambda>st.
                  rbind (with_it (inode_put ctx ip) st) (\<lambda>(ctx, st).
                  finish_op (- 1) ctx dp st))
                else rbind (with_it (unlink_entry ctx dp ip off) st) (\<lambda>(ctx, st).
                     finish_op 0 ctx ip st)))))))))))"

section \<open>Creating and opening\<close>

definition fill_directory :: "ctx \<Rightarrow> nat \<Rightarrow> nat \<Rightarrow> itree \<Rightarrow> (ctx \<times> itree) res" where
  "fill_directory ctx cur parent_dir t =
     rbind (inode_insert ctx cur (cname [46]) cur t) (\<lambda>(ret1, ctx, t).
     rbind (inode_insert ctx cur (cname [46, 46]) parent_dir t) (\<lambda>(ret2, ctx, t).
     rassert (ret1 \<noteq> None \<and> ret2 \<noteq> None)
       (inode_sync ctx parent_dir True (set_entry parent_dir inc_links t))))"

definition init_inode_entry :: "nat \<Rightarrow> nat \<Rightarrow> InodeEntry \<Rightarrow> InodeEntry" where
  "init_inode_entry ma mi e = e\<lparr>major := ma mod U16, minor := mi mod U16, num_links := 1\<rparr>"

text \<open>A new inode under the name \<open>nm\<close> of the locked directory; \<open>None\<close> is the early return, which leaves the directory locked.\<close>

definition create_new :: "nat \<Rightarrow> byte list \<Rightarrow> nat \<Rightarrow> nat \<Rightarrow> nat \<Rightarrow> ctx \<Rightarrow> itree \<Rightarrow> ((nat option \<times> ctx) \<times> itree) res" where
  "create_new parent_dir nm type ma mi ctx t =
     rbind (inode_alloc ctx type t) (\<lambda>(n, ctx, t).
     rbind (inode_get n t) (\<lambda>(cur, t).
     if cur = 0 then Inr ((None, ctx), t)
     else rbind (inode_lock cur t) (\<lambda>t.
          rbind (inode_sync ctx cur True (set_entry cur (init_inode_entry ma mi) t)) (\<lambda>(ctx, t).
          rbind (if type = INODE_DIRECTORY then fill_directory ctx cur parent_dir t else Inr (ctx, t)) (\<lambda>(ctx, t).
          rbind (inode_insert ctx parent_dir (cname nm) cur t) (\<lambda>(ret, ctx, t).
          rassert (ret \<noteq> None) (Inr ((Some cur, ctx), t))))))))"

definition create :: "nat \<Rightarrow> byte list \<Rightarrow> nat \<Rightarrow> nat \<Rightarrow> nat \<Rightarrow> ctx \<Rightarrow> itree \<Rightarrow> ((nat \<times> ctx) \<times> itree) res" where
  "create cwdir path type ma mi ctx t =
     rbind (nameiparent cwdir path (replicate FILE_NAME_MAX_LENGTH 0) ctx t) (\<lambda>(parent_dir, nm, ctx, t).
     if parent_dir = 0 then Inr ((0, ctx), t)
     else rbind (inode_lock parent_dir t) (\<lambda>t.
          rbind (inode_lookup parent_dir (cname nm) t) (\<lambda>(n, _, t).
          rbind (if n \<noteq> 0
                 then rbind (inode_get n t) (\<lambda>(cur, t). rbind (inode_lock cur t) (\<lambda>t. Inr ((Some cur, ctx), t)))
                 else create_new parent_dir nm type ma mi ctx t) (\<lambda>((cur, ctx), t).
          case cur of
            None \<Rightarrow> Inr ((0, ctx), t)
          | Some cur \<Rightarrow>
              rbind (inode_unlock parent_dir t) (\<lambda>t.
              rbind (inode_put ctx parent_dir t) (\<lambda>(ctx, t). Inr ((cur, ctx), t)))))))"

definition open_inode :: "byte list \<Rightarrow> int \<Rightarrow> ctx \<Rightarrow> ust \<Rightarrow> ((nat \<times> ctx) \<times> ust) res" where
  "open_inode path omode ctx st =
     (if bit omode 6 then with_it (create (cwd_of (fst st)) path INODE_REGULAR 0 0 ctx) st
      else with_it (\<lambda>t. rbind (namei (cwd_of (fst st)) path ctx t) (\<lambda>(ip, ctx, t).
             if ip = 0 then Inr ((0, ctx), t) else rbind (inode_lock ip t) (\<lambda>t. Inr ((ip, ctx), t)))) st)"

definition sys_openat :: "int \<Rightarrow> 64 word \<Rightarrow> int \<Rightarrow> ust \<Rightarrow> (int \<times> ust) res" where
  "sys_openat dirfd patha omode st =
     rbind (user_path patha st) (\<lambda>(path, st).
     case path of None \<Rightarrow> Inr (- 1, st) | Some path \<Rightarrow>
     if dirfd \<noteq> AT_FDCWD then Inr (- 1, st)
     else rbind (with_fs fs_begin_op st) (\<lambda>(ctx, st).
       rbind (open_inode path omode ctx st) (\<lambda>((ip, ctx), st).
       if ip = 0 then rbind (with_fs0 fs_end_op st) (\<lambda>st. Inr (- 1, st))
       else rbind (with_fs file_alloc st) (\<lambda>(f, p, s).
         case f of
           None \<Rightarrow> finish_op (- 1) ctx ip (p, s)
         | Some f \<Rightarrow>
             (case fdalloc f p of (fd, p) \<Rightarrow>
               if fd < 0 then rbind (with_fs0 (file_close f) (p, s)) (\<lambda>st. finish_op (- 1) ctx ip st)
               else rbind (with_it0 (inode_unlock ip) (p, s)) (\<lambda>st.
                    rbind (with_fs0 fs_end_op st) (\<lambda>(p, s).
                    Inr (fd, p, s\<lparr>fsys := set_file f (\<lambda>x. x\<lparr>ftype := FD_INODE, fobj := ip, foff := 0,
                      readable := \<not> bit omode 0, writable := bit omode 0 \<or> bit omode 1\<rparr>) (fsys s)\<rparr>))))))))"

definition make_node :: "byte list \<Rightarrow> nat \<Rightarrow> nat \<Rightarrow> nat \<Rightarrow> ust \<Rightarrow> (int \<times> ust) res" where
  "make_node path type ma mi st =
     rbind (with_fs fs_begin_op st) (\<lambda>(ctx, st).
     rbind (with_it (create (cwd_of (fst st)) path type ma mi ctx) st) (\<lambda>((ip, ctx), st).
     if ip = 0 then rbind (with_fs0 fs_end_op st) (\<lambda>st. Inr (- 1, st)) else finish_op 0 ctx ip st))"

definition sys_mkdirat :: "int \<Rightarrow> 64 word \<Rightarrow> int \<Rightarrow> ust \<Rightarrow> (int \<times> ust) res" where
  "sys_mkdirat dirfd patha mode st =
     rbind (user_path patha st) (\<lambda>(path, st).
     case path of None \<Rightarrow> Inr (- 1, st) | Some path \<Rightarrow>
     if dirfd \<noteq> AT_FDCWD then Inr (- 1, st)
     else if mode \<noteq> 0 then Inr (- 1, st)
     else make_node path INODE_DIRECTORY 0 0 st)"

text \<open>\<open>ma\<close> and \<open>mi\<close> are \<^verbatim>\<open>major(dev)\<close> and \<^verbatim>\<open>minor(dev)\<close>.\<close>

definition sys_mknodat :: "int \<Rightarrow> 64 word \<Rightarrow> nat \<Rightarrow> nat \<Rightarrow> ust \<Rightarrow> (int \<times> ust) res" where
  "sys_mknodat dirfd patha ma mi st =
     rbind (user_path patha st) (\<lambda>(path, st).
     case path of None \<Rightarrow> Inr (- 1, st) | Some path \<Rightarrow>
     if dirfd \<noteq> AT_FDCWD then Inr (- 1, st)
     else let ma = (if strncmp (cname path) (cname [99, 111, 110, 115, 111, 108, 101]) 7 = 0 then 1 else ma)
          in make_node path INODE_DEVICE ma mi st)"

text \<open>\<^verbatim>\<open>chdir\<close> uses the user's pointer without a check; \<open>path\<close> is the string it refers to.\<close>

definition sys_chdir :: "byte list \<Rightarrow> ust \<Rightarrow> (int \<times> ust) res" where
  "sys_chdir path st =
     rbind (with_fs fs_begin_op st) (\<lambda>(ctx, st).
     rbind (with_it (\<lambda>t. rbind (namei (cwd_of (fst st)) path ctx t) (\<lambda>(ip, ctx, t). Inr ((ip, ctx), t))) st) (\<lambda>((ip, ctx), st).
     if ip = 0 then rbind (with_fs0 fs_end_op st) (\<lambda>st. Inr (- 1, st))
     else rbind (with_it (\<lambda>t. rbind (inode_lock ip t) (\<lambda>t. rbind (get_inode ip t) (\<lambda>i. Inr (i, t)))) st) (\<lambda>(i, st).
       if itype (entry i) \<noteq> INODE_DIRECTORY then finish_op (- 1) ctx ip st
       else rbind (with_it0 (inode_unlock ip) st) (\<lambda>st.
            rbind (with_it (inode_put ctx (cwd_of (fst st))) st) (\<lambda>(ctx, st).
            rbind (with_fs0 fs_end_op st) (\<lambda>(p, s). Inr (0, p\<lparr>cwd := Some ip\<rparr>, s)))))))"

definition sys_pipe2 :: "nat \<Rightarrow> 64 word \<Rightarrow> ust \<Rightarrow> (int \<times> ust) res" where
  "sys_pipe2 pmem pipefd st =
     rbind (with_fs (pipe_alloc pmem) st) (\<lambda>(fs, p, s).
     case fs of
       None \<Rightarrow> Inr (- 1, p, s)
     | Some (f0, f1) \<Rightarrow>
         (case fdalloc f0 p of (fd0, p) \<Rightarrow>
          case fdalloc f1 p of (fd1, p) \<Rightarrow>
            if fd0 = - 1 \<or> fd1 = - 1 then
              rbind (if fd0 \<noteq> - 1 then sys_close fd0 (p, s) else Inr (0, p, s)) (\<lambda>(_, st).
              rbind (if fd1 \<noteq> - 1 then sys_close fd1 st else Inr (0, st)) (\<lambda>(_, st). Inr (- 1, st)))
            else rbind (user_stores pipefd (le_enc 4 (nat fd0)) (p, s)) (\<lambda>st.
                 rbind (user_stores (pipefd + 4) (le_enc 4 (nat fd1)) st) (\<lambda>st. Inr (0, st)))))"

section \<open>Mappings\<close>

definition USER_SPACE_START :: "64 word" where "USER_SPACE_START = 0x40000000"
definition USER_SPACE_END :: "64 word" where "USER_SPACE_END = 0x80000000"
definition KMASK :: "64 word" where "KMASK = 0xffff000000000000"
definition NVMA :: nat where "NVMA = 16"

definition PAGE_ALIGN_UP :: "64 word \<Rightarrow> 64 word" where
  "PAGE_ALIGN_UP x = (x + word_of_nat PAGE_SIZE - 1) AND NOT (word_of_nat PAGE_SIZE - 1)"

definition PAGE_ALIGN_DOWN :: "64 word \<Rightarrow> 64 word" where
  "PAGE_ALIGN_DOWN x = x AND NOT (word_of_nat PAGE_SIZE - 1)"

record vma =
  vstart :: "64 word"
  vend :: "64 word"
  vlength :: "64 word"
  voff :: "64 word"
  vprot :: int
  vflags :: int
  vfile :: "nat option"
  vlock :: SpinLock

definition vma_alloc_id :: "vma list \<Rightarrow> nat res" where
  "vma_alloc_id vma_list = (case find (\<lambda>i. vlength (vma_list ! i) = 0) [0..<NVMA] of Some i \<Rightarrow> Inr i | None \<Rightarrow> Inl Panic)"

definition vma_init :: "vma list" where
  "vma_init = replicate NVMA \<lparr>vstart = 0, vend = 0, vlength = 0, voff = 0, vprot = 0, vflags = 0, vfile = None, vlock = \<lparr>locked = False\<rparr>\<rparr>"

text \<open>
  The loop also visits the list head, where the field read as \<^verbatim>\<open>begin\<close> is the kernel address of the page table, which the first test skips.
\<close>

definition narrow_free :: "section_t \<Rightarrow> 64 word \<times> 64 word \<Rightarrow> 64 word \<times> 64 word" where
  "narrow_free sec = (\<lambda>(b, e).
     if st_begin sec \<ge> KMASK \<or> st_end sec \<ge> KMASK then (b, e)
     else if st_begin sec = 0 \<and> st_end sec = 0 then (b, e)
     else (if st_end sec > b then PAGE_ALIGN_UP (st_end sec) else b, if st_begin sec < e then PAGE_ALIGN_DOWN (st_begin sec) else e))"

definition get_free_vm :: "section_t list \<Rightarrow> 64 word \<Rightarrow> 64 word \<times> 64 word" where
  "get_free_vm sts len =
     (case fold narrow_free sts (USER_SPACE_START, USER_SPACE_END) of (b, e) \<Rightarrow> (e - len, e))"

definition lock_pgdir :: "ust \<Rightarrow> ust res" where
  "lock_pgdir = (\<lambda>(p, s). rbind (acquire_spinlock (pgdir_lock (pd (ppgdir p)))) (\<lambda>l.
     Inr (p\<lparr>ppgdir := (ppgdir p)\<lparr>pd := (pd (ppgdir p))\<lparr>pgdir_lock := l\<rparr>\<rparr>\<rparr>, s)))"

definition unlock_pgdir :: "ust \<Rightarrow> ust" where
  "unlock_pgdir = (\<lambda>(p, s). (p\<lparr>ppgdir := (ppgdir p)\<lparr>pd := (pd (ppgdir p))\<lparr>pgdir_lock := release_spinlock (pgdir_lock (pd (ppgdir p)))\<rparr>\<rparr>\<rparr>, s))"

definition free_and_fail :: "nat \<Rightarrow> ust \<Rightarrow> (int \<times> ust) res" where
  "free_and_fail a = (\<lambda>(p, s). rbind (heap_free a s) (\<lambda>s. Inr (- 1, p, s)))"

definition mmap_section :: "nat \<Rightarrow> int \<Rightarrow> int \<Rightarrow> int \<Rightarrow> section_t" where
  "mmap_section a flg off prot = \<lparr>st_addr = a, flags = (if bit flg 0 then ST_MMAP_SHARED else ST_MMAP_PRIVATE), st_begin = 0, st_end = 0,
     st_sleeplock = \<lparr>sem_lock = \<lparr>locked = False\<rparr>, sval = 0, sleeplist = []\<rparr>, fp = None, st_offset = unat (word_of_int off :: 64 word), st_length = 0, st_prot = unat (word_of_int prot :: 64 word)\<rparr>"

text \<open>The locked part of \<^verbatim>\<open>mmap\<close> once a region has been found.\<close>

definition map_region :: "bool \<Rightarrow> section_t \<Rightarrow> nat \<Rightarrow> 64 word \<Rightarrow> int \<Rightarrow> ust \<Rightarrow> (int \<times> ust) res" where
  "map_region alerted sec f len off = (\<lambda>(p, s).
     let s = s\<lparr>fsys := set_file f (\<lambda>x. x\<lparr>foff := unat (word_of_int off :: 64 word)\<rparr>) (fsys s)\<rparr> in
     rbind (with_fs (file_dup f) (p, s)) (\<lambda>(g, p, s).
       let sec = sec\<lparr>fp := Some g\<rparr>; p = p\<lparr>ppgdir := (ppgdir p)\<lparr>sections := sec # sections (ppgdir p)\<rparr>\<rparr> in
       rbind (with_fs (file_read (killed p) alerted f (unat len)) (p, s)) (\<lambda>(bs, st).
       rbind (case bs of None \<Rightarrow> Inr st | Some bs \<Rightarrow> user_stores (st_begin sec) bs st) (\<lambda>st.
       Inr (uint (st_begin sec), unlock_pgdir st)))))"

definition sys_mmap :: "bool \<Rightarrow> 64 word \<Rightarrow> int \<Rightarrow> int \<Rightarrow> int \<Rightarrow> int \<Rightarrow> int \<Rightarrow> ust \<Rightarrow> (int \<times> ust) res" where
  "sys_mmap alerted addr len prot flg fd off = (\<lambda>(p, s).
     if prot = 0 \<or> bit prot 2 \<or> fd < 0 \<or> fd \<ge> int NOPENFILE \<or> len \<le> 0 then Inr (- 1, p, s)
     else let len = PAGE_ALIGN_UP (word_of_int len) in
       rbind (heap_alloc SECTION_SIZE s) (\<lambda>(a, s).
         let sec = mmap_section a flg off prot in
         case fd2file fd p of
           None \<Rightarrow> free_and_fail a (p, s)
         | Some f \<Rightarrow>
             rbind (get_file f (fsys s)) (\<lambda>x.
             if bit prot 1 \<and> \<not> writable x \<and> flg \<noteq> 2 then free_and_fail a (p, s)
             else rbind (lock_pgdir (p, s)) (\<lambda>st.
               rassert (addr = 0)
               (case get_free_vm (sections (ppgdir (fst st))) len of (free_begin, free_end) \<Rightarrow>
                  if free_end = free_begin \<or> free_begin AND (word_of_nat PAGE_SIZE - 1) \<noteq> 0
                  then rbind (free_and_fail a st) (\<lambda>(r, st). Inr (r, unlock_pgdir st))
                  else map_region alerted (sec\<lparr>st_begin := free_begin, st_end := free_end\<rparr>) f len off st)))))"

text \<open>Writing the bytes of a page back to the file of the section.\<close>

definition write_back :: "section_t \<Rightarrow> 64 word \<Rightarrow> 64 word \<Rightarrow> 64 word \<Rightarrow> nat \<Rightarrow> ust \<Rightarrow> ust res" where
  "write_back sec i lim len page = (\<lambda>(p, s).
     case fp sec of None \<Rightarrow> Inl Fault | Some f \<Rightarrow>
     rbind (get_file f (fsys s)) (\<lambda>x.
     rassert (ftype x = FD_INODE)
       (let this_begin = max i (st_begin sec);
            s = s\<lparr>fsys := set_file f (\<lambda>x. x\<lparr>foff := (st_offset sec + unat (this_begin - st_begin sec)) mod 2 ^ 64\<rparr>) (fsys s)\<rparr> in
        rbind (with_fs (file_write (killed p) f (map (mem (vm s)) [page..<page + unat len])) (p, s)) (\<lambda>(_, st). Inr st))))"

definition page_span :: "section_t \<Rightarrow> 64 word \<Rightarrow> 64 word \<Rightarrow> 64 word" where
  "page_span sec i lim = min (i + word_of_nat PAGE_SIZE) lim - max i (st_begin sec)"

definition drop_page :: "nat \<Rightarrow> ust \<Rightarrow> ust res" where
  "drop_page a = (\<lambda>(p, s).
     rbind (free_page (PTE_ADDRESS (rd64 (mem (vm s)) a)) (vm s)) (\<lambda>v. Inr (p, s\<lparr>vm := v\<lparr>mem := wr64 (mem v) a 0\<rparr>\<rparr>)))"

definition pte_of :: "64 word \<Rightarrow> ust \<Rightarrow> (nat option \<times> ust) res" where
  "pte_of va = (\<lambda>(p, s). rbind (get_pte (pd (ppgdir p)) va False (vm s)) (\<lambda>(e, d, v).
     Inr (e, p\<lparr>ppgdir := (ppgdir p)\<lparr>pd := d\<rparr>\<rparr>, s\<lparr>vm := v\<rparr>)))"

fun free_mapped_pages :: "64 word list \<Rightarrow> section_t \<Rightarrow> ust \<Rightarrow> ust res" where
  "free_mapped_pages [] sec st = Inr st"
| "free_mapped_pages (i # is) sec st =
     rbind (pte_of i st) (\<lambda>(e, p, s).
     case e of
       None \<Rightarrow> free_mapped_pages is sec (p, s)
     | Some a \<Rightarrow>
         let pte = rd64 (mem (vm s)) a in
         if \<not> pte_valid pte then free_mapped_pages is sec (p, s)
         else rbind (if (flags sec = ST_MMAP_PRIVATE \<or> flags sec = ST_MMAP_SHARED) \<and> \<not> has_flag PTE_RO pte
                     then rbind (get_page_ref (PTE_ADDRESS pte) (km (vm s))) (\<lambda>(n, k).
                            let s = s\<lparr>vm := (vm s)\<lparr>km := k\<rparr>\<rparr> in
                            if n = 1 then write_back sec i (st_end sec) (page_span sec i (st_end sec)) (PTE_ADDRESS pte) (p, s)
                            else Inr (p, s))
                     else Inr (p, s)) (\<lambda>st.
              rbind (drop_page a st) (\<lambda>st. free_mapped_pages is sec st)))"

fun unmap_pages :: "64 word list \<Rightarrow> 64 word \<Rightarrow> section_t \<Rightarrow> ust \<Rightarrow> ust res" where
  "unmap_pages [] lim sec st = Inr st"
| "unmap_pages (i # is) lim sec st =
     rbind (pte_of i st) (\<lambda>(e, p, s).
     case e of
       None \<Rightarrow> Inl Fault
     | Some a \<Rightarrow>
         rbind (write_back sec i lim (min (word_of_nat PAGE_SIZE) (page_span sec i lim)) (PTE_ADDRESS (rd64 (mem (vm s)) a)) (p, s)) (\<lambda>st.
         rbind (drop_page a st) (\<lambda>st. unmap_pages is lim sec st)))"

definition set_sections :: "section_t list \<Rightarrow> ust \<Rightarrow> ust" where
  "set_sections sts = (\<lambda>(p, s). (p\<lparr>ppgdir := (ppgdir p)\<lparr>sections := sts\<rparr>\<rparr>, s))"

definition unmap_section :: "section_t \<Rightarrow> 64 word \<Rightarrow> 64 word \<Rightarrow> ust \<Rightarrow> ust res" where
  "unmap_section sec addr len st =
     rassert (flags sec = ST_MMAP_PRIVATE \<or> flags sec = ST_MMAP_SHARED)
       (if st_end sec - st_begin sec \<le> len then
          rbind (user_stores addr (replicate (unat len) 0) st) (\<lambda>st.
          rbind (free_mapped_pages (page_seq (word_page_base (st_begin sec)) (st_end sec)) sec st) (\<lambda>st.
            let st = set_sections (remove1 sec (sections (ppgdir (fst st)))) st in
            case fp sec of None \<Rightarrow> Inl Fault | Some f \<Rightarrow>
            rbind (with_fs0 (file_close f) st) (\<lambda>(p, s).
            rbind (heap_free (st_addr sec) s) (\<lambda>s. Inr (p, s)))))
        else let fin = st_begin sec + len in
          rbind (unmap_pages (page_seq (word_page_base (st_begin sec)) fin) fin sec st) (\<lambda>st.
          Inr (set_sections (map (\<lambda>x. if x = sec then x\<lparr>st_begin := fin\<rparr> else x) (sections (ppgdir (fst st)))) st)))"

definition sys_munmap :: "64 word \<Rightarrow> 64 word \<Rightarrow> ust \<Rightarrow> (int \<times> ust) res" where
  "sys_munmap addr len st =
     rbind (lock_pgdir st) (\<lambda>st.
     rbind (case find (\<lambda>sec. addr = st_begin sec) (sections (ppgdir (fst st))) of
              None \<Rightarrow> Inr st
            | Some sec \<Rightarrow> unmap_section sec addr len st) (\<lambda>st.
     Inr (0, unlock_pgdir st)))"

section \<open>Properties of the system calls\<close>

lemma find_upt_Some: "find P [0..<n] = Some i \<Longrightarrow> i < n \<and> P i \<and> (\<forall>j<i. \<not> P j)"
  by (auto simp: find_Some_iff)

lemma find_upt_None: "find P [0..<n] = None \<Longrightarrow> \<forall>i<n. \<not> P i"
  by (auto simp: find_None_iff)

lemma fdalloc_cases:
  obtains (free) i where "i < NOPENFILE" "openfilelist (poftable p) ! i = None" "\<forall>j<i. openfilelist (poftable p) ! j \<noteq> None"
      "fdalloc f p = (int i, set_fd i (Some f) p)"
  | (full) "\<forall>i<NOPENFILE. openfilelist (poftable p) ! i \<noteq> None" "fdalloc f p = (- 1, p)"
proof (cases "find (\<lambda>i. openfilelist (poftable p) ! i = None) [0..<NOPENFILE]")
  case None
  show ?thesis by (rule full) (use find_upt_None [OF None] in blast, simp only: fdalloc_def None option.case)
next
  case (Some i)
  note i = find_upt_Some [OF Some]
  show ?thesis by (rule free [of i]) (use i in blast, use i in blast, use i in blast, simp only: fdalloc_def Some option.case)
qed

lemma fd2file_set_fd:
  assumes "length (openfilelist (poftable p)) = NOPENFILE" "i < NOPENFILE"
  shows "fd2file k (set_fd i v p) = (if k = int i then v else fd2file k p)"
proof (cases "k < 0 \<or> int NOPENFILE \<le> k")
  case True
  then show ?thesis using assms by (auto simp: fd2file_def)
next
  case False
  then have "nat k = i \<longleftrightarrow> k = int i" by auto
  then show ?thesis using False assms by (simp add: fd2file_def set_fd_def nth_list_update)
qed

lemma file_dup_spec:
  assumes "f < length (filelist y)" "\<not> locked (ftable_lock y)"
  shows "\<exists>y'. file_dup f y = Inr (f, y') \<and> filelist y' = (filelist y)[f := (filelist y ! f)\<lparr>fref := fref (filelist y ! f) + 1\<rparr>]"
  using assms by (simp add: file_dup_def get_file_def ftable_acquire_def ftable_release_def set_file_def)

text \<open>C37: \<^verbatim>\<open>dup\<close> returns the lowest free descriptor, which then names the same open file; every other descriptor is unchanged and the reference count
  of exactly that file has grown by one. With no free descriptor it returns -1 and changes nothing.\<close>

theorem sys_dup_shares_file:
  assumes fd: "fd2file fd p = Some f" and f: "f < length (filelist (fsys s))" and l: "\<not> locked (ftable_lock (fsys s))"
    and len: "length (openfilelist (poftable p)) = NOPENFILE"
  shows "(\<exists>i<NOPENFILE. \<exists>p' s'. sys_dup fd (p, s) = Inr (int i, p', s')
      \<and> openfilelist (poftable p) ! i = None \<and> (\<forall>j<i. openfilelist (poftable p) ! j \<noteq> None)
      \<and> (\<forall>k. fd2file k p' = (if k = int i then Some f else fd2file k p))
      \<and> filelist (fsys s') = (filelist (fsys s))[f := (filelist (fsys s) ! f)\<lparr>fref := fref (filelist (fsys s) ! f) + 1\<rparr>])
    \<or> (\<forall>i<NOPENFILE. openfilelist (poftable p) ! i \<noteq> None) \<and> sys_dup fd (p, s) = Inr (- 1, p, s)"
proof (cases rule: fdalloc_cases [of p f])
  case (free i)
  obtain y where y: "file_dup f (fsys s) = Inr (f, y)"
    "filelist y = (filelist (fsys s))[f := (filelist (fsys s) ! f)\<lparr>fref := fref (filelist (fsys s) ! f) + 1\<rparr>]"
    using file_dup_spec [OF f l] by blast
  have "sys_dup fd (p, s) = Inr (int i, set_fd i (Some f) p, s\<lparr>fsys := y\<rparr>)"
    using fd free(4) y(1) by (simp add: sys_dup_def with_fs_def)
  then show ?thesis using free fd2file_set_fd [OF len free(1), of _ "Some f"] y(2) by auto
next
  case full
  then show ?thesis using fd by (simp add: sys_dup_def)
qed

definition dup_proc :: Proc where
  "dup_proc = (demo_proc 1 RUNNING 0)\<lparr>poftable := \<lparr>openfilelist = (replicate 128 None)[0 := Some 7], of_num = 0\<rparr>\<rparr>"

theorem sys_dup_shares_file_witness:
  "\<exists>p' s'. sys_dup 0 (dup_proc, \<lparr>vm = demo_vmem, fsys = demo_files\<rparr>) = Inr (1, p', s') \<and> fd2file 1 p' = Some 7"
proof -
  have 1: "fd2file 0 dup_proc = Some 7" "length (openfilelist (poftable dup_proc)) = NOPENFILE"
    by (simp_all add: fd2file_def dup_proc_def demo_proc_def)
  have 2: "7 < length (filelist (fsys \<lparr>vm = demo_vmem, fsys = demo_files\<rparr>))" "\<not> locked (ftable_lock (fsys \<lparr>vm = demo_vmem, fsys = demo_files\<rparr>))"
    by (simp_all add: demo_files_def)
  have none: "openfilelist (poftable dup_proc) ! 1 = None" and some: "openfilelist (poftable dup_proc) ! 0 \<noteq> None" by (simp_all add: dup_proc_def)
  have "\<not> (\<forall>i<NOPENFILE. openfilelist (poftable dup_proc) ! i \<noteq> None)" using none by (intro notI) (drule spec [of _ 1], simp)
  with sys_dup_shares_file [OF 1(1) 2 1(2)]
  obtain i p' s' where i: "sys_dup 0 (dup_proc, \<lparr>vm = demo_vmem, fsys = demo_files\<rparr>) = Inr (int i, p', s')"
    "openfilelist (poftable dup_proc) ! i = None" "\<forall>j<i. openfilelist (poftable dup_proc) ! j \<noteq> None"
    "\<forall>k. fd2file k p' = (if k = int i then Some 7 else fd2file k dup_proc)" by blast
  have "i = 1" using i(2,3) none some by (metis gr0I less_one linorder_neqE_nat)
  then show ?thesis using i by auto
qed

text \<open>The checks of user buffers admit every kernel address: a buffer at or above the kernel's base passes \<^verbatim>\<open>user_readable\<close> and \<^verbatim>\<open>user_writeable\<close>
  whatever its size, and the load or store that follows reads or overwrites kernel memory directly.\<close>

theorem user_checks_admit_kernel:
  assumes "KSPACE_MASK \<le> va"
  shows "user_readable va n p \<and> user_writeable va n p
    \<and> user_load va (p, s) = Inr (mem (vm s) (unat (va - KSPACE_MASK)), p, s)
    \<and> user_store va b (p, s) = Inr (p, s\<lparr>vm := (vm s)\<lparr>mem := (mem (vm s))(unat (va - KSPACE_MASK) := b)\<rparr>\<rparr>)"
  using assms by (simp add: user_readable_def user_writeable_def user_load_def user_store_def uaddr_def)

theorem user_checks_admit_kernel_witness:
  "KSPACE_MASK \<le> (KSPACE_MASK + 16 :: 64 word) \<and> user_writeable (KSPACE_MASK + 16) 8 dup_proc
    \<and> (\<exists>s'. user_store (KSPACE_MASK + 16) 1 (dup_proc, \<lparr>vm = demo_vmem, fsys = demo_files\<rparr>) = Inr (dup_proc, s') \<and> mem (vm s') 16 = 1)"
proof -
  have m: "KSPACE_MASK \<le> (KSPACE_MASK + 16 :: 64 word)" "unat (KSPACE_MASK + 16 - KSPACE_MASK :: 64 word) = 16" by (simp_all add: KSPACE_MASK_def)
  show ?thesis using user_checks_admit_kernel [OF m(1), of 8 dup_proc "\<lparr>vm = demo_vmem, fsys = demo_files\<rparr>" 1] m by auto
qed

end
