(* ===== verification/Sysproc.thy ===== *)
theory Sysproc
  imports Process
begin

text \<open>
  System calls on processes (\<^verbatim>\<open>kernel/sysproc.c\<close>). Each runs in the current process of a CPU and returns the value of \<^verbatim>\<open>x0\<close>.
\<close>

definition sys_gettid :: "env \<Rightarrow> kern \<Rightarrow> int \<times> kern" where
  "sys_gettid e s = (pid (procs s (thisproc e s)), s)"

definition sys_set_tid_address :: "env \<Rightarrow> 64 word \<Rightarrow> kern \<Rightarrow> int \<times> kern" where
  "sys_set_tid_address e tidptr s = (pid (procs s (thisproc e s)), s)"

definition sys_sigprocmask :: "kern \<Rightarrow> int \<times> kern" where
  "sys_sigprocmask s = (0, s)"

definition sys_rt_sigprocmask :: "kern \<Rightarrow> int \<times> kern" where
  "sys_rt_sigprocmask s = (0, s)"

definition sys_yield :: "env \<Rightarrow> kern \<Rightarrow> (int \<times> kern) res" where
  "sys_yield e s = rbind (yield e s) (\<lambda>s. Inr (0, s))"

definition sys_pstat :: "kern \<Rightarrow> nat \<times> kern" where
  "sys_pstat s = (left_page_cnt (km (vm (ksys s))), s)"

definition sys_sbrk :: "env \<Rightarrow> int \<Rightarrow> kern \<Rightarrow> (64 word \<times> kern) res" where
  "sys_sbrk e sz s =
     (let p = thisproc e s in
      rbind (sbrk sz (ppgdir (procs s p)) (ksys s)) (\<lambda>(r, m, y).
      Inr (r, set_proc p (\<lambda>x. x\<lparr>ppgdir := m\<rparr>) (s\<lparr>ksys := y\<rparr>))))"

definition sys_clone :: "section_t \<Rightarrow> env \<Rightarrow> int \<Rightarrow> kern \<Rightarrow> (int \<times> kern) res" where
  "sys_clone junk e flag s = (if flag \<noteq> 17 then Inr (- 1, s) else fork junk e s)"

definition sys_exit :: "env \<Rightarrow> int \<Rightarrow> kern \<Rightarrow> kern res" where
  "sys_exit e n s = proc_exit e n s"

text \<open>An unsupported combination of arguments spins for ever.\<close>

definition sys_wait4 :: "env \<Rightarrow> int \<Rightarrow> 64 word \<Rightarrow> int \<Rightarrow> 64 word \<Rightarrow> kern \<Rightarrow> (wait_result \<times> kern) res" where
  "sys_wait4 e n wstatus options rusage s =
     (if n \<noteq> - 1 \<or> wstatus \<noteq> 0 \<or> options \<noteq> 0 \<or> rusage \<noteq> 0 then Inl Blocked else wait_enter e s)"

end
