(* ===== verification/Format.thy ===== *)
theory Format
  imports CString Locks
begin

text \<open>
  Formatted output: \<^verbatim>\<open>common/format.c\<close> and its client \<^verbatim>\<open>kernel/printk.c\<close>.

  The character sink \<^verbatim>\<open>put_char\<close> with its context is a parameter, a function that adds one byte to a state. A string is the list of its bytes before the
  terminating NUL. The variable arguments are a list of what the caller passed, a 64-bit register value or a pointer to a string (\<open>None\<close> is the null
  pointer); taking an argument that was not passed, or of the other kind, is a \<open>Fault\<close>. The 64 bytes of the static buffer of \<^verbatim>\<open>_print_int\<close> bound its loop:
  writing behind them is a \<open>Fault\<close> too, and is proved not to happen for the bases in use.
\<close>

definition bytes :: "string \<Rightarrow> byte list" where
  "bytes s = map of_char s"

lemma bytes_simps [simp]: "bytes [] = []" "bytes (c # s) = of_char c # bytes s" "length (bytes s) = length s"
  by (simp_all add: bytes_def)

text \<open>The bytes a pointer to a string leads to, with the terminating NUL.\<close>

definition chars :: "byte list \<Rightarrow> nat \<Rightarrow> byte" where
  "chars s i = (if i < length s then s ! i else 0)"

section \<open>Numbers\<close>

definition digit :: "byte list" where
  "digit = bytes ''0123456789abcdef'' @ [0]"

text \<open>
  The first loop, \<^verbatim>\<open>do { *pos++ = digit[v % base]; } while (v /= base)\<close>: \<open>buf\<close> holds the bytes written so far, the last one first, and \<open>room\<close> is the number of
  bytes left in the buffer. The second loop writes the buffer from its end to its beginning.
\<close>

fun digits_loop :: "nat \<Rightarrow> 64 word \<Rightarrow> 64 word \<Rightarrow> byte list \<Rightarrow> byte list res" where
  "digits_loop 0 v base buf = Inl Fault"
| "digits_loop (Suc room) v base buf =
     (if unat (v mod base) \<ge> length digit then Inl Fault
      else let buf = digit ! unat (v mod base) # buf;
               v = v div base
           in if v \<noteq> 0 then digits_loop room v base buf else Inr buf)"

definition print_int :: "(byte \<Rightarrow> 's \<Rightarrow> 's) \<Rightarrow> 's \<Rightarrow> 64 word \<Rightarrow> 64 word \<Rightarrow> bool \<Rightarrow> 's res" where
  "print_int put_char ctx u base is_signed =
     (let v = u;
          (v, ctx) = (if is_signed \<and> sint u < 0 then (- v, put_char 45 ctx) else (v, ctx))
      in rbind (digits_loop 64 v base []) (\<lambda>buf. Inr (fold put_char buf ctx)))"

section \<open>Format strings\<close>

datatype va = Num "64 word" | Ptr "byte list option"

definition va_num :: "va list \<Rightarrow> (64 word \<times> va list) res" where
  "va_num arg = (case arg of Num w # arg \<Rightarrow> Inr (w, arg) | _ \<Rightarrow> Inl Fault)"

definition va_str :: "va list \<Rightarrow> (byte list option \<times> va list) res" where
  "va_str arg = (case arg of Ptr p # arg \<Rightarrow> Inr (p, arg) | _ \<Rightarrow> Inl Fault)"

text \<open>\<^verbatim>\<open>(i64)va_arg(arg, type)\<close> for the types of the integer directives.\<close>

datatype int_type = U32 | I32 | B64

primrec to_i64 :: "int_type \<Rightarrow> 64 word \<Rightarrow> 64 word" where
  "to_i64 U32 w = ucast (ucast w :: 32 word)"
| "to_i64 I32 w = scast (ucast w :: 32 word)"
| "to_i64 B64 w = w"

text \<open>The cases of \<^verbatim>\<open>_INT_CASE\<close>, in the order in which they are tried: the letters, the type, the base, and whether a sign is printed.\<close>

definition int_cases :: "(byte list \<times> int_type \<times> 64 word \<times> bool) list" where
  "int_cases = [(bytes ''u'', U32, 10, False), (bytes ''llu'', B64, 10, False), (bytes ''d'', I32, 10, True), (bytes ''lld'', B64, 10, True),
     (bytes ''x'', U32, 16, False), (bytes ''llx'', B64, 16, False), (bytes ''p'', B64, 16, False), (bytes ''zu'', B64, 10, False), (bytes ''zd'', B64, 10, True)]"

definition int_case :: "byte list \<Rightarrow> (byte list \<times> int_type \<times> 64 word \<times> bool) option" where
  "int_case pos = find (\<lambda>(ident, _). strncmp (chars pos) (chars ident) (length ident) = 0) int_cases"

definition null_text :: "byte list" where
  "null_text = bytes ''(null)''"

function vformat :: "(byte \<Rightarrow> 's \<Rightarrow> 's) \<Rightarrow> byte list \<Rightarrow> va list \<Rightarrow> 's \<Rightarrow> 's res" where
  "vformat put_char fmt arg ctx =
     (case fmt of [] \<Rightarrow> Inr ctx
      | c # pos \<Rightarrow>
        (if c = 37
         then if chars pos 0 = 37 then vformat put_char (drop 1 pos) arg (put_char 37 ctx)
              else if chars pos 0 = 99
              then (case va_num arg of Inl e \<Rightarrow> Inl e | Inr (w, arg) \<Rightarrow> vformat put_char (drop 1 pos) arg (put_char (ucast w) ctx))
              else if chars pos 0 = 115
              then (case va_str arg of Inl e \<Rightarrow> Inl e | Inr (p, arg) \<Rightarrow>
                      let s = (case p of None \<Rightarrow> null_text | Some s \<Rightarrow> s)
                      in vformat put_char (drop 1 pos) arg (fold put_char s ctx))
              else (case int_case pos of
                      Some (ident, type, base, sign) \<Rightarrow>
                        (case va_num arg of Inl e \<Rightarrow> Inl e | Inr (w, arg) \<Rightarrow>
                         (case print_int put_char ctx (to_i64 type w) base sign of Inl e \<Rightarrow> Inl e | Inr ctx \<Rightarrow>
                          vformat put_char (drop (length ident) pos) arg ctx))
                    | None \<Rightarrow> vformat put_char pos arg (put_char c ctx))
         else vformat put_char pos arg (put_char c ctx)))"
  by pat_completeness auto
termination
  by (relation "measure (\<lambda>(put_char, fmt, arg, ctx). length fmt)") auto

declare vformat.simps [simp del]

definition format :: "(byte \<Rightarrow> 's \<Rightarrow> 's) \<Rightarrow> 's \<Rightarrow> byte list \<Rightarrow> va list \<Rightarrow> 's res" where
  "format put_char ctx fmt arg = vformat put_char fmt arg ctx"

section \<open>The kernel log\<close>

text \<open>\<^verbatim>\<open>putch\<close> of the console driver adds a byte to what was sent to the serial line.\<close>

record printer =
  printk_lock :: SpinLock
  serial :: "byte list"

definition printk_init :: "printer \<Rightarrow> printer" where
  "printk_init s = s\<lparr>printk_lock := init_spinlock (printk_lock s)\<rparr>"

definition put_serial :: "byte \<Rightarrow> printer \<Rightarrow> printer" where
  "put_serial c s = s\<lparr>serial := serial s @ [c]\<rparr>"

definition vprintf :: "byte list \<Rightarrow> va list \<Rightarrow> printer \<Rightarrow> printer res" where
  "vprintf fmt arg s =
     rbind (acquire_spinlock (printk_lock s)) (\<lambda>l.
     rbind (vformat put_serial fmt arg (s\<lparr>printk_lock := l\<rparr>)) (\<lambda>s.
     Inr (s\<lparr>printk_lock := release_spinlock (printk_lock s)\<rparr>)))"

definition printk :: "byte list \<Rightarrow> va list \<Rightarrow> printer \<Rightarrow> printer res" where
  "printk fmt arg s = vprintf fmt arg s"

section \<open>Printed numbers\<close>

text \<open>The number a list of digits denotes, most significant first.\<close>

definition digit_val :: "byte \<Rightarrow> nat" where
  "digit_val c = (if 97 \<le> c then unat c - 87 else unat c - 48)"

definition value_of :: "nat \<Rightarrow> byte list \<Rightarrow> nat" where
  "value_of b ds = foldl (\<lambda>n c. n * b + digit_val c) 0 ds"

text \<open>The digits of a number, by repeated division of natural numbers.\<close>

fun numeral_of :: "nat \<Rightarrow> nat \<Rightarrow> byte list" where
  "numeral_of b n = (if n < b \<or> b < 2 then [digit ! n] else numeral_of b (n div b) @ [digit ! (n mod b)])"

declare numeral_of.simps [simp del]

lemma nth_digit: "n < 16 \<Longrightarrow> digit_val (digit ! n) = n"
proof -
  have "\<forall>n\<in>{0..<16}. digit_val (digit ! n) = n" by code_simp
  then show "n < 16 \<Longrightarrow> digit_val (digit ! n) = n" by simp
qed

lemma value_numeral_of: "2 \<le> b \<Longrightarrow> b \<le> 16 \<Longrightarrow> value_of b (numeral_of b n) = n"
proof (induction b n rule: numeral_of.induct)
  case (1 b n)
  show ?case
  proof (cases "n < b")
    case True
    then show ?thesis using 1 nth_digit by (simp add: numeral_of.simps [of b n] value_of_def)
  next
    case False
    have "n mod b < b" using 1 by simp
    then have "n mod b < 16" using 1 by linarith
    then show ?thesis using False 1 nth_digit by (simp add: numeral_of.simps [of b n] value_of_def)
  qed
qed

lemma numeral_of_shape:
  assumes "2 \<le> b" "b \<le> 16"
  shows "numeral_of b n \<noteq> []" "n \<noteq> 0 \<Longrightarrow> digit_val (hd (numeral_of b n)) \<noteq> 0" "set (numeral_of b n) \<subseteq> set (take 16 digit)"
proof -
  have "numeral_of b n \<noteq> [] \<and> (n \<noteq> 0 \<longrightarrow> digit_val (hd (numeral_of b n)) \<noteq> 0) \<and> set (numeral_of b n) \<subseteq> (!) digit ` {..<16}"
    using assms
  proof (induction b n rule: numeral_of.induct)
    case (1 b n)
    have m: "n mod b < 16" using 1(2,3) by (metis less_le_trans mod_less_divisor not_numeral_le_zero zero_less_iff_neq_zero)
    show ?case
    proof (cases "n < b")
      case True
      then show ?thesis using 1(2,3) nth_digit by (auto simp: numeral_of.simps [of b n])
    next
      case False
      then have "n div b \<noteq> 0" using 1(2) by (simp add: div_eq_0_iff)
      then show ?thesis using False 1 m by (auto simp: numeral_of.simps [of b n])
    qed
  qed
  moreover have "digit ! i \<in> set (take 16 digit)" if "i < 16" for i
    using nth_mem [of i "take 16 digit"] nth_take [OF that, of digit] that by (simp only: length_take) (simp add: digit_def)
  then have "(!) digit ` {..<16} \<subseteq> set (take 16 digit)" by blast
  ultimately show "numeral_of b n \<noteq> []" "n \<noteq> 0 \<Longrightarrow> digit_val (hd (numeral_of b n)) \<noteq> 0" "set (numeral_of b n) \<subseteq> set (take 16 digit)"
    by blast+
qed

lemma digits_loop_numeral:
  assumes "2 \<le> b" "b \<le> 16" "unat v < b ^ room" "0 < room"
  shows "digits_loop room v (of_nat b) buf = Inr (numeral_of b (unat v) @ buf)"
  using assms(3,4)
proof (induction room arbitrary: v buf)
  case (Suc room)
  have b: "unat (of_nat b :: 64 word) = b" using assms(2) by (simp add: unat_of_nat take_bit_eq_mod)
  have m: "unat (v mod of_nat b) = unat v mod b" "unat (v div of_nat b) = unat v div b" using b by (simp_all add: unat_mod unat_div)
  have "unat v mod b < b" using assms(1) by simp
  then have lt: "\<not> unat v mod b \<ge> length digit" using assms(2) by (simp add: digit_def)
  show ?case
  proof (cases "unat v < b")
    case True
    then have "v div of_nat b = 0" using m(2) by (simp add: unat_eq_0 [symmetric] del: unat_eq_0)
    then show ?thesis using True lt m by (simp add: numeral_of.simps [of b "unat v"])
  next
    case False
    then have nz: "v div of_nat b \<noteq> 0" using m(2) assms(1) by (metis div_eq_0_iff not_numeral_le_zero unat_0)
    have "unat v div b < b ^ room" using Suc.prems(1) assms(1) by (simp add: less_mult_imp_div_less mult.commute)
    moreover have "0 < room" using False Suc.prems(1) by (cases room) auto
    ultimately have "digits_loop room (v div of_nat b) (of_nat b) (digit ! (unat v mod b) # buf)
        = Inr (numeral_of b (unat v div b) @ digit ! (unat v mod b) # buf)"
      using Suc.IH [of "v div of_nat b"] m(2) by simp
    then show ?thesis using False nz lt m assms(1) by (simp add: numeral_of.simps [of b "unat v"] Let_def)
  qed
qed simp

lemma uint_mod_sint: "uint (word_of_int x :: 64 word) = x mod 2 ^ 64"
  by (simp add: unsigned_of_int take_bit_eq_mod)

lemma sint_range: "- (2 ^ 63) \<le> sint (u :: 64 word)" "sint (u :: 64 word) < 2 ^ 63"
  using sint_ge [of u] sint_lt [of u] by simp_all

lemma uint_nonnegative: "\<not> sint u < 0 \<Longrightarrow> uint (u :: 64 word) = sint u"
  using uint_mod_sint [of "sint u"] sint_range [of u] by simp

lemma unat_minus_negative:
  fixes u :: "64 word"
  assumes "sint u < 0"
  shows "uint (- u) = - sint u"
proof -
  have "- u = word_of_int (- sint u)" by simp
  then have "uint (- u) = (- sint u) mod 2 ^ 64" using uint_mod_sint by (simp only:)
  moreover have "- sint u < 2 ^ 64" "0 \<le> - sint u" using sint_range [of u] assms by simp_all
  ultimately show ?thesis using mod_pos_pos_trivial by (simp only:)
qed

text \<open>The text of a number: its sign, when asked for, and its digits.\<close>

definition number_text :: "nat \<Rightarrow> bool \<Rightarrow> 64 word \<Rightarrow> byte list" where
  "number_text b sg u = (if sg \<and> sint u < 0 then 45 # numeral_of b (unat (- u)) else numeral_of b (unat u))"

lemma print_int_text:
  assumes "2 \<le> b" "b \<le> 16"
  shows "print_int put_char ctx u (of_nat b) sg = Inr (fold put_char (number_text b sg u) ctx)"
proof -
  have "(2::nat) ^ 64 \<le> b ^ 64" using assms(1) by (rule power_mono) simp
  moreover have "unat v < 2 ^ 64" for v :: "64 word" using unsigned_less [of v] by simp
  ultimately have "unat v < b ^ 64" for v :: "64 word" using less_le_trans by blast
  then show ?thesis
    using digits_loop_numeral [OF assms, of _ 64 "[]"] by (simp add: print_int_def number_text_def)
qed

text \<open>
  C38: \<^verbatim>\<open>_print_int\<close> prints every 64-bit value, in every base from 2 to 16, without overrunning its buffer, and what it prints can be read back: a minus sign
  exactly for a negative number printed as signed, then digits that denote its absolute value (also for the smallest number, whose negation wraps), without a
  leading zero.
\<close>
theorem print_int_roundtrip:
  assumes "2 \<le> b" "b \<le> 16"
  shows "\<exists>ds. print_int put_char ctx u (of_nat b) sg = Inr (fold put_char (if sg \<and> sint u < 0 then 45 # ds else ds) ctx)
    \<and> int (value_of b ds) = (if sg then \<bar>sint u\<bar> else uint u) \<and> ds \<noteq> [] \<and> set ds \<subseteq> set (take 16 digit)
    \<and> (u = 0 \<or> digit_val (hd ds) \<noteq> 0)"
proof -
  let ?n = "unat (if sg \<and> sint u < 0 then - u else u)"
  have "int ?n = (if sg then \<bar>sint u\<bar> else uint u)" using uint_nonnegative [of u] unat_minus_negative [of u] by auto
  moreover have "u = 0" if "?n = 0" using that by (simp add: unat_eq_zero split: if_splits)
  then have "u = 0 \<or> digit_val (hd (numeral_of b ?n)) \<noteq> 0" using numeral_of_shape(2) [OF assms, of ?n] by blast
  ultimately show ?thesis
    using print_int_text [OF assms, of put_char ctx u sg] value_numeral_of [OF assms, of ?n] numeral_of_shape(1,3) [OF assms, of ?n]
    by (intro exI [of _ "numeral_of b ?n"]) (auto simp: number_text_def)
qed

theorem print_int_roundtrip_witness:
  "\<exists>ds. print_int (\<lambda>c out. out @ [c]) [] (- (2 ^ 63)) (of_nat 10) True = Inr (fold (\<lambda>c out. out @ [c]) (45 # ds) [])
     \<and> value_of 10 ds = 2 ^ 63"
proof -
  have "sint (- (2 ^ 63) :: 64 word) = - (2 ^ 63)" by simp
  then show ?thesis
    using print_int_roundtrip [of 10 "\<lambda>c out. out @ [c]" "[]" "- (2 ^ 63)" True] by auto
qed

section \<open>Format strings and what they render\<close>

text \<open>
  Numerals as they are written by hand: the digits of a natural number in base 10 or 16, with lower-case letters, and a minus sign in front of a negative integer. Nothing here refers
  to the tables of the code.
\<close>

definition ascii_digit :: "nat \<Rightarrow> byte" where
  "ascii_digit n = of_nat (if n < 10 then 48 + n else 87 + n)"

fun radix :: "nat \<Rightarrow> nat \<Rightarrow> byte list" where
  "radix b n = (if n < b \<or> b < 2 then [ascii_digit n] else radix b (n div b) @ [ascii_digit (n mod b)])"

declare radix.simps [simp del]

definition decimal :: "int \<Rightarrow> byte list" where
  "decimal i = (if i < 0 then 45 # radix 10 (nat (- i)) else radix 10 (nat i))"

text \<open>
  A format string, taken apart: plain text, one of the directives with the argument it consumes, or a percent sign before a letter that starts no directive.
\<close>

datatype piece = Plain "byte list" | Percent | Unknown byte | Char_arg "64 word" | Str_arg "byte list option" | U_arg "64 word" | LLU_arg "64 word"
  | D_arg "64 word" | LLD_arg "64 word" | X_arg "64 word" | LLX_arg "64 word" | P_arg "64 word" | ZU_arg "64 word" | ZD_arg "64 word"

fun piece_ok :: "piece \<Rightarrow> bool" where
  "piece_ok (Plain t) = (37 \<notin> set t)"
| "piece_ok (Unknown c) = (c \<notin> set (bytes ''%csudxplz''))"
| "piece_ok _ = True"

primrec piece_text :: "piece \<Rightarrow> byte list" where
  "piece_text (Plain t) = t"
| "piece_text Percent = bytes ''%%''"
| "piece_text (Unknown c) = [37, c]"
| "piece_text (Char_arg w) = bytes ''%c''"
| "piece_text (Str_arg p) = bytes ''%s''"
| "piece_text (U_arg w) = bytes ''%u''"
| "piece_text (LLU_arg w) = bytes ''%llu''"
| "piece_text (D_arg w) = bytes ''%d''"
| "piece_text (LLD_arg w) = bytes ''%lld''"
| "piece_text (X_arg w) = bytes ''%x''"
| "piece_text (LLX_arg w) = bytes ''%llx''"
| "piece_text (P_arg w) = bytes ''%p''"
| "piece_text (ZU_arg w) = bytes ''%zu''"
| "piece_text (ZD_arg w) = bytes ''%zd''"

primrec piece_args :: "piece \<Rightarrow> va list" where
  "piece_args (Plain t) = []"
| "piece_args Percent = []"
| "piece_args (Unknown c) = []"
| "piece_args (Char_arg w) = [Num w]"
| "piece_args (Str_arg p) = [Ptr p]"
| "piece_args (U_arg w) = [Num w]"
| "piece_args (LLU_arg w) = [Num w]"
| "piece_args (D_arg w) = [Num w]"
| "piece_args (LLD_arg w) = [Num w]"
| "piece_args (X_arg w) = [Num w]"
| "piece_args (LLX_arg w) = [Num w]"
| "piece_args (P_arg w) = [Num w]"
| "piece_args (ZU_arg w) = [Num w]"
| "piece_args (ZD_arg w) = [Num w]"

primrec piece_out :: "piece \<Rightarrow> byte list" where
  "piece_out (Plain t) = t"
| "piece_out Percent = bytes ''%''"
| "piece_out (Unknown c) = [37, c]"
| "piece_out (Char_arg w) = [of_nat (unat w mod 256)]"
| "piece_out (Str_arg p) = (case p of None \<Rightarrow> bytes ''(null)'' | Some s \<Rightarrow> s)"
| "piece_out (U_arg w) = radix 10 (unat w mod 2 ^ 32)"
| "piece_out (LLU_arg w) = radix 10 (unat w)"
| "piece_out (D_arg w) = decimal (sint (ucast w :: 32 word))"
| "piece_out (LLD_arg w) = decimal (sint w)"
| "piece_out (X_arg w) = radix 16 (unat w mod 2 ^ 32)"
| "piece_out (LLX_arg w) = radix 16 (unat w)"
| "piece_out (P_arg w) = radix 16 (unat w)"
| "piece_out (ZU_arg w) = radix 10 (unat w)"
| "piece_out (ZD_arg w) = decimal (sint w)"

lemma ascii_digit_nth: "n < 16 \<Longrightarrow> digit ! n = ascii_digit n"
proof -
  have "\<forall>n\<in>{0..<16}. digit ! n = ascii_digit n" by code_simp
  then show "n < 16 \<Longrightarrow> digit ! n = ascii_digit n" by simp
qed

lemma numeral_of_radix: "2 \<le> b \<Longrightarrow> b \<le> 16 \<Longrightarrow> numeral_of b n = radix b n"
proof (induction b n rule: numeral_of.induct)
  case (1 b n)
  have "n mod b < b" using 1 by simp
  then have "n mod b < 16" using 1 by linarith
  then show ?case using 1 ascii_digit_nth by (simp add: numeral_of.simps [of b n] radix.simps [of b n])
qed

lemma number_text_radix: "number_text 10 False u = radix 10 (unat u)" "number_text 16 False u = radix 16 (unat u)"
  by (simp_all add: number_text_def numeral_of_radix)

lemma number_text_decimal: "number_text 10 True u = decimal (sint u)"
proof -
  have "unat (- u) = nat (- sint u)" if "sint u < 0" using unat_minus_negative [OF that] by (simp add: unat_eq_nat_uint)
  moreover have "unat u = nat (sint u)" if "\<not> sint u < 0" using uint_nonnegative [OF that] by (simp add: unat_eq_nat_uint)
  ultimately show ?thesis by (simp add: number_text_def decimal_def numeral_of_radix)
qed

lemma unat_cut: "unat (ucast (ucast w :: 32 word) :: 64 word) = unat w mod 2 ^ 32" for w :: "64 word"
  by (simp only: unsigned_ucast_eq take_bit_take_bit len_bit0 len_num1) (simp add: take_bit_eq_mod unat_mod)

lemma sint_cut: "sint (scast (ucast w :: 32 word) :: 64 word) = sint (ucast w :: 32 word)"
proof -
  have "- (2 ^ 31) \<le> sint (ucast w :: 32 word)" "sint (ucast w :: 32 word) < 2 ^ 31" using sint_ge [of "ucast w :: 32 word"] sint_lt [of "ucast w :: 32 word"] by simp_all
  then have "signed_take_bit 63 (sint (ucast w :: 32 word)) = sint (ucast w :: 32 word)" by (intro signed_take_bit_int_eq_self) simp_all
  then show ?thesis by (simp add: signed_scast_eq)
qed

lemma vformat_plain: "37 \<notin> set t \<Longrightarrow> vformat put_char (t @ fmt) arg ctx = vformat put_char fmt arg (fold put_char t ctx)"
  by (induction t arbitrary: ctx) (simp_all add: vformat.simps [of _ "_ # _"])

lemma map_chars: "n \<le> length s \<Longrightarrow> map (chars s) [0..<n] = take n s"
  by (intro nth_equalityI) (simp_all add: chars_def)

lemma strncmp_prefix:
  assumes "0 \<notin> set ident"
  shows "strncmp (chars pos) (chars ident) (length ident) = 0 \<longleftrightarrow> take (length ident) pos = ident"
proof -
  let ?n = "length ident" and ?p = "map (chars pos) [0..<length ident]"
  have i: "cstr ?n (chars ident) = ident" using assms by (simp add: cstr_def map_chars takeWhile_eq_all_conv) metis
  have "cstr ?n (chars pos) = ident \<longleftrightarrow> take ?n pos = ident"
  proof
    assume a: "cstr ?n (chars pos) = ident"
    have "takeWhile (\<lambda>c. c \<noteq> 0) ?p = take ?n ?p" using a by (metis cstr_def takeWhile_eq_take)
    also have "\<dots> = ?p" by simp
    finally have p: "?p = ident" using a by (simp only: cstr_def)
    have "chars pos j = ident ! j" if "j < ?n" for j using p that by (metis add_0 length_map length_upt minus_nat.diff_0 nth_map nth_upt)
    then have "j < length pos" if "j < ?n" for j using that assms by (metis chars_def nth_mem)
    then have "?n \<le> length pos" by (meson linorder_not_less less_irrefl)
    then show "take ?n pos = ident" using p map_chars by metis
  next
    assume a: "take ?n pos = ident"
    then have "?n \<le> length pos" by (metis length_take min.cobounded1)
    then show "cstr ?n (chars pos) = ident" using a i by (simp add: cstr_def map_chars)
  qed
  then show ?thesis using i by (simp add: strncmp_0_cstr)
qed

lemma int_cases_no_nul: "0 \<notin> set (bytes ''u'')" "0 \<notin> set (bytes ''llu'')" "0 \<notin> set (bytes ''d'')" "0 \<notin> set (bytes ''lld'')"
  "0 \<notin> set (bytes ''x'')" "0 \<notin> set (bytes ''llx'')" "0 \<notin> set (bytes ''p'')" "0 \<notin> set (bytes ''zu'')" "0 \<notin> set (bytes ''zd'')"
  by simp_all

lemma int_case_find: "int_case pos = find (\<lambda>(ident, _). take (length ident) pos = ident) int_cases"
  unfolding int_case_def int_cases_def by (simp only: find.simps prod.case strncmp_prefix int_cases_no_nul not_False_eq_True)

text \<open>Which case each directive takes.\<close>

lemma int_case_letters:
  "int_case (bytes ''u'' @ rest) = Some (bytes ''u'', U32, of_nat 10, False)" "int_case (bytes ''llu'' @ rest) = Some (bytes ''llu'', B64, of_nat 10, False)"
  "int_case (bytes ''d'' @ rest) = Some (bytes ''d'', I32, of_nat 10, True)" "int_case (bytes ''lld'' @ rest) = Some (bytes ''lld'', B64, of_nat 10, True)"
  "int_case (bytes ''x'' @ rest) = Some (bytes ''x'', U32, of_nat 16, False)" "int_case (bytes ''llx'' @ rest) = Some (bytes ''llx'', B64, of_nat 16, False)"
  "int_case (bytes ''p'' @ rest) = Some (bytes ''p'', B64, of_nat 16, False)" "int_case (bytes ''zu'' @ rest) = Some (bytes ''zu'', B64, of_nat 10, False)"
  "int_case (bytes ''zd'' @ rest) = Some (bytes ''zd'', B64, of_nat 10, True)"
  by (simp_all add: int_case_find int_cases_def)

lemma int_case_none: "c \<notin> set (bytes ''%csudxplz'') \<Longrightarrow> int_case (c # rest) = None"
  by (simp add: int_case_find int_cases_def)

lemma vformat_int:
  assumes "int_case (ident @ fmt) = Some (ident, type, of_nat b, sign)" and "ident \<noteq> []" "hd ident \<notin> {37, 99, 115}" and "b = 10 \<or> b = 16"
  shows "vformat put_char (37 # ident @ fmt) (Num w # arg) ctx = vformat put_char fmt arg (fold put_char (number_text b sign (to_i64 type w)) ctx)"
proof -
  obtain x xs where x: "ident = x # xs" using assms(2) by (cases ident) auto
  have c: "chars (ident @ fmt) 0 = x" "x \<noteq> 37" "x \<noteq> 99" "x \<noteq> 115" using assms(3) x by (auto simp: chars_def)
  have "2 \<le> b" "b \<le> 16" using assms(4) by auto
  note p = print_int_text [OF this, of put_char ctx "to_i64 type w" sign]
  show ?thesis by (subst vformat.simps) (simp only: list.case refl if_True if_False c assms(1) option.case prod.case va_num_def va.case sum.case p append_eq_conv_conj drop_append length_append, simp)
qed

lemma vformat_piece:
  assumes "piece_ok p"
  shows "vformat put_char (piece_text p @ fmt) (piece_args p @ arg) ctx = vformat put_char fmt arg (fold put_char (piece_out p) ctx)"
proof (cases p)
  case (Plain t)
  then show ?thesis using assms by (simp add: vformat_plain)
next
  case (Unknown c)
  then have "chars (c # fmt) 0 \<noteq> 37" "chars (c # fmt) 0 \<noteq> 99" "chars (c # fmt) 0 \<noteq> 115" "c \<noteq> 37" using assms by (auto simp: chars_def)
  then show ?thesis using Unknown assms int_case_none [of c fmt] by (simp add: vformat.simps [of _ "_ # _"])
next
  case (U_arg w)
  show ?thesis using vformat_int [OF int_case_letters(1), where put_char = put_char and w = w and arg = arg and ctx = ctx] by (simp add: U_arg number_text_radix unat_cut)
next
  case (LLU_arg w)
  show ?thesis using vformat_int [OF int_case_letters(2), where put_char = put_char and w = w and arg = arg and ctx = ctx] by (simp add: LLU_arg number_text_radix)
next
  case (D_arg w)
  show ?thesis using vformat_int [OF int_case_letters(3), where put_char = put_char and w = w and arg = arg and ctx = ctx] by (simp add: D_arg number_text_decimal sint_cut)
next
  case (LLD_arg w)
  show ?thesis using vformat_int [OF int_case_letters(4), where put_char = put_char and w = w and arg = arg and ctx = ctx] by (simp add: LLD_arg number_text_decimal)
next
  case (X_arg w)
  show ?thesis using vformat_int [OF int_case_letters(5), where put_char = put_char and w = w and arg = arg and ctx = ctx] by (simp add: X_arg number_text_radix unat_cut)
next
  case (LLX_arg w)
  show ?thesis using vformat_int [OF int_case_letters(6), where put_char = put_char and w = w and arg = arg and ctx = ctx] by (simp add: LLX_arg number_text_radix)
next
  case (P_arg w)
  show ?thesis using vformat_int [OF int_case_letters(7), where put_char = put_char and w = w and arg = arg and ctx = ctx] by (simp add: P_arg number_text_radix)
next
  case (ZU_arg w)
  show ?thesis using vformat_int [OF int_case_letters(8), where put_char = put_char and w = w and arg = arg and ctx = ctx] by (simp add: ZU_arg number_text_radix)
next
  case (ZD_arg w)
  show ?thesis using vformat_int [OF int_case_letters(9), where put_char = put_char and w = w and arg = arg and ctx = ctx] by (simp add: ZD_arg number_text_decimal)
next
  case (Char_arg w)
  have "(of_nat (unat w mod 256) :: byte) = ucast w" 
    by (simp only: word_unat_eq_iff unsigned_ucast_eq unat_of_nat len_bit0 len_num1) (simp add: take_bit_eq_mod)
  then show ?thesis by (simp add: Char_arg vformat.simps [of _ "37 # _"] chars_def va_num_def)
qed (simp_all add: vformat.simps [of _ "37 # _"] chars_def va_num_def va_str_def null_text_def Let_def split: option.split)

text \<open>
  C39: \<^verbatim>\<open>vformat\<close> implements its directives: a format string put together from plain text, \<^verbatim>\<open>%%\<close>, \<^verbatim>\<open>%c\<close>, \<^verbatim>\<open>%s\<close>, the nine integer directives and percent signs before a
  letter that starts none of them consumes exactly the arguments these take, in order, and sends to the sink exactly the concatenation of what each of them stands for: \<^verbatim>\<open>%u\<close>,
  \<^verbatim>\<open>%llu\<close> and \<^verbatim>\<open>%zu\<close> the decimal numeral of the unsigned argument, \<^verbatim>\<open>%d\<close>, \<^verbatim>\<open>%lld\<close> and \<^verbatim>\<open>%zd\<close> that of the signed one, \<^verbatim>\<open>%x\<close>, \<^verbatim>\<open>%llx\<close> and \<^verbatim>\<open>%p\<close> the hexadecimal numeral, with
  the low 32 bits of the argument for \<^verbatim>\<open>%u\<close>, \<^verbatim>\<open>%d\<close> and \<^verbatim>\<open>%x\<close>; a null string prints as \<^verbatim>\<open>(null)\<close>, and no buffer is overrun.
\<close>
theorem vformat_renders:
  assumes "\<forall>p\<in>set ps. piece_ok p"
  shows "vformat put_char (concat (map piece_text ps)) (concat (map piece_args ps)) ctx = Inr (fold put_char (concat (map piece_out ps)) ctx)"
  using assms
proof (induction ps arbitrary: ctx)
  case Nil
  then show ?case by (simp add: vformat.simps [of _ "[]"])
next
  case (Cons p ps)
  then show ?case using vformat_piece [of p put_char] by simp
qed

theorem vformat_renders_witness:
  "vformat (\<lambda>c out. out @ [c]) (bytes ''%s: %d %llx%%'') [Ptr None, Num (2 ^ 32 - 12), Num 0x1f] [] = Inr (bytes ''(null): -12 1f%'')"
proof -
  have d: "decimal (- 12) = bytes ''-12''" "radix 16 31 = bytes ''1f''" by (simp_all add: decimal_def radix.simps ascii_digit_def)
  show ?thesis
    using vformat_renders [of "[Str_arg None, Plain (bytes '': ''), D_arg (2 ^ 32 - 12), Plain (bytes '' ''), LLX_arg 0x1f, Percent]" "\<lambda>c out. out @ [c]" "[]"] d
    by simp
qed

end
