(* ===== verification/Mkfs.thy ===== *)
theory Mkfs
  imports Inode_Data
begin

text \<open>
  The program that builds a file system image: \<^verbatim>\<open>user/mkfs/main.c\<close>.

  The image file is a function from sector numbers to blocks together with its length in sectors; a sector never written inside the length reads as zeros. The files
  of the host are a parameter: for a path, \<open>None\<close> when it cannot be opened, or what the successive calls of \<^verbatim>\<open>read\<close> deliver. A failed \<^verbatim>\<open>assert\<close> and
  \<^verbatim>\<open>exit(1)\<close>, which both end the program with a message, are \<open>Panic\<close>. Fields of the on-disk structures are the numbers their bytes stand for in little-endian order;
  \<^verbatim>\<open>xshort\<close> and \<^verbatim>\<open>xint\<close> store a number byte by byte in that order.
\<close>

abbreviation (input) FSSIZE :: nat where "FSSIZE \<equiv> 1000"
abbreviation (input) NINODES :: nat where "NINODES \<equiv> 200"

record image =
  sectors :: "nat \<Rightarrow> byte list"
  nsect :: nat
  freeinode :: nat
  freeblock :: nat

definition xshort :: "nat \<Rightarrow> nat" where
  "xshort x = le_dec [of_nat x, of_nat (x div 2 ^ 8)]"

definition xint :: "nat \<Rightarrow> nat" where
  "xint x = le_dec [of_nat x, of_nat (x div 2 ^ 8), of_nat (x div 2 ^ 16), of_nat (x div 2 ^ 24)]"

section \<open>Layout\<close>

definition nbitmap :: nat where
  "nbitmap = FSSIZE div (BLOCK_SIZE * 8) + 1"

definition ninodeblocks :: nat where
  "ninodeblocks = NINODES div INODE_PER_BLOCK + 1"

definition nmeta :: nat where
  "nmeta = 2 + LOG_MAX_SIZE + ninodeblocks + nbitmap"

definition mkfs_sb :: SuperBlock where
  "mkfs_sb = \<lparr>num_blocks = xint FSSIZE, num_data_blocks = xint (FSSIZE - nmeta), num_inodes = xint NINODES, num_log_blocks = xint LOG_MAX_SIZE,
     log_start = xint 2, inode_start = xint (2 + LOG_MAX_SIZE), bitmap_start = xint (2 + LOG_MAX_SIZE + ninodeblocks)\<rparr>"

definition IBLOCK :: "nat \<Rightarrow> nat" where
  "IBLOCK i = i div INODE_PER_BLOCK + inode_start mkfs_sb"

section \<open>Sectors\<close>

text \<open>The product \<^verbatim>\<open>sec * BSIZE\<close> is computed in 32 bits.\<close>

definition seek :: "nat \<Rightarrow> nat" where
  "seek sec = sec * BLOCK_SIZE mod U32 div BLOCK_SIZE"

definition wsect :: "nat \<Rightarrow> byte list \<Rightarrow> image \<Rightarrow> image" where
  "wsect sec buf s = s\<lparr>sectors := (sectors s)(seek sec := buf), nsect := max (nsect s) (seek sec + 1)\<rparr>"

definition rsect :: "nat \<Rightarrow> image \<Rightarrow> byte list res" where
  "rsect sec s = (if seek sec < nsect s then Inr (sectors s (seek sec)) else Inl Panic)"

section \<open>Inodes\<close>

definition winode :: "nat \<Rightarrow> InodeEntry \<Rightarrow> image \<Rightarrow> image res" where
  "winode inum ip s = (let bn = IBLOCK inum in
     rbind (rsect bn s) (\<lambda>buf. Inr (wsect bn (put_entry inum ip buf) s)))"

definition rinode :: "nat \<Rightarrow> image \<Rightarrow> InodeEntry res" where
  "rinode inum s = (let bn = IBLOCK inum in rbind (rsect bn s) (\<lambda>buf. Inr (get_entry buf inum)))"

definition ialloc :: "nat \<Rightarrow> image \<Rightarrow> (nat \<times> image) res" where
  "ialloc type s =
     (let inum = freeinode s;
          s = s\<lparr>freeinode := (freeinode s + 1) mod U32\<rparr>;
          din = zero_entry\<lparr>itype := xshort type, num_links := xshort 1, num_bytes := xint 0\<rparr>
      in rbind (winode inum din s) (\<lambda>s. Inr (inum, s)))"

text \<open>Taking the next block, \<^verbatim>\<open>xint(freeblock++)\<close>.\<close>

definition take_block :: "image \<Rightarrow> nat \<times> image" where
  "take_block s = (xint (freeblock s), s\<lparr>freeblock := (freeblock s + 1) mod U32\<rparr>)"

text \<open>The block of the file that holds index \<open>fbn\<close>, allocated when it is missing: the branches on \<^verbatim>\<open>fbn < NDIRECT\<close> in \<^verbatim>\<open>iappend\<close>.\<close>

definition find_block_no :: "nat \<Rightarrow> InodeEntry \<Rightarrow> image \<Rightarrow> (nat \<times> InodeEntry \<times> image) res" where
  "find_block_no fbn din s =
     (if fbn < INODE_NUM_DIRECT
      then if xint (addrs din ! fbn) = 0
           then let (b, s) = take_block s; din = din\<lparr>addrs := (addrs din)[fbn := b]\<rparr> in Inr (xint b, din, s)
           else Inr (xint (addrs din ! fbn), din, s)
      else let (din, s) = (if xint (indirect din) = 0
                           then let (b, s) = take_block s in (din\<lparr>indirect := b\<rparr>, s) else (din, s))
           in rbind (rsect (xint (indirect din)) s) (\<lambda>ind.
              let i = fbn - INODE_NUM_DIRECT
              in if slot_get le_dec 4 i ind = 0
                 then let (b, s) = take_block s;
                          ind = slot_put (le_enc 4) 4 i b ind;
                          s = wsect (xint (indirect din)) ind s
                      in Inr (xint (slot_get le_dec 4 i ind), din, s)
                 else Inr (xint (slot_get le_dec 4 i ind), din, s)))"

function iappend_loop :: "InodeEntry \<Rightarrow> nat \<Rightarrow> byte list \<Rightarrow> image \<Rightarrow> (InodeEntry \<times> nat \<times> image) res" where
  "iappend_loop din off p s =
     (if p = [] then Inr (din, off, s)
      else let fbn = off div BLOCK_SIZE
           in if \<not> fbn < INODE_MAX_BLOCKS then Inl Panic
              else (case find_block_no fbn din s of Inl e \<Rightarrow> Inl e | Inr (x, din, s) \<Rightarrow>
                    let n1 = min (length p) ((fbn + 1) * BLOCK_SIZE - off)
                    in (case rsect x s of Inl e \<Rightarrow> Inl e | Inr buf \<Rightarrow>
                        let buf = patch (off - fbn * BLOCK_SIZE) (take n1 p) buf;
                            s = wsect x buf s
                        in iappend_loop din (off + n1) (drop n1 p) s)))"
  by pat_completeness auto
termination
proof (relation "measure (\<lambda>(din, off, p, s). length p)", goal_cases)
  case (2 din off p s)
  have "off < (off div BLOCK_SIZE + 1) * BLOCK_SIZE" by (simp add: div_mod_decomp)
  then show ?case using 2 by auto
qed auto

declare iappend_loop.simps [simp del]

definition iappend :: "nat \<Rightarrow> byte list \<Rightarrow> image \<Rightarrow> image res" where
  "iappend inum p s =
     rbind (rinode inum s) (\<lambda>din.
     rbind (iappend_loop din (xint (num_bytes din)) p s) (\<lambda>(din, off, s).
     winode inum (din\<lparr>num_bytes := xint off\<rparr>) s))"

section \<open>The bitmap\<close>

definition balloc :: "nat \<Rightarrow> image \<Rightarrow> image res" where
  "balloc used s = rassert (used < BLOCK_SIZE * 8)
     (let buf = fold (\<lambda>i buf. buf[i div 8 := or (buf ! (i div 8)) (push_bit (i mod 8) 1)]) [0..<used] (replicate BLOCK_SIZE 0)
      in Inr (wsect (bitmap_start mkfs_sb) buf s))"

section \<open>Building the image\<close>

text \<open>\<^verbatim>\<open>strcpy\<close> and \<^verbatim>\<open>strncpy\<close> into the cleared name of a directory entry.\<close>

definition dir_entry :: "nat \<Rightarrow> byte list \<Rightarrow> byte list" where
  "dir_entry inum nm = enc_DirEntry \<lparr>inode_no = xshort inum,
     name = map (strncpy (\<lambda>_. 0) (\<lambda>i. if i < length nm then nm ! i else 0) FILE_NAME_MAX_LENGTH) [0..<FILE_NAME_MAX_LENGTH]\<rparr>"

text \<open>The loop that looks for the last \<^verbatim>\<open>'/'\<close>: \<open>j\<close> is the number of characters since it.\<close>

fun base_len :: "byte list \<Rightarrow> nat \<Rightarrow> nat" where
  "base_len [] j = j"
| "base_len (c # cs) j = base_len cs (if c = SLASH then 0 else j + 1)"

definition base_name :: "byte list \<Rightarrow> byte list" where
  "base_name path = drop (length path - base_len path 0) path"

fun append_all :: "nat \<Rightarrow> byte list list \<Rightarrow> image \<Rightarrow> image res" where
  "append_all inum [] s = Inr s"
| "append_all inum (buf # bufs) s = rbind (iappend inum buf s) (append_all inum bufs)"

definition add_file :: "(byte list \<Rightarrow> byte list list option) \<Rightarrow> byte list \<Rightarrow> image \<Rightarrow> image res" where
  "add_file host path s =
     (let nm = base_name path
      in rassert (SLASH \<notin> set nm)
         (case host path of None \<Rightarrow> Inl Panic
          | Some bufs \<Rightarrow>
            let nm = (if nm \<noteq> [] \<and> hd nm = 95 then tl nm else nm)
            in rbind (ialloc INODE_REGULAR s) (\<lambda>(inum, s).
               rbind (iappend ROOT_INODE_NO (dir_entry inum nm) s) (\<lambda>s.
               append_all inum bufs s))))"

fun add_files :: "(byte list \<Rightarrow> byte list list option) \<Rightarrow> byte list list \<Rightarrow> image \<Rightarrow> image res" where
  "add_files host [] s = Inr s"
| "add_files host (path # paths) s = rbind (add_file host path s) (add_files host paths)"

definition enc_SuperBlock :: "SuperBlock \<Rightarrow> byte list" where
  "enc_SuperBlock b = concat (map (le_enc 4) [num_blocks b, num_data_blocks b, num_inodes b, num_log_blocks b, log_start b, inode_start b, bitmap_start b])"

definition blank_image :: image where
  "blank_image =
     (let s = \<lparr>sectors = (\<lambda>_. replicate BLOCK_SIZE 0), nsect = 0, freeinode = 1, freeblock = nmeta\<rparr>
      in fold (\<lambda>i. wsect i (replicate BLOCK_SIZE 0)) [0..<FSSIZE] s)"

definition fix_root :: "image \<Rightarrow> image res" where
  "fix_root s =
     rbind (rinode ROOT_INODE_NO s) (\<lambda>din.
     let off = (xint (num_bytes din) div BLOCK_SIZE + 1) * BLOCK_SIZE
     in winode ROOT_INODE_NO (din\<lparr>num_bytes := xint off\<rparr>) s)"

definition mkfs_main :: "(byte list \<Rightarrow> byte list list option) \<Rightarrow> byte list list \<Rightarrow> image res" where
  "mkfs_main host paths =
     (let s = blank_image;
          s = wsect 1 (patch 0 (enc_SuperBlock mkfs_sb) (replicate BLOCK_SIZE 0)) s
      in rbind (ialloc INODE_DIRECTORY s) (\<lambda>(rootino, s).
         rassert (rootino = ROOT_INODE_NO)
           (rbind (iappend rootino (dir_entry rootino [46]) s) (\<lambda>s.
            rbind (iappend rootino (dir_entry rootino [46, 46]) s) (\<lambda>s.
            rbind (add_files host paths s) (\<lambda>s.
            rbind (fix_root s) (\<lambda>s.
            balloc (freeblock s) s)))))))"

section \<open>The bitmap agrees with the kernel's\<close>

lemma bit_add_256:
  assumes "x < 256"
  shows "bit (x + 256 * n :: nat) j \<longleftrightarrow> (if j < 8 then bit x j else bit n (j - 8))"
proof (cases "j < 8")
  case True
  have "(256::nat) = 2 ^ j * (2 * 2 ^ (7 - j))" using True by (simp flip: power_Suc power_add)
  then have "x + 256 * n = x + 2 ^ j * (2 * 2 ^ (7 - j) * n)" by simp
  then have "(x + 256 * n) div 2 ^ j = 2 * 2 ^ (7 - j) * n + x div 2 ^ j" using div_mult_self2 [of "2 ^ j" x] by (simp only:) simp
  then show ?thesis using True by (simp add: bit_iff_odd)
next
  case False
  then obtain m where "j = 8 + m" using le_Suc_ex not_less by blast
  then have "(2::nat) ^ j = 256 * 2 ^ (j - 8)" by (simp add: power_add)
  then have "(x + 256 * n) div 2 ^ j = n div 2 ^ (j - 8)" using assms by (simp add: div_mult2_eq)
  then show ?thesis using False by (simp add: bit_iff_odd)
qed

lemma bit_le_dec: "bit (le_dec bs) j \<longleftrightarrow> j div 8 < length bs \<and> bit (bs ! (j div 8)) (j mod 8)"
proof (induction bs arbitrary: j)
  case (Cons b bs)
  have lt: "unat b < 256" using unsigned_less [of b] by simp
  show ?case
  proof (cases "j < 8")
    case True
    then show ?thesis using bit_add_256 [OF lt] by (simp add: bit_unsigned_iff)
  next
    case False
    then obtain m where "j = 8 + m" using le_Suc_ex not_less by blast
    then have "j div 8 = Suc ((j - 8) div 8)" "(j - 8) mod 8 = j mod 8" by simp_all
    then show ?thesis using False bit_add_256 [OF lt] Cons.IH by simp
  qed
qed simp

lemma data_bitmap_byte:
  assumes "length d = BLOCK_SIZE" "i < BIT_PER_BLOCK"
  shows "data_bitmap_get d i \<longleftrightarrow> bit (d ! (i div 8)) (i mod 8)"
proof -
  let ?c = "i div 64" and ?j = "i mod 64"
  have c: "?c < 64" using assms(2) by (simp add: less_mult_imp_div_less)
  have j: "?j div 8 < 8" by (rule less_mult_imp_div_less) simp
  have le: "?c * 8 + 8 \<le> length d" using c assms(1) by linarith
  have "cells_of d ! ?c = word_of_nat (le_dec (slice (?c * 8) 8 d))" using c by (simp add: cells_of_def dec_ints_def slot_get_def)
  then have "data_bitmap_get d i \<longleftrightarrow> bit (le_dec (slice (?c * 8) 8 d)) ?j"
    by (simp add: data_bitmap_get_def bitmap_get_bit bit_of_nat_iff)
  also have "\<dots> \<longleftrightarrow> bit (slice (?c * 8) 8 d ! (?j div 8)) (?j mod 8)"
    unfolding bit_le_dec using le j by simp
  also have "slice (?c * 8) 8 d ! (?j div 8) = d ! (?c * 8 + ?j div 8)"
    using le j by (intro nth_slice) linarith+
  also have "?c * 8 + ?j div 8 = i div 8"
  proof -
    have "i = 8 * (?c * 8) + ?j" by simp
    then show ?thesis by (metis div_mult_self4 zero_neq_numeral)
  qed
  also have "?j mod 8 = i mod 8" by (rule mod_mod_cancel) simp
  finally show ?thesis .
qed

lemma le_enc_4: "le_enc 4 x = [of_nat x, of_nat (x div 2 ^ 8), of_nat (x div 2 ^ 16), of_nat (x div 2 ^ 24)]"
proof -
  have w: "word_of_nat (n mod 2 ^ 8) = (word_of_nat n :: byte)" for n by (simp add: word_of_nat_eq_iff take_bit_eq_mod)
  have d: "x div 256 div 256 = x div 2 ^ 16" "x div 2 ^ 16 div 256 = x div 2 ^ 24" "256 = (2::nat) ^ 8" by (simp_all flip: div_mult2_eq)
  have "le_enc 4 x = le_enc (Suc (Suc (Suc (Suc 0)))) x" by (simp only: numeral_nat One_nat_def)
  then show ?thesis using d by (simp only: le_enc.simps w)
qed

lemma xint_id [simp]: "x < U32 \<Longrightarrow> xint x = x"
  unfolding xint_def le_enc_4 [symmetric] by (rule le_dec_enc_U)

lemma xint_const: "xint 0 = 0" "xint 2 = 2" "xint 63 = 63" "xint 65 = 65" "xint 91 = 91" "xint 1000 = 1000"
  by simp_all

lemma seek_id [simp]: "sec < 8388608 \<Longrightarrow> seek sec = sec"
  by (simp add: seek_def)

lemma mkfs_layout: "nmeta = 92" "inode_start mkfs_sb = 65" "bitmap_start mkfs_sb = 91" "log_start mkfs_sb = 2" "num_blocks mkfs_sb = 1000"
  by (simp_all add: nmeta_def ninodeblocks_def nbitmap_def mkfs_sb_def)

definition used_bits :: "nat \<Rightarrow> byte list" where
  "used_bits used = fold (\<lambda>i buf. buf[i div 8 := or (buf ! (i div 8)) (push_bit (i mod 8) 1)]) [0..<used] (replicate BLOCK_SIZE 0)"

lemma used_bits_Suc: "used_bits (Suc n) = (used_bits n)[n div 8 := or (used_bits n ! (n div 8)) (push_bit (n mod 8) 1)]"
  by (simp add: used_bits_def)

lemma length_used_bits [simp]: "length (used_bits n) = BLOCK_SIZE"
proof (induction n)
  case 0
  then show ?case by (simp add: used_bits_def)
qed (simp add: used_bits_Suc)

lemma bit_used_bits:
  assumes "used \<le> BIT_PER_BLOCK" "i < BIT_PER_BLOCK"
  shows "bit (used_bits used ! (i div 8)) (i mod 8) \<longleftrightarrow> i < used"
  using assms(1)
proof (induction used)
  case 0
  have "i div 8 < 512" using assms(2) by (intro less_mult_imp_div_less) simp
  then show ?case by (simp add: used_bits_def)
next
  case (Suc n)
  have lt: "n div 8 < 512" using Suc.prems by (intro less_mult_imp_div_less) simp
  have b: "bit (push_bit (n mod 8) 1 :: byte) (i mod 8) \<longleftrightarrow> i mod 8 = n mod 8"
    by (auto simp: bit_exp_iff)
  have ih: "bit (used_bits n ! (i div 8)) (i mod 8) \<longleftrightarrow> i < n" using Suc by simp
  show ?case
  proof (cases "i div 8 = n div 8")
    case True
    then show ?thesis using lt b ih div_mod_eq_iff [of i 8 n] by (auto simp: used_bits_Suc bit_or_iff)
  next
    case False
    then show ?thesis using ih by (auto simp: used_bits_Suc)
  qed
qed

text \<open>
  The bitmap \<^verbatim>\<open>mkfs\<close> writes agrees with the kernel that reads it: after \<^verbatim>\<open>balloc(used)\<close> the kernel's \<^verbatim>\<open>bitmap_get\<close> on the bitmap block, which looks at 64-bit
  cells where \<^verbatim>\<open>mkfs\<close> set bits of bytes, finds exactly the blocks below \<^verbatim>\<open>used\<close> allocated; no other sector changes, and more blocks than one bitmap
  block can describe stop the program.
\<close>
theorem balloc_marks_used:
  "if used < BIT_PER_BLOCK
   then \<exists>s'. balloc used s = Inr s' \<and> {i. i < BIT_PER_BLOCK \<and> data_bitmap_get (sectors s' (bitmap_start mkfs_sb)) i} = {..<used}
      \<and> sectors s' = (sectors s)(bitmap_start mkfs_sb := sectors s' (bitmap_start mkfs_sb))
   else balloc used s = Inl Panic"
proof (cases "used < BIT_PER_BLOCK")
  case True
  then have "balloc used s = Inr (wsect 91 (used_bits used) s)" by (simp add: balloc_def used_bits_def mkfs_layout)
  moreover have "sectors (wsect 91 (used_bits used) s) = (sectors s)(91 := used_bits used)" by (simp add: wsect_def)
  moreover have "{i. i < BIT_PER_BLOCK \<and> data_bitmap_get (used_bits used) i} = {..<used}"
    using True bit_used_bits [of used] by (auto simp: data_bitmap_byte)
  ultimately show ?thesis using True by (simp add: mkfs_layout)
qed (simp add: balloc_def)

end
