(* ===== verification/Mkfs_Append.thy ===== *)
theory Mkfs_Append
  imports Mkfs
begin

text \<open>
  Files in the image that \<^verbatim>\<open>mkfs\<close> builds (\<^verbatim>\<open>user/mkfs/main.c\<close>): \<^verbatim>\<open>iappend\<close> extends the bytes of a file, allocates its blocks above all allocated ones and
  leaves every other file alone.

  \<open>img_block\<close> is the sector that holds a block of a file, found through the inode or its indirect block as the kernel finds it; \<open>img_ok\<close> says that sectors above
  the allocation mark are blank, and \<open>file_img\<close> that the first \<open>m\<close> blocks of a file, and no others, are present and different from each other.
\<close>

definition img_block :: "image \<Rightarrow> InodeEntry \<Rightarrow> nat \<Rightarrow> nat" where
  "img_block s din k = (if k < INODE_NUM_DIRECT then addrs din ! k
     else if indirect din = 0 then 0 else slot_get le_dec 4 (k - INODE_NUM_DIRECT) (sectors s (indirect din)))"

definition img_ok :: "image \<Rightarrow> bool" where
  "img_ok s \<longleftrightarrow> (\<forall>b. length (sectors s b) = BLOCK_SIZE) \<and> (\<forall>b\<ge>freeblock s. sectors s b = replicate BLOCK_SIZE 0)
     \<and> nsect s = FSSIZE \<and> nmeta \<le> freeblock s \<and> freeblock s \<le> FSSIZE"

definition allocated :: "image \<Rightarrow> nat \<Rightarrow> bool" where
  "allocated s b \<longleftrightarrow> nmeta \<le> b \<and> b < freeblock s"

definition file_img :: "image \<Rightarrow> InodeEntry \<Rightarrow> nat \<Rightarrow> bool" where
  "file_img s din m \<longleftrightarrow> length (addrs din) = INODE_NUM_DIRECT \<and> m \<le> INODE_MAX_BLOCKS
     \<and> (\<forall>k<m. allocated s (img_block s din k)) \<and> inj_on (img_block s din) {..<m}
     \<and> (\<forall>k<INODE_MAX_BLOCKS. m \<le> k \<longrightarrow> img_block s din k = 0)
     \<and> (indirect din = 0 \<or> allocated s (indirect din) \<and> indirect din \<notin> img_block s din ` {..<m})"

lemma allocated_small: "img_ok s \<Longrightarrow> allocated s b \<Longrightarrow> b < FSSIZE \<and> b \<noteq> 0"
  by (simp add: img_ok_def allocated_def mkfs_layout)

lemma rsect_allocated: "img_ok s \<Longrightarrow> allocated s b \<Longrightarrow> rsect b s = Inr (sectors s b)"
  using allocated_small [of s b] by (simp add: rsect_def img_ok_def)

lemma sectors_wsect: "b < FSSIZE \<Longrightarrow> sectors (wsect b d s) = (sectors s)(b := d)"
  by (simp add: wsect_def)

lemma wsect_fields [simp]: "freeblock (wsect b d s) = freeblock s" "freeinode (wsect b d s) = freeinode s"
  by (simp_all add: wsect_def)

lemma img_ok_wsect_below:
  assumes "img_ok s" "b < freeblock s" "length d = BLOCK_SIZE"
  shows "img_ok (wsect b d s)"
  using assms by (auto simp: img_ok_def wsect_def)

lemma img_ok_wsect:
  assumes "img_ok s" "allocated s b" "length d = BLOCK_SIZE"
  shows "img_ok (wsect b d s)"
  using assms by (intro img_ok_wsect_below) (auto simp: allocated_def)

lemma allocated_wsect [simp]: "allocated (wsect b d s) = allocated s"
  by (simp add: fun_eq_iff allocated_def wsect_def)

text \<open>Taking a block from an image with room.\<close>

lemma take_block_ok:
  assumes "img_ok s" "freeblock s < FSSIZE"
  shows "take_block s = (freeblock s, s\<lparr>freeblock := Suc (freeblock s)\<rparr>)" "img_ok (s\<lparr>freeblock := Suc (freeblock s)\<rparr>)"
    "allocated (s\<lparr>freeblock := Suc (freeblock s)\<rparr>) b \<longleftrightarrow> allocated s b \<or> b = freeblock s" "sectors s (freeblock s) = replicate BLOCK_SIZE 0"
  using assms by (auto simp: take_block_def img_ok_def allocated_def)

lemma find_block_present:
  assumes ok: "img_ok s" and f: "file_img s din m" and k: "k < m"
  shows "find_block_no k din s = Inr (img_block s din k, din, s)"
proof -
  have a: "allocated s (img_block s din k)" using f k by (simp add: file_img_def)
  note b = allocated_small [OF ok a]
  show ?thesis
  proof (cases "k < INODE_NUM_DIRECT")
    case True
    then show ?thesis using b by (simp add: find_block_no_def img_block_def)
  next
    case False
    have i: "indirect din \<noteq> 0"
    proof
      assume "indirect din = 0"
      then have "img_block s din k = 0" using False by (simp add: img_block_def)
      then show False using b by simp
    qed
    then have ai: "allocated s (indirect din)" using f by (simp add: file_img_def)
    then show ?thesis using False b i allocated_small [OF ok ai] rsect_allocated [OF ok ai]
      by (simp add: find_block_no_def img_block_def Let_def)
  qed
qed

text \<open>
  \<open>grown\<close>: a block was added to a file. The first \<open>m\<close> blocks and the sectors below the allocation mark are as before, except for the indirect block, and
  \<open>n\<close> sectors were allocated.
\<close>

definition grown :: "image \<Rightarrow> InodeEntry \<Rightarrow> image \<Rightarrow> InodeEntry \<Rightarrow> nat \<Rightarrow> bool" where
  "grown s din s' din' m \<longleftrightarrow> img_ok s' \<and> file_img s' din' (Suc m) \<and> (\<forall>k<m. img_block s' din' k = img_block s din k)
     \<and> (\<forall>b<freeblock s. b = 0 \<or> b \<noteq> indirect din \<longrightarrow> sectors s' b = sectors s b)
     \<and> freeblock s < freeblock s' \<and> freeblock s' + (if indirect din' = 0 then 1 else 0) \<le> Suc (freeblock s) + (if indirect din = 0 then 1 else 0)
     \<and> sectors s' (img_block s' din' m) = replicate BLOCK_SIZE 0 \<and> (indirect din \<noteq> 0 \<longrightarrow> indirect din' = indirect din)
     \<and> (\<forall>k<m. sectors s' (img_block s din k) = sectors s (img_block s din k)) \<and> freeinode s' = freeinode s
     \<and> freeblock s \<le> img_block s' din' m \<and> (indirect din = 0 \<longrightarrow> indirect din' = 0 \<or> freeblock s \<le> indirect din')
     \<and> din' = din\<lparr>addrs := addrs din', indirect := indirect din'\<rparr>"

lemma file_img_absent: "file_img s din m \<Longrightarrow> m \<le> k \<Longrightarrow> k < INODE_MAX_BLOCKS \<Longrightarrow> img_block s din k = 0"
  by (simp add: file_img_def)

lemma file_img_extend:
  assumes f: "file_img s din m" and m: "m < INODE_MAX_BLOCKS"
    and new: "allocated s' (img_block s' din' m)" "freeblock s \<le> img_block s' din' m"
    and old: "\<And>k. k \<noteq> m \<Longrightarrow> k < INODE_MAX_BLOCKS \<Longrightarrow> img_block s' din' k = img_block s din k"
    and mono: "\<And>b. allocated s b \<Longrightarrow> allocated s' b" and ind: "indirect din' = indirect din" and len: "length (addrs din') = length (addrs din)"
  shows "file_img s' din' (Suc m)"
proof -
  have al: "allocated s (img_block s din k)" if "k < m" for k using f that by (simp add: file_img_def)
  have old': "img_block s' din' k = img_block s din k" if "k < m" for k using old that m by simp
  have ne: "img_block s' din' m \<noteq> b" if "allocated s b" for b using new(2) that by (auto simp: allocated_def)
  have "inj_on (img_block s' din') {..<Suc m}"
  proof -
    have "inj_on (img_block s' din') {..<m}" using f old' by (simp add: file_img_def inj_on_def)
    moreover have "img_block s' din' m \<notin> img_block s' din' ` {..<m}" using al ne old' by auto
    ultimately show ?thesis by (simp add: lessThan_Suc)
  qed
  moreover have "\<forall>k<INODE_MAX_BLOCKS. Suc m \<le> k \<longrightarrow> img_block s' din' k = 0" using old file_img_absent [OF f] by simp
  moreover have "indirect din = 0 \<or> allocated s' (indirect din) \<and> indirect din \<notin> img_block s' din' ` {..<Suc m}"
  proof -
    have "indirect din = 0 \<or> allocated s (indirect din) \<and> indirect din \<notin> img_block s din ` {..<m}" using f by (simp add: file_img_def)
    moreover have "img_block s' din' ` {..<Suc m} = insert (img_block s' din' m) (img_block s din ` {..<m})" using old' by (auto simp: lessThan_Suc)
    ultimately show ?thesis using ne mono by (metis insertE)
  qed
  moreover have "\<forall>k<Suc m. allocated s' (img_block s' din' k)" using al mono new(1) old' by (auto simp: less_Suc_eq)
  ultimately show ?thesis using f m len ind by (simp add: file_img_def)
qed

lemma grow_direct:
  assumes ok: "img_ok s" and f: "file_img s din m" and m: "m < INODE_NUM_DIRECT" and room: "freeblock s < FSSIZE"
  shows "\<exists>s' din'. find_block_no m din s = Inr (img_block s' din' m, din', s') \<and> grown s din s' din' m"
proof -
  let ?s = "s\<lparr>freeblock := Suc (freeblock s)\<rparr>" and ?d = "din\<lparr>addrs := (addrs din)[m := freeblock s]\<rparr>"
  note t = take_block_ok [OF ok room]
  have "img_block s din m = 0" using file_img_absent [OF f] m by simp
  then have z: "addrs din ! m = 0" using m by (simp add: img_block_def)
  have len: "length (addrs din) = INODE_NUM_DIRECT" using f by (simp add: file_img_def)
  have new: "img_block ?s ?d m = freeblock s" using m len by (simp add: img_block_def)
  have old: "img_block ?s ?d k = img_block s din k" if "k \<noteq> m" for k using that len by (auto simp: img_block_def)
  have "find_block_no m din s = Inr (img_block ?s ?d m, ?d, ?s)"
    using m z t(1) new room by (simp add: find_block_no_def xint_const)
  moreover have "file_img ?s ?d (Suc m)"
    using m new old t(3) by (intro file_img_extend [OF f]) auto
  moreover have "sectors ?s (img_block ?s ?d m) = replicate BLOCK_SIZE 0" using new t(4) by simp
  ultimately show ?thesis
    using t(2) old new by (intro exI [of _ ?s] exI [of _ ?d]) (simp add: grown_def)
qed

lemma grow_indirect:
  assumes ok: "img_ok s" and f: "file_img s din m" and m: "INODE_NUM_DIRECT \<le> m" "m < INODE_MAX_BLOCKS" and i: "indirect din \<noteq> 0"
    and room: "freeblock s < FSSIZE"
  shows "\<exists>s' din'. find_block_no m din s = Inr (img_block s' din' m, din', s') \<and> grown s din s' din' m"
proof -
  let ?i = "indirect din" and ?t = "s\<lparr>freeblock := Suc (freeblock s)\<rparr>" and ?j = "m - INODE_NUM_DIRECT"
  let ?d = "slot_put (le_enc 4) 4 ?j (freeblock s) (sectors s ?i)"
  let ?s = "wsect ?i ?d ?t"
  note t = take_block_ok [OF ok room]
  have ai: "allocated s ?i" using f i by (simp add: file_img_def)
  note si = allocated_small [OF ok ai]
  have len: "length (sectors s ?i) = BLOCK_SIZE" using ok by (simp add: img_ok_def)
  have F: "freeblock s < U32" using room by simp
  have slot: "k * 4 + 4 \<le> length (sectors s ?i)" if "k < INODE_NUM_INDIRECT" for k using that len by simp
  have j: "?j < INODE_NUM_INDIRECT" using m by simp
  have sec: "sectors ?s = (sectors s)(?i := ?d)" using si by (simp add: sectors_wsect)
  have new: "img_block ?s din m = freeblock s"
    using m i u32.slot_get_put_same [OF F slot [OF j]] sec by (simp add: img_block_def)
  have old: "img_block ?s din k = img_block s din k" if "k \<noteq> m" "k < INODE_MAX_BLOCKS" for k
  proof (cases "k < INODE_NUM_DIRECT")
    case False
    then have "k - INODE_NUM_DIRECT < INODE_NUM_INDIRECT" "?j \<noteq> k - INODE_NUM_DIRECT" using that m by linarith+
    then show ?thesis using False u32.slot_get_put_other [OF F slot [OF j] slot] sec by (simp add: img_block_def)
  qed (simp add: img_block_def)
  have "slot_get le_dec 4 ?j (sectors s ?i) = 0" using file_img_absent [OF f order_refl m(2)] m(1) i by (simp add: img_block_def)
  moreover have "slot_get le_dec 4 ?j ?d = freeblock s" using u32.slot_get_put_same [OF F slot [OF j]] .
  ultimately have "find_block_no m din s = Inr (img_block ?s din m, din, ?s)"
    using m si i t(1) new rsect_allocated [OF ok ai] room by (simp add: find_block_no_def Let_def)
  moreover have lend: "length ?d = BLOCK_SIZE" using u32.length_slot_put [OF F slot [OF j]] len by simp
  moreover have "img_ok ?s" using t(3) ai by (intro img_ok_wsect [OF t(2) _ lend]) simp
  moreover have "file_img ?s din (Suc m)"
    using m new old t(3) by (intro file_img_extend [OF f]) auto
  moreover have "sectors ?s (img_block ?s din m) = replicate BLOCK_SIZE 0" using new t(4) sec ai by (simp add: allocated_def)
  moreover have "?i \<notin> img_block s din ` {..<m}" using f i by (simp add: file_img_def)
  then have "\<forall>k<m. img_block s din k \<noteq> ?i" by (metis imageI lessThan_iff)
  ultimately show ?thesis
    using sec old m(2) new i by (intro exI [of _ ?s] exI [of _ din]) (simp add: grown_def)
qed

lemma grow_first_indirect:
  assumes ok: "img_ok s" and f: "file_img s din m" and m: "INODE_NUM_DIRECT \<le> m" "m < INODE_MAX_BLOCKS" and i: "indirect din = 0"
    and room: "Suc (freeblock s) < FSSIZE"
  shows "\<exists>s' din'. find_block_no m din s = Inr (img_block s' din' m, din', s') \<and> grown s din s' din' m"
proof -
  let ?s = "s\<lparr>freeblock := Suc (freeblock s)\<rparr>" and ?d = "din\<lparr>indirect := freeblock s\<rparr>"
  have room1: "freeblock s < FSSIZE" using room by simp
  note t = take_block_ok [OF ok room1]
  have F: "freeblock s \<noteq> 0" using ok by (simp add: img_ok_def mkfs_layout)
  have "slot_get le_dec 4 j (replicate BLOCK_SIZE 0) = 0" for j by (simp add: slot_get_def slice_def)
  then have same: "img_block ?s ?d k = img_block s din k" for k using i F t(4) by (simp add: img_block_def)
  have f': "file_img ?s ?d m"
    using f i t(3) F by (auto simp: file_img_def same allocated_def inj_on_def)
  have "find_block_no m din s = find_block_no m ?d ?s"
    using m i t(1) room1 F by (simp add: find_block_no_def xint_const)
  moreover from grow_indirect [OF t(2) f' m] F room obtain s' din' where
    g: "find_block_no m ?d ?s = Inr (img_block s' din' m, din', s')" "grown ?s ?d s' din' m" by auto
  moreover have "grown s din s' din' m"
  proof -
    have "\<forall>k<m. img_block s din k \<noteq> freeblock s" using f by (auto simp: file_img_def allocated_def)
    then show ?thesis using g(2) i F same by (auto simp: grown_def split: if_splits)
  qed
  ultimately show ?thesis by auto
qed

lemma find_block_missing:
  assumes ok: "img_ok s" and f: "file_img s din m" and m: "m < INODE_MAX_BLOCKS"
    and room: "freeblock s + (if indirect din = 0 then 1 else 0) < FSSIZE"
  obtains s' din' where "find_block_no m din s = Inr (img_block s' din' m, din', s')" "grown s din s' din' m"
proof -
  have "\<exists>s' din'. find_block_no m din s = Inr (img_block s' din' m, din', s') \<and> grown s din s' din' m"
    using grow_direct [OF ok f] grow_indirect [OF ok f _ m] grow_first_indirect [OF ok f _ m] room
    by (cases "m < INODE_NUM_DIRECT"; cases "indirect din = 0") (simp_all add: not_less)
  then show ?thesis using that by blast
qed

section \<open>Appending\<close>

definition blocks_of :: "nat \<Rightarrow> nat" where
  "blocks_of sz = (sz + (BLOCK_SIZE - 1)) div BLOCK_SIZE"

definition img_byte :: "image \<Rightarrow> InodeEntry \<Rightarrow> nat \<Rightarrow> byte" where
  "img_byte s din p = sectors s (img_block s din (p div BLOCK_SIZE)) ! (p mod BLOCK_SIZE)"

lemma ceil_div:
  fixes B :: nat
  assumes "0 < B"
  shows "(sz + (B - 1)) div B = sz div B + (if sz mod B = 0 then 0 else 1)"
proof -
  have "sz + (B - 1) = sz mod B + (B - 1) + B * (sz div B)" by simp
  then have "(sz + (B - 1)) div B = sz div B + (sz mod B + (B - 1)) div B" using div_mult_self2 [of B "sz mod B + (B - 1)" "sz div B"] assms by (simp only:)
  moreover have "(sz mod B + (B - 1)) div B = 1" if "sz mod B \<noteq> 0"
  proof -
    have "sz mod B + (B - 1) = sz mod B - 1 + B" using that assms by linarith
    moreover have "sz mod B - 1 < B" using assms by (simp add: less_imp_diff_less)
    ultimately show ?thesis using assms by (simp only: div_add_self2) simp
  qed
  ultimately show ?thesis using assms by auto
qed

lemma ceil_div_step:
  fixes B :: nat
  assumes "0 < B" "0 < n" "n \<le> B - sz mod B"
  shows "(sz + n + (B - 1)) div B = Suc (sz div B)"
proof -
  have r: "sz mod B < B" using assms(1) by simp
  have e: "sz + n = (sz mod B + n) + B * (sz div B)" by simp
  have "(sz + n + (B - 1)) div B = sz div B + (sz mod B + n + (B - 1)) div B"
    using div_mult_self2 [of B "sz mod B + n + (B - 1)" "sz div B"] assms(1) e by (metis add.assoc add.commute less_numeral_extra(3))
  moreover have "sz mod B + n + (B - 1) = (sz mod B + n - 1) + B" "sz mod B + n - 1 < B" using assms r by linarith+
  then have "(sz mod B + n + (B - 1)) div B = 1" using assms(1) by (simp only: div_add_self2) simp
  ultimately show ?thesis by simp
qed

lemma blocks_of_eq: "blocks_of sz = sz div BLOCK_SIZE + (if sz mod BLOCK_SIZE = 0 then 0 else 1)"
  unfolding blocks_of_def by (rule ceil_div) simp

lemma blocks_of_step: "0 < n \<Longrightarrow> n \<le> BLOCK_SIZE - sz mod BLOCK_SIZE \<Longrightarrow> blocks_of (sz + n) = Suc (sz div BLOCK_SIZE)"
  unfolding blocks_of_def by (rule ceil_div_step) simp_all

lemma blocks_of_mono: "sz \<le> sz' \<Longrightarrow> blocks_of sz \<le> blocks_of sz'"
  unfolding blocks_of_def by (simp add: div_le_mono)

lemma div_less_blocks_of:
  assumes "p < sz"
  shows "p div BLOCK_SIZE < blocks_of sz"
proof -
  have "p div BLOCK_SIZE \<le> sz div BLOCK_SIZE" using assms by (simp add: div_le_mono)
  moreover have "sz mod BLOCK_SIZE \<noteq> 0" if "p div BLOCK_SIZE = sz div BLOCK_SIZE"
  proof
    assume "sz mod BLOCK_SIZE = 0"
    then have "sz = BLOCK_SIZE * (sz div BLOCK_SIZE)" by (metis add_0_right mult_div_mod_eq)
    then have "sz \<le> p" using that by (metis times_div_less_eq_dividend)
    then show False using assms by simp
  qed
  ultimately show ?thesis unfolding blocks_of_eq by (cases "p div BLOCK_SIZE = sz div BLOCK_SIZE") auto
qed

text \<open>The sectors of a file.\<close>

definition owns :: "image \<Rightarrow> InodeEntry \<Rightarrow> nat \<Rightarrow> nat set" where
  "owns s din m = img_block s din ` {..<m} \<union> (if indirect din = 0 then {} else {indirect din})"

abbreviation spare :: "InodeEntry \<Rightarrow> nat" where
  "spare din \<equiv> (if indirect din = 0 then 1 else 0)"

text \<open>\<open>appended\<close>: the bytes \<open>ds\<close> were added to a file of \<open>off\<close> bytes; its old bytes and the sectors of everything else are untouched.\<close>

definition appended :: "image \<Rightarrow> InodeEntry \<Rightarrow> image \<Rightarrow> InodeEntry \<Rightarrow> nat \<Rightarrow> byte list \<Rightarrow> bool" where
  "appended s din s' din' off ds \<longleftrightarrow> img_ok s' \<and> file_img s' din' (blocks_of (off + length ds)) \<and> freeinode s' = freeinode s
     \<and> din' = din\<lparr>addrs := addrs din', indirect := indirect din'\<rparr> \<and> freeblock s \<le> freeblock s'
     \<and> freeblock s' + spare din' + blocks_of off \<le> freeblock s + spare din + blocks_of (off + length ds)
     \<and> (\<forall>p<off. img_byte s' din' p = img_byte s din p) \<and> (\<forall>j<length ds. img_byte s' din' (off + j) = ds ! j)
     \<and> (\<forall>b<freeblock s. b \<notin> owns s din (blocks_of off) \<longrightarrow> sectors s' b = sectors s b)
     \<and> owns s' din' (blocks_of (off + length ds)) \<subseteq> owns s din (blocks_of off) \<union> {freeblock s..}"

lemma appended_nothing: "img_ok s \<Longrightarrow> file_img s din (blocks_of off) \<Longrightarrow> appended s din s din off []"
  by (simp add: appended_def)

lemma appended_trans:
  assumes 1: "appended s din s1 din1 off xs" and 2: "appended s1 din1 s2 din2 (off + length xs) ys"
  shows "appended s din s2 din2 off (xs @ ys)"
proof -
  have "img_byte s2 din2 (off + j) = (xs @ ys) ! j" if j: "j < length (xs @ ys)" for j
  proof (cases "j < length xs")
    case True
    then show ?thesis using 1 2 by (simp add: appended_def nth_append)
  next
    case False
    have "\<forall>j<length ys. img_byte s2 din2 (off + length xs + j) = ys ! j" using 2 by (simp add: appended_def)
    from this [rule_format, of "j - length xs"] show ?thesis using False j by (simp add: nth_append)
  qed
  moreover have "sectors s2 b = sectors s b" if b: "b < freeblock s" "b \<notin> owns s din (blocks_of off)" for b
  proof -
    have "b \<notin> owns s1 din1 (blocks_of (off + length xs))" using 1 b by (auto simp: appended_def)
    then show ?thesis using 1 2 b unfolding appended_def by simp
  qed
  moreover have "owns s2 din2 (blocks_of (off + length (xs @ ys))) \<subseteq> owns s din (blocks_of off) \<union> {freeblock s..}"
    using 1 2 unfolding appended_def by (auto simp: add.assoc)
  moreover have "din2 = din\<lparr>addrs := addrs din2, indirect := indirect din2\<rparr>"
  proof -
    obtain a i where d1: "din1 = din\<lparr>addrs := a, indirect := i\<rparr>" using 1 unfolding appended_def by metis
    obtain a' i' where "din2 = din1\<lparr>addrs := a', indirect := i'\<rparr>" using 2 unfolding appended_def by metis
    then show ?thesis unfolding d1 by simp
  qed
  ultimately show ?thesis using 1 2 unfolding appended_def by (simp add: add.assoc)
qed

text \<open>Finding or allocating the block in which position \<open>off\<close>, the end of the file, lies.\<close>

definition opened :: "image \<Rightarrow> InodeEntry \<Rightarrow> image \<Rightarrow> InodeEntry \<Rightarrow> nat \<Rightarrow> bool" where
  "opened s din s1 din1 off \<longleftrightarrow> img_ok s1 \<and> file_img s1 din1 (Suc (off div BLOCK_SIZE)) \<and> freeinode s1 = freeinode s
     \<and> din1 = din\<lparr>addrs := addrs din1, indirect := indirect din1\<rparr> \<and> freeblock s \<le> freeblock s1
     \<and> freeblock s1 + spare din1 + blocks_of off \<le> freeblock s + spare din + Suc (off div BLOCK_SIZE)
     \<and> (\<forall>k<blocks_of off. img_block s1 din1 k = img_block s din k \<and> sectors s1 (img_block s din k) = sectors s (img_block s din k))
     \<and> (\<forall>b<freeblock s. b \<notin> owns s din (blocks_of off) \<longrightarrow> sectors s1 b = sectors s b)
     \<and> owns s1 din1 (Suc (off div BLOCK_SIZE)) \<subseteq> owns s din (blocks_of off) \<union> {freeblock s..}"

lemma find_block_opened:
  assumes ok: "img_ok s" and f: "file_img s din (blocks_of off)" and k: "off div BLOCK_SIZE < INODE_MAX_BLOCKS"
    and room: "freeblock s + spare din + Suc (off div BLOCK_SIZE) \<le> FSSIZE + blocks_of off"
  obtains s1 din1 where "find_block_no (off div BLOCK_SIZE) din s = Inr (img_block s1 din1 (off div BLOCK_SIZE), din1, s1)" "opened s din s1 din1 off"
proof (cases "off mod BLOCK_SIZE = 0")
  case True
  then have m: "blocks_of off = off div BLOCK_SIZE" unfolding blocks_of_eq by simp
  have "freeblock s + spare din < FSSIZE" using room unfolding m by linarith
  from find_block_missing [OF ok f [unfolded m] k this] obtain s' din' where
    g: "find_block_no (off div BLOCK_SIZE) din s = Inr (img_block s' din' (off div BLOCK_SIZE), din', s')" "grown s din s' din' (off div BLOCK_SIZE)" by blast
  have "owns s' din' (Suc (off div BLOCK_SIZE)) \<subseteq> owns s din (off div BLOCK_SIZE) \<union> {freeblock s..}"
    using g(2) by (auto simp: grown_def owns_def lessThan_Suc)
  moreover have "sectors s' b = sectors s b" if b: "b < freeblock s" "b \<notin> owns s din (off div BLOCK_SIZE)" for b
  proof -
    have "b = 0 \<or> b \<noteq> indirect din" using b(2) by (auto simp: owns_def split: if_splits)
    then show ?thesis using g(2) b(1) unfolding grown_def by blast
  qed
  ultimately have "opened s din s' din' off" using g(2) unfolding opened_def m by (simp add: grown_def)
  then show ?thesis using that g(1) by blast
next
  case False
  then have m: "blocks_of off = Suc (off div BLOCK_SIZE)" unfolding blocks_of_eq by simp
  then have "opened s din s din off" using ok f by (simp add: opened_def)
  then show ?thesis using that find_block_present [OF ok f] m by simp
qed

lemma write_appended:
  assumes o: "opened s din s1 din1 off" and ds: "ds \<noteq> []" "length ds \<le> BLOCK_SIZE - off mod BLOCK_SIZE"
  defines "x \<equiv> img_block s1 din1 (off div BLOCK_SIZE)"
  shows "rsect x s1 = Inr (sectors s1 x)"
    and "appended s din (wsect x (patch (off mod BLOCK_SIZE) ds (sectors s1 x)) s1) din1 off ds"
proof -
  let ?k = "off div BLOCK_SIZE" and ?r = "off mod BLOCK_SIZE"
  let ?d = "patch ?r ds (sectors s1 x)"
  let ?s = "wsect x ?d s1"
  have ok: "img_ok s1" and f: "file_img s1 din1 (Suc ?k)" using o by (auto simp: opened_def)
  have ax: "allocated s1 x" using f by (simp add: file_img_def x_def)
  show "rsect x s1 = Inr (sectors s1 x)" using rsect_allocated [OF ok ax] .
  have xk: "img_block s1 din1 ?k = x" by (simp add: x_def)
  have r: "?r < BLOCK_SIZE" by simp
  have len: "length (sectors s1 x) = BLOCK_SIZE" using ok by (simp add: img_ok_def)
  have fit: "?r + length ds \<le> length (sectors s1 x)" using ds(2) r len by linarith
  have bl: "blocks_of (off + length ds) = Suc ?k" using ds by (intro blocks_of_step) simp_all
  have sec: "sectors ?s = (sectors s1)(x := ?d)" using allocated_small [OF ok ax] by (simp add: sectors_wsect)
  have "x \<in> img_block s1 din1 ` {..<Suc ?k}" by (simp add: x_def)
  then have xi: "x \<noteq> indirect din1 \<or> indirect din1 = 0" using f unfolding file_img_def by metis
  then have blk: "img_block ?s din1 j = img_block s1 din1 j" for j using sec by (auto simp: img_block_def)
  have ok': "img_ok ?s" using fit len by (intro img_ok_wsect [OF ok ax]) simp
  have f': "file_img ?s din1 (Suc ?k)" using f by (simp add: file_img_def blk inj_on_def)
  have ow: "owns ?s din1 (Suc ?k) = owns s1 din1 (Suc ?k)" by (simp add: owns_def blk)
  have xo: "x \<in> owns s din (blocks_of off) \<or> freeblock s \<le> x" using o by (auto simp: opened_def owns_def x_def)
  have old: "img_byte ?s din1 p = img_byte s din p" if p: "p < off" for p
  proof -
    have pb: "p div BLOCK_SIZE < blocks_of off" using p by (rule div_less_blocks_of)
    then have s1: "img_byte s1 din1 p = img_byte s din p" using o by (simp add: opened_def img_byte_def)
    show ?thesis
    proof (cases "p div BLOCK_SIZE = ?k")
      case True
      then have "p mod BLOCK_SIZE < ?r" using p by (metis div_mult_mod_eq nat_add_left_cancel_less)
      then have "?d ! (p mod BLOCK_SIZE) = sectors s1 x ! (p mod BLOCK_SIZE)" using nth_patch [OF fit, of "p mod BLOCK_SIZE"] len by simp
      then show ?thesis using True s1 sec by (simp add: img_byte_def blk xk)
    next
      case False
      moreover have "p div BLOCK_SIZE < Suc ?k" using p by (simp add: div_le_mono less_Suc_eq_le)
      ultimately have "img_block s1 din1 (p div BLOCK_SIZE) \<noteq> x" using f unfolding x_def file_img_def by (metis inj_onD lessI lessThan_iff)
      then show ?thesis using s1 sec by (simp add: img_byte_def blk)
    qed
  qed
  have new: "img_byte ?s din1 (off + j) = ds ! j" if j: "j < length ds" for j
  proof -
    have a: "off \<le> off + j \<and> off + j < off + length ds" using j by simp
    have d: "(off + j) div BLOCK_SIZE = ?k" using same_block_iff(1) [OF ds(2), of "off + j"] a by simp
    have "off + j - off = (off + j) mod BLOCK_SIZE - ?r" using same_block_iff(2) [OF ds(2) _ d] by simp
    moreover have "?r \<le> (off + j) mod BLOCK_SIZE" using same_block_iff(1) [OF ds(2), of "off + j"] a by simp
    ultimately have "(off + j) mod BLOCK_SIZE = ?r + j" by linarith
    then show ?thesis using d sec nth_patch [OF fit, of "?r + j"] fit j by (simp add: img_byte_def blk xk)
  qed
  have fr: "sectors ?s b = sectors s b" if "b < freeblock s" "b \<notin> owns s din (blocks_of off)" for b
    using that xo sec o by (auto simp: opened_def)
  show "appended s din ?s din1 off ds"
    using o ok' f' old new fr unfolding appended_def bl ow by (simp add: opened_def)
qed

lemma block_end:
  fixes B :: nat
  shows "(off div B + 1) * B - off = B - off mod B" "off - off div B * B = off mod B"
proof -
  have "(q + 1) * B - (q * B + r) = B - r" for q r by simp
  from this [of "off div B" "off mod B"] show "(off div B + 1) * B - off = B - off mod B" by (simp only: div_mult_mod_eq)
  show "off - off div B * B = off mod B" by (rule minus_div_mult_eq_mod)
qed

lemma iappend_loop_appended:
  assumes "img_ok s" "file_img s din (blocks_of off)" "off + length p \<le> INODE_MAX_BYTES"
    "freeblock s + spare din + blocks_of (off + length p) \<le> FSSIZE + blocks_of off"
  shows "\<exists>s' din'. iappend_loop din off p s = Inr (din', off + length p, s') \<and> appended s din s' din' off p"
  using assms
proof (induction "length p" arbitrary: p off s din rule: less_induct)
  case less
  show ?case
  proof (cases "p = []")
    case True
    then show ?thesis using less.prems(1,2) appended_nothing by (simp add: iappend_loop.simps [of _ _ "[]"])
  next
    case False
    let ?k = "off div BLOCK_SIZE" and ?r = "off mod BLOCK_SIZE"
    let ?n = "min (length p) ((?k + 1) * BLOCK_SIZE - off)"
    have e: "(?k + 1) * BLOCK_SIZE - off = BLOCK_SIZE - ?r" "off - ?k * BLOCK_SIZE = ?r" "?r < BLOCK_SIZE"
      using block_end [of off BLOCK_SIZE] by simp_all
    have n: "0 < ?n" "?n \<le> length p" "?n \<le> BLOCK_SIZE - ?r" using e False by auto
    have t: "take ?n p \<noteq> []" "length (take ?n p) = ?n" using n by auto
    have st: "blocks_of (off + ?n) = Suc ?k" using n by (intro blocks_of_step)
    have mono: "Suc ?k \<le> blocks_of (off + length p)" using blocks_of_mono [of "off + ?n" "off + length p"] n(2) st by simp
    have "off < INODE_MAX_BLOCKS * BLOCK_SIZE" using less.prems(3) False by (cases p) auto
    then have k: "?k < INODE_MAX_BLOCKS" by (rule less_mult_imp_div_less)
    have "freeblock s + spare din + Suc ?k \<le> FSSIZE + blocks_of off" using less.prems(4) mono by linarith
    from find_block_opened [OF less.prems(1,2) k this] obtain s1 din1 where
      o: "find_block_no ?k din s = Inr (img_block s1 din1 ?k, din1, s1)" "opened s din s1 din1 off" by blast
    let ?x = "img_block s1 din1 ?k"
    let ?s = "wsect ?x (patch ?r (take ?n p) (sectors s1 ?x)) s1"
    have w: "rsect ?x s1 = Inr (sectors s1 ?x)" "appended s din ?s din1 off (take ?n p)"
      using write_appended [OF o(2) t(1)] n(3) t(2) by simp_all
    have "iappend_loop din off p s = iappend_loop din1 (off + ?n) (drop ?n p) ?s"
      using False k o(1) w(1) e(2) by (simp add: iappend_loop.simps [of din off p s] Let_def)
    moreover have "img_ok ?s" "file_img ?s din1 (blocks_of (off + ?n))" using w(2) t(2) by (simp_all add: appended_def)
    moreover have "freeblock ?s + spare din1 + blocks_of (off + ?n + length (drop ?n p)) \<le> FSSIZE + blocks_of (off + ?n)"
    proof -
      have "freeblock s1 + spare din1 + blocks_of off \<le> freeblock s + spare din + Suc ?k" using o(2) by (simp add: opened_def)
      moreover have "off + ?n + length (drop ?n p) = off + length p" using n(2) by simp
      ultimately show ?thesis using less.prems(4) st by simp
    qed
    moreover have "length (drop ?n p) < length p" "off + ?n + length (drop ?n p) \<le> INODE_MAX_BYTES" using n less.prems(3) by (simp_all only: length_drop) linarith+
    ultimately obtain s' din' where r: "iappend_loop din off p s = Inr (din', off + ?n + length (drop ?n p), s')"
      "appended ?s din1 s' din' (off + ?n) (drop ?n p)"
      using less.hyps [of "drop ?n p" ?s din1 "off + ?n"] by metis
    have "off + ?n + length (drop ?n p) = off + length p" using n(2) by simp
    moreover have "appended s din s' din' off (take ?n p @ drop ?n p)"
      using appended_trans [OF w(2)] r(2) unfolding t(2) .
    ultimately show ?thesis using r(1) by (simp only: append_take_drop_id) blast
  qed
qed

section \<open>All files of an image\<close>

definition entry_of :: "image \<Rightarrow> nat \<Rightarrow> InodeEntry" where
  "entry_of s n = get_entry (sectors s (IBLOCK n)) n"

definition file_size :: "image \<Rightarrow> nat \<Rightarrow> nat" where
  "file_size s n = num_bytes (entry_of s n)"

definition content :: "image \<Rightarrow> nat \<Rightarrow> byte list" where
  "content s n = map (img_byte s (entry_of s n)) [0..<file_size s n]"

definition file_owns :: "image \<Rightarrow> nat \<Rightarrow> nat set" where
  "file_owns s n = owns s (entry_of s n) (blocks_of (file_size s n))"

definition files_ok :: "image \<Rightarrow> bool" where
  "files_ok s \<longleftrightarrow> img_ok s \<and> freeinode s \<le> NINODES
     \<and> (\<forall>n<freeinode s. file_img s (entry_of s n) (blocks_of (file_size s n)))
     \<and> (\<forall>m<freeinode s. \<forall>n<freeinode s. m \<noteq> n \<longrightarrow> file_owns s m \<inter> file_owns s n = {})"

lemma owns_allocated: "file_img s din m \<Longrightarrow> b \<in> owns s din m \<Longrightarrow> allocated s b"
  by (auto simp: file_img_def owns_def split: if_splits)

lemma file_frame:
  assumes f: "file_img s e m" and same: "\<forall>b\<in>owns s e m. sectors s' b = sectors s b" and fb: "freeblock s \<le> freeblock s'"
  shows "file_img s' e m" "owns s' e m = owns s e m" "p div BLOCK_SIZE < m \<Longrightarrow> img_byte s' e p = img_byte s e p"
proof -
  have blk: "img_block s' e k = img_block s e k" for k using same by (auto simp: img_block_def owns_def)
  have "allocated s b \<Longrightarrow> allocated s' b" for b using fb by (simp add: allocated_def)
  then show "file_img s' e m" using f by (auto simp: file_img_def blk inj_on_def)
  show "owns s' e m = owns s e m" by (simp add: owns_def blk)
  show "img_byte s' e p = img_byte s e p" if "p div BLOCK_SIZE < m"
    using same that by (simp add: img_byte_def blk owns_def)
qed

lemma IBLOCK_bound: "n < NINODES \<Longrightarrow> IBLOCK n < nmeta"
  using less_mult_imp_div_less [of n 25 8] by (simp add: IBLOCK_def mkfs_layout)

lemma entry_slot: "n mod INODE_PER_BLOCK * 64 + 64 \<le> BLOCK_SIZE"
proof -
  have "n mod INODE_PER_BLOCK < INODE_PER_BLOCK" by simp
  then show ?thesis by linarith
qed

text \<open>Writing an inode changes this inode only.\<close>

lemma winode_ok:
  assumes ok: "img_ok s" and n: "n < NINODES" and e: "InodeEntry_ok e"
  obtains s' where "winode n e s = Inr s'" "img_ok s'" "entry_of s' n = e" "\<forall>m<NINODES. m \<noteq> n \<longrightarrow> entry_of s' m = entry_of s m"
    "\<forall>b\<ge>nmeta. sectors s' b = sectors s b" "freeblock s' = freeblock s" "freeinode s' = freeinode s"
proof -
  let ?b = "IBLOCK n" and ?d = "put_entry n e (sectors s (IBLOCK n))"
  have b: "?b < nmeta" using IBLOCK_bound [OF n] .
  have fb: "?b < freeblock s" "?b < FSSIZE" using b ok by (auto simp: img_ok_def)
  have len: "length (sectors s ?b) = BLOCK_SIZE" using ok by (simp add: img_ok_def)
  note slot = entry_slot [of n, folded len]
  have "winode n e s = Inr (wsect ?b ?d s)" using fb ok by (simp add: winode_def rsect_def img_ok_def Let_def)
  moreover have "length ?d = BLOCK_SIZE" using inodeentry.length_slot_put [OF e slot] len by (simp add: put_entry_def)
  then have "img_ok (wsect ?b ?d s)" using fb(1) by (intro img_ok_wsect_below [OF ok])
  moreover have sec: "sectors (wsect ?b ?d s) = (sectors s)(?b := ?d)" using fb(2) by (simp add: sectors_wsect)
  have "entry_of (wsect ?b ?d s) n = e" using inodeentry.slot_get_put_same [OF e slot] sec by (simp add: entry_of_def get_entry_def put_entry_def)
  moreover have "entry_of (wsect ?b ?d s) m = entry_of s m" if m: "m \<noteq> n" for m
  proof (cases "IBLOCK m = ?b")
    case True
    then have "n mod INODE_PER_BLOCK \<noteq> m mod INODE_PER_BLOCK" using m div_mod_eq_iff [of n INODE_PER_BLOCK m] by (auto simp: IBLOCK_def)
    then show ?thesis using True sec inodeentry.slot_get_put_other [OF e slot entry_slot [of m, folded len]]
      by (simp add: entry_of_def get_entry_def put_entry_def)
  qed (simp add: entry_of_def sec)
  ultimately show ?thesis using that [of "wsect ?b ?d s"] b sec by simp
qed

lemma rinode_ok: "img_ok s \<Longrightarrow> n < NINODES \<Longrightarrow> rinode n s = Inr (entry_of s n)"
  using IBLOCK_bound [of n] by (auto simp: rinode_def rsect_def entry_of_def img_ok_def mkfs_layout)

lemma entry_of_ok: "img_ok s \<Longrightarrow> InodeEntry_ok (entry_of s n)"
  using inodeentry.slot_get_ok [of "n mod INODE_PER_BLOCK" "sectors s (IBLOCK n)"] entry_slot [of n]
  by (simp add: entry_of_def get_entry_def img_ok_def)

lemma num_bytes_irrelevant [simp]:
  "img_block s (e\<lparr>num_bytes := x\<rparr>) = img_block s e" "file_img s (e\<lparr>num_bytes := x\<rparr>) = file_img s e"
  "owns s (e\<lparr>num_bytes := x\<rparr>) = owns s e" "img_byte s (e\<lparr>num_bytes := x\<rparr>) = img_byte s e"
  by (simp_all add: fun_eq_iff img_block_def file_img_def owns_def img_byte_def inj_on_def)

lemma entry_ok_appended:
  assumes "InodeEntry_ok e" "img_ok s" "file_img s e' m" "e' = e\<lparr>addrs := addrs e', indirect := indirect e'\<rparr>" "sz < U32"
  shows "InodeEntry_ok (e'\<lparr>num_bytes := sz\<rparr>)"
proof -
  obtain a i where e': "e' = e\<lparr>addrs := a, indirect := i\<rparr>" using assms(4) by blast
  have small: "b < U32" if "allocated s b" for b using allocated_small [OF assms(2) that] by simp
  have blk: "img_block s e' k < U32" if "k < INODE_MAX_BLOCKS" for k
    using assms(3) that small [of "img_block s e' k"] by (cases "k < m") (simp_all add: file_img_def)
  have "addrs e' ! k < U32" if "k < INODE_NUM_DIRECT" for k
  proof -
    have "img_block s e' k = addrs e' ! k" using that by (simp add: img_block_def)
    then show ?thesis using blk [of k] that by simp
  qed
  moreover have "indirect e' < U32" using assms(3) small by (auto simp: file_img_def)
  ultimately show ?thesis using assms(1,3,5) e' by (auto simp: InodeEntry_ok_def file_img_def in_set_conv_nth)
qed

lemma iappend_runs:
  assumes ok: "files_ok s" and n: "n < freeinode s" and mx: "file_size s n + length p \<le> INODE_MAX_BYTES"
    and room: "freeblock s + spare (entry_of s n) + blocks_of (file_size s n + length p) \<le> FSSIZE + blocks_of (file_size s n)"
  obtains s1 d s' where "iappend n p s = Inr s'" "appended s (entry_of s n) s1 d (file_size s n) p" "img_ok s'"
    "entry_of s' n = d\<lparr>num_bytes := file_size s n + length p\<rparr>" "\<forall>m<NINODES. m \<noteq> n \<longrightarrow> entry_of s' m = entry_of s m"
    "\<forall>b\<ge>nmeta. sectors s' b = sectors s1 b" "freeblock s' = freeblock s1" "freeinode s' = freeinode s"
proof -
  have io: "img_ok s" and f: "file_img s (entry_of s n) (blocks_of (file_size s n))" and n2: "n < NINODES" using ok n by (auto simp: files_ok_def)
  from iappend_loop_appended [OF io f mx room] obtain s1 d where
    1: "iappend_loop (entry_of s n) (file_size s n) p s = Inr (d, file_size s n + length p, s1)" "appended s (entry_of s n) s1 d (file_size s n) p" by blast
  have eq: "entry_of s1 m = entry_of s m" if "m < NINODES" for m
  proof -
    have lt: "IBLOCK m < nmeta" using IBLOCK_bound [OF that] .
    then have "IBLOCK m < freeblock s" using io by (simp add: img_ok_def)
    moreover have "IBLOCK m \<notin> owns s (entry_of s n) (blocks_of (file_size s n))"
      using lt owns_allocated [OF f, of "IBLOCK m"] by (auto simp: allocated_def)
    ultimately have "IBLOCK m < freeblock s" "IBLOCK m \<notin> owns s (entry_of s n) (blocks_of (file_size s n))" .
    then show ?thesis using 1(2) by (simp add: appended_def entry_of_def)
  qed
  let ?sz = "file_size s n + length p"
  have sz: "?sz < U32" using mx by simp
  have io1: "img_ok s1" using 1(2) by (simp add: appended_def)
  have "InodeEntry_ok (d\<lparr>num_bytes := ?sz\<rparr>)"
    using 1(2) sz by (intro entry_ok_appended [OF entry_of_ok [OF io] io1]) (auto simp: appended_def)
  then obtain s' where
    2: "winode n (d\<lparr>num_bytes := ?sz\<rparr>) s1 = Inr s'" "img_ok s'" "entry_of s' n = d\<lparr>num_bytes := ?sz\<rparr>" "\<forall>m<NINODES. m \<noteq> n \<longrightarrow> entry_of s' m = entry_of s1 m"
      "\<forall>b\<ge>nmeta. sectors s' b = sectors s1 b" "freeblock s' = freeblock s1" "freeinode s' = freeinode s1" using winode_ok [OF io1 n2] by metis
  have "xint (num_bytes (entry_of s n)) = file_size s n" using mx by (simp add: file_size_def)
  then have "iappend n p s = Inr s'" using rinode_ok [OF io n2] 1(1) 2(1) sz by (simp add: iappend_def)
  then show ?thesis using that [OF _ 1(2) 2(2,3)] 2(4-7) eq 1(2) by (simp add: appended_def)
qed

lemma iappend_spec:
  assumes ok: "files_ok s" and n: "n < freeinode s" and mx: "file_size s n + length p \<le> INODE_MAX_BYTES"
    and room: "freeblock s + spare (entry_of s n) + blocks_of (file_size s n + length p) \<le> FSSIZE + blocks_of (file_size s n)"
  shows "\<exists>s'. iappend n p s = Inr s' \<and> files_ok s' \<and> content s' n = content s n @ p \<and> freeinode s' = freeinode s
    \<and> (\<forall>m<freeinode s. m \<noteq> n \<longrightarrow> content s' m = content s m \<and> entry_of s' m = entry_of s m) \<and> file_size s' n = file_size s n + length p
    \<and> freeblock s' + spare (entry_of s' n) + blocks_of (file_size s n) \<le> freeblock s + spare (entry_of s n) + blocks_of (file_size s n + length p)"
proof -
  obtain s1 d s' where
    r: "iappend n p s = Inr s'" "appended s (entry_of s n) s1 d (file_size s n) p" "img_ok s'"
      "entry_of s' n = d\<lparr>num_bytes := file_size s n + length p\<rparr>" "\<forall>m<NINODES. m \<noteq> n \<longrightarrow> entry_of s' m = entry_of s m"
      "\<forall>b\<ge>nmeta. sectors s' b = sectors s1 b" "freeblock s' = freeblock s1" "freeinode s' = freeinode s" using iappend_runs [OF assms] by metis
  let ?M = "blocks_of (file_size s n + length p)"
  have fn: "file_img s (entry_of s m) (blocks_of (file_size s m))" if "m < freeinode s" for m using ok that by (simp add: files_ok_def)
  have f1: "file_img s1 d ?M" and fb: "freeblock s \<le> freeblock s1" using r(2) by (auto simp: appended_def)
  have fb': "freeblock s \<le> freeblock s'" using fb r(7) by simp
  have own1: "\<forall>b\<in>owns s1 d ?M. sectors s' b = sectors s1 b" using owns_allocated [OF f1] r(6) by (simp add: allocated_def)
  note self = file_frame [OF f1 own1 eq_refl [OF r(7) [symmetric]]]
  have sz: "file_size s' n = file_size s n + length p" by (simp add: file_size_def r(4))
  have fo: "file_owns s' n = owns s1 d ?M" using self(2) by (simp add: file_owns_def sz r(4))
  have other: "file_size s' m = file_size s m \<and> file_img s' (entry_of s m) (blocks_of (file_size s m)) \<and> file_owns s' m = file_owns s m \<and> content s' m = content s m \<and> entry_of s' m = entry_of s m"
    if m: "m < freeinode s" "m \<noteq> n" for m
  proof -
    have "sectors s' b = sectors s b" if b: "b \<in> owns s (entry_of s m) (blocks_of (file_size s m))" for b
    proof -
      have "b \<notin> owns s (entry_of s n) (blocks_of (file_size s n))" using ok m n b unfolding files_ok_def file_owns_def by blast
      moreover have "allocated s b" using owns_allocated [OF fn [OF m(1)] b] .
      ultimately show ?thesis using r(2,6) by (simp add: appended_def allocated_def)
    qed
    then have "\<forall>b\<in>owns s (entry_of s m) (blocks_of (file_size s m)). sectors s' b = sectors s b" by blast
    note fr = file_frame [OF fn [OF m(1)] this fb']
    have e: "entry_of s' m = entry_of s m" using r(5) m ok by (simp add: files_ok_def)
    moreover have "img_byte s' (entry_of s m) q = img_byte s (entry_of s m) q" if "q < file_size s m" for q
      using fr div_less_blocks_of [OF that] by simp
    ultimately show ?thesis using fr e by (simp add: file_size_def file_owns_def content_def)
  qed
  have "content s' n = content s n @ p"
  proof (rule nth_equalityI)
    show "length (content s' n) = length (content s n @ p)" by (simp add: content_def sz)
    fix q assume "q < length (content s' n)"
    then have q: "q < file_size s n + length p" by (simp add: content_def sz)
    have "content s' n ! q = img_byte s1 d q" using q self(3) [OF div_less_blocks_of [OF q]] by (simp add: content_def sz r(4))
    also have "\<dots> = (content s n @ p) ! q"
    proof (cases "q < file_size s n")
      case True
      then show ?thesis using r(2) by (simp add: appended_def content_def nth_append)
    next
      case False
      have "\<forall>j<length p. img_byte s1 d (file_size s n + j) = p ! j" using r(2) by (simp add: appended_def)
      from this [rule_format, of "q - file_size s n"] show ?thesis using False q by (simp add: content_def nth_append)
    qed
    finally show "content s' n ! q = (content s n @ p) ! q" .
  qed
  moreover have "files_ok s'"
  proof -
    have dis: "file_owns s' n \<inter> file_owns s m = {}" if m: "m < freeinode s" "m \<noteq> n" for m
    proof -
      have "file_owns s' n \<subseteq> file_owns s n \<union> {freeblock s..}" using r(2) fo by (simp add: appended_def file_owns_def)
      moreover have "b < freeblock s" if "b \<in> file_owns s m" for b using owns_allocated [OF fn [OF m(1)]] that by (simp add: file_owns_def allocated_def)
      moreover have "file_owns s n \<inter> file_owns s m = {}" using ok m n by (simp add: files_ok_def)
      ultimately show ?thesis by fastforce
    qed
    have "file_img s' (entry_of s' m) (blocks_of (file_size s' m))" if "m < freeinode s" for m
      using other [OF that] self(1) that r(4,5) ok sz by (cases "m = n") (auto simp: files_ok_def)
    moreover have "file_owns s' m \<inter> file_owns s' k = {}" if "m < freeinode s" "k < freeinode s" "m \<noteq> k" for m k
      using other dis that ok by (cases "m = n"; cases "k = n") (auto simp: files_ok_def)
    ultimately show ?thesis using r(3,8) ok by (simp add: files_ok_def)
  qed
  moreover have "freeblock s' + spare (entry_of s' n) + blocks_of (file_size s n)
      \<le> freeblock s + spare (entry_of s n) + blocks_of (file_size s n + length p)"
    using r(2,4,7) by (simp add: appended_def)
  ultimately show ?thesis using r(1,8) other sz by blast
qed

text \<open>
  C12: \<^verbatim>\<open>iappend\<close> keeps the image well-formed and extends exactly one file. In an image whose files have their own blocks, appending to an inode that leaves the
  file within the maximal size and the image with enough free sectors succeeds; the file then holds its old bytes followed by the new ones, whether the blocks
  needed are direct, the first one behind the direct blocks, or further indirect ones; every other file keeps its bytes, and all files keep their own blocks.
\<close>
theorem iappend_extends_file:
  assumes ok: "files_ok s" and n: "n < freeinode s" and mx: "file_size s n + length p \<le> INODE_MAX_BYTES"
    and room: "freeblock s + spare (entry_of s n) + blocks_of (file_size s n + length p) \<le> FSSIZE + blocks_of (file_size s n)"
  shows "\<exists>s'. iappend n p s = Inr s' \<and> files_ok s' \<and> content s' n = content s n @ p \<and> freeinode s' = freeinode s
    \<and> (\<forall>m<freeinode s. m \<noteq> n \<longrightarrow> content s' m = content s m)"
  using iappend_spec [OF assms] by blast

lemma zero_entry_dec: "dec_InodeEntry (replicate 64 0) = zero_entry"
proof -
  have "dec_ints 4 12 (replicate 48 0) = replicate 12 0"
    by (intro nth_equalityI) (simp_all add: dec_ints_def slot_get_def slice_def min_def)
  then show ?thesis by (simp add: dec_InodeEntry_def zero_entry_def slice_def)
qed

lemma blank_entry:
  assumes "sectors s (IBLOCK n) = replicate BLOCK_SIZE 0"
  shows "entry_of s n = zero_entry"
proof -
  have "slice (n mod 8 * 64) 64 (replicate 512 (0::byte)) = replicate 64 0" using entry_slot [of n] by (simp add: slice_def)
  then show ?thesis using assms zero_entry_dec by (simp add: entry_of_def get_entry_def slot_get_def)
qed

lemma file_img_zero: "file_img s zero_entry 0" "owns s zero_entry 0 = {}"
  by (simp_all add: file_img_def zero_entry_def img_block_def owns_def)

lemma blocks_of_0 [simp]: "blocks_of 0 = 0"
  by (simp add: blocks_of_def)

definition demo_image :: image where
  "demo_image = \<lparr>sectors = (\<lambda>_. replicate BLOCK_SIZE 0), nsect = FSSIZE, freeinode = 2, freeblock = nmeta\<rparr>"

lemma demo_image_ok: "files_ok demo_image" "entry_of demo_image n = zero_entry" "file_size demo_image n = 0"
proof -
  show e: "entry_of demo_image n = zero_entry" for n by (rule blank_entry) (simp add: demo_image_def)
  then show z: "file_size demo_image n = 0" for n by (simp add: file_size_def zero_entry_def)
  have "img_ok demo_image" by (simp add: img_ok_def demo_image_def mkfs_layout)
  then show "files_ok demo_image" by (simp add: files_ok_def e z file_owns_def file_img_zero) (simp add: demo_image_def)
qed

theorem iappend_extends_file_witness:
  "\<exists>s'. iappend 1 [104, 105] demo_image = Inr s' \<and> content s' 1 = [104, 105] \<and> content s' 0 = []"
proof -
  have "blocks_of 2 = 1" by (simp add: blocks_of_def)
  then show ?thesis
    using iappend_extends_file [OF demo_image_ok(1), of 1 "[104, 105]"] demo_image_ok(2,3)
    by (auto simp: demo_image_def mkfs_layout zero_entry_def content_def numeral_2_eq_2)
qed

end
