(* ===== verification/Mkfs_Image.thy ===== *)
theory Mkfs_Image
  imports Mkfs_Append
begin

text \<open>
  What the image holds when \<^verbatim>\<open>mkfs\<close> (\<^verbatim>\<open>user/mkfs/main.c\<close>) has added its files: allocation of inodes, and the content of every file added from the host.
\<close>

lemma ialloc_spec:
  assumes ok: "files_ok s" and room: "freeinode s < NINODES"
  shows "\<exists>s'. ialloc t s = Inr (freeinode s, s') \<and> files_ok s' \<and> freeinode s' = Suc (freeinode s) \<and> freeblock s' = freeblock s
    \<and> file_size s' (freeinode s) = 0 \<and> content s' (freeinode s) = [] \<and> indirect (entry_of s' (freeinode s)) = 0
    \<and> (\<forall>m<freeinode s. content s' m = content s m \<and> entry_of s' m = entry_of s m)"
proof -
  let ?n = "freeinode s" and ?e = "zero_entry\<lparr>itype := xshort t, num_links := xshort 1, num_bytes := xint 0\<rparr>"
  let ?s = "s\<lparr>freeinode := Suc ?n\<rparr>"
  have io: "img_ok ?s" using ok by (simp add: files_ok_def img_ok_def)
  have xs: "xshort x < U16" for x using le_dec_bound(1) [of "[of_nat x, of_nat (x div 2 ^ 8)]"] by (simp add: xshort_def)
  have e: "InodeEntry_ok ?e" using xs by (simp add: InodeEntry_ok_def zero_entry_def xint_const)
  obtain s' where w: "winode ?n ?e ?s = Inr s'" "img_ok s'" "entry_of s' ?n = ?e" "\<forall>m<NINODES. m \<noteq> ?n \<longrightarrow> entry_of s' m = entry_of ?s m"
    "\<forall>b\<ge>nmeta. sectors s' b = sectors ?s b" "freeblock s' = freeblock ?s" "freeinode s' = freeinode ?s"
    using winode_ok [OF io room e] by metis
  have es: "entry_of ?s m = entry_of s m" for m by (simp add: entry_of_def)
  have sz: "file_size s' ?n = 0" by (simp add: file_size_def w(3) xint_const)
  have new: "file_img s' ?e 0" "owns s' ?e 0 = {}"
    unfolding file_img_def owns_def by (simp_all add: img_block_def zero_entry_def)
  have fo: "file_owns s' ?n = {}" by (simp only: file_owns_def sz w(3) blocks_of_0 new)
  have other: "file_img s' (entry_of s m) (blocks_of (file_size s m)) \<and> file_owns s' m = file_owns s m \<and> content s' m = content s m
      \<and> entry_of s' m = entry_of s m \<and> file_size s' m = file_size s m" if m: "m < ?n" for m
  proof -
    have f: "file_img s (entry_of s m) (blocks_of (file_size s m))" using ok m by (simp add: files_ok_def)
    have "\<forall>b\<in>owns s (entry_of s m) (blocks_of (file_size s m)). sectors s' b = sectors s b"
      using owns_allocated [OF f] w(5) by (simp add: allocated_def)
    moreover have "freeblock s \<le> freeblock s'" using w(6) by simp
    ultimately have fr: "file_img s' (entry_of s m) (blocks_of (file_size s m))"
      "owns s' (entry_of s m) (blocks_of (file_size s m)) = owns s (entry_of s m) (blocks_of (file_size s m))"
      "\<And>q. q div BLOCK_SIZE < blocks_of (file_size s m) \<Longrightarrow> img_byte s' (entry_of s m) q = img_byte s (entry_of s m) q"
      using file_frame [OF f] by blast+
    have e': "entry_of s' m = entry_of s m" using w(4) m room es by simp
    moreover have "img_byte s' (entry_of s m) q = img_byte s (entry_of s m) q" if "q < file_size s m" for q
      using fr(3) [OF div_less_blocks_of [OF that]] .
    ultimately show ?thesis using fr(1,2) by (simp add: file_size_def file_owns_def content_def)
  qed
  have "files_ok s'"
  proof -
    have "file_img s' (entry_of s' m) (blocks_of (file_size s' m))" if "m < Suc ?n" for m
      using other [of m] that new(1) by (cases "m = ?n") (auto simp only: sz w(3) blocks_of_0 less_Suc_eq)
    moreover have "file_owns s' m \<inter> file_owns s' k = {}" if "m < Suc ?n" "k < Suc ?n" "m \<noteq> k" for m k
      using other fo that ok by (cases "m = ?n"; cases "k = ?n") (auto simp: files_ok_def)
    ultimately show ?thesis using w(2,7) room by (simp add: files_ok_def)
  qed
  moreover have "ialloc t s = Inr (?n, s')" using w(1) room by (simp add: ialloc_def)
  moreover have "content s' ?n = []" by (simp add: content_def sz)
  ultimately show ?thesis using w(3,6,7) sz other by (simp add: zero_entry_def)
qed

lemma append_all_spec:
  assumes "files_ok s" "n < freeinode s" "file_size s n + length (concat bufs) \<le> INODE_MAX_BYTES"
    "freeblock s + spare (entry_of s n) + blocks_of (file_size s n + length (concat bufs)) \<le> FSSIZE + blocks_of (file_size s n)"
  shows "\<exists>s'. append_all n bufs s = Inr s' \<and> files_ok s' \<and> content s' n = content s n @ concat bufs \<and> freeinode s' = freeinode s
    \<and> (\<forall>m<freeinode s. m \<noteq> n \<longrightarrow> content s' m = content s m \<and> entry_of s' m = entry_of s m)
    \<and> freeblock s' + spare (entry_of s' n) + blocks_of (file_size s n) \<le> freeblock s + spare (entry_of s n) + blocks_of (file_size s n + length (concat bufs))"
  using assms
proof (induction bufs arbitrary: s)
  case (Cons b bufs)
  have le: "file_size s n + length b \<le> file_size s n + length (concat (b # bufs))" by simp
  have "file_size s n + length b \<le> INODE_MAX_BYTES" using Cons.prems(3) le by linarith
  moreover have "freeblock s + spare (entry_of s n) + blocks_of (file_size s n + length b) \<le> FSSIZE + blocks_of (file_size s n)"
    using Cons.prems(4) blocks_of_mono [OF le] by linarith
  ultimately obtain s1 where 1: "iappend n b s = Inr s1" "files_ok s1" "content s1 n = content s n @ b" "freeinode s1 = freeinode s"
    "\<forall>m<freeinode s. m \<noteq> n \<longrightarrow> content s1 m = content s m \<and> entry_of s1 m = entry_of s m" "file_size s1 n = file_size s n + length b"
    "freeblock s1 + spare (entry_of s1 n) + blocks_of (file_size s n) \<le> freeblock s + spare (entry_of s n) + blocks_of (file_size s n + length b)"
    using iappend_spec [OF Cons.prems(1,2)] by blast
  have sz: "file_size s1 n + length (concat bufs) = file_size s n + length (concat (b # bufs))" using 1(6) by simp
  have "freeblock s1 + spare (entry_of s1 n) + blocks_of (file_size s1 n + length (concat bufs)) \<le> FSSIZE + blocks_of (file_size s1 n)"
    unfolding sz using 1(6,7) Cons.prems(4) by simp
  moreover have "file_size s1 n + length (concat bufs) \<le> INODE_MAX_BYTES" unfolding sz using Cons.prems(3) .
  ultimately obtain s' where 2: "append_all n bufs s1 = Inr s'" "files_ok s'" "content s' n = content s1 n @ concat bufs" "freeinode s' = freeinode s1"
    "\<forall>m<freeinode s1. m \<noteq> n \<longrightarrow> content s' m = content s1 m \<and> entry_of s' m = entry_of s1 m"
    "freeblock s' + spare (entry_of s' n) + blocks_of (file_size s1 n) \<le> freeblock s1 + spare (entry_of s1 n) + blocks_of (file_size s1 n + length (concat bufs))"
    using Cons.IH [OF 1(2)] Cons.prems(2) 1(4) by (metis (no_types, lifting))
  have "freeblock s' + spare (entry_of s' n) + blocks_of (file_size s n) \<le> freeblock s + spare (entry_of s n) + blocks_of (file_size s n + length (concat (b # bufs)))"
    using 2(6) 1(6,7) unfolding sz by simp
  then show ?case using 1(1,3-5) 2(1-5) by simp
qed simp

section \<open>Adding a file\<close>

lemma base_len_eq: "base_len cs j = (if SLASH \<in> set cs then length (takeWhile (\<lambda>c. c \<noteq> SLASH) (rev cs)) else j + length cs)"
  by (induction cs arbitrary: j) (auto simp: takeWhile_append takeWhile_eq_all_conv)

lemma base_name_eq: "base_name path = rev (takeWhile (\<lambda>c. c \<noteq> SLASH) (rev path))"
proof -
  let ?t = "takeWhile (\<lambda>c. c \<noteq> SLASH) (rev path)"
  have "?t = rev path" if "SLASH \<notin> set path" using that by (auto simp: takeWhile_eq_all_conv)
  then have "base_len path 0 = length ?t" by (metis add_0 base_len_eq length_rev)
  then have "base_name path = rev (take (length ?t) (rev path))" by (simp add: base_name_def rev_take)
  also have "take (length ?t) (rev path) = ?t" by (rule takeWhile_eq_take [symmetric])
  finally show ?thesis .
qed

lemma base_name_no_slash: "SLASH \<notin> set (base_name path)"
  unfolding base_name_eq by (metis set_rev set_takeWhileD)

text \<open>The name under which a host file is stored: the last component of its path without a leading underscore.\<close>

definition stored_name :: "byte list \<Rightarrow> byte list" where
  "stored_name path = (let nm = base_name path in if nm \<noteq> [] \<and> hd nm = 95 then tl nm else nm)"

lemma length_dir_entry [simp]: "length (dir_entry inum nm) = 16"
  by (simp add: dir_entry_def enc_DirEntry_def)

lemma length_file_content [simp]: "length (content s n) = file_size s n"
  by (simp add: content_def)

definition file_cost :: "byte list list \<Rightarrow> nat" where
  "file_cost bufs = 1 + blocks_of (length (concat bufs))"

lemma add_file_spec:
  assumes ok: "files_ok s" and fi: "1 < freeinode s" "freeinode s < NINODES" and host: "host path = Some bufs" and len: "length (concat bufs) \<le> INODE_MAX_BYTES"
    and root: "file_size s 1 + 16 \<le> INODE_MAX_BYTES"
    and room: "freeblock s + spare (entry_of s 1) + blocks_of (file_size s 1 + 16) + file_cost bufs \<le> FSSIZE + blocks_of (file_size s 1)"
  shows "\<exists>s'. add_file host path s = Inr s' \<and> files_ok s' \<and> freeinode s' = Suc (freeinode s) \<and> content s' (freeinode s) = concat bufs
    \<and> content s' 1 = content s 1 @ dir_entry (freeinode s) (stored_name path) \<and> (\<forall>m<freeinode s. m \<noteq> 1 \<longrightarrow> content s' m = content s m)
    \<and> freeblock s' + spare (entry_of s' 1) + blocks_of (file_size s 1) \<le> freeblock s + spare (entry_of s 1) + blocks_of (file_size s 1 + 16) + file_cost bufs"
proof -
  let ?n = "freeinode s" and ?d = "dir_entry (freeinode s) (stored_name path)"
  obtain s1 where 1: "ialloc INODE_REGULAR s = Inr (?n, s1)" "files_ok s1" "freeinode s1 = Suc ?n" "freeblock s1 = freeblock s"
    "file_size s1 ?n = 0" "content s1 ?n = []" "indirect (entry_of s1 ?n) = 0" "\<forall>m<?n. content s1 m = content s m \<and> entry_of s1 m = entry_of s m"
    using ialloc_spec [OF ok fi(2)] by blast
  have r1: "entry_of s1 1 = entry_of s 1" "content s1 1 = content s 1" "file_size s1 1 = file_size s 1" using 1(8) fi(1) by (simp_all add: file_size_def)
  have "file_size s1 1 + length ?d \<le> INODE_MAX_BYTES" using root r1(3) by simp
  moreover have "freeblock s1 + spare (entry_of s1 1) + blocks_of (file_size s1 1 + length ?d) \<le> FSSIZE + blocks_of (file_size s1 1)"
    using room r1 1(4) by simp
  ultimately obtain s2 where 2: "iappend 1 ?d s1 = Inr s2" "files_ok s2" "content s2 1 = content s1 1 @ ?d" "freeinode s2 = freeinode s1"
    "\<forall>m<freeinode s1. m \<noteq> 1 \<longrightarrow> content s2 m = content s1 m \<and> entry_of s2 m = entry_of s1 m"
    "freeblock s2 + spare (entry_of s2 1) + blocks_of (file_size s1 1) \<le> freeblock s1 + spare (entry_of s1 1) + blocks_of (file_size s1 1 + length ?d)"
    using iappend_spec [OF 1(2), of 1 ?d] fi(1) 1(3) by auto
  have n2: "content s2 ?n = []" "spare (entry_of s2 ?n) = 1" "file_size s2 ?n = 0" using 2(5) 1(3,5-7) fi(1) by (auto simp: file_size_def)
  have acc2: "freeblock s2 + spare (entry_of s2 1) + blocks_of (file_size s 1) \<le> freeblock s + spare (entry_of s 1) + blocks_of (file_size s 1 + 16)"
    using 2(6) r1 1(4) by simp
  then have "freeblock s2 + 1 + blocks_of (length (concat bufs)) \<le> FSSIZE" using room unfolding file_cost_def by linarith
  then obtain s3 where 3: "append_all ?n bufs s2 = Inr s3" "files_ok s3" "content s3 ?n = concat bufs" "freeinode s3 = freeinode s2"
    "\<forall>m<freeinode s2. m \<noteq> ?n \<longrightarrow> content s3 m = content s2 m \<and> entry_of s3 m = entry_of s2 m"
    "freeblock s3 + spare (entry_of s3 ?n) \<le> freeblock s2 + 1 + blocks_of (length (concat bufs))"
    using append_all_spec [OF 2(2), of ?n bufs] n2 2(4) 1(3) len by auto
  have "add_file host path s = Inr s3"
    using host base_name_no_slash [of path] 1(1) 2(1) 3(1) by (simp add: add_file_def stored_name_def Let_def)
  moreover have "entry_of s3 1 = entry_of s2 1" "content s3 1 = content s2 1" using 3(5) 2(4) 1(3) fi(1) by auto
  moreover have "\<forall>m<?n. m \<noteq> 1 \<longrightarrow> content s3 m = content s m" using 3(5) 2(4,5) 1(3,8) by auto
  moreover have "freeblock s3 + spare (entry_of s2 1) + blocks_of (file_size s 1) \<le> freeblock s + spare (entry_of s 1) + blocks_of (file_size s 1 + 16) + file_cost bufs"
    using 3(6) acc2 unfolding file_cost_def by linarith
  ultimately show ?thesis using 3(2-4) 2(3,4) 1(3) r1(2) by auto
qed

primrec dir_entries :: "nat \<Rightarrow> byte list list \<Rightarrow> byte list" where
  "dir_entries k [] = []"
| "dir_entries k (path # paths) = dir_entry k (stored_name path) @ dir_entries (Suc k) paths"

text \<open>
  C13: \<^verbatim>\<open>mkfs\<close> stores what it is given. Starting from an image with a root directory, with all files readable, small enough and enough inodes and sectors for them, the
  loop over the arguments succeeds; the inode of each file then holds exactly the bytes read from the host, in whatever pieces they were read, the root directory
  is extended by one entry per file with its inode number and its name without path and leading underscore, and earlier files are unchanged.
\<close>
theorem mkfs_stores_files:
  assumes "files_ok s" "1 < freeinode s" "freeinode s + length paths \<le> NINODES"
    and "list_all2 (\<lambda>path bufs. host path = Some bufs \<and> length (concat bufs) \<le> INODE_MAX_BYTES) paths fs"
    and "file_size s 1 + 16 * length paths \<le> INODE_MAX_BYTES"
    and "freeblock s + spare (entry_of s 1) + blocks_of (file_size s 1 + 16 * length paths) + sum_list (map file_cost fs) \<le> FSSIZE + blocks_of (file_size s 1)"
  shows "\<exists>s'. add_files host paths s = Inr s' \<and> files_ok s' \<and> (\<forall>i<length paths. content s' (freeinode s + i) = concat (fs ! i))
    \<and> content s' 1 = content s 1 @ dir_entries (freeinode s) paths \<and> (\<forall>m<freeinode s. m \<noteq> 1 \<longrightarrow> content s' m = content s m)"
  using assms
proof (induction paths arbitrary: s fs)
  case (Cons path paths)
  then obtain b bs where fs: "fs = b # bs" "host path = Some b" "length (concat b) \<le> INODE_MAX_BYTES"
    and all: "list_all2 (\<lambda>path bufs. host path = Some bufs \<and> length (concat bufs) \<le> INODE_MAX_BYTES) paths bs"
    by (auto simp: list_all2_Cons1)
  let ?r = "file_size s 1" and ?t = "file_size s 1 + 16 * length (path # paths)"
  have le: "?r + 16 \<le> ?t" by simp
  have "?r + 16 \<le> INODE_MAX_BYTES" using Cons.prems(5) le by linarith
  moreover have "freeblock s + spare (entry_of s 1) + blocks_of (?r + 16) + file_cost b \<le> FSSIZE + blocks_of ?r"
    using Cons.prems(6) blocks_of_mono [OF le] unfolding fs(1) by simp
  moreover have "freeinode s < NINODES" using Cons.prems(3) by simp
  ultimately obtain s1 where 1: "add_file host path s = Inr s1" "files_ok s1" "freeinode s1 = Suc (freeinode s)" "content s1 (freeinode s) = concat b"
    "content s1 1 = content s 1 @ dir_entry (freeinode s) (stored_name path)" "\<forall>m<freeinode s. m \<noteq> 1 \<longrightarrow> content s1 m = content s m"
    "freeblock s1 + spare (entry_of s1 1) + blocks_of ?r \<le> freeblock s + spare (entry_of s 1) + blocks_of (?r + 16) + file_cost b"
    using add_file_spec [OF Cons.prems(1,2)] fs(2,3) by blast
  have r1: "file_size s1 1 = ?r + 16" using arg_cong [OF 1(5), of length] by simp
  have "freeblock s1 + spare (entry_of s1 1) + blocks_of (file_size s1 1 + 16 * length paths) + sum_list (map file_cost bs) \<le> FSSIZE + blocks_of (file_size s1 1)"
    using Cons.prems(6) 1(7) unfolding r1 fs(1) by (simp add: add.assoc)
  moreover have "1 < freeinode s1" "freeinode s1 + length paths \<le> NINODES" "file_size s1 1 + 16 * length paths \<le> INODE_MAX_BYTES"
    using Cons.prems(2,3,5) 1(3) r1 by simp_all
  ultimately obtain s' where 2: "add_files host paths s1 = Inr s'" "files_ok s'" "\<forall>i<length paths. content s' (freeinode s1 + i) = concat (bs ! i)"
    "content s' 1 = content s1 1 @ dir_entries (freeinode s1) paths" "\<forall>m<freeinode s1. m \<noteq> 1 \<longrightarrow> content s' m = content s1 m"
    using Cons.IH [OF 1(2)] all by blast
  have "content s' (freeinode s + i) = concat (fs ! i)" if "i < length (path # paths)" for i
    using that 2(3,5) 1(3,4) Cons.prems(2) fs(1) by (cases i) auto
  then show ?case using 1 2 by auto
qed simp

theorem mkfs_stores_files_witness:
  "\<exists>s'. add_files (\<lambda>_. Some [[1, 2], [3]]) [[47, 95, 97]] demo_image = Inr s' \<and> content s' 2 = [1, 2, 3]"
proof -
  have "blocks_of 16 = 1" "blocks_of 3 = 1" by (simp_all add: blocks_of_def)
  then show ?thesis
    using mkfs_stores_files [OF demo_image_ok(1), of "[[47, 95, 97]]" "\<lambda>_. Some [[1, 2], [3]]" "[[[1, 2], [3]]]"] demo_image_ok(2,3)
    by (auto simp: demo_image_def mkfs_layout zero_entry_def file_cost_def numeral_3_eq_3)
qed

end
