(* ===== verification/Interrupts.thy ===== *)
theory Interrupts
  imports Disk_Layout
begin

unbundle bit_operations_syntax

text \<open>
  Interrupt handlers and the interrupt controller: \<^verbatim>\<open>driver/interrupt.c\<close>, \<^verbatim>\<open>driver/gicv3.c\<close> and \<^verbatim>\<open>driver/timer.c\<close>.

  The table of handlers is a list of 64 entries whose values name the functions of the kernel that are registered anywhere. Writes to the controller are recorded in order,
  at the addresses the code computes; what a register reads as is a function of the writes so far, which is an argument.
\<close>

section \<open>The table of handlers\<close>

abbreviation (input) NUM_IRQ_TYPES :: nat where "NUM_IRQ_TYPES \<equiv> 64"
abbreviation (input) TIMER_IRQ :: nat where "TIMER_IRQ \<equiv> 27"
abbreviation (input) UART_IRQ :: nat where "UART_IRQ \<equiv> 33"
abbreviation (input) VIRTIO_BLK_IRQ :: nat where "VIRTIO_BLK_IRQ \<equiv> 48"

datatype InterruptHandler = Default_handler | Uartintr | Invoke_clock_handler | Virtio_blk_intr

type_synonym handlers = "InterruptHandler option list"

definition init_interrupt :: "handlers \<Rightarrow> handlers" where
  "init_interrupt int_handler = fold (\<lambda>i h. h[i := Some Default_handler]) [0..<NUM_IRQ_TYPES] int_handler"

definition set_interrupt_handler :: "nat \<Rightarrow> InterruptHandler \<Rightarrow> handlers \<Rightarrow> handlers" where
  "set_interrupt_handler type handler int_handler = int_handler[type := Some handler]"

lemma init_interrupt_eq: "length h = NUM_IRQ_TYPES \<Longrightarrow> init_interrupt h = replicate NUM_IRQ_TYPES (Some Default_handler)"
proof -
  assume l: "length h = NUM_IRQ_TYPES"
  have "fold (\<lambda>i h. h[i := x]) [0..<n] h = replicate n x @ drop n h" if "n \<le> length h" for n and x :: "InterruptHandler option"
    using that
  proof (induction n)
    case (Suc n)
    then have "drop n h = h ! n # drop (Suc n) h" by (simp add: Cons_nth_drop_Suc)
    then show ?case using Suc by (simp add: list_update_append replicate_append_same [symmetric])
  qed simp
  from this [of NUM_IRQ_TYPES "Some Default_handler"] l show ?thesis unfolding init_interrupt_def by (simp only: order_refl drop_all append_Nil2)
qed

section \<open>The interrupt controller\<close>

abbreviation (input) GICBASE :: "64 word" where "GICBASE \<equiv> 0xFFFF000008000000"
abbreviation (input) GICD_CTLR :: nat where "GICD_CTLR \<equiv> 0"
abbreviation (input) GICR_CTLR :: nat where "GICR_CTLR \<equiv> 0"
abbreviation (input) GICR_WAKER :: nat where "GICR_WAKER \<equiv> 0x14"
abbreviation (input) SGI_BASE :: nat where "SGI_BASE \<equiv> 0x10000"

datatype gic_op = Mem "64 word" "32 word" | Icc_igrpen1 "32 word" | Icc_pmr "32 word" | Icc_sre "32 word" | Icc_eoir1 "32 word"

record gic =
  gicd :: "64 word"
  rdist_addrs :: "64 word list"
  glog :: "gic_op list"

text \<open>What the registers in memory and \<^verbatim>\<open>ICC_SRE_EL1\<close> read as after a list of writes.\<close>

record gic_regs =
  mem_reg :: "gic_op list \<Rightarrow> 64 word \<Rightarrow> 32 word"
  sre_reg :: "gic_op list \<Rightarrow> 32 word"
  igrpen1_reg :: "gic_op list \<Rightarrow> 32 word"

definition gop :: "gic_op \<Rightarrow> gic \<Rightarrow> gic" where
  "gop x g = g\<lparr>glog := glog g @ [x]\<rparr>"

definition GICD_IGROUPR :: "nat \<Rightarrow> nat" where "GICD_IGROUPR n = 0x80 + n * 4"
definition GICD_ISENABLER :: "nat \<Rightarrow> nat" where "GICD_ISENABLER n = 0x100 + n * 4"
definition GICD_ICPENDR :: "nat \<Rightarrow> nat" where "GICD_ICPENDR n = 0x280 + n * 4"
definition GICD_IPRIORITYR :: "nat \<Rightarrow> nat" where "GICD_IPRIORITYR n = 0x400 + n * 4"
definition GICD_ITARGETSR :: "nat \<Rightarrow> nat" where "GICD_ITARGETSR n = 0x800 + n * 4"
definition GICR_IPRIORITYR :: "nat \<Rightarrow> nat" where "GICR_IPRIORITYR n = SGI_BASE + 0x400 + n * 4"
abbreviation (input) GICR_IGROUPR0 :: nat where "GICR_IGROUPR0 \<equiv> 0x10080"
abbreviation (input) GICR_ISENABLER0 :: nat where "GICR_ISENABLER0 \<equiv> 0x10100"
abbreviation (input) GICR_ICPENDR0 :: nat where "GICR_ICPENDR0 \<equiv> 0x10280"
abbreviation (input) GICR_ICFGR1 :: nat where "GICR_ICFGR1 \<equiv> 0x10c04"
abbreviation (input) GICR_IGRPMODR0 :: nat where "GICR_IGRPMODR0 \<equiv> 0x10d00"

definition wd32 :: "nat \<Rightarrow> 32 word \<Rightarrow> gic \<Rightarrow> gic" where
  "wd32 off val g = gop (Mem (gicd g + of_nat (off mod U32)) val) g"

definition rd32 :: "gic_regs \<Rightarrow> nat \<Rightarrow> gic \<Rightarrow> 32 word" where
  "rd32 R off g = mem_reg R (glog g) (gicd g + of_nat (off mod U32))"

definition wr32 :: "nat \<Rightarrow> nat \<Rightarrow> 32 word \<Rightarrow> gic \<Rightarrow> gic res" where
  "wr32 cpuid off val g = (if cpuid < length (rdist_addrs g) then Inr (gop (Mem (rdist_addrs g ! cpuid + of_nat (off mod U32)) val) g) else Inl Fault)"

definition rr32 :: "gic_regs \<Rightarrow> nat \<Rightarrow> nat \<Rightarrow> gic \<Rightarrow> 32 word res" where
  "rr32 R cpuid off g = (if cpuid < length (rdist_addrs g) then Inr (mem_reg R (glog g) (rdist_addrs g ! cpuid + of_nat (off mod U32))) else Inl Fault)"

definition is_sgi_ppi :: "nat \<Rightarrow> bool" where
  "is_sgi_ppi i \<longleftrightarrow> i < 32"

definition gic_enable_int :: "gic_regs \<Rightarrow> nat \<Rightarrow> gic \<Rightarrow> gic" where
  "gic_enable_int R intid g =
     (let is = rd32 R (GICD_ISENABLER (intid div 32)) g;
          is = is OR push_bit (intid mod 32) 1
      in wd32 (GICD_ISENABLER (intid div 32)) is g)"

definition gicr_enable_int :: "gic_regs \<Rightarrow> nat \<Rightarrow> nat \<Rightarrow> gic \<Rightarrow> gic res" where
  "gicr_enable_int R cpuid intid g =
     rassert (is_sgi_ppi intid) (rbind (rr32 R cpuid GICR_ISENABLER0 g) (\<lambda>is.
       wr32 cpuid GICR_ISENABLER0 (is OR push_bit (intid mod 32) 1) g))"

definition gic_clear_pending :: "gic_regs \<Rightarrow> nat \<Rightarrow> gic \<Rightarrow> gic" where
  "gic_clear_pending R intid g =
     (let ic = rd32 R (GICD_ICPENDR (intid div 32)) g;
          ic = ic OR push_bit (intid mod 32) 1
      in wd32 (GICD_ICPENDR (intid div 32)) ic g)"

definition gicr_clear_pending :: "gic_regs \<Rightarrow> nat \<Rightarrow> nat \<Rightarrow> gic \<Rightarrow> gic res" where
  "gicr_clear_pending R cpuid intid g =
     rassert (is_sgi_ppi intid) (rbind (rr32 R cpuid GICR_ICPENDR0 g) (\<lambda>ic.
       wr32 cpuid GICR_ICPENDR0 (ic OR push_bit (intid mod 32) 1) g))"

text \<open>Both ignore the priority they are given and store 0.\<close>

definition gic_set_prio :: "gic_regs \<Rightarrow> nat \<Rightarrow> int \<Rightarrow> gic \<Rightarrow> gic" where
  "gic_set_prio R intid prio g =
     (let p = rd32 R (GICD_IPRIORITYR (intid div 4)) g;
          p = p AND NOT (push_bit (intid mod 4 * 8) 0xff)
      in wd32 (GICD_IPRIORITYR (intid div 4)) p g)"

definition gicr_set_prio :: "gic_regs \<Rightarrow> nat \<Rightarrow> nat \<Rightarrow> int \<Rightarrow> gic \<Rightarrow> gic res" where
  "gicr_set_prio R cpuid intid prio g =
     rassert (is_sgi_ppi intid) (rbind (rr32 R cpuid (GICR_IPRIORITYR (intid div 4)) g) (\<lambda>p.
       wr32 cpuid (GICR_IPRIORITYR (intid div 4)) (p AND NOT (push_bit (intid mod 4 * 8) 0xff)) g))"

definition gic_set_target :: "gic_regs \<Rightarrow> nat \<Rightarrow> nat \<Rightarrow> gic \<Rightarrow> gic" where
  "gic_set_target R intid cpuid g =
     (let itargetsr = rd32 R (GICD_ITARGETSR (intid div 4)) g;
          itargetsr = itargetsr AND NOT (push_bit (intid mod 4 * 8) 0xff)
      in wd32 (GICD_ITARGETSR (intid div 4)) (itargetsr OR push_bit (intid mod 4 * 8) (push_bit cpuid 1)) g)"

definition gic_setup_ppi :: "gic_regs \<Rightarrow> nat \<Rightarrow> nat \<Rightarrow> int \<Rightarrow> gic \<Rightarrow> gic res" where
  "gic_setup_ppi R cpu intid prio g =
     rbind (gicr_set_prio R cpu intid prio g) (\<lambda>g.
     rbind (gicr_clear_pending R cpu intid g) (\<lambda>g.
     gicr_enable_int R cpu intid g))"

definition gic_setup_spi :: "gic_regs \<Rightarrow> nat \<Rightarrow> int \<Rightarrow> gic \<Rightarrow> gic" where
  "gic_setup_spi R intid prio g = gic_enable_int R intid (gic_clear_pending R intid (gic_set_target R intid 0 (gic_set_prio R intid prio g)))"

definition gic_cpu_init :: "gic \<Rightarrow> gic" where
  "gic_cpu_init g = gop (Icc_pmr 0xff) (gop (Icc_igrpen1 0) g)"

definition gic_dist_init :: "gic \<Rightarrow> gic" where
  "gic_dist_init g = fold (\<lambda>i. wd32 (GICD_IGROUPR i) (NOT 0)) [0..<32] (wd32 GICD_CTLR 0 g)"

text \<open>The loop waits until the controller has cleared bit 2; \<open>polls\<close> are the values it reads one after the other, and when none of them ends the loop it has not ended yet.\<close>

fun waker_loop :: "32 word list \<Rightarrow> unit res" where
  "waker_loop [] = Inl Blocked"
| "waker_loop (x # polls) = (if x AND push_bit 2 1 \<noteq> 0 then waker_loop polls else Inr ())"

definition gic_redist_init :: "gic_regs \<Rightarrow> 32 word list \<Rightarrow> nat \<Rightarrow> gic \<Rightarrow> gic res" where
  "gic_redist_init R polls cpuid g =
     rbind (wr32 cpuid GICR_CTLR 0 g) (\<lambda>g.
     let g = gop (Icc_sre (sre_reg R (glog g) OR 1)) g
     in rbind (wr32 cpuid GICR_IGROUPR0 (NOT 0) g) (\<lambda>g.
        rbind (wr32 cpuid GICR_IGRPMODR0 0 g) (\<lambda>g.
        rbind (wr32 cpuid GICR_ICFGR1 0 g) (\<lambda>g.
        rbind (rr32 R cpuid GICR_WAKER g) (\<lambda>waker.
        rbind (wr32 cpuid GICR_WAKER (waker AND NOT (push_bit 1 1)) g) (\<lambda>g.
        rbind (waker_loop polls) (\<lambda>_. Inr g)))))))"

definition gic_enable :: "gic \<Rightarrow> gic" where
  "gic_enable g = gop (Icc_igrpen1 1) (wd32 GICD_CTLR 3 g)"

definition gicv3_init_percpu :: "gic_regs \<Rightarrow> 32 word list \<Rightarrow> nat \<Rightarrow> gic \<Rightarrow> gic res" where
  "gicv3_init_percpu R polls cpu g =
     rbind (gic_redist_init R polls cpu (gic_dist_init (gic_cpu_init g))) (\<lambda>g.
     rbind (gic_setup_ppi R cpu TIMER_IRQ 0 g) (\<lambda>g.
     Inr (gic_enable g)))"

definition gicv3_init :: "gic_regs \<Rightarrow> gic \<Rightarrow> gic" where
  "gicv3_init R g =
     (let g = g\<lparr>gicd := GICBASE, rdist_addrs := map (\<lambda>i. GICBASE + 0xa0000 + of_nat i * 0x20000) [0..<4]\<rparr>
      in gic_setup_spi R VIRTIO_BLK_IRQ 0 (gic_setup_spi R UART_IRQ 0 g))"

definition gic_enabled :: "gic_regs \<Rightarrow> gic \<Rightarrow> bool" where
  "gic_enabled R g \<longleftrightarrow> igrpen1_reg R (glog g) AND 1 \<noteq> 0 \<and> rd32 R GICD_CTLR g AND 1 \<noteq> 0"

definition gic_eoi :: "32 word \<Rightarrow> gic \<Rightarrow> gic" where
  "gic_eoi iar g = gop (Icc_eoir1 iar) g"

section \<open>The generic timer\<close>

definition enable_timer :: "64 word \<Rightarrow> 64 word" where
  "enable_timer c = (c OR push_bit 0 1) AND NOT (push_bit 1 1)"

definition disable_timer :: "64 word \<Rightarrow> 64 word" where
  "disable_timer c = (c AND NOT (push_bit 0 1)) OR push_bit 1 1"

definition timer_enabled :: "64 word \<Rightarrow> bool" where
  "timer_enabled c \<longleftrightarrow> c AND 1 \<noteq> 0"

lemma and_1_bit: "c AND 1 \<noteq> 0 \<longleftrightarrow> bit (c :: 64 word) 0"
  by (simp add: and_one_eq mod_2_eq_odd bit_0)

lemma timer_enabled_switch: "timer_enabled (enable_timer c)" "\<not> timer_enabled (disable_timer c)"
  by (simp_all add: timer_enabled_def and_1_bit enable_timer_def disable_timer_def bit_simps)

end
