(* ===== verification/Virtio.thy ===== *)
theory Virtio
  imports Semaphore Interrupts
begin

unbundle bit_operations_syntax

text \<open>
  The block device driver: \<^verbatim>\<open>driver/virtio_blk.c\<close> with the structures of \<^verbatim>\<open>driver/virtio.h\<close> and \<^verbatim>\<open>common/buf.h\<close>.

  The three rings of the queue are functions from indices to entries; a descriptor points to the request header, the data of the buffer or the status byte of a
  request, which are told apart by constructors, and an index outside the 16 descriptors is a \<open>Fault\<close>. Buffers and headers live on the stacks of the
  callers and are named by the address of the buffer. Writes to device registers are recorded in order in \<open>mmio\<close>; what a register reads as is an argument.
  \<^verbatim>\<open>virtio_blk_rw\<close> sleeps in its middle, so it is the part up to the sleep (\<open>rw_start\<close>), the part after waking up (\<open>rw_resume\<close>) and the release of the
  descriptors (\<open>rw_finish\<close>). The tests \<^verbatim>\<open>d0 < 0\<close> never succeed because \<^verbatim>\<open>alloc_desc\<close> returns an unsigned 16-bit value or panics.
\<close>

section \<open>Structures\<close>

abbreviation (input) NQUEUE :: nat where "NQUEUE \<equiv> 16"
abbreviation (input) VIRTQ_DESC_F_NEXT :: "16 word" where "VIRTQ_DESC_F_NEXT \<equiv> 1"
abbreviation (input) VIRTQ_DESC_F_WRITE :: "16 word" where "VIRTQ_DESC_F_WRITE \<equiv> 2"
abbreviation (input) B_VALID :: "32 word" where "B_VALID \<equiv> 2"
abbreviation (input) B_DIRTY :: "32 word" where "B_DIRTY \<equiv> 4"
abbreviation (input) VIRTIO_BLK_T_IN :: nat where "VIRTIO_BLK_T_IN \<equiv> 0"
abbreviation (input) VIRTIO_BLK_T_OUT :: nat where "VIRTIO_BLK_T_OUT \<equiv> 1"

datatype dma = Unset | Hdr_addr nat | Data_addr nat | Status_addr nat

record virtq_desc =
  daddr :: dma
  dlen :: nat
  dflags :: "16 word"
  dnext :: nat

record virtq_info =
  istatus :: byte
  idone :: byte
  ibuf :: "nat option"

record Buf =
  bflags :: "32 word"
  bdata :: "byte list"
  bno :: nat
  bsem :: Semaphore

record virtio_blk_req_hdr =
  htype :: nat
  hreserved :: nat
  hsector :: nat

datatype reg = MAGICVALUE | VERSION | DEVICE_ID | DEVICE_FEATURES | DEVICE_FEATURES_SEL | DRIVER_FEATURES | DRIVER_FEATURES_SEL
  | QUEUE_SEL | QUEUE_NUM_MAX | QUEUE_NUM | QUEUE_READY | QUEUE_NOTIFY | INTERRUPT_STATUS | INTERRUPT_ACK | STATUS
  | QUEUE_DESC_LOW | QUEUE_DESC_HIGH | QUEUE_DRIVER_LOW | QUEUE_DRIVER_HIGH | QUEUE_DEVICE_LOW | QUEUE_DEVICE_HIGH

record virtio_disk =
  lk :: SpinLock
  desc :: "nat \<Rightarrow> virtq_desc"
  avail_idx :: "16 word"
  avail_ring :: "nat \<Rightarrow> nat"
  used_idx :: "16 word"
  used_ring :: "nat \<Rightarrow> nat"
  free_head :: nat
  nfree :: nat
  last_used_idx :: "16 word"
  info :: "nat \<Rightarrow> virtq_info"
  bufs :: "nat \<Rightarrow> Buf"
  hdrs :: "nat \<Rightarrow> virtio_blk_req_hdr"
  dwaits :: waits
  mmio :: "(reg \<times> 32 word) list"

definition set_desc :: "nat \<Rightarrow> (virtq_desc \<Rightarrow> virtq_desc) \<Rightarrow> virtio_disk \<Rightarrow> virtio_disk" where
  "set_desc d f v = v\<lparr>desc := (desc v)(d := f (desc v d))\<rparr>"

definition set_info :: "nat \<Rightarrow> (virtq_info \<Rightarrow> virtq_info) \<Rightarrow> virtio_disk \<Rightarrow> virtio_disk" where
  "set_info d f v = v\<lparr>info := (info v)(d := f (info v d))\<rparr>"

definition set_buf :: "nat \<Rightarrow> (Buf \<Rightarrow> Buf) \<Rightarrow> virtio_disk \<Rightarrow> virtio_disk" where
  "set_buf b f v = v\<lparr>bufs := (bufs v)(b := f (bufs v b))\<rparr>"

definition REG_write :: "reg \<Rightarrow> 32 word \<Rightarrow> virtio_disk \<Rightarrow> virtio_disk" where
  "REG_write r x v = v\<lparr>mmio := mmio v @ [(r, x)]\<rparr>"

section \<open>Descriptors\<close>

definition desc_init :: "virtio_disk \<Rightarrow> virtio_disk" where
  "desc_init v = fold (\<lambda>i. set_desc i (\<lambda>d. d\<lparr>dflags := VIRTQ_DESC_F_NEXT, dnext := i + 1\<rparr>)) [0..<NQUEUE - 1] v"

definition has_next :: "virtq_desc \<Rightarrow> bool" where
  "has_next d \<longleftrightarrow> dflags d AND VIRTQ_DESC_F_NEXT \<noteq> 0"

definition alloc_desc :: "virtio_disk \<Rightarrow> (nat \<times> virtio_disk) res" where
  "alloc_desc v =
     (if nfree v = 0 then Inl Panic
      else let d = free_head v
           in if d \<ge> NQUEUE then Inl Fault
              else let v = (if has_next (desc v d) then v\<lparr>free_head := dnext (desc v d)\<rparr> else v)
                   in Inr (d, v\<lparr>nfree := nfree v - 1\<rparr>))"

text \<open>
  The loop \<^verbatim>\<open>while (virtq->nfree++, (virtq->desc[n].flags & VIRTQ_DESC_F_NEXT)) n = virtq->desc[n].next;\<close>. It changes no descriptor, so a walk that has not ended
  after 16 descriptors has met one of them twice and never ends: that is \<open>Blocked\<close>.
\<close>

fun free_walk :: "nat \<Rightarrow> nat \<Rightarrow> virtio_disk \<Rightarrow> (nat \<times> virtio_disk) res" where
  "free_walk 0 n v = Inl Blocked"
| "free_walk (Suc k) n v =
     (let v = v\<lparr>nfree := (nfree v + 1) mod U16\<rparr>
      in if n \<ge> NQUEUE then Inl Fault
         else if has_next (desc v n) then free_walk k (dnext (desc v n)) v else Inr (n, v))"

definition free_desc :: "nat \<Rightarrow> virtio_disk \<Rightarrow> virtio_disk res" where
  "free_desc n v =
     (let head = n;
          empty = (nfree v = 0)
      in rbind (free_walk NQUEUE n v) (\<lambda>(n, v).
         let v = set_desc n (\<lambda>d. d\<lparr>dflags := VIRTQ_DESC_F_NEXT\<rparr>) v;
             v = (if \<not> empty then set_desc n (\<lambda>d. d\<lparr>dnext := free_head v\<rparr>) v else v)
         in Inr (v\<lparr>free_head := head\<rparr>)))"

section \<open>Requests\<close>

text \<open>Filling the three descriptors of a request and making it available to the device; called with the lock held.\<close>

definition queue_request :: "nat \<Rightarrow> bool \<Rightarrow> virtio_disk \<Rightarrow> (nat \<times> virtio_disk) res" where
  "queue_request b write v =
     rbind (alloc_desc v) (\<lambda>(d0, v).
     let v = set_desc d0 (\<lambda>d. d\<lparr>daddr := Hdr_addr b, dlen := 16, dflags := VIRTQ_DESC_F_NEXT\<rparr>) v
     in rbind (alloc_desc v) (\<lambda>(d1, v).
        let v = set_desc d0 (\<lambda>d. d\<lparr>dnext := d1\<rparr>) v;
            v = set_desc d1 (\<lambda>d. d\<lparr>daddr := Data_addr b, dlen := 512, dflags := VIRTQ_DESC_F_NEXT\<rparr>) v;
            v = (if \<not> write then set_desc d1 (\<lambda>d. d\<lparr>dflags := dflags d OR VIRTQ_DESC_F_WRITE\<rparr>) v else v)
        in rbind (alloc_desc v) (\<lambda>(d2, v).
           let v = set_desc d1 (\<lambda>d. d\<lparr>dnext := d2\<rparr>) v;
               v = set_desc d2 (\<lambda>d. d\<lparr>daddr := Status_addr d0, dlen := 1, dflags := VIRTQ_DESC_F_WRITE, dnext := 0\<rparr>) v;
               v = v\<lparr>avail_ring := (avail_ring v)(unat (avail_idx v) mod NQUEUE := d0)\<rparr>;
               v = v\<lparr>avail_idx := avail_idx v + 1\<rparr>;
               v = set_info d0 (\<lambda>i. i\<lparr>ibuf := Some b\<rparr>) v
           in Inr (d0, REG_write QUEUE_NOTIFY 0 v))))"

definition rw_start :: "nat \<Rightarrow> nat \<Rightarrow> nat \<Rightarrow> virtio_disk \<Rightarrow> ((nat \<times> nat option) \<times> virtio_disk) res" where
  "rw_start b w p v =
     (let write = (bflags (bufs v b) AND B_DIRTY \<noteq> 0);
          v = set_buf b (\<lambda>x. x\<lparr>bsem := init_sem 0\<rparr>) v;
          v = v\<lparr>hdrs := (hdrs v)(b := \<lparr>htype = (if write then VIRTIO_BLK_T_OUT else VIRTIO_BLK_T_IN), hreserved = 0, hsector = bno (bufs v b)\<rparr>)\<rparr>
      in rbind (acquire_spinlock (lk v)) (\<lambda>l.
         rbind (queue_request b write (v\<lparr>lk := l\<rparr>)) (\<lambda>(d0, v).
         rbind (lock_sem (bsem (bufs v b))) (\<lambda>sem.
         let v = v\<lparr>lk := release_spinlock (lk v)\<rparr>;
             ((sem, wd), slept) = wait_sem_enter w p (sem, dwaits v)
         in Inr ((d0, slept), set_buf b (\<lambda>x. x\<lparr>bsem := sem\<rparr>) (v\<lparr>dwaits := wd\<rparr>))))))"

definition rw_finish :: "nat \<Rightarrow> virtio_disk \<Rightarrow> virtio_disk res" where
  "rw_finish d0 v =
     rbind (acquire_spinlock (lk v)) (\<lambda>l.
     rbind (free_desc d0 (set_info d0 (\<lambda>i. i\<lparr>idone := 0\<rparr>) (v\<lparr>lk := l\<rparr>))) (\<lambda>v.
     Inr (v\<lparr>lk := release_spinlock (lk v)\<rparr>)))"

text \<open>After the sleep. A wait that was broken by an alert ends in \<^verbatim>\<open>PANIC\<close>.\<close>

definition rw_resume :: "nat \<Rightarrow> nat \<Rightarrow> nat \<Rightarrow> virtio_disk \<Rightarrow> virtio_disk res" where
  "rw_resume b d0 w v =
     rbind (wait_sem_resume w (bsem (bufs v b), dwaits v)) (\<lambda>((sem, wd), f).
     let v = set_buf b (\<lambda>x. x\<lparr>bsem := sem\<rparr>) (v\<lparr>dwaits := wd\<rparr>)
     in rassert f (rw_finish d0 v))"

section \<open>The interrupt handler\<close>

text \<open>
  One round of the loop for the used element \<open>d0\<close>. The test \<^verbatim>\<open>b != NULL\<close> looks at the buffer's address computed from \<^verbatim>\<open>info[d0].buf\<close>, so a missing buffer is not noticed
  and posts a semaphore at a wrong address: a \<open>Fault\<close>. The processes woken up are part of the result.
\<close>

definition complete_used :: "nat \<Rightarrow> virtio_disk \<Rightarrow> (nat list \<times> virtio_disk) res" where
  "complete_used d0 v =
     (if d0 \<ge> NQUEUE then Inl Fault
      else if istatus (info v d0) \<noteq> 0 then Inl Panic
      else (case ibuf (info v d0) of None \<Rightarrow> Inl Fault
            | Some b \<Rightarrow>
              rbind (post_sem (bsem (bufs v b), dwaits v)) (\<lambda>((sem, wd), ps).
              let v = set_buf b (\<lambda>x. x\<lparr>bsem := sem\<rparr>) (v\<lparr>dwaits := wd\<rparr>);
                  v = set_info d0 (\<lambda>i. i\<lparr>ibuf := None\<rparr>) v
              in Inr (ps, v\<lparr>last_used_idx := last_used_idx v + 1\<rparr>))))"

lemma complete_used_idx: "complete_used d v = Inr (ps, v') \<Longrightarrow> last_used_idx v' = last_used_idx v + 1 \<and> used_idx v' = used_idx v"
  by (auto simp: complete_used_def set_info_def set_buf_def rbind_eq_Inr_conv Let_def split: if_splits option.splits)

function virtio_intr_loop :: "virtio_disk \<Rightarrow> nat list \<Rightarrow> (nat list \<times> virtio_disk) res" where
  "virtio_intr_loop v ps =
     (if last_used_idx v \<noteq> used_idx v
      then (case complete_used (used_ring v (unat (last_used_idx v) mod NQUEUE)) v of
              Inl e \<Rightarrow> Inl e | Inr (ps', v) \<Rightarrow> virtio_intr_loop v (ps @ ps'))
      else Inr (ps, v))"
  by pat_completeness auto
termination
proof (relation "measure (\<lambda>(v, ps). unat (used_idx v - last_used_idx v))", goal_cases)
  case (2 v ps x ps' v')
  then have "last_used_idx v' = last_used_idx v + 1" "used_idx v' = used_idx v" using complete_used_idx by (metis)+
  moreover have "unat (x - 1) < unat x" if "x \<noteq> 0" for x :: "16 word"
    using that unat_gt_0 [of x] by (simp add: unat_minus_one)
  ultimately show ?case using 2(1) by (simp add: diff_diff_add [symmetric] del: diff_diff_add)
qed auto

declare virtio_intr_loop.simps [simp del]

definition virtio_blk_intr :: "32 word \<Rightarrow> virtio_disk \<Rightarrow> (nat list \<times> virtio_disk) res" where
  "virtio_blk_intr intr_status v =
     rbind (acquire_spinlock (lk v)) (\<lambda>l.
     let v = REG_write INTERRUPT_ACK (intr_status AND 3) (v\<lparr>lk := l\<rparr>)
     in rbind (virtio_intr_loop v []) (\<lambda>(ps, v). Inr (ps, v\<lparr>lk := release_spinlock (lk v)\<rparr>)))"

section \<open>Initialisation\<close>

abbreviation (input) VIRTIO_MAGIC :: "32 word" where "VIRTIO_MAGIC \<equiv> 0x74726976"
abbreviation (input) DEV_STATUS_ACKNOWLEDGE :: "32 word" where "DEV_STATUS_ACKNOWLEDGE \<equiv> 1"
abbreviation (input) DEV_STATUS_DRIVER :: "32 word" where "DEV_STATUS_DRIVER \<equiv> 2"
abbreviation (input) DEV_STATUS_DRIVER_OK :: "32 word" where "DEV_STATUS_DRIVER_OK \<equiv> 4"
abbreviation (input) DEV_STATUS_FEATURES_OK :: "32 word" where "DEV_STATUS_FEATURES_OK \<equiv> 8"
abbreviation (input) KERNEL_BASE :: "64 word" where "KERNEL_BASE \<equiv> 0xFFFF000000000000"

definition V2P :: "64 word \<Rightarrow> 64 word" where
  "V2P v = v - KERNEL_BASE"

definition LO :: "64 word \<Rightarrow> 32 word" where
  "LO addr = ucast (addr AND 0xFFFFFFFF)"

definition HI :: "64 word \<Rightarrow> 32 word" where
  "HI addr = ucast (drop_bit 32 addr AND 0xFFFFFFFF)"

text \<open>The bits cleared one after the other: \<^verbatim>\<open>SEG_MAX\<close>, \<^verbatim>\<open>GEOMETRY\<close>, \<^verbatim>\<open>RO\<close>, \<^verbatim>\<open>BLK_SIZE\<close>, \<^verbatim>\<open>FLUSH\<close>, \<^verbatim>\<open>TOPOLOGY\<close>, \<^verbatim>\<open>CONFIG_WCE\<close>, \<^verbatim>\<open>ANY_LAYOUT\<close>,
  \<^verbatim>\<open>INDIRECT_DESC\<close> and \<^verbatim>\<open>EVENT_IDX\<close>.\<close>

definition cleared_features :: "nat list" where
  "cleared_features = [2, 4, 5, 6, 9, 10, 11, 27, 28, 29]"

definition negotiate :: "32 word \<Rightarrow> 32 word" where
  "negotiate features = fold (\<lambda>n f. f AND NOT (push_bit n 1)) cleared_features features"

definition zero_virtq_desc :: virtq_desc where
  "zero_virtq_desc = \<lparr>daddr = Unset, dlen = 0, dflags = 0, dnext = 0\<rparr>"

text \<open>
  \<^verbatim>\<open>virtq_init\<close> with the results of its three page allocations. The pages are cleared before the test for null pointers, so a failed allocation is a \<open>Fault\<close> and never
  reaches the \<^verbatim>\<open>PANIC\<close>.
\<close>

definition virtq_init :: "64 word option \<Rightarrow> 64 word option \<Rightarrow> 64 word option \<Rightarrow> virtio_disk \<Rightarrow> virtio_disk res" where
  "virtq_init pdesc pavail pused v =
     (if pdesc = None \<or> pavail = None \<or> pused = None then Inl Fault
      else let v = v\<lparr>desc := (\<lambda>_. zero_virtq_desc), avail_idx := 0, avail_ring := (\<lambda>_. 0), used_idx := 0, used_ring := (\<lambda>_. 0),
                     free_head := 0, nfree := 0, last_used_idx := 0, info := (\<lambda>_. \<lparr>istatus = 0, idone = 0, ibuf = None\<rparr>)\<rparr>
           in Inr (desc_init (v\<lparr>nfree := NQUEUE\<rparr>)))"

definition virtio_init :: "(reg \<Rightarrow> 32 word) \<Rightarrow> 64 word option \<Rightarrow> 64 word option \<Rightarrow> 64 word option \<Rightarrow> handlers \<Rightarrow> virtio_disk \<Rightarrow> (handlers \<times> virtio_disk) res" where
  "virtio_init REG pdesc pavail pused int_handler v =
     (if REG MAGICVALUE \<noteq> VIRTIO_MAGIC \<or> REG VERSION \<noteq> 2 \<or> REG DEVICE_ID \<noteq> 2 then Inl Panic
      else
      let v = REG_write STATUS 0 v;
          status = DEV_STATUS_ACKNOWLEDGE;
          v = REG_write STATUS status v;
          status = status OR DEV_STATUS_DRIVER;
          v = REG_write STATUS status v;
          v = REG_write DEVICE_FEATURES_SEL 0 v;
          v = REG_write DRIVER_FEATURES_SEL 0 v;
          v = REG_write DRIVER_FEATURES (negotiate (REG DEVICE_FEATURES)) v;
          status = status OR DEV_STATUS_FEATURES_OK;
          v = REG_write STATUS status v;
          status = REG STATUS
      in if status AND DEV_STATUS_FEATURES_OK = 0 then Inl Panic
         else rbind (virtq_init pdesc pavail pused v) (\<lambda>v.
           if sint (REG QUEUE_NUM_MAX) < int NQUEUE then Inl Panic
           else let v = REG_write QUEUE_SEL 0 v;
                    v = REG_write QUEUE_NUM 16 v;
                    v = REG_write QUEUE_DESC_LOW (LO (V2P (the pdesc))) v;
                    v = REG_write QUEUE_DESC_HIGH (HI (V2P (the pdesc))) v;
                    v = REG_write QUEUE_DRIVER_LOW (LO (V2P (the pavail))) v;
                    v = REG_write QUEUE_DRIVER_HIGH (HI (V2P (the pavail))) v;
                    v = REG_write QUEUE_DEVICE_LOW (LO (V2P (the pused))) v;
                    v = REG_write QUEUE_DEVICE_HIGH (HI (V2P (the pused))) v;
                    v = REG_write QUEUE_READY 1 v;
                    status = status OR DEV_STATUS_DRIVER_OK;
                    v = REG_write STATUS status v
                in Inr (set_interrupt_handler VIRTIO_BLK_IRQ Virtio_blk_intr int_handler, v\<lparr>lk := init_spinlock (lk v)\<rparr>)))"

text \<open>A disk whose registers answer as the driver expects.\<close>

definition demo_reg :: "reg \<Rightarrow> 32 word" where
  "demo_reg r = (case r of MAGICVALUE \<Rightarrow> VIRTIO_MAGIC | VERSION \<Rightarrow> 2 | DEVICE_ID \<Rightarrow> 2 | STATUS \<Rightarrow> 11 | QUEUE_NUM_MAX \<Rightarrow> 1024 | _ \<Rightarrow> 0)"

definition demo_disk :: virtio_disk where
  "demo_disk = \<lparr>lk = \<lparr>locked = False\<rparr>, desc = (\<lambda>_. zero_virtq_desc), avail_idx = 0, avail_ring = (\<lambda>_. 0), used_idx = 0, used_ring = (\<lambda>_. 0),
     free_head = 0, nfree = 0, last_used_idx = 0, info = (\<lambda>_. \<lparr>istatus = 0, idone = 0, ibuf = None\<rparr>),
     bufs = (\<lambda>_. \<lparr>bflags = 0, bdata = [], bno = 0, bsem = init_sem 0\<rparr>), hdrs = (\<lambda>_. \<lparr>htype = 0, hreserved = 0, hsector = 0\<rparr>),
     dwaits = (\<lambda>_. \<lparr>up = False, wproc = 0\<rparr>), mmio = []\<rparr>"

lemma demo_init: "\<exists>ih v. virtio_init demo_reg (Some 1) (Some 2) (Some 3) h demo_disk = Inr (ih, v)"
  by (simp add: virtio_init_def virtq_init_def demo_reg_def Let_def)

end
