(* ===== verification/Virtio_Queue.thy ===== *)
theory Virtio_Queue
  imports Virtio
begin

unbundle bit_operations_syntax

text \<open>
  The driver and the device over all interleavings of requests (\<^verbatim>\<open>driver/virtio_blk.c\<close>).

  Callers start requests, the device serves requests it was given in any order, the interrupt handler runs whenever the lock is free, and woken callers finish. The
  invariant is about ownership: every descriptor is on the free list or belongs to exactly one request, a request's three descriptors describe its own buffer,
  and each request is with the device, on the used ring, or posted.

  The device is the one the specification of virtio describes: it takes the heads of descriptor chains from the available ring, follows the chain to the header, the
  data and the status byte, transfers the sector, stores status 0 and puts the head on the used ring once.
\<close>

section \<open>The free list\<close>

text \<open>The free descriptors in the order of their links. Only \<^verbatim>\<open>nfree\<close> ends the list: the link of its last element means nothing.\<close>

fun flist :: "(nat \<Rightarrow> virtq_desc) \<Rightarrow> nat \<Rightarrow> nat list \<Rightarrow> bool" where
  "flist dm h [] = True"
| "flist dm h (x # xs) = (x = h \<and> (xs = [] \<or> has_next (dm x) \<and> flist dm (dnext (dm x)) xs))"

lemma flist_cong: "(\<And>x. x \<in> set xs \<Longrightarrow> dm' x = dm x) \<Longrightarrow> flist dm' h xs = flist dm h xs"
  by (induction xs arbitrary: h) auto

lemma flist_upd [simp]: "x \<notin> set xs \<Longrightarrow> flist (dm(x := d)) h xs = flist dm h xs"
  by (intro flist_cong) auto

lemma alloc_desc_flist:
  assumes "flist (desc v) (free_head v) (x # xs)" "nfree v = Suc (length xs)" "x < NQUEUE"
  obtains h where "alloc_desc v = Inr (x, v\<lparr>free_head := h, nfree := length xs\<rparr>)" "flist (desc v) h xs"
proof (cases "has_next (desc v x)")
  case True
  then show ?thesis using that [of "dnext (desc v x)"] assms by (cases xs) (auto simp: alloc_desc_def Let_def)
next
  case False
  then have "xs = []" "free_head v = x" using assms(1) by auto
  then show ?thesis using that [of x] False assms(2,3) by (simp add: alloc_desc_def)
qed

lemma has_next_flags [simp]:
  "dflags d = 1 \<Longrightarrow> has_next d" "dflags d = 3 \<Longrightarrow> has_next d" "dflags d = 2 \<Longrightarrow> \<not> has_next d"
  by (simp_all add: has_next_def)

lemma desc_all_fields [simp]:
  "(d :: virtq_desc)\<lparr>daddr := a, dlen := l, dflags := f, dnext := n\<rparr> = \<lparr>daddr = a, dlen = l, dflags = f, dnext = n\<rparr>"
  by (cases d) simp

text \<open>The three descriptors of a request.\<close>

definition hdr_desc :: "nat \<Rightarrow> nat \<Rightarrow> virtq_desc" where
  "hdr_desc b d1 = \<lparr>daddr = Hdr_addr b, dlen = 16, dflags = 1, dnext = d1\<rparr>"

definition data_desc :: "nat \<Rightarrow> bool \<Rightarrow> nat \<Rightarrow> virtq_desc" where
  "data_desc b write d2 = \<lparr>daddr = Data_addr b, dlen = 512, dflags = (if write then 1 else 3), dnext = d2\<rparr>"

definition status_desc :: "nat \<Rightarrow> virtq_desc" where
  "status_desc d0 = \<lparr>daddr = Status_addr d0, dlen = 1, dflags = 2, dnext = 0\<rparr>"

lemma queue_request_ok:
  assumes f: "flist (desc v) (free_head v) (x0 # x1 # x2 # ys)" and n: "nfree v = length (x0 # x1 # x2 # ys)"
    and d: "distinct (x0 # x1 # x2 # ys)" and lt: "x0 < NQUEUE" "x1 < NQUEUE" "x2 < NQUEUE"
  obtains h where "queue_request b write v = Inr (x0, v\<lparr>free_head := h, nfree := length ys,
      desc := (desc v)(x0 := hdr_desc b x1, x1 := data_desc b write x2, x2 := status_desc x0),
      avail_ring := (avail_ring v)(unat (avail_idx v) mod NQUEUE := x0), avail_idx := avail_idx v + 1,
      info := (info v)(x0 := (info v x0)\<lparr>ibuf := Some b\<rparr>), mmio := mmio v @ [(QUEUE_NOTIFY, 0)]\<rparr>)" "flist (desc v) h ys"
proof -
  from alloc_desc_flist [OF f _ lt(1)] n obtain h0 where
    0: "alloc_desc v = Inr (x0, v\<lparr>free_head := h0, nfree := length (x1 # x2 # ys)\<rparr>)" "flist (desc v) h0 (x1 # x2 # ys)" by auto
  let ?d0 = "(desc v x0)\<lparr>daddr := Hdr_addr b, dlen := 16, dflags := 1\<rparr>"
  let ?v1 = "v\<lparr>free_head := h0, nfree := length (x1 # x2 # ys), desc := (desc v)(x0 := ?d0)\<rparr>"
  have "flist (desc ?v1) (free_head ?v1) (x1 # x2 # ys)" using 0(2) d by (auto simp del: flist.simps)
  from alloc_desc_flist [OF this _ lt(2)] obtain h1 where
    1: "alloc_desc ?v1 = Inr (x1, ?v1\<lparr>free_head := h1, nfree := length (x2 # ys)\<rparr>)" "flist (desc ?v1) h1 (x2 # ys)" by auto
  let ?v2 = "?v1\<lparr>free_head := h1, nfree := length (x2 # ys),
    desc := (desc v)(x0 := hdr_desc b x1, x1 := (desc v x1)\<lparr>daddr := Data_addr b, dlen := 512, dflags := (if write then 1 else 3)\<rparr>)\<rparr>"
  have "flist (desc ?v2) (free_head ?v2) (x2 # ys)" using 1(2) d by (auto simp del: flist.simps)
  from alloc_desc_flist [OF this _ lt(3)] obtain h2 where
    2: "alloc_desc ?v2 = Inr (x2, ?v2\<lparr>free_head := h2, nfree := length ys\<rparr>)" "flist (desc ?v2) h2 ys" by auto
  have "flist (desc v) h2 ys" using 2(2) d by (auto simp del: flist.simps)
  moreover have "queue_request b write v = Inr (x0, v\<lparr>free_head := h2, nfree := length ys,
      desc := (desc v)(x0 := hdr_desc b x1, x1 := data_desc b write x2, x2 := status_desc x0),
      avail_ring := (avail_ring v)(unat (avail_idx v) mod NQUEUE := x0), avail_idx := avail_idx v + 1,
      info := (info v)(x0 := (info v x0)\<lparr>ibuf := Some b\<rparr>), mmio := mmio v @ [(QUEUE_NOTIFY, 0)]\<rparr>)"
    using 0(1) 1(1) 2(1) d
    by (cases "write")
      (simp_all add: queue_request_def Let_def set_desc_def set_info_def REG_write_def hdr_desc_def data_desc_def status_desc_def fun_upd_twist)
  ultimately show ?thesis using that by blast
qed

text \<open>The semaphore of a request while its caller sleeps, and after the post.\<close>

definition asleep_sem :: "nat \<Rightarrow> Semaphore" where
  "asleep_sem w = \<lparr>sem_lock = \<lparr>locked = False\<rparr>, sval = -1, sleeplist = [w]\<rparr>"

lemma rw_start_ok:
  assumes f: "flist (desc v) (free_head v) (x0 # x1 # x2 # ys)" and n: "nfree v = length (x0 # x1 # x2 # ys)"
    and d: "distinct (x0 # x1 # x2 # ys)" and lt: "x0 < NQUEUE" "x1 < NQUEUE" "x2 < NQUEUE" and l: "\<not> locked (lk v)"
    and wr_def: "wr = (bflags (bufs v b) AND B_DIRTY \<noteq> 0)"
  obtains v' where "rw_start b w p v = Inr ((x0, Some w), v')" "flist (desc v) (free_head v') ys" "\<not> locked (lk v')" "nfree v' = length ys"
    "desc v' = (desc v)(x0 := hdr_desc b x1, x1 := data_desc b wr x2, x2 := status_desc x0)"
    "avail_ring v' = (avail_ring v)(unat (avail_idx v) mod NQUEUE := x0)" "info v' = (info v)(x0 := (info v x0)\<lparr>ibuf := Some b\<rparr>)"
    "bufs v' = (bufs v)(b := (bufs v b)\<lparr>bsem := asleep_sem w\<rparr>)"
    "hdrs v' = (hdrs v)(b := \<lparr>htype = (if wr then 1 else 0), hreserved = 0, hsector = bno (bufs v b)\<rparr>)"
    "dwaits v' = (dwaits v)(w := \<lparr>up = False, wproc = p\<rparr>)" "used_idx v' = used_idx v" "last_used_idx v' = last_used_idx v" "used_ring v' = used_ring v"
proof -
  let ?v = "v\<lparr>bufs := (bufs v)(b := (bufs v b)\<lparr>bsem := init_sem 0\<rparr>),
      hdrs := (hdrs v)(b := \<lparr>htype = (if wr then 1 else 0), hreserved = 0, hsector = bno (bufs v b)\<rparr>), lk := (lk v)\<lparr>locked := True\<rparr>\<rparr>"
  from queue_request_ok [of ?v x0 x1 x2 ys b wr] f n d lt obtain h where
    q: "queue_request b wr ?v = Inr (x0, ?v\<lparr>free_head := h, nfree := length ys,
      desc := (desc v)(x0 := hdr_desc b x1, x1 := data_desc b wr x2, x2 := status_desc x0),
      avail_ring := (avail_ring v)(unat (avail_idx v) mod NQUEUE := x0), avail_idx := avail_idx v + 1,
      info := (info v)(x0 := (info v x0)\<lparr>ibuf := Some b\<rparr>), mmio := mmio v @ [(QUEUE_NOTIFY, 0)]\<rparr>)" "flist (desc v) h ys" by auto
  have i: "lock_sem (init_sem 0) = Inr \<lparr>sem_lock = \<lparr>locked = True\<rparr>, sval = 0, sleeplist = []\<rparr>"
    by (simp add: lock_sem_def init_sem_def)
  have st: "rw_start b w p v = rbind (queue_request b wr ?v) (\<lambda>(d0, v).
         rbind (lock_sem (bsem (bufs v b))) (\<lambda>sem.
         let v = v\<lparr>lk := release_spinlock (lk v)\<rparr>;
             ((sem, wd), slept) = wait_sem_enter w p (sem, dwaits v)
         in Inr ((d0, slept), set_buf b (\<lambda>x. x\<lparr>bsem := sem\<rparr>) (v\<lparr>dwaits := wd\<rparr>))))"
    using l by (simp add: rw_start_def wr_def set_buf_def Let_def)
  let ?u = "?v\<lparr>free_head := h, nfree := length ys,
      desc := (desc v)(x0 := hdr_desc b x1, x1 := data_desc b wr x2, x2 := status_desc x0),
      avail_ring := (avail_ring v)(unat (avail_idx v) mod NQUEUE := x0), avail_idx := avail_idx v + 1,
      info := (info v)(x0 := (info v x0)\<lparr>ibuf := Some b\<rparr>), mmio := mmio v @ [(QUEUE_NOTIFY, 0)]\<rparr>"
  let ?V = "?u\<lparr>lk := (lk v)\<lparr>locked := False\<rparr>, dwaits := (dwaits v)(w := \<lparr>up = False, wproc = p\<rparr>),
      bufs := (bufs v)(b := (bufs v b)\<lparr>bsem := asleep_sem w\<rparr>)\<rparr>"
  have "rw_start b w p v = Inr ((x0, Some w), ?V)"
    unfolding st q(1) by (simp add: i wait_sem_enter_def Let_def unlock_sem_def release_spinlock_eq set_buf_def asleep_sem_def)
  then show ?thesis using that [of ?V] q(2) by simp
qed

lemma free_desc_ok:
  assumes f: "flist (desc v) (free_head v) fl" "length fl = nfree v" "set fl \<subseteq> {..<NQUEUE}" "distinct (d0 # d1 # d2 # fl)"
    and c: "desc v d0 = hdr_desc b d1" "desc v d1 = data_desc b wr d2" "desc v d2 = status_desc d0" "d0 < NQUEUE" "d1 < NQUEUE" "d2 < NQUEUE"
  obtains x where "free_desc d0 v = Inr (v\<lparr>desc := (desc v)(d2 := x), free_head := d0, nfree := length (d0 # d1 # d2 # fl)\<rparr>)"
    "flist ((desc v)(d2 := x)) d0 (d0 # d1 # d2 # fl)"
proof -
  have "length fl \<le> card {..<NQUEUE}" using f(3,4) by (metis card_mono distinct.simps(2) distinct_card finite_lessThan)
  then have n: "nfree v \<le> 16" using f(2) by simp
  have nx: "has_next (hdr_desc b d1)" "has_next (data_desc b wr d2)" "\<not> has_next (status_desc d0)"
    "dnext (hdr_desc b d1) = d1" "dnext (data_desc b wr d2) = d2"
    by (simp_all add: hdr_desc_def data_desc_def status_desc_def)
  let ?x = "if nfree v = 0 then (desc v d2)\<lparr>dflags := 1\<rparr> else (desc v d2)\<lparr>dflags := 1, dnext := free_head v\<rparr>"
  have "free_walk (Suc (Suc (Suc k))) d0 v = Inr (d2, v\<lparr>nfree := nfree v + 3\<rparr>)" for k
    using c nx n by (simp add: Let_def)
  from this [of 13] have "free_walk NQUEUE d0 v = Inr (d2, v\<lparr>nfree := nfree v + 3\<rparr>)" by simp
  then have "free_desc d0 v = Inr (v\<lparr>desc := (desc v)(d2 := ?x), free_head := d0, nfree := length (d0 # d1 # d2 # fl)\<rparr>)"
    using f(2) by (simp add: free_desc_def Let_def set_desc_def)
  moreover have "has_next ?x" by simp
  moreover have "fl = [] \<or> dnext ?x = free_head v" using f(2) by auto
  then have "flist ((desc v)(d2 := ?x)) d0 (d0 # d1 # d2 # fl)"
    using c nx f(1,4) calculation(2) by auto
  ultimately show ?thesis using that by blast
qed

section \<open>The system\<close>

record chain =
  c0 :: nat
  c1 :: nat
  c2 :: nat
  cw :: nat

text \<open>\<open>pend\<close> are the heads the device was given and has not served, \<open>usedq\<close> those on the used ring that the driver has not seen, \<open>media\<close> the sectors.\<close>

record vsys =
  drv :: virtio_disk
  reqs :: "nat \<rightharpoonup> chain"
  pend :: "nat list"
  usedq :: "nat list"
  media :: "nat \<Rightarrow> byte list"

definition owned :: "chain \<Rightarrow> nat set" where
  "owned r = {c0 r, c1 r, c2 r}"

definition chain_ok :: "virtio_disk \<Rightarrow> nat \<Rightarrow> chain \<Rightarrow> bool" where
  "chain_ok v b r \<longleftrightarrow> distinct [c0 r, c1 r, c2 r] \<and> owned r \<subseteq> {..<NQUEUE} \<and> hsector (hdrs v b) = bno (bufs v b)
     \<and> htype (hdrs v b) = (if bflags (bufs v b) AND B_DIRTY \<noteq> 0 then 1 else 0)
     \<and> desc v (c0 r) = hdr_desc b (c1 r) \<and> desc v (c1 r) = data_desc b (bflags (bufs v b) AND B_DIRTY \<noteq> 0) (c2 r) \<and> desc v (c2 r) = status_desc (c0 r)"

text \<open>
  The device is a parameter: a function of the head it serves, the memory it shares with the driver and the sectors. Of the chains a driver builds the specification of
  virtio says what happens: the sector named in the header is written from the buffer or read into it, the status byte becomes 0, and the head goes to the used ring.
  Nothing is assumed of malformed chains.
\<close>

type_synonym device = "nat \<Rightarrow> virtio_disk \<Rightarrow> (nat \<Rightarrow> byte list) \<Rightarrow> (virtio_disk \<times> (nat \<Rightarrow> byte list)) option"

definition served :: "nat \<Rightarrow> chain \<Rightarrow> virtio_disk \<Rightarrow> (nat \<Rightarrow> byte list) \<Rightarrow> virtio_disk \<times> (nat \<Rightarrow> byte list)" where
  "served b r v m =
     (let (v, m) = (if bflags (bufs v b) AND B_DIRTY \<noteq> 0 then (v, m(bno (bufs v b) := bdata (bufs v b)))
                    else (set_buf b (\<lambda>x. x\<lparr>bdata := m (bno (bufs v b))\<rparr>) v, m));
          v = set_info (c0 r) (\<lambda>i. i\<lparr>istatus := 0\<rparr>) v
      in (v\<lparr>used_ring := (used_ring v)(unat (used_idx v) mod NQUEUE := c0 r), used_idx := used_idx v + 1\<rparr>, m))"

definition device_spec :: "device \<Rightarrow> bool" where
  "device_spec dev \<longleftrightarrow> (\<forall>v b r m. chain_ok v b r \<longrightarrow> dev (c0 r) v m = Some (served b r v m))"

text \<open>A device that follows the chain in memory and meets the specification.\<close>

definition serve :: "nat \<Rightarrow> virtio_disk \<Rightarrow> (nat \<Rightarrow> byte list) \<Rightarrow> (virtio_disk \<times> (nat \<Rightarrow> byte list)) option" where
  "serve d v m =
     (let d1 = desc v (dnext (desc v d)); d2 = desc v (dnext d1)
      in case (daddr (desc v d), daddr d1, daddr d2) of
           (Hdr_addr b, Data_addr b', Status_addr e) \<Rightarrow>
             let n = hsector (hdrs v b);
                 (v, m) = (if htype (hdrs v b) = VIRTIO_BLK_T_OUT then (v, m(n := bdata (bufs v b')))
                           else (set_buf b' (\<lambda>x. x\<lparr>bdata := m n\<rparr>) v, m));
                 v = set_info e (\<lambda>i. i\<lparr>istatus := 0\<rparr>) v
             in Some (v\<lparr>used_ring := (used_ring v)(unat (used_idx v) mod NQUEUE := d), used_idx := used_idx v + 1\<rparr>, m)
         | _ \<Rightarrow> None)"

lemma serve_spec: "device_spec serve"
  unfolding device_spec_def served_def
  by (auto simp: serve_def chain_ok_def hdr_desc_def data_desc_def status_desc_def Let_def)

text \<open>Requests start, are served, are completed by the interrupt handler and resume in any order.\<close>

inductive vstep :: "device \<Rightarrow> vsys \<Rightarrow> vsys \<Rightarrow> bool" for dev where
  submit: "reqs S b = None \<Longrightarrow> (\<forall>b' r. reqs S b' = Some r \<longrightarrow> cw r \<noteq> w) \<Longrightarrow>
     rw_start b w p (set_buf b (\<lambda>_. x) (drv S)) = Inr ((d0, Some w), v) \<Longrightarrow>
     vstep dev S (S\<lparr>drv := v, reqs := (reqs S)(b \<mapsto> \<lparr>c0 = d0, c1 = dnext (desc v d0), c2 = dnext (desc v (dnext (desc v d0))), cw = w\<rparr>),
       pend := pend S @ [avail_ring v (unat (avail_idx (drv S)) mod NQUEUE)]\<rparr>)"
| device: "d \<in> set (pend S) \<Longrightarrow> dev d (drv S) (media S) = Some (v, m) \<Longrightarrow>
     vstep dev S (S\<lparr>drv := v, media := m, pend := remove1 d (pend S), usedq := usedq S @ [d]\<rparr>)"
| interrupt: "virtio_blk_intr st (drv S) = Inr (ps, v) \<Longrightarrow> vstep dev S (S\<lparr>drv := v, usedq := []\<rparr>)"
| resume: "reqs S b = Some r \<Longrightarrow> up (dwaits (drv S) (cw r)) \<Longrightarrow> rw_resume b (c0 r) (cw r) (drv S) = Inr v \<Longrightarrow>
     vstep dev S (S\<lparr>drv := v, reqs := (reqs S)(b := None)\<rparr>)"

inductive vreachable :: "device \<Rightarrow> vsys \<Rightarrow> vsys \<Rightarrow> bool" for dev S0 where
  start: "vreachable dev S0 S0"
| step: "vreachable dev S0 S \<Longrightarrow> vstep dev S T \<Longrightarrow> vreachable dev S0 T"

definition waiting :: "virtio_disk \<Rightarrow> nat \<Rightarrow> chain \<Rightarrow> bool" where
  "waiting v b r \<longleftrightarrow> ibuf (info v (c0 r)) = Some b \<and> bsem (bufs v b) = asleep_sem (cw r) \<and> \<not> up (dwaits v (cw r))"

definition woken :: "virtio_disk \<Rightarrow> nat \<Rightarrow> chain \<Rightarrow> bool" where
  "woken v b r \<longleftrightarrow> bsem (bufs v b) = init_sem 0 \<and> up (dwaits v (cw r))"

definition free_ok :: "vsys \<Rightarrow> bool" where
  "free_ok S \<longleftrightarrow> (\<exists>fl. flist (desc (drv S)) (free_head (drv S)) fl \<and> length fl = nfree (drv S) \<and> distinct fl
     \<and> set fl = {..<NQUEUE} - (\<Union>r\<in>ran (reqs S). owned r))"

definition reqs_ok :: "vsys \<Rightarrow> bool" where
  "reqs_ok S \<longleftrightarrow> (\<forall>b r. reqs S b = Some r \<longrightarrow> chain_ok (drv S) b r
       \<and> (if c0 r \<in> set (pend S) \<union> set (usedq S) then waiting (drv S) b r else woken (drv S) b r)
       \<and> (c0 r \<in> set (usedq S) \<longrightarrow> istatus (info (drv S) (c0 r)) = 0))
     \<and> (\<forall>b r b' r'. reqs S b = Some r \<and> reqs S b' = Some r' \<and> b \<noteq> b' \<longrightarrow> owned r \<inter> owned r' = {} \<and> cw r \<noteq> cw r')"

definition rings_ok :: "vsys \<Rightarrow> bool" where
  "rings_ok S \<longleftrightarrow> distinct (pend S @ usedq S) \<and> set (pend S) \<union> set (usedq S) \<subseteq> c0 ` ran (reqs S)
     \<and> used_idx (drv S) = last_used_idx (drv S) + of_nat (length (usedq S))
     \<and> (\<forall>i<length (usedq S). used_ring (drv S) ((unat (last_used_idx (drv S)) + i) mod NQUEUE) = usedq S ! i)"

definition qinv :: "vsys \<Rightarrow> bool" where
  "qinv S \<longleftrightarrow> free_ok S \<and> reqs_ok S \<and> rings_ok S"

lemmas qinv_defs = qinv_def free_ok_def reqs_ok_def rings_ok_def chain_ok_def waiting_def woken_def

lemma qinv_irrelevant [simp]:
  "qinv (S\<lparr>drv := v\<lparr>lk := l\<rparr>\<rparr>) = qinv (S\<lparr>drv := v\<rparr>)" "qinv (S\<lparr>drv := v\<lparr>mmio := m\<rparr>\<rparr>) = qinv (S\<lparr>drv := v\<rparr>)"
  "qinv (S\<lparr>media := md\<rparr>) = qinv S" "qinv (S\<lparr>drv := v\<lparr>lk := l\<rparr>, usedq := u\<rparr>) = qinv (S\<lparr>drv := v, usedq := u\<rparr>)"
  "qinv (S\<lparr>drv := v\<lparr>lk := l\<rparr>, reqs := q\<rparr>) = qinv (S\<lparr>drv := v, reqs := q\<rparr>)"
  by (simp_all add: qinv_defs)

section \<open>Starting a request\<close>

lemma alloc_desc_empty: "nfree v = 0 \<Longrightarrow> alloc_desc v = Inl Panic"
  by (simp add: alloc_desc_def)

lemma nfree_set_desc [simp]: "nfree (set_desc d f v) = nfree v"
  by (simp add: set_desc_def)

lemma queue_request_full:
  assumes "flist (desc v) (free_head v) fl" "length fl = nfree v" "distinct fl" "set fl \<subseteq> {..<NQUEUE}" "length fl < 3"
  shows "queue_request b wr v = Inl Panic"
proof -
  consider "fl = []" | x where "fl = [x]" | x y where "fl = [x, y]" using assms(5) by (auto simp: less_Suc_eq numeral_3_eq_3 length_Suc_conv)
  then show ?thesis
  proof cases
    case 1
    then show ?thesis using assms(2) by (simp add: queue_request_def alloc_desc_empty)
  next
    case (2 x)
    then have "free_head v = x" "nfree v = 1" "x < NQUEUE" using assms by auto
    then show ?thesis by (simp add: queue_request_def set_desc_def alloc_desc_def Let_def)
  next
    case (3 x y)
    then have "free_head v = x" "has_next (desc v x)" "dnext (desc v x) = y" "nfree v = 2" "x < NQUEUE" "y < NQUEUE" "x \<noteq> y" using assms by auto
    then have 1: "alloc_desc v = Inr (x, v\<lparr>free_head := y, nfree := 1\<rparr>)" by (simp add: alloc_desc_def)
    let ?v = "set_desc x (\<lambda>d. d\<lparr>daddr := Hdr_addr b, dlen := 16, dflags := 1\<rparr>) (v\<lparr>free_head := y, nfree := 1\<rparr>)"
    obtain u where "alloc_desc ?v = Inr (y, u)" "nfree u = 0"
      using \<open>y < NQUEUE\<close> by (auto simp: alloc_desc_def set_desc_def Let_def)
    then show ?thesis using 1 by (simp add: queue_request_def Let_def alloc_desc_empty)
  qed
qed

lemma rw_start_full:
  assumes "flist (desc v) (free_head v) fl" "length fl = nfree v" "distinct fl" "set fl \<subseteq> {..<NQUEUE}" "length fl < 3" "\<not> locked (lk v)"
  shows "rw_start b w p v = Inl Panic"
proof -
  have "queue_request b wr (v\<lparr>bufs := x, hdrs := y, lk := l\<rparr>) = Inl Panic" for wr x y l
    using assms(1-5) by (intro queue_request_full [where fl = fl]) simp_all
  then show ?thesis using assms(6) by (simp add: rw_start_def set_buf_def Let_def)
qed

lemma set_buf_fields [simp]:
  "desc (set_buf b f v) = desc v" "free_head (set_buf b f v) = free_head v" "nfree (set_buf b f v) = nfree v" "lk (set_buf b f v) = lk v"
  "avail_idx (set_buf b f v) = avail_idx v" "avail_ring (set_buf b f v) = avail_ring v" "info (set_buf b f v) = info v" "hdrs (set_buf b f v) = hdrs v"
  "dwaits (set_buf b f v) = dwaits v" "used_idx (set_buf b f v) = used_idx v" "last_used_idx (set_buf b f v) = last_used_idx v" "used_ring (set_buf b f v) = used_ring v"
  "bufs (set_buf b f v) = (bufs v)(b := f (bufs v b))"
  by (simp_all add: set_buf_def)

lemma reqs_okD:
  assumes "reqs_ok S" "reqs S b = Some r"
  shows "chain_ok (drv S) b r" "c0 r \<in> set (pend S) \<union> set (usedq S) \<Longrightarrow> waiting (drv S) b r" "c0 r \<notin> set (pend S) \<union> set (usedq S) \<Longrightarrow> woken (drv S) b r"
    "c0 r \<in> set (usedq S) \<Longrightarrow> istatus (info (drv S) (c0 r)) = 0"
    "reqs S b' = Some r' \<Longrightarrow> b \<noteq> b' \<Longrightarrow> owned r \<inter> owned r' = {} \<and> cw r \<noteq> cw r'"
  using assms unfolding reqs_ok_def by (auto split: if_splits)

definition req_ok :: "virtio_disk \<Rightarrow> nat set \<Rightarrow> nat set \<Rightarrow> nat \<Rightarrow> chain \<Rightarrow> bool" where
  "req_ok v P U b r \<longleftrightarrow> chain_ok v b r \<and> (if c0 r \<in> P \<union> U then waiting v b r else woken v b r) \<and> (c0 r \<in> U \<longrightarrow> istatus (info v (c0 r)) = 0)"

lemma reqs_okI:
  assumes "\<And>b r. reqs S b = Some r \<Longrightarrow> req_ok (drv S) (set (pend S)) (set (usedq S)) b r"
    and "\<And>b r b' r'. reqs S b = Some r \<Longrightarrow> reqs S b' = Some r' \<Longrightarrow> b \<noteq> b' \<Longrightarrow> owned r \<inter> owned r' = {} \<and> cw r \<noteq> cw r'"
  shows "reqs_ok S"
  using assms unfolding reqs_ok_def req_ok_def by metis

lemma req_okD: "reqs_ok S \<Longrightarrow> reqs S b = Some r \<Longrightarrow> req_ok (drv S) (set (pend S)) (set (usedq S)) b r"
  by (simp add: reqs_ok_def req_ok_def)

lemma Diff_split: "A = B - U \<Longrightarrow> Y = A - X \<Longrightarrow> V = X \<union> U \<Longrightarrow> Y = B - V"
  by blast

lemma submit_inv:
  assumes inv: "qinv S" and l: "\<not> locked (lk (drv S))" and b: "reqs S b = None" and w: "\<forall>b' r. reqs S b' = Some r \<longrightarrow> cw r \<noteq> w"
    and st: "rw_start b w p (set_buf b (\<lambda>_. x) (drv S)) = Inr ((d0, Some w), v)"
  shows "qinv (S\<lparr>drv := v, reqs := (reqs S)(b \<mapsto> \<lparr>c0 = d0, c1 = dnext (desc v d0), c2 = dnext (desc v (dnext (desc v d0))), cw = w\<rparr>),
       pend := pend S @ [avail_ring v (unat (avail_idx (drv S)) mod NQUEUE)]\<rparr>) \<and> \<not> locked (lk v)"
proof -
  let ?v = "set_buf b (\<lambda>_. x) (drv S)" and ?wr = "bflags x AND B_DIRTY \<noteq> 0"
  obtain fl where fl: "flist (desc (drv S)) (free_head (drv S)) fl" "length fl = nfree (drv S)" "distinct fl"
    "set fl = {..<NQUEUE} - (\<Union>r\<in>ran (reqs S). owned r)" using inv by (auto simp: qinv_def free_ok_def)
  have "\<not> length fl < 3" using rw_start_full [where v = ?v and fl = fl and b = b and w = w and p = p] fl l st by auto
  then have "Suc (Suc (Suc 0)) \<le> length fl" by simp
  then obtain x0 x1 x2 ys where f3: "fl = x0 # x1 # x2 # ys" unfolding Suc_le_length_iff by blast
  have lt: "x0 < NQUEUE" "x1 < NQUEUE" "x2 < NQUEUE" using fl(4) f3 by auto
  have dist: "distinct (x0 # x1 # x2 # ys)" using fl(3) f3 by simp
  have pre: "flist (desc ?v) (free_head ?v) (x0 # x1 # x2 # ys)" "nfree ?v = length (x0 # x1 # x2 # ys)" "\<not> locked (lk ?v)"
    using fl(1,2) f3 l by (simp_all only: set_buf_fields not_False_eq_True)
  obtain v' where v': "rw_start b w p ?v = Inr ((x0, Some w), v')" "flist (desc ?v) (free_head v') ys" "\<not> locked (lk v')" "nfree v' = length ys"
    "desc v' = (desc ?v)(x0 := hdr_desc b x1, x1 := data_desc b (bflags (bufs ?v b) AND B_DIRTY \<noteq> 0) x2, x2 := status_desc x0)"
    "avail_ring v' = (avail_ring ?v)(unat (avail_idx ?v) mod NQUEUE := x0)" "info v' = (info ?v)(x0 := (info ?v x0)\<lparr>ibuf := Some b\<rparr>)"
    "bufs v' = (bufs ?v)(b := (bufs ?v b)\<lparr>bsem := asleep_sem w\<rparr>)"
    "hdrs v' = (hdrs ?v)(b := \<lparr>htype = (if bflags (bufs ?v b) AND B_DIRTY \<noteq> 0 then 1 else 0), hreserved = 0, hsector = bno (bufs ?v b)\<rparr>)"
    "dwaits v' = (dwaits ?v)(w := \<lparr>up = False, wproc = p\<rparr>)" "used_idx v' = used_idx ?v" "last_used_idx v' = last_used_idx ?v" "used_ring v' = used_ring ?v"
    by (rule rw_start_ok [OF pre(1,2) dist lt pre(3) refl, of b w p]) blast
  have e: "v' = v" "d0 = x0" using v'(1) st by simp_all
  note v = e(2) v'(2-) [unfolded e(1) set_buf_fields fun_upd_same fun_upd_upd]
  let ?r = "\<lparr>c0 = x0, c1 = x1, c2 = x2, cw = w\<rparr>"
  have chain: "\<lparr>c0 = d0, c1 = dnext (desc v d0), c2 = dnext (desc v (dnext (desc v d0))), cw = w\<rparr> = ?r"
    using v(1,5) dist by (simp add: hdr_desc_def data_desc_def)
  have hd: "avail_ring v (unat (avail_idx (drv S)) mod NQUEUE) = x0" using v(6) by simp
  have notown: "owned r \<inter> {x0, x1, x2} = {}" if "reqs S b' = Some r" for b' r using fl(4) f3 ranI [of "reqs S", OF that] by auto
  have notq: "x0 \<notin> set (pend S) \<union> set (usedq S)"
  proof
    assume "x0 \<in> set (pend S) \<union> set (usedq S)"
    then obtain b' r where "reqs S b' = Some r" "c0 r = x0" using inv by (force simp: qinv_def rings_ok_def ran_def)
    then show False using notown by (fastforce simp: owned_def)
  qed
  let ?T = "S\<lparr>drv := v, reqs := (reqs S)(b \<mapsto> ?r), pend := pend S @ [x0]\<rparr>"
  have "free_ok ?T"
  proof -
    have y: "set ys = set fl - {x0, x1, x2}" using f3 dist by auto
    have u: "(\<Union>r\<in>ran ((reqs S)(b \<mapsto> ?r)). owned r) = {x0, x1, x2} \<union> (\<Union>r\<in>ran (reqs S). owned r)"
      using b by (simp add: owned_def)
    note Diff_split [OF fl(4) y u]
    moreover have "flist (desc v) (free_head v) ys" using v(2,5) dist by simp
    ultimately show ?thesis using v(4) dist unfolding free_ok_def by (intro exI [of _ ys]) simp
  qed
  moreover have "rings_ok ?T"
  proof -
    have ro: "rings_ok S" using inv by (simp add: qinv_def)
    have "distinct ((pend S @ [x0]) @ usedq S)" using ro notq by (auto simp: rings_ok_def)
    moreover have "set (pend S @ [x0]) \<union> set (usedq S) \<subseteq> c0 ` ran ((reqs S)(b \<mapsto> ?r))"
      using ro b unfolding rings_ok_def by auto
    ultimately show ?thesis using ro v(11-13) unfolding rings_ok_def by simp
  qed
  moreover have "reqs_ok ?T"
  proof -
    have ok: "reqs_ok S" using inv by (simp add: qinv_def)
    have old: "req_ok v (set (pend S @ [x0])) (set (usedq S)) b' r" if r: "reqs S b' = Some r" for b' r
    proof -
      have "b' \<noteq> b" "cw r \<noteq> w" "c0 r \<notin> {x0, x1, x2}" "c1 r \<notin> {x0, x1, x2}" "c2 r \<notin> {x0, x1, x2}"
        using r b w notown [OF r] by (auto simp: owned_def)
      then show ?thesis using req_okD [OF ok r] v by (auto simp: req_ok_def chain_ok_def waiting_def woken_def)
    qed
    have new: "chain_ok v b ?r \<and> waiting v b ?r" using v dist lt by (auto simp: chain_ok_def waiting_def owned_def)
    have "x0 \<notin> set (usedq S)" using notq by blast
    have nw: "owned r \<inter> owned ?r = {} \<and> cw r \<noteq> cw ?r" if "reqs S b' = Some r" for b' r using notown [OF that] w that by (auto simp: owned_def)
    have pair: "owned r \<inter> owned r' = {} \<and> cw r \<noteq> cw r'"
      if "reqs ?T b1 = Some r" "reqs ?T b2 = Some r'" "b1 \<noteq> b2" for b1 b2 r r'
    proof (cases "b1 = b \<or> b2 = b")
      case True
      then show ?thesis using that nw [of b1] nw [of b2] by (auto simp: Int_commute)
    next
      case False
      then show ?thesis using that reqs_okD(5) [OF ok, of b1 r b2 r'] by simp
    qed
    have one: "req_ok v (set (pend S @ [x0])) (set (usedq S)) b' r" if "reqs ?T b' = Some r" for b' r
      using that old [of b' r] new \<open>x0 \<notin> set (usedq S)\<close> by (cases "b' = b") (auto simp: req_ok_def)
    show ?thesis using one by (intro reqs_okI pair) simp
  qed
  ultimately show ?thesis using v(3) unfolding chain hd qinv_def by simp
qed

lemma req_ok_frame:
  assumes "req_ok v P U b r" "\<And>d. d \<in> owned r \<Longrightarrow> desc v' d = desc v d" "hdrs v' b = hdrs v b" "bufs v' b = bufs v b"
    "info v' (c0 r) = info v (c0 r)" "dwaits v' (cw r) = dwaits v (cw r)" "c0 r \<in> P' \<union> U' \<longleftrightarrow> c0 r \<in> P \<union> U" "c0 r \<in> U' \<longleftrightarrow> c0 r \<in> U"
  shows "req_ok v' P' U' b r"
proof -
  have "desc v' (c0 r) = desc v (c0 r)" "desc v' (c1 r) = desc v (c1 r)" "desc v' (c2 r) = desc v (c2 r)" using assms(2) by (simp_all add: owned_def)
  then show ?thesis using assms(1,3-6) unfolding req_ok_def chain_ok_def waiting_def woken_def assms(7,8) by simp
qed

lemma head_owner:
  assumes "qinv S" "d \<in> set (pend S) \<union> set (usedq S)"
  obtains b r where "reqs S b = Some r" "c0 r = d"
proof -
  have "d \<in> c0 ` ran (reqs S)" using assms by (auto simp: qinv_def rings_ok_def)
  then show ?thesis using that by (auto simp: ran_def)
qed

lemma owned_c0 [simp]: "c0 r \<in> owned r"
  by (simp add: owned_def)

section \<open>The device\<close>

lemma unat_ring: "unat (k + of_nat n :: 16 word) mod NQUEUE = (unat k + n) mod NQUEUE"
proof -
  have "(unat k + n) mod 65536 mod 16 = (unat k + n) mod 16" by (rule mod_mod_cancel) simp
  then show ?thesis by (simp add: unat_word_ariths unat_of_nat take_bit_eq_mod mod_add_right_eq)
qed

lemma ring_distinct: "i < n \<Longrightarrow> n < NQUEUE \<Longrightarrow> (k + i) mod NQUEUE \<noteq> (k + n) mod NQUEUE"
proof
  assume i: "i < n" "n < NQUEUE" and e: "(k + i) mod NQUEUE = (k + n) mod NQUEUE"
  then have "NQUEUE dvd (k + n) - (k + i)" by (metis mod_eq_dvd_iff_nat nat_add_left_cancel_le less_imp_le_nat)
  then show False using i by (simp add: nat_dvd_not_less)
qed

lemma ring_next: "(unat (k + 1 :: 16 word) + i) mod NQUEUE = (unat k + Suc i) mod NQUEUE"
proof -
  have "unat (k + 1) mod NQUEUE = (unat k + 1) mod NQUEUE" using unat_ring [of k 1] by simp
  then have "(unat (k + 1) + i) mod NQUEUE = (unat k + 1 + i) mod NQUEUE" by (rule mod_add_cong) (rule refl)
  then show ?thesis by simp
qed

lemma ring_at: "rings_ok S \<Longrightarrow> i < length (usedq S) \<Longrightarrow> used_ring (drv S) ((unat (last_used_idx (drv S)) + i) mod NQUEUE) = usedq S ! i"
  unfolding rings_ok_def by blast

lemma usedq_short:
  assumes "qinv S" "d \<in> set (pend S)"
  shows "length (usedq S) < NQUEUE"
proof -
  have "c0 r < NQUEUE" if "r \<in> ran (reqs S)" for r
    using assms(1) that by (auto simp: qinv_def ran_def chain_ok_def owned_def dest: reqs_okD(1))
  then have sub: "set (pend S) \<union> set (usedq S) \<subseteq> {..<NQUEUE}" using assms(1) by (auto simp: qinv_def rings_ok_def)
  have dis: "distinct (usedq S)" "d \<notin> set (usedq S)" using assms by (auto simp: qinv_def rings_ok_def)
  have "set (usedq S) \<subset> {..<NQUEUE}" using sub dis(2) assms(2) by blast
  then have "card (set (usedq S)) < card {..<NQUEUE}" by (intro psubset_card_mono) simp_all
  then show ?thesis using distinct_card [OF dis(1)] by simp
qed

lemma device_inv:
  assumes inv: "qinv S" and d: "d \<in> set (pend S)" and s: "dev d (drv S) (media S) = Some (v, m)" and dev: "device_spec dev"
  shows "qinv (S\<lparr>drv := v, media := m, pend := remove1 d (pend S), usedq := usedq S @ [d]\<rparr>) \<and> lk v = lk (drv S)"
proof -
  have ok: "reqs_ok S" and ro: "rings_ok S" and fo: "free_ok S" using inv by (auto simp: qinv_def)
  obtain b r where r: "reqs S b = Some r" "c0 r = d" using head_owner [OF inv] d by blast
  note ch = reqs_okD(1) [OF ok r(1)]
  let ?T = "S\<lparr>drv := v, media := m, pend := remove1 d (pend S), usedq := usedq S @ [d]\<rparr>"
  have v: "desc v = desc (drv S)" "hdrs v = hdrs (drv S)" "dwaits v = dwaits (drv S)" "lk v = lk (drv S)" "free_head v = free_head (drv S)" "nfree v = nfree (drv S)"
    "last_used_idx v = last_used_idx (drv S)" "used_idx v = used_idx (drv S) + 1" "used_ring v = (used_ring (drv S))(unat (used_idx (drv S)) mod NQUEUE := d)"
    "info v = (info (drv S))(d := (info (drv S) d)\<lparr>istatus := 0\<rparr>)" "\<And>b'. b' \<noteq> b \<Longrightarrow> bufs v b' = bufs (drv S) b'" "bsem (bufs v b) = bsem (bufs (drv S) b)"
    "bflags (bufs v b) = bflags (bufs (drv S) b)" "bno (bufs v b) = bno (bufs (drv S) b)"
    using s dev [unfolded device_spec_def, rule_format, OF ch, of "media S"] r(2) by (auto simp: served_def Let_def set_info_def split: if_splits)
  have dp: "distinct (pend S)" "d \<notin> set (usedq S)" "distinct (usedq S)" "set (pend S) \<inter> set (usedq S) = {}" using ro d by (auto simp: rings_ok_def)
  have "free_ok ?T" using fo v(1,5,6) by (simp add: free_ok_def)
  moreover have "rings_ok ?T"
  proof -
    have idx: "used_idx v = last_used_idx v + of_nat (length (usedq S @ [d]))" using ro v(7,8) by (simp add: rings_ok_def add.assoc)
    have pos: "unat (used_idx (drv S)) mod NQUEUE = (unat (last_used_idx (drv S)) + length (usedq S)) mod NQUEUE"
      using ro unat_ring [of "last_used_idx (drv S)" "length (usedq S)"] by (simp add: rings_ok_def)
    have "used_ring v ((unat (last_used_idx v) + i) mod NQUEUE) = (usedq S @ [d]) ! i" if i: "i < length (usedq S @ [d])" for i
    proof (cases "i = length (usedq S)")
      case True
      then show ?thesis using v(7,9) pos by simp
    next
      case False
      then have "i < length (usedq S)" using i by simp
      then show ?thesis using ro v(7,9) pos ring_distinct [OF _ usedq_short [OF inv d]] by (simp add: rings_ok_def nth_append)
    qed
    moreover have "distinct (remove1 d (pend S) @ usedq S @ [d])" using dp by auto
    moreover have "set (remove1 d (pend S)) \<union> set (usedq S @ [d]) \<subseteq> c0 ` ran (reqs S)" using ro d dp(1) by (auto simp: rings_ok_def)
    ultimately show ?thesis using idx unfolding rings_ok_def by simp
  qed
  moreover have "reqs_ok ?T"
  proof (rule reqs_okI)
    fix b' r' assume "reqs ?T b' = Some r'"
    then have r': "reqs S b' = Some r'" by simp
    show "req_ok (drv ?T) (set (pend ?T)) (set (usedq ?T)) b' r'"
    proof (cases "b' = b")
      case True
      then have "r' = r" using r r' by simp
      moreover have "waiting (drv S) b r" using reqs_okD(2) [OF ok r(1)] r(2) d by simp
      ultimately show ?thesis using True ch v r(2) by (auto simp: req_ok_def chain_ok_def waiting_def)
    next
      case False
      then have "c0 r' \<noteq> d" using reqs_okD(5) [OF ok r' r(1)] r(2) by (auto simp: owned_def)
      then show ?thesis using False v dp by (intro req_ok_frame [OF req_okD [OF ok r']]) auto
    qed
  qed (use reqs_okD(5) [OF ok] in simp)
  ultimately show ?thesis using v(4) by (simp add: qinv_def)
qed

section \<open>The interrupt handler\<close>

lemma post_asleep: "post_sem (asleep_sem w, wd) = Inr ((init_sem 0, wd(w := (wd w)\<lparr>up := True\<rparr>)), [wproc (wd w)])"
  by (simp add: post_sem_def lock_sem_def asleep_sem_def post_sem_locked_def Let_def unlock_sem_def release_spinlock_eq init_sem_def)

lemma complete_inv:
  assumes inv: "qinv S" and u: "usedq S = d # rest"
  shows "\<exists>ps v. complete_used d (drv S) = Inr (ps, v) \<and> qinv (S\<lparr>drv := v, usedq := rest\<rparr>) \<and> lk v = lk (drv S)"
proof -
  have ok: "reqs_ok S" and ro: "rings_ok S" and fo: "free_ok S" using inv by (auto simp: qinv_def)
  obtain b r where r: "reqs S b = Some r" "c0 r = d" using head_owner [OF inv, of d] u by auto
  have w: "waiting (drv S) b r" "chain_ok (drv S) b r" "istatus (info (drv S) d) = 0" using reqs_okD(1,2,4) [OF ok r(1)] r(2) u by auto
  have d16: "d < NQUEUE" using w(2) r(2) by (auto simp: chain_ok_def owned_def)
  let ?v = "(set_info d (\<lambda>i. i\<lparr>ibuf := None\<rparr>) (set_buf b (\<lambda>x. x\<lparr>bsem := init_sem 0\<rparr>) ((drv S)\<lparr>dwaits := (dwaits (drv S))(cw r := (dwaits (drv S) (cw r))\<lparr>up := True\<rparr>)\<rparr>)))"
  let ?u = "?v\<lparr>last_used_idx := last_used_idx (drv S) + 1\<rparr>"
  have "complete_used d (drv S) = Inr ([wproc (dwaits (drv S) (cw r))], ?u)"
    using w(1,3) d16 r(2) by (simp add: complete_used_def waiting_def post_asleep Let_def set_info_def set_buf_def)
  moreover have u': "desc ?u = desc (drv S)" "hdrs ?u = hdrs (drv S)" "lk ?u = lk (drv S)" "free_head ?u = free_head (drv S)" "nfree ?u = nfree (drv S)"
    "used_idx ?u = used_idx (drv S)" "used_ring ?u = used_ring (drv S)" "last_used_idx ?u = last_used_idx (drv S) + 1"
    "bufs ?u = (bufs (drv S))(b := (bufs (drv S) b)\<lparr>bsem := init_sem 0\<rparr>)" "info ?u = (info (drv S))(d := (info (drv S) d)\<lparr>ibuf := None\<rparr>)"
    "dwaits ?u = (dwaits (drv S))(cw r := (dwaits (drv S) (cw r))\<lparr>up := True\<rparr>)"
    by (simp_all add: set_info_def set_buf_def)
  moreover have "qinv (S\<lparr>drv := ?u, usedq := rest\<rparr>)"
  proof -
    let ?T = "S\<lparr>drv := ?u, usedq := rest\<rparr>"
    have dr: "d \<notin> set rest" "d \<notin> set (pend S)" using ro u by (auto simp: rings_ok_def)
    have "free_ok ?T" using fo u'(1,4,5) by (simp add: free_ok_def)
    moreover have "rings_ok ?T"
    proof -
      have "used_ring (drv S) ((unat (last_used_idx (drv S) + 1) + i) mod NQUEUE) = rest ! i" if "i < length rest" for i
      proof -
        have "(unat (last_used_idx (drv S) + 1) + i) mod NQUEUE = (unat (last_used_idx (drv S)) + Suc i) mod NQUEUE"
          by (rule ring_next)
        moreover have "used_ring (drv S) ((unat (last_used_idx (drv S)) + Suc i) mod NQUEUE) = usedq S ! Suc i"
          by (rule ring_at [OF ro]) (use that u in simp)
        ultimately show ?thesis using u by (simp only: nth_Cons_Suc)
      qed
      then show ?thesis using ro u u'(6-8) unfolding rings_ok_def by simp
    qed
    moreover have "reqs_ok ?T"
    proof (rule reqs_okI)
      fix b' r' assume "reqs ?T b' = Some r'"
      then have r': "reqs S b' = Some r'" by simp
      show "req_ok (drv ?T) (set (pend ?T)) (set (usedq ?T)) b' r'"
      proof (cases "b' = b")
        case True
        then have "r' = r" using r r' by simp
        then show ?thesis using True w(2) u' r(2) dr by (auto simp: req_ok_def chain_ok_def woken_def)
      next
        case False
        then have "c0 r' \<noteq> d" "cw r' \<noteq> cw r" using reqs_okD(5) [OF ok r' r(1)] r(2) by (auto simp: owned_def)
        then show ?thesis using False u' u by (intro req_ok_frame [OF req_okD [OF ok r']]) auto
      qed
    qed (use reqs_okD(5) [OF ok] in simp)
    ultimately show ?thesis by (simp add: qinv_def)
  qed
  ultimately show ?thesis by blast
qed

lemma usedq_bound:
  assumes "qinv S"
  shows "length (usedq S) \<le> NQUEUE"
proof -
  have "c0 r < NQUEUE" if "r \<in> ran (reqs S)" for r
    using assms that by (auto simp: qinv_def ran_def chain_ok_def owned_def dest: reqs_okD(1))
  then have "set (usedq S) \<subseteq> {..<NQUEUE}" using assms by (auto simp: qinv_def rings_ok_def)
  moreover have "distinct (usedq S)" using assms by (simp add: qinv_def rings_ok_def)
  ultimately show ?thesis by (metis card_lessThan card_mono distinct_card finite_lessThan)
qed

lemma virtio_intr_loop_inv:
  assumes "qinv S"
  shows "\<exists>ps' v. virtio_intr_loop (drv S) ps = Inr (ps', v) \<and> qinv (S\<lparr>drv := v, usedq := []\<rparr>) \<and> lk v = lk (drv S)"
  using assms
proof (induction "usedq S" arbitrary: S ps)
  case Nil
  then have "used_idx (drv S) = last_used_idx (drv S)" by (simp add: qinv_def rings_ok_def)
  moreover have "S\<lparr>drv := drv S, usedq := []\<rparr> = S" using Nil.hyps by simp
  ultimately show ?case using Nil.prems by (simp add: virtio_intr_loop.simps [of "drv S"])
next
  case (Cons d rest)
  note u = Cons.hyps(2) [symmetric]
  have ro: "rings_ok S" using Cons.prems by (simp add: qinv_def)
  have "length (usedq S) \<le> 16" by (rule usedq_bound [OF Cons.prems])
  moreover have "0 < length (usedq S)" unfolding u by simp
  ultimately have "(of_nat (length (usedq S)) :: 16 word) \<noteq> 0" by (simp add: word_of_nat_eq_0_iff nat_dvd_not_less)
  moreover have "used_idx (drv S) = last_used_idx (drv S) + of_nat (length (usedq S))" using ro unfolding rings_ok_def by blast
  ultimately have ne: "last_used_idx (drv S) \<noteq> used_idx (drv S)" by (metis add_cancel_left_right)
  have hd: "used_ring (drv S) (unat (last_used_idx (drv S)) mod NQUEUE) = d"
    using ring_at [OF ro, of 0] unfolding u by (simp only: length_Cons zero_less_Suc add_0_right nth_Cons_0)
  obtain ps1 v1 where 1: "complete_used d (drv S) = Inr (ps1, v1)" "qinv (S\<lparr>drv := v1, usedq := rest\<rparr>)" "lk v1 = lk (drv S)"
    using complete_inv [OF Cons.prems Cons.hyps(2) [symmetric]] by blast
  from Cons.hyps(1) [of "S\<lparr>drv := v1, usedq := rest\<rparr>" "ps @ ps1"] 1(2) obtain ps' v where
    2: "virtio_intr_loop v1 (ps @ ps1) = Inr (ps', v)" "qinv (S\<lparr>drv := v, usedq := []\<rparr>)" "lk v = lk v1" by auto
  then show ?case using 1 ne hd by (simp add: virtio_intr_loop.simps [of "drv S"])
qed

lemma interrupt_inv:
  assumes inv: "qinv S" and l: "\<not> locked (lk (drv S))"
  shows "\<exists>ps v. virtio_blk_intr st (drv S) = Inr (ps, v) \<and> qinv (S\<lparr>drv := v, usedq := []\<rparr>) \<and> \<not> locked (lk v)"
proof -
  let ?v = "REG_write INTERRUPT_ACK (st AND 3) ((drv S)\<lparr>lk := (lk (drv S))\<lparr>locked := True\<rparr>\<rparr>)"
  have "qinv (S\<lparr>drv := ?v\<rparr>)" using inv by (simp add: REG_write_def)
  from virtio_intr_loop_inv [OF this, of "[]"] obtain ps v where
    1: "virtio_intr_loop ?v [] = Inr (ps, v)" "qinv (S\<lparr>drv := v, usedq := []\<rparr>)" by auto
  then have "virtio_blk_intr st (drv S) = Inr (ps, v\<lparr>lk := release_spinlock (lk v)\<rparr>)" using l by (simp add: virtio_blk_intr_def)
  moreover have "qinv (S\<lparr>drv := v\<lparr>lk := release_spinlock (lk v)\<rparr>, usedq := []\<rparr>)"
    using 1(2) by simp
  ultimately show ?thesis by (simp add: release_spinlock_eq)
qed

section \<open>The end of a request\<close>

lemma set_info_fields [simp]:
  "desc (set_info d f v) = desc v" "free_head (set_info d f v) = free_head v" "nfree (set_info d f v) = nfree v" "lk (set_info d f v) = lk v"
  "hdrs (set_info d f v) = hdrs v" "dwaits (set_info d f v) = dwaits v" "used_idx (set_info d f v) = used_idx v" "last_used_idx (set_info d f v) = last_used_idx v"
  "used_ring (set_info d f v) = used_ring v" "bufs (set_info d f v) = bufs v" "info (set_info d f v) = (info v)(d := f (info v d))"
  by (simp_all add: set_info_def)

lemma resume_woken: "up (wd w) \<Longrightarrow> wait_sem_resume w (init_sem 0, wd) = Inr ((init_sem 0, wd), True)"
  by (simp add: wait_sem_resume_def lock_sem_def init_sem_def unlock_sem_def release_spinlock_eq)

lemma up_not_queued:
  assumes inv: "qinv S" and r: "reqs S b = Some r" and up: "up (dwaits (drv S) (cw r))"
  shows "c0 r \<notin> set (pend S) \<union> set (usedq S)" "woken (drv S) b r"
proof -
  have ok: "reqs_ok S" using inv by (simp add: qinv_def)
  show nq: "c0 r \<notin> set (pend S) \<union> set (usedq S)" using reqs_okD(2) [OF ok r] up by (auto simp: waiting_def)
  show "woken (drv S) b r" by (rule reqs_okD(3) [OF ok r nq])
qed

lemma ran_remove:
  assumes "\<And>b' r'. m b' = Some r' \<Longrightarrow> b' \<noteq> b \<Longrightarrow> f r' \<inter> f r = {}" "m b = Some r"
  shows "(\<Union>x\<in>ran (m(b := None)). f x) = (\<Union>x\<in>ran m. f x) - f r"
proof -
  have 1: "ran (m(b := None)) = {r'. \<exists>b'. b' \<noteq> b \<and> m b' = Some r'}" by (auto simp: ran_def)
  have 2: "ran m = insert r {r'. \<exists>b'. b' \<noteq> b \<and> m b' = Some r'}" using assms(2) unfolding ran_def by (auto, metis option.inject)
  have "f r \<inter> (\<Union>x\<in>{r'. \<exists>b'. b' \<noteq> b \<and> m b' = Some r'}. f x) = {}" using assms(1) by blast
  then show ?thesis unfolding 1 2 by blast
qed

lemma Diff_join: "A = B - U \<Longrightarrow> V = U - X \<Longrightarrow> X \<subseteq> U \<Longrightarrow> X \<subseteq> B \<Longrightarrow> X \<union> A = B - V"
  by blast

lemma resume_ok:
  assumes inv: "qinv S" and l: "\<not> locked (lk (drv S))" and r: "reqs S b = Some r" and up: "up (dwaits (drv S) (cw r))"
  obtains v x fl where "rw_resume b (c0 r) (cw r) (drv S) = Inr v" "\<not> locked (lk v)" "desc v = (desc (drv S))(c2 r := x)"
    "flist (desc v) (free_head v) (c0 r # c1 r # c2 r # fl)" "nfree v = length (c0 r # c1 r # c2 r # fl)" "distinct (c0 r # c1 r # c2 r # fl)"
    "set fl = {..<NQUEUE} - (\<Union>r\<in>ran (reqs S). owned r)" "hdrs v = hdrs (drv S)" "bufs v = bufs (drv S)" "dwaits v = dwaits (drv S)"
    "info v = (info (drv S))(c0 r := (info (drv S) (c0 r))\<lparr>idone := 0\<rparr>)" "used_idx v = used_idx (drv S)"
    "last_used_idx v = last_used_idx (drv S)" "used_ring v = used_ring (drv S)"
proof -
  obtain fl where fl: "flist (desc (drv S)) (free_head (drv S)) fl" "length fl = nfree (drv S)" "distinct fl"
    "set fl = {..<NQUEUE} - (\<Union>r\<in>ran (reqs S). owned r)" using inv by (auto simp: qinv_def free_ok_def)
  have ok: "reqs_ok S" using inv by (simp add: qinv_def)
  note ch = reqs_okD(1) [OF ok r, unfolded chain_ok_def owned_def]
  have "owned r \<inter> set fl = {}" using fl(4) ranI [of "reqs S", OF r] by blast
  then have dist: "distinct (c0 r # c1 r # c2 r # fl)" using ch fl(3) by (auto simp: owned_def)
  let ?v = "set_info (c0 r) (\<lambda>i. i\<lparr>idone := 0\<rparr>) ((drv S)\<lparr>lk := (lk (drv S))\<lparr>locked := True\<rparr>\<rparr>)"
  obtain x where x: "free_desc (c0 r) ?v = Inr (?v\<lparr>desc := (desc ?v)(c2 r := x), free_head := c0 r, nfree := length (c0 r # c1 r # c2 r # fl)\<rparr>)"
    "flist ((desc ?v)(c2 r := x)) (c0 r) (c0 r # c1 r # c2 r # fl)"
    by (rule free_desc_ok [of ?v fl "c0 r" "c1 r" "c2 r" b "bflags (bufs (drv S) b) AND B_DIRTY \<noteq> 0"]) (use fl dist ch in auto)
  have w: "bsem (bufs (drv S) b) = init_sem 0" using up_not_queued(2) [OF inv r up] by (simp add: woken_def)
  then have same: "set_buf b (\<lambda>x. x\<lparr>bsem := init_sem 0\<rparr>) (drv S) = drv S" by (auto simp: set_buf_def fun_upd_idem)
  let ?u = "?v\<lparr>desc := (desc ?v)(c2 r := x), free_head := c0 r, nfree := length (c0 r # c1 r # c2 r # fl), lk := release_spinlock (lk ?v)\<rparr>"
  have "rw_resume b (c0 r) (cw r) (drv S) = Inr ?u"
    using l x(1) by (simp add: rw_resume_def w resume_woken up same rw_finish_def)
  then show ?thesis
    by (rule that [of ?u x fl]) (use x(2) dist fl(4) in \<open>simp_all add: release_spinlock_eq del: flist.simps distinct.simps\<close>)
qed

lemma resume_inv:
  assumes inv: "qinv S" and l: "\<not> locked (lk (drv S))" and r: "reqs S b = Some r" and up: "up (dwaits (drv S) (cw r))"
  shows "\<exists>v. rw_resume b (c0 r) (cw r) (drv S) = Inr v \<and> qinv (S\<lparr>drv := v, reqs := (reqs S)(b := None)\<rparr>) \<and> \<not> locked (lk v)"
proof -
  have ok: "reqs_ok S" and ro: "rings_ok S" using inv by (auto simp: qinv_def)
  note nq = up_not_queued(1) [OF inv r up] and ch = reqs_okD(1) [OF ok r]
  obtain v x fl where v: "rw_resume b (c0 r) (cw r) (drv S) = Inr v" "\<not> locked (lk v)" "desc v = (desc (drv S))(c2 r := x)"
    "flist (desc v) (free_head v) (c0 r # c1 r # c2 r # fl)" "nfree v = length (c0 r # c1 r # c2 r # fl)" "distinct (c0 r # c1 r # c2 r # fl)"
    "set fl = {..<NQUEUE} - (\<Union>r\<in>ran (reqs S). owned r)" "hdrs v = hdrs (drv S)" "bufs v = bufs (drv S)" "dwaits v = dwaits (drv S)"
    "info v = (info (drv S))(c0 r := (info (drv S) (c0 r))\<lparr>idone := 0\<rparr>)" "used_idx v = used_idx (drv S)"
    "last_used_idx v = last_used_idx (drv S)" "used_ring v = used_ring (drv S)"
    by (rule resume_ok [OF assms]) blast
  let ?T = "S\<lparr>drv := v, reqs := (reqs S)(b := None)\<rparr>"
  have dis: "owned r' \<inter> owned r = {} \<and> cw r' \<noteq> cw r" if "reqs S b' = Some r'" "b' \<noteq> b" for b' r'
    by (rule reqs_okD(5) [OF ok that(1) r that(2)])
  have "free_ok ?T"
  proof -
    have u: "(\<Union>r\<in>ran ((reqs S)(b := None)). owned r) = (\<Union>r\<in>ran (reqs S). owned r) - owned r"
      using dis by (intro ran_remove r) simp
    have "owned r \<subseteq> (\<Union>r\<in>ran (reqs S). owned r)" "owned r \<subseteq> {..<NQUEUE}" using ranI [of "reqs S", OF r] ch by (auto simp: chain_ok_def)
    from Diff_join [OF v(7) u this] have "set (c0 r # c1 r # c2 r # fl) = {..<NQUEUE} - (\<Union>r\<in>ran ((reqs S)(b := None)). owned r)"
      by (simp add: owned_def)
    then show ?thesis using v(4-6) unfolding free_ok_def by (intro exI [of _ "c0 r # c1 r # c2 r # fl"]) (simp del: flist.simps distinct.simps)
  qed
  moreover have "rings_ok ?T"
  proof -
    have "set (pend S) \<union> set (usedq S) \<subseteq> c0 ` ran ((reqs S)(b := None))"
    proof
      fix d assume d: "d \<in> set (pend S) \<union> set (usedq S)"
      then obtain b' r' where r': "reqs S b' = Some r'" "c0 r' = d" using head_owner [OF inv] by blast
      then have "b' \<noteq> b" using nq d r by auto
      then show "d \<in> c0 ` ran ((reqs S)(b := None))" using r' by (intro image_eqI [of _ _ r']) (auto simp: ran_def)
    qed
    then show ?thesis using ro v(12-14) unfolding rings_ok_def by simp
  qed
  moreover have "reqs_ok ?T"
  proof (rule reqs_okI)
    fix b' r' assume a: "reqs ?T b' = Some r'"
    then have ne: "b' \<noteq> b" and r': "reqs S b' = Some r'" by (auto split: if_splits)
    have "c2 r \<in> owned r" by (simp add: owned_def)
    then have "desc v d = desc (drv S) d" if "d \<in> owned r'" for d using dis [OF r' ne] that v(3) by auto
    moreover have "c0 r' \<noteq> c0 r" using dis [OF r' ne] by (metis IntI emptyE owned_c0)
    ultimately show "req_ok (drv ?T) (set (pend ?T)) (set (usedq ?T)) b' r'"
      using v(8-11) by (intro req_ok_frame [OF req_okD [OF ok r']]) simp_all
  qed (use reqs_okD(5) [OF ok] in \<open>auto split: if_splits\<close>)
  ultimately show ?thesis using v(1,2) by (auto simp: qinv_def)
qed

section \<open>All runs\<close>

text \<open>The machine after \<^verbatim>\<open>virtio_init\<close>, with nothing submitted.\<close>

definition vidle :: "virtio_disk \<Rightarrow> (nat \<Rightarrow> byte list) \<Rightarrow> vsys" where
  "vidle v m = \<lparr>drv = v, reqs = Map.empty, pend = [], usedq = [], media = m\<rparr>"

lemma set_desc_fold: "\<exists>D. fold (\<lambda>i. set_desc i (f i)) xs v = v\<lparr>desc := D\<rparr>"
proof (induction xs arbitrary: v)
  case (Cons x xs)
  from Cons.IH [of "set_desc x (f x) v"] show ?case by (auto simp: set_desc_def)
next
  case Nil
  show ?case by (auto intro: exI [of _ "desc v"])
qed

lemma desc_init_desc: "desc (desc_init v) d = (if d < 15 then (desc v d)\<lparr>dflags := 1, dnext := d + 1\<rparr> else desc v d)"
proof -
  have "desc (fold (\<lambda>i. set_desc i (\<lambda>d. d\<lparr>dflags := 1, dnext := i + 1\<rparr>)) [0..<n] v) d = (if d < n then (desc v d)\<lparr>dflags := 1, dnext := d + 1\<rparr> else desc v d)" for n
    by (induction n) (auto simp: set_desc_def)
  from this [of 15] show ?thesis by (simp add: desc_init_def)
qed

lemma desc_init_rest: "\<exists>D. desc_init v = v\<lparr>desc := D\<rparr>"
  unfolding desc_init_def by (rule set_desc_fold)

lemma flist_upt:
  assumes "\<And>d. d < n \<Longrightarrow> has_next (dm d) \<and> dnext (dm d) = Suc d"
  shows "k \<le> n \<Longrightarrow> flist dm k [k..<Suc n]"
proof (induction "n - k" arbitrary: k)
  case (Suc j)
  then have "k < n" "flist dm (Suc k) [Suc k..<Suc n]" by simp_all
  then show ?case using assms by (subst upt_conv_Cons) (auto simp del: upt_Suc)
qed simp

lemma vidle_inv:
  assumes "virtq_init pd pa pu v0 = Inr v"
  shows "qinv (vidle v m)" "lk v = lk v0"
proof -
  let ?z = "v0\<lparr>desc := (\<lambda>_. zero_virtq_desc), avail_idx := 0, avail_ring := (\<lambda>_. 0), used_idx := 0, used_ring := (\<lambda>_. 0),
                     free_head := 0, last_used_idx := 0, info := (\<lambda>_. \<lparr>istatus = 0, idone = 0, ibuf = None\<rparr>), nfree := NQUEUE\<rparr>"
  have v: "v = desc_init ?z" using assms by (auto simp: virtq_init_def Let_def split: if_splits)
  obtain D where D: "v = ?z\<lparr>desc := D\<rparr>" using desc_init_rest [of ?z] v by auto
  have "desc v d = (if d < 15 then zero_virtq_desc\<lparr>dflags := 1, dnext := d + 1\<rparr> else zero_virtq_desc)" for d
    unfolding v desc_init_desc by simp
  then have "flist (desc v) 0 [0..<Suc 15]" by (intro flist_upt) simp_all
  then have "free_ok (vidle v m)" unfolding free_ok_def vidle_def using D by (intro exI [of _ "[0..<16]"]) (auto simp del: upt_Suc)
  moreover have "reqs_ok (vidle v m)" by (simp add: reqs_ok_def vidle_def)
  moreover have "rings_ok (vidle v m)" using D by (simp add: rings_ok_def vidle_def)
  ultimately show "qinv (vidle v m)" by (simp add: qinv_def)
  show "lk v = lk v0" using D by simp
qed

lemma virtio_init_inv:
  assumes "virtio_init REG pd pa pu ih v0 = Inr (ih', v)"
  shows "qinv (vidle v m) \<and> \<not> locked (lk v)"
proof -
  obtain u mm u' where u: "virtq_init pd pa pu u' = Inr u" and v: "v = u\<lparr>mmio := mm, lk := init_spinlock (lk u)\<rparr>"
    using assms by (auto simp: virtio_init_def Let_def REG_write_def rbind_eq_Inr_conv split: if_splits)
  have "qinv (vidle v m) = qinv (vidle u m)" unfolding v vidle_def qinv_defs by simp
  then show ?thesis using vidle_inv(1) [OF u] v by (simp add: init_spinlock_def)
qed

lemma vstep_inv:
  assumes "vstep dev S T" "device_spec dev" "qinv S" "\<not> locked (lk (drv S))"
  shows "qinv T \<and> \<not> locked (lk (drv T))"
  using assms
proof (cases rule: vstep.cases)
  case (submit b w p x d0 v)
  show ?thesis using submit_inv [OF assms(3,4) submit(2,3,4)] unfolding submit(1) by simp
next
  case (device d v m)
  show ?thesis using device_inv [OF assms(3) device(2,3) assms(2)] assms(4) unfolding device(1) by simp
next
  case (interrupt st ps v)
  show ?thesis using interrupt_inv [OF assms(3,4), of st] interrupt by auto
next
  case (resume b r v)
  show ?thesis using resume_inv [OF assms(3,4) resume(2,3)] resume(1,4) by auto
qed

lemma vreachable_inv:
  assumes "vreachable dev S0 S" "device_spec dev" "qinv S0" "\<not> locked (lk (drv S0))"
  shows "qinv S \<and> \<not> locked (lk (drv S))"
  using assms by (induction rule: vreachable.induct) (use vstep_inv in blast)+

lemma nfree_count:
  assumes inv: "qinv S"
  shows "nfree (drv S) + 3 * card (dom (reqs S)) = NQUEUE" "finite (dom (reqs S))"
proof -
  obtain fl where fl: "length fl = nfree (drv S)" "distinct fl" "set fl = {..<NQUEUE} - (\<Union>r\<in>ran (reqs S). owned r)"
    using inv by (auto simp: qinv_def free_ok_def)
  let ?o = "\<lambda>b. owned (the (reqs S b))"
  have ok: "reqs_ok S" using inv by (simp add: qinv_def)
  have U: "(\<Union>r\<in>ran (reqs S). owned r) = (\<Union>b\<in>dom (reqs S). ?o b)" by (force simp: ran_def dom_def)
  have sub: "(\<Union>b\<in>dom (reqs S). ?o b) \<subseteq> {..<NQUEUE}" using reqs_okD(1) [OF ok] by (force simp: chain_ok_def)
  have dis: "\<forall>b\<in>dom (reqs S). \<forall>b'\<in>dom (reqs S). b \<noteq> b' \<longrightarrow> ?o b \<inter> ?o b' = {}" using reqs_okD(5) [OF ok] by fastforce
  have "inj_on ?o (dom (reqs S))" using dis by (intro inj_onI) (metis Int_absorb empty_iff owned_c0)
  moreover have "?o ` dom (reqs S) \<subseteq> Pow {..<NQUEUE}" using sub by blast
  ultimately have fin: "finite (dom (reqs S))" by (metis finite_Pow_iff finite_imageD finite_lessThan finite_subset)
  have c3: "card (?o b) = 3" if "b \<in> dom (reqs S)" for b using that reqs_okD(1) [OF ok] by (auto simp: chain_ok_def owned_def)
  have "card (\<Union>b\<in>dom (reqs S). ?o b) = (\<Sum>b\<in>dom (reqs S). card (?o b))"
    by (rule card_UN_disjoint [OF fin _ dis]) (simp add: owned_def)
  also have "\<dots> = 3 * card (dom (reqs S))" using c3 by simp
  finally have cu: "card (\<Union>b\<in>dom (reqs S). ?o b) = 3 * card (dom (reqs S))" .
  have "nfree (drv S) = card (set fl)" using fl(1,2) distinct_card by metis
  also have "\<dots> = card {..<NQUEUE} - card (\<Union>b\<in>dom (reqs S). ?o b)" unfolding fl(3) U by (rule card_Diff_subset [OF _ sub]) (rule finite_subset [OF sub], simp)
  finally show "nfree (drv S) + 3 * card (dom (reqs S)) = NQUEUE" using card_mono [OF _ sub] unfolding cu by simp
  show "finite (dom (reqs S))" by (rule fin)
qed

lemma rw_start_iff:
  assumes inv: "qinv S" and l: "\<not> locked (lk (drv S))"
  shows "rw_start b w p (set_buf b (\<lambda>_. x) (drv S)) = Inl Panic \<longleftrightarrow> card (dom (reqs S)) = 5"
    "card (dom (reqs S)) < 5 \<Longrightarrow> \<exists>d0 v. rw_start b w p (set_buf b (\<lambda>_. x) (drv S)) = Inr ((d0, Some w), v)"
proof -
  let ?v = "set_buf b (\<lambda>_. x) (drv S)"
  obtain fl where fl: "flist (desc (drv S)) (free_head (drv S)) fl" "length fl = nfree (drv S)" "distinct fl"
    "set fl = {..<NQUEUE} - (\<Union>r\<in>ran (reqs S). owned r)" using inv by (auto simp: qinv_def free_ok_def)
  note n = nfree_count(1) [OF inv]
  show some: "\<exists>d0 v. rw_start b w p ?v = Inr ((d0, Some w), v)" if c: "card (dom (reqs S)) < 5"
  proof -
    have "Suc (Suc (Suc 0)) \<le> length fl" using fl(2) c n by simp
    then obtain x0 x1 x2 ys where f3: "fl = x0 # x1 # x2 # ys" unfolding Suc_le_length_iff by blast
    have lt: "x0 < NQUEUE" "x1 < NQUEUE" "x2 < NQUEUE" using fl(4) f3 by auto
    have pre: "flist (desc ?v) (free_head ?v) (x0 # x1 # x2 # ys)" "nfree ?v = length (x0 # x1 # x2 # ys)" "\<not> locked (lk ?v)" "distinct (x0 # x1 # x2 # ys)"
      using fl(1-3) f3 l by (simp_all only: set_buf_fields not_False_eq_True)
    show ?thesis by (rule rw_start_ok [OF pre(1,2,4) lt pre(3) refl, of b w p]) blast
  qed
  show "rw_start b w p ?v = Inl Panic \<longleftrightarrow> card (dom (reqs S)) = 5"
  proof
    assume "rw_start b w p ?v = Inl Panic"
    then have "\<not> card (dom (reqs S)) < 5" using some by auto
    then show "card (dom (reqs S)) = 5" using n by simp
  next
    assume "card (dom (reqs S)) = 5"
    then have "length fl < 3" using fl(2) n by simp
    then show "rw_start b w p ?v = Inl Panic" using fl l by (intro rw_start_full [where fl = fl]) auto
  qed
qed

text \<open>
  C4: From initialisation on, through every interleaving of callers starting requests, the device serving them in any order, interrupts and callers waking up, the
  16 descriptors are split between the free list and the requests: \<^verbatim>\<open>nfree\<close> plus three for each request is 16, the chains of different requests share no
  descriptor, and a request the device has not finished is described by a chain that leads to its own header, buffer and status byte. The interrupt handler never panics,
  faults or loops, a caller whose wait ended finishes its request and releases its descriptors, and a new request can be started unless five are under way, in which case the
  kernel panics.
\<close>

theorem virtio_descriptors_owned:
  assumes "device_spec dev" "virtio_init REG pd pa pu ih v0 = Inr (ih', v)" "vreachable dev (vidle v m) S"
  shows "nfree (drv S) + 3 * card (dom (reqs S)) = NQUEUE
     \<and> (\<forall>b r. reqs S b = Some r \<longrightarrow> chain_ok (drv S) b r \<and> (\<forall>b' r'. reqs S b' = Some r' \<and> b' \<noteq> b \<longrightarrow> owned r \<inter> owned r' = {}))
     \<and> (\<forall>st. \<exists>ps u. virtio_blk_intr st (drv S) = Inr (ps, u))
     \<and> (\<forall>b r. reqs S b = Some r \<and> up (dwaits (drv S) (cw r)) \<longrightarrow> (\<exists>u. rw_resume b (c0 r) (cw r) (drv S) = Inr u \<and> nfree u = nfree (drv S) + 3))
     \<and> (\<forall>b w p x. rw_start b w p (set_buf b (\<lambda>_. x) (drv S)) = Inl Panic \<longleftrightarrow> card (dom (reqs S)) = 5)
     \<and> (\<forall>b w p x. card (dom (reqs S)) < 5 \<longrightarrow> (\<exists>d0 u. rw_start b w p (set_buf b (\<lambda>_. x) (drv S)) = Inr ((d0, Some w), u)))"
proof -
  have inv: "qinv S" and l: "\<not> locked (lk (drv S))"
    using vreachable_inv [OF assms(3,1)] virtio_init_inv [OF assms(2)] by (auto simp: vidle_def)
  then have ok: "reqs_ok S" by (simp add: qinv_def)
  have "\<exists>u. rw_resume b (c0 r) (cw r) (drv S) = Inr u \<and> nfree u = nfree (drv S) + 3" if r: "reqs S b = Some r" "up (dwaits (drv S) (cw r))" for b r
  proof -
    obtain u where u: "rw_resume b (c0 r) (cw r) (drv S) = Inr u" "qinv (S\<lparr>drv := u, reqs := (reqs S)(b := None)\<rparr>)"
      using resume_inv [OF inv l r] by blast
    have "card (dom (reqs S)) = Suc (card (dom (reqs S) - {b}))" by (rule card_Suc_Diff1 [OF nfree_count(2) [OF inv], symmetric]) (use r(1) in auto)
    then show ?thesis using nfree_count(1) [OF inv] nfree_count(1) [OF u(2)] u(1) by auto
  qed
  then show ?thesis using nfree_count(1) [OF inv] reqs_okD(1,5) [OF ok] interrupt_inv [OF inv l] rw_start_iff [OF inv l] by metis
qed

theorem virtio_descriptors_owned_witness:
  "\<exists>ih v S. virtio_init demo_reg (Some 1) (Some 2) (Some 3) (replicate 64 None) demo_disk = Inr (ih, v) \<and> vreachable serve (vidle v (\<lambda>_. [])) S
     \<and> dom (reqs S) = {7} \<and> nfree (drv S) = 13"
proof -
  obtain ih v where v: "virtio_init demo_reg (Some 1) (Some 2) (Some 3) (replicate 64 None) demo_disk = Inr (ih, v)" using demo_init by blast
  let ?S = "vidle v (\<lambda>_. [])" and ?x = "\<lparr>bflags = 6, bdata = [1], bno = 3, bsem = init_sem 0\<rparr>"
  note own = virtio_descriptors_owned [OF serve_spec v]
  have "card (dom (reqs ?S)) < 5" by (simp add: vidle_def)
  then obtain d0 u where u: "rw_start 7 0 9 (set_buf 7 (\<lambda>_. ?x) (drv ?S)) = Inr ((d0, Some 0), u)"
    using own [OF vreachable.start] by meson
  let ?T = "?S\<lparr>drv := u, reqs := (reqs ?S)(7 \<mapsto> \<lparr>c0 = d0, c1 = dnext (desc u d0), c2 = dnext (desc u (dnext (desc u d0))), cw = 0\<rparr>),
     pend := pend ?S @ [avail_ring u (unat (avail_idx (drv ?S)) mod NQUEUE)]\<rparr>"
  have "vstep serve ?S ?T" using u by (intro vstep.submit) (simp_all add: vidle_def)
  then have T: "vreachable serve ?S ?T" by (rule vreachable.step [OF vreachable.start])
  have dom: "dom (reqs ?T) = {7}" by (simp add: vidle_def)
  have "nfree (drv ?T) + 3 * card (dom (reqs ?T)) = NQUEUE" using own [OF T] by blast
  then have "nfree (drv ?T) = 13" unfolding dom by simp
  then show ?thesis using v T dom by blast
qed

end
