(* ===== verification/Block_Device.thy ===== *)
theory Block_Device
  imports Virtio_Queue Cache
begin

unbundle bit_operations_syntax

text \<open>
  The block device of the file system: \<^verbatim>\<open>fs/block_device.c\<close> over the driver.

  \<^verbatim>\<open>sd_read\<close> and \<^verbatim>\<open>sd_write\<close> put a buffer on the stack (at the address \<open>b\<close>) and call \<^verbatim>\<open>virtio_blk_rw\<close>. While the caller sleeps the device serves the
  request and the interrupt handler posts its semaphore; \<open>virtio_blk_rw\<close> is that composition. The file system sits \<open>offset\<close> sectors into the medium, and block
  numbers are cut to 32 bits.
\<close>

definition virtio_blk_rw :: "device \<Rightarrow> 32 word \<Rightarrow> nat \<Rightarrow> nat \<Rightarrow> nat \<Rightarrow> virtio_disk \<times> (nat \<Rightarrow> byte list) \<Rightarrow> (virtio_disk \<times> (nat \<Rightarrow> byte list)) res" where
  "virtio_blk_rw dev st b w p = (\<lambda>(v, m).
     let i = unat (avail_idx v) mod NQUEUE
     in rbind (rw_start b w p v) (\<lambda>((d0, slept), v).
        case dev (avail_ring v i) v m of None \<Rightarrow> Inl Blocked
        | Some (v, m) \<Rightarrow>
          rbind (virtio_blk_intr st v) (\<lambda>(ps, v).
          rbind (rw_resume b d0 w v) (\<lambda>v. Inr (v, m)))))"

abbreviation (input) offset :: nat where "offset \<equiv> 133120"

text \<open>\<open>junk\<close> is what the uninitialised parts of the buffer hold.\<close>

definition sd_read :: "device \<Rightarrow> 32 word \<Rightarrow> nat \<Rightarrow> nat \<Rightarrow> nat \<Rightarrow> Buf \<Rightarrow> nat \<Rightarrow> virtio_disk \<times> (nat \<Rightarrow> byte list) \<Rightarrow> (byte list \<times> virtio_disk \<times> (nat \<Rightarrow> byte list)) res" where
  "sd_read dev st b w p junk no = (\<lambda>(v, m).
     let v = set_buf b (\<lambda>_. junk\<lparr>bno := (no + offset) mod U32, bflags := 0\<rparr>) v
     in rbind (virtio_blk_rw dev st b w p (v, m)) (\<lambda>(v, m). Inr (take BLOCK_SIZE (bdata (bufs v b)), v, m)))"

definition sd_write :: "device \<Rightarrow> 32 word \<Rightarrow> nat \<Rightarrow> nat \<Rightarrow> nat \<Rightarrow> Buf \<Rightarrow> nat \<Rightarrow> byte list \<Rightarrow> virtio_disk \<times> (nat \<Rightarrow> byte list) \<Rightarrow> (virtio_disk \<times> (nat \<Rightarrow> byte list)) res" where
  "sd_write dev st b w p junk no buffer = (\<lambda>(v, m).
     let v = set_buf b (\<lambda>_. junk\<lparr>bno := (no + offset) mod U32, bflags := B_DIRTY OR B_VALID, bdata := take BLOCK_SIZE buffer\<rparr>) v
     in virtio_blk_rw dev st b w p (v, m))"

text \<open>\<^verbatim>\<open>get_super_block\<close> casts the bytes of block 1 to the structure of seven 32-bit fields.\<close>

definition get_super_block :: "byte list \<Rightarrow> SuperBlock" where
  "get_super_block sblock_data =
     (let f = (\<lambda>i. le_dec (slice (4 * i) 4 sblock_data))
      in \<lparr>num_blocks = f 0, num_data_blocks = f 1, num_inodes = f 2, num_log_blocks = f 3, log_start = f 4, inode_start = f 5, bitmap_start = f 6\<rparr>)"

text \<open>\<^verbatim>\<open>init_block_device\<close> returns the bytes it keeps in \<^verbatim>\<open>sblock_data\<close>; its messages on the console are left out.\<close>

definition init_block_device :: "device \<Rightarrow> 32 word \<Rightarrow> nat \<Rightarrow> nat \<Rightarrow> nat \<Rightarrow> Buf \<Rightarrow> virtio_disk \<times> (nat \<Rightarrow> byte list) \<Rightarrow> (byte list \<times> virtio_disk \<times> (nat \<Rightarrow> byte list)) res" where
  "init_block_device dev st b w p junk s = sd_read dev st b w p junk 1 s"

section \<open>What the driver leaves of a buffer\<close>

text \<open>The driver never writes the contents of a buffer.\<close>

definition same_data :: "virtio_disk \<Rightarrow> virtio_disk \<Rightarrow> bool" where
  "same_data v v' \<longleftrightarrow> (\<forall>b. bdata (bufs v' b) = bdata (bufs v b) \<and> bno (bufs v' b) = bno (bufs v b) \<and> bflags (bufs v' b) = bflags (bufs v b))"

lemma same_data_refl [simp]: "same_data v v"
  by (simp add: same_data_def)

lemma same_data_trans [trans]: "same_data u v \<Longrightarrow> same_data v w \<Longrightarrow> same_data u w"
  by (simp add: same_data_def)

lemma alloc_desc_bufs: "alloc_desc v = Inr (d, v') \<Longrightarrow> bufs v' = bufs v"
  by (auto simp: alloc_desc_def Let_def split: if_splits)

lemma bufs_set_desc [simp]: "bufs (set_desc d f v) = bufs v" "bufs (REG_write r x v) = bufs v"
  by (simp_all add: set_desc_def REG_write_def)

lemma queue_request_bufs: "queue_request b wr v = Inr (d, v') \<Longrightarrow> bufs v' = bufs v"
  by (auto simp: queue_request_def Let_def rbind_eq_Inr_conv dest!: alloc_desc_bufs split: if_splits)

lemma same_data_start: "rw_start b w p v = Inr (x, v') \<Longrightarrow> same_data v v'"
  by (auto simp: rw_start_def Let_def rbind_eq_Inr_conv same_data_def case_prod_unfold dest!: queue_request_bufs)

lemma same_data_complete: "complete_used d v = Inr (ps, v') \<Longrightarrow> same_data v v'"
  by (auto simp: complete_used_def Let_def rbind_eq_Inr_conv same_data_def split: if_splits option.splits)

lemma same_data_loop: "virtio_intr_loop v ps = Inr (ps', v') \<Longrightarrow> same_data v v'"
proof (induction v ps rule: virtio_intr_loop.induct)
  case (1 v ps)
  then show ?case
    by (subst (asm) (2) virtio_intr_loop.simps) (auto split: if_splits sum.splits dest: same_data_complete intro: same_data_trans)
qed

lemma same_data_intr: "virtio_blk_intr st v = Inr (ps, v') \<Longrightarrow> same_data v v'"
  by (auto simp: virtio_blk_intr_def Let_def rbind_eq_Inr_conv dest!: same_data_loop) (auto simp: same_data_def)

lemma free_walk_bufs: "free_walk k n v = Inr (n', v') \<Longrightarrow> bufs v' = bufs v"
  by (induction k n v rule: free_walk.induct) (auto simp: Let_def split: if_splits)

lemma free_desc_bufs: "free_desc n v = Inr v' \<Longrightarrow> bufs v' = bufs v"
  by (auto simp: free_desc_def Let_def rbind_eq_Inr_conv dest!: free_walk_bufs)

lemma same_data_resume: "rw_resume b d w v = Inr v' \<Longrightarrow> same_data v v'"
  by (auto simp: rw_resume_def rw_finish_def Let_def rbind_eq_Inr_conv same_data_def dest!: free_desc_bufs)

section \<open>One request from start to end\<close>

lemma vidle_sel [simp]: "drv (vidle v m) = v" "reqs (vidle v m) = Map.empty" "pend (vidle v m) = []" "usedq (vidle v m) = []" "media (vidle v m) = m"
  by (simp_all add: vidle_def)

lemma virtio_blk_rw_idle:
  assumes dev: "device_spec dev" and inv: "qinv (vidle v m)" and l: "\<not> locked (lk v)"
    and m': "m' = (if bflags x AND B_DIRTY \<noteq> 0 then m(bno x := bdata x) else m)"
  shows "\<exists>v'. virtio_blk_rw dev st b w p (set_buf b (\<lambda>_. x) v, m) = Inr (v', m') \<and> qinv (vidle v' m') \<and> \<not> locked (lk v')
     \<and> bdata (bufs v' b) = (if bflags x AND B_DIRTY \<noteq> 0 then bdata x else m (bno x))"
proof -
  let ?S = "vidle v m"
  obtain d0 v1 where v1: "rw_start b w p (set_buf b (\<lambda>_. x) v) = Inr ((d0, Some w), v1)"
    using rw_start_iff(2) [OF inv, of b w p x] l by auto
  define r where "r = \<lparr>c0 = d0, c1 = dnext (desc v1 d0), c2 = dnext (desc v1 (dnext (desc v1 d0))), cw = w\<rparr>"
  define h where "h = avail_ring v1 (unat (avail_idx v) mod NQUEUE)"
  define S1 where "S1 = ?S\<lparr>drv := v1, reqs := [b \<mapsto> r], pend := [h]\<rparr>"
  have 1: "qinv S1" "\<not> locked (lk v1)" using submit_inv [OF inv, of b w p x d0 v1] l v1 unfolding S1_def h_def r_def by simp_all
  have S1: "drv S1 = v1" "reqs S1 = [b \<mapsto> r]" "pend S1 = [h]" "usedq S1 = []" "media S1 = m" by (simp_all add: S1_def)
  have r0: "c0 r = d0" by (simp add: r_def)
  have "h \<in> set (pend S1) \<union> set (usedq S1)" by (simp add: S1)
  then obtain b' r' where "reqs S1 b' = Some r'" "c0 r' = h" by (rule head_owner [OF 1(1)])
  then have h: "h = d0" "c0 r = d0" using r0 by (auto simp: S1 split: if_splits)
  have x: "bdata (bufs v1 b) = bdata x" "bno (bufs v1 b) = bno x" "bflags (bufs v1 b) = bflags x"
    using same_data_start [OF v1] by (simp_all add: same_data_def)
  have "chain_ok v1 b r" using 1(1) reqs_okD(1) [of S1 b r] by (simp add: qinv_def S1)
  then have d: "dev d0 v1 m = Some (served b r v1 m)" using dev h(2) unfolding device_spec_def by metis
  have "\<exists>v2. served b r v1 m = (v2, m') \<and> bdata (bufs v2 b) = (if bflags x AND B_DIRTY \<noteq> 0 then bdata x else m (bno x))"
    by (cases "bflags x AND B_DIRTY \<noteq> 0") (simp_all add: served_def Let_def x m' set_info_def)
  then obtain v2 where v2: "served b r v1 m = (v2, m')" "bdata (bufs v2 b) = (if bflags x AND B_DIRTY \<noteq> 0 then bdata x else m (bno x))"
    by blast
  define S2 where "S2 = S1\<lparr>drv := v2, media := m', pend := remove1 d0 (pend S1), usedq := usedq S1 @ [d0]\<rparr>"
  have 2: "qinv S2" "\<not> locked (lk v2)" using device_inv [OF 1(1) _ _ dev, of d0 v2 m'] d v2(1) h 1(2) unfolding S2_def by (simp_all add: S1)
  obtain ps v3 where v3: "virtio_blk_intr st v2 = Inr (ps, v3)" "qinv (S2\<lparr>drv := v3, usedq := []\<rparr>)" "\<not> locked (lk v3)"
    using interrupt_inv [OF 2(1), of st] 2(2) by (auto simp: S2_def)
  define S3 where "S3 = S2\<lparr>drv := v3, usedq := []\<rparr>"
  have S3: "drv S3 = v3" "reqs S3 = [b \<mapsto> r]" "pend S3 = []" "usedq S3 = []" "media S3 = m'" by (simp_all add: S3_def S2_def S1 h)
  have "up (dwaits v3 (cw r))" using v3(2) reqs_okD(3) [of S3 b r] unfolding S3_def [symmetric] by (simp add: qinv_def S3 woken_def)
  then obtain v4 where v4: "rw_resume b d0 w v3 = Inr v4" "qinv (S3\<lparr>drv := v4, reqs := [b \<mapsto> r](b := None)\<rparr>)" "\<not> locked (lk v4)"
    using resume_inv [of S3 b r] v3(2,3) h(2) unfolding S3_def [symmetric] by (auto simp: S3 r_def)
  have "S3\<lparr>drv := v4, reqs := [b \<mapsto> r](b := None)\<rparr> = vidle v4 m'" using S3 by (simp add: vidle_def)
  moreover have "bdata (bufs v4 b) = bdata (bufs v2 b)"
    using same_data_trans [OF same_data_intr [OF v3(1)] same_data_resume [OF v4(1)]] by (simp add: same_data_def)
  moreover have "virtio_blk_rw dev st b w p (set_buf b (\<lambda>_. x) v, m) = Inr (v4, m')"
    using v1 d v2(1) v3(1) v4(1) h(1) by (simp add: virtio_blk_rw_def Let_def h_def)
  ultimately show ?thesis using v4(2,3) v2(2) by auto
qed

section \<open>The block device as the cache uses it\<close>

text \<open>A read or a write of a block, with what the call does not determine: the interrupt status, the address of the buffer, the sleeper, the process and the old stack.\<close>

record caller =
  k_st :: "32 word"
  k_b :: nat
  k_w :: nat
  k_p :: nat
  k_junk :: Buf

datatype bop = Read caller nat | Write caller nat "byte list"

fun sd_run :: "device \<Rightarrow> bop list \<Rightarrow> virtio_disk \<times> (nat \<Rightarrow> byte list) \<Rightarrow> (byte list list \<times> virtio_disk \<times> (nat \<Rightarrow> byte list)) res" where
  "sd_run dev [] s = Inr ([], s)"
| "sd_run dev (Read k n # qs) s =
     rbind (sd_read dev (k_st k) (k_b k) (k_w k) (k_p k) (k_junk k) n s) (\<lambda>(d, s).
     rbind (sd_run dev qs s) (\<lambda>(ds, s). Inr (d # ds, s)))"
| "sd_run dev (Write k n d # qs) s =
     rbind (sd_write dev (k_st k) (k_b k) (k_w k) (k_p k) (k_junk k) n d s) (\<lambda>s. sd_run dev qs s)"

text \<open>The same operations on the disk of the block cache.\<close>

fun cache_run :: "bop list \<Rightarrow> bcache \<Rightarrow> byte list list \<times> bcache" where
  "cache_run [] c = ([], c)"
| "cache_run (Read k n # qs) c = (let (ds, c') = cache_run qs c in (disk c n # ds, c'))"
| "cache_run (Write k n d # qs) c = cache_run qs (device_write n d c)"

fun bop_ok :: "bop \<Rightarrow> bool" where
  "bop_ok (Read k n) = (n + offset < U32)"
| "bop_ok (Write k n d) = (n + offset < U32 \<and> length d = BLOCK_SIZE)"

definition on_media :: "(nat \<Rightarrow> byte list) \<Rightarrow> bcache \<Rightarrow> bool" where
  "on_media m c \<longleftrightarrow> (\<forall>n. disk c n = m (n + offset)) \<and> (\<forall>n. length (m (n + offset)) = BLOCK_SIZE)"

lemma dirty_flags: "(4 OR 2) AND (4 :: 32 word) \<noteq> 0" "0 AND (4 :: 32 word) = 0"
  by simp_all

lemma sd_read_idle:
  assumes dev: "device_spec dev" and inv: "qinv (vidle v m)" "\<not> locked (lk v)" and c: "on_media m c" and n: "n + offset < U32"
  shows "\<exists>v'. sd_read dev st b w p junk n (v, m) = Inr (disk c n, v', m) \<and> qinv (vidle v' m) \<and> \<not> locked (lk v')"
proof -
  let ?x = "junk\<lparr>bno := (n + offset) mod U32, bflags := 0\<rparr>"
  obtain v' where v': "virtio_blk_rw dev st b w p (set_buf b (\<lambda>_. ?x) v, m) = Inr (v', m)" "qinv (vidle v' m)" "\<not> locked (lk v')"
    "bdata (bufs v' b) = m ((n + offset) mod U32)"
    using virtio_blk_rw_idle [OF dev inv refl, where x = ?x and st = st and b = b and w = w and p = p] by (auto simp: dirty_flags)
  moreover have "m ((n + offset) mod U32) = disk c n" "take BLOCK_SIZE (disk c n) = disk c n" using c n by (simp only: on_media_def mod_less, metis c on_media_def order_refl take_all)
  ultimately show ?thesis by (simp add: sd_read_def Let_def)
qed

lemma sd_write_idle:
  assumes dev: "device_spec dev" and inv: "qinv (vidle v m)" "\<not> locked (lk v)" and c: "on_media m c" and n: "n + offset < U32" "length d = BLOCK_SIZE"
  shows "\<exists>v' m'. sd_write dev st b w p junk n d (v, m) = Inr (v', m') \<and> qinv (vidle v' m') \<and> \<not> locked (lk v') \<and> on_media m' (device_write n d c)"
proof -
  let ?x = "junk\<lparr>bno := (n + offset) mod U32, bflags := B_DIRTY OR B_VALID, bdata := take BLOCK_SIZE d\<rparr>"
  have e: "(n + offset) mod U32 = n + offset" "take BLOCK_SIZE d = d" using n by (simp_all only: mod_less take_all order_refl)
  obtain v' where v': "virtio_blk_rw dev st b w p (set_buf b (\<lambda>_. ?x) v, m) = Inr (v', m(n + offset := d))"
    "qinv (vidle v' (m(n + offset := d)))" "\<not> locked (lk v')"
    using virtio_blk_rw_idle [OF dev inv refl, where x = ?x and st = st and b = b and w = w and p = p] unfolding e by (auto simp: dirty_flags)
  moreover have "on_media (m(n + offset := d)) (device_write n d c)" using c n unfolding on_media_def device_write_def by auto
  ultimately show ?thesis by (auto simp: sd_write_def Let_def)
qed

lemma sd_run_refines:
  assumes "device_spec dev" "qinv (vidle v m)" "\<not> locked (lk v)" "on_media m c" "list_all bop_ok qs"
  shows "\<exists>ds v' m'. sd_run dev qs (v, m) = Inr (ds, v', m') \<and> fst (cache_run qs c) = ds \<and> on_media m' (snd (cache_run qs c))"
  using assms(2-5)
proof (induction qs arbitrary: v m c)
  case (Cons q qs)
  show ?case
  proof (cases q)
    case (Read k n)
    then obtain v' where "sd_read dev (k_st k) (k_b k) (k_w k) (k_p k) (k_junk k) n (v, m) = Inr (disk c n, v', m)" "qinv (vidle v' m)" "\<not> locked (lk v')"
      using sd_read_idle [OF assms(1) Cons.prems(1-3), of n "k_st k" "k_b k" "k_w k" "k_p k" "k_junk k"] Cons.prems(4) by auto
    moreover from Cons.IH [OF this(2,3) Cons.prems(3)] Cons.prems(4) obtain ds v2 m2 where
      "sd_run dev qs (v', m) = Inr (ds, v2, m2)" "fst (cache_run qs c) = ds" "on_media m2 (snd (cache_run qs c))" by auto
    ultimately show ?thesis using Read by (auto split: prod.splits)
  next
    case (Write k n d)
    then obtain v' m' where "sd_write dev (k_st k) (k_b k) (k_w k) (k_p k) (k_junk k) n d (v, m) = Inr (v', m')" "qinv (vidle v' m')" "\<not> locked (lk v')"
      "on_media m' (device_write n d c)"
      using sd_write_idle [OF assms(1) Cons.prems(1-3), of n d "k_st k" "k_b k" "k_w k" "k_p k" "k_junk k"] Cons.prems(4) by auto
    with Cons.IH [OF this(2,3,4)] Cons.prems(4) Write show ?thesis by simp
  qed
qed simp

text \<open>
  C11: The block cache may take the disk to be an array of blocks. From initialisation on, any sequence of calls of \<^verbatim>\<open>sd_read\<close> and \<^verbatim>\<open>sd_write\<close> that follow one another, each
  with its request going through descriptors, device, interrupt and wake-up, returns the blocks that the cache's own disk operations return, and leaves the contents
  they leave, 133120 sectors into the medium.
\<close>

theorem block_device_refines_disk:
  assumes "device_spec dev" "virtio_init REG pd pa pu ih v0 = Inr (ih', v)" "on_media m c" "list_all bop_ok qs"
  shows "\<exists>ds v' m'. sd_run dev qs (v, m) = Inr (ds, v', m') \<and> fst (cache_run qs c) = ds \<and> on_media m' (snd (cache_run qs c))"
  using virtio_init_inv [OF assms(2), of m] by (intro sd_run_refines assms) simp_all

definition demo_caller :: caller where
  "demo_caller = \<lparr>k_st = 1, k_b = 7, k_w = 0, k_p = 9, k_junk = \<lparr>bflags = 0, bdata = [], bno = 0, bsem = init_sem 0\<rparr>\<rparr>"

definition demo_bcache :: bcache where
  "demo_bcache = \<lparr>sblock = get_super_block [], disk = (\<lambda>_. replicate BLOCK_SIZE 0), dlog = [], cache_lock = \<lparr>locked = False\<rparr>, log_lock = \<lparr>locked = False\<rparr>,
     bitmap_lock = \<lparr>locked = False\<rparr>, blocks = [], header = dec_LogHeader [], block_num = 0, outstanding = 0, log_sem = init_sem 0\<rparr>"

theorem block_device_refines_disk_witness:
  "\<exists>ih v v' m'. virtio_init demo_reg (Some 1) (Some 2) (Some 3) (replicate 64 None) demo_disk = Inr (ih, v)
     \<and> sd_run serve [Write demo_caller 5 (replicate BLOCK_SIZE 8), Read demo_caller 5, Read demo_caller 6] (v, \<lambda>_. replicate BLOCK_SIZE 0)
       = Inr ([replicate BLOCK_SIZE 8, replicate BLOCK_SIZE 0], v', m')"
proof -
  obtain ih v where v: "virtio_init demo_reg (Some 1) (Some 2) (Some 3) (replicate 64 None) demo_disk = Inr (ih, v)" using demo_init by blast
  have "on_media (\<lambda>_. replicate BLOCK_SIZE 0) demo_bcache" by (simp add: on_media_def demo_bcache_def)
  from block_device_refines_disk [OF serve_spec v this, of "[Write demo_caller 5 (replicate BLOCK_SIZE 8), Read demo_caller 5, Read demo_caller 6]"] v
  show ?thesis by (auto simp: device_write_def demo_bcache_def)
qed

end
