(* ===== verification/Devices.thy ===== *)
theory Devices
  imports Virtio Console Timers
begin

unbundle bit_operations_syntax

text \<open>
  How interrupts reach the drivers: \<^verbatim>\<open>driver/interrupt.c\<close>, \<^verbatim>\<open>driver/uart.c\<close>, \<^verbatim>\<open>aarch64/trap.c\<close> and the part of \<^verbatim>\<open>main.c\<close> that sets the devices up.

  The state puts the components with an interrupt handler side by side. A handler that never returns is \<open>None\<close>, as in the console and the timers. The values of
  device registers at the time of an interrupt are arguments, in \<open>irq_env\<close>.
\<close>

section \<open>The serial port\<close>

abbreviation (input) UARTBASE :: "64 word" where "UARTBASE \<equiv> 0xFFFF000009000000"
abbreviation (input) UART_LCRH :: "64 word" where "UART_LCRH \<equiv> UARTBASE + 0x2c"
abbreviation (input) UART_CR :: "64 word" where "UART_CR \<equiv> UARTBASE + 0x30"
abbreviation (input) UART_IMSC :: "64 word" where "UART_IMSC \<equiv> UARTBASE + 0x38"
abbreviation (input) UART_ICR :: "64 word" where "UART_ICR \<equiv> UARTBASE + 0x44"
abbreviation (input) FR_RXFE :: "32 word" where "FR_RXFE \<equiv> 16"
abbreviation (input) LCRH_FEN :: "32 word" where "LCRH_FEN \<equiv> 16"
abbreviation (input) LCRH_WLEN_8BIT :: "32 word" where "LCRH_WLEN_8BIT \<equiv> 96"

record machine =
  int_handler :: handlers
  mgic :: gic
  uart_regs :: "(64 word \<times> 32 word) list"
  vblk :: virtio_disk
  mcons :: console
  mcpu :: cpu

record irq_env =
  fr_reg :: "32 word"
  dr_reg :: "32 word"
  cur_pid :: int
  kill_fun :: "int \<Rightarrow> int"
  blk_status :: "32 word"
  max_timers :: nat
  timer_call :: "nat \<Rightarrow> cpu \<Rightarrow> cpu res option"
  clk_freq :: nat
  clk_now :: "nat \<Rightarrow> 64 word \<times> 64 word"

definition device_put_u32 :: "64 word \<Rightarrow> 32 word \<Rightarrow> machine \<Rightarrow> machine" where
  "device_put_u32 addr value M = M\<lparr>uart_regs := uart_regs M @ [(addr, value)]\<rparr>"

definition uart_get_char :: "irq_env \<Rightarrow> byte" where
  "uart_get_char e = (if fr_reg e AND FR_RXFE \<noteq> 0 then 0xFF else ucast (dr_reg e))"

definition uartintr :: "irq_env \<Rightarrow> machine \<Rightarrow> machine res option" where
  "uartintr e M =
     (let c = uart_get_char e
      in map_option (\<lambda>r. rbind r (\<lambda>s. Inr (device_put_u32 UART_ICR (push_bit 4 1 OR push_bit 5 1) (M\<lparr>mcons := s\<rparr>))))
           (if c \<noteq> 0xFF then console_intr (cur_pid e) (kill_fun e) c (mcons M) else Some (Inr (mcons M))))"

definition uart_init :: "machine \<Rightarrow> machine" where
  "uart_init M =
     (let M = device_put_u32 UART_CR 0 M;
          M = M\<lparr>int_handler := set_interrupt_handler UART_IRQ Uartintr (int_handler M)\<rparr>;
          M = device_put_u32 UART_LCRH (LCRH_FEN OR LCRH_WLEN_8BIT) M;
          M = device_put_u32 UART_CR 0x301 M;
          M = device_put_u32 UART_IMSC 0 M
      in device_put_u32 UART_IMSC (push_bit 4 1 OR push_bit 5 1) M)"

section \<open>Dispatch\<close>

definition default_handler :: "machine \<Rightarrow> machine res option" where
  "default_handler M = Some (Inl Panic)"

definition run_handler :: "irq_env \<Rightarrow> InterruptHandler \<Rightarrow> machine \<Rightarrow> machine res option" where
  "run_handler e h M =
     (case h of
        Default_handler \<Rightarrow> default_handler M
      | Uartintr \<Rightarrow> uartintr e M
      | Invoke_clock_handler \<Rightarrow>
          map_option (\<lambda>r. rbind r (\<lambda>c. Inr (M\<lparr>mcpu := c\<rparr>)))
            (invoke_clock_handler (timer_clock_handler (max_timers e) (timer_call e) (clk_freq e) (clk_now e)) (mcpu M))
      | Virtio_blk_intr \<Rightarrow> Some (rbind (virtio_blk_intr (blk_status e) (vblk M)) (\<lambda>(ps, v). Inr (M\<lparr>vblk := v\<rparr>))))"

text \<open>The identifier has ten bits and the table 64 entries: reading the table past its end is a \<open>Fault\<close>.\<close>

definition interrupt_global_handler :: "irq_env \<Rightarrow> 32 word \<Rightarrow> machine \<Rightarrow> machine res option" where
  "interrupt_global_handler e iar M =
     (let intid = unat (iar AND 0x3ff)
      in if intid = 1023 then Some (Inr M)
         else let M = M\<lparr>mgic := gic_eoi iar (mgic M)\<rparr>
              in if intid \<ge> length (int_handler M) then Some (Inl Fault)
                 else case int_handler M ! intid of None \<Rightarrow> Some (Inr M) | Some h \<Rightarrow> run_handler e h M)"

text \<open>
  The entry from an exception. The handlers of the components are arguments here because they work on different parts of the kernel's state: interrupts, system
  calls, page faults with the syndrome bits, and \<^verbatim>\<open>exit\<close>.
\<close>

abbreviation (input) ESR_EC_UNKNOWN :: "64 word" where "ESR_EC_UNKNOWN \<equiv> 0"
abbreviation (input) ESR_EC_SVC64 :: "64 word" where "ESR_EC_SVC64 \<equiv> 0x15"
abbreviation (input) ESR_EC_IABORT_EL0 :: "64 word" where "ESR_EC_IABORT_EL0 \<equiv> 0x20"
abbreviation (input) ESR_EC_IABORT_EL1 :: "64 word" where "ESR_EC_IABORT_EL1 \<equiv> 0x21"
abbreviation (input) ESR_EC_DABORT_EL0 :: "64 word" where "ESR_EC_DABORT_EL0 \<equiv> 0x24"
abbreviation (input) ESR_EC_DABORT_EL1 :: "64 word" where "ESR_EC_DABORT_EL1 \<equiv> 0x25"

definition trap_global_handler ::
  "('s \<Rightarrow> 's res option) \<Rightarrow> ('s \<Rightarrow> 's res option) \<Rightarrow> (64 word \<Rightarrow> 's \<Rightarrow> 's res option) \<Rightarrow> (int \<Rightarrow> 's \<Rightarrow> 's res option)
   \<Rightarrow> ('s \<Rightarrow> bool) \<Rightarrow> ('s \<Rightarrow> 64 word) \<Rightarrow> 64 word \<Rightarrow> 's \<Rightarrow> 's res option" where
  "trap_global_handler intr syscall pgfault exit_proc is_killed elr_of esr s =
     (let ec = drop_bit 26 esr;
          iss = esr AND 0xFFFFFF;
          ir = esr AND push_bit 25 1;
          r = (if ec = ESR_EC_UNKNOWN then (if ir \<noteq> 0 then Some (Inl Panic) else intr s)
               else if ec = ESR_EC_SVC64 then syscall s
               else if ec = ESR_EC_IABORT_EL0 \<or> ec = ESR_EC_IABORT_EL1 \<or> ec = ESR_EC_DABORT_EL0 \<or> ec = ESR_EC_DABORT_EL1 then pgfault iss s
               else Some (Inl Panic))
      in case r of
           Some (Inr s) \<Rightarrow> if is_killed s \<and> elr_of s AND 0xffff000000000000 = 0 then exit_proc (- 1) s else Some (Inr s)
         | _ \<Rightarrow> r)"

definition trap_error_handler :: "64 word \<Rightarrow> 's \<Rightarrow> 's res option" where
  "trap_error_handler type s = Some (Inl Panic)"

section \<open>Start-up\<close>

text \<open>The calls of \<^verbatim>\<open>main\<close> on processor 0 that concern this state, in their order.\<close>

definition main_devices :: "gic_regs \<Rightarrow> 32 word list \<Rightarrow> (reg \<Rightarrow> 32 word) \<Rightarrow> 64 word option \<Rightarrow> 64 word option \<Rightarrow> 64 word option \<Rightarrow> machine \<Rightarrow> machine res" where
  "main_devices R polls REG pdesc pavail pused M =
     (let M = M\<lparr>int_handler := init_interrupt (int_handler M)\<rparr>;
          M = uart_init M;
          M = M\<lparr>mgic := gicv3_init R (mgic M)\<rparr>
      in rbind (gicv3_init_percpu R polls 0 (mgic M)) (\<lambda>g.
         let M = M\<lparr>mgic := g\<rparr>;
             M = M\<lparr>mcpu := init_clock_handler (mcpu M), int_handler := set_interrupt_handler TIMER_IRQ Invoke_clock_handler (int_handler M)\<rparr>
         in rbind (virtio_init REG pdesc pavail pused (int_handler M) (vblk M)) (\<lambda>(h, v).
            Inr (M\<lparr>int_handler := h, vblk := v, mcons := console_init (mcons M)\<rparr>))))"

section \<open>Which interrupts are enabled\<close>

text \<open>The addresses of the set-enable registers of the distributor and of the first redistributor.\<close>

definition isenabler :: "nat \<Rightarrow> 64 word" where
  "isenabler i = (if i < 32 then GICBASE + 0xa0000 + 0x10100 else GICBASE + of_nat (GICD_ISENABLER (i div 32)))"

text \<open>A set-enable register holds the bits written to it: writing 1 enables an interrupt and writing 0 has no effect.\<close>

fun written :: "64 word \<Rightarrow> gic_op list \<Rightarrow> 32 word" where
  "written a [] = 0"
| "written a (Mem a' v # ops) = (if a' = a then v OR written a ops else written a ops)"
| "written a (_ # ops) = written a ops"

definition set_enable_spec :: "gic_regs \<Rightarrow> bool" where
  "set_enable_spec R \<longleftrightarrow> (\<forall>log i. i < 64 \<longrightarrow> mem_reg R log (isenabler i) = written (isenabler i) log)"

definition irq_enabled :: "machine \<Rightarrow> nat \<Rightarrow> bool" where
  "irq_enabled M i \<longleftrightarrow> bit (written (isenabler i) (glog (mgic M))) (i mod 32)"

lemma written_append: "written a (xs @ ys) = written a xs OR written a ys"
  by (induction a xs rule: written.induct) (simp_all add: or.assoc)

abbreviation en :: "64 word \<Rightarrow> gic \<Rightarrow> 32 word" where "en a g \<equiv> written a (glog g)"
abbreviation (input) SPI_EN :: "64 word" where "SPI_EN \<equiv> 0xFFFF000008000104"
abbreviation (input) PPI_EN :: "64 word" where "PPI_EN \<equiv> 0xFFFF0000080B0100"

lemma isenabler_cases: "i < 64 \<Longrightarrow> isenabler i = (if i < 32 then PPI_EN else SPI_EN)"
proof -
  assume "i < 64"
  then have "\<not> i < 32 \<Longrightarrow> i div 32 = 1" by (simp add: div_nat_eqI)
  then show ?thesis by (simp add: isenabler_def GICD_ISENABLER_def)
qed

lemma gop_fields [simp]: "gicd (gop x g) = gicd g" "rdist_addrs (gop x g) = rdist_addrs g" "glog (gop x g) = glog g @ [x]"
  by (simp_all add: gop_def)

lemma wd32_fields [simp]: "gicd (wd32 off v g) = gicd g" "rdist_addrs (wd32 off v g) = rdist_addrs g"
  by (simp_all add: wd32_def)

lemma en_wd32: "en a (wd32 off v g) = (if gicd g + of_nat (off mod U32) = a then en a g OR v else en a g)"
  by (simp add: wd32_def written_append)

definition gic_ready :: "gic \<Rightarrow> bool" where
  "gic_ready g \<longleftrightarrow> gicd g = GICBASE \<and> rdist_addrs g = map (\<lambda>i. GICBASE + 0xa0000 + of_nat i * 0x20000) [0..<4]"

lemma gic_ready_ops [simp]: "gic_ready (wd32 off v g) = gic_ready g" "gic_ready (gop x g) = gic_ready g"
  by (simp_all add: gic_ready_def)

lemma wr32_ready:
  assumes "gic_ready g"
  obtains g' where "wr32 0 off v g = Inr g'" "gic_ready g'"
    "\<And>a. en a g' = (if GICBASE + 0xa0000 + of_nat (off mod U32) = a then en a g OR v else en a g)"
proof (rule that)
  let ?g = "gop (Mem (GICBASE + 0xa0000 + of_nat (off mod U32)) v) g"
  have r: "rdist_addrs g ! 0 = GICBASE + 0xa0000" "length (rdist_addrs g) = 4" using assms by (simp_all add: gic_ready_def)
  show "wr32 0 off v g = Inr ?g" using r by (simp add: wr32_def)
  show "gic_ready ?g" using assms by simp
  show "en a ?g = (if GICBASE + 0xa0000 + of_nat (off mod U32) = a then en a g OR v else en a g)" for a by (simp add: written_append)
qed

lemma rr32_ready: "gic_ready g \<Longrightarrow> rr32 R 0 off g = Inr (mem_reg R (glog g) (GICBASE + 0xa0000 + of_nat (off mod U32)))"
  by (simp add: rr32_def gic_ready_def)

lemmas gicd_offsets = GICD_IGROUPR_def GICD_ISENABLER_def GICD_ICPENDR_def GICD_IPRIORITYR_def GICD_ITARGETSR_def GICR_IPRIORITYR_def

lemma set_enable_at:
  assumes "set_enable_spec R"
  shows "mem_reg R log SPI_EN = written SPI_EN log" "mem_reg R log PPI_EN = written PPI_EN log"
proof -
  have e: "isenabler 33 = SPI_EN" "isenabler 27 = PPI_EN" by (simp_all add: isenabler_cases)
  have m: "mem_reg R log (isenabler i) = written (isenabler i) log" if "i < 64" for i using assms that by (simp add: set_enable_spec_def)
  show "mem_reg R log SPI_EN = written SPI_EN log" "mem_reg R log PPI_EN = written PPI_EN log" using m [of 33] m [of 27] unfolding e by simp_all
qed

lemma setup_spi_en:
  assumes "gic_ready g" "set_enable_spec R" "i = 33 \<or> i = 48"
  shows "gic_ready (gic_setup_spi R i p g)" "en SPI_EN (gic_setup_spi R i p g) = en SPI_EN g OR push_bit (i mod 32) 1" "en PPI_EN (gic_setup_spi R i p g) = en PPI_EN g"
proof -
  have "mem_reg R log SPI_EN = written SPI_EN log" for log by (rule set_enable_at(1) [OF assms(2)])
  moreover have "gicd g = GICBASE" using assms(1) by (simp add: gic_ready_def)
  ultimately show "gic_ready (gic_setup_spi R i p g)" "en SPI_EN (gic_setup_spi R i p g) = en SPI_EN g OR push_bit (i mod 32) 1" "en PPI_EN (gic_setup_spi R i p g) = en PPI_EN g"
    using assms(1,3) by (auto simp: gic_setup_spi_def gic_enable_int_def gic_clear_pending_def gic_set_target_def gic_set_prio_def Let_def
      en_wd32 gicd_offsets rd32_def or.assoc [symmetric])
qed

lemma unat_small: "k < U32 \<Longrightarrow> unat (of_nat k :: 64 word) = k"
  by (simp add: unat_of_nat take_bit_eq_mod)

lemma dist_init_en:
  assumes "gic_ready g"
  shows "gic_ready (gic_dist_init g)" "en SPI_EN (gic_dist_init g) = en SPI_EN g" "en PPI_EN (gic_dist_init g) = en PPI_EN g"
proof -
  have *: "gic_ready (fold (\<lambda>i. wd32 (GICD_IGROUPR i) v) [0..<n] g') \<and> en SPI_EN (fold (\<lambda>i. wd32 (GICD_IGROUPR i) v) [0..<n] g') = en SPI_EN g'
    \<and> en PPI_EN (fold (\<lambda>i. wd32 (GICD_IGROUPR i) v) [0..<n] g') = en PPI_EN g'" if "gic_ready g'" "n \<le> 32" for n v g'
    using that(2)
  proof (induction n)
    case (Suc n)
    then have n: "n < 32" by simp
    have "GICBASE + of_nat (GICD_IGROUPR n mod U32) \<noteq> a" if "a = SPI_EN \<or> a = PPI_EN" for a
    proof
      assume "GICBASE + of_nat (GICD_IGROUPR n mod U32) = a"
      then have "of_nat (0x80 + n * 4) = a - GICBASE" using n by (auto simp: GICD_IGROUPR_def)
      moreover have "unat (of_nat (0x80 + n * 4) :: 64 word) = 0x80 + n * 4" by (rule unat_small) (use n in simp)
      ultimately have "0x80 + n * 4 = unat (a - GICBASE)" by metis
      then show False using n that by auto
    qed
    moreover have "gicd (fold (\<lambda>i. wd32 (GICD_IGROUPR i) v) [0..<n] g') = GICBASE" using Suc by (simp add: gic_ready_def)
    ultimately show ?case using Suc by (simp add: en_wd32)
  qed (use that(1) in simp)
  have "gicd g = GICBASE" using assms by (simp add: gic_ready_def)
  then show "gic_ready (gic_dist_init g)" "en SPI_EN (gic_dist_init g) = en SPI_EN g" "en PPI_EN (gic_dist_init g) = en PPI_EN g"
    using * [of "wd32 GICD_CTLR 0 g" 32 "NOT 0"] assms by (simp_all add: gic_dist_init_def en_wd32)
qed

lemma cpu_init_en:
  assumes "gic_ready g"
  shows "gic_ready (gic_cpu_init g)" "en a (gic_cpu_init g) = en a g"
  using assms by (simp_all add: gic_cpu_init_def written_append)

lemma redist_init_en:
  assumes "gic_ready g" "gic_redist_init R polls 0 g = Inr g'"
  shows "gic_ready g' \<and> en SPI_EN g' = en SPI_EN g \<and> en PPI_EN g' = en PPI_EN g"
proof -
  have step: "gic_ready h' \<and> en SPI_EN h' = en SPI_EN h \<and> en PPI_EN h' = en PPI_EN h"
    if "wr32 0 off v h = Inr h'" "gic_ready h" "off \<in> {0, 0x14, 0x10080, 0x10c04, 0x10d00}" for off v h h'
    by (rule wr32_ready [OF that(2), where off = off and v = v]) (use that in auto)
  have gop: "gic_ready (gop (Icc_sre x) h) = gic_ready h" "en a (gop (Icc_sre x) h) = en a h" for a x h by (simp_all add: written_append)
  show ?thesis using assms unfolding gic_redist_init_def Let_def rbind_eq_Inr_conv
    by (elim exE conjE) (use gop in \<open>auto dest!: step\<close>)
qed

lemma setup_ppi_en:
  assumes g: "gic_ready g" and R: "set_enable_spec R" and st: "gic_setup_ppi R 0 TIMER_IRQ p g = Inr g'"
  shows "gic_ready g' \<and> en SPI_EN g' = en SPI_EN g \<and> en PPI_EN g' = en PPI_EN g OR push_bit 27 1"
proof -
  have sgi: "is_sgi_ppi TIMER_IRQ" by (simp add: is_sgi_ppi_def)
  obtain v0 g0 v1 g1 x where w: "wr32 0 0x10418 v0 g = Inr g0" "wr32 0 0x10280 v1 g0 = Inr g1" "wr32 0 0x10100 (x OR push_bit 27 1) g1 = Inr g'"
    and r: "rr32 R 0 0x10100 g1 = Inr x"
    using st sgi by (auto simp: gic_setup_ppi_def gicr_set_prio_def gicr_clear_pending_def gicr_enable_int_def rbind_eq_Inr_conv gicd_offsets)
  have 0: "gic_ready g0" "en SPI_EN g0 = en SPI_EN g" "en PPI_EN g0 = en PPI_EN g" by (rule wr32_ready [OF g, where off = "0x10418" and v = v0], use w(1) in simp)+
  have 1: "gic_ready g1" "en SPI_EN g1 = en SPI_EN g0" "en PPI_EN g1 = en PPI_EN g0" by (rule wr32_ready [OF 0(1), where off = "0x10280" and v = v1], use w(2) in simp)+
  have x: "x = en PPI_EN g1" using r rr32_ready [OF 1(1), of R "0x10100"] set_enable_at(2) [OF R] by simp
  show ?thesis by (rule wr32_ready [OF 1(1), where off = "0x10100" and v = "x OR push_bit 27 1"]) (use w(3) 0 1 x in \<open>simp add: or.assoc [symmetric]\<close>)
qed

lemma boot_gic_en:
  assumes g: "g = gicv3_init R g0" "glog g0 = []" and R: "set_enable_spec R" and st: "gicv3_init_percpu R polls 0 g = Inr g'"
  shows "en SPI_EN g' = push_bit 1 1 OR push_bit 16 1" "en PPI_EN g' = push_bit 27 1"
proof -
  let ?g = "g0\<lparr>gicd := GICBASE, rdist_addrs := map (\<lambda>i. GICBASE + 0xa0000 + of_nat i * 0x20000) [0..<4]\<rparr>"
  let ?u = "gic_setup_spi R UART_IRQ 0 ?g"
  have r0: "gic_ready ?g" by (simp add: gic_ready_def)
  note 1 = setup_spi_en [OF r0 R, of UART_IRQ 0]
  note 2 = setup_spi_en [OF 1(1) R, of VIRTIO_BLK_IRQ 0]
  have g': "g = gic_setup_spi R VIRTIO_BLK_IRQ 0 ?u" using g(1) by (simp add: gicv3_init_def Let_def)
  have e: "gic_ready g" "en SPI_EN g = push_bit 1 1 OR push_bit 16 1" "en PPI_EN g = 0"
    using 1 2 g(2) unfolding g' by simp_all
  obtain g1 g2 where s: "gic_redist_init R polls 0 (gic_dist_init (gic_cpu_init g)) = Inr g1" "gic_setup_ppi R 0 TIMER_IRQ 0 g1 = Inr g2" "g' = gic_enable g2"
    using st by (auto simp: gicv3_init_percpu_def rbind_eq_Inr_conv)
  note d = dist_init_en [OF cpu_init_en(1) [OF e(1)]]
  note r = redist_init_en [OF d(1) s(1)]
  note p = setup_ppi_en [OF _ R s(2)]
  have "gicd g2 = GICBASE" using r p by (simp add: gic_ready_def)
  then have "en a (gic_enable g2) = en a g2" if "a = SPI_EN \<or> a = PPI_EN" for a
    using that by (auto simp: gic_enable_def written_append en_wd32)
  then show "en SPI_EN g' = push_bit 1 1 OR push_bit 16 1" "en PPI_EN g' = push_bit 27 1"
    using s(3) p r d(2,3) cpu_init_en(2) [OF e(1)] e(2,3) by simp_all
qed

lemma bit_enables:
  "i < 64 \<Longrightarrow> bit (if i < 32 then push_bit 27 1 else push_bit 1 1 OR push_bit 16 1 :: 32 word) (i mod 32) \<longleftrightarrow> i = 27 \<or> i = 33 \<or> i = 48"
proof -
  assume i: "i < 64"
  have m: "\<not> i < 32 \<Longrightarrow> i mod 32 = i - 32" using i by (simp add: mod_if)
  have b: "bit (push_bit n 1 :: 32 word) k \<longleftrightarrow> k = n" if "n < 32" "k < 32" for n k using that by (auto simp: bit_simps)
  show ?thesis
  proof (cases "i < 32")
    case True
    then show ?thesis using b [of 27 i] by (simp only: if_True mod_less) simp
  next
    case False
    then have "i - 32 < 32" using i by simp
    then show ?thesis using b [of 1 "i - 32"] b [of 16 "i - 32"] False by (simp only: if_False m [OF False] bit_or_iff) auto
  qed
qed

text \<open>
  C19: Every interrupt that start-up enables has a handler. After the initialisation calls of \<^verbatim>\<open>main\<close> on processor 0, the controller has exactly interrupts 27, 33 and 48 enabled, and
  the dispatcher runs for them the clock handler, the serial port's handler and the disk's handler. Of the other identifiers, 1023 is ignored, those below 64
  panic, and the rest read the table of handlers past its end.
\<close>

theorem interrupts_dispatched:
  assumes R: "set_enable_spec R" and boot: "main_devices R polls REG pd pa pu M0 = Inr M" and tab: "length (int_handler M0) = NUM_IRQ_TYPES" and log: "glog (mgic M0) = []"
  shows "(\<forall>i<64. irq_enabled M i \<longleftrightarrow> i = TIMER_IRQ \<or> i = UART_IRQ \<or> i = VIRTIO_BLK_IRQ)
     \<and> (\<forall>e iar. interrupt_global_handler e iar M =
          (let i = unat (iar AND 0x3ff); M' = M\<lparr>mgic := gic_eoi iar (mgic M)\<rparr>
           in if i = 1023 then Some (Inr M)
              else if i \<ge> 64 then Some (Inl Fault)
              else if i = TIMER_IRQ then run_handler e Invoke_clock_handler M'
              else if i = UART_IRQ then uartintr e M'
              else if i = VIRTIO_BLK_IRQ then Some (rbind (virtio_blk_intr (blk_status e) (vblk M)) (\<lambda>(ps, v). Inr (M'\<lparr>vblk := v\<rparr>)))
              else Some (Inl Panic)))"
proof -
  obtain g h v where g: "gicv3_init_percpu R polls 0 (gicv3_init R (mgic M0)) = Inr g"
    and v: "virtio_init REG pd pa pu h (vblk M0) = Inr (int_handler M, v)"
    and h: "h = set_interrupt_handler TIMER_IRQ Invoke_clock_handler (set_interrupt_handler UART_IRQ Uartintr (init_interrupt (int_handler M0)))"
    and M: "mgic M = g" "vblk M = v"
    using boot by (auto simp: main_devices_def uart_init_def device_put_u32_def Let_def rbind_eq_Inr_conv)
  have "int_handler M = set_interrupt_handler VIRTIO_BLK_IRQ Virtio_blk_intr h"
    using v by (auto simp: virtio_init_def Let_def rbind_eq_Inr_conv split: if_splits)
  then have t: "int_handler M = (replicate NUM_IRQ_TYPES (Some Default_handler))[33 := Some Uartintr, 27 := Some Invoke_clock_handler, 48 := Some Virtio_blk_intr]"
    unfolding h set_interrupt_handler_def init_interrupt_eq [OF tab] by simp
  have len: "length (int_handler M) = 64" unfolding t by (simp only: length_list_update length_replicate)
  have at: "int_handler M ! i = Some (if i = 27 then Invoke_clock_handler else if i = 33 then Uartintr else if i = 48 then Virtio_blk_intr else Default_handler)"
    if "i < 64" for i unfolding t using that by (simp add: nth_list_update)
  note en = boot_gic_en [OF refl log R g]
  have "irq_enabled M i \<longleftrightarrow> i = TIMER_IRQ \<or> i = UART_IRQ \<or> i = VIRTIO_BLK_IRQ" if "i < 64" for i
    using bit_enables [OF that] unfolding irq_enabled_def isenabler_cases [OF that] M by (cases "i < 32") (simp_all only: en if_True if_False)
  moreover have "interrupt_global_handler e iar M =
          (let i = unat (iar AND 0x3ff); M' = M\<lparr>mgic := gic_eoi iar (mgic M)\<rparr>
           in if i = 1023 then Some (Inr M)
              else if i \<ge> 64 then Some (Inl Fault)
              else if i = TIMER_IRQ then run_handler e Invoke_clock_handler M'
              else if i = UART_IRQ then uartintr e M'
              else if i = VIRTIO_BLK_IRQ then Some (rbind (virtio_blk_intr (blk_status e) (vblk M)) (\<lambda>(ps, v). Inr (M'\<lparr>vblk := v\<rparr>)))
              else Some (Inl Panic))" for e iar
    using at [of "unat (iar AND 0x3ff)"] len by (simp add: interrupt_global_handler_def Let_def run_handler_def default_handler_def)
  ultimately show ?thesis by blast
qed

text \<open>A machine whose controller behaves as assumed.\<close>

definition demo_gic :: gic_regs where
  "demo_gic = \<lparr>mem_reg = (\<lambda>log a. written a log), sre_reg = (\<lambda>_. 0), igrpen1_reg = (\<lambda>_. 0)\<rparr>"

definition demo_machine :: machine where
  "demo_machine = \<lparr>int_handler = replicate 64 None, mgic = \<lparr>gicd = 0, rdist_addrs = [], glog = []\<rparr>, uart_regs = [], vblk = demo_disk,
     mcons = zero_console, mcpu = demo_cpu\<rparr>"

lemma rbind_chain: "\<exists>x. m = Inr x \<and> P x \<Longrightarrow> (\<And>x. P x \<Longrightarrow> \<exists>y. f x = Inr y \<and> Q y) \<Longrightarrow> \<exists>y. rbind m f = Inr y \<and> Q y"
  by auto

lemma wr32_runs: "gic_ready g \<Longrightarrow> \<exists>g'. wr32 0 off v g = Inr g' \<and> gic_ready g'"
  by (rule wr32_ready) blast+

lemma percpu_runs:
  assumes "gic_ready g" "waker_loop polls = Inr ()"
  shows "\<exists>g'. gicv3_init_percpu R polls 0 g = Inr g' \<and> gic_ready g'"
proof -
  have r: "gic_ready (gic_dist_init (gic_cpu_init g))" using dist_init_en(1) [OF cpu_init_en(1) [OF assms(1)]] .
  have 1: "\<exists>g'. gic_redist_init R polls 0 h = Inr g' \<and> gic_ready g'" if "gic_ready h" for h
    unfolding gic_redist_init_def Let_def
    by (rule rbind_chain [OF wr32_runs [OF that]], rule rbind_chain [OF wr32_runs], simp, rule rbind_chain [OF wr32_runs], assumption,
        rule rbind_chain [OF wr32_runs], assumption, simp add: rr32_ready, rule rbind_chain [OF wr32_runs], assumption, simp add: assms(2))
  have 2: "\<exists>g'. gic_setup_ppi R 0 TIMER_IRQ 0 h = Inr g' \<and> gic_ready g'" if "gic_ready h" for h
    unfolding gic_setup_ppi_def gicr_set_prio_def gicr_clear_pending_def gicr_enable_int_def
    using that by (intro rbind_chain [where P = gic_ready]) (simp_all add: is_sgi_ppi_def rr32_ready wr32_runs)
  show ?thesis unfolding gicv3_init_percpu_def
    by (rule rbind_chain [OF 1 [OF r]], rule rbind_chain [OF 2], assumption, simp add: gic_enable_def)
qed

lemma gicv3_init_ready: "set_enable_spec R \<Longrightarrow> gic_ready (gicv3_init R g)"
  unfolding gicv3_init_def Let_def by (intro setup_spi_en(1)) (simp_all add: gic_ready_def)

lemma uart_init_fields [simp]: "mgic (uart_init M) = mgic M" "vblk (uart_init M) = vblk M"
  by (simp_all add: uart_init_def device_put_u32_def Let_def)

lemma main_devices_runs:
  assumes "gicv3_init_percpu R polls 0 (gicv3_init R (mgic M)) = Inr g" "\<And>h. \<exists>x y. virtio_init REG pd pa pu h (vblk M) = Inr (x, y)"
  shows "\<exists>M'. main_devices R polls REG pd pa pu M = Inr M'"
proof -
  let ?h = "set_interrupt_handler TIMER_IRQ Invoke_clock_handler (int_handler (uart_init (M\<lparr>int_handler := init_interrupt (int_handler M)\<rparr>)))"
  obtain x y where "virtio_init REG pd pa pu ?h (vblk M) = Inr (x, y)" using assms(2) by blast
  then show ?thesis using assms(1) by (simp add: main_devices_def Let_def)
qed

lemma demo_boot: "\<exists>M. main_devices demo_gic [0] demo_reg (Some 1) (Some 2) (Some 3) demo_machine = Inr M"
proof -
  let ?g = "gicv3_init demo_gic (mgic demo_machine)"
  have "set_enable_spec demo_gic" by (simp add: set_enable_spec_def demo_gic_def)
  then have "gic_ready ?g" by (rule gicv3_init_ready)
  then obtain g where "gicv3_init_percpu demo_gic [0] 0 ?g = Inr g" using percpu_runs [of ?g "[0]" demo_gic] by auto
  moreover have "\<exists>x y. virtio_init demo_reg (Some 1) (Some 2) (Some 3) h demo_disk = Inr (x, y)" for h by (rule demo_init)
  ultimately show ?thesis by (intro main_devices_runs) (simp_all add: demo_machine_def)
qed

theorem interrupts_dispatched_witness:
  "\<exists>M. main_devices demo_gic [0] demo_reg (Some 1) (Some 2) (Some 3) demo_machine = Inr M \<and> irq_enabled M 48 \<and> \<not> irq_enabled M 29
     \<and> interrupt_global_handler \<lparr>fr_reg = 0, dr_reg = 0, cur_pid = 0, kill_fun = id, blk_status = 0, max_timers = 0, timer_call = \<lambda>_ _. None, clk_freq = 0, clk_now = \<lambda>_. (0, 0)\<rparr> 29 M = Some (Inl Panic)"
proof -
  obtain M where M: "main_devices demo_gic [0] demo_reg (Some 1) (Some 2) (Some 3) demo_machine = Inr M" using demo_boot by blast
  have "set_enable_spec demo_gic" by (simp add: set_enable_spec_def demo_gic_def)
  note d = interrupts_dispatched [OF this M]
  have "length (int_handler demo_machine) = NUM_IRQ_TYPES" "glog (mgic demo_machine) = []" by (simp_all add: demo_machine_def)
  note d = d [OF this]
  have "irq_enabled M 48" "\<not> irq_enabled M 29" using d [THEN conjunct1] by auto
  then show ?thesis using M d [THEN conjunct2] by simp
qed

end
