(* ===== verification/Kernel_PT.thy ===== *)
theory Kernel_PT
  imports Page_Table
begin

unbundle bit_operations_syntax

text \<open>
  The page tables of the kernel (\<^verbatim>\<open>aarch64/kernel_pt.c\<close>) with the address conversions of \<^verbatim>\<open>aarch64/mmu.h\<close>.

  The two tables of 2 MB blocks are written out in the source entry by entry; here they are the lists of the same entries. Entries an initialiser does not mention are 0. The tables
  are at physical pages chosen by the linker, which are arguments (\<open>kpt\<close>).
\<close>

abbreviation (input) PTE_KERNEL_DATA :: "64 word" where "PTE_KERNEL_DATA \<equiv> 0x605"
abbreviation (input) PTE_KERNEL_DEVICE :: "64 word" where "PTE_KERNEL_DEVICE \<equiv> 0x401"

definition K2P :: "64 word \<Rightarrow> 64 word" where
  "K2P addr = addr - 0xFFFF000000000000"

definition P2K :: "64 word \<Rightarrow> 64 word" where
  "P2K addr = addr + 0xFFFF000000000000"

record kpt =
  level1_pa :: nat
  lv2_dev_pa :: nat
  lv2_ram_pa :: nat

definition kernel_pt_lv2_dev :: "64 word list" where
  "kernel_pt_lv2_dev = map (\<lambda>i. word_of_nat (i * 0x200000) AND NOT PTE_VALID) [0..<64]
     @ map (\<lambda>i. word_of_nat (i * 0x200000) OR PTE_KERNEL_DEVICE) [64..<88] @ replicate 424 0"

definition kernel_pt_lv2_ram :: "64 word list" where
  "kernel_pt_lv2_ram = map (\<lambda>i. word_of_nat (i * 0x200000) OR PTE_KERNEL_DATA) [512..<1024]"

definition kernel_pt_level1 :: "kpt \<Rightarrow> 64 word list" where
  "kernel_pt_level1 k = [K2P (P2K (word_of_nat (lv2_dev_pa k))) + PTE_TABLE, K2P (P2K (word_of_nat (lv2_ram_pa k))) + PTE_TABLE] @ replicate 510 0"

definition kernel_pt_level0 :: "kpt \<Rightarrow> 64 word list" where
  "kernel_pt_level0 k = [K2P (P2K (word_of_nat (level1_pa k))) + PTE_TABLE] @ replicate 511 0"

definition invalid_pt :: "64 word list" where
  "invalid_pt = replicate 512 0"

section \<open>Translation by the hardware\<close>

text \<open>
  The architecture's walk from the table \<open>t0\<close>: bits 0 and 1 of an entry are 3 for a table and 1 for a block, and an address inside a 2 MB block keeps its low 21 bits.
  \<open>tabs\<close> is what the physical memory holds at a table's address. The result is the physical address and the attributes.
\<close>

definition mmu_walk :: "(nat \<Rightarrow> 64 word list option) \<Rightarrow> 64 word list \<Rightarrow> 64 word \<Rightarrow> (64 word \<times> 64 word) option" where
  "mmu_walk tabs t0 va =
     (let next_tab = (\<lambda>e. if take_bit 2 e = 3 then tabs (PTE_ADDRESS e) else None)
      in case next_tab (t0 ! VA_PART0 va) of None \<Rightarrow> None | Some t1 \<Rightarrow>
         case next_tab (t1 ! VA_PART1 va) of None \<Rightarrow> None | Some t2 \<Rightarrow>
         let e = t2 ! VA_PART2 va
         in if take_bit 2 e = 1 then Some (push_bit 21 (take_bit 27 (drop_bit 21 e)) OR take_bit 21 va, PTE_FLAGS e) else None)"

definition placed :: "kpt \<Rightarrow> bool" where
  "placed k \<longleftrightarrow> page_ok (level1_pa k) \<and> page_ok (lv2_dev_pa k) \<and> page_ok (lv2_ram_pa k) \<and> distinct [level1_pa k, lv2_dev_pa k, lv2_ram_pa k]"

definition tables :: "kpt \<Rightarrow> nat \<Rightarrow> 64 word list option" where
  "tables k = [level1_pa k \<mapsto> kernel_pt_level1 k, lv2_dev_pa k \<mapsto> kernel_pt_lv2_dev, lv2_ram_pa k \<mapsto> kernel_pt_lv2_ram]"

lemma K2P_P2K [simp]: "K2P (P2K a) = a" "P2K (K2P a) = a"
  by (simp_all add: K2P_def P2K_def)

lemma table_entry:
  assumes "page_ok p"
  shows "take_bit 2 (word_of_nat p + 3 :: 64 word) = 3" "PTE_ADDRESS (word_of_nat p + 3) = p"
proof -
  obtain j where p: "p = 2 ^ 12 * j" using assms by (auto simp: page_ok_def)
  then have w: "word_of_nat p = push_bit 12 (word_of_nat j :: 64 word)" by (simp add: push_bit_eq_mult)
  have m: "(3 :: 64 word) = mask 2" by (simp add: mask_eq_exp_minus_1)
  have "word_of_nat p AND (3 :: 64 word) = 0" unfolding w m by (rule bit_word_eqI) (auto simp: bit_simps)
  then have o: "word_of_nat p + (3 :: 64 word) = word_of_nat p OR 3" by (rule disjunctive_add_eq_or)
  show "take_bit 2 (word_of_nat p + 3 :: 64 word) = 3" unfolding o unfolding w m by (rule bit_word_eqI) (auto simp: bit_simps)
  show "PTE_ADDRESS (word_of_nat p + 3) = p" unfolding o by (rule pte_table(2) [OF assms])
qed

lemma drop_and_mask: "drop_bit k (va AND push_bit k (mask n)) = take_bit n (drop_bit k va)" for va :: "64 word"
  by (rule bit_word_eqI) (auto simp: bit_simps dest: bit_imp_le_length)

lemma part_masks:
  "(0xFF8000000000 :: 64 word) = push_bit 39 (mask 9)" "(0x7FC0000000 :: 64 word) = push_bit 30 (mask 9)" "(0x3FE00000 :: 64 word) = push_bit 21 (mask 9)"
  by (simp_all add: mask_eq_exp_minus_1)

lemma VA_PART_shift:
  "VA_PART0 va = unat (take_bit 9 (drop_bit 39 va))" "VA_PART1 va = unat (take_bit 9 (drop_bit 30 va))" "VA_PART2 va = unat (take_bit 9 (drop_bit 21 va))"
  by (simp_all only: VA_PART0_def VA_PART1_def VA_PART2_def part_masks drop_and_mask)

lemma bits_P2K:
  assumes "pa < 2 ^ 39"
  shows "j + n \<le> 48 \<Longrightarrow> take_bit n (drop_bit j (P2K (word_of_nat pa))) = take_bit n (drop_bit j (word_of_nat pa :: 64 word))"
proof -
  have c: "(0xFFFF000000000000 :: 64 word) = push_bit 48 (mask 16)" by (simp add: mask_eq_exp_minus_1)
  have hi: "\<not> bit pa i" if "39 \<le> i" for i using assms that by (metis bit_take_bit_iff linorder_not_le take_bit_nat_eq_self)
  have "word_of_nat pa AND (0xFFFF000000000000 :: 64 word) = 0" unfolding c by (rule bit_word_eqI) (auto simp: bit_simps hi)
  then have "P2K (word_of_nat pa) = word_of_nat pa OR push_bit 48 (mask 16)" unfolding P2K_def c [symmetric] by (rule disjunctive_add_eq_or)
  then show "j + n \<le> 48 \<Longrightarrow> ?thesis" by (intro bit_word_eqI) (auto simp: bit_simps)
qed

lemma unat_part:
  assumes "pa < 2 ^ 39" "j + 9 \<le> 48"
  shows "unat (take_bit 9 (drop_bit j (P2K (word_of_nat pa)))) = pa div 2 ^ j mod 512"
proof -
  have "unat (word_of_nat pa :: 64 word) = pa" "take_bit 64 pa = pa" using assms(1) by (simp_all add: unat_of_nat take_bit_nat_eq_self)
  then have "unat (take_bit 9 (drop_bit j (word_of_nat pa :: 64 word))) = take_bit 9 (drop_bit j pa)"
    by (simp only: unsigned_take_bit_eq unsigned_drop_bit_eq len_bit0 len_num1) simp
  then show ?thesis unfolding bits_P2K [OF assms] by (simp add: take_bit_eq_mod drop_bit_eq_div)
qed

lemma word_drop_21:
  assumes "pa < 2 ^ 39"
  shows "word_of_nat (pa div 2 ^ 21) = drop_bit 21 (word_of_nat pa :: 64 word)"
proof (rule unsigned_word_eqI)
  have "unat (word_of_nat pa :: 64 word) = pa" "take_bit 64 pa = pa" "unat (word_of_nat (pa div 2 ^ 21) :: 64 word) = drop_bit 21 pa"
    using assms by (simp_all add: unat_of_nat take_bit_nat_eq_self drop_bit_eq_div)
  then show "unat (word_of_nat (pa div 2 ^ 21) :: 64 word) = unat (drop_bit 21 (word_of_nat pa :: 64 word))"
    by (simp only: unsigned_drop_bit_eq len_bit0 len_num1) simp
qed

lemma block_entry:
  assumes pa: "pa < 2 ^ 39" and e: "e = word_of_nat (pa div 2 ^ 21 * 0x200000) OR f" and f: "f = take_bit 12 f"
  shows "push_bit 21 (take_bit 27 (drop_bit 21 e)) OR take_bit 21 (P2K (word_of_nat pa)) = word_of_nat pa" "take_bit 2 e = take_bit 2 f" "PTE_FLAGS e = f"
proof -
  let ?w = "word_of_nat pa :: 64 word"
  have "word_of_nat (pa div 2 ^ 21 * 0x200000) = push_bit 21 (word_of_nat (pa div 2 ^ 21) :: 64 word)" by (simp add: push_bit_eq_mult)
  then have e': "e = push_bit 21 (drop_bit 21 ?w) OR take_bit 12 f" using e f unfolding word_drop_21 [OF pa] by simp
  have hi: "\<not> bit pa i" if "39 \<le> i" for i using pa that by (metis bit_take_bit_iff linorder_not_le take_bit_nat_eq_self)
  have lt: "n - 21 < 27" if "bit pa n" for n using hi [of n] that by (cases "39 \<le> n") auto
  have t: "take_bit 21 (P2K ?w) = take_bit 21 ?w" using bits_P2K [OF pa, of 0 21] by simp
  show "push_bit 21 (take_bit 27 (drop_bit 21 e)) OR take_bit 21 (P2K ?w) = ?w"
    unfolding t e' by (rule bit_word_eqI) (use lt in \<open>auto simp: bit_simps hi\<close>)
  show "take_bit 2 e = take_bit 2 f" unfolding e' by (subst (2) f, rule bit_word_eqI) (auto simp: bit_simps)
  show "PTE_FLAGS e = f" unfolding PTE_FLAGS_def address_mask e' by (subst (2) f, rule bit_word_eqI) (auto simp: bit_simps hi)
qed

lemma nth_blocks:
  "i < a \<Longrightarrow> (map f [0..<a] @ map g [a..<b] @ zs) ! i = f i" "a \<le> i \<Longrightarrow> i < b \<Longrightarrow> (map f [0..<a] @ map g [a..<b] @ zs) ! i = g i"
  "a \<le> b \<Longrightarrow> b \<le> i \<Longrightarrow> i < b + n \<Longrightarrow> (map f [0..<a] @ map g [a..<b] @ replicate n z) ! i = z" "i < b - a \<Longrightarrow> map g [a..<b] ! i = g (a + i)"
  by (auto simp: nth_append)

lemma dev_nth:
  "i < 64 \<Longrightarrow> take_bit 2 (kernel_pt_lv2_dev ! i) = 0" "64 \<le> i \<Longrightarrow> i < 88 \<Longrightarrow> kernel_pt_lv2_dev ! i = word_of_nat (i * 0x200000) OR PTE_KERNEL_DEVICE"
  "88 \<le> i \<Longrightarrow> i < 512 \<Longrightarrow> kernel_pt_lv2_dev ! i = 0"
proof -
  have "word_of_nat (i * 0x200000) = push_bit 21 (word_of_nat i :: 64 word)" by (simp add: push_bit_eq_mult)
  then have "take_bit 2 (word_of_nat (i * 0x200000) AND NOT 1 :: 64 word) = 0" by (simp only: take_bit_and take_bit_push_bit) simp
  then show "i < 64 \<Longrightarrow> take_bit 2 (kernel_pt_lv2_dev ! i) = 0" by (simp only: kernel_pt_lv2_dev_def nth_blocks(1))
  show "64 \<le> i \<Longrightarrow> i < 88 \<Longrightarrow> kernel_pt_lv2_dev ! i = word_of_nat (i * 0x200000) OR PTE_KERNEL_DEVICE" unfolding kernel_pt_lv2_dev_def by (rule nth_blocks(2))
  show "88 \<le> i \<Longrightarrow> i < 512 \<Longrightarrow> kernel_pt_lv2_dev ! i = 0" unfolding kernel_pt_lv2_dev_def by (rule nth_blocks(3)) simp_all
qed

lemma ram_nth: "i < 512 \<Longrightarrow> kernel_pt_lv2_ram ! i = word_of_nat ((512 + i) * 0x200000) OR PTE_KERNEL_DATA"
  unfolding kernel_pt_lv2_ram_def by (rule nth_blocks(4)) simp

section \<open>The kernel's mapping is linear\<close>

lemma walk_step:
  assumes "placed k"
  shows "tables k (level1_pa k) = Some (kernel_pt_level1 k)" "tables k (lv2_dev_pa k) = Some kernel_pt_lv2_dev" "tables k (lv2_ram_pa k) = Some kernel_pt_lv2_ram"
  using assms by (auto simp: tables_def placed_def)

lemma level1_nth: "n < 512 \<Longrightarrow> kernel_pt_level1 k ! n = (if n = 0 then word_of_nat (lv2_dev_pa k) + 3 else if n = 1 then word_of_nat (lv2_ram_pa k) + 3 else 0)"
proof -
  have "([x, y] @ replicate j z) ! n = (if n = 0 then x else if n = 1 then y else z)" if "n < j + 2" for x y z :: "64 word" and j
    using that by (auto simp: nth_append nth_Cons split: nat.splits)
  from this [of 510] show "n < 512 \<Longrightarrow> ?thesis" unfolding kernel_pt_level1_def K2P_P2K by (simp only: numeral_plus_numeral add_num_simps)
qed

definition block_of :: "64 word list \<Rightarrow> 64 word \<Rightarrow> (64 word \<times> 64 word) option" where
  "block_of t va = (let e = t ! VA_PART2 va in if take_bit 2 e = 1 then Some (push_bit 21 (take_bit 27 (drop_bit 21 e)) OR take_bit 21 va, PTE_FLAGS e) else None)"

lemma mmu_walk_level2:
  assumes k: "placed k" and pa: "pa < 2 ^ 39"
  shows "mmu_walk (tables k) (kernel_pt_level0 k) (P2K (word_of_nat pa)) =
     (if pa div 2 ^ 30 = 0 then block_of kernel_pt_lv2_dev (P2K (word_of_nat pa))
      else if pa div 2 ^ 30 = 1 then block_of kernel_pt_lv2_ram (P2K (word_of_nat pa)) else None)"
proof -
  let ?va = "P2K (word_of_nat pa)"
  have p0: "VA_PART0 ?va = 0" using unat_part [OF pa, of 39] pa by (simp add: VA_PART_shift)
  have "pa div 2 ^ 30 < 512" using pa by (simp add: less_mult_imp_div_less)
  then have p1: "VA_PART1 ?va = pa div 2 ^ 30" using unat_part [OF pa, of 30] by (simp add: VA_PART_shift)
  have e0: "kernel_pt_level0 k ! 0 = word_of_nat (level1_pa k) + 3" by (simp add: kernel_pt_level0_def)
  have pg: "page_ok (level1_pa k)" "page_ok (lv2_dev_pa k)" "page_ok (lv2_ram_pa k)" using k by (simp_all add: placed_def)
  note t = table_entry [OF pg(1)] table_entry [OF pg(2)] table_entry [OF pg(3)] walk_step [OF k]
  have n: "kernel_pt_level1 k ! 0 = word_of_nat (lv2_dev_pa k) + 3" "kernel_pt_level1 k ! 1 = word_of_nat (lv2_ram_pa k) + 3"
    "pa div 2 ^ 30 \<noteq> 0 \<Longrightarrow> pa div 2 ^ 30 \<noteq> 1 \<Longrightarrow> kernel_pt_level1 k ! (pa div 2 ^ 30) = 0"
    using level1_nth [of 0 k] level1_nth [of 1 k] level1_nth [OF \<open>pa div 2 ^ 30 < 512\<close>, of k] by simp_all
  have w: "mmu_walk (tables k) (kernel_pt_level0 k) ?va = (case (if take_bit 2 (kernel_pt_level1 k ! (pa div 2 ^ 30)) = 3
     then tables k (PTE_ADDRESS (kernel_pt_level1 k ! (pa div 2 ^ 30))) else None) of None \<Rightarrow> None | Some t2 \<Rightarrow> block_of t2 ?va)"
    unfolding mmu_walk_def block_of_def Let_def p0 e0 p1 t(1,2,7) option.case by simp
  consider "pa div 2 ^ 30 = 0" | "pa div 2 ^ 30 = 1" | "pa div 2 ^ 30 \<noteq> 0" "pa div 2 ^ 30 \<noteq> 1" by blast
  then show ?thesis
  proof cases
    case 1
    then show ?thesis unfolding w 1 n(1) t by simp
  next
    case 2
    then show ?thesis unfolding w 2 n(2) t by simp
  next
    case 3
    then show ?thesis unfolding w n(3) [OF 3] by simp
  qed
qed

text \<open>
  C22: The kernel's page tables map kernel addresses linearly. Translating the kernel address of a physical address below 512 GB with the walk of the hardware gives back that physical
  address, as device memory from 128 MB up to 176 MB, where the interrupt controller, the serial port and the disk have their registers, and as normal memory from 1 GB to 2 GB; every
  other address faults.
\<close>

theorem kernel_mapping_linear:
  assumes "placed k" "pa < 2 ^ 39"
  shows "mmu_walk (tables k) (kernel_pt_level0 k) (P2K (word_of_nat pa)) =
     (if 0x8000000 \<le> pa \<and> pa < 0xB000000 then Some (word_of_nat pa, PTE_KERNEL_DEVICE)
      else if 0x40000000 \<le> pa \<and> pa < 0x80000000 then Some (word_of_nat pa, PTE_KERNEL_DATA) else None)"
proof -
  let ?va = "P2K (word_of_nat pa)" and ?i = "pa div 2 ^ 21"
  have p2: "VA_PART2 ?va = ?i mod 512" using unat_part [OF assms(2), of 21] by (simp only: VA_PART_shift)
  have i30: "pa div 2 ^ 30 = ?i div 512" by (simp add: div_mult2_eq [symmetric])
  have fl: "(0x401 :: 64 word) = take_bit 12 0x401" "(0x605 :: 64 word) = take_bit 12 0x605" "take_bit 2 (0x401 :: 64 word) = 1" "take_bit 2 (0x605 :: 64 word) = 1"
    by (simp_all add: take_bit_eq_mod)
  have iff: "(64 \<le> ?i \<and> ?i < 88) = (0x8000000 \<le> pa \<and> pa < 0xB000000)" "(512 \<le> ?i \<and> ?i < 1024) = (0x40000000 \<le> pa \<and> pa < 0x80000000)"
    by (simp_all add: less_eq_div_iff_mult_less_eq div_less_iff_less_mult)
  consider "?i < 64" | "64 \<le> ?i" "?i < 88" | "88 \<le> ?i" "?i < 512" | "512 \<le> ?i" "?i < 1024" | "1024 \<le> ?i" by linarith
  then show ?thesis
  proof cases
    case 1
    then show ?thesis unfolding mmu_walk_level2 [OF assms] block_of_def p2 i30 iff [symmetric] Let_def by (simp add: dev_nth(1))
  next
    case 2
    note b = block_entry [OF assms(2) dev_nth(2) [OF 2] fl(1)]
    show ?thesis unfolding mmu_walk_level2 [OF assms] block_of_def p2 i30 iff [symmetric] Let_def using 2 b fl(3) by simp
  next
    case 3
    then show ?thesis unfolding mmu_walk_level2 [OF assms] block_of_def p2 i30 iff [symmetric] Let_def by (simp add: dev_nth(3))
  next
    case 4
    then have m: "?i mod 512 < 512" "512 + ?i mod 512 = ?i" "?i div 512 = 1" by (simp_all add: mod_if div_nat_eqI)
    note b = block_entry [OF assms(2) ram_nth [OF m(1), unfolded m(2)] fl(2)]
    show ?thesis unfolding mmu_walk_level2 [OF assms] block_of_def p2 i30 iff [symmetric] Let_def using 4 m b fl(4) by simp
  next
    case 5
    then have "?i div 512 \<ge> 2" by (simp add: less_eq_div_iff_mult_less_eq)
    then show ?thesis unfolding mmu_walk_level2 [OF assms] i30 iff [symmetric] using 5 by simp
  qed
qed

theorem kernel_mapping_linear_witness:
  "let k = \<lparr>level1_pa = 0x40090000, lv2_dev_pa = 0x40091000, lv2_ram_pa = 0x40092000\<rparr>
   in mmu_walk (tables k) (kernel_pt_level0 k) (P2K 0xA000000) = Some (0xA000000, PTE_KERNEL_DEVICE)
    \<and> mmu_walk (tables k) (kernel_pt_level0 k) (P2K 0x40080000) = Some (0x40080000, PTE_KERNEL_DATA)
    \<and> mmu_walk (tables k) (kernel_pt_level0 k) (P2K 0) = None"
proof -
  let ?k = "\<lparr>level1_pa = 0x40090000, lv2_dev_pa = 0x40091000, lv2_ram_pa = 0x40092000\<rparr>"
  have "placed ?k" by (simp add: placed_def page_ok_def)
  note l = kernel_mapping_linear [OF this]
  show ?thesis using l [of "0xA000000"] l [of "0x40080000"] l [of 0] by simp
qed

end
