(* ===== verification/Exec.thy ===== *)
theory Exec
  imports Sysproc Sysfile
begin

unbundle bit_operations_syntax

text \<open>
  Program loading: \<^verbatim>\<open>kernel/exec.c\<close>.

  The new address space is an \<open>mm\<close> built beside the one of the process, so the loader works on it and on the rest of the system; the structure of the process is an argument
  only of the last step. The fields of the ELF headers are at the offsets of the 64-bit little-endian format. Headers are read into variables on the stack, so
  their bytes where a read delivers fewer are the old ones (\<open>junk\<close>). \<open>argv\<close> and \<open>envp\<close> are the strings the user's vectors point to, or \<open>None\<close> for a null pointer. The
  page table register, which \<^verbatim>\<open>attach_pgdir\<close> loads at the end, is not part of this state.
\<close>

section \<open>ELF headers\<close>

abbreviation (input) EHDR_SIZE :: nat where "EHDR_SIZE \<equiv> 64"
abbreviation (input) PHDR_SIZE :: nat where "PHDR_SIZE \<equiv> 56"
abbreviation (input) PT_LOAD :: nat where "PT_LOAD \<equiv> 1"
abbreviation (input) PGDIR_SIZE :: nat where "PGDIR_SIZE \<equiv> 32"

definition ELFMAG :: "byte list" where
  "ELFMAG = [0x7f, 69, 76, 70]"

record Elf64_Ehdr =
  e_ident :: "byte list"
  e_entry :: "64 word"
  e_phoff :: nat
  e_phnum :: nat

record Elf64_Phdr =
  p_type :: nat
  p_flags :: nat
  p_offset :: nat
  p_vaddr :: "64 word"
  p_filesz :: nat
  p_memsz :: nat

definition dec_Ehdr :: "byte list \<Rightarrow> Elf64_Ehdr" where
  "dec_Ehdr bs = \<lparr>e_ident = take 16 bs, e_entry = word_of_nat (le_dec (slice 24 8 bs)), e_phoff = le_dec (slice 32 8 bs), e_phnum = le_dec (slice 56 2 bs)\<rparr>"

definition dec_Phdr :: "byte list \<Rightarrow> Elf64_Phdr" where
  "dec_Phdr bs = \<lparr>p_type = le_dec (slice 0 4 bs), p_flags = le_dec (slice 4 4 bs), p_offset = le_dec (slice 8 8 bs), p_vaddr = word_of_nat (le_dec (slice 16 8 bs)),
     p_filesz = le_dec (slice 32 8 bs), p_memsz = le_dec (slice 40 8 bs)\<rparr>"

text \<open>What \<^verbatim>\<open>inodes.read\<close> returns as a \<^verbatim>\<open>usize\<close>, and the variable it read into.\<close>

definition read_count :: "byte list option \<Rightarrow> nat" where
  "read_count r = (case r of None \<Rightarrow> 2 ^ 64 - 1 | Some bs \<Rightarrow> length bs)"

definition read_into :: "byte list \<Rightarrow> byte list option \<Rightarrow> byte list" where
  "read_into junk r = (case r of None \<Rightarrow> junk | Some bs \<Rightarrow> bs @ drop (length bs) junk)"

section \<open>Loading segments\<close>

definition sys_it :: "(itree \<Rightarrow> ('a \<times> itree) res) \<Rightarrow> sys \<Rightarrow> ('a \<times> sys) res" where
  "sys_it f s = rbind (f (it (fsys s))) (\<lambda>(x, t). Inr (x, s\<lparr>fsys := (fsys s)\<lparr>it := t\<rparr>\<rparr>))"

definition exec_map :: "64 word \<Rightarrow> nat \<Rightarrow> 64 word \<Rightarrow> mm \<Rightarrow> sys \<Rightarrow> (mm \<times> sys) res" where
  "exec_map va ka fl m s = rbind (on_vm (vmmap (pd m) va ka fl) s) (\<lambda>(d, s). Inr (m\<lparr>pd := d\<rparr>, s))"

text \<open>\<^verbatim>\<open>kalloc_page\<close> and \<^verbatim>\<open>memset\<close>.\<close>

definition exec_page :: "sys \<Rightarrow> (nat \<times> sys) res" where
  "exec_page s = rbind (on_vm alloc_page s) (\<lambda>(p, s). Inr (p, s\<lparr>vm := (vm s)\<lparr>mem := memset_page (mem (vm s)) p\<rparr>\<rparr>))"

definition exec_section :: "64 word \<Rightarrow> 64 word \<Rightarrow> 64 word \<Rightarrow> mm \<Rightarrow> sys \<Rightarrow> (mm \<times> sys) res" where
  "exec_section b e fl m s =
     rbind (heap_alloc SECTION_SIZE s) (\<lambda>(a, s).
     Inr (m\<lparr>sections := \<lparr>st_addr = a, flags = fl, st_begin = b, st_end = e, st_sleeplock = init_sem 1, fp = None, st_offset = 0, st_length = 0, st_prot = 0\<rparr>
            # sections m\<rparr>, s))"

text \<open>The loop that copies the file page by page; the first component says whether all reads were complete.\<close>

function load_pages :: "bool \<Rightarrow> nat \<Rightarrow> 64 word \<Rightarrow> nat \<Rightarrow> nat \<Rightarrow> 64 word \<Rightarrow> mm \<Rightarrow> sys \<Rightarrow> ((bool \<times> 64 word) \<times> mm \<times> sys) res" where
  "load_pages alerted ip section_flag file_sz off va m s =
     (if file_sz = 0 then Inr ((True, va), m, s)
      else let va0 = word_page_base va;
               sz = min (PAGE_SIZE - unat (va - va0)) file_sz
           in rbind (exec_page s) (\<lambda>(dest, s).
              let pte_flag = (if section_flag = ST_TEXT then PTE_USER_DATA OR PTE_RO else PTE_USER_DATA)
              in rbind (exec_map va0 dest pte_flag m s) (\<lambda>(m, s).
                 rbind (sys_it (inode_read alerted ip off sz) s) (\<lambda>(r, s).
                 let s = s\<lparr>vm := (vm s)\<lparr>mem := store_bytes (dest + unat (va - va0)) (read_into [] r) (mem (vm s))\<rparr>\<rparr>
                 in if read_count r \<noteq> sz then Inr ((False, va), m, s)
                    else load_pages alerted ip section_flag (file_sz - sz) ((off + sz) mod 2 ^ 64) (va + word_of_nat sz) m s))))"
  by pat_completeness auto

text \<open>The loop over the rest of the bss section, which maps the zero page.\<close>

function load_zero :: "nat \<Rightarrow> nat \<Rightarrow> 64 word \<Rightarrow> mm \<Rightarrow> sys \<Rightarrow> (mm \<times> sys) res" where
  "load_zero dest file_sz va m s =
     (if file_sz = 0 then Inr (m, s)
      else let va0 = word_page_base va;
               sz = min (PAGE_SIZE - unat (va - va0)) file_sz
           in rbind (exec_map va0 dest (PTE_USER_DATA OR PTE_RO) m s) (\<lambda>(m, s).
              load_zero dest (file_sz - sz) (va + word_of_nat sz) m s))"
  by pat_completeness auto

lemma page_offset_less: "unat (va - word_page_base va) < PAGE_SIZE"
proof -
  have "(va AND NOT (mask 12)) AND (va AND mask 12) = 0" by (rule bit_word_eqI) (auto simp: bit_simps)
  then have "word_page_base va + (va AND mask 12) = (va AND NOT (mask 12)) OR (va AND mask 12)"
    unfolding word_page_base_def by (rule disjunctive_add_eq_or)
  also have "\<dots> = va" by (rule bit_word_eqI) (auto simp: bit_simps)
  finally have "va - word_page_base va = va AND mask 12" by (metis add_diff_cancel_left')
  also have "\<dots> = take_bit 12 va" by (simp add: take_bit_eq_mask and.commute)
  finally show ?thesis using take_bit_nat_less_exp [of 12 "unat va"] by (simp add: unsigned_take_bit_eq)
qed

termination load_pages
proof (relation "measure (\<lambda>(alerted, ip, section_flag, file_sz, off, va, m, s). file_sz)", goal_cases)
  case (2 alerted ip section_flag file_sz off va m s)
  then show ?case using page_offset_less [of va] by simp
qed simp

termination load_zero
proof (relation "measure (\<lambda>(dest, file_sz, va, m, s). file_sz)", goal_cases)
  case (2 dest file_sz va m s)
  then show ?case using page_offset_less [of va] by simp
qed simp

declare load_pages.simps [simp del] load_zero.simps [simp del]

text \<open>One program header after the other. The result says whether the file could be loaded, and the largest end of a section.\<close>

definition load_segment :: "bool \<Rightarrow> nat \<Rightarrow> Elf64_Phdr \<Rightarrow> 64 word \<Rightarrow> mm \<Rightarrow> sys \<Rightarrow> ((bool \<times> 64 word) \<times> mm \<times> sys) res" where
  "load_segment alerted ip ph max_end m s =
     (if p_flags ph = 5 \<or> p_flags ph = 6
      then let section_flag = (if p_flags ph = 5 then ST_TEXT else ST_FILE);
               fin = p_vaddr ph + word_of_nat (if p_flags ph = 5 then p_filesz ph else p_memsz ph);
               max_end = (if fin > max_end then fin else max_end)
           in rbind (exec_section (p_vaddr ph) fin section_flag m s) (\<lambda>(m, s).
              rbind (load_pages alerted ip section_flag (p_filesz ph) (p_offset ph) (p_vaddr ph) m s) (\<lambda>((ok, va), m, s).
              if \<not> ok then Inr ((False, max_end), m, s)
              else let va = (if va \<noteq> word_page_base va then word_page_base va + 4096 else va)
                   in if section_flag = ST_FILE \<and> word_of_nat (p_memsz ph) > va - p_vaddr ph
                      then rbind (load_zero (get_zero_page (km (vm s))) (unat (word_of_nat (p_memsz ph) - (va - p_vaddr ph))) va m s) (\<lambda>(m, s).
                           Inr ((True, max_end), m, s))
                      else Inr ((True, max_end), m, s)))
      else Inr ((False, max_end), m, s))"

fun load_segments :: "bool \<Rightarrow> nat \<Rightarrow> byte list \<Rightarrow> nat \<Rightarrow> nat \<Rightarrow> 64 word \<Rightarrow> mm \<Rightarrow> sys \<Rightarrow> ((bool \<times> 64 word) \<times> mm \<times> sys) res" where
  "load_segments alerted ip junk 0 ph_off max_end m s = Inr ((True, max_end), m, s)"
| "load_segments alerted ip junk (Suc k) ph_off max_end m s =
     rbind (sys_it (inode_read alerted ip ph_off PHDR_SIZE) s) (\<lambda>(r, s).
     if read_count r < PHDR_SIZE then Inr ((False, max_end), m, s)
     else let junk = read_into junk r;
              ph_off = (ph_off + PHDR_SIZE) mod 2 ^ 64;
              ph = dec_Phdr junk
          in if p_type ph \<noteq> PT_LOAD then load_segments alerted ip junk k ph_off max_end m s
             else rbind (load_segment alerted ip ph max_end m s) (\<lambda>((ok, max_end), m, s).
                  if ok then load_segments alerted ip junk k ph_off max_end m s else Inr ((False, max_end), m, s)))"

section \<open>The stack of the new program\<close>

fun stack_pages :: "nat list \<Rightarrow> 64 word \<Rightarrow> mm \<Rightarrow> sys \<Rightarrow> (mm \<times> sys) res" where
  "stack_pages [] sp m s = Inr (m, s)"
| "stack_pages (i # is) sp m s =
     rbind (exec_page s) (\<lambda>(p, s).
     rbind (exec_map (sp - word_of_nat (i * PAGE_SIZE)) p PTE_USER_DATA m s) (\<lambda>(m, s).
     stack_pages is sp m s))"

definition exec_out :: "64 word \<Rightarrow> byte list \<Rightarrow> mm \<Rightarrow> sys \<Rightarrow> (mm \<times> sys) res" where
  "exec_out sp bs m s = rbind (on_vm (copyout (pd m) sp bs) s) (\<lambda>(d, s). Inr (m\<lparr>pd := d\<rparr>, s))"

definition words_out :: "64 word list \<Rightarrow> byte list" where
  "words_out ws = concat (map (\<lambda>w. le_enc 8 (unat w)) ws)"

text \<open>The strings are pushed from the last to the first, each with its terminator and aligned to 8 bytes; their addresses go to the array \<open>ps\<close>.\<close>

fun push_strings :: "nat \<Rightarrow> byte list list \<Rightarrow> 64 word list \<Rightarrow> 64 word \<Rightarrow> mm \<Rightarrow> sys \<Rightarrow> ((64 word list \<times> 64 word) \<times> mm \<times> sys) res" where
  "push_strings 0 strs ps sp m s = Inr ((ps, sp), m, s)"
| "push_strings (Suc i) strs ps sp m s =
     (if i \<ge> length ps then Inl Fault
      else let sp = sp - word_of_nat (length (strs ! i) + 1);
               sp = sp - sp mod 8
           in rbind (exec_out sp (strs ! i @ [0]) m s) (\<lambda>(m, s). push_strings i strs (ps[i := sp]) sp m s))"

definition push_vector :: "byte list list option \<Rightarrow> 64 word list \<Rightarrow> 64 word \<Rightarrow> mm \<Rightarrow> sys \<Rightarrow> ((64 word list \<times> nat \<times> 64 word) \<times> mm \<times> sys) res" where
  "push_vector vec ps sp m s =
     (let strs = (case vec of None \<Rightarrow> [] | Some v \<Rightarrow> v); argc = length strs
      in rbind (push_strings argc strs ps sp m s) (\<lambda>((ps, sp), m, s).
         if argc \<ge> length ps then Inl Fault else Inr ((ps[argc := 0], argc, sp), m, s)))"

definition build_stack ::
  "byte list list option \<Rightarrow> byte list list option \<Rightarrow> 64 word list \<Rightarrow> 64 word list \<Rightarrow> 64 word \<Rightarrow> mm \<Rightarrow> sys \<Rightarrow> ((nat \<times> 64 word \<times> 64 word) \<times> mm \<times> sys) res" where
  "build_stack argv envp envp_p argv_p max_end m s =
     (let sp = word_page_base max_end + 4096 + 10 * 4096
      in rbind (stack_pages [1..<11] sp m s) (\<lambda>(m, s).
         rbind (exec_section (sp - 10 * 4096) sp 1024 m s) (\<lambda>(m, s).
         let sp = sp - 16
         in rbind (exec_out sp (le_enc 8 0) m s) (\<lambda>(m, s).
            rbind (push_vector envp envp_p sp m s) (\<lambda>((envp_p, _, sp), m, s).
            let sp = sp - 8
            in rbind (exec_out sp (le_enc 8 0) m s) (\<lambda>(m, s).
               rbind (push_vector argv argv_p sp m s) (\<lambda>((argv_p, argc, sp), m, s).
               let sp = sp - word_of_nat ((argc + 1) * 8)
               in rbind (exec_out sp (words_out (take (argc + 1) envp_p)) m s) (\<lambda>(m, s).
                  let sp = sp - word_of_nat ((argc + 1) * 8); x1 = sp
                  in rbind (exec_out sp (words_out (take (argc + 1) argv_p)) m s) (\<lambda>(m, s).
                     let sp = sp - 8
                     in rbind (exec_out sp (le_enc 8 argc) m s) (\<lambda>(m, s). Inr ((argc, x1, sp), m, s)))))))))))"

section \<open>execve\<close>

record exec_junk =
  j_ehdr :: "byte list"
  j_phdr :: "byte list"
  j_mm :: mm
  j_section :: section_t
  j_envp :: "64 word list"
  j_argv :: "64 word list"

definition end_read :: "ctx \<Rightarrow> nat \<Rightarrow> sys \<Rightarrow> sys res" where
  "end_read ctx ip s =
     rbind (sys_it (\<lambda>t. rbind (inode_unlock ip t) (\<lambda>t. Inr ((), t))) s) (\<lambda>(_, s).
     rbind (sys_it (inode_put ctx ip) s) (\<lambda>(ctx, s).
     on_fs fs_end_op s))"

definition exec_open :: "nat \<Rightarrow> byte list \<Rightarrow> sys \<Rightarrow> ((ctx \<times> nat) \<times> sys) res" where
  "exec_open dir path s =
     rbind (fs_begin_op (fsys s)) (\<lambda>(ctx, y).
     rbind (sys_it (\<lambda>t. rbind (namei dir path ctx t) (\<lambda>(ip, ctx, t). Inr ((ip, ctx), t))) (s\<lparr>fsys := y\<rparr>)) (\<lambda>((ip, ctx), s).
     if ip = 0 then Inl Panic
     else rbind (sys_it (\<lambda>t. rbind (inode_lock ip t) (\<lambda>t. Inr ((), t))) s) (\<lambda>(_, s). Inr ((ctx, ip), s))))"

definition execve :: "bool \<Rightarrow> exec_junk \<Rightarrow> byte list \<Rightarrow> byte list list option \<Rightarrow> byte list list option \<Rightarrow> ust \<Rightarrow> (int \<times> ust) res" where
  "execve alerted j path argv envp = (\<lambda>(p, s).
     rbind (exec_open (cwd_of p) path s) (\<lambda>((ctx, ip), s).
     rbind (sys_it (inode_read alerted ip 0 EHDR_SIZE) s) (\<lambda>(r, s).
     if read_count r < EHDR_SIZE then rbind (end_read ctx ip s) (\<lambda>s. Inr (- 1, p, s))
     else let eh = dec_Ehdr (read_into (j_ehdr j) r)
          in rassert (strncmp (cname (e_ident eh)) (cname ELFMAG) 4 = 0)
            (rbind (heap_alloc PGDIR_SIZE s) (\<lambda>(exec_pgdir, s).
             rbind (init_mm (j_section j) (j_mm j) s) (\<lambda>(m, s).
             rbind (load_segments alerted ip (j_phdr j) (e_phnum eh) (e_phoff eh) 0 m s) (\<lambda>((ok, max_end), m, s).
             rbind (end_read ctx ip s) (\<lambda>s.
             if \<not> ok then rbind (free_pgdir m s) (\<lambda>(m, s). Inr (- 1, p, s))
             else rbind (build_stack argv envp (j_envp j) (j_argv j) max_end m s) (\<lambda>((argc, x1, sp), m, s).
                  let p = p\<lparr>ucontext := (ucontext p)\<lparr>ux := (ux (ucontext p))[0 := word_of_nat argc, 1 := x1]\<rparr>\<rparr>
                  in rbind (free_pgdir (ppgdir p) s) (\<lambda>(_, s).
                     let p = p\<lparr>ucontext := (ucontext p)\<lparr>usp := sp, elr := e_entry eh\<rparr>, ppgdir := m\<rparr>
                     in rbind (heap_free exec_pgdir s) (\<lambda>s. Inr (0, p, s))))))))))))"

text \<open>The system call.\<close>

definition sys_execve :: "bool \<Rightarrow> exec_junk \<Rightarrow> 64 word \<Rightarrow> byte list list option \<Rightarrow> byte list list option \<Rightarrow> ust \<Rightarrow> (int \<times> ust) res" where
  "sys_execve alerted j pathp argv envp st =
     rbind (user_path pathp st) (\<lambda>(path, st). case path of None \<Rightarrow> Inr (- 1, st) | Some path \<Rightarrow> execve alerted j path argv envp st)"

section \<open>What a call of execve leaves\<close>












end
