(* ===== verification/Directory.thy ===== *)
theory Directory
  imports Inode_Data
begin

text \<open>
  Directories as tables of names (\<^verbatim>\<open>inode_lookup\<close> and \<^verbatim>\<open>inode_insert\<close> of \<^verbatim>\<open>fs/inode.c\<close>), on top of reading and writing files.

  \<open>dirents\<close> decodes the content of a directory; the specification of a lookup is a search in that list for the first used entry whose name is the same C
  string of at most 14 characters. An insertion stores into the first unused entry (\<open>insert_place\<close>); when there is none it appends, and \<open>can_append\<close> says that the directory
  may grow: in its last block or by a new direct block that the bitmap has free.
\<close>

definition dirents :: "itree \<Rightarrow> InodeEntry \<Rightarrow> DirEntry list" where
  "dirents s e = map (\<lambda>j. slot_get dec_DirEntry 16 j (file_bytes s e)) [0..<num_bytes e div 16]"

definition named :: "(nat \<Rightarrow> byte) \<Rightarrow> DirEntry \<Rightarrow> bool" where
  "named nm d \<longleftrightarrow> inode_no d \<noteq> 0 \<and> cstr FILE_NAME_MAX_LENGTH ((!) (name d)) = cstr FILE_NAME_MAX_LENGTH nm"

fun first_at :: "('a \<Rightarrow> bool) \<Rightarrow> nat \<Rightarrow> 'a list \<Rightarrow> nat option" where
  "first_at P k [] = None"
| "first_at P k (x # xs) = (if P x then Some k else first_at P (Suc k) xs)"

definition dir_lookup :: "(nat \<Rightarrow> byte) \<Rightarrow> DirEntry list \<Rightarrow> nat \<times> nat" where
  "dir_lookup nm ds = (case first_at (named nm) 0 ds of None \<Rightarrow> (0, 0) | Some j \<Rightarrow> (inode_no (ds ! j), 16 * j))"

definition dir_ok :: "itree \<Rightarrow> nat \<Rightarrow> Inode \<Rightarrow> nat \<Rightarrow> bool" where
  "dir_ok s n i nb \<longleftrightarrow> itable s n = Some i \<and> itype (entry i) = INODE_DIRECTORY \<and> mapped s (entry i) nb \<and> num_bytes (entry i) \<le> nb * BLOCK_SIZE
     \<and> num_bytes (entry i) mod 16 = 0 \<and> quiet_log s"

lemma first_at_Some: "first_at P k xs = Some j \<longleftrightarrow> k \<le> j \<and> j < k + length xs \<and> P (xs ! (j - k)) \<and> (\<forall>l<j - k. \<not> P (xs ! l))"
proof (induction xs arbitrary: k)
  case (Cons x xs)
  show ?case
  proof (cases "P x")
    case True
    then show ?thesis by (cases "j = k") (auto intro: exI [of _ 0])
  next
    case False
    then have "first_at P k (x # xs) = Some j \<longleftrightarrow> Suc k \<le> j \<and> j < Suc k + length xs \<and> P (xs ! (j - Suc k)) \<and> (\<forall>l<j - Suc k. \<not> P (xs ! l))"
      by (simp add: Cons.IH)
    also have "\<dots> \<longleftrightarrow> k \<le> j \<and> j < k + length (x # xs) \<and> P ((x # xs) ! (j - k)) \<and> (\<forall>l<j - k. \<not> P ((x # xs) ! l))"
    proof (cases "Suc k \<le> j")
      case True
      then obtain d where d: "j - k = Suc d" "j - Suc k = d" by (metis Suc_diff_Suc Suc_le_lessD)
      show ?thesis unfolding d All_less_Suc2 nth_Cons_Suc nth_Cons_0 using True False by auto
    next
      case no: False
      then show ?thesis using False by (cases "k = j") auto
    qed
    finally show ?thesis .
  qed
qed auto

lemma first_at_None: "first_at P k xs = None \<longleftrightarrow> (\<forall>x\<in>set xs. \<not> P x)"
  by (induction xs arbitrary: k) auto

lemma same_view_file_bytes: "same_view s s' \<Longrightarrow> file_bytes s' e = file_bytes s e"
  using same_view_fbyte [of s s' e] by (simp add: file_bytes_def)

lemma same_view_dir: "same_view s s' \<Longrightarrow> quiet_log s' \<Longrightarrow> dir_ok s n i nb \<Longrightarrow> dir_ok s' n i nb \<and> dirents s' e = dirents s e"
  using same_view_mapped [of s s' "entry i" nb] same_view_file_bytes [of s s' e] by (simp add: dir_ok_def dirents_def same_view_def)

lemma same_view_trans: "same_view s s' \<Longrightarrow> same_view s' s'' \<Longrightarrow> same_view s s''"
  by (simp add: same_view_def)

lemma length_dirents [simp]: "length (dirents s e) = num_bytes e div 16"
  by (simp add: dirents_def)

lemma read_dirent_ok:
  assumes ok: "dir_ok s n i nb" and j: "j < num_bytes (entry i) div 16" and b: "length buf = 16"
  shows "\<exists>buf' s'. read_dirent n (16 * j) buf s = Inr (buf', s') \<and> length buf' = 16 \<and> dec_DirEntry buf' = dirents s (entry i) ! j \<and> same_view s s' \<and> quiet_log s'"
proof -
  have le: "16 * j + 16 \<le> num_bytes (entry i)" using j by (simp add: less_eq_div_iff_mult_less_eq Suc_le_eq [symmetric])
  obtain s' where r: "inode_read False n (16 * j) 16 s = Inr (Some (slice (16 * j) 16 (file_bytes s (entry i))), s')" "same_view s s'" "quiet_log s'"
    using inode_read_inside [of s n i nb "16 * j" 16] ok le by (auto simp: dir_ok_def)
  have l: "length (slice (16 * j) 16 (file_bytes s (entry i))) = 16" using le by (simp add: file_bytes_def)
  then have "patch 0 (slice (16 * j) 16 (file_bytes s (entry i))) buf = slice (16 * j) 16 (file_bytes s (entry i))" using b by (intro patch_all) simp
  moreover have "dirents s (entry i) ! j = dec_DirEntry (slice (16 * j) 16 (file_bytes s (entry i)))"
    using j by (simp add: dirents_def slot_get_def mult.commute)
  ultimately show ?thesis using r l by (simp add: read_dirent_def)
qed

lemma lookup_from_ok:
  assumes "dir_ok s n i nb" "length buf = 16" "j + length ds = num_bytes (entry i) div 16" "ds = drop j (dirents s (entry i))"
  shows "\<exists>s'. lookup_from n nm (map (\<lambda>k. 16 * k) [j..<num_bytes (entry i) div 16]) buf s
     = Inr (case first_at (named nm) j ds of None \<Rightarrow> (0, 0, s') | Some l \<Rightarrow> (inode_no (dirents s (entry i) ! l), 16 * l, s')) \<and> same_view s s' \<and> quiet_log s'"
  using assms
proof (induction ds arbitrary: j buf s)
  case Nil
  then show ?case by (simp add: dir_ok_def)
next
  case (Cons d ds)
  let ?k = "num_bytes (entry i) div 16"
  have j: "j < ?k" using Cons.prems(3) by simp
  then have u: "[j..<?k] = j # [Suc j..<?k]" by (rule upt_conv_Cons)
  have d: "d = dirents s (entry i) ! j" "ds = drop (Suc j) (dirents s (entry i))"
    using Cons.prems(4) j by (metis Cons_nth_drop_Suc length_dirents list.inject)+
  obtain buf' s1 where r: "read_dirent n (16 * j) buf s = Inr (buf', s1)" "length buf' = 16" "dec_DirEntry buf' = d" "same_view s s1" "quiet_log s1"
    using read_dirent_ok [OF Cons.prems(1) j Cons.prems(2)] d(1) by auto
  have n: "strncmp ((!) (name d)) nm FILE_NAME_MAX_LENGTH = 0 \<and> inode_no d \<noteq> 0 \<longleftrightarrow> named nm d" by (auto simp: named_def strncmp_0_cstr)
  show ?case
  proof (cases "named nm d")
    case True
    then show ?thesis using r d(1) n by (simp add: u Let_def)
  next
    case False
    have v: "dir_ok s1 n i nb" "dirents s1 (entry i) = dirents s (entry i)" using same_view_dir [OF r(4,5) Cons.prems(1)] by auto
    have l: "Suc j + length ds = ?k" "ds = drop (Suc j) (dirents s1 (entry i))" using Cons.prems(3) d(2) v(2) by simp_all
    from Cons.IH [OF v(1) r(2) l, unfolded v(2)] obtain s' where
      "lookup_from n nm (map (\<lambda>k. 16 * k) [Suc j..<?k]) buf' s1
        = Inr (case first_at (named nm) (Suc j) ds of None \<Rightarrow> (0, 0, s') | Some l \<Rightarrow> (inode_no (dirents s (entry i) ! l), 16 * l, s'))" "same_view s1 s'" "quiet_log s'"
      by blast
    then show ?thesis using r(1,3) False n same_view_trans [OF r(4)] by (auto simp: u Let_def)
  qed
qed

lemma dir_offsets_eq: "num_bytes e mod 16 = 0 \<Longrightarrow> dir_offsets (num_bytes e) = map (\<lambda>k. 16 * k) [0..<num_bytes e div 16]"
proof -
  assume "num_bytes e mod 16 = 0"
  then obtain q where "num_bytes e = 16 * q" by (metis mod_0_imp_dvd dvd_def)
  then show ?thesis by (simp add: dir_offsets_def)
qed

lemma inode_lookup_spec:
  assumes ok: "dir_ok s n i nb"
  shows "\<exists>s'. inode_lookup n nm s = Inr (fst (dir_lookup nm (dirents s (entry i))), snd (dir_lookup nm (dirents s (entry i))), s') \<and> same_view s s' \<and> quiet_log s'"
proof -
  have m: "num_bytes (entry i) mod 16 = 0" "itable s n = Some i" "itype (entry i) = INODE_DIRECTORY" using ok by (simp_all add: dir_ok_def)
  have b: "length fresh_dirent = 16" by (simp add: fresh_dirent_def)
  from lookup_from_ok [OF ok b, of 0 "dirents s (entry i)" nm] obtain s' where
    l: "lookup_from n nm (dir_offsets (num_bytes (entry i))) fresh_dirent s
      = Inr (case first_at (named nm) 0 (dirents s (entry i)) of None \<Rightarrow> (0, 0, s') | Some l \<Rightarrow> (inode_no (dirents s (entry i) ! l), 16 * l, s'))"
    and v: "same_view s s'" "quiet_log s'" unfolding dir_offsets_eq [OF m(1)] by auto
  then show ?thesis using m(2,3) unfolding inode_lookup_def
    by (auto simp: get_inode_def dir_lookup_def split: option.splits)
qed

lemma free_slot_from_ok:
  assumes "dir_ok s n i nb" "length buf = 16" "j + length ds = num_bytes (entry i) div 16" "ds = drop j (dirents s (entry i))"
    and "first_at (\<lambda>d. inode_no d = 0) j ds = Some l"
  shows "\<exists>buf' s'. free_slot_from n (map (\<lambda>k. 16 * k) [j..<num_bytes (entry i) div 16]) fin buf s = Inr (16 * l, buf', s') \<and> length buf' = 16 \<and> same_view s s' \<and> quiet_log s'"
  using assms
proof (induction ds arbitrary: j buf s)
  case (Cons d ds)
  let ?k = "num_bytes (entry i) div 16"
  have j: "j < ?k" using Cons.prems(3) by simp
  then have u: "[j..<?k] = j # [Suc j..<?k]" by (rule upt_conv_Cons)
  have d: "d = dirents s (entry i) ! j" "ds = drop (Suc j) (dirents s (entry i))"
    using Cons.prems(4) j by (metis Cons_nth_drop_Suc length_dirents list.inject)+
  obtain buf' s1 where r: "read_dirent n (16 * j) buf s = Inr (buf', s1)" "length buf' = 16" "dec_DirEntry buf' = d" "same_view s s1" "quiet_log s1"
    using read_dirent_ok [OF Cons.prems(1) j Cons.prems(2)] d(1) by auto
  show ?case
  proof (cases "inode_no d = 0")
    case True
    then have "l = j" using Cons.prems(5) by simp
    then show ?thesis unfolding u using r True by simp
  next
    case False
    have v: "dir_ok s1 n i nb" "dirents s1 (entry i) = dirents s (entry i)" using same_view_dir [OF r(4,5) Cons.prems(1)] by auto
    have l: "Suc j + length ds = ?k" "ds = drop (Suc j) (dirents s1 (entry i))" "first_at (\<lambda>d. inode_no d = 0) (Suc j) ds = Some l"
      using Cons.prems(3,5) d(2) v(2) False by simp_all
    from Cons.IH [OF v(1) r(2) l] obtain b2 s' where
      "free_slot_from n (map (\<lambda>k. 16 * k) [Suc j..<?k]) fin buf' s1 = Inr (16 * l, b2, s')" "length b2 = 16" "same_view s1 s'" "quiet_log s'" by blast
    then show ?thesis using r(1,3) False same_view_trans [OF r(4)] by (auto simp: u)
  qed
qed simp

lemma touched_slot: "blocks_touched (16 * l) 16 \<le> 1"
proof -
  have "16 * l mod BLOCK_SIZE = 16 * (l mod 32)" by (simp add: mult_mod_right)
  moreover have "l mod 32 \<le> 31" by simp
  ultimately have "16 * l mod BLOCK_SIZE + 16 \<le> BLOCK_SIZE" by linarith
  then have "(16 * l mod BLOCK_SIZE + 16 + (BLOCK_SIZE - 1)) div BLOCK_SIZE < 2" by (intro less_mult_imp_div_less) simp
  then show ?thesis by (simp add: blocks_touched_def)
qed

text \<open>The new entry: what \<^verbatim>\<open>strncpy\<close> makes of the name.\<close>

definition new_entry :: "(nat \<Rightarrow> byte) \<Rightarrow> nat \<Rightarrow> byte list \<Rightarrow> DirEntry" where
  "new_entry nm m old = \<lparr>inode_no = m, name = map (strncpy ((!) old) nm FILE_NAME_MAX_LENGTH) [0..<FILE_NAME_MAX_LENGTH]\<rparr>"

lemma named_new: "m \<noteq> 0 \<Longrightarrow> named nm' (new_entry nm m old) \<longleftrightarrow> cstr FILE_NAME_MAX_LENGTH nm' = cstr FILE_NAME_MAX_LENGTH nm"
proof -
  have "map ((!) (map f [0..<n])) [0..<n] = map f [0..<n]" for f :: "nat \<Rightarrow> byte" and n by (rule nth_equalityI) simp_all
  then have "cstr n ((!) (map f [0..<n])) = cstr n f" for f n by (simp only: cstr_def)
  moreover have "cstr FILE_NAME_MAX_LENGTH (strncpy ((!) old) nm FILE_NAME_MAX_LENGTH) = cstr FILE_NAME_MAX_LENGTH nm"
    using strncpy_copies [of "(!) old" nm FILE_NAME_MAX_LENGTH] by (simp only: strncmp_0_cstr)
  ultimately show "m \<noteq> 0 \<Longrightarrow> ?thesis" by (auto simp: named_def new_entry_def simp del: upt_Suc)
qed

lemma first_at_update: "l < length xs \<Longrightarrow> \<not> P (xs ! l) \<Longrightarrow> \<not> P x \<Longrightarrow> first_at P k (xs[l := x]) = first_at P k xs"
  by (induction xs arbitrary: l k) (auto split: nat.splits)

lemma dir_lookup_update:
  assumes l: "first_at (\<lambda>d. inode_no d = 0) 0 ds = Some l" and new: "first_at (named nm) 0 ds = None" "m \<noteq> 0"
  shows "dir_lookup nm' (ds[l := new_entry nm m old]) = (if cstr FILE_NAME_MAX_LENGTH nm' = cstr FILE_NAME_MAX_LENGTH nm then (m, 16 * l) else dir_lookup nm' ds)"
proof -
  let ?d = "new_entry nm m old"
  have lt: "l < length ds" "inode_no (ds ! l) = 0" using l by (simp_all add: first_at_Some)
  then have free: "\<not> named nm' (ds ! l)" by (simp add: named_def)
  show ?thesis
  proof (cases "cstr FILE_NAME_MAX_LENGTH nm' = cstr FILE_NAME_MAX_LENGTH nm")
    case True
    then have "named nm' = named nm" by (auto simp: named_def fun_eq_iff)
    then have none: "\<not> named nm' (ds ! j)" if "j < length ds" for j using new(1) that by (simp add: first_at_None)
    have "first_at (named nm') 0 (ds[l := ?d]) = Some l"
      unfolding first_at_Some using lt named_new [OF new(2), of nm' nm old] True none by (auto simp: nth_list_update)
    then show ?thesis using True lt by (simp add: dir_lookup_def new_entry_def)
  next
    case False
    then have f: "first_at (named nm') 0 (ds[l := ?d]) = first_at (named nm') 0 ds"
      using lt free named_new [OF new(2)] by (intro first_at_update) auto
    have "j \<noteq> l" if "first_at (named nm') 0 ds = Some j" for j using that free by (auto simp: first_at_Some)
    then show ?thesis using False f by (auto simp: dir_lookup_def split: option.split)
  qed
qed

section \<open>Extending a directory\<close>

text \<open>The inode's entry is written back to its block.\<close>

lemma sync_entry:
  assumes i: "itable s n = Some i" "ivalid i" "InodeEntry_ok (entry i)" and rdy: "op_ready c (Suc k) (bc s)" and u: "usable s (to_block_no s n)"
  obtains c' s' where "inode_sync (Some c) n True s = Inr (Some c', s')" "op_ready c' k (bc s')"
    "\<forall>b. b \<noteq> to_block_no s n \<longrightarrow> bview (bc s') b = bview (bc s) b" "held (bc s') = held (bc s)" "sblock (bc s') = sblock (bc s)"
    "bitmap_lock (bc s') = bitmap_lock (bc s)" "itable s' = itable s"
proof -
  let ?b = "to_block_no s n"
  let ?d = "put_entry n (entry i) (bview (bc s) ?b)"
  have l: "length (bview (bc s) ?b) = BLOCK_SIZE" using bview_length [OF op_ready_quiet [OF rdy]] .
  have "n mod INODE_PER_BLOCK \<le> 7" by simp
  then have "n mod INODE_PER_BLOCK * 64 + 64 \<le> BLOCK_SIZE" by linarith
  then have "length ?d = BLOCK_SIZE" using inodeentry.length_slot_put [OF i(3), of "n mod INODE_PER_BLOCK" "bview (bc s) ?b"] l by (simp add: put_entry_def)
  from write_block [OF rdy u this] obtain s1 c' t s' where
    w: "fs_acquire ?b s = Inr s1" "fs_data ?b s1 = Inr (bview (bc s) ?b)" "fs_sync (Some c) ?b (fs_set_data ?b ?d s1) = Inr (Some c', t)" "fs_release ?b t = Inr s'"
      "op_ready c' k (bc s')" "bview (bc s') = (bview (bc s))(?b := ?d)" "held (bc s') = held (bc s)" "sblock (bc s') = sblock (bc s)" "itable s' = itable s"
      "bitmap_lock (bc s') = bitmap_lock (bc s)" by metis
  have "inode_sync (Some c) n True s = Inr (Some c', s')" using i w(1-4) by (simp add: inode_sync_def get_inode_def Let_def)
  then show ?thesis using that w(5-10) by simp
qed

text \<open>Blocks of a file, with its indirect block.\<close>

definition file_blocks :: "itree \<Rightarrow> InodeEntry \<Rightarrow> nat \<Rightarrow> nat set" where
  "file_blocks s e nb = fblock s e ` {..<nb} \<union> (if INODE_NUM_DIRECT < nb then {indirect e} else {})"

lemma mapped_frame:
  assumes m: "mapped s e nb" and v: "\<forall>b\<in>file_blocks s e nb. bview (bc s') b = bview (bc s) b" and h: "held (bc s') = held (bc s)" "sblock (bc s') = sblock (bc s)"
    and a: "\<forall>k<nb. k < INODE_NUM_DIRECT \<longrightarrow> addrs e' ! k = addrs e ! k" "indirect e' = indirect e"
  shows "mapped s' e' nb" "k < nb \<Longrightarrow> fblock s' e' k = fblock s e k" "p div BLOCK_SIZE < nb \<Longrightarrow> fbyte s' e' p = fbyte s e p"
proof -
  show f: "fblock s' e' k = fblock s e k" if "k < nb" for k
    using that v a by (auto simp: fblock_def file_blocks_def)
  have "inj_on (fblock s' e') {..<nb}" using m f by (auto simp: mapped_def inj_on_def)
  moreover have "fblock s' e' ` {..<nb} = fblock s e ` {..<nb}" using f by (intro image_cong) auto
  ultimately show "mapped s' e' nb" using m f h a(2) by (simp add: mapped_def usable_def)
  show "fbyte s' e' p = fbyte s e p" if p: "p div BLOCK_SIZE < nb" for p
    using f [OF p] v p by (auto simp: fbyte_def file_blocks_def)
qed

text \<open>
  What it takes to append one entry: the inode has been read and its block can be written, and either the last block of the directory has room, or the next block is a direct one and the
  bitmap, in which all blocks in use are marked, has a free block.
\<close>

definition can_append :: "itree \<Rightarrow> nat \<Rightarrow> Inode \<Rightarrow> nat \<Rightarrow> bool" where
  "can_append s n i nb \<longleftrightarrow>
     (let e = entry i; sb = sblock (bc s); used = insert (to_block_no s n) (file_blocks s e nb) in
      ivalid i \<and> InodeEntry_ok e \<and> usable s (to_block_no s n) \<and> to_block_no s n \<notin> file_blocks s e nb
      \<and> (num_bytes e < nb * BLOCK_SIZE
         \<or> num_bytes e = nb * BLOCK_SIZE \<and> nb < INODE_NUM_DIRECT \<and> addrs e ! nb = 0 \<and> bitmap_ready (bc s) \<and> bitmap_start sb \<notin> used
           \<and> num_blocks sb \<le> BIT_PER_BLOCK \<and> (\<exists>a<num_blocks sb. \<not> data_bitmap_get (bitmap_of (bc s)) a)
           \<and> (\<forall>b\<in>used \<union> {0, bitmap_start sb} \<union> log_area sb \<union> held (bc s). data_bitmap_get (bitmap_of (bc s)) b)))"

text \<open>The size is set first and the inode synced.\<close>

lemma append_size:
  assumes i: "itable s n = Some i" "ivalid i" and e: "InodeEntry_ok (entry i)" "fin < U32" and m: "mapped s (entry i) nb" and rdy: "op_ready c (Suc k) (bc s)"
    and u: "usable s (to_block_no s n)" "to_block_no s n \<notin> file_blocks s (entry i) nb"
  obtains c' s' where "inode_sync (Some c) n True (set_entry n (\<lambda>e. e\<lparr>num_bytes := fin\<rparr>) s) = Inr (Some c', s')" "op_ready c' k (bc s')"
    "itable s' = (itable s)(n \<mapsto> i\<lparr>entry := (entry i)\<lparr>num_bytes := fin\<rparr>\<rparr>)" "\<forall>b. b \<noteq> to_block_no s n \<longrightarrow> bview (bc s') b = bview (bc s) b"
    "held (bc s') = held (bc s)" "sblock (bc s') = sblock (bc s)" "bitmap_lock (bc s') = bitmap_lock (bc s)"
proof -
  let ?s = "set_entry n (\<lambda>e. e\<lparr>num_bytes := fin\<rparr>) s" and ?i = "i\<lparr>entry := (entry i)\<lparr>num_bytes := fin\<rparr>\<rparr>"
  have t: "itable ?s = (itable s)(n \<mapsto> ?i)" "bc ?s = bc s" "to_block_no ?s n = to_block_no s n" "itable ?s n = Some ?i" using i(1) by (simp_all add: set_entry_def set_inode_def to_block_no_def)
  have v: "ivalid ?i" using i(2) by simp
  have eok: "InodeEntry_ok (entry ?i)" using e by (simp add: InodeEntry_ok_def)
  have r: "op_ready c (Suc k) (bc ?s)" "usable ?s (to_block_no ?s n)" using rdy u(1) t(2,3) by (simp_all add: usable_def)
  obtain c' s' where w: "inode_sync (Some c) n True ?s = Inr (Some c', s')" "op_ready c' k (bc s')"
    "\<forall>b. b \<noteq> to_block_no ?s n \<longrightarrow> bview (bc s') b = bview (bc ?s) b" "held (bc s') = held (bc ?s)" "sblock (bc s') = sblock (bc ?s)"
    "bitmap_lock (bc s') = bitmap_lock (bc ?s)" "itable s' = itable ?s"
    by (rule sync_entry [OF t(4) v eok r])
  show ?thesis by (rule that [OF w(1,2)]) (use w(3-) t(1-3) in \<open>simp_all only:\<close>)
qed

text \<open>Mapping the next, direct block allocates it and syncs the inode.\<close>

lemma map_grows:
  assumes i: "itable s n = Some i" "ivalid i" and e: "InodeEntry_ok (entry i)" and rdy: "op_ready c (Suc (Suc (Suc k))) (bc s)" and u: "usable s (to_block_no s n)"
    and nb: "nb < INODE_NUM_DIRECT" "addrs (entry i) ! nb = 0" and bm: "bitmap_ready (bc s)" "bitmap_start (sblock (bc s)) \<noteq> to_block_no s n"
    and a: "first_clear data_bitmap_get (min BIT_PER_BLOCK (num_blocks (sblock (bc s)))) (bitmap_of (bc s)) = Some a" "usable s a"
      "a \<noteq> bitmap_start (sblock (bc s))" "a \<noteq> to_block_no s n"
  obtains c' s' where "inode_map (Some c) n nb s = Inr (a, True, Some c', s')" "op_ready c' k (bc s')"
    "itable s' = (itable s)(n \<mapsto> i\<lparr>entry := (entry i)\<lparr>addrs := (addrs (entry i))[nb := a]\<rparr>\<rparr>)"
    "\<forall>b. b \<notin> {to_block_no s n, a, bitmap_start (sblock (bc s))} \<longrightarrow> bview (bc s') b = bview (bc s) b"
    "held (bc s') = held (bc s)" "sblock (bc s') = sblock (bc s)"
proof -
  have f: "a \<notin> held (bc s)" "a \<notin> log_area (sblock (bc s))" using a(2) by (simp_all add: usable_def)
  obtain c1 k1 where
    1: "cache_alloc (Some c) (bc s) = Inr (a, Some c1, k1)" "op_ready c1 (Suc k) k1" "held k1 = held (bc s)"
      "bview k1 = (bview (bc s))(bitmap_start (sblock (bc s)) := data_bitmap_set a (bitmap_of (bc s)), a := replicate BLOCK_SIZE 0)"
      "bitmap_lock k1 = bitmap_lock (bc s)" "rest (k1\<lparr>header := header (bc s)\<rparr>) = rest (bc s)"
    by (rule cache_alloc_update [OF rdy bm(1) a(1) f a(3)])
  have sb: "sblock k1 = sblock (bc s)" using 1(6) by (simp add: rest_eq_iff)
  let ?i = "i\<lparr>entry := (entry i)\<lparr>addrs := (addrs (entry i))[nb := a]\<rparr>\<rparr>"
  let ?s = "set_entry n (\<lambda>e. e\<lparr>addrs := (addrs e)[nb := a]\<rparr>) (s\<lparr>bc := k1\<rparr>)"
  have t: "itable ?s = (itable s)(n \<mapsto> ?i)" "itable ?s n = Some ?i" "bc ?s = k1" "to_block_no ?s n = to_block_no s n"
    using i(1) sb by (simp_all add: set_entry_def set_inode_def to_block_no_def)
  have "a < BIT_PER_BLOCK" using block_bits.first_clear_Some [OF a(1)] by simp
  then have a32: "a < U32" by simp
  have "\<forall>x\<in>set (addrs (entry i)). x < U32" using e by (simp add: InodeEntry_ok_def)
  then have "\<forall>x\<in>set ((addrs (entry i))[nb := a]). x < U32" using a32 set_update_subset_insert [of "addrs (entry i)" nb a] by blast
  then have eok: "InodeEntry_ok (entry ?i)" using e by (simp add: InodeEntry_ok_def)
  have r: "op_ready c1 (Suc k) (bc ?s)" "usable ?s (to_block_no ?s n)" "ivalid ?i" using 1(2,3) u i(2) t(3,4) sb by (simp_all add: usable_def)
  obtain c' s' where
    w: "inode_sync (Some c1) n True ?s = Inr (Some c', s')" "op_ready c' k (bc s')" "\<forall>b. b \<noteq> to_block_no ?s n \<longrightarrow> bview (bc s') b = bview (bc ?s) b"
      "held (bc s') = held (bc ?s)" "sblock (bc s') = sblock (bc ?s)" "bitmap_lock (bc s') = bitmap_lock (bc ?s)" "itable s' = itable ?s"
    by (rule sync_entry [OF t(2) r(3) eok r(1,2)])
  have mp: "inode_map (Some c) n nb s = Inr (a, True, Some c', s')"
    by (simp only: inode_map_def get_inode_def i(1) option.case rbind_Inr nb if_True if_False fs_alloc_def 1(1) prod.case option.distinct Let_def w(1) simp_thms)
  have v: "bview k1 b = bview (bc s) b" if "b \<noteq> a" "b \<noteq> bitmap_start (sblock (bc s))" for b using that by (simp only: 1(4) fun_upd_apply if_False)
  show ?thesis
  proof (rule that [OF mp w(2)])
    show "itable s' = (itable s)(n \<mapsto> ?i)" using w(7) t(1) by (simp only:)
    show "\<forall>b. b \<notin> {to_block_no s n, a, bitmap_start (sblock (bc s))} \<longrightarrow> bview (bc s') b = bview (bc s) b"
    proof (intro allI impI)
      fix b assume "b \<notin> {to_block_no s n, a, bitmap_start (sblock (bc s))}"
      then show "bview (bc s') b = bview (bc s) b" using w(3) [unfolded t(3,4), rule_format, of b] v [of b] by (simp only: insert_iff empty_iff de_Morgan_disj simp_thms)
    qed
    show "held (bc s') = held (bc s)" "sblock (bc s') = sblock (bc s)" using w(4,5) t(3) 1(3) sb by (simp_all only:)
  qed
qed

lemma write_loop_grown:
  assumes "inode_map (Some c0) n (off div BLOCK_SIZE) s0 = Inr (a, True, Some c1, s1)" "inode_map (Some c1) n (off div BLOCK_SIZE) s1 = Inr (a, False, Some c1, s1)"
  shows "src \<noteq> [] \<Longrightarrow> inode_write_loop (Some c0) n src off s0 = inode_write_loop (Some c1) n src off s1"
  using assms by (simp add: inode_write_loop.simps [of "Some c0" n src off s0] inode_write_loop.simps [of "Some c1" n src off s1] Let_def)

lemma mapped_extend:
  assumes m: "mapped s e nb" and nb: "nb < INODE_NUM_DIRECT" "addrs e ! nb = a" and a: "usable s a" "a \<notin> fblock s e ` {..<nb}"
  shows "mapped s e (Suc nb)"
proof -
  have f: "fblock s e nb = a" using nb by (simp add: fblock_def)
  have "\<forall>k<Suc nb. usable s (fblock s e k)" using m a(1) f by (auto simp: mapped_def less_Suc_eq)
  moreover have "inj_on (fblock s e) {..<Suc nb}" using m a(2) f by (simp add: mapped_def lessThan_Suc)
  ultimately show ?thesis using m nb(1) by (simp add: mapped_def)
qed

text \<open>A free block for the directory.\<close>

lemma free_block:
  assumes "\<exists>a<num_blocks (sblock k). \<not> data_bitmap_get (bitmap_of k) a" and "num_blocks (sblock k) \<le> BIT_PER_BLOCK" and "\<forall>b\<in>U. data_bitmap_get (bitmap_of k) b"
  obtains a where "first_clear data_bitmap_get (min BIT_PER_BLOCK (num_blocks (sblock k))) (bitmap_of k) = Some a" "a \<notin> U" "a < U64"
proof (cases "first_clear data_bitmap_get (min BIT_PER_BLOCK (num_blocks (sblock k))) (bitmap_of k)")
  case None
  then show ?thesis using assms(1,2) unfolding block_bits.first_clear_None by (metis min_less_iff_conj order_less_le_trans)
next
  case (Some a)
  have "a < BIT_PER_BLOCK" "\<not> data_bitmap_get (bitmap_of k) a" using block_bits.first_clear_Some [OF Some] by simp_all
  moreover from this(1) have "a < U64" by simp
  ultimately show ?thesis using that [OF Some] assms(3) by blast
qed

text \<open>Before the bytes of the new entry are written: the inode has its new size and the block for them.\<close>

lemma append_prepares:
  assumes ok: "dir_ok s n i nb" and can: "can_append s n i nb" and rdy: "op_ready c 5 (bc s)" and src: "length src = 16"
  obtains c1 s1 i1 nb1 where
    "inode_write (Some c) n src (num_bytes (entry i)) s = rbind (inode_write_loop (Some c1) n src (num_bytes (entry i)) s1) (\<lambda>(ctx, s). Inr (length src, ctx, s))"
    "itable s1 n = Some i1" "itype (entry i1) = itype (entry i)" "num_bytes (entry i1) = num_bytes (entry i) + 16" "mapped s1 (entry i1) nb1"
    "num_bytes (entry i) + 16 \<le> nb1 * BLOCK_SIZE" "op_ready c1 1 (bc s1)" "\<forall>p<num_bytes (entry i). fbyte s1 (entry i1) p = fbyte s (entry i) p"
proof -
  let ?e = "entry i" and ?off = "num_bytes (entry i)"
  have o: "itable s n = Some i" "itype ?e = INODE_DIRECTORY" "mapped s ?e nb" "?off \<le> nb * BLOCK_SIZE" "?off mod 16 = 0" using ok by (simp_all add: dir_ok_def)
  have a: "ivalid i" "InodeEntry_ok ?e" "usable s (to_block_no s n)" "to_block_no s n \<notin> file_blocks s ?e nb" using can by (simp_all add: can_append_def Let_def)
  have nbm: "nb \<le> INODE_MAX_BLOCKS" using o(3) by (simp add: mapped_def)
  have room: "?off + 16 \<le> INODE_MAX_BYTES"
  proof (cases "?off < nb * BLOCK_SIZE")
    case True
    obtain q where "?off = 16 * q" using o(5) by (metis mod_0_imp_dvd dvd_def)
    then show ?thesis using True nbm by simp
  next
    case False
    then show ?thesis using can nbm o(4) by (auto simp: can_append_def Let_def)
  qed
  have f: "(?off + length src) mod U64 = ?off + 16" "?off + 16 < U32" using room src by simp_all
  have rdy4: "op_ready c (Suc 4) (bc s)" using rdy by simp
  obtain c0 s0 where 0: "inode_sync (Some c) n True (set_entry n (\<lambda>e. e\<lparr>num_bytes := ?off + 16\<rparr>) s) = Inr (Some c0, s0)" "op_ready c0 4 (bc s0)"
    "itable s0 = (itable s)(n \<mapsto> i\<lparr>entry := ?e\<lparr>num_bytes := ?off + 16\<rparr>\<rparr>)" "\<forall>b. b \<noteq> to_block_no s n \<longrightarrow> bview (bc s0) b = bview (bc s) b"
    "held (bc s0) = held (bc s)" "sblock (bc s0) = sblock (bc s)" "bitmap_lock (bc s0) = bitmap_lock (bc s)"
    by (rule append_size [OF o(1) a(1,2) f(2) o(3) rdy4 a(3,4)])
  let ?i0 = "i\<lparr>entry := ?e\<lparr>num_bytes := ?off + 16\<rparr>\<rparr>"
  have w: "inode_write (Some c) n src ?off s = rbind (inode_write_loop (Some c0) n src ?off s0) (\<lambda>(ctx, s). Inr (length src, ctx, s))"
    using o(1,2) f(1) room 0(1) unfolding inode_write_def Let_def by (simp add: get_inode_def)
  have v0: "\<forall>b\<in>file_blocks s ?e nb. bview (bc s0) b = bview (bc s) b" using 0(4) a(4) by metis
  note m0 = mapped_frame [OF o(3) v0 0(5,6), of "entry ?i0"]
  have lt: "p div BLOCK_SIZE < nb" if "p < ?off" for p using that o(4) by (intro less_mult_imp_div_less) linarith
  show ?thesis
  proof (cases "?off < nb * BLOCK_SIZE")
    case True
    obtain q where "?off = 16 * q" using o(5) by (metis mod_0_imp_dvd dvd_def)
    then have "?off + 16 \<le> nb * BLOCK_SIZE" using True by simp
    moreover have "op_ready c0 1 (bc s0)" by (rule op_ready_less [OF 0(2)]) simp
    ultimately show ?thesis using that [OF w, of ?i0 nb] 0(3) m0 lt by simp
  next
    case False
    let ?sb = "sblock (bc s)"
    have c: "?off = nb * BLOCK_SIZE" "nb < INODE_NUM_DIRECT" "addrs ?e ! nb = 0" "bitmap_ready (bc s)" "bitmap_start ?sb \<notin> insert (to_block_no s n) (file_blocks s ?e nb)"
      "num_blocks ?sb \<le> BIT_PER_BLOCK" "\<exists>a<num_blocks ?sb. \<not> data_bitmap_get (bitmap_of (bc s)) a"
      "\<forall>b\<in>insert (to_block_no s n) (file_blocks s ?e nb) \<union> {0, bitmap_start ?sb} \<union> log_area ?sb \<union> held (bc s). data_bitmap_get (bitmap_of (bc s)) b"
      using can False o(4) by (simp_all add: can_append_def Let_def)
    obtain a where A: "first_clear data_bitmap_get (min BIT_PER_BLOCK (num_blocks ?sb)) (bitmap_of (bc s)) = Some a"
        "a \<notin> insert (to_block_no s n) (file_blocks s ?e nb) \<union> {0, bitmap_start ?sb} \<union> log_area ?sb \<union> held (bc s)" "a < U64"
      by (rule free_block [OF c(7,6,8)])
    have e0: "itable s0 n = Some ?i0" "ivalid ?i0" "addrs (entry ?i0) ! nb = 0" using 0(3) a(1) c(3) by simp_all
    have eok: "InodeEntry_ok (entry ?i0)" using a(2) f(2) by (simp add: InodeEntry_ok_def)
    have bmv: "bitmap_of (bc s0) = bitmap_of (bc s)" using 0(4,6) c(5) by simp
    have tb: "to_block_no s0 n = to_block_no s n" using 0(6) by (simp add: to_block_no_def)
    have u0: "usable s0 (to_block_no s0 n)" "usable s0 a" using a(3) A(2,3) 0(5,6) tb by (simp_all add: usable_def)
    have r0: "op_ready c0 (Suc (Suc (Suc 1))) (bc s0)" using 0(2) by (simp add: numeral_eq_Suc)
    have b0: "bitmap_ready (bc s0)" "bitmap_start (sblock (bc s0)) \<noteq> to_block_no s0 n" using c(4,5) 0(5-7) tb by (simp_all add: bitmap_ready_def)
    have a0: "first_clear data_bitmap_get (min BIT_PER_BLOCK (num_blocks (sblock (bc s0)))) (bitmap_of (bc s0)) = Some a"
      "a \<noteq> bitmap_start (sblock (bc s0))" "a \<noteq> to_block_no s0 n" using A(1,2) unfolding bmv unfolding 0(6) tb by simp_all
    let ?i1 = "?i0\<lparr>entry := (entry ?i0)\<lparr>addrs := (addrs (entry ?i0))[nb := a]\<rparr>\<rparr>"
    obtain c1 s1 where 1: "inode_map (Some c0) n nb s0 = Inr (a, True, Some c1, s1)" "op_ready c1 1 (bc s1)" "itable s1 = (itable s0)(n \<mapsto> ?i1)"
        "\<forall>b. b \<notin> {to_block_no s0 n, a, bitmap_start (sblock (bc s0))} \<longrightarrow> bview (bc s1) b = bview (bc s0) b" "held (bc s1) = held (bc s0)" "sblock (bc s1) = sblock (bc s0)"
      by (rule map_grows [OF e0(1,2) eok r0 u0(1) c(2) e0(3) b0 a0(1) u0(2) a0(2,3)])
    have len: "length (addrs ?e) = INODE_NUM_DIRECT" using a(2) by (simp add: InodeEntry_ok_def)
    have an: "addrs (entry ?i1) ! nb = a" "a \<noteq> 0" using len c(2) A(2) by simp_all
    have "inode_map (Some c1) n nb s1 = Inr (a, False, Some c1, s1)" using 1(3) c(2) an by (simp add: inode_map_def get_inode_def)
    moreover have "?off div BLOCK_SIZE = nb" using c(1) by simp
    ultimately have lp: "inode_write_loop (Some c0) n src ?off s0 = inode_write_loop (Some c1) n src ?off s1"
      using write_loop_grown [of c0 n ?off s0 a c1 s1 src] 1(1) src by (metis list.size(3) zero_neq_numeral)
    have v1: "\<forall>b\<in>file_blocks s ?e nb. bview (bc s1) b = bview (bc s) b"
    proof
      fix b assume b: "b \<in> file_blocks s ?e nb"
      then have "b \<notin> {to_block_no s0 n, a, bitmap_start (sblock (bc s0))}" using a(4) A(2) c(5) unfolding tb 0(6) by blast
      then show "bview (bc s1) b = bview (bc s) b" using 1(4) v0 b by metis
    qed
    have h1: "held (bc s1) = held (bc s)" "sblock (bc s1) = sblock (bc s)" using 1(5,6) 0(5,6) by simp_all
    have ad: "\<forall>k<nb. k < INODE_NUM_DIRECT \<longrightarrow> addrs (entry ?i1) ! k = addrs ?e ! k" "indirect (entry ?i1) = indirect ?e" by simp_all
    note m1 = mapped_frame [OF o(3) v1 h1 ad]
    have "fblock s1 (entry ?i1) ` {..<nb} = fblock s ?e ` {..<nb}" using m1(2) by (intro image_cong) auto
    then have "mapped s1 (entry ?i1) (Suc nb)" using mapped_extend [OF m1(1) c(2) an(1)] u0(2) A(2) 1(5,6) by (auto simp: usable_def file_blocks_def)
    moreover have "?off + 16 \<le> Suc nb * BLOCK_SIZE" using c(1) by simp
    moreover have "\<forall>p<?off. fbyte s1 (entry ?i1) p = fbyte s ?e p" using m1(3) lt by blast
    moreover have "itable s1 n = Some ?i1" using 1(3) by simp
    ultimately show ?thesis using that [of c1 s1 ?i1 "Suc nb"] w lp 1(2) by simp
  qed
qed

lemma same_view_append:
  assumes "same_view s s'"
  shows "can_append s' n i nb = can_append s n i nb"
proof -
  have "fblock s' e ` {..<nb} = fblock s e ` {..<nb}" for e using same_view_fblock [OF assms] by (intro image_cong) auto
  then have "file_blocks s' e nb = file_blocks s e nb" for e by (simp add: file_blocks_def)
  then show ?thesis using assms by (simp add: can_append_def same_view_def to_block_no_def usable_def bitmap_ready_def)
qed

lemma slots_append:
  assumes "length bs = 16 * q" and "DirEntry_ok d"
  shows "map (\<lambda>j. slot_get dec_DirEntry 16 j (bs @ enc_DirEntry d)) [0..<Suc q] = map (\<lambda>j. slot_get dec_DirEntry 16 j bs) [0..<q] @ [d]"
proof -
  have "slot_get dec_DirEntry 16 j (bs @ enc_DirEntry d) = slot_get dec_DirEntry 16 j bs" if "j < q" for j
    using that assms(1) by (simp add: slot_get_def slice_def)
  moreover have "slot_get dec_DirEntry 16 q (bs @ enc_DirEntry d) = d"
    using assms direntry.length_enc [OF assms(2)] direntry.dec_enc [OF assms(2)] by (simp add: slot_get_def slice_def)
  ultimately show ?thesis by simp
qed

lemma dir_append:
  assumes ok: "dir_ok s n i nb" and can: "can_append s n i nb" and rdy: "op_ready c 5 (bc s)" and d: "DirEntry_ok d"
  shows "\<exists>c' s' i' nb'. inode_write (Some c) n (enc_DirEntry d) (num_bytes (entry i)) s = Inr (16, Some c', s') \<and> dir_ok s' n i' nb'
    \<and> dirents s' (entry i') = dirents s (entry i) @ [d]"
proof -
  let ?off = "num_bytes (entry i)" and ?src = "enc_DirEntry d"
  have l: "length ?src = 16" by (rule direntry.length_enc [OF d])
  obtain c1 s1 i1 nb1 where
    1: "inode_write (Some c) n ?src ?off s = rbind (inode_write_loop (Some c1) n ?src ?off s1) (\<lambda>(ctx, s). Inr (length ?src, ctx, s))"
      "itable s1 n = Some i1" "itype (entry i1) = itype (entry i)" "num_bytes (entry i1) = ?off + 16" "mapped s1 (entry i1) nb1"
      "?off + 16 \<le> nb1 * BLOCK_SIZE" "op_ready c1 1 (bc s1)" "\<forall>p<?off. fbyte s1 (entry i1) p = fbyte s (entry i) p"
    by (rule append_prepares [OF ok can rdy l])
  obtain q where q: "?off = 16 * q" using ok by (auto simp: dir_ok_def)
  have "blocks_touched ?off (length ?src) \<le> 1" using touched_slot [of q] q l by simp
  from inode_write_loop_wrote [OF 1(2) refl 1(5,7) this] 1(6) l obtain c' s' where
    w: "inode_write_loop (Some c1) n ?src ?off s1 = Inr (Some c', s')" "quiet_log s'" "wrote s1 s' (entry i1) nb1 ?off ?src" by auto
  have "fbyte s' (entry i1) p = (file_bytes s (entry i) @ ?src) ! p" if p: "p < ?off + 16" for p
  proof -
    have "p div BLOCK_SIZE < nb1" using p 1(6) by (intro less_mult_imp_div_less) linarith
    then have "fbyte s' (entry i1) p = (if ?off \<le> p \<and> p < ?off + length ?src then ?src ! (p - ?off) else fbyte s1 (entry i1) p)" using w(3) by (simp add: wrote_def)
    then show ?thesis using p l 1(8) by (simp add: nth_append file_bytes_def)
  qed
  then have fb: "file_bytes s' (entry i1) = file_bytes s (entry i) @ ?src" using 1(4) l by (intro nth_equalityI) (simp_all add: file_bytes_def [of s'], simp add: file_bytes_def)
  have "num_bytes (entry i1) div 16 = Suc q" using 1(4) q by simp
  moreover have "length (file_bytes s (entry i)) = 16 * q" using q by (simp add: file_bytes_def)
  ultimately have "dirents s' (entry i1) = dirents s (entry i) @ [d]"
    using slots_append [OF _ d, of "file_bytes s (entry i)" q] q by (simp add: dirents_def fb del: upt_Suc)
  moreover have "dir_ok s' n i1 nb1" using w(2,3) 1(2-6) ok by (simp add: dir_ok_def wrote_def)
  moreover have "inode_write (Some c) n ?src ?off s = Inr (16, Some c', s')" using 1(1) w(1) l by simp
  ultimately show ?thesis by blast
qed

lemma free_slot_from_none:
  assumes "dir_ok s n i nb" "length buf = 16" "j + length ds = num_bytes (entry i) div 16" "ds = drop j (dirents s (entry i))" "\<forall>d\<in>set ds. inode_no d \<noteq> 0"
  shows "\<exists>buf' s'. free_slot_from n (map (\<lambda>k. 16 * k) [j..<num_bytes (entry i) div 16]) fin buf s = Inr (fin, buf', s') \<and> same_view s s' \<and> quiet_log s'"
  using assms
proof (induction ds arbitrary: j buf s)
  case Nil
  then show ?case by (simp add: dir_ok_def)
next
  case (Cons d ds)
  let ?k = "num_bytes (entry i) div 16"
  have j: "j < ?k" using Cons.prems(3) by simp
  then have u: "[j..<?k] = j # [Suc j..<?k]" by (rule upt_conv_Cons)
  have d: "d = dirents s (entry i) ! j" "ds = drop (Suc j) (dirents s (entry i))"
    using Cons.prems(4) j by (metis Cons_nth_drop_Suc length_dirents list.inject)+
  obtain buf' s1 where r: "read_dirent n (16 * j) buf s = Inr (buf', s1)" "length buf' = 16" "dec_DirEntry buf' = d" "same_view s s1" "quiet_log s1"
    using read_dirent_ok [OF Cons.prems(1) j Cons.prems(2)] d(1) by auto
  have v: "dir_ok s1 n i nb" "dirents s1 (entry i) = dirents s (entry i)" using same_view_dir [OF r(4,5) Cons.prems(1)] by auto
  have l: "Suc j + length ds = ?k" "ds = drop (Suc j) (dirents s1 (entry i))" "\<forall>d\<in>set ds. inode_no d \<noteq> 0" using Cons.prems(3,5) d(2) v(2) by simp_all
  from Cons.IH [OF v(1) r(2) l] obtain b2 s' where
    "free_slot_from n (map (\<lambda>k. 16 * k) [Suc j..<?k]) fin buf' s1 = Inr (fin, b2, s')" "same_view s1 s'" "quiet_log s'" by blast
  then show ?case using r(1,3) Cons.prems(5) same_view_trans [OF r(4)] by (auto simp: u)
qed

lemma dir_lookup_append:
  assumes "first_at (named nm) 0 ds = None" "m \<noteq> 0"
  shows "dir_lookup nm' (ds @ [new_entry nm m old]) = (if cstr FILE_NAME_MAX_LENGTH nm' = cstr FILE_NAME_MAX_LENGTH nm then (m, 16 * length ds) else dir_lookup nm' ds)"
proof -
  have app: "first_at P k (ds @ [x]) = (case first_at P k ds of Some j \<Rightarrow> Some j | None \<Rightarrow> if P x then Some (k + length ds) else None)" for P k and x :: DirEntry
    by (induction ds arbitrary: k) (auto split: option.split)
  have lt: "j < length ds" if "first_at (named nm') 0 ds = Some j" for j using that by (simp add: first_at_Some)
  show ?thesis
  proof (cases "cstr FILE_NAME_MAX_LENGTH nm' = cstr FILE_NAME_MAX_LENGTH nm")
    case True
    then have "named nm' = named nm" by (auto simp: named_def fun_eq_iff)
    then show ?thesis using True assms named_new [OF assms(2), of nm' nm old] by (simp add: dir_lookup_def app new_entry_def)
  next
    case False
    then show ?thesis using named_new [OF assms(2), of nm' nm old] lt by (auto simp: dir_lookup_def app nth_append split: option.split)
  qed
qed

text \<open>Finding the place: \<open>x\<close> is the first unused entry, or the end of the directory.\<close>

definition insert_place :: "itree \<Rightarrow> InodeEntry \<Rightarrow> nat" where
  "insert_place s e = (case first_at (\<lambda>d. inode_no d = 0) 0 (dirents s e) of Some l \<Rightarrow> 16 * l | None \<Rightarrow> num_bytes e)"

lemma insert_finds_place:
  assumes ok: "dir_ok s n i nb" and absent: "first_at (named nm) 0 (dirents s (entry i)) = None" and m: "m < U16"
  obtains buf s2 where "same_view s s2" "quiet_log s2"
    "\<forall>c. inode_insert c n nm m s = rbind (inode_write c n (enc_DirEntry (new_entry nm m (name (dec_DirEntry buf)))) (insert_place s (entry i)) s2)
       (\<lambda>(_, ctx, t). Inr (Some (insert_place s (entry i)), ctx, t))"
proof -
  let ?e = "entry i" and ?x = "insert_place s (entry i)"
  have e: "itable s n = Some i" "itype ?e = INODE_DIRECTORY" "num_bytes ?e mod 16 = 0" using ok by (simp_all add: dir_ok_def)
  obtain s1 where 1: "inode_lookup n nm s = Inr (0, 0, s1)" "same_view s s1" "quiet_log s1"
    using inode_lookup_spec [OF ok, of nm] absent by (auto simp: dir_lookup_def)
  have ok1: "dir_ok s1 n i nb" "dirents s1 ?e = dirents s ?e" using same_view_dir [OF 1(2,3) ok] by auto
  have b: "length fresh_dirent = 16" by (simp add: fresh_dirent_def)
  have k: "16 * length (dir_offsets (num_bytes ?e)) = num_bytes ?e" using dir_offsets_eq [OF e(3)] e(3) by auto
  obtain buf s2 where 2: "free_slot_from n (dir_offsets (num_bytes ?e)) (num_bytes ?e) fresh_dirent s1 = Inr (?x, buf, s2)" "same_view s1 s2" "quiet_log s2"
  proof (cases "first_at (\<lambda>d. inode_no d = 0) 0 (dirents s ?e)")
    case None
    have x: "?x = num_bytes ?e" using None by (simp add: insert_place_def)
    have "\<forall>d\<in>set (dirents s1 ?e). inode_no d \<noteq> 0" using None ok1(2) by (simp add: first_at_None)
    then show ?thesis using that free_slot_from_none [OF ok1(1) b, where j = 0 and ds = "dirents s1 ?e" and fin = "num_bytes ?e"]
      unfolding dir_offsets_eq [OF e(3)] x by auto
  next
    case (Some l)
    then show ?thesis using that free_slot_from_ok [OF ok1(1) b, where j = 0 and ds = "dirents s1 ?e" and l = l and fin = "num_bytes ?e"] ok1(2)
      unfolding dir_offsets_eq [OF e(3)] by (auto simp: insert_place_def)
  qed
  have d: "\<lparr>inode_no = m mod U16, name = map (strncpy ((!) (name (dec_DirEntry buf))) nm FILE_NAME_MAX_LENGTH) [0..<FILE_NAME_MAX_LENGTH]\<rparr>
      = new_entry nm m (name (dec_DirEntry buf))" using m by (simp add: new_entry_def)
  have "inode_insert c n nm m s = rbind (inode_write c n (enc_DirEntry (new_entry nm m (name (dec_DirEntry buf)))) ?x s2) (\<lambda>(_, ctx, t). Inr (Some ?x, ctx, t))" for c
    using e(1,2) 1(1) 2(1) unfolding inode_insert_def by (simp add: get_inode_def Let_def d k del: upt_Suc)
  then show ?thesis using that [OF same_view_trans [OF 1(2) 2(2)] 2(3)] by blast
qed

lemma insert_stores:
  assumes ok: "dir_ok s n i nb" and rdy: "op_ready c k (bc s)" and d: "DirEntry_ok d"
    and room: "if insert_place s (entry i) < num_bytes (entry i) then 1 \<le> k else 5 \<le> k \<and> can_append s n i nb"
  shows "\<exists>c' s' i' nb'. inode_write (Some c) n (enc_DirEntry d) (insert_place s (entry i)) s = Inr (16, Some c', s') \<and> dir_ok s' n i' nb'
    \<and> dirents s' (entry i') = (case first_at (\<lambda>d. inode_no d = 0) 0 (dirents s (entry i)) of Some l \<Rightarrow> (dirents s (entry i))[l := d] | None \<Rightarrow> dirents s (entry i) @ [d])"
proof (cases "first_at (\<lambda>d. inode_no d = 0) 0 (dirents s (entry i))")
  case None
  then have "op_ready c 5 (bc s)" "can_append s n i nb" using room rdy op_ready_less by (auto simp: insert_place_def)
  from dir_append [OF ok this(2,1) d] show ?thesis using None by (simp add: insert_place_def)
next
  case (Some l)
  let ?e = "entry i"
  have len: "length (enc_DirEntry d) = 16" by (rule direntry.length_enc [OF d])
  have lk: "l < num_bytes ?e div 16" using Some by (simp add: first_at_Some)
  then have le: "16 * l + 16 \<le> num_bytes ?e" by (simp add: less_eq_div_iff_mult_less_eq Suc_le_eq [symmetric])
  then have k: "1 \<le> k" using room Some by (simp add: insert_place_def)
  obtain c' s' where w: "inode_write (Some c) n (enc_DirEntry d) (16 * l) s = Inr (16, Some c', s')" "quiet_log s'" "wrote s s' ?e nb (16 * l) (enc_DirEntry d)"
    "file_bytes s' ?e = patch (16 * l) (enc_DirEntry d) (file_bytes s ?e)"
    using inode_write_inside [of s n i nb c k "16 * l" "enc_DirEntry d"] ok rdy touched_slot [of l] k le len by (auto simp: dir_ok_def)
  have "num_bytes ?e div 16 * 16 \<le> length (file_bytes s ?e)" by (simp add: file_bytes_def)
  from direntry.slots_after_put [OF d this lk] have "dirents s' ?e = (dirents s ?e)[l := d]"
    by (simp add: dirents_def w(4) slot_put_def mult.commute [of l])
  moreover have "dir_ok s' n i nb" using ok w(2,3) by (simp add: dir_ok_def wrote_def)
  ultimately show ?thesis using w(1) Some by (auto simp: insert_place_def)
qed

text \<open>
  C6: A directory is a table of names. Inserting a name that is in the directory fails and changes nothing. Inserting another name stores an entry in the first unused place or, when every
  entry is used, behind the last one, where the directory grows, by a new direct block if its last one is full (\<open>can_append\<close>); afterwards a lookup of any name that is the same string up to
  14 characters finds the new inode number and its place, and a lookup of every other name finds what it found before: the first used entry with that name, or 0. Names of 14 characters, which the
  code stores without a terminator, are names like all others.
\<close>

theorem dir_insert_lookup:
  assumes ok: "dir_ok s n i nb" and rdy: "op_ready c k (bc s)" and m: "0 < m" "m < U16"
  shows "(first_at (named nm) 0 (dirents s (entry i)) \<noteq> None \<longrightarrow> (\<exists>s'. inode_insert (Some c) n nm m s = Inr (None, Some c, s') \<and> same_view s s'))
     \<and> (first_at (named nm) 0 (dirents s (entry i)) = None
        \<and> (if insert_place s (entry i) < num_bytes (entry i) then 1 \<le> k else 5 \<le> k \<and> can_append s n i nb) \<longrightarrow>
       (\<exists>c' s'. inode_insert (Some c) n nm m s = Inr (Some (insert_place s (entry i)), Some c', s')
         \<and> (\<forall>nm'. \<exists>s''. inode_lookup n nm' s' =
              Inr (if cstr FILE_NAME_MAX_LENGTH nm' = cstr FILE_NAME_MAX_LENGTH nm then (m, insert_place s (entry i), s'')
                   else (fst (dir_lookup nm' (dirents s (entry i))), snd (dir_lookup nm' (dirents s (entry i))), s'')))))"
proof (intro conjI impI)
  let ?e = "entry i" and ?x = "insert_place s (entry i)" and ?ds = "dirents s (entry i)"
  have e: "itable s n = Some i" "itype ?e = INODE_DIRECTORY" "num_bytes ?e mod 16 = 0" using ok by (simp_all add: dir_ok_def)
  show "\<exists>s'. inode_insert (Some c) n nm m s = Inr (None, Some c, s') \<and> same_view s s'" if p: "first_at (named nm) 0 ?ds \<noteq> None"
  proof -
    obtain j where j: "first_at (named nm) 0 ?ds = Some j" using p by blast
    then have "inode_no (?ds ! j) \<noteq> 0" by (simp add: first_at_Some named_def)
    then show ?thesis using inode_lookup_spec [OF ok, of nm] j e by (auto simp: inode_insert_def get_inode_def dir_lookup_def)
  qed
  assume a: "first_at (named nm) 0 ?ds = None \<and> (if ?x < num_bytes ?e then 1 \<le> k else 5 \<le> k \<and> can_append s n i nb)"
  obtain buf s2 where 2: "same_view s s2" "quiet_log s2"
    "\<forall>c. inode_insert c n nm m s = rbind (inode_write c n (enc_DirEntry (new_entry nm m (name (dec_DirEntry buf)))) ?x s2) (\<lambda>(_, ctx, t). Inr (Some ?x, ctx, t))"
    by (rule insert_finds_place [OF ok conjunct1 [OF a] m(2)])
  let ?d = "new_entry nm m (name (dec_DirEntry buf))"
  have ok2: "dir_ok s2 n i nb" "dirents s2 ?e = ?ds" using same_view_dir [OF 2(1,2) ok] by auto
  then have x2: "insert_place s2 ?e = ?x" by (simp add: insert_place_def)
  have dok: "DirEntry_ok ?d" using m(2) by (simp add: DirEntry_ok_def new_entry_def)
  have room: "if insert_place s2 ?e < num_bytes ?e then 1 \<le> k else 5 \<le> k \<and> can_append s2 n i nb" unfolding x2 same_view_append [OF 2(1)] by (rule conjunct2 [OF a])
  obtain c' s' i' nb' where w: "inode_write (Some c) n (enc_DirEntry ?d) ?x s2 = Inr (16, Some c', s')" "dir_ok s' n i' nb'"
      "dirents s' (entry i') = (case first_at (\<lambda>d. inode_no d = 0) 0 ?ds of Some l \<Rightarrow> ?ds[l := ?d] | None \<Rightarrow> ?ds @ [?d])"
    using insert_stores [OF ok2(1) op_ready_view [OF rdy 2(1,2)] dok room] unfolding x2 ok2(2) by blast
  have "dir_lookup nm' (dirents s' (entry i')) = (if cstr FILE_NAME_MAX_LENGTH nm' = cstr FILE_NAME_MAX_LENGTH nm then (m, ?x) else dir_lookup nm' ?ds)" for nm'
  proof (cases "first_at (\<lambda>d. inode_no d = 0) 0 ?ds")
    case None
    have "16 * length ?ds = num_bytes ?e" using e(3) by auto
    then show ?thesis using None w(3) a m(1) dir_lookup_append [of nm ?ds m nm'] by (simp add: insert_place_def)
  next
    case (Some l)
    then show ?thesis using w(3) a m(1) dir_lookup_update [OF Some, of nm m nm'] by (simp add: insert_place_def)
  qed
  then have "\<exists>s''. inode_lookup n nm' s' = Inr (if cstr FILE_NAME_MAX_LENGTH nm' = cstr FILE_NAME_MAX_LENGTH nm then (m, ?x, s'')
      else (fst (dir_lookup nm' ?ds), snd (dir_lookup nm' ?ds), s''))" for nm'
    using inode_lookup_spec [OF w(2), of nm'] by (auto split: if_splits)
  moreover have "inode_insert (Some c) n nm m s = Inr (Some ?x, Some c', s')" using 2(3) w(1) by simp
  ultimately show "\<exists>c' s'. inode_insert (Some c) n nm m s = Inr (Some ?x, Some c', s')
         \<and> (\<forall>nm'. \<exists>s''. inode_lookup n nm' s' = Inr (if cstr FILE_NAME_MAX_LENGTH nm' = cstr FILE_NAME_MAX_LENGTH nm then (m, ?x, s'')
              else (fst (dir_lookup nm' ?ds), snd (dir_lookup nm' ?ds), s'')))" by blast
qed

text \<open>A directory with two unused entries.\<close>

definition demo_dir :: Inode where
  "demo_dir = init_inode\<lparr>entry := zero_entry\<lparr>itype := INODE_DIRECTORY, num_bytes := 32, addrs := 101 # replicate 11 0\<rparr>\<rparr>"

definition demo_dirs :: itree where
  "demo_dirs = demo_tree\<lparr>itable := [5 \<mapsto> demo_dir]\<rparr>"

lemma demo_dir_bytes: "file_bytes demo_dirs (entry demo_dir) = replicate 32 0"
proof -
  have v: "bview demo_cache 101 = replicate BLOCK_SIZE 0" by (simp add: bview_def find_block_def demo_cache_def)
  have "fbyte demo_dirs (entry demo_dir) p = 0" if "p < 32" for p
    using v that by (simp add: fbyte_def fblock_def demo_dir_def demo_dirs_def demo_tree_def)
  then show ?thesis by (intro nth_equalityI) (simp_all add: file_bytes_def demo_dir_def zero_entry_def)
qed

lemma demo_dir_ok: "dir_ok demo_dirs 5 demo_dir 1"
proof -
  have "fblock demo_dirs (entry demo_dir) 0 = 101" by (simp add: fblock_def demo_dir_def)
  moreover have "usable demo_dirs 101" using demo_cache_props(3) by (simp add: usable_def demo_dirs_def demo_tree_def log_area_def)
  ultimately have "mapped demo_dirs (entry demo_dir) 1" by (simp add: mapped_def inj_on_def)
  moreover have "quiet_log demo_dirs" using demo_cache_props(1,2) by (simp add: quiet_log_def demo_dirs_def demo_tree_def)
  ultimately show ?thesis by (simp add: dir_ok_def demo_dirs_def demo_dir_def)
qed

lemma demo_dirents: "dirents demo_dirs (entry demo_dir) = [dec_DirEntry (replicate 16 0), dec_DirEntry (replicate 16 0)]"
proof -
  have z: "slice (j * 16) 16 (replicate 32 0) = replicate 16 (0 :: byte)" if "j < 2" for j using that by (intro nth_equalityI) (auto simp: nth_slice less_2_cases_iff)
  have "num_bytes (entry demo_dir) div 16 = 2" by (simp add: demo_dir_def)
  then show ?thesis using z [of 0] z [of 1] by (simp add: dirents_def demo_dir_bytes slot_get_def upt_rec)
qed

text \<open>An empty directory, which has no block yet.\<close>

definition empty_dir :: Inode where
  "empty_dir = init_inode\<lparr>ivalid := True, entry := zero_entry\<lparr>itype := INODE_DIRECTORY\<rparr>\<rparr>"

definition empty_dirs :: itree where
  "empty_dirs = demo_tree\<lparr>bc := demo_alloc, itable := [5 \<mapsto> empty_dir]\<rparr>"

lemma empty_dir_ok: "dir_ok empty_dirs 5 empty_dir 0" "op_ready \<lparr>rm = 10, ts = 0\<rparr> 5 (bc empty_dirs)" "dirents empty_dirs (entry empty_dir) = []"
proof -
  have "cache_ok demo_alloc" "log_ok demo_alloc" "hnum (header demo_alloc) + 10 < LOG_MAX_SIZE" using demo_alloc_props(1) by (simp_all add: op_ready_def)
  then show "dir_ok empty_dirs 5 empty_dir 0" "op_ready \<lparr>rm = 10, ts = 0\<rparr> 5 (bc empty_dirs)"
    by (simp_all add: dir_ok_def mapped_def quiet_log_def op_ready_def empty_dirs_def empty_dir_def zero_entry_def)
  show "dirents empty_dirs (entry empty_dir) = []" by (simp add: dirents_def empty_dir_def zero_entry_def)
qed

lemma empty_dir_can_append: "can_append empty_dirs 5 empty_dir 0"
proof -
  have sb: "sblock demo_alloc = demo_sb" by (simp add: demo_alloc_def)
  have get: "data_bitmap_get (bitmap_of demo_alloc) j \<longleftrightarrow> j < 104" if "j < BIT_PER_BLOCK" for j
  proof -
    have "set [0..<104] \<subseteq> {..<BIT_PER_BLOCK}" by auto
    from fold_bitmap_set [OF that this] zero_bitmap [OF that] show ?thesis unfolding demo_alloc_props(4) by (auto simp del: upt_Suc)
  qed
  have tb: "to_block_no empty_dirs 5 = inode_start demo_sb" by (simp add: to_block_no_def empty_dirs_def sb)
  have f: "file_blocks empty_dirs (entry empty_dir) 0 = {}" by (simp add: file_blocks_def)
  have ie: "ivalid empty_dir" "InodeEntry_ok (entry empty_dir)" "num_bytes (entry empty_dir) = 0" "addrs (entry empty_dir) ! 0 = 0"
    by (simp_all add: empty_dir_def zero_entry_def InodeEntry_ok_def)
  have bc: "bc empty_dirs = demo_alloc" by (simp add: empty_dirs_def)
  have u: "usable empty_dirs (inode_start demo_sb)" by (simp add: usable_def bc demo_alloc_props(3) sb log_area_def demo_sb_def)
  have free: "\<exists>a<num_blocks demo_sb. \<not> data_bitmap_get (bitmap_of demo_alloc) a" using get [of 104] by (intro exI [of _ 104]) (simp add: demo_sb_def)
  have "\<forall>b\<in>insert (inode_start demo_sb) {} \<union> {0, bitmap_start demo_sb} \<union> log_area demo_sb \<union> {}. data_bitmap_get (bitmap_of demo_alloc) b"
    using get by (auto simp: demo_sb_def log_area_def)
  moreover have "bitmap_start demo_sb \<noteq> inode_start demo_sb" "num_blocks demo_sb \<le> BIT_PER_BLOCK" by (simp_all add: demo_sb_def)
  ultimately show ?thesis unfolding can_append_def Let_def tb f bc sb demo_alloc_props(3) using ie u free [unfolded sb] demo_alloc_props(2) by (simp add: sb)
qed

theorem dir_insert_lookup_witness:
  "(\<exists>c' s' s''. inode_insert (Some \<lparr>rm = 10, ts = 0\<rparr>) 5 (\<lambda>k. if k = 0 then 97 else 0) 7 demo_dirs = Inr (Some 0, Some c', s')
      \<and> inode_lookup 5 (\<lambda>k. if k = 0 then 97 else 0) s' = Inr (7, 0, s''))
   \<and> (\<exists>c' s' s''. inode_insert (Some \<lparr>rm = 10, ts = 0\<rparr>) 5 (\<lambda>_. 97) 7 empty_dirs = Inr (Some 0, Some c', s')
      \<and> inode_lookup 5 (\<lambda>k. if k < 14 then 97 else 98) s' = Inr (7, 0, s''))"
proof
  let ?nm = "\<lambda>k :: nat. if k = 0 then 97 else 0 :: byte"
  have n: "inode_no (dec_DirEntry (replicate 16 0)) = 0" by (simp add: dec_DirEntry_def slice_def)
  have p: "first_at (named ?nm) 0 (dirents demo_dirs (entry demo_dir)) = None" "insert_place demo_dirs (entry demo_dir) = 0"
    unfolding insert_place_def demo_dirents by (simp_all add: named_def n)
  have r: "op_ready \<lparr>rm = 10, ts = 0\<rparr> 2 (bc demo_dirs)" using demo_cache_props(1,2) by (simp add: op_ready_def demo_dirs_def demo_tree_def)
  have nb: "num_bytes (entry demo_dir) = 32" by (simp add: demo_dir_def)
  have m: "0 < (7::nat)" "(7::nat) < U16" by simp_all
  show "\<exists>c' s' s''. inode_insert (Some \<lparr>rm = 10, ts = 0\<rparr>) 5 ?nm 7 demo_dirs = Inr (Some 0, Some c', s') \<and> inode_lookup 5 ?nm s' = Inr (7, 0, s'')"
  proof -
    have "first_at (named ?nm) 0 (dirents demo_dirs (entry demo_dir)) = None
        \<and> (if insert_place demo_dirs (entry demo_dir) < num_bytes (entry demo_dir) then (1::nat) \<le> 2 else (5::nat) \<le> 2 \<and> can_append demo_dirs 5 demo_dir 1)"
      using p nb by simp
    from dir_insert_lookup [OF demo_dir_ok r m, THEN conjunct2, THEN mp, OF this, unfolded p(2)] obtain c' s' where
      i: "inode_insert (Some \<lparr>rm = 10, ts = 0\<rparr>) 5 ?nm 7 demo_dirs = Inr (Some 0, Some c', s')"
      and a: "\<forall>nm'. \<exists>s''. inode_lookup 5 nm' s' = Inr (if cstr 14 nm' = cstr 14 ?nm then (7, 0, s'')
        else (fst (dir_lookup nm' (dirents demo_dirs (entry demo_dir))), snd (dir_lookup nm' (dirents demo_dirs (entry demo_dir))), s''))" by blast
    show ?thesis using i a [rule_format, of ?nm] by auto
  qed
  have q: "first_at (named (\<lambda>_. 97)) 0 (dirents empty_dirs (entry empty_dir)) = None" "insert_place empty_dirs (entry empty_dir) = 0" "num_bytes (entry empty_dir) = 0"
    unfolding insert_place_def empty_dir_ok(3) by (simp_all add: empty_dir_def zero_entry_def)
  have "map (\<lambda>k. if k < 14 then 97 else 98 :: byte) [0..<14] = map (\<lambda>_. 97) [0..<14]" by (intro nth_equalityI) simp_all
  then have c: "cstr 14 (\<lambda>k. if k < 14 then 97 else 98) = cstr 14 (\<lambda>_. 97)" unfolding cstr_def by (simp only:)
  have "first_at (named (\<lambda>_. 97)) 0 (dirents empty_dirs (entry empty_dir)) = None
      \<and> (if insert_place empty_dirs (entry empty_dir) < num_bytes (entry empty_dir) then (1::nat) \<le> 5 else (5::nat) \<le> 5 \<and> can_append empty_dirs 5 empty_dir 0)"
    using q empty_dir_can_append by simp
  from dir_insert_lookup [OF empty_dir_ok(1,2) m, THEN conjunct2, THEN mp, OF this, unfolded q(2)] obtain c' s' where
    i: "inode_insert (Some \<lparr>rm = 10, ts = 0\<rparr>) 5 (\<lambda>_. 97) 7 empty_dirs = Inr (Some 0, Some c', s')"
    and a: "\<forall>nm'. \<exists>s''. inode_lookup 5 nm' s' = Inr (if cstr 14 nm' = cstr 14 (\<lambda>_. 97) then (7, 0, s'')
      else (fst (dir_lookup nm' (dirents empty_dirs (entry empty_dir))), snd (dir_lookup nm' (dirents empty_dirs (entry empty_dir))), s''))" by blast
  show "\<exists>c' s' s''. inode_insert (Some \<lparr>rm = 10, ts = 0\<rparr>) 5 (\<lambda>_. 97) 7 empty_dirs = Inr (Some 0, Some c', s')
      \<and> inode_lookup 5 (\<lambda>k. if k < 14 then 97 else 98) s' = Inr (7, 0, s'')"
    using i a [rule_format, of "\<lambda>k. if k < 14 then 97 else 98"] unfolding c by auto
qed

end
