(* ===== verification/Fs_Init.thy ===== *)
theory Fs_Init
  imports Block_Device File_Table Inode_Data Mkfs
begin

unbundle bit_operations_syntax

text \<open>
  Mounting the file system: \<^verbatim>\<open>fs/fs.c\<close>, which puts the disk, the block cache, the inodes and the file table together.

  The super block is read through the driver. From then on the disk of the block cache is the medium from sector 133120 on; that reads and writes
  of the cache reach it is shown in \<open>Block_Device\<close>.
\<close>

definition init_filesystem :: "device \<Rightarrow> 32 word \<Rightarrow> nat \<Rightarrow> nat \<Rightarrow> nat \<Rightarrow> Buf \<Rightarrow> virtio_disk \<times> (nat \<Rightarrow> byte list) \<Rightarrow> fstate
    \<Rightarrow> (fstate \<times> virtio_disk) res" where
  "init_filesystem dev st b w p junk s y =
     rbind (init_block_device dev st b w p junk s) (\<lambda>(sblock_data, v, m).
     let sblock = get_super_block sblock_data
     in rbind (init_bcache sblock (\<lambda>n. m (n + offset))) (\<lambda>c.
        rbind (init_inodes c (it y)) (\<lambda>t.
        Inr (init_ftable (y\<lparr>it := t\<rparr>), v))))"

section \<open>The super block\<close>

lemma get_super_block_enc:
  assumes "\<forall>f\<in>{num_blocks, num_data_blocks, num_inodes, num_log_blocks, log_start, inode_start, bitmap_start}. f sb < U32"
  shows "get_super_block (enc_SuperBlock sb @ zs) = sb"
proof -
  have "le_dec (slice (4 * i) 4 (concat (map (le_enc 4) xs) @ zs)) = xs ! i" if "i < length xs" "\<forall>x\<in>set xs. x < U32" for i xs zs
    using that
  proof (induction xs arbitrary: i)
    case (Cons x xs)
    then show ?case by (cases i) (simp_all add: slice_def le_dec_enc_U)
  qed simp
  note f = this [of _ "[num_blocks sb, num_data_blocks sb, num_inodes sb, num_log_blocks sb, log_start sb, inode_start sb, bitmap_start sb]" zs]
  show ?thesis using assms f [of 0] f [of 1] f [of 2] f [of 3] f [of 4] f [of 5] f [of 6]
    by (cases sb) (simp add: get_super_block_def enc_SuperBlock_def Let_def)
qed

section \<open>The root directory\<close>

lemma sem_init_cycle: "\<exists>m. sem_wait (init_sem 1) = Inr m \<and> sem_post m = Inr (init_sem 1)"
  by (simp add: sem_wait_def sem_post_def lock_sem_def init_sem_def wait_sem_enter_def post_sem_def post_sem_locked_def unlock_sem_def release_spinlock_eq Let_def)

lemma fs_release_set_inode: "fs_release b s = Inr s2 \<Longrightarrow> fs_release b (set_inode n f s) = Inr (set_inode n f s2)"
  by (auto simp: fs_release_def set_inode_def rbind_eq_Inr_conv)

lemma inode_get_fresh:
  assumes q: "quiet_log s" and u: "usable s (to_block_no s n)" and n: "itable s n = None" "n \<noteq> 0" "n < num_inodes (sblock (bc s))"
  shows "\<exists>s'. inode_get n s = Inr (n, s') \<and> bview (bc s') = bview (bc s) \<and> quiet_log s' \<and> held (bc s') = held (bc s) \<and> sblock (bc s') = sblock (bc s)
     \<and> itable s' = (itable s)(n \<mapsto> init_inode\<lparr>ino := n, rc := increment_rc (rc init_inode), entry := get_entry (bview (bc s) (to_block_no s n)) n, ivalid := True\<rparr>)"
proof -
  let ?b = "to_block_no s n" and ?i = "init_inode\<lparr>ino := n, rc := increment_rc (rc init_inode)\<rparr>"
  let ?f = "\<lambda>i. i\<lparr>entry := get_entry (bview (bc s) ?b) n, ivalid := True\<rparr>"
  obtain m where m: "sem_wait (init_sem 1) = Inr m" "sem_post m = Inr (init_sem 1)" using sem_init_cycle by blast
  define s0 where "s0 = s\<lparr>itable := (itable s)(n \<mapsto> ?i)\<rparr>"
  define s1 where "s1 = s\<lparr>itable := (itable s)(n \<mapsto> ?i\<lparr>ino_lock := m\<rparr>)\<rparr>"
  have "quiet_log s1" "usable s1 ?b" using q u by (simp_all add: quiet_log_def usable_def s1_def)
  then obtain a s2 where r: "fs_acquire ?b s1 = Inr a" "fs_data ?b a = Inr (bview (bc s1) ?b)" "fs_release ?b a = Inr s2" "same_view s1 s2" "quiet_log s2"
    by (rule peek_block) simp
  have c: "0 < sint (count (increment_rc (rc init_inode)))" by (simp add: increment_rc_def init_inode_def)
  have b1: "bc s1 = bc s" "to_block_no s1 n = ?b" by (simp_all add: s1_def to_block_no_def)
  have s2: "itable s2 n = Some (?i\<lparr>ino_lock := m\<rparr>)" using r(4) by (simp add: same_view_def s1_def)
  have lock: "inode_lock n s0 = Inr s1"
    using m c by (simp add: inode_lock_def get_inode_def s0_def s1_def set_inode_def init_inode_def)
  have sync: "inode_sync None n False s1 = Inr (None, set_inode n ?f s2)"
    using r(1,2) fs_release_set_inode [OF r(3), of n ?f] b1 by (simp add: inode_sync_def get_inode_def Let_def) (simp add: s1_def init_inode_def)
  let ?t = "set_inode n (\<lambda>i. i\<lparr>ino_lock := init_sem 1\<rparr>) (set_inode n ?f s2)"
  have unlock: "inode_unlock n (set_inode n ?f s2) = Inr ?t"
    using m c s2 by (simp add: inode_unlock_def get_inode_def set_inode_def init_inode_def)
  have "inode_get n s = Inr (n, ?t)"
    using n lock sync unlock by (simp add: inode_get_def Let_def s0_def)
  moreover have "itable ?t = (itable s)(n \<mapsto> ?f ?i)"
    using r(4) by (simp add: set_inode_def same_view_def s1_def init_inode_def)
  moreover have "bc ?t = bc s2" by (simp add: set_inode_def)
  ultimately show ?thesis using r(4,5) by (intro exI [of _ ?t]) (simp add: same_view_def b1 quiet_log_def)
qed

section \<open>Mounting\<close>

text \<open>
  C14: Mounting succeeds on a sound disk. Once the driver has been initialised, on a medium whose blocks have 512 bytes and whose super block places the root
  inode outside a clean log, \<^verbatim>\<open>init_filesystem\<close> returns with the super block of block 1 in use, every block outside the log as the medium has it, no block
  held, no operation under way, the root inode the only one in memory, with one reference and the entry that the medium holds, and the driver idle again.
\<close>

theorem init_filesystem_mounts:
  assumes dev: "device_spec dev" and init: "virtio_init REG pd pa pu ih v0 = Inr (ih', v)"
    and len: "\<forall>n. length (m (n + offset)) = BLOCK_SIZE"
    and sb: "get_super_block (m (1 + offset)) = sb" "ROOT_INODE_NO < num_inodes sb"
    and clean: "hnum (dec_LogHeader (m (log_start sb + offset))) = 0"
    and root: "rb = inode_start sb + ROOT_INODE_NO div INODE_PER_BLOCK" "rb \<noteq> 0" "rb \<notin> log_area sb" "rb < U64"
  shows "\<exists>y' v'. init_filesystem dev st b w p junk (v, m) y = Inr (y', v') \<and> qinv (vidle v' m) \<and> \<not> locked (lk v')
     \<and> sblock (bc (it y')) = sb \<and> quiet_log (it y') \<and> held (bc (it y')) = {}
     \<and> (\<forall>n. n \<notin> log_area sb \<longrightarrow> bview (bc (it y')) n = m (n + offset))
     \<and> iroot (it y') = ROOT_INODE_NO \<and> filelist y' = filelist y \<and> \<not> locked (ftable_lock y')
     \<and> itable (it y') = [ROOT_INODE_NO \<mapsto> init_inode\<lparr>ino := ROOT_INODE_NO, rc := \<lparr>count = 1\<rparr>, entry := get_entry (m (rb + offset)) ROOT_INODE_NO, ivalid := True\<rparr>]"
proof -
  let ?c = "demo_bcache\<lparr>disk := \<lambda>n. m (n + offset)\<rparr>"
  have inv: "qinv (vidle v m)" "\<not> locked (lk v)" using virtio_init_inv [OF init] by blast+
  have "on_media m ?c" using len by (simp add: on_media_def)
  from sd_read_idle [OF dev inv this, of 1 st b w p junk] obtain v' where
    v': "init_block_device dev st b w p junk (v, m) = Inr (m (1 + offset), v', m)" "qinv (vidle v' m)" "\<not> locked (lk v')"
    by (auto simp: init_block_device_def)
  obtain c where c: "init_bcache sb (\<lambda>n. m (n + offset)) = Inr c" "cache_ok c" "log_ok c" "held c = {}" "sblock c = sb"
    "\<And>n. n \<notin> log_area sb \<Longrightarrow> bview c n = m (n + offset)"
    using init_bcache_empty_log [of "\<lambda>n. m (n + offset)" sb] len clean by metis
  define s where "s = (it y)\<lparr>ilock := init_spinlock (ilock (it y)), itable := (\<lambda>_. None), bc := c\<rparr>"
  have s: "bc s = c" "itable s = (\<lambda>_. None)" by (simp_all add: s_def)
  have b: "to_block_no s ROOT_INODE_NO = rb" using root(1) by (simp add: to_block_no_def s c(5))
  have "quiet_log s" "usable s (to_block_no s ROOT_INODE_NO)" using c root(2-4) unfolding b by (simp_all add: quiet_log_def usable_def s)
  from inode_get_fresh [OF this, unfolded b s] obtain t where t: "inode_get ROOT_INODE_NO s = Inr (ROOT_INODE_NO, t)" "bview (bc t) = bview c" "quiet_log t"
    "held (bc t) = {}" "sblock (bc t) = sb"
    "itable t = [ROOT_INODE_NO \<mapsto> init_inode\<lparr>ino := ROOT_INODE_NO, rc := increment_rc (rc init_inode), entry := get_entry (bview c rb) ROOT_INODE_NO, ivalid := True\<rparr>]"
    using sb(2) c(4,5) by auto
  have "init_inodes c (it y) = Inr (t\<lparr>iroot := ROOT_INODE_NO\<rparr>)"
    using t(1) sb(2) by (simp add: init_inodes_def Let_def c(5) s_def)
  then have "init_filesystem dev st b w p junk (v, m) y = Inr (init_ftable (y\<lparr>it := t\<lparr>iroot := ROOT_INODE_NO\<rparr>\<rparr>), v')"
    using v'(1) c(1) sb(1) by (simp add: init_filesystem_def Let_def)
  then show ?thesis using v' t c(6) root(3)
    by (simp add: init_ftable_def init_spinlock_def quiet_log_def increment_rc_def init_inode_def)
qed

text \<open>A medium with nothing but the super block that \<^verbatim>\<open>mkfs\<close> writes.\<close>

definition mkfs_medium :: "nat \<Rightarrow> byte list" where
  "mkfs_medium n = (if n = 1 + offset then patch 0 (enc_SuperBlock mkfs_sb) (replicate BLOCK_SIZE 0) else replicate BLOCK_SIZE 0)"

lemma mkfs_medium_sb: "get_super_block (mkfs_medium (1 + offset)) = mkfs_sb"
proof -
  have "length (enc_SuperBlock mkfs_sb) = 28" by (simp add: enc_SuperBlock_def)
  then have "mkfs_medium (1 + offset) = enc_SuperBlock mkfs_sb @ replicate 484 0" by (simp add: mkfs_medium_def patch_def drop_replicate)
  then show ?thesis by (simp only:) (rule get_super_block_enc, simp add: mkfs_sb_def nmeta_def ninodeblocks_def nbitmap_def)
qed

theorem init_filesystem_mounts_witness:
  "\<exists>ih v y' v'. virtio_init demo_reg (Some 1) (Some 2) (Some 3) (replicate 64 None) demo_disk = Inr (ih, v)
     \<and> init_filesystem serve 1 7 0 9 (k_junk demo_caller) (v, mkfs_medium) demo_files = Inr (y', v')
     \<and> sblock (bc (it y')) = mkfs_sb \<and> iroot (it y') = 1 \<and> bview (bc (it y')) 0 = replicate BLOCK_SIZE 0"
proof -
  obtain ih v where v: "virtio_init demo_reg (Some 1) (Some 2) (Some 3) (replicate 64 None) demo_disk = Inr (ih, v)" using demo_init by blast
  have len: "\<forall>n. length (mkfs_medium (n + offset)) = BLOCK_SIZE" by (simp add: mkfs_medium_def length_patch enc_SuperBlock_def)
  have sb: "ROOT_INODE_NO < num_inodes mkfs_sb" "65 = inode_start mkfs_sb + ROOT_INODE_NO div INODE_PER_BLOCK" "65 \<notin> log_area mkfs_sb" "0 \<notin> log_area mkfs_sb"
    by (simp_all add: mkfs_layout log_area_def) (simp_all add: mkfs_sb_def)
  have clean: "hnum (dec_LogHeader (mkfs_medium (log_start mkfs_sb + offset))) = 0"
    using zero_header by (simp add: mkfs_medium_def mkfs_layout)
  from init_filesystem_mounts [OF serve_spec v len mkfs_medium_sb sb(1) clean sb(2) _ sb(3), of 1 7 0 9 "k_junk demo_caller" demo_files]
  obtain y' v' where "init_filesystem serve 1 7 0 9 (k_junk demo_caller) (v, mkfs_medium) demo_files = Inr (y', v')"
    "sblock (bc (it y')) = mkfs_sb" "iroot (it y') = 1" "bview (bc (it y')) 0 = mkfs_medium (0 + offset)" using sb(4) by auto
  with v show ?thesis by (auto simp: mkfs_medium_def)
qed

end
