(* ===== verification/User_Programs.thy ===== *)
theory User_Programs
  imports Disk_Layout
begin

text \<open>
  The small user programs: \<^verbatim>\<open>user/cat\<close>, \<^verbatim>\<open>user/echo\<close>, \<^verbatim>\<open>user/mkdir\<close>, \<^verbatim>\<open>user/ls\<close> and \<^verbatim>\<open>user/init\<close>.

  They are linked with a C library that is not part of the sources. Its functions are the fields of a record \<open>os\<close>, a parameter of every program, over an unknown state \<open>'w\<close>
  of the world. A program returns its exit code and the world; \<open>None\<close> is a program that runs forever. An argument vector has at least the name of the program.
\<close>

datatype uarg = UStr string | UInt int

record ustat =
  us_mode :: nat
  us_ino :: int
  us_size :: int

record 'w os =
  u_open :: "string \<Rightarrow> int \<Rightarrow> 'w \<Rightarrow> int \<times> 'w"
  u_close :: "int \<Rightarrow> 'w \<Rightarrow> 'w"
  u_read :: "int \<Rightarrow> nat \<Rightarrow> 'w \<Rightarrow> int \<times> byte list \<times> 'w"
  u_write :: "int \<Rightarrow> byte list \<Rightarrow> 'w \<Rightarrow> int \<times> 'w"
  u_printf :: "string \<Rightarrow> uarg list \<Rightarrow> 'w \<Rightarrow> 'w"
  u_eprintf :: "string \<Rightarrow> uarg list \<Rightarrow> 'w \<Rightarrow> 'w"
  u_fputs :: "string \<Rightarrow> 'w \<Rightarrow> 'w"
  u_putchar :: "char \<Rightarrow> 'w \<Rightarrow> 'w"
  u_fgets :: "nat \<Rightarrow> 'w \<Rightarrow> string option \<times> 'w"
  u_stat :: "string \<Rightarrow> 'w \<Rightarrow> int \<times> ustat \<times> 'w"
  u_fstat :: "int \<Rightarrow> 'w \<Rightarrow> int \<times> ustat \<times> 'w"
  u_mkdir :: "string \<Rightarrow> int \<Rightarrow> 'w \<Rightarrow> int \<times> 'w"
  u_mknod :: "string \<Rightarrow> int \<Rightarrow> int \<Rightarrow> 'w \<Rightarrow> int \<times> 'w"
  u_dup :: "int \<Rightarrow> 'w \<Rightarrow> int \<times> 'w"
  u_fork :: "'w \<Rightarrow> int \<times> 'w"
  u_execve :: "string \<Rightarrow> string list \<Rightarrow> string list \<Rightarrow> 'w \<Rightarrow> 'w option"
  u_wait :: "'w \<Rightarrow> int \<times> 'w"

abbreviation nl :: char where "nl \<equiv> CHR 0x0A"

section \<open>cat\<close>

text \<open>\<^verbatim>\<open>simple_cat\<close> returns the exit code if it calls \<^verbatim>\<open>exit\<close>.\<close>

partial_function (option) simple_cat :: "'w os \<Rightarrow> int \<Rightarrow> 'w \<Rightarrow> (int option \<times> 'w) option" where
  "simple_cat os fd w =
     (case u_read os fd 512 w of (len, buf, w) \<Rightarrow>
        if 0 < len then simple_cat os fd (snd (u_write os 1 (take (nat len) buf) w))
        else if len < 0 then Some (Some 1, u_printf os (''cat: read error'' @ [nl]) [] w)
        else Some (None, w))"

fun cat_files :: "'w os \<Rightarrow> string list \<Rightarrow> 'w \<Rightarrow> (int \<times> 'w) option" where
  "cat_files os [] w = Some (0, w)"
| "cat_files os (a # as) w =
     (case u_open os a 0 w of (fd, w) \<Rightarrow>
        if fd < 0 then Some (0, u_printf os (''cat: cannot open %s'' @ [nl]) [UStr a] w)
        else Option.bind (simple_cat os fd w) (\<lambda>(e, w). case e of
             Some c \<Rightarrow> Some (c, w)
           | None \<Rightarrow> cat_files os as (u_close os fd w)))"

definition cat_main :: "'w os \<Rightarrow> string list \<Rightarrow> 'w \<Rightarrow> (int \<times> 'w) option" where
  "cat_main os argv w =
     (let w = u_printf os (''cat start------------'' @ [nl]) [] w
      in if length argv \<le> 1
         then Option.bind (simple_cat os 0 w) (\<lambda>(e, w). case e of Some c \<Rightarrow> Some (c, w) | None \<Rightarrow> Some (0, w))
         else cat_files os (tl argv) w)"

section \<open>echo\<close>

partial_function (option) echo_lines :: "'w os \<Rightarrow> 'w \<Rightarrow> 'w option" where
  "echo_lines os w =
     (case u_fgets os 512 w of (s, w) \<Rightarrow>
        case s of None \<Rightarrow> Some w | Some s \<Rightarrow> echo_lines os (u_printf os ''%s'' [UStr s] w))"

fun echo_words :: "'w os \<Rightarrow> string list \<Rightarrow> 'w \<Rightarrow> 'w" where
  "echo_words os [] w = w"
| "echo_words os (a # argv) w =
     (let w = u_fputs os a w
      in echo_words os argv (if argv \<noteq> [] then u_putchar os CHR '' '' w else w))"

definition echo_main :: "'w os \<Rightarrow> string list \<Rightarrow> 'w \<Rightarrow> (int \<times> 'w) option" where
  "echo_main os argv w =
     (let w = u_printf os ([nl] @ ''echo start----------------'' @ [nl]) [] w
      in if length argv = 1
         then map_option (\<lambda>w. (0, w)) (echo_lines os w)
         else let argv = tl argv;
                  nflag = (argv \<noteq> [] \<and> hd argv = ''-n'');
                  w = echo_words os (if nflag then tl argv else argv) w;
                  w = (if \<not> nflag then u_putchar os nl w else w)
              in Some (0, u_printf os (''echo end ------------'' @ [nl, nl]) [] w))"

section \<open>mkdir\<close>

fun mkdir_loop :: "'w os \<Rightarrow> string list \<Rightarrow> 'w \<Rightarrow> 'w" where
  "mkdir_loop os [] w = w"
| "mkdir_loop os (a # as) w =
     (case u_mkdir os a 0 w of (r, w) \<Rightarrow>
        if r < 0 then u_printf os (''mkdir: %s failed to create'' @ [nl]) [UStr a] w
        else mkdir_loop os as w)"

definition mkdir_main :: "'w os \<Rightarrow> string list \<Rightarrow> 'w \<Rightarrow> int \<times> 'w" where
  "mkdir_main os argv w =
     (let w = u_printf os ([nl] @ ''mkdir start--------------'' @ [nl]) [] w
      in if length argv < 2 then (1, u_printf os (''Usage: mkdir your_file_name'' @ [nl]) [] w)
         else (0, u_printf os (''mkdir end -------------'' @ [nl, nl]) [] (mkdir_loop os (tl argv) w)))"

section \<open>ls\<close>

abbreviation DIRSIZ :: nat where "DIRSIZ \<equiv> FILE_NAME_MAX_LENGTH"

text \<open>
  The search for the last slash starts at the terminating zero and goes down to the start of the path; \<open>after_slash\<close> is the index right after it. The static buffer of
  \<^verbatim>\<open>fmtname\<close> has 15 bytes, of which the last is never written and stays zero.
\<close>

primrec after_slash :: "string \<Rightarrow> nat \<Rightarrow> nat" where
  "after_slash path 0 = (if (path @ [CHR 0x00]) ! 0 = CHR ''/'' then 1 else 0)"
| "after_slash path (Suc i) = (if (path @ [CHR 0x00]) ! Suc i = CHR ''/'' then Suc (Suc i) else after_slash path i)"

definition fmtname :: "string \<Rightarrow> string" where
  "fmtname path =
     (let p = drop (after_slash path (length path)) path
      in if DIRSIZ \<le> length p then p else p @ replicate (DIRSIZ - length p) CHR '' '')"

definition S_ISREG :: "nat \<Rightarrow> bool" where "S_ISREG m = (m div 0x1000 mod 16 = 8)"
definition S_ISDIR :: "nat \<Rightarrow> bool" where "S_ISDIR m = (m div 0x1000 mod 16 = 4)"

definition stat_args :: "string \<Rightarrow> ustat \<Rightarrow> uarg list" where
  "stat_args path st = [UStr (fmtname path), UInt (int (us_mode st)), UInt (us_ino st), UInt (us_size st)]"

text \<open>The name in an entry, as the string that ends at its first zero byte.\<close>

definition dirent_name :: "DirEntry \<Rightarrow> string" where
  "dirent_name de = map (\<lambda>b. char_of (unat b)) (takeWhile (\<lambda>b. b \<noteq> 0) (take DIRSIZ (name de)))"

partial_function (option) ls_entries :: "'w os \<Rightarrow> int \<Rightarrow> string \<Rightarrow> 'w \<Rightarrow> 'w option" where
  "ls_entries os fd path w =
     (case u_read os fd 16 w of (len, bs, w) \<Rightarrow>
        if len = 16
        then if inode_no (dec_DirEntry bs) = 0 then ls_entries os fd path w
             else let buf = path @ ''/'' @ dirent_name (dec_DirEntry bs)
                  in case u_stat os buf w of (r, st, w) \<Rightarrow>
                       if r < 0 then ls_entries os fd path (u_eprintf os (''ls: cannot stat %s'' @ [nl]) [UStr buf] w)
                       else ls_entries os fd path (u_printf os (''%s %x %ld %ld'' @ [nl]) (stat_args buf st) w)
        else Some w)"

definition ls :: "'w os \<Rightarrow> string \<Rightarrow> 'w \<Rightarrow> 'w option" where
  "ls os path w =
     (case u_open os path 0 w of (fd, w) \<Rightarrow>
        if fd < 0 then Some (u_eprintf os (''ls: cannot open %s'' @ [nl]) [UStr path] w)
        else case u_fstat os fd w of (r, st, w) \<Rightarrow>
          if r < 0 then Some (u_close os fd (u_eprintf os (''ls: cannot stat %s'' @ [nl]) [UStr path] w))
          else map_option (u_close os fd)
            (if S_ISREG (us_mode st) then Some (u_printf os (''%s %x %ld %ld'' @ [nl]) (stat_args path st) w)
             else if S_ISDIR (us_mode st)
             then if length path + 1 + DIRSIZ + 1 > 512 then Some (u_eprintf os (''ls: path too long'' @ [nl]) [] w)
                  else ls_entries os fd path w
             else Some w))"

fun ls_all :: "'w os \<Rightarrow> string list \<Rightarrow> 'w \<Rightarrow> 'w option" where
  "ls_all os [] w = Some w"
| "ls_all os (a # as) w = Option.bind (ls os a w) (ls_all os as)"

definition ls_main :: "'w os \<Rightarrow> string list \<Rightarrow> 'w \<Rightarrow> (int \<times> 'w) option" where
  "ls_main os argv w =
     (let w = u_printf os ([nl, nl] @ ''ls start-------------'' @ [nl]) [] w
      in map_option (\<lambda>w. (0, u_printf os (''ls end----------------'' @ [nl, nl]) [] w))
           (if length argv < 2 then ls os ''.'' w else ls_all os (tl argv) w))"

section \<open>init\<close>

text \<open>A call of \<^verbatim>\<open>fork\<close> that returns 0 continues as the child; \<open>None\<close> from \<open>u_execve\<close> is the new program running instead.\<close>

partial_function (option) init_wait :: "'w os \<Rightarrow> int \<Rightarrow> 'w \<Rightarrow> 'w option" where
  "init_wait os pid w =
     (case u_wait os w of (wpid, w) \<Rightarrow>
        if 0 \<le> wpid \<and> wpid \<noteq> pid then init_wait os pid (u_printf os (''zombie!'' @ [nl]) [] w) else Some w)"

partial_function (option) init_loop :: "'w os \<Rightarrow> 'w \<Rightarrow> (int \<times> 'w) option" where
  "init_loop os w =
     (case u_fork os (u_printf os (''init: starting sh'' @ [nl, nl]) [] w) of (pid, w) \<Rightarrow>
        if pid < 0 then Some (1, u_printf os (''init: fork failed'' @ [nl]) [] w)
        else if pid = 0
        then Option.bind (u_execve os ''sh'' [''sh''] [''TEST_ENV=FROM_INIT''] w) (\<lambda>w.
             Some (1, u_printf os (''init: exec sh failed'' @ [nl]) [] w))
        else Option.bind (init_wait os pid w) (init_loop os))"

definition init_main :: "'w os \<Rightarrow> 'w \<Rightarrow> (int \<times> 'w) option" where
  "init_main os w =
     (let w = u_printf os ([nl, nl, nl] @ ''init start--------------'' @ [nl]) [] w
      in case u_open os ''console'' 2 w of (fd, w) \<Rightarrow>
           let w = (if fd < 0 then snd (u_open os ''console'' 2 (snd (u_mknod os ''console'' 1 1 w))) else w);
               w = snd (u_dup os 0 w);
               w = snd (u_dup os 0 w)
           in init_loop os w)"

section \<open>What ls prints for a name\<close>

definition basename :: "string \<Rightarrow> string" where
  "basename path = rev (takeWhile (\<lambda>c. c \<noteq> CHR ''/'') (rev path))"

lemma after_slash_take:
  "i < length path \<Longrightarrow> after_slash path i \<le> Suc i \<and> drop (after_slash path i) (take (Suc i) path) = basename (take (Suc i) path)"
proof (induction i)
  case 0
  then show ?case by (cases path) (auto simp: basename_def)
next
  case (Suc i)
  have e: "take (Suc (Suc i)) path = take (Suc i) path @ [path ! Suc i]" using Suc.prems by (simp add: take_Suc_conv_app_nth)
  show ?case using Suc unfolding e by (auto simp: basename_def nth_append)
qed

lemma fmtname_basename:
  "fmtname path = basename path @ replicate (DIRSIZ - length (basename path)) CHR '' ''"
proof -
  have "drop (after_slash path (length path)) path = basename path"
  proof (cases "length path")
    case (Suc i)
    then show ?thesis using after_slash_take [of i path] by (simp add: nth_append)
  qed (simp add: basename_def)
  then show ?thesis by (simp add: fmtname_def Let_def)
qed

text \<open>Names of directory entries are printed in columns of 14 characters.\<close>

lemma fmtname_entry:
  assumes "CHR ''/'' \<notin> set (dirent_name de)"
  shows "fmtname (path @ ''/'' @ dirent_name de) = dirent_name de @ replicate (DIRSIZ - length (dirent_name de)) CHR '' ''"
    and "length (fmtname (path @ ''/'' @ dirent_name de)) = DIRSIZ"
proof -
  have "basename (path @ ''/'' @ dirent_name de) = dirent_name de"
    using assms by (simp add: basename_def takeWhile_append)
  then show *: "fmtname (path @ ''/'' @ dirent_name de) = dirent_name de @ replicate (DIRSIZ - length (dirent_name de)) CHR '' ''"
    by (simp add: fmtname_basename)
  have "length (takeWhile (\<lambda>b. b \<noteq> 0) (take DIRSIZ (name de))) \<le> length (take DIRSIZ (name de))" by (rule length_takeWhile_le)
  then have "length (dirent_name de) \<le> DIRSIZ" by (simp add: dirent_name_def)
  then show "length (fmtname (path @ ''/'' @ dirent_name de)) = DIRSIZ" unfolding * by simp
qed

section \<open>What cat copies\<close>

text \<open>
  What \<^verbatim>\<open>cat\<close> relies on. \<open>togo w fd\<close> is what reading from a descriptor will still give: some bytes, and then the end of the file or, with \<open>True\<close>, an error. \<open>out w\<close> are
  the bytes that the program has passed to \<^verbatim>\<open>write\<close> for descriptor 1, and \<open>files\<close> says what can be read from a file after opening it, if it can be opened. A read delivers some of the
  next bytes, no byte only at the end of the file, and a negative result only for an error.
\<close>

type_synonym stream = "byte list \<times> bool"

definition posix :: "'w os \<Rightarrow> ('w \<Rightarrow> int \<Rightarrow> stream) \<Rightarrow> ('w \<Rightarrow> byte list) \<Rightarrow> (string \<Rightarrow> stream option) \<Rightarrow> bool" where
  "posix os togo out files \<longleftrightarrow>
     (\<forall>fd n w. 0 < n \<longrightarrow> (case u_read os fd n w of (len, bs, w') \<Rightarrow>
        out w' = out w \<and>
        (if len < 0 then togo w fd = ([], True)
         else len = int (length bs) \<and> length bs \<le> n \<and> togo w fd = (bs @ fst (togo w' fd), snd (togo w' fd)) \<and> (bs = [] \<longrightarrow> togo w fd = ([], False)))))
   \<and> (\<forall>bs w. out (snd (u_write os 1 bs w)) = out w @ bs \<and> togo (snd (u_write os 1 bs w)) = togo w)
   \<and> (\<forall>a w. case u_open os a 0 w of (fd, w') \<Rightarrow> out w' = out w \<and> (case files a of None \<Rightarrow> fd < 0 | Some c \<Rightarrow> 0 \<le> fd \<and> togo w' fd = c))
   \<and> (\<forall>fd w. out (u_close os fd w) = out w) \<and> (\<forall>f as w. out (u_printf os f as w) = out w)"

text \<open>What \<^verbatim>\<open>cat\<close> has to write and its exit code, from what its inputs hold; \<open>None\<close> is an input that cannot be opened.\<close>

fun cat_spec :: "stream option list \<Rightarrow> byte list \<times> int" where
  "cat_spec [] = ([], 0)"
| "cat_spec (None # _) = ([], 0)"
| "cat_spec (Some (c, True) # _) = (c, 1)"
| "cat_spec (Some (c, False) # ins) = (c @ fst (cat_spec ins), snd (cat_spec ins))"

lemma simple_cat_copies:
  assumes "posix os togo out files"
  shows "\<exists>w'. simple_cat os fd w = Some (if snd (togo w fd) then Some 1 else None, w') \<and> out w' = out w @ fst (togo w fd)"
proof (induction "length (fst (togo w fd))" arbitrary: w rule: less_induct)
  case less
  obtain len bs w1 where r: "u_read os fd 512 w = (len, bs, w1)" by (metis prod_cases3)
  have p: "out w1 = out w" "if len < 0 then togo w fd = ([], True)
      else len = int (length bs) \<and> togo w fd = (bs @ fst (togo w1 fd), snd (togo w1 fd)) \<and> (bs = [] \<longrightarrow> togo w fd = ([], False))"
    using assms [unfolded posix_def, THEN conjunct1, rule_format, where n = 512 and fd = fd and w = w] r by (auto split: if_splits)
  have pf: "out (u_printf os f as v) = out v" for f as v using assms by (simp add: posix_def)
  define w2 where "w2 = snd (u_write os 1 bs w1)"
  have w: "out w2 = out w1 @ bs" "togo w2 = togo w1" using assms by (simp_all add: posix_def w2_def)
  consider "len < 0" | "len = 0" | "0 < len" by linarith
  then show ?case
  proof cases
    case 1
    then show ?thesis using r p pf by (subst simple_cat.simps) simp
  next
    case 2
    then have "togo w fd = ([], False)" using p(2) by (auto split: if_splits)
    then show ?thesis using 2 r p(1) by (subst simple_cat.simps) simp
  next
    case 3
    then have t: "togo w fd = (bs @ fst (togo w1 fd), snd (togo w1 fd))" "len = int (length bs)" "bs \<noteq> []" using p(2) by auto
    then have "length (fst (togo w2 fd)) < length (fst (togo w fd))" using w(2) by simp
    from less [OF this] obtain w' where "simple_cat os fd w2 = Some (if snd (togo w2 fd) then Some 1 else None, w')" "out w' = out w2 @ fst (togo w2 fd)" by blast
    then show ?thesis using 3 r p(1) t w by (subst simple_cat.simps) (simp add: w2_def)
  qed
qed

lemma cat_files_copies:
  assumes "posix os togo out files"
  shows "\<exists>w'. cat_files os as w = Some (snd (cat_spec (map files as)), w') \<and> out w' = out w @ fst (cat_spec (map files as))"
proof (induction as arbitrary: w)
  case (Cons a as)
  obtain fd w1 where o: "u_open os a 0 w = (fd, w1)" by fastforce
  have p: "out w1 = out w" "case files a of None \<Rightarrow> fd < 0 | Some c \<Rightarrow> 0 \<le> fd \<and> togo w1 fd = c"
    using assms [unfolded posix_def, THEN conjunct2, THEN conjunct2, THEN conjunct1, rule_format, where a = a and w = w] o by simp_all
  show ?case
  proof (cases "files a")
    case None
    then show ?thesis using o p assms by (simp add: posix_def)
  next
    case (Some c)
    obtain bs b where c: "c = (bs, b)" by fastforce
    obtain w2 where 2: "simple_cat os fd w1 = Some (if b then Some 1 else None, w2)" "out w2 = out w1 @ bs"
      using simple_cat_copies [OF assms, of fd w1] p(2) Some c by auto
    have "out (u_close os fd w2) = out w2" using assms by (simp add: posix_def)
    then show ?thesis using Cons.IH [of "u_close os fd w2"] Some c o p 2 by (cases b) auto
  qed
qed simp

text \<open>
  C40: \<^verbatim>\<open>cat\<close> ends, and what it has passed to \<^verbatim>\<open>write\<close> is what it has to write: with no arguments everything that can be read from descriptor 0, otherwise the contents of the files it
  is given, in order and each once, up to the first that cannot be opened or whose reading fails. The exit code is 1 after a failed read and 0 in every other case, also when a file
  cannot be opened.
\<close>

theorem cat_copies:
  assumes "posix os togo out files" "\<forall>f as w. togo (u_printf os f as w) = togo w"
  shows "\<exists>w' bs code. cat_main os (prog # as) w = Some (code, w') \<and> out w' = out w @ bs
     \<and> (bs, code) = cat_spec (if as = [] then [Some (togo w 0)] else map files as)"
proof -
  define w1 where "w1 = u_printf os (''cat start------------'' @ [nl]) [] w"
  have w1: "out w1 = out w" "togo w1 = togo w" using assms by (simp_all add: w1_def posix_def)
  show ?thesis
  proof (cases "as = []")
    case True
    obtain bs b where t: "togo w 0 = (bs, b)" by fastforce
    obtain w2 where "simple_cat os 0 w1 = Some (if b then Some 1 else None, w2)" "out w2 = out w1 @ bs" using simple_cat_copies [OF assms(1), of 0 w1] t w1(2) by auto
    then show ?thesis using True t w1(1) unfolding cat_main_def w1_def [symmetric] Let_def by (cases b) auto
  next
    case False
    obtain w2 where "cat_files os as w1 = Some (snd (cat_spec (map files as)), w2)" "out w2 = out w1 @ fst (cat_spec (map files as))"
      using cat_files_copies [OF assms(1)] by blast
    then show ?thesis using False w1(1) unfolding cat_main_def w1_def [symmetric] Let_def by (cases as) auto
  qed
qed

text \<open>A world of one open file and the bytes written so far, in which reads deliver at most 100 bytes.\<close>

definition demo_os :: "(string \<Rightarrow> stream option) \<Rightarrow> (stream \<times> byte list) os" where
  "demo_os files = \<lparr>u_open = (\<lambda>a _ (t, u). case files a of None \<Rightarrow> (- 1, t, u) | Some c \<Rightarrow> (3, c, u)),
     u_close = (\<lambda>_ w. w),
     u_read = (\<lambda>_ n (t, u). if t = ([], True) then (- 1, [], t, u)
       else (int (min (length (fst t)) (min n 100)), take (min n 100) (fst t), (drop (min n 100) (fst t), snd t), u)),
     u_write = (\<lambda>fd bs (t, u). (int (length bs), t, if fd = 1 then u @ bs else u)),
     u_printf = (\<lambda>_ _ w. w), u_eprintf = (\<lambda>_ _ w. w), u_fputs = (\<lambda>_ w. w), u_putchar = (\<lambda>_ w. w), u_fgets = (\<lambda>_ w. (None, w)),
     u_stat = (\<lambda>_ w. (- 1, \<lparr>us_mode = 0, us_ino = 0, us_size = 0\<rparr>, w)), u_fstat = (\<lambda>_ w. (- 1, \<lparr>us_mode = 0, us_ino = 0, us_size = 0\<rparr>, w)),
     u_mkdir = (\<lambda>_ _ w. (- 1, w)), u_mknod = (\<lambda>_ _ _ w. (- 1, w)), u_dup = (\<lambda>_ w. (- 1, w)), u_fork = (\<lambda>w. (- 1, w)),
     u_execve = (\<lambda>_ _ _ w. Some w), u_wait = (\<lambda>w. (- 1, w))\<rparr>"

lemma demo_os_posix: "posix (demo_os files) (\<lambda>w _. fst w) snd files"
  by (auto simp: posix_def demo_os_def prod_eq_iff split: option.splits)

theorem cat_copies_witness:
  "(\<exists>w'. cat_main (demo_os [''a'' \<mapsto> (replicate 300 7, False), ''b'' \<mapsto> ([8], False)]) [''cat'', ''a'', ''b'', ''x'', ''a''] (([], False), [9]) = Some (0, w')
      \<and> snd w' = 9 # replicate 300 7 @ [8])
   \<and> (\<exists>w'. cat_main (demo_os [''a'' \<mapsto> (replicate 300 7, True), ''b'' \<mapsto> ([8], False)]) [''cat'', ''b'', ''a'', ''b''] (([], False), [9]) = Some (1, w')
      \<and> snd w' = 9 # 8 # replicate 300 7)"
proof -
  have "\<forall>f as w. fst (u_printf (demo_os fs) f as w) = fst w" for fs by (simp add: demo_os_def)
  note c = cat_copies [OF demo_os_posix, where prog = "''cat''" and w = "(([], False), [9])"]
  show ?thesis
    using c [of "[''a'' \<mapsto> (replicate 300 7, False), ''b'' \<mapsto> ([8], False)]" "[''a'', ''b'', ''x'', ''a'']"]
      c [of "[''a'' \<mapsto> (replicate 300 7, True), ''b'' \<mapsto> ([8], False)]" "[''b'', ''a'', ''b'']"] \<open>\<And>fs. \<forall>f as w. fst (u_printf (demo_os fs) f as w) = fst w\<close>
    by simp
qed

end
