(* ===== verification/Spec2Isabelle.thy ===== *)
theory Spec2Isabelle
  imports Prelude Locks Linked_List Disk_Layout CString Bitmap Semaphore Cache Console Inode Inode_Data Pipe File_Table Kernel_Mem Page_Table Paging Rbtree Timers Shell Sched Process Sysfile Sysproc Format Mkfs Mkfs_Append Mkfs_Image Interrupts Virtio Virtio_Queue Block_Device Devices Kernel_PT Exec Directory Fs_Init User_Programs
begin

text \<open>
  Verification library of the FDU operating system kernel, its file system and its shell.

  \<^bold>\<open>The program.\<close> A kernel for four AArch64 CPUs. From the bottom up: spin locks, reference counts, circular lists, lock-free
  stacks and red-black trees (\<^verbatim>\<open>common/\<close>); a physical page allocator with a block allocator on top of it (\<^verbatim>\<open>kernel/mem.c\<close>); page tables,
  memory sections and the page fault handler (\<^verbatim>\<open>kernel/pt.c\<close>, \<^verbatim>\<open>kernel/paging.c\<close>); the clock and the timers of a CPU (\<^verbatim>\<open>driver/clock.c\<close>,
  \<^verbatim>\<open>kernel/cpu.c\<close>); semaphores (\<^verbatim>\<open>common/sem.c\<close>) that put processes to sleep through the scheduler (\<^verbatim>\<open>kernel/sched.c\<close>); processes
  (\<^verbatim>\<open>kernel/proc.c\<close>); a file system of four layers, the block cache with its write-ahead log (\<^verbatim>\<open>fs/cache.c\<close>), inodes with directories and paths
  (\<^verbatim>\<open>fs/inode.c\<close>), pipes (\<^verbatim>\<open>fs/pipe.c\<close>) and file objects (\<^verbatim>\<open>fs/file.c\<close>); the console device (\<^verbatim>\<open>kernel/console.c\<close>); system calls
  (\<^verbatim>\<open>kernel/syscall.c\<close>, \<^verbatim>\<open>kernel/sysfile.c\<close>, \<^verbatim>\<open>kernel/sysproc.c\<close>); formatted
  output (\<^verbatim>\<open>common/format.c\<close>, \<^verbatim>\<open>kernel/printk.c\<close>); and in user space the shell (\<^verbatim>\<open>user/sh/main.c\<close>) and the program that builds
  the disk image (\<^verbatim>\<open>user/mkfs/main.c\<close>).

  \<^bold>\<open>Conventions.\<close> A C structure is a record and an operation is a function from state to result, under the name it has in the source. Errors are
  values: \<open>Panic\<close> for \<^verbatim>\<open>PANIC\<close> and failed assertions, \<open>Fault\<close> for an access the C code would make out of bounds or through a null pointer,
  \<open>Blocked\<close> for a call that never returns when the caller runs alone, such as acquiring a held lock or sleeping with nobody to post.
  Pointers are addresses (natural numbers) and the memory behind them is part of the state where the code depends on sharing: list nodes,
  tree nodes, page tables, user pages. Machine integers are words, or numbers with the reduction written out, wherever the code can wrap.
  Concurrency is modelled where the code is about it: interleaved accesses to a spin lock, waits and posts of many processes on a semaphore, the
  lock-free stack, log operations of many processes, crashes between disk writes, and the scheduler on four CPUs are step relations or
  explicit sequences of steps; everything else is a call that runs to completion.

  \<^bold>\<open>Theories, bottom up.\<close>
  \<^descr> \<^verbatim>\<open>Prelude\<close>: the result type and its sequencing, ranges of byte arrays, little-endian numbers, shared lemmas.
  \<^descr> \<^verbatim>\<open>Locks\<close>: \<^verbatim>\<open>common/spinlock.c\<close>, \<^verbatim>\<open>common/rc.c\<close>. The routines as sequences of accesses to the flag; mutual exclusion when the accesses of
    many CPUs interleave in any order.
  \<^descr> \<^verbatim>\<open>Linked_List\<close>: \<^verbatim>\<open>common/list.c\<close>. Circular lists on a pointer heap, insertion, removal, merging and traversal; the queue refines
    a first-in first-out sequence (locale \<open>fifo\<close>); the lock-free stack and the schedule in which an item reused meanwhile corrupts it.
  \<^descr> \<^verbatim>\<open>Rbtree\<close>: \<^verbatim>\<open>common/rbtree.c\<close> with parent pointers and colours on a heap. A heap representation of trees; insertion keeps order, colours and
    links; lookup and minimum are right. Removal is modelled and not proved.
  \<^descr> \<^verbatim>\<open>CString\<close>, \<^verbatim>\<open>Bitmap\<close>: \<^verbatim>\<open>common/string.c\<close>, \<^verbatim>\<open>common/bitmap.h\<close>. Overlapping copies, comparison and padding of strings; bits of a block.
  \<^descr> \<^verbatim>\<open>Semaphore\<close>: \<^verbatim>\<open>common/sem.c\<close>. Units are conserved by all interleavings of waits, posts and interrupted waits, and the counter stays in the range
    of an \<^verbatim>\<open>int\<close> below \<open>2^31\<close> posts and waits; \<^verbatim>\<open>post_all_sem\<close> wakes all.
  \<^descr> \<^verbatim>\<open>Kernel_Mem\<close>, \<^verbatim>\<open>Page_Table\<close>, \<^verbatim>\<open>Paging\<close>: \<^verbatim>\<open>kernel/mem.c\<close>, \<^verbatim>\<open>kernel/pt.c\<close>, \<^verbatim>\<open>kernel/paging.c\<close>. Allocated blocks of at most 4072 bytes never overlap, and what larger requests do; mapping a page
    changes one translation; \<^verbatim>\<open>copyout\<close> stores into a mapped page and aborts without one; a fault gives a lazily allocated or copied page and changes no other translation.
  \<^descr> \<^verbatim>\<open>Kernel_PT\<close>: \<^verbatim>\<open>aarch64/kernel_pt.c\<close>. The kernel's own tables map device registers and memory linearly.
  \<^descr> \<^verbatim>\<open>Timers\<close>: \<^verbatim>\<open>kernel/cpu.c\<close>, \<^verbatim>\<open>driver/clock.c\<close>. Arming a timer programs the clock for the earliest deadline, also when it has passed.
  \<^descr> \<^verbatim>\<open>Disk_Layout\<close>, \<^verbatim>\<open>Cache\<close>: \<^verbatim>\<open>fs/defines.h\<close>, \<^verbatim>\<open>fs/cache.c\<close>. The contract of cached blocks, allocation in the bitmap, the log's space reservation, and
    atomicity of a commit for a crash after any prefix of its disk writes.
  \<^descr> \<^verbatim>\<open>Console\<close>, \<^verbatim>\<open>Inode\<close>, \<^verbatim>\<open>Inode_Data\<close>, \<^verbatim>\<open>Pipe\<close>, \<^verbatim>\<open>File_Table\<close>: the rest of the file system; a line typed is the line read, a pipe is a bounded queue of
    bytes also when its counters wrap, and how pipes and files are connected. In the inode layer a path is taken apart like splitting it
    at its slashes, and a range of a file that is overwritten reads back, with direct and indirect blocks, on top of the contract of the block cache.
  \<^descr> \<^verbatim>\<open>Directory\<close>: a directory as the list of its entries. Insertion and lookup of \<^verbatim>\<open>Inode\<close> behave as on a table of names of at most 14 characters, whether an
    entry is reused or the directory grows.
  \<^descr> \<^verbatim>\<open>Sched\<close>, \<^verbatim>\<open>Process\<close>, \<^verbatim>\<open>Sysproc\<close>: scheduler, processes and their system calls. The run queue and CPU invariant over all steps, the choice of the next process,
    the starvation of a process
    whose load has reached the limit, handing over children at exit, and \<^verbatim>\<open>wait\<close> as a whole: no children, a zombie to collect, sleeping and being alerted.
  \<^descr> \<^verbatim>\<open>Sysfile\<close>: the file and mapping system calls on the state of a process and the system, with user memory reached through the page table.
  \<^descr> \<^verbatim>\<open>Exec\<close>: \<^verbatim>\<open>kernel/exec.c\<close>. Loading an ELF file into a new address space with its stack; a call that fails leaves the process as it was.
  \<^descr> \<^verbatim>\<open>Format\<close>: \<^verbatim>\<open>common/format.c\<close>, \<^verbatim>\<open>kernel/printk.c\<close>. Printed numbers read back, and format strings render piece by piece, numerals being defined
    independently of the code.
  \<^descr> \<^verbatim>\<open>Mkfs\<close>, \<^verbatim>\<open>Mkfs_Append\<close>, \<^verbatim>\<open>Mkfs_Image\<close>: the image builder \<^verbatim>\<open>user/mkfs/main.c\<close>. Its bitmap is the one the kernel reads; appending extends one file and keeps all
    files on blocks of their own; each file of the host ends up in its inode with an entry in the root directory.
  \<^descr> \<^verbatim>\<open>Interrupts\<close>, \<^verbatim>\<open>Devices\<close>: \<^verbatim>\<open>driver/interrupt.c\<close>, \<^verbatim>\<open>driver/gicv3.c\<close>, \<^verbatim>\<open>driver/uart.c\<close>, \<^verbatim>\<open>driver/timer.c\<close>, \<^verbatim>\<open>aarch64/trap.c\<close> and the device part of \<^verbatim>\<open>main.c\<close>. Start-up enables
    exactly the interrupts it registers handlers for, and the dispatcher reaches the handlers of the console, the clock and the disk.
  \<^descr> \<^verbatim>\<open>Virtio\<close>, \<^verbatim>\<open>Virtio_Queue\<close>: \<^verbatim>\<open>driver/virtio_blk.c\<close>. Callers, device, interrupts and wake-ups interleave as a step relation; each descriptor is free or belongs to
    one request, and the handler and the end of a request never fail. The device is a parameter with what the specification of virtio says as its hypothesis.
  \<^descr> \<^verbatim>\<open>Block_Device\<close>: \<^verbatim>\<open>fs/block_device.c\<close> over the driver refines the array of blocks that \<^verbatim>\<open>Cache\<close> takes the disk to be.
  \<^descr> \<^verbatim>\<open>Fs_Init\<close>: \<^verbatim>\<open>fs/fs.c\<close> puts driver, cache, inodes and files together; mounting a sound medium succeeds and loads the root inode.
  \<^descr> \<^verbatim>\<open>Shell\<close>: the command parser and the tree of system calls of a command. The processes a parsed line starts, their programs, descriptors and waits, are those the line means.
  \<^descr> \<^verbatim>\<open>User_Programs\<close>: \<^verbatim>\<open>user/cat\<close>, \<^verbatim>\<open>user/echo\<close>, \<^verbatim>\<open>user/mkdir\<close>, \<^verbatim>\<open>user/ls\<close>, \<^verbatim>\<open>user/init\<close> over a C library that is a parameter; \<^verbatim>\<open>cat\<close> ends and copies what it is given, with the exit
    code that tells of a failed read.

  \<^bold>\<open>Bounds and fuel.\<close> The shell's parser takes \<open>4 * strlen + 4\<close> units, one per call or loop round, and is proved never to run out. The timer interrupt
  fires at most the given number of timers in one call, and \<open>None\<close> is a call that does not return. \<open>find_proc\<close> searches the process tree to depth
  \<^verbatim>\<open>max_pid + 1\<close>, more than there are processes. Releasing a descriptor chain follows at most 16 links, the number of descriptors: a longer walk has met a descriptor
  twice and never ends. Waiting for the interrupt controller takes the values it reads as a list. All other loops are total functions.

  \<^bold>\<open>Not modelled.\<close> Assembly and access to system registers (\<^verbatim>\<open>aarch64/\<close>), whose effects are the processor's; \<^verbatim>\<open>kernel_entry\<close> and the idle loop; the
  programs that test the kernel and its system calls.
\<close>

end
